(* ===== verification/Yaos_Prelude.thy ===== *)
theory Yaos_Prelude
  imports Main "HOL-Library.Word"
begin

text \<open>
  Shared vocabulary of the development: the machine types of \<open>include/yaos/types.h\<close>,
  the outcome of a C function (a value, or the way it fails to return one), the assertion macro of
  \<open>include/yaos/assert.h\<close>, the spin lock of \<open>arch/x86_64/include/asm/spinlock.h\<close>, and the
  generic lemmas on words, on outcomes and on address ranges that the components share.
\<close>

unbundle bit_operations_syntax

named_theorems outcome_simps \<open>rewriting of outcomes\<close>

section \<open>Machine types\<close>

type_synonym u8 = "8 word"
type_synonym u16 = "16 word"
type_synonym u32 = "32 word"
type_synonym ulong = "64 word"

text \<open>A pointer into a static array of nodes: the index of the node, or NULL.\<close>

type_synonym ptr = "nat option"

section \<open>Outcomes\<close>

text \<open>
  A function of the kernel returns a value, or stops in one of the ways the source has:
  \<open>ASSERT\<close> fails and \<open>BUG()\<close> panics, \<open>panic\<close> is called, a NULL pointer is
  dereferenced, a spin lock that is held is taken again (the lock spins), a loop
  does not end, a call through a table reaches a function the model of the table does not contain,
  or a static array is written past its end.
\<close>

datatype fault =
    Assertion_failed
  | Panicked
  | Null_dereference
  | Spins_forever
  | Loops_forever
  | Wild_call
  | Out_of_bounds

type_synonym 'a outcome = "fault + 'a"

definition andThen :: "'a outcome \<Rightarrow> ('a \<Rightarrow> 'b outcome) \<Rightarrow> 'b outcome" where
  "andThen m f = (case m of Inl e \<Rightarrow> Inl e | Inr x \<Rightarrow> f x)"

text \<open>\<open>ASSERT(x)\<close> in a build with \<open>DEBUG\<close> (the Makefile passes \<open>-DDEBUG\<close>).\<close>

definition ASSERT :: "bool \<Rightarrow> unit outcome" where
  "ASSERT x = (if x then Inr () else Inl Assertion_failed)"

definition panic :: "'a outcome" where
  "panic = Inl Panicked"

text \<open>The result of a loop: \<open>None\<close> is a loop that does not end.\<close>

definition ending :: "'a option \<Rightarrow> 'a outcome" where
  "ending r = (case r of None \<Rightarrow> Inl Loops_forever | Some x \<Rightarrow> Inr x)"

text \<open>Following a pointer: a NULL pointer faults.\<close>

definition deref :: "ptr \<Rightarrow> nat outcome" where
  "deref p = (case p of None \<Rightarrow> Inl Null_dereference | Some i \<Rightarrow> Inr i)"

section \<open>Spin locks\<close>

text \<open>
  A lock as one CPU sees it: taking a lock that is already held spins in
  \<open>test_and_set_bit_lock\<close> and never returns, since nobody else releases it.
\<close>

type_synonym spinlock_t = bool

definition init_spinlock :: "spinlock_t" where
  "init_spinlock = False"

definition spin_lock :: "spinlock_t \<Rightarrow> spinlock_t outcome" where
  "spin_lock t = (if t then Inl Spins_forever else Inr True)"

definition spin_unlock :: "spinlock_t \<Rightarrow> spinlock_t" where
  "spin_unlock t = False"

section \<open>Rewriting of outcomes\<close>

lemma andThen_Inr [simp]: "andThen (Inr x) f = f x"
  by (simp add: andThen_def)

lemma andThen_Inl [simp]: "andThen (Inl e) f = Inl e"
  by (simp add: andThen_def)

lemma andThen_eq_Inr [outcome_simps]:
  "andThen m f = Inr y \<longleftrightarrow> (\<exists>x. m = Inr x \<and> f x = Inr y)"
  by (cases m) auto

lemma andThen_assoc: "andThen (andThen m f) g = andThen m (\<lambda>x. andThen (f x) g)"
  by (cases m) auto

lemma ASSERT_True [simp]: "ASSERT True = Inr ()"
  and ASSERT_False [simp]: "ASSERT False = Inl Assertion_failed"
  by (simp_all add: ASSERT_def)

lemma ASSERT_eq_Inr [outcome_simps]: "ASSERT b = Inr u \<longleftrightarrow> b"
  by (simp add: ASSERT_def)

lemma panic_neq_Inr [simp]: "panic \<noteq> Inr x" "Inr x \<noteq> panic"
  by (simp_all add: panic_def)

lemma andThen_panic [simp]: "andThen panic f = panic"
  by (simp add: panic_def)

lemma ending_Some [simp]: "ending (Some x) = Inr x"
  and ending_None [simp]: "ending None = Inl Loops_forever"
  by (simp_all add: ending_def)

lemma deref_Some [simp]: "deref (Some i) = Inr i"
  and deref_None [simp]: "deref None = Inl Null_dereference"
  by (simp_all add: deref_def)

lemma spin_lock_free [simp]: "spin_lock False = Inr True"
  and spin_lock_held [simp]: "spin_lock True = Inl Spins_forever"
  by (simp_all add: spin_lock_def)

lemma spin_unlock_eq [simp]: "spin_unlock t = False"
  by (simp add: spin_unlock_def)

section \<open>Words\<close>

lemma unat_add_no_wrap:
  fixes a b :: ulong
  assumes "unat a + unat b < 2 ^ 64"
  shows "unat (a + b) = unat a + unat b"
  using assms by (simp add: unat_word_ariths)

lemma unat_sub_no_wrap:
  fixes a b :: "'a::len word"
  assumes "b \<le> a"
  shows "unat (a - b) = unat a - unat b"
  using assms by (rule unat_sub)

lemma unat_of_nat_small: "n < 2 ^ 64 \<Longrightarrow> unat (of_nat n :: ulong) = n"
  by (simp add: unsigned_of_nat take_bit_nat_eq_self)

lemma ulong_lt_2p64: "unat (a::ulong) < 2 ^ 64"
  using unsigned_less [of a] by simp

text \<open>A value below 4G survives storage in 32 bits.\<close>

lemma ucast_u32_take_bit: "ucast (ucast (x::ulong) :: u32) = take_bit 32 x"
  by (rule bit_word_eqI) (auto simp: bit_simps)

lemma ucast_u32_id:
  assumes "unat (x::ulong) < 2 ^ 32" shows "ucast (ucast x :: u32) = x"
proof -
  have "unat (take_bit 32 x) = unat x"
    using assms by (simp only: unsigned_take_bit_eq take_bit_nat_eq_self)
  then show ?thesis by (simp only: ucast_u32_take_bit word_unat_eq_iff)
qed

text \<open>Masks of the form \<open>2^n - 1\<close>, which the kernel uses to test and force alignment.\<close>

lemma unat_and_mask: "unat ((a::ulong) AND (2 ^ n - 1)) = unat a mod 2 ^ n"
proof -
  have "a AND (2 ^ n - 1) = take_bit n a"
    by (simp add: take_bit_eq_mask mask_eq_decr_exp)
  moreover have "unat (take_bit n a) = unat a mod 2 ^ n"
    by (simp only: unsigned_take_bit_eq) (simp only: take_bit_eq_mod)
  ultimately show ?thesis by simp
qed

lemma aligned_iff_dvd: "(a::ulong) AND (2 ^ n - 1) = 0 \<longleftrightarrow> 2 ^ n dvd unat a"
proof -
  have "a AND (2 ^ n - 1) = 0 \<longleftrightarrow> unat (a AND (2 ^ n - 1)) = 0"
    by (rule unat_eq_0 [symmetric])
  then show ?thesis
    by (simp only: unat_and_mask dvd_eq_mod_eq_0)
qed

lemma unat_and_not_mask: "unat ((a::ulong) AND NOT (2 ^ n - 1)) = unat a - unat a mod 2 ^ n"
proof -
  let ?m = "2 ^ n - 1 :: ulong"
  have "(a AND NOT ?m) + (a AND ?m) = (a AND NOT ?m) OR (a AND ?m)"
    by (rule disjunctive_add) (simp add: bit_simps)
  also have "\<dots> = a"
    by (rule bit_word_eqI) (auto simp: bit_simps)
  finally have "a AND NOT ?m = a - (a AND ?m)"
    by (simp add: eq_diff_eq)
  moreover have "a AND ?m \<le> a"
    by (simp add: word_le_nat_alt unat_and_mask)
  ultimately have "unat (a AND NOT ?m) = unat a - unat (a AND ?m)"
    by (metis unat_sub_no_wrap)
  then show ?thesis
    by (simp only: unat_and_mask)
qed

lemmas mask_4k = unat_and_mask [of _ 12, simplified] unat_and_not_mask [of _ 12, simplified]
lemmas mask_2m = unat_and_mask [of _ 21, simplified] unat_and_not_mask [of _ 21, simplified]
lemmas aligned_4k = aligned_iff_dvd [of _ 12, simplified]
lemmas aligned_2m = aligned_iff_dvd [of _ 21, simplified]

text \<open>Alignment to a power of two is kept by sums and differences, even when they wrap.\<close>

definition aligned :: "nat \<Rightarrow> ulong \<Rightarrow> bool" where
  "aligned k a \<longleftrightarrow> take_bit k a = 0"

abbreviation al4k :: "ulong \<Rightarrow> bool" where "al4k \<equiv> aligned 12"
abbreviation al2m :: "ulong \<Rightarrow> bool" where "al2m \<equiv> aligned 21"

lemma aligned_mask: "aligned k a \<longleftrightarrow> a AND (2 ^ k - 1) = 0"
  by (simp add: aligned_def take_bit_eq_mask mask_eq_decr_exp)

lemmas al4k_def = aligned_mask [of 12, simplified]
lemmas al2m_def = aligned_mask [of 21, simplified]

lemma al4k_dvd: "al4k a \<longleftrightarrow> 4096 dvd unat a"
  by (simp add: al4k_def aligned_4k)

lemma al2m_dvd: "al2m a \<longleftrightarrow> 0x200000 dvd unat a"
  by (simp add: al2m_def aligned_2m)

lemma aligned_0 [simp]: "aligned k 0"
  by (simp add: aligned_def)

lemma aligned_dvd_word: "aligned k a \<longleftrightarrow> 2 ^ k dvd a"
  by (simp only: aligned_def take_bit_eq_0_iff)

lemma aligned_add [intro]: "aligned k a \<Longrightarrow> aligned k b \<Longrightarrow> aligned k (a + b)"
  and aligned_diff [intro]: "aligned k a \<Longrightarrow> aligned k b \<Longrightarrow> aligned k (a - b)"
  by (simp_all only: aligned_dvd_word dvd_add dvd_diff)

text \<open>Rounding up to a multiple.\<close>

lemma round_up_nat:
  assumes d: "0 < d" and nd: "\<not> d dvd x"
  shows "x - x mod d + d = (x + (d - 1)) div d * (d::nat)"
proof -
  have m: "0 < x mod d" using nd by (simp add: dvd_eq_mod_eq_0)
  have x: "x + (d - 1) = (x div d) * d + (x mod d + (d - 1))"
    using div_mult_mod_eq [of x d] by linarith
  have "(x mod d + (d - 1)) div d = 1"
    using m d mod_less_divisor [OF d, of x] by (intro div_nat_eqI) auto
  then have "(x + (d - 1)) div d = x div d + 1"
    unfolding x using div_mult_self3 [of d "x div d" "x mod d + (d - 1)"] d by simp
  moreover have "x - x mod d = x div d * d" by (simp add: minus_mod_eq_div_mult)
  ultimately show ?thesis by simp
qed

lemma round_up_ge: "0 < d \<Longrightarrow> x \<le> (x + (d - 1)) div d * (d::nat)"
proof -
  assume d: "0 < d"
  then have "(x + (d - 1)) mod d \<le> d - 1" using mod_less_divisor [of d "x + (d - 1)"] by linarith
  then show ?thesis using div_mult_mod_eq [of "x + (d - 1)" d] d by linarith
qed

section \<open>Address ranges\<close>

text \<open>The bytes of a block: the addresses from \<open>a\<close> on, \<open>n\<close> of them.\<close>

definition span :: "ulong \<Rightarrow> ulong \<Rightarrow> nat set" where
  "span a n = {unat a ..< unat a + unat n}"

lemma span_zero [simp]: "span a 0 = {}"
  by (simp add: span_def)

lemma span_split:
  assumes "unat a + unat n < 2 ^ 64" and "m \<le> n"
  shows "span a n = span a m \<union> span (a + m) (n - m)"
    and "span a m \<inter> span (a + m) (n - m) = {}"
proof -
  from assms(2) have mn: "unat m \<le> unat n"
    by (simp add: word_le_nat_alt)
  then have "unat a + unat m < 2 ^ 64"
    using assms(1) by linarith
  then have am: "unat (a + m) = unat a + unat m"
    by (rule unat_add_no_wrap)
  have nm: "unat (n - m) = unat n - unat m"
    using assms(2) by (rule unat_sub_no_wrap)
  show "span a n = span a m \<union> span (a + m) (n - m)"
    using mn by (auto simp: span_def am nm)
  show "span a m \<inter> span (a + m) (n - m) = {}"
    by (auto simp: span_def am nm)
qed

lemma span_join:
  assumes "unat a + unat n + unat m < 2 ^ 64"
  shows "span a (n + m) = span a n \<union> span (a + n) m"
proof -
  have "unat (a + n) = unat a + unat n" "unat (n + m) = unat n + unat m"
    using assms by (auto intro!: unat_add_no_wrap)
  then show ?thesis
    by (auto simp: span_def)
qed

lemma map_filter_append [simp]: "List.map_filter f (xs @ ys) = List.map_filter f xs @ List.map_filter f ys"
  by (simp add: List.map_filter_def)

end
