(* ===== verification/Ptr_List.thy ===== *)
theory Ptr_List
  imports Yaos_Prelude
begin

text \<open>
  Singly linked lists in a static array of nodes. The kernel keeps its descriptors in arrays and
  links them through a \<open>pnext\<close> field; every component walks such a list with the
  same few loops. The loops are modelled once, over the function that gives a node's
  \<open>pnext\<close>, and related to lists of node indices by \<open>linked\<close>.
\<close>

section \<open>The loops\<close>

text \<open>\<open>while (p && !stop(p)) p = p->pnext;\<close>\<close>

partial_function (option) walk :: "(nat \<Rightarrow> ptr) \<Rightarrow> (nat \<Rightarrow> bool) \<Rightarrow> ptr \<Rightarrow> ptr option" where
  "walk nxt stop p =
     (case p of None \<Rightarrow> Some None
      | Some i \<Rightarrow> if stop i then Some (Some i) else walk nxt stop (nxt i))"

declare walk.simps [code]

text \<open>\<open>while (i->pnext && go(i->pnext)) i = i->pnext;\<close>\<close>

partial_function (option) seek :: "(nat \<Rightarrow> ptr) \<Rightarrow> (nat \<Rightarrow> bool) \<Rightarrow> nat \<Rightarrow> nat option" where
  "seek nxt go i =
     (case nxt i of None \<Rightarrow> Some i
      | Some j \<Rightarrow> if go j then seek nxt go j else Some i)"

declare seek.simps [code]

text \<open>The nodes of a list, in the order in which a traversal meets them.\<close>

partial_function (option) chain :: "(nat \<Rightarrow> ptr) \<Rightarrow> ptr \<Rightarrow> nat list option" where
  "chain nxt p =
     (case p of None \<Rightarrow> Some []
      | Some i \<Rightarrow> Option.bind (chain nxt (nxt i)) (\<lambda>xs. Some (i # xs)))"

declare chain.simps [code]

text \<open>
  The initialisation loops of the kernel: node \<open>i\<close> of an array of \<open>n\<close> nodes
  points to node \<open>i + 1\<close>, the last one to NULL.
\<close>

definition array_next :: "nat \<Rightarrow> nat \<Rightarrow> ptr" where
  "array_next n i = (if Suc i < n then Some (Suc i) else None)"

section \<open>Lists\<close>

primrec linked :: "(nat \<Rightarrow> ptr) \<Rightarrow> ptr \<Rightarrow> nat list \<Rightarrow> bool" where
  "linked nxt p [] \<longleftrightarrow> p = None"
| "linked nxt p (x # xs) \<longleftrightarrow> p = Some x \<and> linked nxt (nxt x) xs"

lemma linked_None [simp]: "linked nxt None xs \<longleftrightarrow> xs = []"
  by (cases xs) auto

lemma linked_Some: "linked nxt (Some x) xs \<longleftrightarrow> (\<exists>ys. xs = x # ys \<and> linked nxt (nxt x) ys)"
  by (cases xs) auto

lemma linked_unique: "linked nxt p xs \<Longrightarrow> linked nxt p ys \<Longrightarrow> xs = ys"
  by (induction xs arbitrary: p ys) (auto simp: linked_Some)

lemma linked_suffix: "linked nxt p (xs @ y # ys) \<Longrightarrow> linked nxt (Some y) (y # ys)"
  by (induction xs arbitrary: p) auto

lemma linked_distinct: "linked nxt p xs \<Longrightarrow> distinct xs"
proof (induction xs arbitrary: p)
  case Nil
  then show ?case by simp
next
  case (Cons x xs)
  then have tl: "linked nxt (nxt x) xs" and p: "p = Some x" by auto
  have "x \<notin> set xs"
  proof
    assume "x \<in> set xs"
    then obtain ys zs where xs: "xs = ys @ x # zs" by (auto simp: in_set_conv_decomp)
    with tl have "linked nxt (Some x) (x # zs)" by (auto dest: linked_suffix)
    with tl have "xs = zs" by (auto dest: linked_unique)
    with xs show False by (metis append_eq_conv_conj length_append less_not_refl length_Cons
          le_add2 not_less_eq_eq order_refl)
  qed
  with Cons.IH tl show ?case by simp
qed

lemma linked_upd_notin [simp]:
  "a \<notin> set xs \<Longrightarrow> linked (nxt(a := q)) p xs \<longleftrightarrow> linked nxt p xs"
  by (induction xs arbitrary: p) auto

lemma linked_cong:
  "linked nxt p xs \<Longrightarrow> (\<And>x. x \<in> set xs \<Longrightarrow> nxt' x = nxt x) \<Longrightarrow> linked nxt' p xs"
  by (induction xs arbitrary: p) auto

lemma linked_next_None:
  assumes "linked nxt p xs" and "i \<in> set xs" shows "nxt i = None \<longleftrightarrow> i = last xs"
  using assms
proof (induction xs arbitrary: p)
  case Nil
  then show ?case by simp
next
  case (Cons x xs)
  from linked_distinct [OF Cons.prems(1)] have "x \<notin> set xs" by simp
  then show ?case
    using Cons by (cases xs) auto
qed

lemma find_SomeD:
  "List.find P xs = Some x \<Longrightarrow> \<exists>ys zs. xs = ys @ x # zs \<and> P x \<and> (\<forall>y \<in> set ys. \<not> P y)"
proof (induction xs)
  case Nil
  then show ?case by simp
next
  case (Cons y xs)
  show ?case
  proof (cases "P y")
    case True
    with Cons.prems show ?thesis by (intro exI [of _ "[]"] exI [of _ xs]) auto
  next
    case False
    with Cons obtain ys zs where "xs = ys @ x # zs \<and> P x \<and> (\<forall>y \<in> set ys. \<not> P y)" by auto
    with False show ?thesis by (intro exI [of _ "y # ys"] exI [of _ zs]) auto
  qed
qed

section \<open>What the loops compute on a list\<close>

lemma walk_linked: "linked nxt p xs \<Longrightarrow> walk nxt stop p = Some (List.find stop xs)"
proof (induction xs arbitrary: p)
  case Nil
  then show ?case by (simp add: walk.simps)
next
  case (Cons x xs)
  then show ?case by (simp add: walk.simps [of nxt stop "Some x"])
qed

lemma seek_linked:
  "linked nxt (nxt i) xs \<Longrightarrow> seek nxt go i = Some (last (i # takeWhile go xs))"
proof (induction xs arbitrary: i)
  case Nil
  then show ?case by (simp add: seek.simps [of nxt go i])
next
  case (Cons x xs)
  then show ?case by (simp add: seek.simps [of nxt go i])
qed

lemma chain_linked: "linked nxt p xs \<Longrightarrow> chain nxt p = Some xs"
proof (induction xs arbitrary: p)
  case Nil
  then show ?case by (simp add: chain.simps)
next
  case (Cons x xs)
  then show ?case by (simp add: chain.simps [of nxt "Some x"])
qed

lemma chain_SomeD:
  assumes "chain nxt p = Some xs"
  shows "linked nxt p xs"
proof (rule chain.raw_induct [where P = "\<lambda>nxt p xs. linked nxt p xs", OF _ assms])
  fix f nxt p r
  assume "\<And>nxt p r. f nxt p = Some r \<Longrightarrow> linked nxt p r"
    and "(case p of None \<Rightarrow> Some []
          | Some i \<Rightarrow> Option.bind (f nxt (nxt i)) (\<lambda>xs. Some (i # xs))) = Some r"
  then show "linked nxt p r"
    by (auto split: option.splits bind_splits)
qed

lemma chain_iff_linked: "chain nxt p = Some xs \<longleftrightarrow> linked nxt p xs"
  using chain_linked chain_SomeD by blast

section \<open>Updates of the links\<close>

lemma linked_push:
  "linked nxt p xs \<Longrightarrow> n \<notin> set xs \<Longrightarrow> linked (nxt(n := p)) (Some n) (n # xs)"
  by simp

lemma linked_insert_after:
  assumes "linked nxt p (xs @ a # ys)" and "n \<notin> set (xs @ a # ys)"
  shows "linked (nxt(n := nxt a, a := Some n)) p (xs @ a # n # ys)"
proof -
  from assms(1) have "distinct (xs @ a # ys)" by (rule linked_distinct)
  with assms show ?thesis
    by (induction xs arbitrary: p) auto
qed

lemma linked_unlink_after:
  assumes "linked nxt p (xs @ a # b # ys)"
  shows "linked (nxt(a := nxt b)) p (xs @ a # ys)"
proof -
  from assms have "distinct (xs @ a # b # ys)" by (rule linked_distinct)
  with assms show ?thesis
    by (induction xs arbitrary: p) auto
qed

lemma linked_nth_next:
  "linked nxt p (xs @ a # b # ys) \<Longrightarrow> nxt a = Some b"
  by (induction xs arbitrary: p) auto

lemma linked_array_upt:
  assumes "k < n"
  shows "linked (array_next n) (Some k) [k..<n]"
  using assms
proof (induction "n - k" arbitrary: k)
  case 0
  then show ?case by simp
next
  case (Suc d)
  show ?case
  proof (cases "Suc k < n")
    case True
    with Suc have "linked (array_next n) (Some (Suc k)) [Suc k..<n]" by simp
    with True show ?thesis by (simp add: upt_conv_Cons array_next_def)
  next
    case False
    with Suc.prems have "n = Suc k" by simp
    then show ?thesis by (simp add: array_next_def)
  qed
qed

end
