(* ===== verification/Hole_List.thy ===== *)
theory Hole_List
  imports Ptr_List
begin

text \<open>
  The descriptor lists of the address-range allocators. \<open>kernel/phy_page.c\<close>,
  \<open>kernel/kheap.c\<close> and \<open>kernel/vm.c\<close> each keep a static array of descriptors with
  an address, a size and a \<open>pnext\<close> link, one list of holes (\<open>pheadsmall\<close>,
  \<open>phead4k\<close>, \<open>phead_small\<close>, \<open>phead\<close>) and one list of unused descriptors
  (\<open>pfreesmall\<close>, \<open>pfree4k\<close>, \<open>pfree_small\<close>, \<open>pfreeh\<close>), and each
  contains the same loops: look for the hole that ends where a block starts,
  insert by ascending address, look for a hole that is big enough, take a block from its front, and
  unlink a hole that is used up. The loops are here, the functions around them are in the
  components' theories.
\<close>

section \<open>Model\<close>

text \<open>The fields that the three descriptor structs have in common.\<close>

record hole =
  h_addr :: ulong
  h_size :: ulong
  pnext :: ptr

text \<open>A static array of descriptors with the heads of its two lists.\<close>

record 'a hole_list =
  nodes :: "nat \<Rightarrow> 'a hole_scheme"
  phead :: ptr
  pfree :: ptr

definition next_of :: "'a hole_list \<Rightarrow> nat \<Rightarrow> ptr" where
  "next_of L i = pnext (nodes L i)"

text \<open>\<open>while (ph) \<open>{\<close> if (ph->addr + ph->size == addr) ... ph = ph->pnext; \<open>}\<close>\<close>\<close>

definition find_adjacent :: "ulong \<Rightarrow> 'a hole_list \<Rightarrow> ptr option" where
  "find_adjacent a L =
     walk (next_of L) (\<lambda>i. h_addr (nodes L i) + h_size (nodes L i) = a) (phead L)"

text \<open>\<open>while (p && p->size < size) p = p->pnext;\<close>\<close>

definition find_fit :: "ulong \<Rightarrow> 'a hole_list \<Rightarrow> ptr option" where
  "find_fit sz L = walk (next_of L) (\<lambda>i. \<not> h_size (nodes L i) < sz) (phead L)"

text \<open>\<open>while (p && p->pnext && p->size < size) p = p->pnext;\<close>: the last hole, if none fits.\<close>

definition find_fit_or_last :: "ulong \<Rightarrow> 'a hole_list \<Rightarrow> ptr option" where
  "find_fit_or_last sz L =
     walk (next_of L) (\<lambda>i. pnext (nodes L i) = None \<or> \<not> h_size (nodes L i) < sz) (phead L)"

definition set_next :: "nat \<Rightarrow> ptr \<Rightarrow> 'a hole_list \<Rightarrow> 'a hole_list" where
  "set_next i q L = L\<lparr>nodes := (nodes L)(i := (nodes L i)\<lparr>pnext := q\<rparr>)\<rparr>"

text \<open>
  Insertion by ascending address: at the head if the list is empty or starts higher, otherwise
  after the last hole in a row whose successor is lower.
\<close>

definition insert_sorted :: "nat \<Rightarrow> 'a hole_list \<Rightarrow> 'a hole_list option" where
  "insert_sorted p L =
     (case phead L of
        None \<Rightarrow> Some ((set_next p None L)\<lparr>phead := Some p\<rparr>)
      | Some h \<Rightarrow>
          if h_addr (nodes L h) > h_addr (nodes L p)
          then Some ((set_next p (Some h) L)\<lparr>phead := Some p\<rparr>)
          else Option.bind (seek (next_of L) (\<lambda>j. h_addr (nodes L j) < h_addr (nodes L p)) h)
                 (\<lambda>ph. Some (set_next ph (Some p) (set_next p (pnext (nodes L ph)) L))))"

text \<open>
  The common part of the functions that free a block: \<open>p\<close> is the head of the unused
  descriptors, \<open>grow\<close> is what the function does to a hole that ends where the block starts,
  \<open>fill\<close> what it writes into a new descriptor. The result tells whether the block was
  merged.
\<close>

definition free_holes ::
  "('a hole_scheme \<Rightarrow> 'a hole_scheme) \<Rightarrow> ('a hole_scheme \<Rightarrow> 'a hole_scheme) \<Rightarrow> ulong \<Rightarrow> nat \<Rightarrow>
   'a hole_list \<Rightarrow> (bool \<times> 'a hole_list) outcome" where
  "free_holes grow fill a p L =
     andThen (ending (find_adjacent a L)) (\<lambda>ph.
     case ph of
       Some i \<Rightarrow> Inr (True, L\<lparr>nodes := (nodes L)(i := grow (nodes L i))\<rparr>)
     | None \<Rightarrow>
         let L1 = L\<lparr>pfree := pnext (nodes L p), nodes := (nodes L)(p := fill (nodes L p))\<rparr> in
         andThen (ending (insert_sorted p L1)) (\<lambda>L2. Inr (False, L2)))"

text \<open>Removing hole \<open>p\<close> from the list: the head, its successor, or a later one.\<close>

definition unlink_hole :: "nat \<Rightarrow> 'a hole_list \<Rightarrow> 'a hole_list outcome" where
  "unlink_hole p L =
     (if phead L = Some p then Inr (L\<lparr>phead := pnext (nodes L p)\<rparr>)
      else andThen (deref (phead L)) (\<lambda>h.
        if pnext (nodes L h) = Some p then Inr (set_next h (pnext (nodes L p)) L)
        else andThen (ending (seek (next_of L) (\<lambda>j. j \<noteq> p) h)) (\<lambda>q.
          if pnext (nodes L q) = None then panic
          else Inr (set_next q (pnext (nodes L p)) L))))"

text \<open>
  Taking \<open>sz\<close> bytes from the front of hole \<open>p\<close>: when \<open>drop\<close> holds of what
  is left, the descriptor moves to the unused list. The address is read and advanced after that.
\<close>

definition carve :: "(ulong \<Rightarrow> bool) \<Rightarrow> ulong \<Rightarrow> nat \<Rightarrow> 'a hole_list \<Rightarrow> (ulong \<times> 'a hole_list) outcome" where
  "carve dropped sz p L =
     (let L1 = L\<lparr>nodes := (nodes L)(p := (nodes L p)\<lparr>h_size := h_size (nodes L p) - sz\<rparr>)\<rparr> in
      andThen
        (if dropped (h_size (nodes L1 p))
         then andThen (unlink_hole p L1) (\<lambda>L2. Inr ((set_next p (pfree L2) L2)\<lparr>pfree := Some p\<rparr>))
         else Inr L1)
        (\<lambda>L3. Inr (h_addr (nodes L3 p),
           L3\<lparr>nodes := (nodes L3)(p := (nodes L3 p)\<lparr>h_addr := h_addr (nodes L3 p) + sz\<rparr>)\<rparr>)))"

text \<open>\<open>for (i = 0; i < n - 1; i++) holes[i].pnext = &holes[i + 1]; holes[n - 1].pnext = 0;\<close>\<close>

definition init_holes :: "nat \<Rightarrow> (nat \<Rightarrow> 'a hole_scheme) \<Rightarrow> 'a hole_list" where
  "init_holes n m =
     \<lparr>nodes = (\<lambda>i. if i < n then (m i)\<lparr>pnext := array_next n i\<rparr> else m i),
      phead = None, pfree = Some 0\<rparr>"

text \<open>A block at the head of the list, in the first unused descriptor \<open>p\<close>.\<close>

definition push_hole :: "('a hole_scheme \<Rightarrow> 'a hole_scheme) \<Rightarrow> nat \<Rightarrow> 'a hole_list \<Rightarrow> 'a hole_list" where
  "push_hole fill p L =
     (let L1 = L\<lparr>pfree := pnext (nodes L p), nodes := (nodes L)(p := fill (nodes L p))\<rparr> in
      (set_next p (phead L1) L1)\<lparr>phead := Some p\<rparr>)"

section \<open>Representation invariant\<close>

abbreviation hspan :: "'a hole_list \<Rightarrow> nat \<Rightarrow> nat set" where
  "hspan L i \<equiv> span (h_addr (nodes L i)) (h_size (nodes L i))"

text \<open>
  \<open>hs\<close> are the holes and \<open>fs\<close> the unused descriptors of an array of \<open>n\<close>: two
  lists without a common node, and no two holes overlap.
\<close>

definition hl_rep :: "nat \<Rightarrow> 'a hole_list \<Rightarrow> nat list \<Rightarrow> nat list \<Rightarrow> bool" where
  "hl_rep n L hs fs \<longleftrightarrow>
     linked (next_of L) (phead L) hs \<and> linked (next_of L) (pfree L) fs \<and>
     distinct (hs @ fs) \<and> set (hs @ fs) \<subseteq> {..<n} \<and>
     (\<forall>i \<in> set hs. h_size (nodes L i) \<noteq> 0 \<and>
        unat (h_addr (nodes L i)) + unat (h_size (nodes L i)) < 2 ^ 64) \<and>
     (\<forall>i \<in> set hs. \<forall>j \<in> set hs. i \<noteq> j \<longrightarrow> hspan L i \<inter> hspan L j = {})"

text \<open>Ascending addresses; with non-empty, disjoint holes each one ends before the next starts.\<close>

definition hl_sorted :: "'a hole_list \<Rightarrow> nat list \<Rightarrow> bool" where
  "hl_sorted L hs \<longleftrightarrow> sorted_wrt (\<lambda>i j. h_addr (nodes L i) < h_addr (nodes L j)) hs"

definition hl_inv :: "nat \<Rightarrow> 'a hole_list \<Rightarrow> bool" where
  "hl_inv n L \<longleftrightarrow> (\<exists>hs fs. hl_rep n L hs fs)"

definition hl_sorted_inv :: "nat \<Rightarrow> 'a hole_list \<Rightarrow> bool" where
  "hl_sorted_inv n L \<longleftrightarrow> (\<exists>hs fs. hl_rep n L hs fs \<and> hl_sorted L hs)"

text \<open>The free bytes of a hole list.\<close>

definition hl_bytes :: "'a hole_list \<Rightarrow> nat set" where
  "hl_bytes L = (case chain (next_of L) (phead L) of None \<Rightarrow> {} | Some hs \<Rightarrow> (\<Union>i \<in> set hs. hspan L i))"

lemma hl_bytes_rep: "hl_rep n L hs fs \<Longrightarrow> hl_bytes L = (\<Union>i \<in> set hs. hspan L i)"
  using chain_linked [of "next_of L" "phead L" hs] by (auto simp: hl_bytes_def hl_rep_def)

lemma next_of_upd [simp]:
  "next_of (L\<lparr>nodes := (nodes L)(i := m)\<rparr>) = (next_of L)(i := pnext m)"
  "next_of (L\<lparr>phead := q\<rparr>) = next_of L"
  "next_of (L\<lparr>pfree := q\<rparr>) = next_of L"
  "next_of (set_next i q L) = (next_of L)(i := q)"
  by (auto simp: next_of_def set_next_def fun_eq_iff)

lemma set_next_sel [simp]:
  "phead (set_next i q L) = phead L" "pfree (set_next i q L) = pfree L"
  "h_addr (nodes (set_next i q L) j) = h_addr (nodes L j)"
  "h_size (nodes (set_next i q L) j) = h_size (nodes L j)"
  "pnext (nodes (set_next i q L) j) = (if i = j then q else pnext (nodes L j))"
  by (auto simp: set_next_def)

lemma span_nonempty_disjoint_less:
  assumes "span a n \<inter> span b m = {}" "n \<noteq> 0" "m \<noteq> 0" "a \<le> b"
  shows "unat a + unat n \<le> unat b" and "a < b"
proof -
  have "unat n > 0" "unat m > 0"
    using assms(2,3) by (simp_all add: unat_gt_0)
  moreover have ab: "unat a \<le> unat b" using assms(4) by (simp add: word_le_nat_alt)
  ultimately have "unat b \<in> span b m" by (simp add: span_def)
  with assms(1) have "unat b \<notin> span a n" by blast
  with ab show le: "unat a + unat n \<le> unat b" by (auto simp: span_def)
  with \<open>unat n > 0\<close> show "a < b" by (simp add: word_less_nat_alt)
qed

lemma hl_repD:
  assumes "hl_rep n L hs fs"
  shows "linked (next_of L) (phead L) hs" "linked (next_of L) (pfree L) fs"
    "distinct hs" "distinct fs" "set hs \<inter> set fs = {}" "set hs \<subseteq> {..<n}" "set fs \<subseteq> {..<n}"
    "\<And>i. i \<in> set hs \<Longrightarrow> h_size (nodes L i) \<noteq> 0"
    "\<And>i. i \<in> set hs \<Longrightarrow> unat (h_addr (nodes L i)) + unat (h_size (nodes L i)) < 2 ^ 64"
    "\<And>i j. i \<in> set hs \<Longrightarrow> j \<in> set hs \<Longrightarrow> i \<noteq> j \<Longrightarrow> hspan L i \<inter> hspan L j = {}"
  using assms by (auto simp: hl_rep_def)

lemma hl_repI:
  assumes "linked (next_of L) (phead L) hs" "linked (next_of L) (pfree L) fs"
    "set hs \<inter> set fs = {}" "set hs \<subseteq> {..<n}" "set fs \<subseteq> {..<n}"
    "\<And>i. i \<in> set hs \<Longrightarrow> h_size (nodes L i) \<noteq> 0 \<and>
       unat (h_addr (nodes L i)) + unat (h_size (nodes L i)) < 2 ^ 64"
    "\<And>i j. i \<in> set hs \<Longrightarrow> j \<in> set hs \<Longrightarrow> i \<noteq> j \<Longrightarrow> hspan L i \<inter> hspan L j = {}"
  shows "hl_rep n L hs fs"
  using assms linked_distinct by (auto simp: hl_rep_def)

section \<open>Merging\<close>

lemma grow_rep:
  assumes rep: "hl_rep n L hs fs" and i: "i \<in> set hs"
    and adj: "h_addr (nodes L i) + h_size (nodes L i) = a"
    and sz: "unat a + unat sz < 2 ^ 64" and disj: "span a sz \<inter> hl_bytes L = {}"
    and m: "h_addr m = h_addr (nodes L i)" "h_size m = h_size (nodes L i) + sz" "pnext m = pnext (nodes L i)"
  shows "hl_rep n (L\<lparr>nodes := (nodes L)(i := m)\<rparr>) hs fs"
    and "hl_bytes (L\<lparr>nodes := (nodes L)(i := m)\<rparr>) = hl_bytes L \<union> span a sz"
proof -
  let ?L = "L\<lparr>nodes := (nodes L)(i := m)\<rparr>"
  note r = hl_repD [OF rep]
  have ua: "unat a = unat (h_addr (nodes L i)) + unat (h_size (nodes L i))"
    using unat_add_no_wrap [OF r(9) [OF i]] adj by simp
  have join: "hspan ?L i = hspan L i \<union> span a sz"
    using span_join [of "h_addr (nodes L i)" "h_size (nodes L i)" sz] sz ua adj m by simp
  have usz: "unat (h_size m) = unat (h_size (nodes L i)) + unat sz"
    using sz ua m(2) by (simp add: unat_add_no_wrap)
  have nx: "next_of ?L = next_of L"
    using m(3) by (simp add: next_of_def fun_eq_iff)
  have other: "hspan ?L j = hspan L j" if "j \<noteq> i" for j
    using that by simp
  have "hspan L j \<inter> span a sz = {}" if "j \<in> set hs" for j
    using disj that hl_bytes_rep [OF rep] by blast
  then have "hspan ?L j \<inter> hspan ?L k = {}" if "j \<in> set hs" "k \<in> set hs" "j \<noteq> k" for j k
    using that r(10) join other by (cases "j = i"; cases "k = i") (auto, blast+)
  moreover have "h_size (nodes ?L j) \<noteq> 0 \<and> unat (h_addr (nodes ?L j)) + unat (h_size (nodes ?L j)) < 2 ^ 64"
    if "j \<in> set hs" for j
  proof (cases "j = i")
    case True
    have "unat (h_size (nodes L i)) \<noteq> 0" using r(8) [OF i] by (simp add: unat_eq_0)
    with usz have "unat (h_size m) \<noteq> 0" by simp
    then have "h_size m \<noteq> 0" by (metis unat_0)
    with True usz ua sz m(1) show ?thesis by simp
  next
    case False
    with r(8,9) that show ?thesis by simp
  qed
  ultimately show rep': "hl_rep n ?L hs fs"
    using r(1-7) by (intro hl_repI) (auto simp only: nx, simp_all)
  show "hl_bytes ?L = hl_bytes L \<union> span a sz"
    unfolding hl_bytes_rep [OF rep'] hl_bytes_rep [OF rep]
    using i join other by (auto split: if_splits)
qed

section \<open>Insertion\<close>

text \<open>Where \<open>insert_sorted\<close> puts a new hole: between a lower and a higher part.\<close>

lemma insert_sorted_linked:
  assumes lk: "linked (next_of L) (phead L) hs" and p: "p \<notin> set hs"
  shows "\<exists>as bs L'. hs = as @ bs \<and> insert_sorted p L = Some L' \<and>
    linked (next_of L') (phead L') (as @ p # bs) \<and>
    pfree L' = pfree L \<and>
    (\<forall>i. h_addr (nodes L' i) = h_addr (nodes L i) \<and> h_size (nodes L' i) = h_size (nodes L i)) \<and>
    (\<forall>i. i \<notin> set (p # hs) \<longrightarrow> next_of L' i = next_of L i) \<and>
    (as \<noteq> [] \<longrightarrow> h_addr (nodes L (hd as)) \<le> h_addr (nodes L p)) \<and>
    (\<forall>i \<in> set (tl as). h_addr (nodes L i) < h_addr (nodes L p)) \<and>
    (bs \<noteq> [] \<longrightarrow> h_addr (nodes L p) \<le> h_addr (nodes L (hd bs)))"
proof (cases hs)
  case Nil
  with lk have "phead L = None" by simp
  then show ?thesis
    by (intro exI [of _ "[]"]) (simp add: Nil insert_sorted_def)
next
  case (Cons h ts)
  with lk have h: "phead L = Some h" and ts: "linked (next_of L) (next_of L h) ts" by auto
  show ?thesis
  proof (cases "h_addr (nodes L h) > h_addr (nodes L p)")
    case True
    then show ?thesis using p lk
      by (intro exI [of _ "[]"] exI [of _ hs]) (simp add: Cons insert_sorted_def h)
  next
    case False
    let ?go = "\<lambda>j. h_addr (nodes L j) < h_addr (nodes L p)"
    define as where "as = h # takeWhile ?go ts"
    define bs where "bs = dropWhile ?go ts"
    have hs: "hs = as @ bs" by (simp add: as_def bs_def Cons)
    define q where "q = last as"
    have as: "as = butlast as @ [q]" by (simp add: q_def as_def)
    let ?L = "set_next q (Some p) (set_next p (next_of L q) L)"
    have "seek (next_of L) ?go h = Some q"
      using seek_linked [OF ts, of ?go] by (simp add: q_def as_def)
    then have run: "insert_sorted p L = Some ?L"
      using False by (simp add: insert_sorted_def h next_of_def)
    have hs2: "hs = butlast as @ q # bs"
      using hs as by (metis append.assoc append_Cons append_Nil)
    have "linked ((next_of L)(p := next_of L q, q := Some p)) (phead L) (butlast as @ q # p # bs)"
      using p lk unfolding hs2 by (intro linked_insert_after)
    then have lk': "linked (next_of ?L) (phead ?L) (as @ p # bs)"
      using as by (simp only: next_of_upd set_next_sel) (metis append.assoc append_Cons append_Nil)
    have "q \<in> set hs" by (simp add: hs2)
    moreover have "\<forall>i \<in> set (tl as). ?go i"
      by (auto simp: as_def dest: set_takeWhileD)
    moreover have "bs \<noteq> [] \<longrightarrow> \<not> ?go (hd bs)"
      unfolding bs_def using hd_dropWhile by blast
    moreover have "h_addr (nodes L (hd as)) \<le> h_addr (nodes L p)"
      using False by (simp add: as_def)
    ultimately show ?thesis
      using hs run lk' by (intro exI [of _ as] exI [of _ bs] exI [of _ ?L]) (simp add: not_less, auto)
  qed
qed

text \<open>A new, disjoint block in a list that keeps its representation.\<close>

lemma insert_rep:
  assumes rep: "hl_rep n L hs (p # fs)"
    and m: "h_addr m = a" "h_size m = sz"
    and blk: "sz \<noteq> 0" "unat a + unat sz < 2 ^ 64" "span a sz \<inter> hl_bytes L = {}"
  shows "\<exists>as bs L'. hs = as @ bs \<and>
    insert_sorted p (L\<lparr>pfree := pnext (nodes L p), nodes := (nodes L)(p := m)\<rparr>) = Some L' \<and>
    hl_rep n L' (as @ p # bs) fs \<and> hl_bytes L' = hl_bytes L \<union> span a sz \<and>
    (hl_sorted L hs \<longrightarrow> hl_sorted L' (as @ p # bs)) \<and> h_size (nodes L' p) = sz"
proof -
  note r = hl_repD [OF rep]
  have pfr: "pfree L = Some p" and fs: "linked (next_of L) (next_of L p) fs"
    using r(2) by auto
  have p: "p \<notin> set hs" "p \<notin> set fs" "p < n" using r(4,5,7) by auto
  define L1 where "L1 = L\<lparr>pfree := pnext (nodes L p), nodes := (nodes L)(p := m)\<rparr>"
  have nx1: "next_of L1 = (next_of L)(p := pnext m)"
    by (auto simp: L1_def next_of_def)
  have lk1: "linked (next_of L1) (phead L1) hs"
    using r(1) p(1) unfolding nx1 by (simp add: L1_def)
  from insert_sorted_linked [OF lk1 p(1)] obtain as bs L' where
    hs: "hs = as @ bs" and run: "insert_sorted p L1 = Some L'"
    and lk': "linked (next_of L') (phead L') (as @ p # bs)" and pfr': "pfree L' = pfree L1"
    and nd: "\<And>i. h_addr (nodes L' i) = h_addr (nodes L1 i)" "\<And>i. h_size (nodes L' i) = h_size (nodes L1 i)"
    and nx: "\<And>i. i \<notin> set (p # hs) \<Longrightarrow> next_of L' i = next_of L1 i"
    and lo: "as \<noteq> [] \<Longrightarrow> h_addr (nodes L1 (hd as)) \<le> h_addr (nodes L1 p)"
      "\<And>i. i \<in> set (tl as) \<Longrightarrow> h_addr (nodes L1 i) < h_addr (nodes L1 p)"
    and hi: "bs \<noteq> [] \<Longrightarrow> h_addr (nodes L1 p) \<le> h_addr (nodes L1 (hd bs))"
    by blast
  have old: "h_addr (nodes L' i) = h_addr (nodes L i)" "h_size (nodes L' i) = h_size (nodes L i)" if "i \<noteq> p" for i
    using nd that by (simp_all add: L1_def)
  have new: "h_addr (nodes L' p) = a" "h_size (nodes L' p) = sz"
    using nd m by (simp_all add: L1_def)
  have spans: "hspan L' i = hspan L i" if "i \<in> set hs" for i
    using old [of i] p(1) that by (cases "i = p") auto
  have apart: "span a sz \<inter> hspan L i = {}" if "i \<in> set hs" for i
    using blk(3) hl_bytes_rep [OF rep] that by blast
  have fs': "linked (next_of L') (pfree L') fs"
  proof -
    have "pfree L' = next_of L p" by (simp add: pfr' L1_def next_of_def)
    moreover have "linked (next_of L') (next_of L p) fs"
    proof (rule linked_cong [OF fs])
      fix x assume "x \<in> set fs"
      then have "x \<notin> set (p # hs)" using r(5) p(2) by auto
      then show "next_of L' x = next_of L x" using nx [of x] by (simp add: nx1)
    qed
    ultimately show ?thesis by simp
  qed
  have disj: "hspan L' i \<inter> hspan L' j = {}"
    if "i \<in> set (as @ p # bs)" "j \<in> set (as @ p # bs)" "i \<noteq> j" for i j
  proof -
    have ij: "i = p \<or> i \<in> set hs" "j = p \<or> j \<in> set hs" using that hs by auto
    show ?thesis
    proof (cases "i = p")
      case True
      with ij that have "j \<in> set hs" by blast
      with apart spans new True show ?thesis by simp
    next
      case False
      with ij have i: "i \<in> set hs" by blast
      show ?thesis
      proof (cases "j = p")
        case True
        with apart [OF i] spans [OF i] new show ?thesis by (simp add: Int_commute)
      next
        case False
        with ij i that(3) r(10) spans show ?thesis by simp
      qed
    qed
  qed
  have rep': "hl_rep n L' (as @ p # bs) fs"
  proof (rule hl_repI [OF lk' fs'])
    fix i assume "i \<in> set (as @ p # bs)"
    then have "i = p \<or> i \<in> set hs \<and> i \<noteq> p" using hs p(1) by auto
    then show "h_size (nodes L' i) \<noteq> 0 \<and> unat (h_addr (nodes L' i)) + unat (h_size (nodes L' i)) < 2 ^ 64"
      using r(8,9) old new blk(1,2) by auto
  qed (use disj r(5-7) p hs in auto)
  have bytes: "hl_bytes L' = hl_bytes L \<union> span a sz"
    unfolding hl_bytes_rep [OF rep'] hl_bytes_rep [OF rep] using hs spans new by auto
  have "hl_sorted L' (as @ p # bs)" if srt: "hl_sorted L hs"
  proof -
    let ?lt = "\<lambda>i j. h_addr (nodes L' i) < h_addr (nodes L' j)"
    have keep: "sorted_wrt ?lt (as @ bs)"
      using srt unfolding hl_sorted_def hs [symmetric]
      by (rule sorted_wrt_mono_rel [rotated]) (metis old(1) p(1))
    have below: "?lt i p" if i: "i \<in> set as" for i
    proof -
      have "i \<noteq> p" "i \<in> set hs" using i hs p(1) by auto
      have "h_addr (nodes L1 i) \<le> h_addr (nodes L1 p)"
        using lo(1) lo(2) [of i] i by (cases as) (auto simp: less_imp_le)
      then have "h_addr (nodes L i) \<le> a"
        using new nd old [OF \<open>i \<noteq> p\<close>] by simp
      moreover have "hspan L i \<inter> span a sz = {}" using apart \<open>i \<in> set hs\<close> by blast
      ultimately have "h_addr (nodes L i) < a"
        using span_nonempty_disjoint_less(2) r(8) [OF \<open>i \<in> set hs\<close>] blk(1) by blast
      with new old [OF \<open>i \<noteq> p\<close>] show ?thesis by simp
    qed
    have above: "?lt p i" if i: "i \<in> set bs" for i
    proof -
      have "i \<noteq> p" "i \<in> set hs" using i hs p(1) by auto
      have "bs \<noteq> []" using i by auto
      then have first: "a \<le> h_addr (nodes L' (hd bs))" using hi new nd by simp
      have "h_addr (nodes L' (hd bs)) \<le> h_addr (nodes L' i)"
        using keep i by (cases bs) (auto simp: sorted_wrt_append intro: less_imp_le)
      with first have "a \<le> h_addr (nodes L i)" using old [OF \<open>i \<noteq> p\<close>] by simp
      moreover have "span a sz \<inter> hspan L i = {}" using apart \<open>i \<in> set hs\<close> by blast
      ultimately have "a < h_addr (nodes L i)"
        using span_nonempty_disjoint_less(2) r(8) [OF \<open>i \<in> set hs\<close>] blk(1) by blast
      with new old [OF \<open>i \<noteq> p\<close>] show ?thesis by simp
    qed
    show ?thesis
      using keep below above by (auto simp: hl_sorted_def sorted_wrt_append)
  qed
  with hs run rep' bytes new(2) show ?thesis unfolding L1_def by blast
qed

lemma grow_sorted:
  assumes "hl_sorted L hs" and "h_addr m = h_addr (nodes L i)"
  shows "hl_sorted (L\<lparr>nodes := (nodes L)(i := m)\<rparr>) hs"
  using assms by (auto simp: hl_sorted_def elim!: sorted_wrt_mono_rel [rotated])

text \<open>What a function may do to a hole it extends by \<open>sz\<close> bytes and to a descriptor it fills.\<close>

definition hole_updates ::
  "('a hole_scheme \<Rightarrow> 'a hole_scheme) \<Rightarrow> ('a hole_scheme \<Rightarrow> 'a hole_scheme) \<Rightarrow> ulong \<Rightarrow> ulong \<Rightarrow> bool" where
  "hole_updates grow fill a sz \<longleftrightarrow>
     (\<forall>m. h_addr (grow m) = h_addr m \<and> h_size (grow m) = h_size m + sz \<and> pnext (grow m) = pnext m) \<and>
     (\<forall>m. h_addr (fill m) = a \<and> h_size (fill m) = sz)"

text \<open>
  Freeing a block that is not free yet: the loops end, the block is merged or inserted, the
  free bytes are the old ones and the block, and one hole has room for the block.
\<close>

lemma free_holes_spec:
  assumes rep: "hl_rep n L hs (p # fs)"
    and blk: "sz \<noteq> 0" "unat a + unat sz < 2 ^ 64" "span a sz \<inter> hl_bytes L = {}"
    and upd: "hole_updates grow fill a sz"
  shows "\<exists>merged L' hs' fs'. free_holes grow fill a p L = Inr (merged, L') \<and> hl_rep n L' hs' fs' \<and>
    (hl_sorted L hs \<longrightarrow> hl_sorted L' hs') \<and> hl_bytes L' = hl_bytes L \<union> span a sz \<and>
    (merged \<longleftrightarrow> (\<exists>i \<in> set hs. h_addr (nodes L i) + h_size (nodes L i) = a)) \<and>
    fs' = (if merged then p # fs else fs) \<and> set hs' \<subseteq> insert p (set hs) \<and>
    (\<exists>i \<in> set hs'. sz \<le> h_size (nodes L' i))"
proof -
  let ?adj = "\<lambda>i. h_addr (nodes L i) + h_size (nodes L i) = a"
  from upd have grow: "\<And>m. h_addr (grow m) = h_addr m" "\<And>m. h_size (grow m) = h_size m + sz"
      "\<And>m. pnext (grow m) = pnext m"
    and fill: "\<And>m. h_addr (fill m) = a" "\<And>m. h_size (fill m) = sz"
    by (auto simp: hole_updates_def)
  have walk: "find_adjacent a L = Some (List.find ?adj hs)"
    using hl_repD(1) [OF rep] unfolding find_adjacent_def by (rule walk_linked)
  show ?thesis
  proof (cases "List.find ?adj hs")
    case (Some i)
    then have i: "i \<in> set hs" "?adj i" by (auto simp: find_Some_iff)
    let ?L = "L\<lparr>nodes := (nodes L)(i := grow (nodes L i))\<rparr>"
    note g = grow_rep [OF rep i blk(2,3), of "grow (nodes L i)"]
    have "unat (h_size (nodes L i)) + unat sz < 2 ^ 64"
      using blk(2) unat_add_no_wrap [OF hl_repD(9) [OF rep i(1)]] i(2) by simp
    then have "sz \<le> h_size (nodes ?L i)"
      by (simp add: grow word_le_nat_alt unat_add_no_wrap)
    moreover have "free_holes grow fill a p L = Inr (True, ?L)"
      by (simp add: free_holes_def walk Some)
    moreover have "hl_sorted L hs \<longrightarrow> hl_sorted ?L hs"
      using grow(1) grow_sorted by blast
    ultimately show ?thesis
      using g grow i by (intro exI [of _ True] exI [of _ ?L] exI [of _ hs] exI [of _ "p # fs"]) auto
  next
    case None
    from insert_rep [OF rep fill(1,2) blk] obtain as bs L' where
      hs: "hs = as @ bs"
      and run: "insert_sorted p (L\<lparr>pfree := pnext (nodes L p), nodes := (nodes L)(p := fill (nodes L p))\<rparr>) = Some L'"
      and rep': "hl_rep n L' (as @ p # bs) fs" and bytes: "hl_bytes L' = hl_bytes L \<union> span a sz"
      and srt: "hl_sorted L hs \<longrightarrow> hl_sorted L' (as @ p # bs)" and psz: "h_size (nodes L' p) = sz"
      by blast
    have "free_holes grow fill a p L = Inr (False, L')"
      using run by (simp add: free_holes_def walk None Let_def)
    moreover have "\<not> (\<exists>i \<in> set hs. ?adj i)" using None by (simp add: find_None_iff)
    moreover have "\<exists>i \<in> set (as @ p # bs). sz \<le> h_size (nodes L' i)" using psz by auto
    ultimately show ?thesis
      using rep' bytes srt hs by (intro exI [of _ False] exI [of _ L'] exI [of _ "as @ p # bs"] exI [of _ fs]) auto
  qed
qed

section \<open>Unlinking and carving\<close>

lemma unlink_hole_linked:
  assumes lk: "linked (next_of L) (phead L) hs" and p: "p \<in> set hs"
  shows "\<exists>L'. unlink_hole p L = Inr L' \<and> linked (next_of L') (phead L') (remove1 p hs) \<and>
    pfree L' = pfree L \<and>
    (\<forall>i. h_addr (nodes L' i) = h_addr (nodes L i) \<and> h_size (nodes L' i) = h_size (nodes L i)) \<and>
    (\<forall>i. i \<notin> set hs \<longrightarrow> next_of L' i = next_of L i)"
proof -
  have dist: "distinct hs" using lk by (rule linked_distinct)
  obtain h ts where hs: "hs = h # ts" using p by (cases hs) auto
  have h: "phead L = Some h" and ts: "linked (next_of L) (next_of L h) ts" using lk hs by auto
  show ?thesis
  proof (cases "p = h")
    case True
    with h ts hs show ?thesis by (auto simp: unlink_hole_def next_of_def)
  next
    case False
    with p hs obtain us vs where tsp: "ts = us @ p # vs" by (auto simp: in_set_conv_decomp)
    define q where "q = last (h # us)"
    have pnot: "p \<notin> set us" using dist tsp hs by auto
    have split: "h # us = butlast (h # us) @ [q]" by (simp add: q_def)
    then have hsq: "hs = butlast (h # us) @ q # p # vs" using hs tsp by (metis append.assoc append_Cons append_Nil)
    have nq: "next_of L q = Some p" using lk unfolding hsq by (rule linked_nth_next)
    have "\<And>j. j \<in> set us \<Longrightarrow> j \<noteq> p" using pnot by blast
    then have "takeWhile (\<lambda>j. j \<noteq> p) ts = us" by (simp add: tsp takeWhile_append2)
    then have sk: "seek (next_of L) (\<lambda>j. j \<noteq> p) h = Some q"
      using seek_linked [OF ts, of "\<lambda>j. j \<noteq> p"] by (simp add: q_def)
    have run: "unlink_hole p L = Inr (set_next q (next_of L p) L)"
    proof (cases "us = []")
      case True
      then have "q = h" by (simp add: q_def)
      with nq False h show ?thesis by (simp add: unlink_hole_def next_of_def)
    next
      case us: False
      have "next_of L h \<noteq> Some p"
        using ts us pnot by (cases us) (auto simp: tsp)
      with nq False h sk show ?thesis by (simp add: unlink_hole_def next_of_def)
    qed
    have rem: "remove1 p hs = butlast (h # us) @ q # vs"
      using hs tsp split False pnot by (simp add: remove1_append)
    have "linked ((next_of L)(q := next_of L p)) (phead L) (butlast (h # us) @ q # vs)"
      using lk unfolding hsq by (rule linked_unlink_after)
    then have "linked (next_of (set_next q (next_of L p) L)) (phead (set_next q (next_of L p) L)) (remove1 p hs)"
      unfolding rem by simp
    moreover have "q \<in> set hs" by (simp add: hsq)
    ultimately show ?thesis using run by (intro exI [of _ "set_next q (next_of L p) L"]) auto
  qed
qed

text \<open>
  Taking a block from the front of a hole that is big enough: the block was free, and what is
  left of the hole stays free unless its descriptor is dropped.
\<close>

lemma carve_drop:
  assumes rep: "hl_rep n L hs fs" and p: "p \<in> set hs"
    and drp: "dropped (h_size (nodes L p) - sz)"
  obtains L' where
    "carve dropped sz p L = Inr (h_addr (nodes L p), L')" "hl_rep n L' (remove1 p hs) (p # fs)"
    "hl_sorted L hs \<Longrightarrow> hl_sorted L' (remove1 p hs)" "hl_bytes L' = hl_bytes L - hspan L p"
proof -
  note r = hl_repD [OF rep]
  define L1 where "L1 = L\<lparr>nodes := (nodes L)(p := (nodes L p)\<lparr>h_size := h_size (nodes L p) - sz\<rparr>)\<rparr>"
  have nx1: "next_of L1 = next_of L" by (auto simp: L1_def next_of_def)
  have hp1: "phead L1 = phead L" "pfree L1 = pfree L" by (simp_all add: L1_def)
  from unlink_hole_linked [of L1 hs p, unfolded nx1 hp1, OF r(1) p] obtain L2 where
    run: "unlink_hole p L1 = Inr L2" and lk2: "linked (next_of L2) (phead L2) (remove1 p hs)"
    and pf2: "pfree L2 = pfree L" and nd2: "\<And>i. h_addr (nodes L2 i) = h_addr (nodes L1 i)"
    "\<And>i. h_size (nodes L2 i) = h_size (nodes L1 i)"
    and nx2: "\<And>i. i \<notin> set hs \<Longrightarrow> next_of L2 i = next_of L i"
    by blast
  define L3 where "L3 = (set_next p (pfree L2) L2)\<lparr>pfree := Some p\<rparr>"
  define L' where "L' = L3\<lparr>nodes := (nodes L3)(p := (nodes L3 p)\<lparr>h_addr := h_addr (nodes L3 p) + sz\<rparr>)\<rparr>"
  have nx': "next_of L' = (next_of L2)(p := pfree L)"
    by (auto simp: L'_def L3_def next_of_def set_next_def pf2)
  have hd': "phead L' = phead L2" and pf': "pfree L' = Some p" by (simp_all add: L'_def L3_def)
  have nd': "h_addr (nodes L' i) = h_addr (nodes L i)" "h_size (nodes L' i) = h_size (nodes L i)"
    if "i \<noteq> p" for i using that nd2 by (simp_all add: L'_def L3_def L1_def)
  have set': "set (remove1 p hs) = set hs - {p}" using r(3) by simp
  have rep': "hl_rep n L' (remove1 p hs) (p # fs)"
  proof (rule hl_repI)
    show "linked (next_of L') (phead L') (remove1 p hs)"
      using lk2 r(3) by (simp add: nx' hd')
    have "linked (next_of L2) (pfree L) fs"
      using r(2) by (rule linked_cong) (use nx2 r(5) in auto)
    moreover have "p \<notin> set fs" using r(5) p by auto
    ultimately show "linked (next_of L') (pfree L') (p # fs)" by (simp add: nx' pf')
  qed (use r(5-10) p set' nd' in auto)
  have "hl_bytes L' = hl_bytes L - hspan L p"
    unfolding hl_bytes_rep [OF rep'] hl_bytes_rep [OF rep] set'
    using nd' r(10) [OF _ p] p by (auto simp: Int_commute)
  moreover have "hl_sorted L' (remove1 p hs)" if "hl_sorted L hs"
  proof -
    have "sorted_wrt (\<lambda>i j. h_addr (nodes L i) < h_addr (nodes L j)) (remove1 p hs)"
      using that unfolding hl_sorted_def
      by (metis r(3) distinct_remove1_removeAll sorted_wrt_filter removeAll_filter_not_eq)
    then show ?thesis unfolding hl_sorted_def
      by (rule sorted_wrt_mono_rel [rotated]) (metis nd'(1) set' DiffE insertCI)
  qed
  moreover have "carve dropped sz p L = Inr (h_addr (nodes L p), L')"
    using drp run nd2 by (simp add: carve_def Let_def L1_def [symmetric] L'_def L3_def) (simp add: L1_def)
  ultimately show thesis
    using rep' by (intro that)
qed

lemma carve_keep:
  assumes rep: "hl_rep n L hs fs" and p: "p \<in> set hs"
    and sz: "sz < h_size (nodes L p)" and keep: "\<not> dropped (h_size (nodes L p) - sz)"
  obtains L' where
    "carve dropped sz p L = Inr (h_addr (nodes L p), L')" "hl_rep n L' hs fs"
    "hl_sorted L hs \<Longrightarrow> hl_sorted L' hs" "hl_bytes L' = hl_bytes L - span (h_addr (nodes L p)) sz"
proof -
  note r = hl_repD [OF rep]
  let ?a = "h_addr (nodes L p)" and ?n = "h_size (nodes L p)"
  note parts = span_split [OF r(9) [OF p] less_imp_le [OF sz]]
  have szn: "unat sz < unat ?n" using sz by (simp add: word_less_nat_alt)
  have urest: "unat (?n - sz) = unat ?n - unat sz"
    using sz by (intro unat_sub_no_wrap) simp
  have uaddr: "unat (?a + sz) = unat ?a + unat sz"
    using r(9) [OF p] szn by (intro unat_add_no_wrap) linarith
  define L' where "L' = L\<lparr>nodes := (nodes L)(p := (nodes L p)\<lparr>h_size := ?n - sz, h_addr := ?a + sz\<rparr>)\<rparr>"
  have nx': "next_of L' = next_of L" by (auto simp: L'_def next_of_def)
  have nd': "nodes L' i = nodes L i" if "i \<noteq> p" for i using that by (simp add: L'_def)
  have new: "h_addr (nodes L' p) = ?a + sz" "h_size (nodes L' p) = ?n - sz"
    by (simp_all add: L'_def)
  have newspan: "hspan L' p = hspan L p - span ?a sz"
    using parts unfolding new by blast
  have others: "hspan L i \<inter> hspan L p = {}" if "i \<in> set hs" "i \<noteq> p" for i
    using r(10) that p by blast
  have rep': "hl_rep n L' hs fs"
  proof (rule hl_repI)
    fix i assume "i \<in> set hs"
    moreover have "?n - sz \<noteq> 0" using sz by simp
    ultimately show "h_size (nodes L' i) \<noteq> 0 \<and> unat (h_addr (nodes L' i)) + unat (h_size (nodes L' i)) < 2 ^ 64"
      using r(8,9) nd' r(9) [OF p] szn by (cases "i = p") (auto simp: new urest uaddr)
  next
    fix i j assume "i \<in> set hs" "j \<in> set hs" "i \<noteq> j"
    then have "hspan L i \<inter> hspan L j = {}" by (rule r(10))
    moreover have "hspan L' k \<subseteq> hspan L k" for k
      using newspan nd' by (cases "k = p") auto
    ultimately show "hspan L' i \<inter> hspan L' j = {}" by blast
  qed (use r nx' in \<open>auto simp: L'_def\<close>)
  have sub: "span ?a sz \<subseteq> hspan L p" using parts(1) by blast
  have "hl_bytes L' = hl_bytes L - span ?a sz"
  proof -
    have "(\<Union>i \<in> set hs. hspan L i) = hspan L p \<union> (\<Union>i \<in> set hs - {p}. hspan L i)"
      using p by blast
    moreover have "(\<Union>i \<in> set hs. hspan L' i) = hspan L' p \<union> (\<Union>i \<in> set hs - {p}. hspan L' i)"
      using p by blast
    moreover have "(\<Union>i \<in> set hs - {p}. hspan L' i) = (\<Union>i \<in> set hs - {p}. hspan L i)"
      using nd' by simp
    moreover have "span ?a sz \<inter> (\<Union>i \<in> set hs - {p}. hspan L i) = {}"
      using others sub by blast
    ultimately show ?thesis
      unfolding hl_bytes_rep [OF rep'] hl_bytes_rep [OF rep] newspan by (simp only: Un_Diff Diff_triv Int_commute)
  qed
  moreover have "hl_sorted L' hs" if srt: "hl_sorted L hs"
    unfolding hl_sorted_def
  proof (rule sorted_wrt_mono_rel [OF _ srt [unfolded hl_sorted_def]])
    fix x y assume xy: "x \<in> set hs" "y \<in> set hs" and lt: "h_addr (nodes L x) < h_addr (nodes L y)"
    show "h_addr (nodes L' x) < h_addr (nodes L' y)"
    proof (cases "x = p")
      case True
      with lt have "y \<noteq> p" by auto
      then have "hspan L p \<inter> hspan L y = {}" using r(10) p xy(2) by blast
      from span_nonempty_disjoint_less(1) [OF this r(8) [OF p] r(8) [OF xy(2)]] lt True
      have "unat ?a + unat ?n \<le> unat (h_addr (nodes L y))" by simp
      then show ?thesis using True \<open>y \<noteq> p\<close> szn by (simp add: new nd' word_less_nat_alt uaddr)
    next
      case False
      with lt show ?thesis by (cases "y = p") (auto simp: nd' new word_less_nat_alt uaddr)
    qed
  qed
  moreover have "carve dropped sz p L = Inr (?a, L')"
    using keep by (simp add: carve_def Let_def L'_def)
  ultimately show thesis
    using rep' by (intro that)
qed

text \<open>With a descriptor that is dropped when it is empty, exactly the block leaves the free bytes.\<close>

lemma carve_exact:
  assumes rep: "hl_rep n L hs fs" and p: "p \<in> set hs" and sz: "sz \<le> h_size (nodes L p)"
  obtains L' hs' fs' where
    "carve (\<lambda>r. r = 0) sz p L = Inr (h_addr (nodes L p), L')" "hl_rep n L' hs' fs'"
    "hl_sorted L hs \<Longrightarrow> hl_sorted L' hs'"
    "hl_bytes L' = hl_bytes L - span (h_addr (nodes L p)) sz" "set hs' \<subseteq> set hs" "set fs \<subseteq> set fs'"
    "set fs' \<subseteq> insert p (set fs)"
proof (cases "sz = h_size (nodes L p)")
  case True
  then have "h_size (nodes L p) - sz = 0" by simp
  from carve_drop [OF rep p, of "\<lambda>r. r = 0", OF this] obtain L' where
    "carve (\<lambda>r. r = 0) sz p L = Inr (h_addr (nodes L p), L')" "hl_rep n L' (remove1 p hs) (p # fs)"
    "hl_sorted L hs \<Longrightarrow> hl_sorted L' (remove1 p hs)" "hl_bytes L' = hl_bytes L - hspan L p"
    by blast
  with True show ?thesis by (intro that [of L' "remove1 p hs" "p # fs"]) (auto dest: set_remove1_subset [THEN subsetD])
next
  case False
  with sz have lt: "sz < h_size (nodes L p)" by simp
  then have "\<not> h_size (nodes L p) - sz = 0" by simp
  from carve_keep [OF rep p lt, of "\<lambda>r. r = 0", OF this] obtain L' where
    "carve (\<lambda>r. r = 0) sz p L = Inr (h_addr (nodes L p), L')" "hl_rep n L' hs fs"
    "hl_sorted L hs \<Longrightarrow> hl_sorted L' hs" "hl_bytes L' = hl_bytes L - span (h_addr (nodes L p)) sz"
    by blast
  then show ?thesis by (intro that [of L' hs fs]) auto
qed

lemma carve_exact_block:
  assumes rep: "hl_rep n L hs fs" and p: "p \<in> set hs" and sz: "sz \<le> h_size (nodes L p)"
  shows "\<exists>L' hs' fs'. carve (\<lambda>r. r = 0) sz p L = Inr (h_addr (nodes L p), L') \<and> hl_rep n L' hs' fs' \<and>
    (hl_sorted L hs \<longrightarrow> hl_sorted L' hs') \<and> hl_bytes L' = hl_bytes L - span (h_addr (nodes L p)) sz \<and>
    set hs' \<subseteq> set hs \<and> set fs \<subseteq> set fs' \<and> set fs' \<subseteq> insert p (set fs)"
  by (rule carve_exact [OF rep p sz]) blast

text \<open>With a descriptor that is dropped with up to 16 bytes left, at most those are lost.\<close>

lemma carve_small:
  assumes rep: "hl_rep n L hs fs" and p: "p \<in> set hs" and sz: "sz \<le> h_size (nodes L p)"
  defines "a \<equiv> h_addr (nodes L p)"
  shows "\<exists>L' hs' fs'. carve (\<lambda>r. r \<le> 16) sz p L = Inr (a, L') \<and> hl_rep n L' hs' fs' \<and>
    hl_bytes L' \<subseteq> hl_bytes L - span a sz \<and> hl_bytes L - span a sz - hl_bytes L' \<subseteq> span (a + sz) 16"
proof (cases "h_size (nodes L p) - sz \<le> 16")
  case True
  from carve_drop [OF rep p, of "\<lambda>r. r \<le> 16" sz, OF True] obtain L' where
    run: "carve (\<lambda>r. r \<le> 16) sz p L = Inr (a, L')" "hl_rep n L' (remove1 p hs) (p # fs)"
    and bytes: "hl_bytes L' = hl_bytes L - hspan L p" unfolding a_def by blast
  note parts = span_split(1) [OF hl_repD(9) [OF rep p] sz, folded a_def]
  have "unat (h_size (nodes L p) - sz) \<le> unat (16::ulong)" using True unfolding word_le_nat_alt .
  then have "span (a + sz) (h_size (nodes L p) - sz) \<subseteq> span (a + sz) 16" by (auto simp: span_def)
  then have "hl_bytes L - span a sz - hl_bytes L' \<subseteq> span (a + sz) 16"
    unfolding bytes using parts by (auto simp: a_def)
  moreover have "hl_bytes L' \<subseteq> hl_bytes L - span a sz" unfolding bytes using parts by (auto simp: a_def)
  ultimately show ?thesis using run by blast
next
  case False
  then have "sz < h_size (nodes L p)" using sz by (cases "sz = h_size (nodes L p)") auto
  from carve_keep [OF rep p this, of "\<lambda>r. r \<le> 16", OF False] obtain L' where
    "carve (\<lambda>r. r \<le> 16) sz p L = Inr (a, L')" "hl_rep n L' hs fs" "hl_bytes L' = hl_bytes L - span a sz"
    unfolding a_def by blast
  then show ?thesis by (intro exI [of _ L'] exI [of _ hs] exI [of _ fs]) simp
qed

section \<open>Pushing a hole\<close>

lemma push_rep:
  assumes rep: "hl_rep n L hs (p # fs)" and fill: "\<And>m. h_addr (fill m) = a" "\<And>m. h_size (fill m) = sz"
    and blk: "sz \<noteq> 0" "unat a + unat sz < 2 ^ 64" "span a sz \<inter> hl_bytes L = {}"
  shows "hl_rep n (push_hole fill p L) (p # hs) fs"
    and "hl_bytes (push_hole fill p L) = hl_bytes L \<union> span a sz"
    and "h_size (nodes (push_hole fill p L) p) = sz"
proof -
  note r = hl_repD [OF rep]
  let ?L = "push_hole fill p L"
  have p: "p \<notin> set hs" "p \<notin> set fs" "p < n" using r(4,5,7) by auto
  have sel: "phead ?L = Some p" "pfree ?L = next_of L p" "next_of ?L = (next_of L)(p := phead L)"
    "h_addr (nodes ?L p) = a" "h_size (nodes ?L p) = sz"
    by (simp_all add: push_hole_def Let_def fill) (auto simp: next_of_def)
  have old: "h_addr (nodes ?L i) = h_addr (nodes L i)" "h_size (nodes ?L i) = h_size (nodes L i)" if "i \<noteq> p" for i
    using that by (simp_all add: push_hole_def Let_def)
  show "h_size (nodes ?L p) = sz" by (fact sel)
  have spans: "hspan ?L i = hspan L i" if "i \<in> set hs" for i using old [of i] p(1) that by (cases "i = p") auto
  have apart: "hspan L i \<inter> span a sz = {}" if "i \<in> set hs" for i
    using blk(3) that by (auto simp: hl_bytes_rep [OF rep])
  show rep': "hl_rep n ?L (p # hs) fs"
  proof (rule hl_repI)
    fix i j assume ij: "i \<in> set (p # hs)" "j \<in> set (p # hs)" "i \<noteq> j"
    then consider "i = p" "j \<in> set hs" | "j = p" "i \<in> set hs" | "i \<in> set hs" "j \<in> set hs" by auto
    then show "hspan ?L i \<inter> hspan ?L j = {}"
      by cases (use spans apart sel r(10) ij in \<open>simp_all add: Int_commute\<close>)
  next
    fix i assume "i \<in> set (p # hs)"
    then show "h_size (nodes ?L i) \<noteq> 0 \<and> unat (h_addr (nodes ?L i)) + unat (h_size (nodes ?L i)) < 2 ^ 64"
      using r(8,9) old sel(4,5) blk by (cases "i = p") auto
  qed (use r p sel in auto)
  show "hl_bytes ?L = hl_bytes L \<union> span a sz"
    unfolding hl_bytes_rep [OF rep'] hl_bytes_rep [OF rep] using spans sel(4,5) by auto
qed

section \<open>Alignment\<close>

text \<open>All descriptors hold multiples of a power of two; the operations keep this whatever the links are.\<close>

definition hl_aligned :: "nat \<Rightarrow> 'a hole_list \<Rightarrow> bool" where
  "hl_aligned k L \<longleftrightarrow> (\<forall>i. aligned k (h_addr (nodes L i)) \<and> aligned k (h_size (nodes L i)))"

lemma hl_al_upd [simp]:
  "hl_aligned k (L\<lparr>phead := q\<rparr>) = hl_aligned k L" "hl_aligned k (L\<lparr>pfree := q\<rparr>) = hl_aligned k L" "hl_aligned k (set_next i q L) = hl_aligned k L"
  by (simp_all add: hl_aligned_def)

lemma hl_al_node: "hl_aligned k L \<Longrightarrow> aligned k (h_addr m) \<Longrightarrow> aligned k (h_size m) \<Longrightarrow> hl_aligned k (L\<lparr>nodes := (nodes L)(i := m)\<rparr>)"
  by (simp add: hl_aligned_def)

lemma insert_sorted_al: "insert_sorted p L = Some L' \<Longrightarrow> hl_aligned k L \<Longrightarrow> hl_aligned k L'"
  by (auto simp: insert_sorted_def split: option.splits if_splits bind_splits)

lemma free_holes_al:
  assumes run: "free_holes grow fill a p L = Inr (b, L')" and al: "hl_aligned k L" and upd: "hole_updates grow fill a sz"
    and blk: "aligned k a" "aligned k sz"
  shows "hl_aligned k L'"
proof -
  have g: "aligned k (h_addr (grow (nodes L i)))" "aligned k (h_size (grow (nodes L i)))" for i
    using al upd blk by (auto simp: hl_aligned_def hole_updates_def)
  have f: "aligned k (h_addr (fill (nodes L p)))" "aligned k (h_size (fill (nodes L p)))"
    using upd blk by (auto simp: hole_updates_def)
  have al1: "hl_aligned k (L\<lparr>pfree := pnext (nodes L p), nodes := (nodes L)(p := fill (nodes L p))\<rparr>)"
    using hl_al_node [of k "L\<lparr>pfree := pnext (nodes L p)\<rparr>" "fill (nodes L p)" p] al f by simp
  from run consider i where "L' = L\<lparr>nodes := (nodes L)(i := grow (nodes L i))\<rparr>"
    | "insert_sorted p (L\<lparr>pfree := pnext (nodes L p), nodes := (nodes L)(p := fill (nodes L p))\<rparr>) = Some L'"
    unfolding free_holes_def andThen_eq_Inr by (auto simp: ending_def Let_def outcome_simps split: option.splits)
  then show ?thesis
  proof cases
    case 1
    then show ?thesis using hl_al_node [OF al g] by simp
  next
    case 2
    then show ?thesis using al1 by (rule insert_sorted_al)
  qed
qed

lemma unlink_hole_al: "unlink_hole p L = Inr L' \<Longrightarrow> hl_aligned k L \<Longrightarrow> hl_aligned k L'"
  by (auto simp: unlink_hole_def outcome_simps split: if_splits)

lemma carve_al:
  assumes run: "carve d sz p L = Inr (a, L')" and al: "hl_aligned k L" and sz: "aligned k sz"
  shows "hl_aligned k L'" "aligned k a"
proof -
  let ?L1 = "L\<lparr>nodes := (nodes L)(p := (nodes L p)\<lparr>h_size := h_size (nodes L p) - sz\<rparr>)\<rparr>"
  have al1: "hl_aligned k ?L1" using al sz by (intro hl_al_node) (auto simp: hl_aligned_def)
  let ?mid = "if d (h_size (nodes ?L1 p))
    then andThen (unlink_hole p ?L1) (\<lambda>L2. Inr ((set_next p (pfree L2) L2)\<lparr>pfree := Some p\<rparr>)) else Inr ?L1"
  from run obtain L3 where mid: "?mid = Inr L3" and a: "a = h_addr (nodes L3 p)"
    and L': "L' = L3\<lparr>nodes := (nodes L3)(p := (nodes L3 p)\<lparr>h_addr := h_addr (nodes L3 p) + sz\<rparr>)\<rparr>"
    unfolding carve_def Let_def andThen_eq_Inr by auto
  have L3: "hl_aligned k L3"
  proof (cases "d (h_size (nodes ?L1 p))")
    case True
    with mid obtain L2 where "unlink_hole p ?L1 = Inr L2" "L3 = (set_next p (pfree L2) L2)\<lparr>pfree := Some p\<rparr>"
      by (auto simp: andThen_eq_Inr)
    then show ?thesis using unlink_hole_al [OF _ al1] by simp
  next
    case False
    with mid al1 show ?thesis by simp
  qed
  show "aligned k a" using L3 by (simp add: a hl_aligned_def)
  show "hl_aligned k L'" unfolding L' using L3 sz by (intro hl_al_node) (auto simp: hl_aligned_def)
qed

lemma init_holes_al: "(\<And>i. aligned k (h_addr (m i)) \<and> aligned k (h_size (m i))) \<Longrightarrow> hl_aligned k (init_holes n m)"
  by (simp add: hl_aligned_def init_holes_def)

abbreviation hl_al :: "'a hole_list \<Rightarrow> bool" where "hl_al \<equiv> hl_aligned 12"
lemmas hl_al_def = hl_aligned_def [of 12]

section \<open>Frames\<close>

text \<open>The operations write only the descriptors of the list and the one they take.\<close>

lemma nodes_set_next: "i \<noteq> j \<Longrightarrow> nodes (set_next i q L) j = nodes L j"
  by (simp add: set_next_def)

lemma seek_mem:
  assumes "linked nxt (Some h) hs" "seek nxt go h = Some q" shows "q \<in> set hs"
proof -
  obtain ts where hs: "hs = h # ts" "linked nxt (nxt h) ts" using assms(1) by (cases hs) auto
  then have "q = last (h # takeWhile go ts)" using assms(2) seek_linked [OF hs(2), of go] by simp
  then have "q \<in> set (h # takeWhile go ts)" by (metis last_in_set list.distinct(1))
  then show ?thesis using hs(1) by (auto dest: set_takeWhileD)
qed

lemma insert_sorted_frame:
  assumes run: "insert_sorted p L = Some L'" and lk: "linked (next_of L) (phead L) hs" and i: "i \<notin> insert p (set hs)"
  shows "nodes L' i = nodes L i"
proof (cases "phead L")
  case None
  with run i show ?thesis by (auto simp: insert_sorted_def nodes_set_next)
next
  case (Some h)
  let ?go = "\<lambda>j. h_addr (nodes L j) < h_addr (nodes L p)"
  show ?thesis
  proof (cases "h_addr (nodes L h) > h_addr (nodes L p)")
    case True
    with run i Some show ?thesis by (auto simp: insert_sorted_def nodes_set_next)
  next
    case False
    with run Some obtain q where q: "seek (next_of L) ?go h = Some q"
      and L': "L' = set_next q (Some p) (set_next p (pnext (nodes L q)) L)"
      by (auto simp: insert_sorted_def split: bind_splits)
    have "q \<in> set hs" using seek_mem [OF _ q] lk Some by simp
    with i have "q \<noteq> i" "p \<noteq> i" by auto
    then show ?thesis by (simp add: L' nodes_set_next)
  qed
qed

lemma free_holes_frame:
  assumes rep: "hl_rep n L hs (p # fs)" and run: "free_holes grow fill a p L = Inr (b, L')" and i: "i \<notin> insert p (set hs)"
  shows "nodes L' i = nodes L i"
proof -
  let ?adj = "\<lambda>i. h_addr (nodes L i) + h_size (nodes L i) = a"
  let ?L1 = "L\<lparr>pfree := pnext (nodes L p), nodes := (nodes L)(p := fill (nodes L p))\<rparr>"
  have walk: "find_adjacent a L = Some (List.find ?adj hs)"
    using hl_repD(1) [OF rep] unfolding find_adjacent_def by (rule walk_linked)
  show ?thesis
  proof (cases "List.find ?adj hs")
    case (Some j)
    then have "j \<in> set hs" by (auto simp: find_Some_iff)
    with Some run walk i show ?thesis by (auto simp: free_holes_def)
  next
    case None
    with run walk have ins: "insert_sorted p ?L1 = Some L'"
      by (auto simp: free_holes_def Let_def ending_def outcome_simps split: option.splits)
    have "p \<notin> set hs" using hl_repD(5) [OF rep] by auto
    moreover have "next_of ?L1 = (next_of L)(p := pnext (fill (nodes L p)))"
      by (auto simp: next_of_def)
    ultimately have "linked (next_of ?L1) (phead ?L1) hs" using hl_repD(1) [OF rep] by simp
    from insert_sorted_frame [OF ins this i] i show ?thesis by simp
  qed
qed

lemma unlink_hole_frame:
  assumes run: "unlink_hole p L = Inr L'" and lk: "linked (next_of L) (phead L) hs" and i: "i \<notin> set hs"
  shows "nodes L' i = nodes L i"
proof (cases "phead L = Some p")
  case True
  with run show ?thesis by (auto simp: unlink_hole_def)
next
  case False
  with run obtain h where h: "phead L = Some h" by (cases "phead L") (auto simp: unlink_hole_def)
  have hin: "h \<in> set hs" using lk h by (cases hs) auto
  show ?thesis
  proof (cases "pnext (nodes L h) = Some p")
    case True
    with run False h have "L' = set_next h (pnext (nodes L p)) L" by (simp add: unlink_hole_def)
    then show ?thesis using hin i nodes_set_next [of h i] by auto
  next
    case ne: False
    with run False h obtain q where q: "seek (next_of L) (\<lambda>j. j \<noteq> p) h = Some q"
      and L': "L' = set_next q (pnext (nodes L p)) L"
      by (auto simp: unlink_hole_def outcome_simps ending_def split: option.splits if_splits)
    have "q \<in> set hs" using seek_mem [OF _ q] lk h by simp
    then show ?thesis using i nodes_set_next [of q i] by (auto simp: L')
  qed
qed

lemma carve_frame:
  assumes rep: "hl_rep n L hs fs" and p: "p \<in> set hs" and run: "carve d sz p L = Inr (a, L')" and i: "i \<notin> set hs"
  shows "nodes L' i = nodes L i"
proof -
  let ?L1 = "L\<lparr>nodes := (nodes L)(p := (nodes L p)\<lparr>h_size := h_size (nodes L p) - sz\<rparr>)\<rparr>"
  let ?mid = "if d (h_size (nodes ?L1 p))
    then andThen (unlink_hole p ?L1) (\<lambda>L2. Inr ((set_next p (pfree L2) L2)\<lparr>pfree := Some p\<rparr>)) else Inr ?L1"
  have ip: "i \<noteq> p" using p i by auto
  have "next_of ?L1 = next_of L" by (auto simp: next_of_def)
  then have lk: "linked (next_of ?L1) (phead ?L1) hs" using hl_repD(1) [OF rep] by simp
  from run obtain L3 where mid: "?mid = Inr L3"
    and L': "L' = L3\<lparr>nodes := (nodes L3)(p := (nodes L3 p)\<lparr>h_addr := h_addr (nodes L3 p) + sz\<rparr>)\<rparr>"
    unfolding carve_def Let_def andThen_eq_Inr by auto
  have "nodes L3 i = nodes L i"
  proof (cases "d (h_size (nodes ?L1 p))")
    case True
    with mid obtain L2 where u: "unlink_hole p ?L1 = Inr L2" and L3: "L3 = (set_next p (pfree L2) L2)\<lparr>pfree := Some p\<rparr>"
      by (auto simp: andThen_eq_Inr)
    from unlink_hole_frame [OF u lk i] ip show ?thesis by (simp add: L3 nodes_set_next)
  next
    case False
    with mid have "L3 = ?L1" by simp
    with ip show ?thesis by simp
  qed
  with ip show ?thesis by (simp add: L')
qed

text \<open>Taking descriptors out of the unused list and writing one that is in neither list.\<close>

lemma take_free_rep:
  assumes rep: "hl_rep n L hs fs" and lk: "linked (next_of L) q fs'" and sub: "set fs' \<subseteq> set fs"
    and pf: "pf \<notin> set hs" "pf \<notin> set fs'"
  shows "hl_rep n (L\<lparr>pfree := q, nodes := (nodes L)(pf := m)\<rparr>) hs fs'"
    and "hl_bytes (L\<lparr>pfree := q, nodes := (nodes L)(pf := m)\<rparr>) = hl_bytes L"
    and "hl_sorted (L\<lparr>pfree := q, nodes := (nodes L)(pf := m)\<rparr>) hs \<longleftrightarrow> hl_sorted L hs"
proof -
  let ?L = "L\<lparr>pfree := q, nodes := (nodes L)(pf := m)\<rparr>"
  note r = hl_repD [OF rep]
  have nx: "next_of ?L = (next_of L)(pf := pnext m)" by (auto simp: next_of_def)
  have same: "nodes ?L i = nodes L i" if "i \<in> set hs" for i using that pf by auto
  show rep': "hl_rep n ?L hs fs'"
  proof (rule hl_repI)
    show "linked (next_of ?L) (phead ?L) hs" using r(1) pf(1) unfolding nx by simp
    show "linked (next_of ?L) (pfree ?L) fs'" using lk pf(2) unfolding nx by simp
    show "set hs \<inter> set fs' = {}" "set fs' \<subseteq> {..<n}" using r(5,7) sub by blast+
    show "h_size (nodes ?L i) \<noteq> 0 \<and> unat (h_addr (nodes ?L i)) + unat (h_size (nodes ?L i)) < 2 ^ 64" if "i \<in> set hs" for i
      unfolding same [OF that] using r(8,9) that by simp
    show "hspan ?L i \<inter> hspan ?L j = {}" if "i \<in> set hs" "j \<in> set hs" "i \<noteq> j" for i j
      unfolding same [OF that(1)] same [OF that(2)] using r(10) that by simp
  qed (rule r(6))
  show "hl_bytes ?L = hl_bytes L"
    unfolding hl_bytes_rep [OF rep'] hl_bytes_rep [OF rep] by (intro SUP_cong refl) (simp only: same)
  let ?lt = "\<lambda>L i j. h_addr (nodes L i) < h_addr (nodes L j)"
  have "?lt L i j" if "i \<in> set hs" "j \<in> set hs" "?lt ?L i j" for i j
    using that(3) unfolding same [OF that(1)] same [OF that(2)] .
  moreover have "?lt ?L i j" if "i \<in> set hs" "j \<in> set hs" "?lt L i j" for i j
    using that(3) unfolding same [OF that(1)] same [OF that(2)] .
  ultimately show "hl_sorted ?L hs \<longleftrightarrow> hl_sorted L hs"
    unfolding hl_sorted_def
    using sorted_wrt_mono_rel [of hs "?lt ?L" "?lt L"] sorted_wrt_mono_rel [of hs "?lt L" "?lt ?L"] by blast
qed

section \<open>Looking for a hole\<close>

lemma find_fit_rep:
  assumes "hl_rep n L hs fs"
  shows "find_fit sz L = Some (List.find (\<lambda>i. \<not> h_size (nodes L i) < sz) hs)"
  using hl_repD(1) [OF assms] unfolding find_fit_def by (rule walk_linked)

lemma find_fit_Some:
  assumes "hl_rep n L hs fs" and "find_fit sz L = Some (Some p)"
  shows "p \<in> set hs" and "sz \<le> h_size (nodes L p)"
  using assms by (auto simp: find_fit_rep find_Some_iff not_less)

lemma find_fit_None:
  assumes "hl_rep n L hs fs" and "find_fit sz L = Some None" and "i \<in> set hs"
  shows "h_size (nodes L i) < sz"
  using assms by (auto simp: find_fit_rep find_None_iff)

text \<open>The second search returns a hole that fits if there is one, else the last one.\<close>

lemma find_fit_or_last_rep:
  assumes rep: "hl_rep n L hs fs" and ne: "hs \<noteq> []"
  obtains p where "find_fit_or_last sz L = Some (Some p)" "p \<in> set hs"
    "(\<exists>i \<in> set hs. sz \<le> h_size (nodes L i)) \<Longrightarrow> sz \<le> h_size (nodes L p)"
    "(\<forall>i \<in> set hs. h_size (nodes L i) < sz) \<Longrightarrow> p = last hs"
proof -
  let ?stop = "\<lambda>i. pnext (nodes L i) = None \<or> \<not> h_size (nodes L i) < sz"
  note lk = hl_repD(1) [OF rep]
  have run: "find_fit_or_last sz L = Some (List.find ?stop hs)"
    using lk unfolding find_fit_or_last_def by (rule walk_linked)
  have tail: "pnext (nodes L i) = None \<longleftrightarrow> i = last hs" if "i \<in> set hs" for i
    using linked_next_None [OF lk that] by (simp add: next_of_def)
  have "List.find ?stop hs \<noteq> None"
    using tail [OF last_in_set [OF ne]] last_in_set [OF ne] unfolding find_None_iff by blast
  then obtain p where p: "List.find ?stop hs = Some p" by blast
  from find_SomeD [OF p] obtain as bs where hs: "hs = as @ p # bs" and stop: "?stop p"
    and as: "\<forall>i \<in> set as. \<not> ?stop i" by blast
  have pin: "p \<in> set hs" by (simp add: hs)
  have fits: "sz \<le> h_size (nodes L p)" if "\<exists>i \<in> set hs. sz \<le> h_size (nodes L i)"
  proof (rule ccontr)
    assume small: "\<not> sz \<le> h_size (nodes L p)"
    with stop tail [OF pin] have "p = last hs" by (simp add: not_le)
    then have "bs = []" using linked_distinct [OF lk] by (auto simp: hs split: if_splits)
    with that small as show False by (auto simp: hs not_less)
  qed
  show thesis
    by (rule that [of p]) (use run p pin fits stop tail [OF pin] in auto)
qed

section \<open>Initial state\<close>

lemma init_holes_rep:
  assumes "0 < n" shows "hl_rep n (init_holes n m) [] [0..<n]"
proof -
  have "linked (next_of (init_holes n m)) (Some 0) [0..<n]"
    using linked_array_upt [OF assms] by (rule linked_cong) (simp add: init_holes_def next_of_def)
  then show ?thesis
    by (intro hl_repI) (auto simp: init_holes_def)
qed

lemma init_holes_bytes: "0 < n \<Longrightarrow> hl_bytes (init_holes n m) = {}"
  using hl_bytes_rep [OF init_holes_rep] by simp

lemma init_holes_sorted_inv: "0 < n \<Longrightarrow> hl_sorted_inv n (init_holes n m)"
  unfolding hl_sorted_inv_def hl_sorted_def using init_holes_rep [of n m] sorted_wrt.simps(1) by blast

end
