(* ===== verification/Memory_Layout.thy ===== *)
theory Memory_Layout
  imports Yaos_Prelude
begin

text \<open>
  The virtual address space, \<open>arch/x86_64/include/asm/pgtable.h\<close>: the bases of the regions, the
  conversions between physical and virtual addresses, and the flags of a page table entry.
\<close>

section \<open>Regions\<close>

abbreviation PAGE_SIZE_LARGE :: ulong where "PAGE_SIZE_LARGE \<equiv> 0x200000"
abbreviation PAGE_SIZE_SMALL :: ulong where "PAGE_SIZE_SMALL \<equiv> 0x1000"
abbreviation PAGE_SIZE_HUGE :: ulong where "PAGE_SIZE_HUGE \<equiv> 0x40000000"

definition IO_MEM_BASE :: ulong where "IO_MEM_BASE = 0xffffffe800000000"
definition KERNEL_BASE :: ulong where "KERNEL_BASE = 0xffffffff80000000"
definition PHYS_VIRT_START :: ulong where "PHYS_VIRT_START = 0xFFFF820000000000"
definition VMALLOC_START :: ulong where "VMALLOC_START = 0xffffc90000000000"
definition VMALLOC_SIZE :: ulong where "VMALLOC_SIZE = push_bit 40 32"
definition VMALLOC_END :: ulong where "VMALLOC_END = VMALLOC_START + push_bit 40 32 - 1"
definition LOW_MMAP_START :: ulong where "LOW_MMAP_START = 0x0000700000000000"
definition LOW_MMAP_SIZE :: ulong where "LOW_MMAP_SIZE = push_bit 40 4"
definition LOW_MMAP_END :: ulong where "LOW_MMAP_END = LOW_MMAP_START + (LOW_MMAP_SIZE - 1)"
definition KERNEL_STACK_ZONE_SIZE :: ulong where "KERNEL_STACK_ZONE_SIZE = push_bit 40 1"
definition KERNEL_STACK_ZONE_START :: ulong where
  "KERNEL_STACK_ZONE_START = PHYS_VIRT_START - KERNEL_STACK_ZONE_SIZE"
definition KERNEL_STACK_ZONE_END :: ulong where
  "KERNEL_STACK_ZONE_END = KERNEL_STACK_ZONE_START + (KERNEL_STACK_ZONE_SIZE - 1)"
definition PHYS_VIRT_END :: ulong where "PHYS_VIRT_END = VMALLOC_START - push_bit 40 1 - 1"
definition KERNEL_BELOW_1G_START :: ulong where "KERNEL_BELOW_1G_START = KERNEL_BASE - 0x40000000"
definition KERNEL_BELOW_1G_END :: ulong where "KERNEL_BELOW_1G_END = KERNEL_BASE"
definition KERNEL_BELOW_1G_SIZE :: ulong where "KERNEL_BELOW_1G_SIZE = 0x40000000"

lemmas layout_defs = IO_MEM_BASE_def KERNEL_BASE_def PHYS_VIRT_START_def VMALLOC_START_def VMALLOC_SIZE_def
  VMALLOC_END_def LOW_MMAP_START_def LOW_MMAP_SIZE_def LOW_MMAP_END_def KERNEL_STACK_ZONE_SIZE_def
  KERNEL_STACK_ZONE_START_def KERNEL_STACK_ZONE_END_def PHYS_VIRT_END_def KERNEL_BELOW_1G_START_def
  KERNEL_BELOW_1G_END_def KERNEL_BELOW_1G_SIZE_def

section \<open>Conversions\<close>

definition P2K :: "ulong \<Rightarrow> ulong" where "P2K addr = addr + KERNEL_BASE"
definition K2P :: "ulong \<Rightarrow> ulong" where "K2P addr = addr - KERNEL_BASE"
definition IO2V :: "ulong \<Rightarrow> ulong" where "IO2V addr = addr + IO_MEM_BASE"
definition P2V :: "ulong \<Rightarrow> ulong" where "P2V addr = addr + PHYS_VIRT_START"

definition V2P :: "ulong \<Rightarrow> ulong outcome" where
  "V2P addr = andThen (ASSERT (addr \<le> PHYS_VIRT_END \<and> addr \<ge> PHYS_VIRT_START)) (\<lambda>_.
     Inr (addr - PHYS_VIRT_START))"

definition KV2P :: "ulong \<Rightarrow> ulong outcome" where
  "KV2P addr = (if addr > KERNEL_BASE then Inr (addr - KERNEL_BASE) else V2P addr)"

section \<open>Flags of a page table entry\<close>

abbreviation PTE_P :: ulong where "PTE_P \<equiv> 0x001"
abbreviation PTE_W :: ulong where "PTE_W \<equiv> 0x002"
abbreviation PTE_U :: ulong where "PTE_U \<equiv> 0x004"
abbreviation PTE_PWT :: ulong where "PTE_PWT \<equiv> 0x008"
abbreviation PTE_PCD :: ulong where "PTE_PCD \<equiv> 0x010"
abbreviation PTE_PS :: ulong where "PTE_PS \<equiv> 0x080"

definition map_flags_base :: ulong where "map_flags_base = PTE_P OR PTE_PS"
definition map_flags_rw :: ulong where "map_flags_rw = PTE_P OR PTE_W OR PTE_PS"
definition map_flags_readonly :: ulong where "map_flags_readonly = PTE_P OR PTE_PS"
definition map_flags_exec :: ulong where "map_flags_exec = PTE_P OR PTE_PS"
definition map_flags_write :: ulong where "map_flags_write = PTE_W"
definition map_flags_code :: ulong where "map_flags_code = 0"
definition map_flags_stack :: ulong where "map_flags_stack = map_flags_rw"

section \<open>Facts\<close>

text \<open>The direct map holds physical addresses below 70T; up to there the conversions are inverse.\<close>

lemma unat_P2V:
  assumes "unat a < 2 ^ 46" shows "unat (P2V a) = unat a + unat PHYS_VIRT_START"
  unfolding P2V_def by (rule unat_add_no_wrap) (use assms in \<open>simp add: PHYS_VIRT_START_def\<close>)

lemma P2V_nonzero: "unat a < 2 ^ 46 \<Longrightarrow> P2V a \<noteq> 0"
  using unat_P2V [of a] by (auto simp: PHYS_VIRT_START_def)

lemma V2P_P2V: 
  assumes "unat a < 2 ^ 46" shows "V2P (P2V a) = Inr a"
proof -
  have "P2V a \<le> PHYS_VIRT_END \<and> PHYS_VIRT_START \<le> P2V a"
    using assms unfolding word_le_nat_alt unat_P2V [OF assms] by (simp add: layout_defs)
  then show ?thesis by (simp add: V2P_def) (simp add: P2V_def)
qed

lemma V2P_bounds:
  assumes "V2P v = Inr a" shows "P2V a = v" "unat a < unat PHYS_VIRT_END - unat PHYS_VIRT_START + 1"
proof -
  from assms have le: "v \<le> PHYS_VIRT_END" "PHYS_VIRT_START \<le> v" and a: "a = v - PHYS_VIRT_START"
    by (auto simp: V2P_def outcome_simps)
  show "P2V a = v" by (simp add: P2V_def a)
  have "unat a = unat v - unat PHYS_VIRT_START" using a le(2) by (simp add: unat_sub_no_wrap)
  then show "unat a < unat PHYS_VIRT_END - unat PHYS_VIRT_START + 1"
    using le unfolding word_le_nat_alt by linarith
qed

lemma al4k_P2V: "al4k a \<Longrightarrow> al4k (P2V a)"
  unfolding P2V_def by (rule aligned_add) (simp_all add: al4k_def PHYS_VIRT_START_def)

text \<open>
  The conversions between physical addresses and the direct map are inverse to each other: the address of
  physical memory below 64T converts back to itself without failing the assertion, an address
  converts back only from the direct map, and then to itself.
\<close>

theorem P2V_V2P_round_trip:
  "(unat a < 2 ^ 46 \<longrightarrow> V2P (P2V a) = Inr a) \<and>
   (V2P v = Inr b \<longrightarrow> P2V b = v \<and> PHYS_VIRT_START \<le> v \<and> v \<le> PHYS_VIRT_END)"
  using V2P_P2V [of a] by (auto simp: V2P_def P2V_def outcome_simps)

theorem P2V_V2P_round_trip_witness:
  "V2P (P2V 0x200000) = Inr 0x200000 \<and> P2V 0x1000 = 0xFFFF820000001000"
  using P2V_V2P_round_trip [of "0x200000" "0xFFFF820000001000" "0x1000"]
  by (simp add: V2P_def layout_defs)

end
