(* ===== verification/Phymem.thy ===== *)
theory Phymem
  imports Memory_Layout
begin

text \<open>
  The bitmap allocator of 2M physical pages, \<open>arch/x86_64/phymem.c\<close>, with the bit
  operations of \<open>arch/x86_64/include/asm/bitops.h\<close> it uses. The bitmap is an array of
  64-bit words in which a set bit is a free page. A pointer into the bitmap is its offset in words.
\<close>

section \<open>Model\<close>


abbreviation PAGE_4K_SIZE :: ulong where "PAGE_4K_SIZE \<equiv> 0x1000"

subsection \<open>Bit operations\<close>

text \<open>\<open>bsf\<close>: the least set bit. The result is undefined for 0, which callers exclude.\<close>

definition ffs_word :: "ulong \<Rightarrow> nat" where
  "ffs_word w = (case List.find (bit w) [0..<64] of None \<Rightarrow> 0 | Some i \<Rightarrow> i)"

text \<open>
  \<open>bts\<close> and \<open>btr\<close> with a memory operand address the bit string that starts at
  the operand: bit \<open>nr\<close> is bit \<open>nr mod 64\<close> of word \<open>nr div 64\<close>.
\<close>

definition test_and_set_bit :: "nat \<Rightarrow> (nat \<Rightarrow> ulong) \<Rightarrow> bool \<times> (nat \<Rightarrow> ulong)" where
  "test_and_set_bit nr w =
     (bit (w (nr div 64)) (nr mod 64),
      w(nr div 64 := Bit_Operations.set_bit (nr mod 64) (w (nr div 64))))"

definition test_and_clear_bit :: "nat \<Rightarrow> (nat \<Rightarrow> ulong) \<Rightarrow> bool \<times> (nat \<Rightarrow> ulong)" where
  "test_and_clear_bit nr w =
     (bit (w (nr div 64)) (nr mod 64),
      w(nr div 64 := Bit_Operations.unset_bit (nr mod 64) (w (nr div 64))))"

subsection \<open>State\<close>

record phymem =
  max_phy_addr :: ulong
  max_phy_mem_addr :: ulong
  pgbits :: "nat \<Rightarrow> ulong"
  pmax :: nat
  pnow :: nat
  nowbit :: ulong
  maxbits :: ulong
  pages :: ulong
  smallbits :: "nat \<Rightarrow> ulong"
  smallpmax :: nat
  smallpnow :: nat
  smallnowbit :: ulong
  smallmaxbits :: ulong
  smallpages :: ulong
  smallpage_base :: ulong

subsection \<open>Operations\<close>

text \<open>
  The scan \<open>while (++now < lim) if (*now) return now;\<close>: whether it returned, and
  the value of \<open>now\<close> after it.
\<close>

function scan_words :: "(nat \<Rightarrow> ulong) \<Rightarrow> nat \<Rightarrow> nat \<Rightarrow> bool \<times> nat" where
  "scan_words w now lim =
     (if Suc now < lim
      then (if w (Suc now) \<noteq> 0 then (True, Suc now) else scan_words w (Suc now) lim)
      else (False, Suc now))"
  by pat_completeness auto
termination
  by (relation "measure (\<lambda>(w, now, lim). lim - now)") auto

declare scan_words.simps [simp del]

definition none_zero :: "(nat \<Rightarrow> ulong) \<Rightarrow> nat \<Rightarrow> nat \<Rightarrow> nat option \<times> nat" where
  "none_zero w now lim =
     (if w now \<noteq> 0 then (Some now, now)
      else case scan_words w now lim of
        (found, i) \<Rightarrow>
          if found then (Some i, i)
          else if w 0 \<noteq> 0 then (Some 0, 0)
          else case scan_words w 0 now of
            (found, i) \<Rightarrow> (if found then Some i else None, i))"

definition get_none_zero :: "phymem \<Rightarrow> nat option \<times> phymem" where
  "get_none_zero s =
     (case none_zero (pgbits s) (pnow s) (pmax s) of (r, i) \<Rightarrow> (r, s\<lparr>pnow := i\<rparr>))"

definition get_none_zero_small :: "phymem \<Rightarrow> nat option \<times> phymem" where
  "get_none_zero_small s =
     (case none_zero (smallbits s) (smallpnow s) (smallpmax s) of
        (r, i) \<Rightarrow> (r, s\<lparr>smallpnow := i\<rparr>))"

partial_function (option) alloc_phy_page_loop :: "phymem \<Rightarrow> (ulong \<times> phymem) option" where
  "alloc_phy_page_loop s =
     (if pages s = 0 then Some (0, s)
      else case get_none_zero s of
        (None, s1) \<Rightarrow> Some (0, s1)
      | (Some p, s1) \<Rightarrow>
          if pgbits s1 p = 0 then alloc_phy_page_loop s1
          else let pos = ffs_word (pgbits s1 p) in
            case test_and_clear_bit (pos + 64 * p) (pgbits s1) of
              (old, bits) \<Rightarrow>
                if old
                then Some (PAGE_SIZE_LARGE * (of_nat pos + of_nat p * 64),
                           s1\<lparr>pgbits := bits, pages := pages s1 - 1\<rparr>)
                else alloc_phy_page_loop (s1\<lparr>pgbits := bits\<rparr>))"

declare alloc_phy_page_loop.simps [code]

definition alloc_phy_page :: "phymem \<Rightarrow> (ulong \<times> phymem) outcome" where
  "alloc_phy_page s = ending (alloc_phy_page_loop s)"

text \<open>
  \<open>alloc_small_phy_page_safe\<close> hands out 4K pages of one 2M page. The array
  \<open>smallbits\<close> has 64 words; \<open>smallpmax\<close> bounds the scan to the first 8.
\<close>

definition refill_small :: "phymem \<Rightarrow> (ulong \<times> phymem) outcome" where
  "refill_small s =
     (if smallpages s \<noteq> 0 then Inr (1, s)
      else andThen (alloc_phy_page s) (\<lambda>(addr, s1).
        if addr = 0 then Inr (0, s1)
        else Inr (addr, s1\<lparr>smallpage_base := addr,
                           smallbits := (\<lambda>i. if i < 64 then - 1 else smallbits s1 i),
                           smallpnow := 0, smallpmax := 8, smallnowbit := 0,
                           smallpages := PAGE_SIZE_LARGE div PAGE_4K_SIZE\<rparr>)))"

partial_function (option) alloc_small_phy_page_safe_loop ::
  "bool \<Rightarrow> phymem \<Rightarrow> (ulong \<times> phymem) outcome option" where
  "alloc_small_phy_page_safe_loop entered s =
     (if \<not> entered then
        (case refill_small s of
           Inl e \<Rightarrow> Some (Inl e)
         | Inr (addr, s1) \<Rightarrow>
             if addr = 0 then Some (Inr (0, s1)) else alloc_small_phy_page_safe_loop True s1)
      else if smallpages s = 0 then Some (Inr (0, s))
      else case get_none_zero_small s of
        (None, s1) \<Rightarrow> alloc_small_phy_page_safe_loop False s1
      | (Some p, s1) \<Rightarrow>
          if smallbits s1 p = 0 then alloc_small_phy_page_safe_loop True s1
          else let pos = ffs_word (smallbits s1 p) in
            case test_and_clear_bit (pos + 64 * p) (smallbits s1) of
              (old, bits) \<Rightarrow>
                if old
                then Some (Inr (PAGE_4K_SIZE * (of_nat pos + of_nat p * 64) + smallpage_base s1,
                           s1\<lparr>smallbits := bits, smallpages := smallpages s1 - 1\<rparr>))
                else alloc_small_phy_page_safe_loop True (s1\<lparr>smallbits := bits\<rparr>))"

declare alloc_small_phy_page_safe_loop.simps [code]

definition alloc_small_phy_page_safe :: "phymem \<Rightarrow> (ulong \<times> phymem) outcome" where
  "alloc_small_phy_page_safe s =
     andThen (ending (alloc_small_phy_page_safe_loop False s)) (\<lambda>r. r)"

text \<open>Setting the bit of one page: a page that was already free is only reported.\<close>

definition release_page :: "nat \<Rightarrow> phymem \<Rightarrow> phymem" where
  "release_page pos s =
     (case test_and_set_bit pos (pgbits s) of
        (old, bits) \<Rightarrow>
          if old then s\<lparr>pgbits := bits\<rparr> else s\<lparr>pgbits := bits, pages := pages s + 1\<rparr>)"

definition free_phy_one_page :: "ulong \<Rightarrow> phymem \<Rightarrow> phymem outcome" where
  "free_phy_one_page addr s =
     andThen (ASSERT (addr < max_phy_mem_addr s)) (\<lambda>_.
     if addr \<noteq> 0 then
       andThen (ASSERT (addr AND (PAGE_SIZE_LARGE - 1) = 0 \<and> addr < max_phy_addr s)) (\<lambda>_.
       Inr (release_page (unat (addr div PAGE_SIZE_LARGE)) s))
     else Inr s)"

partial_function (option) free_phy_pages_loop :: "ulong \<Rightarrow> ulong \<Rightarrow> phymem \<Rightarrow> phymem option" where
  "free_phy_pages_loop sz pos s =
     (if sz > 0
      then free_phy_pages_loop (sz - PAGE_SIZE_LARGE) (pos + 1) (release_page (unat pos) s)
      else Some s)"

declare free_phy_pages_loop.simps [code]

definition free_phy_pages :: "ulong \<Rightarrow> ulong \<Rightarrow> phymem \<Rightarrow> phymem outcome" where
  "free_phy_pages addr sz s =
     andThen (ASSERT (addr < max_phy_mem_addr s)) (\<lambda>_.
     if addr \<noteq> 0 then
       andThen (ASSERT (addr AND (PAGE_SIZE_LARGE - 1) = 0 \<and> addr < max_phy_addr s)) (\<lambda>_.
       andThen (ASSERT (sz AND (PAGE_SIZE_LARGE - 1) = 0)) (\<lambda>_.
       ending (free_phy_pages_loop sz (addr div PAGE_SIZE_LARGE) s)))
     else Inr s)"

text \<open>
  \<open>init_phy_mem\<close>: the bitmap comes zeroed from \<open>kalloc\<close>, so every page starts
  allocated; the boot code then frees the ranges of the memory map. \<open>base\<close> is the value
  \<open>smallpage_base\<close> has before the call, which does not set it.
\<close>

definition init_phy_mem :: "ulong \<Rightarrow> ulong \<Rightarrow> ulong \<Rightarrow> phymem" where
  "init_phy_mem maxaddr maxmem base =
     (let bits = maxaddr div PAGE_SIZE_LARGE;
          sbits = PAGE_SIZE_LARGE div PAGE_4K_SIZE in
      \<lparr>max_phy_addr = maxaddr, max_phy_mem_addr = maxmem,
       pgbits = (\<lambda>_. 0), pmax = unat (bits div 64), pnow = 0, nowbit = 0, maxbits = bits,
       pages = 0,
       smallbits = (\<lambda>_. 0), smallpmax = unat (sbits div 64), smallpnow = 0, smallnowbit = 0,
       smallmaxbits = sbits, smallpages = 0, smallpage_base = base\<rparr>)"

section \<open>Abstraction and invariant\<close>

text \<open>The free pages, by page number.\<close>

definition pm_free :: "phymem \<Rightarrow> nat set" where
  "pm_free s = {k. bit (pgbits s (k div 64)) (k mod 64)}"

text \<open>
  Page 0 is never free, every free page starts below the installed memory, and \<open>pages\<close>
  counts the free pages.
\<close>

definition pm_inv :: "phymem \<Rightarrow> bool" where
  "pm_inv s \<longleftrightarrow>
     unat (max_phy_addr s) \<le> 2 ^ 52 \<and> 0 \<notin> pm_free s \<and>
     (\<forall>k \<in> pm_free s. k * 2 ^ 21 < unat (max_phy_addr s)) \<and>
     unat (pages s) = card (pm_free s)"

section \<open>Bits\<close>

lemma ffs_word_bit:
  assumes "w \<noteq> 0"
  shows "bit w (ffs_word w)" and "ffs_word w < 64"
proof -
  from assms obtain n where n: "bit w n"
    by (auto simp: bit_eq_iff)
  then have "n < 64" using bit_imp_le_length [OF n] by simp
  with n have "List.find (bit w) [0..<64] \<noteq> None"
    by (auto simp: find_None_iff)
  then obtain i where i: "List.find (bit w) [0..<64] = Some i" by auto
  then have "bit w i" "i < 64"
    by (auto simp: find_Some_iff)
  with i show "bit w (ffs_word w)" and "ffs_word w < 64"
    by (simp_all add: ffs_word_def)
qed

lemma div_mod_64_iff: "k div 64 = n div 64 \<and> k mod 64 = n mod 64 \<longleftrightarrow> k = (n::nat)"
  by (metis div_mult_mod_eq)

lemma bits_set:
  "bit ((w(n div 64 := Bit_Operations.set_bit (n mod 64) (w (n div 64)))) (k div 64)) (k mod 64)
     \<longleftrightarrow> k = n \<or> bit ((w (k div 64))::ulong) (k mod 64)"
  using div_mod_64_iff [of k n] by (auto simp: bit_set_bit_iff)

lemma bits_unset:
  "bit ((w(n div 64 := Bit_Operations.unset_bit (n mod 64) (w (n div 64)))) (k div 64)) (k mod 64)
     \<longleftrightarrow> k \<noteq> n \<and> bit ((w (k div 64))::ulong) (k mod 64)"
  using div_mod_64_iff [of k n] by (auto simp: bit_unset_bit_iff)

section \<open>Scanning\<close>

lemma scan_words_found:
  "scan_words w now lim = (True, i) \<Longrightarrow> now < i \<and> i < lim \<and> w i \<noteq> 0"
proof (induction w now lim rule: scan_words.induct)
  case (1 w now lim)
  show ?case
    using 1 by (auto simp: scan_words.simps [of w now lim] split: if_splits)
qed

lemma scan_words_not_found:
  "scan_words w now lim = (False, i) \<Longrightarrow> now < k \<Longrightarrow> k < lim \<Longrightarrow> w k = 0"
proof (induction w now lim rule: scan_words.induct)
  case (1 w now lim)
  show ?case
  proof (cases "k = Suc now")
    case True
    with 1 show ?thesis by (auto simp: scan_words.simps [of w now lim] split: if_splits)
  next
    case False
    with 1 show ?thesis by (auto simp: scan_words.simps [of w now lim] split: if_splits)
  qed
qed

lemma none_zero_Some: "none_zero w now lim = (Some p, i) \<Longrightarrow> i = p \<and> w p \<noteq> 0"
  by (auto simp: none_zero_def dest: scan_words_found split: if_splits prod.splits)

lemma none_zero_None:
  assumes "none_zero w now lim = (None, i)" and "k < lim"
  shows "w k = 0"
proof -
  from assms(1) have now: "w now = 0" and first: "w 0 = 0"
    and hi: "\<And>k. now < k \<Longrightarrow> k < lim \<Longrightarrow> w k = 0"
    and lo: "\<And>k. 0 < k \<Longrightarrow> k < now \<Longrightarrow> w k = 0"
    by (auto simp: none_zero_def dest: scan_words_not_found split: if_splits prod.splits)
  show ?thesis
  proof (cases k now rule: linorder_cases)
    case less
    with first lo [of k] show ?thesis by (cases "k = 0") auto
  next
    case equal
    with now show ?thesis by simp
  next
    case greater
    with hi assms(2) show ?thesis by blast
  qed
qed

section \<open>Allocation\<close>

text \<open>
  One round of the loop of \<open>alloc_phy_page\<close> is enough: without a concurrent CPU, the
  word that \<open>get_none_zero\<close> finds is still non-zero and its first set bit is still set.
\<close>

lemma alloc_phy_page_cases:
  "alloc_phy_page s =
     (if pages s = 0 then Inr (0, s)
      else case get_none_zero s of
        (None, s1) \<Rightarrow> Inr (0, s1)
      | (Some p, s1) \<Rightarrow>
          let n = ffs_word (pgbits s p) + 64 * p in
          Inr (PAGE_SIZE_LARGE * of_nat n,
               s1\<lparr>pgbits := snd (test_and_clear_bit n (pgbits s)), pages := pages s - 1\<rparr>))"
proof (cases "pages s = 0 \<or> fst (get_none_zero s) = None")
  case True
  then show ?thesis
    by (cases "get_none_zero s") (auto simp: alloc_phy_page_def alloc_phy_page_loop.simps)
next
  case False
  then obtain p i where nz: "none_zero (pgbits s) (pnow s) (pmax s) = (Some p, i)"
    by (auto simp: get_none_zero_def split: prod.splits)
  then have word: "pgbits s p \<noteq> 0" by (blast dest: none_zero_Some)
  let ?pos = "ffs_word (pgbits s p)"
  have "(?pos + 64 * p) div 64 = p" and "(?pos + 64 * p) mod 64 = ?pos"
    using ffs_word_bit(2) [OF word] by simp_all
  then have "fst (test_and_clear_bit (?pos + 64 * p) (pgbits s))"
    using ffs_word_bit(1) [OF word] by (simp add: test_and_clear_bit_def)
  with False nz word show ?thesis
    by (auto simp: alloc_phy_page_def alloc_phy_page_loop.simps get_none_zero_def Let_def
        mult.commute split: prod.splits)
qed

lemma alloc_phy_page_returns: "\<exists>a s'. alloc_phy_page s = Inr (a, s')"
  by (auto simp: alloc_phy_page_cases Let_def split: option.splits prod.splits)

lemma pm_inv_finite: "pm_inv s \<Longrightarrow> finite (pm_free s)"
proof -
  assume "pm_inv s"
  then have "pm_free s \<subseteq> {..<unat (max_phy_addr s)}"
    by (fastforce simp: pm_inv_def)
  then show "finite (pm_free s)"
    by (rule finite_subset) simp
qed

lemma pm_free_simps [simp]:
  "{k. bit (snd (test_and_clear_bit n w) (k div 64)) (k mod 64)} = {k. bit (w (k div 64)) (k mod 64)} - {n}"
  "pm_free (s\<lparr>pnow := i\<rparr>) = pm_free s"
  by (auto simp: pm_free_def test_and_clear_bit_def bits_unset simp del: fun_upd_apply)

lemma unat_page_address:
  assumes "n * 2 ^ 21 < 2 ^ 64"
  shows "unat (PAGE_SIZE_LARGE * of_nat n) = n * 2 ^ 21"
proof -
  have "PAGE_SIZE_LARGE * of_nat n = of_nat (n * 2 ^ 21)"
    by (simp add: mult.commute)
  then show ?thesis
    using assms by (simp only: unat_of_nat take_bit_eq_mod) simp
qed

text \<open>What a call of \<open>alloc_phy_page\<close> does to the set of free pages.\<close>

lemma alloc_phy_page_spec:
  assumes inv: "pm_inv s" and run: "alloc_phy_page s = Inr (a, s')"
  shows "pm_inv s' \<and>
    (a = 0 \<longrightarrow> pm_free s' = pm_free s \<and> pm_free s \<inter> {..<64 * pmax s} = {}) \<and>
    (a \<noteq> 0 \<longrightarrow> (\<exists>k \<in> pm_free s. unat a = k * 2 ^ 21 \<and> pm_free s' = pm_free s - {k}))"
proof (cases "pages s = 0")
  case True
  with inv have "card (pm_free s) = 0"
    by (simp add: pm_inv_def)
  then have "pm_free s = {}"
    using pm_inv_finite [OF inv] by simp
  with True run inv show ?thesis
    by (auto simp: alloc_phy_page_cases)
next
  case False
  obtain r i where nz: "none_zero (pgbits s) (pnow s) (pmax s) = (r, i)" by fastforce
  show ?thesis
  proof (cases r)
    case None
    with nz have "\<And>k. k < pmax s \<Longrightarrow> pgbits s k = 0" by (blast dest: none_zero_None)
    then have "pm_free s \<inter> {..<64 * pmax s} = {}"
      by (auto simp: pm_free_def)
    moreover have "a = 0" "s' = s\<lparr>pnow := i\<rparr>"
      using run False nz None by (auto simp: alloc_phy_page_cases get_none_zero_def)
    ultimately show ?thesis
      using inv by (auto simp: pm_inv_def)
  next
    case (Some p)
    then have w: "pgbits s p \<noteq> 0" using nz by (blast dest: none_zero_Some)
    define n where "n = ffs_word (pgbits s p) + 64 * p"
    have "n div 64 = p" "n mod 64 = ffs_word (pgbits s p)"
      using ffs_word_bit(2) [OF w] by (simp_all add: n_def)
    then have n: "n \<in> pm_free s"
      using ffs_word_bit(1) [OF w] by (simp add: pm_free_def)
    with inv have nlt: "n * 2 ^ 21 < 2 ^ 52" by (fastforce simp: pm_inv_def intro: less_le_trans)
    from n inv have "n \<noteq> 0" by (metis pm_inv_def)
    have ua: "unat (PAGE_SIZE_LARGE * of_nat n) = n * 2 ^ 21"
      using nlt by (intro unat_page_address) simp
    have s': "s' = s\<lparr>pnow := i, pgbits := snd (test_and_clear_bit n (pgbits s)), pages := pages s - 1\<rparr>"
      and a: "a = PAGE_SIZE_LARGE * of_nat n"
      using run False nz Some by (auto simp: alloc_phy_page_cases get_none_zero_def n_def Let_def)
    have free: "pm_free s' = pm_free s - {n}"
      by (simp add: s' pm_free_def)
    have "unat (pages s - 1) = card (pm_free s) - 1"
      using inv False by (simp add: pm_inv_def unat_minus_one)
    then have "unat (pages s') = card (pm_free s')"
      using n pm_inv_finite [OF inv] unfolding free by (simp add: s' card_Diff_singleton)
    moreover have "max_phy_addr s' = max_phy_addr s"
      by (simp add: s')
    ultimately have "pm_inv s'"
      using inv unfolding pm_inv_def free by auto
    moreover have "a \<noteq> 0"
      using ua \<open>n \<noteq> 0\<close> by (auto simp: a)
    ultimately show ?thesis
      using n ua free a by auto
  qed
qed

section \<open>Release\<close>

lemma release_page_fields [simp]:
  "max_phy_addr (release_page k s) = max_phy_addr s"
  "max_phy_mem_addr (release_page k s) = max_phy_mem_addr s"
  "pmax (release_page k s) = pmax s"
  by (simp_all add: release_page_def split: prod.split)

lemma pm_free_release [simp]: "pm_free (release_page k s) = insert k (pm_free s)"
  by (auto simp: release_page_def test_and_set_bit_def pm_free_def bits_set simp del: fun_upd_apply)

lemma release_page_inv:
  assumes inv: "pm_inv s" and k: "k \<noteq> 0" "k * 2 ^ 21 < unat (max_phy_addr s)"
  shows "pm_inv (release_page k s)"
proof -
  have sub: "pm_free s \<subseteq> {..<2 ^ 31}"
    using inv by (fastforce simp: pm_inv_def)
  then have "card (pm_free s) \<le> 2 ^ 31"
    using card_mono [OF finite_lessThan sub] by simp
  then have "unat (pages s) + 1 < 2 ^ 64"
    using inv by (simp add: pm_inv_def)
  then have "unat (pages s + 1) = unat (pages s) + 1"
    using unat_add_no_wrap [of "pages s" 1] by simp
  moreover have "pages (release_page k s) = (if k \<in> pm_free s then pages s else pages s + 1)"
    by (simp add: release_page_def test_and_set_bit_def pm_free_def)
  ultimately have "unat (pages (release_page k s)) = card (pm_free (release_page k s))"
    using inv pm_inv_finite [OF inv] by (simp add: pm_inv_def insert_absorb)
  with inv k show ?thesis
    by (auto simp: pm_inv_def)
qed

lemma init_phy_mem_inv: "unat maxaddr \<le> 2 ^ 52 \<Longrightarrow> pm_inv (init_phy_mem maxaddr maxmem base)"
  and init_phy_mem_free: "pm_free (init_phy_mem maxaddr maxmem base) = {}"
  by (simp_all add: pm_inv_def pm_free_def init_phy_mem_def Let_def)

lemma free_phy_one_page_spec:
  assumes inv: "pm_inv s" and run: "free_phy_one_page a s = Inr s'"
  shows "pm_inv s' \<and>
    pm_free s' = (if a = 0 then pm_free s else insert (unat a div 2 ^ 21) (pm_free s))"
proof (cases "a = 0")
  case True
  with run inv show ?thesis by (auto simp: free_phy_one_page_def outcome_simps)
next
  case False
  with run have al: "a AND (2 ^ 21 - 1) = 0" and lt: "a < max_phy_addr s"
    and s': "s' = release_page (unat a div 2 ^ 21) s"
    by (auto simp: free_phy_one_page_def outcome_simps unat_div)
  from al have dvd: "2 ^ 21 dvd unat a" using aligned_iff_dvd [of a 21] by simp
  moreover have "unat a \<noteq> 0" using False by (simp add: unat_eq_0)
  ultimately have "unat a div 2 ^ 21 \<noteq> 0" and "unat a div 2 ^ 21 * 2 ^ 21 = unat a"
    by (auto simp: dvd_def)
  then have "pm_inv s'"
    using inv lt by (auto simp: s' word_less_nat_alt intro!: release_page_inv)
  with False show ?thesis by (simp add: s')
qed

section \<open>Release of a range\<close>

lemma atLeastLessThan_Suc_first: "{i ..< Suc (i + n)} = insert i {Suc i ..< Suc (i + n)}"
  by auto

text \<open>
  Freeing a range: with a size that is a multiple of 2M the loop ends after one round per page,
  and every page of the range is free afterwards.
\<close>

lemma free_phy_pages_loop_returns:
  assumes "unat sz = n * 2 ^ 21" and "unat pos + n < 2 ^ 64"
  shows "\<exists>s'. free_phy_pages_loop sz pos s = Some s' \<and>
    pm_free s' = pm_free s \<union> {unat pos ..< unat pos + n} \<and>
    (pm_inv s \<longrightarrow> unat pos \<noteq> 0 \<longrightarrow> (unat pos + n) * 2 ^ 21 \<le> unat (max_phy_addr s) \<longrightarrow> pm_inv s')"
  using assms
proof (induction n arbitrary: sz pos s)
  case 0
  then have "sz = 0" by (simp add: unat_eq_0)
  then show ?case by (simp add: free_phy_pages_loop.simps)
next
  case (Suc n)
  have le: "PAGE_SIZE_LARGE \<le> sz" and pos: "sz > 0"
    using Suc.prems(1) by (simp_all add: word_le_nat_alt word_less_nat_alt)
  have sz': "unat (sz - PAGE_SIZE_LARGE) = n * 2 ^ 21"
    using Suc.prems(1) unat_sub_no_wrap [OF le] by simp
  have pos': "unat (pos + 1) = Suc (unat pos)"
    using Suc.prems(2) unat_add_no_wrap [of pos 1] by simp
  from Suc.IH [OF sz', of "pos + 1" "release_page (unat pos) s"] Suc.prems(2) pos'
  obtain s' where s': "free_phy_pages_loop (sz - PAGE_SIZE_LARGE) (pos + 1) (release_page (unat pos) s) = Some s'"
    and fr: "pm_free s' = insert (unat pos) (pm_free s) \<union> {Suc (unat pos) ..< Suc (unat pos) + n}"
    and inv: "pm_inv (release_page (unat pos) s) \<longrightarrow>
      (Suc (unat pos) + n) * 2 ^ 21 \<le> unat (max_phy_addr s) \<longrightarrow> pm_inv s'"
    by auto
  have "free_phy_pages_loop sz pos s = Some s'"
    using pos s' by (simp add: free_phy_pages_loop.simps [of sz pos s])
  moreover have "pm_free s' = pm_free s \<union> {unat pos ..< unat pos + Suc n}"
    unfolding fr by (simp add: atLeastLessThan_Suc_first)
  moreover have "pm_inv s'" if "pm_inv s" "unat pos \<noteq> 0"
    and hi: "(unat pos + Suc n) * 2 ^ 21 \<le> unat (max_phy_addr s)"
  proof -
    from hi have "unat pos * 2 ^ 21 < unat (max_phy_addr s)" by simp
    with that(1,2) have "pm_inv (release_page (unat pos) s)" by (rule release_page_inv)
    with inv hi show ?thesis by simp
  qed
  ultimately show ?case by blast
qed

lemma free_phy_pages_run:
  assumes "pm_inv s" and "a \<noteq> 0" and "unat a = i * 2 ^ 21" and "unat sz = n * 2 ^ 21" and "0 < n"
    and "unat a + unat sz \<le> unat (max_phy_addr s)" and "a < max_phy_mem_addr s"
  shows "\<exists>s'. free_phy_pages a sz s = Inr s' \<and> pm_inv s' \<and> pm_free s' = pm_free s \<union> {i ..< i + n}"
proof -
  have al: "a AND (PAGE_SIZE_LARGE - 1) = 0" "sz AND (PAGE_SIZE_LARGE - 1) = 0"
    using assms(3,4) by (simp_all add: aligned_2m)
  have "unat a < unat (max_phy_addr s)" using assms(4,5,6) by simp
  then have lt: "a < max_phy_addr s" by (simp add: word_less_nat_alt)
  have d: "unat (a div PAGE_SIZE_LARGE) = i" using assms(3) by (simp add: unat_div)
  have i: "i \<noteq> 0" using assms(2,3) by (cases "i = 0") (auto simp: unat_eq_0)
  have hi: "(i + n) * 2 ^ 21 \<le> unat (max_phy_addr s)" using assms(3,4,6) by simp
  then have "i + n < 2 ^ 64" using ulong_lt_2p64 [of "max_phy_addr s"] by simp
  then obtain s' where "free_phy_pages_loop sz (a div PAGE_SIZE_LARGE) s = Some s'"
    "pm_free s' = pm_free s \<union> {i ..< i + n}" "pm_inv s'"
    using free_phy_pages_loop_returns [OF assms(4), of "a div PAGE_SIZE_LARGE" s] d i hi assms(1) by auto
  with al lt assms(2,7) show ?thesis by (simp add: free_phy_pages_def)
qed

lemma free_phy_pages_loop_keeps:
  "free_phy_pages_loop sz pos s = Some s' \<Longrightarrow> max_phy_mem_addr s' = max_phy_mem_addr s"
  by (rule free_phy_pages_loop.raw_induct [where P = "\<lambda>_ _ s s'. max_phy_mem_addr s' = max_phy_mem_addr s"])
    (auto split: if_splits)

lemma free_phy_pages_keeps: "free_phy_pages a sz s = Inr s' \<Longrightarrow> max_phy_mem_addr s' = max_phy_mem_addr s"
  by (auto simp: free_phy_pages_def andThen_def ending_def ASSERT_def split: if_splits option.splits dest: free_phy_pages_loop_keeps)

section \<open>4K pages from one 2M page\<close>

definition sm_free :: "phymem \<Rightarrow> nat set" where
  "sm_free s = {k. k < 512 \<and> bit (smallbits s (k div 64)) (k mod 64)}"

definition sm_inv :: "phymem \<Rightarrow> bool" where
  "sm_inv s \<longleftrightarrow> unat (smallpages s) \<le> 512 \<and>
     (smallpages s \<noteq> 0 \<longrightarrow> smallpmax s = 8 \<and> smallpnow s < 8 \<and>
        unat (smallpages s) = card (sm_free s) \<and> unat (smallpage_base s) + 2 ^ 21 \<le> 2 ^ 52)"

lemma sm_free_lt: "k \<in> sm_free s \<Longrightarrow> k < 512"
  by (simp add: sm_free_def)

lemma none_zero_bound:
  assumes "none_zero w now lim = (Some p, i)" and "now < lim" shows "p < lim"
  using assms by (auto simp: none_zero_def dest: scan_words_found split: if_splits prod.splits)

lemma alloc_small_entered:
  assumes inv: "sm_inv s" and pg: "smallpages s \<noteq> 0"
  shows "\<exists>k s'. k \<in> sm_free s \<and>
    alloc_small_phy_page_safe_loop True s = Some (Inr (smallpage_base s + PAGE_4K_SIZE * of_nat k, s')) \<and>
    sm_free s' = sm_free s - {k} \<and> sm_inv s' \<and> pm_free s' = pm_free s \<and>
    smallpage_base s' = smallpage_base s \<and> smallpages s' = smallpages s - 1"
proof -
  from inv pg have pmax: "smallpmax s = 8" and now: "smallpnow s < 8"
    and cnt: "unat (smallpages s) = card (sm_free s)"
    and base: "unat (smallpage_base s) + 2 ^ 21 \<le> 2 ^ 52" and le: "unat (smallpages s) \<le> 512"
    by (auto simp: sm_inv_def)
  obtain r i where nz: "none_zero (smallbits s) (smallpnow s) (smallpmax s) = (r, i)" by fastforce
  have "r \<noteq> None"
  proof
    assume "r = None"
    with nz pmax have "\<And>k. k < 8 \<Longrightarrow> smallbits s k = 0" by (auto dest: none_zero_None)
    then have "sm_free s = {}" by (auto simp: sm_free_def)
    with cnt pg show False by (simp add: unat_eq_0)
  qed
  then obtain p where p: "r = Some p" by blast
  with nz have i: "i = p" and w: "smallbits s p \<noteq> 0" by (auto dest: none_zero_Some)
  have p8: "p < 8" using none_zero_bound [of _ _ _ p i] nz p now pmax by metis
  define k where "k = ffs_word (smallbits s p) + 64 * p"
  have kdm: "k div 64 = p" "k mod 64 = ffs_word (smallbits s p)"
    using ffs_word_bit(2) [OF w] by (simp_all add: k_def)
  have k: "k \<in> sm_free s"
    using ffs_word_bit [OF w] kdm p8 by (auto simp: sm_free_def k_def)
  define s' where "s' = s\<lparr>smallpnow := p, smallbits := snd (test_and_clear_bit k (smallbits s)),
    smallpages := smallpages s - 1\<rparr>"
  have old: "fst (test_and_clear_bit k (smallbits s))"
    using ffs_word_bit(1) [OF w] kdm by (simp add: test_and_clear_bit_def)
  have run: "alloc_small_phy_page_safe_loop True s = Some (Inr (smallpage_base s + PAGE_4K_SIZE * of_nat k, s'))"
    using pg nz p i w old
    by (simp add: alloc_small_phy_page_safe_loop.simps [of True] get_none_zero_small_def Let_def s'_def
        k_def mult.commute split: prod.split)
      (auto simp: k_def algebra_simps)
  have fr: "sm_free s' = sm_free s - {k}"
    by (auto simp: sm_free_def s'_def test_and_clear_bit_def bits_unset simp del: fun_upd_apply)
  have "finite (sm_free s)" by (simp add: sm_free_def)
  then have "unat (smallpages s - 1) = card (sm_free s')"
    using cnt pg k by (simp add: fr unat_minus_one)
  moreover have "smallpages s' = smallpages s - 1" "smallpmax s' = 8" "smallpnow s' = p"
    "smallpage_base s' = smallpage_base s" "pm_free s' = pm_free s"
    using pmax by (simp_all add: s'_def pm_free_def)
  moreover have "unat (smallpages s - 1) \<le> 512"
    using le pg by (simp add: unat_minus_one)
  ultimately show ?thesis
    using k run fr p8 base by (auto simp: sm_inv_def)
qed

lemma refill_small_spec:
  assumes inv: "pm_inv s" and empty: "smallpages s = 0"
  shows "\<exists>a s'. refill_small s = Inr (a, s') \<and>
    (a = 0 \<longrightarrow> pm_free s' = pm_free s \<and> pm_free s \<inter> {..<64 * pmax s} = {}) \<and>
    (a \<noteq> 0 \<longrightarrow> sm_inv s' \<and> smallpages s' = 512 \<and> sm_free s' = {..<512} \<and>
       smallpage_base s' = a \<and> (\<exists>j \<in> pm_free s. unat a = j * 2 ^ 21 \<and> pm_free s' = pm_free s - {j}))"
proof -
  obtain a s1 where run: "alloc_phy_page s = Inr (a, s1)"
    using alloc_phy_page_returns by blast
  note spec = alloc_phy_page_spec [OF inv run]
  show ?thesis
  proof (cases "a = 0")
    case True
    with run spec empty show ?thesis by (auto simp: refill_small_def)
  next
    case False
    let ?s = "s1\<lparr>smallpage_base := a, smallbits := (\<lambda>i. if i < 64 then - 1 else smallbits s1 i),
      smallpnow := 0, smallpmax := 8, smallnowbit := 0, smallpages := 512\<rparr>"
    have all: "sm_free ?s = {..<512}"
      by (auto simp: sm_free_def bit_minus_1_iff)
    from False spec obtain j where j: "j \<in> pm_free s" "unat a = j * 2 ^ 21" "pm_free s1 = pm_free s - {j}"
      by auto
    have "unat (max_phy_addr s) \<le> 2 ^ 52" and "j * 2 ^ 21 < unat (max_phy_addr s)"
      using inv j(1) by (auto simp: pm_inv_def)
    then have "j < 2 ^ 31" by simp
    then have "unat a + 2 ^ 21 \<le> 2 ^ 52" by (simp add: j(2))
    then have "sm_inv ?s" by (simp add: sm_inv_def all)
    with all j run False empty show ?thesis
      by (auto simp: refill_small_def pm_free_def)
  qed
qed

text \<open>
  \<open>alloc_small_phy_page_safe\<close> always returns. If it returns 0, the 2M allocator had
  no page in the scanned words; otherwise the address lies in the current 2M page (a free one that was
  taken from the 2M allocator when the last one was used up), and the 4K page it names was free
  and is not free any more.
\<close>

theorem alloc_small_phy_page_safe_correct:
  assumes "pm_inv s" and "sm_inv s"
  shows "\<exists>a s'. alloc_small_phy_page_safe s = Inr (a, s') \<and>
    (a = 0 \<and> smallpages s = 0 \<and> pm_free s' = pm_free s \<and> pm_free s \<inter> {..<64 * pmax s} = {} \<or>
     sm_inv s' \<and> (\<exists>k. k < 512 \<and> k \<notin> sm_free s' \<and> a = smallpage_base s' + PAGE_4K_SIZE * of_nat k \<and>
       (if smallpages s \<noteq> 0 then smallpage_base s' = smallpage_base s \<and> k \<in> sm_free s \<and> sm_free s' = sm_free s - {k}
        else (\<exists>j \<in> pm_free s. unat (smallpage_base s') = j * 2 ^ 21 \<and> pm_free s' = pm_free s - {j}))))"
proof (cases "smallpages s = 0")
  case False
  then have "refill_small s = Inr (1, s)" by (simp add: refill_small_def)
  then have "alloc_small_phy_page_safe_loop False s = alloc_small_phy_page_safe_loop True s"
    by (simp add: alloc_small_phy_page_safe_loop.simps [of False])
  moreover obtain k s' where "k \<in> sm_free s"
    and "alloc_small_phy_page_safe_loop True s = Some (Inr (smallpage_base s + PAGE_4K_SIZE * of_nat k, s'))"
    and "sm_free s' = sm_free s - {k}" "sm_inv s'" "smallpage_base s' = smallpage_base s"
    using alloc_small_entered [OF assms(2) False] by blast
  ultimately show ?thesis
    using False sm_free_lt by (fastforce simp: alloc_small_phy_page_safe_def)
next
  case True
  from refill_small_spec [OF assms(1) True] obtain a s1 where
    run: "refill_small s = Inr (a, s1)" and z: "a = 0 \<Longrightarrow> pm_free s1 = pm_free s \<and> pm_free s \<inter> {..<64 * pmax s} = {}"
    and nz: "a \<noteq> 0 \<Longrightarrow> sm_inv s1 \<and> smallpages s1 = 512 \<and> sm_free s1 = {..<512} \<and>
       smallpage_base s1 = a \<and> (\<exists>j \<in> pm_free s. unat a = j * 2 ^ 21 \<and> pm_free s1 = pm_free s - {j})"
    by blast
  show ?thesis
  proof (cases "a = 0")
    case True
    with run z \<open>smallpages s = 0\<close> show ?thesis
      by (auto simp: alloc_small_phy_page_safe_def alloc_small_phy_page_safe_loop.simps [of False])
  next
    case False
    have "alloc_small_phy_page_safe_loop False s = alloc_small_phy_page_safe_loop True s1"
      using run False by (simp add: alloc_small_phy_page_safe_loop.simps [of False])
    moreover obtain k s' where "k \<in> sm_free s1"
      and "alloc_small_phy_page_safe_loop True s1 = Some (Inr (smallpage_base s1 + PAGE_4K_SIZE * of_nat k, s'))"
      and "sm_free s' = sm_free s1 - {k}" "sm_inv s'" "smallpage_base s' = smallpage_base s1"
      "pm_free s' = pm_free s1"
      using alloc_small_entered [of s1] nz [OF False] by auto
    ultimately show ?thesis
      using nz [OF False] \<open>smallpages s = 0\<close> sm_free_lt
      by (fastforce simp: alloc_small_phy_page_safe_def)
  qed
qed

section \<open>Properties of the 2M allocator\<close>

text \<open>A machine with 256M of memory on which the second 2M page is free.\<close>

definition one_page_mem :: "phymem" where
  "one_page_mem = release_page 1 (init_phy_mem 0x10000000 0x10000000 0)"

lemma one_page_mem_free: "pm_free one_page_mem = {1}" "pmax one_page_mem = 2" "pnow one_page_mem = 0"
  "pages one_page_mem = 1" "smallpages one_page_mem = 0" "max_phy_addr one_page_mem = 0x10000000"
  "max_phy_mem_addr one_page_mem = 0x10000000"
  by (simp_all add: one_page_mem_def init_phy_mem_free)
    (simp_all add: init_phy_mem_def Let_def release_page_def test_and_set_bit_def)

lemma one_page_mem_inv: "pm_inv one_page_mem" "sm_inv one_page_mem"
proof -
  show "pm_inv one_page_mem"
    unfolding one_page_mem_def
    by (rule release_page_inv) (simp_all add: init_phy_mem_inv, simp add: init_phy_mem_def Let_def)
  show "sm_inv one_page_mem" by (simp add: sm_inv_def one_page_mem_free)
qed

text \<open>
  C3: \<open>alloc_phy_page\<close> always returns and keeps the invariant. It returns 0 only if no page of
  the words it scans is free; otherwise it returns the address of a page that was free, and exactly
  this page is not free any more.
\<close>

theorem alloc_phy_page_correct:
  assumes "pm_inv s"
  shows "\<exists>a s'. alloc_phy_page s = Inr (a, s') \<and> pm_inv s' \<and>
    (if a = 0 then pm_free s' = pm_free s \<and> pm_free s \<inter> {..<64 * pmax s} = {}
     else \<exists>k \<in> pm_free s. unat a = k * 2 ^ 21 \<and> pm_free s' = pm_free s - {k})"
proof -
  obtain a s' where run: "alloc_phy_page s = Inr (a, s')" using alloc_phy_page_returns by blast
  with alloc_phy_page_spec [OF assms run] show ?thesis by auto
qed

theorem alloc_phy_page_correct_witness:
  "\<exists>a s'. alloc_phy_page one_page_mem = Inr (a, s') \<and> unat a = 2 ^ 21 \<and> pm_free s' = {}"
  using alloc_phy_page_correct [OF one_page_mem_inv(1)] by (auto simp: one_page_mem_free split: if_splits)

text \<open>
  C4: \<open>free_phy_pages\<close> on an aligned range of existing memory ends, keeps the invariant (the
  page count stays the number of free pages, also when pages were already free), and makes
  exactly the pages of the range free.
\<close>

theorem free_phy_pages_correct:
  assumes "pm_inv s" and "a \<noteq> 0" and "unat a = i * 2 ^ 21" and "unat sz = n * 2 ^ 21" and "0 < n"
    and "unat a + unat sz \<le> unat (max_phy_addr s)" and "a < max_phy_mem_addr s"
  shows "\<exists>s'. free_phy_pages a sz s = Inr s' \<and> pm_inv s' \<and> pm_free s' = pm_free s \<union> {i ..< i + n}"
  using assms by (rule free_phy_pages_run)

theorem free_phy_pages_correct_witness:
  "\<exists>s'. free_phy_pages 0x400000 0x600000 one_page_mem = Inr s' \<and> pm_free s' = {1} \<union> {2..<5}"
  using free_phy_pages_correct [OF one_page_mem_inv(1), of "0x400000" 2 "0x600000" 3]
  by (auto simp: one_page_mem_free)

text \<open>
  The scan leaves out the last word of the bitmap when it is not full: on a machine with 65
  pages of 2M of which the last one is free, \<open>alloc_phy_page\<close> returns 0 although \<open>pages\<close> is 1.
\<close>

theorem alloc_phy_page_misses_last_word:
  "\<exists>s'. pages (release_page 64 (init_phy_mem 0x8200000 0x8200000 0)) = 1 \<and>
     64 * 0x200000 < unat (max_phy_addr (release_page 64 (init_phy_mem 0x8200000 0x8200000 0))) \<and>
     alloc_phy_page (release_page 64 (init_phy_mem 0x8200000 0x8200000 0)) = Inr (0, s')"
  by (simp add: alloc_phy_page_cases init_phy_mem_def Let_def release_page_def test_and_set_bit_def
      get_none_zero_def none_zero_def scan_words.simps)

theorem alloc_small_phy_page_safe_correct_witness:
  "\<exists>a s' k. alloc_small_phy_page_safe one_page_mem = Inr (a, s') \<and> k < 512 \<and>
     unat (smallpage_base s') = 2 ^ 21 \<and> a = smallpage_base s' + PAGE_4K_SIZE * of_nat k"
  using alloc_small_phy_page_safe_correct [OF one_page_mem_inv] by (auto simp: one_page_mem_free)

end
