(* ===== verification/Range_Alloc.thy ===== *)
theory Range_Alloc
  imports Yaos_Prelude
begin

text \<open>
  The contract of an allocator of address ranges, which \<open>kernel/phy_page.c\<close> and
  \<open>kernel/kheap.c\<close> provide and their callers rely on: a block that is handed out was free,
  is not free any more, and nothing else changes; a block that is given back is free again. From the
  contract follows, for every sequence of requests, that the blocks in use never overlap and
  that no byte is lost.
\<close>

section \<open>Runs of an allocator\<close>

text \<open>
  A run of calls from a state \<open>s0\<close>, with the blocks in use: requests are made in states where
  \<open>ok\<close> allows them, a request that succeeds adds a block (its size is the request rounded by \<open>rnd\<close>), a request that returns 0 adds none,
  and only a block in use is given back, with the size it has.
\<close>

inductive alloc_run ::
  "(ulong \<Rightarrow> 's \<Rightarrow> (ulong \<times> 's) outcome) \<Rightarrow> (ulong \<Rightarrow> ulong \<Rightarrow> 's \<Rightarrow> 's outcome) \<Rightarrow>
   (ulong \<Rightarrow> 's \<Rightarrow> bool) \<Rightarrow> (ulong \<Rightarrow> ulong) \<Rightarrow> 's \<Rightarrow> 's \<Rightarrow> (ulong \<times> ulong) list \<Rightarrow> bool"
  for alloc release ok rnd s0 where
  start: "alloc_run alloc release ok rnd s0 s0 []"
| got: "alloc_run alloc release ok rnd s0 s live \<Longrightarrow> ok sz s \<Longrightarrow> alloc sz s = Inr (a, s') \<Longrightarrow> a \<noteq> 0 \<Longrightarrow>
    alloc_run alloc release ok rnd s0 s' ((a, rnd sz) # live)"
| failed: "alloc_run alloc release ok rnd s0 s live \<Longrightarrow> ok sz s \<Longrightarrow> alloc sz s = Inr (0, s') \<Longrightarrow>
    alloc_run alloc release ok rnd s0 s' live"
| released: "alloc_run alloc release ok rnd s0 s live \<Longrightarrow> (a, n) \<in> set live \<Longrightarrow>
    release a n s = Inr s' \<Longrightarrow> alloc_run alloc release ok rnd s0 s' (remove1 (a, n) live)"

definition blocks :: "(ulong \<times> ulong) list \<Rightarrow> nat set" where
  "blocks live = (\<Union>b \<in> set live. span (fst b) (snd b))"

definition apart :: "(ulong \<times> ulong) list \<Rightarrow> bool" where
  "apart live \<longleftrightarrow> sorted_wrt (\<lambda>b c. span (fst b) (snd b) \<inter> span (fst c) (snd c) = {}) live"

lemma blocks_Nil [simp]: "blocks [] = {}"
  and blocks_Cons [simp]: "blocks (b # bs) = span (fst b) (snd b) \<union> blocks bs"
  by (simp_all add: blocks_def)

lemma apart_Nil [simp]: "apart []"
  by (simp add: apart_def)

lemma apart_Cons [simp]: "apart (b # bs) \<longleftrightarrow> span (fst b) (snd b) \<inter> blocks bs = {} \<and> apart bs"
  by (auto simp: apart_def blocks_def)

lemma apart_remove1:
  assumes "b \<in> set live" "apart live"
  shows "apart (remove1 b live)" "blocks live = span (fst b) (snd b) \<union> blocks (remove1 b live)"
    "span (fst b) (snd b) \<inter> blocks (remove1 b live) = {}"
proof -
  obtain xs ys where live: "live = xs @ b # ys" and notin: "b \<notin> set xs"
    using split_list_first [OF assms(1)] by blast
  then have rem: "remove1 b (xs @ b # ys) = xs @ ys" by (simp add: remove1_append)
  show "apart (remove1 b live)"
    using assms(2) unfolding live rem by (auto simp: apart_def sorted_wrt_append)
  show "blocks live = span (fst b) (snd b) \<union> blocks (remove1 b live)"
    unfolding live rem by (auto simp: blocks_def)
  show "span (fst b) (snd b) \<inter> blocks (remove1 b live) = {}"
    using assms(2) unfolding live rem by (fastforce simp: blocks_def apart_def sorted_wrt_append)
qed

section \<open>The contract\<close>

locale range_allocator =
  fixes inv :: "'s \<Rightarrow> bool"
    and bytes :: "'s \<Rightarrow> nat set"
    and alloc :: "ulong \<Rightarrow> 's \<Rightarrow> (ulong \<times> 's) outcome"
    and release :: "ulong \<Rightarrow> ulong \<Rightarrow> 's \<Rightarrow> 's outcome"
    and ok :: "ulong \<Rightarrow> 's \<Rightarrow> bool"
    and rnd :: "ulong \<Rightarrow> ulong"
  assumes alloc_got: "inv s \<Longrightarrow> ok sz s \<Longrightarrow> alloc sz s = Inr (a, s') \<Longrightarrow> a \<noteq> 0 \<Longrightarrow>
      inv s' \<and> span a (rnd sz) \<subseteq> bytes s \<and> bytes s' = bytes s - span a (rnd sz) \<and>
      rnd sz \<noteq> 0 \<and> rnd (rnd sz) = rnd sz \<and> unat a + unat (rnd sz) < 2 ^ 64"
    and alloc_failed: "inv s \<Longrightarrow> ok sz s \<Longrightarrow> alloc sz s = Inr (0, s') \<Longrightarrow> inv s' \<and> bytes s' = bytes s"
    and release_done: "inv s \<Longrightarrow> a \<noteq> 0 \<Longrightarrow> n \<noteq> 0 \<Longrightarrow> rnd n = n \<Longrightarrow>
      unat a + unat n < 2 ^ 64 \<Longrightarrow> span a n \<inter> bytes s = {} \<Longrightarrow> release a n s = Inr s' \<Longrightarrow> inv s' \<and> bytes s' = bytes s \<union> span a n"
begin

lemma run_inv:
  assumes "inv s0" and "alloc_run alloc release ok rnd s0 s live"
  shows "inv s \<and> apart live \<and> blocks live \<inter> bytes s = {} \<and> bytes s \<union> blocks live = bytes s0 \<and>
    (\<forall>b \<in> set live. fst b \<noteq> 0 \<and> snd b \<noteq> 0 \<and> rnd (snd b) = snd b \<and> unat (fst b) + unat (snd b) < 2 ^ 64)"
  using assms(2)
proof (induction rule: alloc_run.induct)
  case start
  then show ?case using assms(1) by simp
next
  case (got s live sz a s')
  then have "inv s" by blast
  from alloc_got [OF this got.hyps(2,3,4)] got.IH got.hyps(4) show ?case by auto
next
  case (failed s live sz s')
  then have "inv s" by blast
  from alloc_failed [OF this failed.hyps(2,3)] failed.IH show ?case by simp
next
  case (released s live a n s')
  note r = apart_remove1 [OF released.hyps(2)]
  from released.IH have ap: "apart live" by blast
  have "a \<noteq> 0" "n \<noteq> 0" "rnd n = n" "unat a + unat n < 2 ^ 64"
    using released.IH released.hyps(2) by force+
  moreover have "span a n \<inter> bytes s = {}"
    using released.IH r(2) [OF ap] by auto
  ultimately have "inv s'" and b: "bytes s' = bytes s \<union> span a n"
    using release_done [of s a n s'] released.IH released.hyps(3) by blast+
  note \<open>inv s'\<close>
  moreover have "blocks (remove1 (a, n) live) \<inter> bytes s' = {}"
    using released.IH r(2,3) [OF ap] b by auto
  moreover have "bytes s' \<union> blocks (remove1 (a, n) live) = bytes s0"
    using released.IH r(2) [OF ap] b by auto
  moreover have "set (remove1 (a, n) live) \<subseteq> set live" by (rule set_remove1_subset)
  ultimately show ?case using r(1) [OF ap] released.IH by auto
qed

lemma run_blocks_apart:
  "inv s0 \<Longrightarrow> alloc_run alloc release ok rnd s0 s live \<Longrightarrow> apart live \<and> blocks live \<inter> bytes s = {}"
  using run_inv by blast

lemma run_conserves:
  "inv s0 \<Longrightarrow> alloc_run alloc release ok rnd s0 s live \<Longrightarrow> bytes s \<union> blocks live = bytes s0"
  using run_inv by blast

end

end
