(* ===== verification/Phy_page.thy ===== *)
theory Phy_page
  imports Hole_List Phymem Range_Alloc
begin

text \<open>
  The allocator of 4K-granular physical memory, \<open>kernel/phy_page.c\<close>. It keeps a list of
  holes sorted by address and refills it with 2M pages of the bitmap allocator of
  \<open>arch/x86_64/phymem.c\<close>. The state of both is the state of physical memory.
\<close>

section \<open>Model\<close>

record phy_page_t = hole +
  origin_size :: ulong

type_synonym phy_holes = "unit phy_page_t_ext hole_list"

abbreviation MAX_PHY_PAGE_HOLE :: nat where "MAX_PHY_PAGE_HOLE \<equiv> 20"

text \<open>
  \<open>phy_page_holes\<close> is the array of descriptors with its heads \<open>pheadsmall\<close>
  (\<open>phead\<close>) and \<open>pfreesmall\<close> (\<open>pfree\<close>); \<open>pmem\<close> is the state of the
  2M allocator.
\<close>

record phys =
  pmem :: phymem
  phy_page_holes :: phy_holes
  spin_page :: spinlock_t

definition init_phy_page :: "(nat \<Rightarrow> phy_page_t) \<Rightarrow> phymem \<Rightarrow> phys" where
  "init_phy_page m pm =
     \<lparr>pmem = pm, phy_page_holes = init_holes MAX_PHY_PAGE_HOLE m, spin_page = init_spinlock\<rparr>"

definition free_phy_page_small :: "ulong \<Rightarrow> ulong \<Rightarrow> phys \<Rightarrow> phys outcome" where
  "free_phy_page_small a sz st =
     andThen (ASSERT (a AND 0xfff = 0 \<and> sz AND 0xfff = 0)) (\<lambda>_.
     case pfree (phy_page_holes st) of
       None \<Rightarrow> panic
     | Some p \<Rightarrow>
         andThen (spin_lock (spin_page st)) (\<lambda>l.
         andThen (free_holes
             (\<lambda>m. m\<lparr>h_size := h_size m + sz, origin_size := origin_size m + sz\<rparr>)
             (\<lambda>m. m\<lparr>h_addr := a, origin_size := sz, h_size := sz\<rparr>)
             a p (phy_page_holes st)) (\<lambda>(merged, L).
         Inr (st\<lparr>phy_page_holes := L, spin_page := spin_unlock l\<rparr>))))"

definition align_4k :: "ulong \<Rightarrow> ulong" where
  "align_4k sz = (if sz AND 0xfff \<noteq> 0 then (sz AND NOT 0xfff) + 0x1000 else sz)"

text \<open>
  The loop \<open>while (!p)\<close>: a 2M page is taken from the bitmap allocator and freed into
  the holes, and the holes are searched again, for a hole that fits or else the last one.
  The lock is held whenever the loop condition is tested. The result \<open>None\<close> is the early
  \<open>return 0\<close>.
\<close>

partial_function (option) refill_small_loop ::
  "ulong \<Rightarrow> ptr \<Rightarrow> phys \<Rightarrow> (ptr \<times> phys) outcome option" where
  "refill_small_loop sz p st =
     (case p of
        Some i \<Rightarrow> Some (Inr (Some i, st))
      | None \<Rightarrow>
          (case alloc_phy_page (pmem st) of
             Inl e \<Rightarrow> Some (Inl e)
           | Inr (newaddr, pm) \<Rightarrow>
               let st1 = st\<lparr>pmem := pm, spin_page := spin_unlock (spin_page st)\<rparr> in
               if newaddr = 0 then Some (Inr (None, st1))
               else
                 (case andThen (free_phy_page_small newaddr PAGE_SIZE_LARGE st1) (\<lambda>st2.
                         andThen (spin_lock (spin_page st2)) (\<lambda>l.
                         andThen (ending (find_fit_or_last sz (phy_page_holes st2))) (\<lambda>q.
                         Inr (q, st2\<lparr>spin_page := l\<rparr>)))) of
                    Inl e \<Rightarrow> Some (Inl e)
                  | Inr (q, st3) \<Rightarrow> refill_small_loop sz q st3)))"

declare refill_small_loop.simps [code]

definition alloc_phy_page_small :: "ulong \<Rightarrow> phys \<Rightarrow> (ulong \<times> phys) outcome" where
  "alloc_phy_page_small size0 st =
     (let sz = align_4k size0 in
      andThen (spin_lock (spin_page st)) (\<lambda>l.
      andThen (ending (find_fit sz (phy_page_holes st))) (\<lambda>p.
      andThen (ending (refill_small_loop sz p (st\<lparr>spin_page := l\<rparr>))) (\<lambda>r.
      andThen r (\<lambda>(q, st1).
      case q of
        None \<Rightarrow> Inr (0, st1)
      | Some i \<Rightarrow>
          andThen (carve (\<lambda>rest. rest = 0) sz i (phy_page_holes st1)) (\<lambda>(pret, L).
          Inr (pret, st1\<lparr>phy_page_holes := L, spin_page := spin_unlock (spin_page st1)\<rparr>)))))))"

section \<open>Abstraction and invariant\<close>

text \<open>The bytes of the free 2M pages, and all free physical memory.\<close>

definition page_bytes :: "nat \<Rightarrow> nat set" where
  "page_bytes k = {k * 2 ^ 21 ..< k * 2 ^ 21 + 2 ^ 21}"

definition page_area :: "phymem \<Rightarrow> nat set" where
  "page_area pm = (\<Union>k \<in> pm_free pm. page_bytes k)"

definition phys_bytes :: "phys \<Rightarrow> nat set" where
  "phys_bytes st = hl_bytes (phy_page_holes st) \<union> page_area (pmem st)"

definition phys_inv :: "phys \<Rightarrow> bool" where
  "phys_inv st \<longleftrightarrow>
     pm_inv (pmem st) \<and> hl_sorted_inv MAX_PHY_PAGE_HOLE (phy_page_holes st) \<and> \<not> spin_page st \<and>
     hl_bytes (phy_page_holes st) \<inter> page_area (pmem st) = {} \<and> 0 \<notin> hl_bytes (phy_page_holes st) \<and>
     hl_al (phy_page_holes st)"

text \<open>The requests that one 2M page can serve.\<close>

definition small_request :: "ulong \<Rightarrow> phys \<Rightarrow> bool" where
  "small_request sz st \<longleftrightarrow> sz \<noteq> 0 \<and> sz \<le> PAGE_SIZE_LARGE"

lemma page_bytes_disjoint: "i \<noteq> j \<Longrightarrow> page_bytes i \<inter> page_bytes j = {}"
  by (auto simp: page_bytes_def)

lemma page_bytes_span: "unat a = k * 2 ^ 21 \<Longrightarrow> page_bytes k = span a PAGE_SIZE_LARGE"
  by (simp add: page_bytes_def span_def)

lemma page_area_remove:
  assumes "k \<in> pm_free pm" "pm_free pm' = pm_free pm - {k}"
  shows "page_area pm = page_area pm' \<union> page_bytes k" "page_area pm' \<inter> page_bytes k = {}"
proof -
  show "page_area pm = page_area pm' \<union> page_bytes k"
    using assms by (auto simp: page_area_def)
  have "page_bytes i \<inter> page_bytes k = {}" if "i \<in> pm_free pm'" for i
    using that assms(2) by (intro page_bytes_disjoint) auto
  then show "page_area pm' \<inter> page_bytes k = {}" by (auto simp: page_area_def)
qed

lemma hole_addr_nonzero:
  assumes "hl_rep n L hs fs" "0 \<notin> hl_bytes L" "i \<in> set hs"
  shows "h_addr (nodes L i) \<noteq> 0"
proof
  assume "h_addr (nodes L i) = 0"
  moreover have "h_size (nodes L i) \<noteq> 0" using hl_repD(8) [OF assms(1,3)] .
  ultimately have "0 \<in> hspan L i" by (simp add: span_def unat_gt_0)
  with assms show False by (auto simp: hl_bytes_rep)
qed

section \<open>Rounding\<close>

lemma unat_align_4k:
  assumes "unat sz + 4096 < 2 ^ 64"
  shows "unat (align_4k sz) = (unat sz + 4095) div 4096 * 4096"
proof (cases "4096 dvd unat sz")
  case True
  then have "unat (align_4k sz) = unat sz" by (simp add: align_4k_def aligned_4k)
  with True show ?thesis by auto
next
  case False
  have "unat (sz AND NOT 4095) + unat (0x1000 :: ulong) < 2 ^ 64"
    using assms by (simp add: mask_4k)
  then have "unat ((sz AND NOT 4095) + 0x1000) = unat (sz AND NOT 4095) + 0x1000"
    by (subst unat_add_no_wrap) simp_all
  then have "unat (align_4k sz) = unat sz - unat sz mod 4096 + 4096"
    using False by (simp add: align_4k_def aligned_4k mask_4k)
  with round_up_nat [OF _ False] show ?thesis by simp
qed

lemma align_4k_id: "al4k sz \<Longrightarrow> align_4k sz = sz"
  by (simp add: align_4k_def al4k_def)

lemma align_4k_bounds:
  assumes "small_request sz st"
  shows "align_4k sz \<noteq> 0" "sz \<le> align_4k sz" "align_4k sz \<le> PAGE_SIZE_LARGE" "4096 dvd unat (align_4k sz)"
proof -
  have le: "unat sz \<le> 0x200000" and pos: "unat sz > 0"
    using assms by (auto simp: small_request_def word_le_nat_alt unat_gt_0)
  then have u: "unat (align_4k sz) = (unat sz + 4095) div 4096 * 4096"
    by (intro unat_align_4k) simp
  have lo: "unat sz \<le> unat (align_4k sz)" unfolding u using round_up_ge [of 4096 "unat sz"] by simp
  with pos show "align_4k sz \<noteq> 0" by (cases "align_4k sz = 0") auto
  show "sz \<le> align_4k sz" using lo by (simp only: word_le_nat_alt)
  have "(unat sz + 4095) div 4096 \<le> (0x200000 + 4095) div 4096"
    using le by (intro div_le_mono) simp
  then have "unat (align_4k sz) \<le> 0x200000" unfolding u by simp
  then show "align_4k sz \<le> PAGE_SIZE_LARGE" by (simp add: word_le_nat_alt)
  show "4096 dvd unat (align_4k sz)" unfolding u by (rule dvd_triv_right)
qed

section \<open>Release\<close>

lemma free_phy_page_small_run:
  assumes rep: "hl_rep MAX_PHY_PAGE_HOLE (phy_page_holes st) hs fs" and srt: "hl_sorted (phy_page_holes st) hs"
    and lock: "\<not> spin_page st" and al: "al4k a" "al4k sz" "hl_al (phy_page_holes st)"
    and blk: "sz \<noteq> 0" "unat a + unat sz < 2 ^ 64" "span a sz \<inter> hl_bytes (phy_page_holes st) = {}"
  shows "if fs = [] then free_phy_page_small a sz st = panic
    else \<exists>L' hs' fs'. free_phy_page_small a sz st = Inr (st\<lparr>phy_page_holes := L', spin_page := False\<rparr>) \<and>
      hl_rep MAX_PHY_PAGE_HOLE L' hs' fs' \<and> hl_sorted L' hs' \<and>
      hl_bytes L' = hl_bytes (phy_page_holes st) \<union> span a sz \<and>
      (\<exists>i \<in> set hs'. sz \<le> h_size (nodes L' i)) \<and> hl_al L'"
proof (cases fs)
  case Nil
  with hl_repD(2) [OF rep] have "pfree (phy_page_holes st) = None" by simp
  with Nil al show ?thesis by (simp add: free_phy_page_small_def al4k_def)
next
  case (Cons p fs1)
  with hl_repD(2) [OF rep] have pf: "pfree (phy_page_holes st) = Some p" by simp
  let ?grow = "\<lambda>m::phy_page_t. m\<lparr>h_size := h_size m + sz, origin_size := origin_size m + sz\<rparr>"
  let ?fill = "\<lambda>m::phy_page_t. m\<lparr>h_addr := a, origin_size := sz, h_size := sz\<rparr>"
  have upd: "hole_updates ?grow ?fill a sz" by (simp add: hole_updates_def)
  obtain merged L' hs' fs' where
    run: "free_holes ?grow ?fill a p (phy_page_holes st) = Inr (merged, L')"
    and rep': "hl_rep MAX_PHY_PAGE_HOLE L' hs' fs'" "hl_sorted L' hs'"
      "hl_bytes L' = hl_bytes (phy_page_holes st) \<union> span a sz" "\<exists>i \<in> set hs'. sz \<le> h_size (nodes L' i)"
    using free_holes_spec [OF rep [unfolded Cons] blk upd] srt by blast
  have "free_phy_page_small a sz st = Inr (st\<lparr>phy_page_holes := L', spin_page := False\<rparr>)"
    using al lock run by (simp add: free_phy_page_small_def al4k_def pf)
  with rep' Cons free_holes_al [OF run al(3) upd al(1,2)] show ?thesis by auto
qed

lemma phys_invE:
  assumes "phys_inv st"
  obtains hs fs where "hl_rep MAX_PHY_PAGE_HOLE (phy_page_holes st) hs fs" "hl_sorted (phy_page_holes st) hs"
  using assms by (auto simp: phys_inv_def hl_sorted_inv_def)

lemma free_phy_page_small_aligned:
  "free_phy_page_small a sz st = Inr st' \<Longrightarrow> al4k a \<and> al4k sz"
  by (auto simp: free_phy_page_small_def al4k_def outcome_simps)

lemma free_phy_page_small_release:
  assumes inv: "phys_inv st" and blk: "a \<noteq> 0" "sz \<noteq> 0" "unat a + unat sz < 2 ^ 64"
    and disj: "span a sz \<inter> phys_bytes st = {}" and run: "free_phy_page_small a sz st = Inr st'"
  shows "phys_inv st' \<and> phys_bytes st' = phys_bytes st \<union> span a sz"
proof -
  obtain hs fs where rep: "hl_rep MAX_PHY_PAGE_HOLE (phy_page_holes st) hs fs" "hl_sorted (phy_page_holes st) hs"
    using inv by (rule phys_invE)
  have lock: "\<not> spin_page st" and hole: "span a sz \<inter> hl_bytes (phy_page_holes st) = {}"
    and page: "span a sz \<inter> page_area (pmem st) = {}" and al: "hl_al (phy_page_holes st)"
    using inv disj by (auto simp: phys_inv_def phys_bytes_def)
  from free_phy_page_small_aligned [OF run] free_phy_page_small_run [OF rep lock _ _ al blk(2,3) hole] run
  obtain L' hs' fs' where st': "st' = st\<lparr>phy_page_holes := L', spin_page := False\<rparr>"
    and rep': "hl_rep MAX_PHY_PAGE_HOLE L' hs' fs'" "hl_sorted L' hs'"
    and bytes: "hl_bytes L' = hl_bytes (phy_page_holes st) \<union> span a sz" and al': "hl_al L'"
    by (auto split: if_splits)
  have "0 \<notin> span a sz" using blk(1) by (simp add: span_def unat_eq_0)
  then show ?thesis
    using inv rep' page al' unfolding st' phys_inv_def phys_bytes_def hl_sorted_inv_def
    by (simp add: bytes) blast
qed

section \<open>Allocation\<close>

text \<open>Taking a block from a hole that has room for it.\<close>

lemma take_from_hole:
  assumes rep: "hl_rep MAX_PHY_PAGE_HOLE (phy_page_holes st) hs fs" and srt: "hl_sorted (phy_page_holes st) hs"
    and p: "p \<in> set hs" "n \<le> h_size (nodes (phy_page_holes st) p)" and n: "n \<noteq> 0"
    and pm: "pm_inv (pmem st)" and disj: "hl_bytes (phy_page_holes st) \<inter> page_area (pmem st) = {}"
    and z: "0 \<notin> hl_bytes (phy_page_holes st)" and al: "hl_al (phy_page_holes st)" "al4k n"
  shows "\<exists>a L'. carve (\<lambda>rest. rest = 0) n p (phy_page_holes st) = Inr (a, L') \<and> a \<noteq> 0 \<and> al4k a \<and>
    phys_inv (st\<lparr>phy_page_holes := L', spin_page := False\<rparr>) \<and> unat a + unat n < 2 ^ 64 \<and>
    span a n \<subseteq> hl_bytes (phy_page_holes st) \<and> hl_bytes L' = hl_bytes (phy_page_holes st) - span a n"
proof -
  let ?L = "phy_page_holes st" let ?a = "h_addr (nodes ?L p)"
  obtain L' hs' fs' where run: "carve (\<lambda>r. r = 0) n p ?L = Inr (?a, L')"
    and rep': "hl_rep MAX_PHY_PAGE_HOLE L' hs' fs'" "hl_sorted L' hs'" and bytes: "hl_bytes L' = hl_bytes ?L - span ?a n"
    using carve_exact_block [OF rep p] srt by blast
  note al' = carve_al [OF run al]
  have le: "unat n \<le> unat (h_size (nodes ?L p))" using p(2) by (simp add: word_le_nat_alt)
  then have "span ?a n \<subseteq> hspan ?L p" by (auto simp: span_def)
  then have sub: "span ?a n \<subseteq> hl_bytes ?L" using p(1) by (auto simp: hl_bytes_rep [OF rep])
  have fit: "unat ?a + unat n < 2 ^ 64" using hl_repD(9) [OF rep p(1)] le by linarith
  have inv: "phys_inv (st\<lparr>phy_page_holes := L', spin_page := False\<rparr>)"
    using pm disj z rep' al' unfolding phys_inv_def hl_sorted_inv_def by (simp add: bytes) blast
  from run hole_addr_nonzero [OF rep z p(1)] inv fit sub bytes al' show ?thesis by blast
qed

text \<open>The state in which a request ends that found no hole and no 2M page.\<close>

definition phys_exhausted :: "ulong \<Rightarrow> phys \<Rightarrow> bool" where
  "phys_exhausted n st \<longleftrightarrow> find_fit n (phy_page_holes st) = Some None \<and>
     pm_free (pmem st) \<inter> {..<64 * pmax (pmem st)} = {}"

lemma refill_small_loop_run:
  assumes inv: "phys_inv st"
  shows "(\<exists>pm. refill_small_loop n None (st\<lparr>spin_page := True\<rparr>) = Some (Inr (None, st\<lparr>pmem := pm\<rparr>)) \<and>
      pm_inv pm \<and> pm_free pm = pm_free (pmem st) \<and> pm_free (pmem st) \<inter> {..<64 * pmax (pmem st)} = {}) \<or>
    refill_small_loop n None (st\<lparr>spin_page := True\<rparr>) = Some panic \<and> pfree (phy_page_holes st) = None \<or>
    (\<exists>p pm L hs fs. refill_small_loop n None (st\<lparr>spin_page := True\<rparr>) =
        Some (Inr (Some p, st\<lparr>pmem := pm, phy_page_holes := L, spin_page := True\<rparr>)) \<and>
      hl_rep MAX_PHY_PAGE_HOLE L hs fs \<and> hl_sorted L hs \<and> p \<in> set hs \<and> (n \<le> PAGE_SIZE_LARGE \<longrightarrow> n \<le> h_size (nodes L p)) \<and>
      pm_inv pm \<and> hl_bytes L \<inter> page_area pm = {} \<and> 0 \<notin> hl_bytes L \<and> hl_al L \<and>
      hl_bytes L \<union> page_area pm = phys_bytes st)"
proof -
  obtain hs fs where rep: "hl_rep MAX_PHY_PAGE_HOLE (phy_page_holes st) hs fs" "hl_sorted (phy_page_holes st) hs"
    using inv by (rule phys_invE)
  have pmi: "pm_inv (pmem st)" and lock: "\<not> spin_page st" and z: "0 \<notin> hl_bytes (phy_page_holes st)"
    and disj: "hl_bytes (phy_page_holes st) \<inter> page_area (pmem st) = {}" and al0: "hl_al (phy_page_holes st)"
    using inv by (auto simp: phys_inv_def)
  obtain a pm where al: "alloc_phy_page (pmem st) = Inr (a, pm)" using alloc_phy_page_returns by blast
  note spec = alloc_phy_page_spec [OF pmi al]
  note unf = refill_small_loop.simps [of n None]
  have same: "st\<lparr>pmem := pm, spin_page := False\<rparr> = st\<lparr>pmem := pm\<rparr>" using lock by simp
  show ?thesis
  proof (cases "a = 0")
    case True
    with al same have "refill_small_loop n None (st\<lparr>spin_page := True\<rparr>) = Some (Inr (None, st\<lparr>pmem := pm\<rparr>))"
      by (simp add: unf Let_def)
    with spec True show ?thesis by blast
  next
    case False
    with spec obtain k where k: "k \<in> pm_free (pmem st)" "unat a = k * 2 ^ 21" "pm_free pm = pm_free (pmem st) - {k}"
      and pm: "pm_inv pm" by blast
    note area = page_area_remove [OF k(1,3)]
    let ?st = "st\<lparr>pmem := pm, spin_page := False\<rparr>"
    have pg: "page_bytes k = span a PAGE_SIZE_LARGE" using k(2) by (rule page_bytes_span)
    have k1: "k * 2 ^ 21 < 2 ^ 52" using pmi k(1) by (force simp: pm_inv_def)
    have blk: "PAGE_SIZE_LARGE \<noteq> 0" "unat a + unat PAGE_SIZE_LARGE < 2 ^ 64" using k1 by (simp_all add: k(2))
    have hole: "span a PAGE_SIZE_LARGE \<inter> hl_bytes (phy_page_holes ?st) = {}"
      using disj area(1) pg by auto
    have dv: "al4k a" "al4k PAGE_SIZE_LARGE" by (simp_all add: al4k_dvd k(2))
    have fr: "if fs = [] then free_phy_page_small a PAGE_SIZE_LARGE ?st = panic
      else \<exists>L' hs' fs'. free_phy_page_small a PAGE_SIZE_LARGE ?st = Inr (?st\<lparr>phy_page_holes := L', spin_page := False\<rparr>) \<and>
        hl_rep MAX_PHY_PAGE_HOLE L' hs' fs' \<and> hl_sorted L' hs' \<and>
        hl_bytes L' = hl_bytes (phy_page_holes ?st) \<union> span a PAGE_SIZE_LARGE \<and>
        (\<exists>i \<in> set hs'. PAGE_SIZE_LARGE \<le> h_size (nodes L' i)) \<and> hl_al L'"
      by (rule free_phy_page_small_run [of ?st hs fs a PAGE_SIZE_LARGE])
        (use rep blk hole dv al0 in simp_all)
    show ?thesis
    proof (cases "fs = []")
      case True
      with fr have "refill_small_loop n None (st\<lparr>spin_page := True\<rparr>) = Some panic"
        using al False by (simp add: unf Let_def panic_def)
      moreover have "pfree (phy_page_holes st) = None" using hl_repD(2) [OF rep(1)] True by simp
      ultimately show ?thesis by blast
    next
      case ne: False
      from fr ne obtain L' hs' fs' where
        run: "free_phy_page_small a PAGE_SIZE_LARGE ?st = Inr (?st\<lparr>phy_page_holes := L', spin_page := False\<rparr>)"
        and rep': "hl_rep MAX_PHY_PAGE_HOLE L' hs' fs'" "hl_sorted L' hs'"
        and bytes: "hl_bytes L' = hl_bytes (phy_page_holes st) \<union> span a PAGE_SIZE_LARGE"
        and big: "\<exists>i \<in> set hs'. PAGE_SIZE_LARGE \<le> h_size (nodes L' i)" and al': "hl_al L'" by auto
      have ex: "n \<le> PAGE_SIZE_LARGE \<Longrightarrow> \<exists>i \<in> set hs'. n \<le> h_size (nodes L' i)" using big by (meson order_trans)
      have "hs' \<noteq> []" using big by auto
      from find_fit_or_last_rep [OF rep'(1) this] ex obtain p where
        p: "find_fit_or_last n L' = Some (Some p)" "p \<in> set hs'"
          "n \<le> PAGE_SIZE_LARGE \<Longrightarrow> n \<le> h_size (nodes L' p)" by metis
      have "refill_small_loop n None (st\<lparr>spin_page := True\<rparr>) =
          Some (Inr (Some p, st\<lparr>pmem := pm, phy_page_holes := L', spin_page := True\<rparr>))"
        using al False run p(1) by (simp add: unf Let_def refill_small_loop.simps [of n "Some p"])
      moreover have "0 \<notin> span a PAGE_SIZE_LARGE" using False by (simp add: span_def unat_eq_0)
      ultimately show ?thesis
        using rep' p pm area pg bytes disj z al' unfolding phys_bytes_def by blast
    qed
  qed
qed

text \<open>
  What a request for at most 2M comes to: a block, 0 with nothing changed, or the panic of
  \<open>free_phy_page_small\<close> when every descriptor is in use.
\<close>

lemma alloc_phy_page_small_run:
  assumes inv: "phys_inv st" and req: "small_request sz st"
  defines "n \<equiv> align_4k sz"
  shows "(\<exists>a st'. alloc_phy_page_small sz st = Inr (a, st') \<and> a \<noteq> 0 \<and> al4k a \<and> phys_inv st' \<and>
      unat a + unat n < 2 ^ 64 \<and> span a n \<subseteq> phys_bytes st \<and> phys_bytes st' = phys_bytes st - span a n) \<or>
    (\<exists>st'. alloc_phy_page_small sz st = Inr (0, st') \<and> phys_inv st' \<and>
      phys_bytes st' = phys_bytes st \<and> phys_exhausted n st) \<or>
    alloc_phy_page_small sz st = panic \<and> pfree (phy_page_holes st) = None \<and>
      find_fit n (phy_page_holes st) = Some None"
proof -
  obtain hs fs where rep: "hl_rep MAX_PHY_PAGE_HOLE (phy_page_holes st) hs fs" "hl_sorted (phy_page_holes st) hs"
    using inv by (rule phys_invE)
  have n: "n \<noteq> 0" "n \<le> PAGE_SIZE_LARGE" "al4k n" using align_4k_bounds [OF req] by (simp_all add: n_def al4k_dvd)
  have pmi: "pm_inv (pmem st)" and lock: "\<not> spin_page st" and z: "0 \<notin> hl_bytes (phy_page_holes st)"
    and disj: "hl_bytes (phy_page_holes st) \<inter> page_area (pmem st) = {}" and al0: "hl_al (phy_page_holes st)"
    using inv by (auto simp: phys_inv_def)
  obtain q where q: "find_fit n (phy_page_holes st) = Some q" using find_fit_rep [OF rep(1)] by blast
  show ?thesis
  proof (cases q)
    case (Some p)
    note fit = find_fit_Some [OF rep(1) q [unfolded Some]]
    from take_from_hole [OF rep fit n(1) pmi disj z al0 n(3)] obtain a L' where
      cv: "carve (\<lambda>rest. rest = 0) n p (phy_page_holes st) = Inr (a, L')" and a: "a \<noteq> 0" "al4k a"
      and inv': "phys_inv (st\<lparr>phy_page_holes := L', spin_page := False\<rparr>)" "unat a + unat n < 2 ^ 64"
      and sub: "span a n \<subseteq> hl_bytes (phy_page_holes st)"
      and by': "hl_bytes L' = hl_bytes (phy_page_holes st) - span a n" by blast
    let ?st = "st\<lparr>phy_page_holes := L', spin_page := False\<rparr>"
    have "alloc_phy_page_small sz st = Inr (a, ?st)"
      using lock q Some cv by (simp add: alloc_phy_page_small_def n_def [symmetric] refill_small_loop.simps [of n "Some p"])
    moreover have "phys_bytes ?st = phys_bytes st - span a n"
      using sub disj by (auto simp: phys_bytes_def by')
    moreover have "span a n \<subseteq> phys_bytes st" using sub by (auto simp: phys_bytes_def)
    ultimately show ?thesis using a inv' by blast
  next
    case None
    have step: "alloc_phy_page_small sz st =
        andThen (ending (refill_small_loop n None (st\<lparr>spin_page := True\<rparr>))) (\<lambda>r. andThen r (\<lambda>(q, st1).
          case q of None \<Rightarrow> Inr (0, st1)
          | Some i \<Rightarrow> andThen (carve (\<lambda>rest. rest = 0) n i (phy_page_holes st1)) (\<lambda>(pret, L).
              Inr (pret, st1\<lparr>phy_page_holes := L, spin_page := spin_unlock (spin_page st1)\<rparr>))))"
      using lock q None by (simp add: alloc_phy_page_small_def n_def [symmetric])
    from refill_small_loop_run [OF inv, of n] show ?thesis
    proof (elim disjE exE conjE)
      fix pm assume run: "refill_small_loop n None (st\<lparr>spin_page := True\<rparr>) = Some (Inr (None, st\<lparr>pmem := pm\<rparr>))"
        and pm: "pm_inv pm" "pm_free pm = pm_free (pmem st)" and none: "pm_free (pmem st) \<inter> {..<64 * pmax (pmem st)} = {}"
      have "page_area pm = page_area (pmem st)" using pm(2) by (simp add: page_area_def)
      then have "phys_inv (st\<lparr>pmem := pm\<rparr>) \<and> phys_bytes (st\<lparr>pmem := pm\<rparr>) = phys_bytes st"
        using inv pm(1) by (simp add: phys_inv_def phys_bytes_def)
      then show ?thesis using step run none q None by (auto simp: phys_exhausted_def)
    next
      assume "refill_small_loop n None (st\<lparr>spin_page := True\<rparr>) = Some panic" "pfree (phy_page_holes st) = None"
      then show ?thesis using step q None by (auto simp: panic_def)
    next
      fix p pm L hs fs
      assume run: "refill_small_loop n None (st\<lparr>spin_page := True\<rparr>) =
          Some (Inr (Some p, st\<lparr>pmem := pm, phy_page_holes := L, spin_page := True\<rparr>))"
        and r: "hl_rep MAX_PHY_PAGE_HOLE L hs fs" "hl_sorted L hs" "p \<in> set hs" "n \<le> PAGE_SIZE_LARGE \<longrightarrow> n \<le> h_size (nodes L p)"
        and pm: "pm_inv pm" "hl_bytes L \<inter> page_area pm = {}" "0 \<notin> hl_bytes L"
        and all: "hl_bytes L \<union> page_area pm = phys_bytes st" and alL: "hl_al L"
      let ?st1 = "st\<lparr>pmem := pm, phy_page_holes := L, spin_page := True\<rparr>"
      from take_from_hole [of ?st1 hs fs p n] r pm n alL obtain a L' where
        cv: "carve (\<lambda>rest. rest = 0) n p L = Inr (a, L')" and a: "a \<noteq> 0" "al4k a"
        and inv': "phys_inv (?st1\<lparr>phy_page_holes := L', spin_page := False\<rparr>)" "unat a + unat n < 2 ^ 64"
        and sub: "span a n \<subseteq> hl_bytes L" and by': "hl_bytes L' = hl_bytes L - span a n" by auto
      let ?st = "?st1\<lparr>phy_page_holes := L', spin_page := False\<rparr>"
      have "alloc_phy_page_small sz st = Inr (a, ?st)" using step run cv by simp
      moreover have "span a n \<subseteq> phys_bytes st" using sub all by blast
      moreover have "phys_bytes ?st = phys_bytes st - span a n"
        using sub pm(2) all [symmetric] by (auto simp: phys_bytes_def by')
      ultimately show ?thesis using a inv' by blast
    qed
  qed
qed

interpretation phys: range_allocator phys_inv phys_bytes alloc_phy_page_small free_phy_page_small small_request align_4k
proof
  fix s s' :: phys and sz a
  assume inv: "phys_inv s" and req: "small_request sz s" and run: "alloc_phy_page_small sz s = Inr (a, s')" and a: "a \<noteq> 0"
  from alloc_phy_page_small_run [OF inv req] run a
  show "phys_inv s' \<and> span a (align_4k sz) \<subseteq> phys_bytes s \<and> phys_bytes s' = phys_bytes s - span a (align_4k sz) \<and>
      align_4k sz \<noteq> 0 \<and> align_4k (align_4k sz) = align_4k sz \<and> unat a + unat (align_4k sz) < 2 ^ 64"
    using align_4k_bounds(1,4) [OF req] align_4k_id by (auto simp: al4k_dvd)
next
  fix s s' :: phys and sz
  assume "phys_inv s" "small_request sz s" "alloc_phy_page_small sz s = Inr (0, s')"
  from alloc_phy_page_small_run [OF this(1,2)] this(3)
  show "phys_inv s' \<and> phys_bytes s' = phys_bytes s" by auto
qed (rule free_phy_page_small_release)

section \<open>Properties\<close>

text \<open>A machine with 256M of memory on which the second 2M page is free.\<close>

definition one_page_phys :: "phys" where
  "one_page_phys = init_phy_page (\<lambda>_. \<lparr>h_addr = 0, h_size = 0, pnext = None, origin_size = 0\<rparr>)
     one_page_mem"

lemma one_page_phys_pmem [simp]:
  "pm_free (pmem one_page_phys) = {1}" "pmax (pmem one_page_phys) = 2"
  "hl_bytes (phy_page_holes one_page_phys) = {}" "pfree (phy_page_holes one_page_phys) = Some 0"
  "phead (phy_page_holes one_page_phys) = None"
  by (simp_all add: one_page_phys_def init_phy_page_def one_page_mem_free init_holes_bytes) (simp_all add: init_holes_def)

lemma one_page_phys_inv: "phys_inv one_page_phys"
  unfolding phys_inv_def using one_page_phys_pmem(3)
  by (simp add: one_page_phys_def init_phy_page_def init_spinlock_def init_holes_sorted_inv init_holes_al one_page_mem_inv)

text \<open>
  C2: \<open>alloc_phy_page_small\<close> on a request of at most 2M, from any state that satisfies the
  invariant, either returns a non-zero, 4K-aligned block of the request rounded up to 4K that was free and
  is taken out of free memory, and nothing else changes; or returns 0 and changes no free
  memory, when no hole fits and the bitmap has no page in the scanned words; or panics, when no
  hole fits and all 20 descriptors are in use. It never spins and never loops.
\<close>

theorem alloc_phy_page_small_correct:
  assumes "phys_inv st" and "small_request sz st"
  shows "(\<exists>a st'. alloc_phy_page_small sz st = Inr (a, st') \<and> a \<noteq> 0 \<and> al4k a \<and> phys_inv st' \<and>
      span a (align_4k sz) \<subseteq> phys_bytes st \<and> phys_bytes st' = phys_bytes st - span a (align_4k sz)) \<or>
    (\<exists>st'. alloc_phy_page_small sz st = Inr (0, st') \<and> phys_inv st' \<and>
      phys_bytes st' = phys_bytes st \<and> phys_exhausted (align_4k sz) st) \<or>
    alloc_phy_page_small sz st = panic \<and> pfree (phy_page_holes st) = None \<and>
      find_fit (align_4k sz) (phy_page_holes st) = Some None"
  using alloc_phy_page_small_run [OF assms] by blast

lemma one_page_phys_serves:
  assumes "small_request sz one_page_phys"
  shows "\<exists>a st'. alloc_phy_page_small sz one_page_phys = Inr (a, st') \<and> a \<noteq> 0"
  using alloc_phy_page_small_run [OF one_page_phys_inv assms] by (auto simp: phys_exhausted_def)

theorem alloc_phy_page_small_correct_witness:
  "\<exists>a st'. alloc_phy_page_small 5000 one_page_phys = Inr (a, st') \<and> a \<noteq> 0 \<and>
     span a (align_4k 5000) \<subseteq> phys_bytes one_page_phys"
  using alloc_phy_page_small_correct [OF one_page_phys_inv, of 5000]
  by (simp add: small_request_def phys_exhausted_def) blast

text \<open>
  C1: In every run of \<open>alloc_phy_page_small\<close> (requests of 1 byte to 2M) and
  \<open>free_phy_page_small\<close> (of blocks in use), the blocks in use are pairwise disjoint and disjoint
  from free memory, and the free bytes with the blocks in use are exactly the bytes that were free
  at the start.
\<close>

theorem phy_page_blocks_never_overlap:
  assumes "phys_inv s0"
    and "alloc_run alloc_phy_page_small free_phy_page_small small_request align_4k s0 s live"
  shows "apart live \<and> blocks live \<inter> phys_bytes s = {} \<and> phys_bytes s \<union> blocks live = phys_bytes s0"
  using phys.run_inv [OF assms] by blast

theorem phy_page_blocks_never_overlap_witness:
  "\<exists>a s. alloc_run alloc_phy_page_small free_phy_page_small small_request align_4k one_page_phys s
      [(a, align_4k 4096)] \<and> phys_bytes s \<union> span a (align_4k 4096) = phys_bytes one_page_phys"
proof -
  have req: "small_request 4096 one_page_phys" by (simp add: small_request_def)
  from one_page_phys_serves [OF this] obtain a s where
    "alloc_phy_page_small 4096 one_page_phys = Inr (a, s)" "a \<noteq> 0" by blast
  with req have run: "alloc_run alloc_phy_page_small free_phy_page_small small_request align_4k one_page_phys s [(a, align_4k 4096)]"
    using alloc_run.start by (rule alloc_run.got [rotated 1])
  from phy_page_blocks_never_overlap [OF one_page_phys_inv run] run show ?thesis by auto
qed

text \<open>
  A request of more than 2M is not refused: with one free 2M page and no holes, a request for
  4M returns a non-zero address as if it had succeeded, although the 4M block is not free memory
  (the second search of \<open>alloc_phy_page_small\<close> stops at the last hole without comparing its size).
\<close>

theorem alloc_phy_page_small_too_big:
  "\<exists>a st'. alloc_phy_page_small 0x400000 one_page_phys = Inr (a, st') \<and> a \<noteq> 0 \<and>
     \<not> span a 0x400000 \<subseteq> phys_bytes one_page_phys"
proof -
  let ?st = one_page_phys and ?n = "0x400000 :: ulong"
  have al: "align_4k ?n = ?n" by (simp add: align_4k_def)
  have bytes: "phys_bytes ?st = page_bytes 1" by (simp add: phys_bytes_def page_area_def)
  have lock: "\<not> spin_page ?st" using one_page_phys_inv by (simp add: phys_inv_def)
  have none: "find_fit ?n (phy_page_holes ?st) = Some None"
    by (simp add: find_fit_def walk.simps)
  have "pm_free (pmem ?st) \<inter> {..<64 * pmax (pmem ?st)} \<noteq> {}" "pfree (phy_page_holes ?st) \<noteq> None" by simp_all
  with refill_small_loop_run [OF one_page_phys_inv, of ?n] obtain p pm L hs fs where
    run: "refill_small_loop ?n None (?st\<lparr>spin_page := True\<rparr>) =
      Some (Inr (Some p, ?st\<lparr>pmem := pm, phy_page_holes := L, spin_page := True\<rparr>))"
    and rep: "hl_rep MAX_PHY_PAGE_HOLE L hs fs" and p: "p \<in> set hs" and z: "0 \<notin> hl_bytes L"
    and all: "hl_bytes L \<union> page_area pm = phys_bytes ?st" by blast
  have sub: "hl_bytes L \<subseteq> phys_bytes ?st" using all by blast
  let ?a = "h_addr (nodes L p)"
  have "hspan L p \<subseteq> page_bytes 1" using sub p bytes by (auto simp: hl_bytes_rep [OF rep])
  then have "card (hspan L p) \<le> card (page_bytes 1)" by (rule card_mono [rotated]) (simp add: page_bytes_def)
  then have "unat (h_size (nodes L p)) \<le> 0x200000" by (simp add: span_def page_bytes_def)
  then have rest: "h_size (nodes L p) \<noteq> ?n" by auto
  obtain L' where "carve (\<lambda>r. r = 0) ?n p L = Inr (?a, L')"
    using rest by (simp add: carve_def Let_def)
  then have "\<exists>st'. alloc_phy_page_small ?n ?st = Inr (?a, st')"
    using lock none run by (simp add: alloc_phy_page_small_def al)
  moreover have "\<not> span ?a ?n \<subseteq> page_bytes 1"
  proof
    assume "span ?a ?n \<subseteq> page_bytes 1"
    then have "card (span ?a ?n) \<le> card (page_bytes 1)" by (rule card_mono [rotated]) (simp add: page_bytes_def)
    then show False by (simp add: span_def page_bytes_def)
  qed
  ultimately show ?thesis using hole_addr_nonzero [OF rep z p] bytes by auto
qed

end
