(* ===== verification/Kheap.thy ===== *)
theory Kheap
  imports Phy_page
begin

text \<open>
  The kernel heap, \<open>kernel/kheap.c\<close>: an allocator of 4K-granular virtual memory, which is
  refilled with 2M pages of the bitmap allocator through the direct map, and on top of it an allocator
  of blocks below 4K.
\<close>

section \<open>Model\<close>

record kheap_t = hole +
  h_origin_size :: ulong

type_synonym kheap_holes = "unit kheap_t_ext hole_list"

abbreviation MAX_HEAP_HOLE :: nat where "MAX_HEAP_HOLE \<equiv> 20"
abbreviation MAX_SMALL_HOLE :: nat where "MAX_SMALL_HOLE \<equiv> 100"
abbreviation MAX_SMALL_HEAP :: ulong where "MAX_SMALL_HEAP \<equiv> 2048"

text \<open>
  \<open>heap_holes\<close> has the heads \<open>phead4k\<close> and \<open>pfree4k\<close>,
  \<open>heap_small_holes\<close> the heads \<open>phead_small\<close> and \<open>pfree_small\<close>.
\<close>

record kheap =
  kmem :: phymem
  heap_holes :: kheap_holes
  heap_small_holes :: kheap_holes
  spin_4k :: spinlock_t
  spin_small :: spinlock_t

definition init_kheap :: "(nat \<Rightarrow> kheap_t) \<Rightarrow> (nat \<Rightarrow> kheap_t) \<Rightarrow> phymem \<Rightarrow> kheap" where
  "init_kheap m4k msmall pm =
     \<lparr>kmem = pm, heap_holes = init_holes MAX_HEAP_HOLE m4k,
      heap_small_holes = init_holes MAX_SMALL_HOLE msmall,
      spin_4k = init_spinlock, spin_small = init_spinlock\<rparr>"

text \<open>
  The early return after a merge leaves the lock taken; the two other ways out release it.
\<close>

definition free_kheap_4k :: "ulong \<Rightarrow> ulong \<Rightarrow> kheap \<Rightarrow> kheap outcome" where
  "free_kheap_4k a sz st =
     andThen (ASSERT (a AND 0xfff = 0 \<and> sz AND 0xfff = 0)) (\<lambda>_.
     case pfree (heap_holes st) of
       None \<Rightarrow> panic
     | Some p \<Rightarrow>
         andThen (spin_lock (spin_4k st)) (\<lambda>l.
         andThen (free_holes
             (\<lambda>m. m\<lparr>h_size := h_size m + sz, h_origin_size := h_origin_size m + sz\<rparr>)
             (\<lambda>m. m\<lparr>h_addr := a, h_origin_size := sz, h_size := sz\<rparr>)
             a p (heap_holes st)) (\<lambda>(merged, L).
         if merged then Inr (st\<lparr>heap_holes := L, spin_4k := l\<rparr>)
         else Inr (st\<lparr>heap_holes := L, spin_4k := spin_unlock l\<rparr>))))"

text \<open>The loop \<open>while (!p)\<close> of \<open>alloc_kheap_4k\<close>.\<close>

partial_function (option) refill_4k_loop ::
  "ulong \<Rightarrow> ptr \<Rightarrow> kheap \<Rightarrow> (ptr \<times> kheap) outcome option" where
  "refill_4k_loop sz p st =
     (case p of
        Some i \<Rightarrow> Some (Inr (Some i, st))
      | None \<Rightarrow>
          (case alloc_phy_page (kmem st) of
             Inl e \<Rightarrow> Some (Inl e)
           | Inr (addr, pm) \<Rightarrow>
               let st1 = st\<lparr>kmem := pm, spin_4k := spin_unlock (spin_4k st)\<rparr>; newaddr = P2V addr in
               if newaddr = 0 then Some (Inr (None, st1))
               else
                 (case andThen (free_kheap_4k newaddr PAGE_SIZE_LARGE st1) (\<lambda>st2.
                         andThen (spin_lock (spin_4k st2)) (\<lambda>l.
                         andThen (ending (find_fit_or_last sz (heap_holes st2))) (\<lambda>q.
                         Inr (q, st2\<lparr>spin_4k := l\<rparr>)))) of
                    Inl e \<Rightarrow> Some (Inl e)
                  | Inr (q, st3) \<Rightarrow> refill_4k_loop sz q st3)))"

declare refill_4k_loop.simps [code]

definition alloc_kheap_4k :: "ulong \<Rightarrow> kheap \<Rightarrow> (ulong \<times> kheap) outcome" where
  "alloc_kheap_4k size0 st =
     (let sz = align_4k size0 in
      andThen (spin_lock (spin_4k st)) (\<lambda>l.
      andThen (ending (find_fit sz (heap_holes st))) (\<lambda>p.
      andThen (ending (refill_4k_loop sz p (st\<lparr>spin_4k := l\<rparr>))) (\<lambda>r.
      andThen r (\<lambda>(q, st1).
      case q of
        None \<Rightarrow> Inr (0, st1)
      | Some i \<Rightarrow>
          andThen (carve (\<lambda>rest. rest = 0) sz i (heap_holes st1)) (\<lambda>(pret, L).
          Inr (pret, st1\<lparr>heap_holes := L, spin_4k := spin_unlock (spin_4k st1)\<rparr>)))))))"

definition free_kheap_small :: "ulong \<Rightarrow> ulong \<Rightarrow> kheap \<Rightarrow> kheap outcome" where
  "free_kheap_small a sz st =
     andThen (ASSERT (a AND 0xfff = 0 \<and> sz AND 0xfff = 0)) (\<lambda>_.
     andThen (spin_lock (spin_small st)) (\<lambda>l.
     case pfree (heap_small_holes st) of
       None \<Rightarrow> panic
     | Some p \<Rightarrow>
         Inr (st\<lparr>heap_small_holes :=
                   push_hole (\<lambda>m. m\<lparr>h_addr := a, h_origin_size := sz, h_size := sz\<rparr>) p (heap_small_holes st),
                 spin_small := spin_unlock l\<rparr>)))"

text \<open>The loop \<open>while (!p)\<close> of \<open>alloc_kheap_small\<close>.\<close>

partial_function (option) refill_kheap_small_loop ::
  "ulong \<Rightarrow> ptr \<Rightarrow> kheap \<Rightarrow> (ptr \<times> kheap) outcome option" where
  "refill_kheap_small_loop sz p st =
     (case p of
        Some i \<Rightarrow> Some (Inr (Some i, st))
      | None \<Rightarrow>
          (case alloc_kheap_4k 0x1000 (st\<lparr>spin_small := spin_unlock (spin_small st)\<rparr>) of
             Inl e \<Rightarrow> Some (Inl e)
           | Inr (newaddr, st1) \<Rightarrow>
               if newaddr = 0 then Some (Inr (None, st1))
               else
                 (case andThen (free_kheap_small newaddr 0x1000 st1) (\<lambda>st2.
                         andThen (spin_lock (spin_small st2)) (\<lambda>l.
                         andThen (ending (find_fit sz (heap_small_holes st2))) (\<lambda>q.
                         Inr (q, st2\<lparr>spin_small := l\<rparr>)))) of
                    Inl e \<Rightarrow> Some (Inl e)
                  | Inr (q, st3) \<Rightarrow> refill_kheap_small_loop sz q st3)))"

declare refill_kheap_small_loop.simps [code]

definition alloc_kheap_small :: "ulong \<Rightarrow> kheap \<Rightarrow> (ulong \<times> kheap) outcome" where
  "alloc_kheap_small sz st =
     andThen (ASSERT (sz < 0x1000)) (\<lambda>_.
     andThen (spin_lock (spin_small st)) (\<lambda>l.
     andThen (ending (find_fit sz (heap_small_holes st))) (\<lambda>p.
     andThen (ending (refill_kheap_small_loop sz p (st\<lparr>spin_small := l\<rparr>))) (\<lambda>r.
     andThen r (\<lambda>(q, st1).
     case q of
       None \<Rightarrow> Inr (0, st1)
     | Some i \<Rightarrow>
         andThen (carve (\<lambda>rest. rest \<le> 16) sz i (heap_small_holes st1)) (\<lambda>(pret, L).
         Inr (pret, st1\<lparr>heap_small_holes := L, spin_small := spin_unlock (spin_small st1)\<rparr>)))))))"

definition kalloc :: "ulong \<Rightarrow> kheap \<Rightarrow> (ulong \<times> kheap) outcome" where
  "kalloc sz st = (if sz < MAX_SMALL_HEAP then alloc_kheap_small sz st else alloc_kheap_4k sz st)"

section \<open>Abstraction and invariant\<close>

text \<open>The bytes of the free 2M pages as the direct map shows them.\<close>

definition vpage_area :: "phymem \<Rightarrow> nat set" where
  "vpage_area pm = (\<lambda>x. x + unat PHYS_VIRT_START) ` page_area pm"

definition heap4k_bytes :: "kheap \<Rightarrow> nat set" where
  "heap4k_bytes st = hl_bytes (heap_holes st) \<union> vpage_area (kmem st)"

text \<open>
  The invariant says nothing about the locks: a call that finds its lock taken does not return.
  The direct map bounds physical memory to 64T.
\<close>

definition heap4k_inv :: "kheap \<Rightarrow> bool" where
  "heap4k_inv st \<longleftrightarrow>
     pm_inv (kmem st) \<and> (\<forall>k \<in> pm_free (kmem st). k < 2 ^ 25) \<and>
     hl_sorted_inv MAX_HEAP_HOLE (heap_holes st) \<and> hl_al (heap_holes st) \<and>
     hl_bytes (heap_holes st) \<inter> vpage_area (kmem st) = {} \<and> 0 \<notin> hl_bytes (heap_holes st)"

text \<open>A request of at most 2M, made while a hole fits or the bitmap has a page to give.\<close>

definition heap4k_request :: "ulong \<Rightarrow> kheap \<Rightarrow> bool" where
  "heap4k_request sz st \<longleftrightarrow> sz \<noteq> 0 \<and> sz \<le> PAGE_SIZE_LARGE \<and>
     (find_fit (align_4k sz) (heap_holes st) \<noteq> Some None \<or>
      pm_free (kmem st) \<inter> {..<64 * pmax (kmem st)} \<noteq> {})"

definition kheap_bytes :: "kheap \<Rightarrow> nat set" where
  "kheap_bytes st = hl_bytes (heap_small_holes st) \<union> heap4k_bytes st"

definition kheap_inv :: "kheap \<Rightarrow> bool" where
  "kheap_inv st \<longleftrightarrow> heap4k_inv st \<and> hl_inv MAX_SMALL_HOLE (heap_small_holes st) \<and>
     hl_bytes (heap_small_holes st) \<inter> heap4k_bytes st = {} \<and> 0 \<notin> hl_bytes (heap_small_holes st)"

lemma heap4k_invE:
  assumes "heap4k_inv st"
  obtains hs fs where "hl_rep MAX_HEAP_HOLE (heap_holes st) hs fs" "hl_sorted (heap_holes st) hs"
  using assms by (auto simp: heap4k_inv_def hl_sorted_inv_def)

lemma heap4k_frame [simp]:
  "heap4k_inv (st\<lparr>spin_small := b\<rparr>) = heap4k_inv st" "heap4k_inv (st\<lparr>heap_small_holes := L\<rparr>) = heap4k_inv st"
  "heap4k_bytes (st\<lparr>spin_small := b\<rparr>) = heap4k_bytes st" "heap4k_bytes (st\<lparr>heap_small_holes := L\<rparr>) = heap4k_bytes st"
  "heap4k_inv (st\<lparr>spin_4k := b\<rparr>) = heap4k_inv st" "heap4k_bytes (st\<lparr>spin_4k := b\<rparr>) = heap4k_bytes st"
  "heap4k_request sz (st\<lparr>spin_small := b\<rparr>) = heap4k_request sz st"
  by (simp_all add: heap4k_inv_def heap4k_bytes_def heap4k_request_def)

lemma vpage_span:
  assumes "unat a = k * 2 ^ 21" "k < 2 ^ 25"
  shows "span (P2V a) PAGE_SIZE_LARGE = (\<lambda>x. x + unat PHYS_VIRT_START) ` page_bytes k"
proof -
  have "unat a < 2 ^ 46" using assms by simp
  note u = unat_P2V [OF this]
  have size2m: "unat PAGE_SIZE_LARGE = 2 ^ 21" by simp
  have "span (P2V a) PAGE_SIZE_LARGE = {unat PHYS_VIRT_START + k * 2 ^ 21 ..< unat PHYS_VIRT_START + (k * 2 ^ 21 + 2 ^ 21)}"
    unfolding span_def u assms(1) size2m by (simp only: ac_simps)
  also have "\<dots> = (\<lambda>x. x + unat PHYS_VIRT_START) ` page_bytes k"
    unfolding page_bytes_def image_add_atLeastLessThan' by (simp add: ac_simps)
  finally show ?thesis .
qed

lemma vpage_area_remove:
  assumes k: "k \<in> pm_free pm" "pm_free pm' = pm_free pm - {k}" and a: "unat a = k * 2 ^ 21" "k < 2 ^ 25"
  shows "vpage_area pm = vpage_area pm' \<union> span (P2V a) PAGE_SIZE_LARGE"
    and "vpage_area pm' \<inter> span (P2V a) PAGE_SIZE_LARGE = {}"
  using page_area_remove [OF k] unfolding vpage_area_def vpage_span [OF a] by auto

section \<open>The 4K heap\<close>

lemma free_kheap_4k_run:
  assumes rep: "hl_rep MAX_HEAP_HOLE (heap_holes st) hs fs" and srt: "hl_sorted (heap_holes st) hs"
    and lock: "\<not> spin_4k st" and al: "al4k a" "al4k sz" "hl_al (heap_holes st)"
    and blk: "sz \<noteq> 0" "unat a + unat sz < 2 ^ 64" "span a sz \<inter> hl_bytes (heap_holes st) = {}"
  shows "if fs = [] then free_kheap_4k a sz st = panic
    else \<exists>merged L' hs' fs'. free_kheap_4k a sz st = Inr (st\<lparr>heap_holes := L', spin_4k := merged\<rparr>) \<and>
      (merged \<longleftrightarrow> (\<exists>i \<in> set hs. h_addr (nodes (heap_holes st) i) + h_size (nodes (heap_holes st) i) = a)) \<and>
      hl_rep MAX_HEAP_HOLE L' hs' fs' \<and> hl_sorted L' hs' \<and>
      hl_bytes L' = hl_bytes (heap_holes st) \<union> span a sz \<and>
      (\<exists>i \<in> set hs'. sz \<le> h_size (nodes L' i)) \<and> hl_al L'"
proof (cases fs)
  case Nil
  with hl_repD(2) [OF rep] have "pfree (heap_holes st) = None" by simp
  with Nil al show ?thesis by (simp add: free_kheap_4k_def al4k_def)
next
  case (Cons p fs1)
  with hl_repD(2) [OF rep] have pf: "pfree (heap_holes st) = Some p" by simp
  let ?grow = "\<lambda>m::kheap_t. m\<lparr>h_size := h_size m + sz, h_origin_size := h_origin_size m + sz\<rparr>"
  let ?fill = "\<lambda>m::kheap_t. m\<lparr>h_addr := a, h_origin_size := sz, h_size := sz\<rparr>"
  have upd: "hole_updates ?grow ?fill a sz" by (simp add: hole_updates_def)
  obtain merged L' hs' fs' where
    run: "free_holes ?grow ?fill a p (heap_holes st) = Inr (merged, L')"
    and m: "merged \<longleftrightarrow> (\<exists>i \<in> set hs. h_addr (nodes (heap_holes st) i) + h_size (nodes (heap_holes st) i) = a)"
    and rep': "hl_rep MAX_HEAP_HOLE L' hs' fs'" "hl_sorted L' hs'"
      "hl_bytes L' = hl_bytes (heap_holes st) \<union> span a sz" "\<exists>i \<in> set hs'. sz \<le> h_size (nodes L' i)"
    using free_holes_spec [OF rep [unfolded Cons] blk upd] srt by blast
  have "free_kheap_4k a sz st = Inr (st\<lparr>heap_holes := L', spin_4k := merged\<rparr>)"
    using al lock run by (simp add: free_kheap_4k_def al4k_def pf)
  with m rep' Cons free_holes_al [OF run al(3) upd al(1,2)] show ?thesis by auto
qed

lemma free_kheap_4k_release:
  assumes inv: "heap4k_inv st" and blk: "a \<noteq> 0" "sz \<noteq> 0" "unat a + unat sz < 2 ^ 64"
    and disj: "span a sz \<inter> heap4k_bytes st = {}" and run: "free_kheap_4k a sz st = Inr st'"
  shows "heap4k_inv st' \<and> heap4k_bytes st' = heap4k_bytes st \<union> span a sz"
proof -
  obtain hs fs where rep: "hl_rep MAX_HEAP_HOLE (heap_holes st) hs fs" "hl_sorted (heap_holes st) hs"
    using inv by (rule heap4k_invE)
  have lock: "\<not> spin_4k st" and al4: "al4k a" "al4k sz"
    using run by (auto simp: free_kheap_4k_def al4k_def outcome_simps spin_lock_def split: option.splits if_splits)
  have hole: "span a sz \<inter> hl_bytes (heap_holes st) = {}" and al: "hl_al (heap_holes st)"
    and page: "span a sz \<inter> vpage_area (kmem st) = {}"
    using inv disj by (auto simp: heap4k_inv_def heap4k_bytes_def)
  from free_kheap_4k_run [OF rep lock al4 al blk(2,3) hole] run
  obtain L' hs' fs' b where st': "st' = st\<lparr>heap_holes := L', spin_4k := b\<rparr>"
    and rep': "hl_rep MAX_HEAP_HOLE L' hs' fs'" "hl_sorted L' hs'"
    and bytes: "hl_bytes L' = hl_bytes (heap_holes st) \<union> span a sz" and al': "hl_al L'"
    by (auto split: if_splits)
  have "0 \<notin> span a sz" using blk(1) by (simp add: span_def unat_eq_0)
  then show ?thesis
    using inv rep' page al' unfolding st' heap4k_inv_def heap4k_bytes_def hl_sorted_inv_def
    by (simp add: bytes) blast
qed

lemma take_from_heap_hole:
  assumes rep: "hl_rep MAX_HEAP_HOLE (heap_holes st) hs fs" and srt: "hl_sorted (heap_holes st) hs"
    and p: "p \<in> set hs" "n \<le> h_size (nodes (heap_holes st) p)" and n: "n \<noteq> 0" "al4k n" and inv: "heap4k_inv st"
  shows "\<exists>a L'. carve (\<lambda>rest. rest = 0) n p (heap_holes st) = Inr (a, L') \<and> a \<noteq> 0 \<and> al4k a \<and>
    heap4k_inv (st\<lparr>heap_holes := L', spin_4k := False\<rparr>) \<and> unat a + unat n < 2 ^ 64 \<and>
    span a n \<subseteq> heap4k_bytes st \<and> heap4k_bytes (st\<lparr>heap_holes := L', spin_4k := False\<rparr>) = heap4k_bytes st - span a n"
proof -
  let ?L = "heap_holes st" let ?a = "h_addr (nodes ?L p)"
  have al: "hl_al ?L" and disj: "hl_bytes ?L \<inter> vpage_area (kmem st) = {}" and z: "0 \<notin> hl_bytes ?L"
    using inv by (auto simp: heap4k_inv_def)
  obtain L' hs' fs' where run: "carve (\<lambda>r. r = 0) n p ?L = Inr (?a, L')"
    and rep': "hl_rep MAX_HEAP_HOLE L' hs' fs'" "hl_sorted L' hs'" and bytes: "hl_bytes L' = hl_bytes ?L - span ?a n"
    using carve_exact_block [OF rep p] srt by blast
  note al' = carve_al [OF run al n(2)]
  have le: "unat n \<le> unat (h_size (nodes ?L p))" using p(2) by (simp add: word_le_nat_alt)
  then have "span ?a n \<subseteq> hspan ?L p" by (auto simp: span_def)
  then have sub: "span ?a n \<subseteq> hl_bytes ?L" using p(1) by (auto simp: hl_bytes_rep [OF rep])
  have fit: "unat ?a + unat n < 2 ^ 64" using hl_repD(9) [OF rep p(1)] le by linarith
  have inv': "heap4k_inv (st\<lparr>heap_holes := L', spin_4k := False\<rparr>)"
    using inv rep' al' unfolding heap4k_inv_def hl_sorted_inv_def by (simp add: bytes) blast
  have "heap4k_bytes (st\<lparr>heap_holes := L', spin_4k := False\<rparr>) = heap4k_bytes st - span ?a n"
    using sub disj by (auto simp: heap4k_bytes_def bytes)
  moreover have "span ?a n \<subseteq> heap4k_bytes st" using sub by (auto simp: heap4k_bytes_def)
  ultimately show ?thesis using run hole_addr_nonzero [OF rep z p(1)] inv' fit al' by blast
qed

text \<open>With a page to give, a refill ends with a hole, spins on the leaked lock, or panics.\<close>

lemma refill_4k_loop_run:
  assumes inv: "heap4k_inv st" and n: "n \<le> PAGE_SIZE_LARGE"
    and page: "pm_free (kmem st) \<inter> {..<64 * pmax (kmem st)} \<noteq> {}"
  shows "refill_4k_loop n None (st\<lparr>spin_4k := True\<rparr>) = Some (Inl Spins_forever) \<or>
    refill_4k_loop n None (st\<lparr>spin_4k := True\<rparr>) = Some panic \<and> pfree (heap_holes st) = None \<or>
    (\<exists>p pm L hs fs. refill_4k_loop n None (st\<lparr>spin_4k := True\<rparr>) =
        Some (Inr (Some p, st\<lparr>kmem := pm, heap_holes := L, spin_4k := True\<rparr>)) \<and>
      hl_rep MAX_HEAP_HOLE L hs fs \<and> hl_sorted L hs \<and> p \<in> set hs \<and> n \<le> h_size (nodes L p) \<and>
      heap4k_inv (st\<lparr>kmem := pm, heap_holes := L, spin_4k := True\<rparr>) \<and>
      heap4k_bytes (st\<lparr>kmem := pm, heap_holes := L, spin_4k := True\<rparr>) = heap4k_bytes st)"
proof -
  obtain hs fs where rep: "hl_rep MAX_HEAP_HOLE (heap_holes st) hs fs" "hl_sorted (heap_holes st) hs"
    using inv by (rule heap4k_invE)
  have pmi: "pm_inv (kmem st)" and k25: "\<forall>k \<in> pm_free (kmem st). k < 2 ^ 25" and z: "0 \<notin> hl_bytes (heap_holes st)"
    and disj: "hl_bytes (heap_holes st) \<inter> vpage_area (kmem st) = {}" and al0: "hl_al (heap_holes st)"
    using inv by (auto simp: heap4k_inv_def)
  obtain a pm where al: "alloc_phy_page (kmem st) = Inr (a, pm)" using alloc_phy_page_returns by blast
  note unf = refill_4k_loop.simps [of n None]
  from alloc_phy_page_spec [OF pmi al] page obtain k where
    k: "k \<in> pm_free (kmem st)" "unat a = k * 2 ^ 21" "pm_free pm = pm_free (kmem st) - {k}" and pm: "pm_inv pm" by blast
  have klt: "k < 2 ^ 25" using k25 k(1) by blast
  then have small: "unat a < 2 ^ 46" using k(2) by simp
  note area = vpage_area_remove [OF k(1,3) k(2) klt]
  let ?v = "P2V a" let ?st = "st\<lparr>kmem := pm, spin_4k := False\<rparr>"
  have v0: "?v \<noteq> 0" using small by (rule P2V_nonzero)
  have blk: "PAGE_SIZE_LARGE \<noteq> 0" "unat ?v + unat PAGE_SIZE_LARGE < 2 ^ 64"
    using small unat_P2V [OF small] by (simp_all add: PHYS_VIRT_START_def)
  have hole: "span ?v PAGE_SIZE_LARGE \<inter> hl_bytes (heap_holes ?st) = {}" using disj area(1) by auto
  have dv: "al4k ?v" "al4k PAGE_SIZE_LARGE" by (rule al4k_P2V) (simp_all add: al4k_dvd k(2))
  have fr: "if fs = [] then free_kheap_4k ?v PAGE_SIZE_LARGE ?st = panic
    else \<exists>b L' hs' fs'. free_kheap_4k ?v PAGE_SIZE_LARGE ?st = Inr (?st\<lparr>heap_holes := L', spin_4k := b\<rparr>) \<and>
      (b \<longleftrightarrow> (\<exists>i \<in> set hs. h_addr (nodes (heap_holes ?st) i) + h_size (nodes (heap_holes ?st) i) = ?v)) \<and>
      hl_rep MAX_HEAP_HOLE L' hs' fs' \<and> hl_sorted L' hs' \<and>
      hl_bytes L' = hl_bytes (heap_holes ?st) \<union> span ?v PAGE_SIZE_LARGE \<and>
      (\<exists>i \<in> set hs'. PAGE_SIZE_LARGE \<le> h_size (nodes L' i)) \<and> hl_al L'"
    by (rule free_kheap_4k_run [of ?st hs fs ?v PAGE_SIZE_LARGE]) (use rep blk hole dv al0 in simp_all)
  show ?thesis
  proof (cases "fs = []")
    case True
    with fr have "refill_4k_loop n None (st\<lparr>spin_4k := True\<rparr>) = Some panic"
      using al v0 by (simp add: unf Let_def panic_def)
    moreover have "pfree (heap_holes st) = None" using hl_repD(2) [OF rep(1)] True by simp
    ultimately show ?thesis by blast
  next
    case ne: False
    have hst: "heap_holes ?st = heap_holes st" by simp
    from fr [unfolded if_not_P [OF ne] hst] obtain b L' hs' fs' where
      run: "free_kheap_4k ?v PAGE_SIZE_LARGE ?st = Inr (?st\<lparr>heap_holes := L', spin_4k := b\<rparr>)"
      and rep': "hl_rep MAX_HEAP_HOLE L' hs' fs'" "hl_sorted L' hs'"
      and bytes: "hl_bytes L' = hl_bytes (heap_holes st) \<union> span ?v PAGE_SIZE_LARGE"
      and big: "\<exists>i \<in> set hs'. PAGE_SIZE_LARGE \<le> h_size (nodes L' i)" and al': "hl_al L'" by blast
    show ?thesis
    proof (cases b)
      case True
      then show ?thesis using al v0 run by (simp add: unf Let_def)
    next
      case False
      have ex: "\<exists>i \<in> set hs'. n \<le> h_size (nodes L' i)" using big n by (meson order_trans)
      then have "hs' \<noteq> []" by auto
      from find_fit_or_last_rep [OF rep'(1) this] ex obtain p where
        p: "find_fit_or_last n L' = Some (Some p)" "p \<in> set hs'" "n \<le> h_size (nodes L' p)" by metis
      let ?st' = "st\<lparr>kmem := pm, heap_holes := L', spin_4k := True\<rparr>"
      have "refill_4k_loop n None (st\<lparr>spin_4k := True\<rparr>) = Some (Inr (Some p, ?st'))"
        using al v0 run False p(1) by (simp add: unf Let_def refill_4k_loop.simps [of n "Some p"])
      moreover have "0 \<notin> span ?v PAGE_SIZE_LARGE" using v0 by (simp add: span_def unat_eq_0)
      then have "heap4k_inv ?st'"
        using pm k25 k(3) rep' al' area disj z unfolding heap4k_inv_def hl_sorted_inv_def by (simp add: bytes) blast
      moreover have "heap4k_bytes ?st' = heap4k_bytes st"
        using area(1) by (auto simp: heap4k_bytes_def bytes)
      ultimately show ?thesis using rep' p by blast
    qed
  qed
qed

lemma alloc_kheap_4k_run:
  assumes inv: "heap4k_inv st" and req: "heap4k_request sz st"
  defines "n \<equiv> align_4k sz"
  shows "(\<exists>a pm L. alloc_kheap_4k sz st = Inr (a, st\<lparr>kmem := pm, heap_holes := L, spin_4k := False\<rparr>) \<and> a \<noteq> 0 \<and> al4k a \<and>
      heap4k_inv (st\<lparr>kmem := pm, heap_holes := L, spin_4k := False\<rparr>) \<and> unat a + unat n < 2 ^ 64 \<and>
      span a n \<subseteq> heap4k_bytes st \<and>
      heap4k_bytes (st\<lparr>kmem := pm, heap_holes := L, spin_4k := False\<rparr>) = heap4k_bytes st - span a n) \<or>
    alloc_kheap_4k sz st = Inl Spins_forever \<and> (spin_4k st \<or> find_fit n (heap_holes st) = Some None) \<or>
    alloc_kheap_4k sz st = panic \<and> pfree (heap_holes st) = None \<and> find_fit n (heap_holes st) = Some None"
proof (cases "spin_4k st")
  case True
  then show ?thesis by (simp add: alloc_kheap_4k_def Let_def)
next
  case lock: False
  obtain hs fs where rep: "hl_rep MAX_HEAP_HOLE (heap_holes st) hs fs" "hl_sorted (heap_holes st) hs"
    using inv by (rule heap4k_invE)
  have "small_request sz undefined" using req by (simp add: heap4k_request_def small_request_def)
  note b = align_4k_bounds [OF this, folded n_def]
  have n: "n \<noteq> 0" "al4k n" "n \<le> PAGE_SIZE_LARGE" using b by (simp_all add: al4k_dvd)
  obtain q where q: "find_fit n (heap_holes st) = Some q" using find_fit_rep [OF rep(1)] by blast
  show ?thesis
  proof (cases q)
    case (Some p)
    note fit = find_fit_Some [OF rep(1) q [unfolded Some]]
    from take_from_heap_hole [OF rep fit n(1,2) inv] obtain a L' where
      cv: "carve (\<lambda>rest. rest = 0) n p (heap_holes st) = Inr (a, L')"
      and post: "a \<noteq> 0" "al4k a" "heap4k_inv (st\<lparr>heap_holes := L', spin_4k := False\<rparr>)" "unat a + unat n < 2 ^ 64"
        "span a n \<subseteq> heap4k_bytes st" "heap4k_bytes (st\<lparr>heap_holes := L', spin_4k := False\<rparr>) = heap4k_bytes st - span a n"
      by blast
    have "alloc_kheap_4k sz st = Inr (a, st\<lparr>heap_holes := L', spin_4k := False\<rparr>)"
      using lock q Some cv by (simp add: alloc_kheap_4k_def n_def [symmetric] refill_4k_loop.simps [of n "Some p"])
    moreover have "st\<lparr>heap_holes := L', spin_4k := False\<rparr> = st\<lparr>kmem := kmem st, heap_holes := L', spin_4k := False\<rparr>" by simp
    ultimately show ?thesis using post by metis
  next
    case None
    have step: "alloc_kheap_4k sz st =
        andThen (ending (refill_4k_loop n None (st\<lparr>spin_4k := True\<rparr>))) (\<lambda>r. andThen r (\<lambda>(q, st1).
          case q of None \<Rightarrow> Inr (0, st1)
          | Some i \<Rightarrow> andThen (carve (\<lambda>rest. rest = 0) n i (heap_holes st1)) (\<lambda>(pret, L).
              Inr (pret, st1\<lparr>heap_holes := L, spin_4k := spin_unlock (spin_4k st1)\<rparr>))))"
      using lock q None by (simp add: alloc_kheap_4k_def n_def [symmetric])
    have page: "pm_free (kmem st) \<inter> {..<64 * pmax (kmem st)} \<noteq> {}"
      using req q None by (simp add: heap4k_request_def n_def)
    from refill_4k_loop_run [OF inv n(3) page] show ?thesis
    proof (elim disjE exE conjE)
      assume "refill_4k_loop n None (st\<lparr>spin_4k := True\<rparr>) = Some (Inl Spins_forever)"
      then show ?thesis using step q None by simp
    next
      assume "refill_4k_loop n None (st\<lparr>spin_4k := True\<rparr>) = Some panic" "pfree (heap_holes st) = None"
      then show ?thesis using step q None by simp
    next
      fix p pm L hs fs
      let ?st1 = "st\<lparr>kmem := pm, heap_holes := L, spin_4k := True\<rparr>"
      assume run: "refill_4k_loop n None (st\<lparr>spin_4k := True\<rparr>) = Some (Inr (Some p, ?st1))"
        and r: "hl_rep MAX_HEAP_HOLE L hs fs" "hl_sorted L hs" "p \<in> set hs" "n \<le> h_size (nodes L p)"
        and inv1: "heap4k_inv ?st1" and bytes1: "heap4k_bytes ?st1 = heap4k_bytes st"
      from take_from_heap_hole [of ?st1 hs fs p n] r inv1 n obtain a L' where
        cv: "carve (\<lambda>rest. rest = 0) n p L = Inr (a, L')"
        and post: "a \<noteq> 0" "al4k a" "heap4k_inv (?st1\<lparr>heap_holes := L', spin_4k := False\<rparr>)" "unat a + unat n < 2 ^ 64"
          "span a n \<subseteq> heap4k_bytes ?st1"
          "heap4k_bytes (?st1\<lparr>heap_holes := L', spin_4k := False\<rparr>) = heap4k_bytes ?st1 - span a n" by auto
      have "alloc_kheap_4k sz st = Inr (a, ?st1\<lparr>heap_holes := L', spin_4k := False\<rparr>)" using step run cv by simp
      moreover have "?st1\<lparr>heap_holes := L', spin_4k := False\<rparr> = st\<lparr>kmem := pm, heap_holes := L', spin_4k := False\<rparr>" by simp
      ultimately show ?thesis using post unfolding bytes1 by metis
    qed
  qed
qed

interpretation heap4k: range_allocator heap4k_inv heap4k_bytes alloc_kheap_4k free_kheap_4k heap4k_request align_4k
proof
  fix s s' :: kheap and sz a
  assume inv: "heap4k_inv s" and req: "heap4k_request sz s" and run: "alloc_kheap_4k sz s = Inr (a, s')" and a: "a \<noteq> 0"
  have sr: "small_request sz undefined" using req by (simp add: heap4k_request_def small_request_def)
  have "align_4k sz \<noteq> 0" "align_4k (align_4k sz) = align_4k sz"
    using align_4k_bounds(1,4) [OF sr] by (auto simp: al4k_dvd intro: align_4k_id)
  with alloc_kheap_4k_run [OF inv req] run
  show "heap4k_inv s' \<and> span a (align_4k sz) \<subseteq> heap4k_bytes s \<and> heap4k_bytes s' = heap4k_bytes s - span a (align_4k sz) \<and>
      align_4k sz \<noteq> 0 \<and> align_4k (align_4k sz) = align_4k sz \<and> unat a + unat (align_4k sz) < 2 ^ 64"
    by auto
next
  fix s s' :: kheap and sz
  assume "heap4k_inv s" "heap4k_request sz s" "alloc_kheap_4k sz s = Inr (0, s')"
  from alloc_kheap_4k_run [OF this(1,2)] this(3)
  show "heap4k_inv s' \<and> heap4k_bytes s' = heap4k_bytes s" by auto
qed (rule free_kheap_4k_release)

section \<open>Small blocks\<close>

text \<open>A block \<open>[a, a + sz)\<close> leaves the free bytes, with at most 16 bytes after it.\<close>

definition small_taken :: "ulong \<Rightarrow> ulong \<Rightarrow> nat set \<Rightarrow> nat set \<Rightarrow> bool" where
  "small_taken a sz B B' \<longleftrightarrow> span a sz \<subseteq> B \<and> B' \<subseteq> B - span a sz \<and> B - span a sz - B' \<subseteq> span (a + sz) 16"

lemma take_from_small_hole:
  assumes rep: "hl_rep MAX_SMALL_HOLE (heap_small_holes st) hs fs"
    and p: "p \<in> set hs" "sz \<le> h_size (nodes (heap_small_holes st) p)" and inv: "kheap_inv st"
  shows "\<exists>a L'. carve (\<lambda>rest. rest \<le> 16) sz p (heap_small_holes st) = Inr (a, L') \<and> a \<noteq> 0 \<and>
    kheap_inv (st\<lparr>heap_small_holes := L', spin_small := False\<rparr>) \<and>
    small_taken a sz (kheap_bytes st) (kheap_bytes (st\<lparr>heap_small_holes := L', spin_small := False\<rparr>))"
proof -
  let ?L = "heap_small_holes st" let ?a = "h_addr (nodes ?L p)"
  from carve_small [OF rep p] obtain L' hs' fs' where
    run: "carve (\<lambda>rest. rest \<le> 16) sz p ?L = Inr (?a, L')" and rep': "hl_rep MAX_SMALL_HOLE L' hs' fs'"
    and bytes: "hl_bytes L' \<subseteq> hl_bytes ?L - span ?a sz" "hl_bytes ?L - span ?a sz - hl_bytes L' \<subseteq> span (?a + sz) 16"
    by blast
  let ?st = "st\<lparr>heap_small_holes := L', spin_small := False\<rparr>"
  have parts: "heap4k_inv st" "hl_bytes ?L \<inter> heap4k_bytes st = {}" "0 \<notin> hl_bytes ?L" using inv by (auto simp: kheap_inv_def)
  have "unat sz \<le> unat (h_size (nodes ?L p))" using p(2) by (simp add: word_le_nat_alt)
  then have "span ?a sz \<subseteq> hspan ?L p" by (auto simp: span_def)
  then have sub: "span ?a sz \<subseteq> hl_bytes ?L" using p(1) by (auto simp: hl_bytes_rep [OF rep])
  have "hl_inv MAX_SMALL_HOLE L'" using rep' by (auto simp: hl_inv_def)
  moreover have "hl_bytes L' \<inter> heap4k_bytes st = {}" "0 \<notin> hl_bytes L'" using bytes(1) parts(2,3) by blast+
  ultimately have "kheap_inv ?st" using parts(1) by (simp add: kheap_inv_def)
  moreover have "small_taken ?a sz (kheap_bytes st) (kheap_bytes ?st)"
    using bytes parts(2) sub by (simp add: small_taken_def kheap_bytes_def) blast
  ultimately show ?thesis using run hole_addr_nonzero [OF rep parts(3) p(1)] by blast
qed

text \<open>A 4K block of the 4K heap becomes a hole of the small heap.\<close>

lemma free_kheap_small_run:
  assumes rep: "hl_rep MAX_SMALL_HOLE (heap_small_holes st) hs fs" and lock: "\<not> spin_small st" and al: "al4k a"
    and a: "a \<noteq> 0" "unat a + 4096 < 2 ^ 64" and inv: "kheap_inv st" and disj: "span a 0x1000 \<inter> kheap_bytes st = {}"
  shows "if fs = [] then free_kheap_small a 0x1000 st = panic
    else \<exists>L'. free_kheap_small a 0x1000 st = Inr (st\<lparr>heap_small_holes := L', spin_small := False\<rparr>) \<and>
      hl_rep MAX_SMALL_HOLE L' (hd fs # hs) (tl fs) \<and> h_size (nodes L' (hd fs)) = 0x1000 \<and>
      kheap_inv (st\<lparr>heap_small_holes := L', spin_small := False\<rparr>) \<and>
      kheap_bytes (st\<lparr>heap_small_holes := L', spin_small := False\<rparr>) = kheap_bytes st \<union> span a 0x1000"
proof (cases fs)
  case Nil
  with hl_repD(2) [OF rep] have "pfree (heap_small_holes st) = None" by simp
  with Nil al lock show ?thesis by (simp add: free_kheap_small_def al4k_def)
next
  case (Cons p fs')
  with hl_repD(2) [OF rep] have pf: "pfree (heap_small_holes st) = Some p" by simp
  let ?fill = "\<lambda>m::kheap_t. m\<lparr>h_addr := a, h_origin_size := 0x1000, h_size := 0x1000\<rparr>"
  let ?L = "push_hole ?fill p (heap_small_holes st)" let ?st = "st\<lparr>heap_small_holes := ?L, spin_small := False\<rparr>"
  have sep: "span a 0x1000 \<inter> hl_bytes (heap_small_holes st) = {}" "span a 0x1000 \<inter> heap4k_bytes st = {}"
    using disj by (auto simp: kheap_bytes_def)
  have push: "hl_rep MAX_SMALL_HOLE ?L (p # hs) fs'" "hl_bytes ?L = hl_bytes (heap_small_holes st) \<union> span a 0x1000"
    "h_size (nodes ?L p) = 0x1000"
    using push_rep [OF rep [unfolded Cons], of ?fill a "0x1000"] a(2) sep(1) by simp_all
  have "free_kheap_small a 0x1000 st = Inr ?st"
    using al lock pf by (simp add: free_kheap_small_def al4k_def)
  moreover have "0 \<notin> span a 0x1000" using a(1) by (simp add: span_def unat_eq_0)
  then have "kheap_inv ?st"
    using inv push(1,2) sep by (auto simp: kheap_inv_def hl_inv_def)
  moreover have "kheap_bytes ?st = kheap_bytes st \<union> span a 0x1000"
    by (auto simp: kheap_bytes_def push(2))
  ultimately show ?thesis using push Cons by auto
qed

lemma kheap_inv_step:
  assumes inv: "kheap_inv st" and i4: "heap4k_inv st'" and small: "heap_small_holes st' = heap_small_holes st"
    and sub: "heap4k_bytes st' \<subseteq> heap4k_bytes st"
  shows "kheap_inv st'"
  using assms by (auto simp: kheap_inv_def)

text \<open>One round of the refill loop, when the 4K heap gives a block.\<close>

lemma refill_kheap_small_run:
  assumes inv: "kheap_inv st" and sz: "sz \<le> 0x1000" and req: "heap4k_request 0x1000 st"
  shows "refill_kheap_small_loop sz None (st\<lparr>spin_small := True\<rparr>) = Some (Inl Spins_forever) \<or>
    refill_kheap_small_loop sz None (st\<lparr>spin_small := True\<rparr>) = Some panic \<or>
    (\<exists>p st1 hs fs. refill_kheap_small_loop sz None (st\<lparr>spin_small := True\<rparr>) = Some (Inr (Some p, st1)) \<and>
      hl_rep MAX_SMALL_HOLE (heap_small_holes st1) hs fs \<and> p \<in> set hs \<and>
      sz \<le> h_size (nodes (heap_small_holes st1) p) \<and> kheap_inv st1 \<and> kheap_bytes st1 = kheap_bytes st)"
proof -
  let ?s0 = "st\<lparr>spin_small := False\<rparr>"
  note unf = refill_kheap_small_loop.simps [of sz None]
  have n: "align_4k 0x1000 = 0x1000" by (simp add: align_4k_def)
  have i0: "heap4k_inv ?s0" "heap4k_request 0x1000 ?s0" using inv req by (simp_all add: kheap_inv_def)
  obtain hs fs where rep: "hl_rep MAX_SMALL_HOLE (heap_small_holes st) hs fs" using inv by (auto simp: kheap_inv_def hl_inv_def)
  from alloc_kheap_4k_run [OF i0] show ?thesis unfolding n
  proof (elim disjE exE conjE)
    fix a pm L
    let ?s1 = "?s0\<lparr>kmem := pm, heap_holes := L, spin_4k := False\<rparr>"
    assume run: "alloc_kheap_4k 0x1000 ?s0 = Inr (a, ?s1)" and a: "a \<noteq> 0" "al4k a" and inv1: "heap4k_inv ?s1"
      and fit: "unat a + unat (0x1000::ulong) < 2 ^ 64" and sub: "span a 0x1000 \<subseteq> heap4k_bytes ?s0"
      and bytes: "heap4k_bytes ?s1 = heap4k_bytes ?s0 - span a 0x1000"
    have k1: "kheap_inv ?s1" by (rule kheap_inv_step [OF inv inv1]) (use bytes in auto)
    have sm: "hl_bytes (heap_small_holes st) \<inter> heap4k_bytes st = {}" using inv by (simp add: kheap_inv_def)
    have disj: "span a 0x1000 \<inter> kheap_bytes ?s1 = {}"
      using sub sm bytes by (auto simp: kheap_bytes_def)
    have all: "kheap_bytes ?s1 \<union> span a 0x1000 = kheap_bytes st"
      using sub bytes by (auto simp: kheap_bytes_def)
    have "if fs = [] then free_kheap_small a 0x1000 ?s1 = panic
      else \<exists>L'. free_kheap_small a 0x1000 ?s1 = Inr (?s1\<lparr>heap_small_holes := L', spin_small := False\<rparr>) \<and>
        hl_rep MAX_SMALL_HOLE L' (hd fs # hs) (tl fs) \<and> h_size (nodes L' (hd fs)) = 0x1000 \<and>
        kheap_inv (?s1\<lparr>heap_small_holes := L', spin_small := False\<rparr>) \<and>
        kheap_bytes (?s1\<lparr>heap_small_holes := L', spin_small := False\<rparr>) = kheap_bytes ?s1 \<union> span a 0x1000"
      by (rule free_kheap_small_run) (use rep a fit k1 disj in simp_all)
    then consider (full) "free_kheap_small a 0x1000 ?s1 = panic"
      | (room) L' where "free_kheap_small a 0x1000 ?s1 = Inr (?s1\<lparr>heap_small_holes := L', spin_small := False\<rparr>)"
        "hl_rep MAX_SMALL_HOLE L' (hd fs # hs) (tl fs)" "h_size (nodes L' (hd fs)) = 0x1000"
        "kheap_inv (?s1\<lparr>heap_small_holes := L', spin_small := False\<rparr>)"
        "kheap_bytes (?s1\<lparr>heap_small_holes := L', spin_small := False\<rparr>) = kheap_bytes ?s1 \<union> span a 0x1000"
      by (auto split: if_splits)
    then show ?thesis
    proof cases
      case full
      then have "refill_kheap_small_loop sz None (st\<lparr>spin_small := True\<rparr>) = Some panic"
        using run a(1) by (simp add: unf panic_def)
      then show ?thesis by blast
    next
      case room
      let ?s2 = "?s1\<lparr>heap_small_holes := L', spin_small := True\<rparr>"
      have fit: "find_fit sz L' = Some (Some (hd fs))"
        using sz room(3) by (simp add: find_fit_rep [OF room(2)] not_less)
      have "refill_kheap_small_loop sz None (st\<lparr>spin_small := True\<rparr>) = Some (Inr (Some (hd fs), ?s2))"
        using run a(1) room(1) fit by (simp add: unf refill_kheap_small_loop.simps [of sz "Some (hd fs)"])
      moreover have "kheap_inv ?s2" "kheap_bytes ?s2 = kheap_bytes st"
        using room(4,5) all by (simp_all add: kheap_inv_def kheap_bytes_def)
      ultimately show ?thesis
        using room(2,3) sz by (intro disjI2 exI [of _ "hd fs"] exI [of _ ?s2] exI [of _ "hd fs # hs"] exI [of _ "tl fs"]) simp
    qed
  qed (simp_all add: unf panic_def)
qed

lemma alloc_kheap_small_run:
  assumes inv: "kheap_inv st" and lock: "\<not> spin_small st" and sz: "sz < 0x1000"
    and req: "find_fit sz (heap_small_holes st) \<noteq> Some None \<or> heap4k_request 0x1000 st"
  shows "(\<exists>a st'. alloc_kheap_small sz st = Inr (a, st') \<and> a \<noteq> 0 \<and> kheap_inv st' \<and>
      small_taken a sz (kheap_bytes st) (kheap_bytes st')) \<or>
    (alloc_kheap_small sz st = Inl Spins_forever \<or> alloc_kheap_small sz st = panic) \<and>
      find_fit sz (heap_small_holes st) = Some None"
proof -
  obtain hs fs where rep: "hl_rep MAX_SMALL_HOLE (heap_small_holes st) hs fs" using inv by (auto simp: kheap_inv_def hl_inv_def)
  obtain q where q: "find_fit sz (heap_small_holes st) = Some q" using find_fit_rep [OF rep] by blast
  have step: "alloc_kheap_small sz st =
      andThen (ending (refill_kheap_small_loop sz q (st\<lparr>spin_small := True\<rparr>))) (\<lambda>r. andThen r (\<lambda>(q, st1).
        case q of None \<Rightarrow> Inr (0, st1)
        | Some i \<Rightarrow> andThen (carve (\<lambda>rest. rest \<le> 16) sz i (heap_small_holes st1)) (\<lambda>(pret, L).
            Inr (pret, st1\<lparr>heap_small_holes := L, spin_small := spin_unlock (spin_small st1)\<rparr>))))"
    using sz lock q by (simp add: alloc_kheap_small_def)
  show ?thesis
  proof (cases q)
    case (Some p)
    note fit = find_fit_Some [OF rep q [unfolded Some]]
    from take_from_small_hole [OF rep fit inv] show ?thesis
      using step Some by (auto simp: refill_kheap_small_loop.simps [of sz "Some p"])
  next
    case None
    with req q have req4: "heap4k_request 0x1000 st" by simp
    from refill_kheap_small_run [OF inv less_imp_le [OF sz] req4] show ?thesis
    proof (elim disjE exE conjE)
      fix p st1 hs fs
      assume run: "refill_kheap_small_loop sz None (st\<lparr>spin_small := True\<rparr>) = Some (Inr (Some p, st1))"
        and r: "hl_rep MAX_SMALL_HOLE (heap_small_holes st1) hs fs" "p \<in> set hs"
          "sz \<le> h_size (nodes (heap_small_holes st1) p)" and k: "kheap_inv st1" "kheap_bytes st1 = kheap_bytes st"
      from take_from_small_hole [OF r k(1)] show ?thesis
        using step run None k(2) by auto
    qed (use step None q in simp_all)
  qed
qed

section \<open>Properties\<close>

text \<open>
  A heap on a machine with one free 2M page, and one with a single hole at 4K whose end is the
  start of the next block.
\<close>

definition zero_node :: "ptr \<Rightarrow> kheap_t" where
  "zero_node q = \<lparr>h_addr = 0, h_size = 0, pnext = q, h_origin_size = 0\<rparr>"

definition one_page_heap :: "kheap" where
  "one_page_heap = init_kheap (\<lambda>_. zero_node None) (\<lambda>_. zero_node None) (pmem one_page_phys)"

definition one_hole_heap :: "kheap" where
  "one_hole_heap = one_page_heap\<lparr>heap_holes :=
     \<lparr>nodes = (\<lambda>i. if i = 0 then \<lparr>h_addr = 0x1000, h_size = 0x1000, pnext = None, h_origin_size = 0x1000\<rparr> else zero_node None),
      phead = Some 0, pfree = Some 1\<rparr>\<rparr>"

lemma one_page_heap_sel [simp]:
  "kmem one_page_heap = pmem one_page_phys" "\<not> spin_4k one_page_heap" "\<not> spin_small one_page_heap"
  "hl_bytes (heap_holes one_page_heap) = {}" "hl_bytes (heap_small_holes one_page_heap) = {}"
  "phead (heap_holes one_page_heap) = None" "pfree (heap_holes one_page_heap) = Some 0"
  by (simp_all add: one_page_heap_def init_kheap_def init_spinlock_def init_holes_bytes) (simp_all add: init_holes_def)

lemma one_page_heap_inv: "kheap_inv one_page_heap"
proof -
  have "pm_inv (pmem one_page_phys)" using one_page_phys_inv by (simp add: phys_inv_def)
  moreover have "hl_inv MAX_SMALL_HOLE (heap_small_holes one_page_heap)"
    using init_holes_rep [of MAX_SMALL_HOLE "\<lambda>_. zero_node None"]
    by (auto simp: hl_inv_def one_page_heap_def init_kheap_def)
  moreover have "hl_sorted_inv MAX_HEAP_HOLE (heap_holes one_page_heap)" "hl_al (heap_holes one_page_heap)"
    by (simp_all add: one_page_heap_def init_kheap_def init_holes_sorted_inv init_holes_al zero_node_def)
  ultimately show ?thesis by (simp add: kheap_inv_def heap4k_inv_def)
qed

lemma one_page_heap_request: "sz \<noteq> 0 \<Longrightarrow> sz \<le> PAGE_SIZE_LARGE \<Longrightarrow> heap4k_request sz one_page_heap"
  by (simp add: heap4k_request_def)

lemma one_hole_heap_rep:
  "hl_rep MAX_HEAP_HOLE (heap_holes one_hole_heap) [0] [1]" "hl_sorted (heap_holes one_hole_heap) [0]"
  by (simp_all add: one_hole_heap_def hl_rep_def hl_sorted_def next_of_def zero_node_def)

lemma one_hole_heap_inv: "heap4k_inv one_hole_heap"
proof -
  have bytes: "hl_bytes (heap_holes one_hole_heap) = {4096..<8192}"
    unfolding hl_bytes_rep [OF one_hole_heap_rep(1)] by (simp add: one_hole_heap_def span_def)
  have "pm_inv (pmem one_page_phys)" using one_page_phys_inv by (simp add: phys_inv_def)
  moreover have "vpage_area (pmem one_page_phys) \<inter> {4096..<8192} = {}"
    by (auto simp: vpage_area_def PHYS_VIRT_START_def)
  moreover have "hl_al (heap_holes one_hole_heap)"
    by (simp add: one_hole_heap_def hl_al_def zero_node_def) (simp add: al4k_def)
  moreover have "hl_sorted_inv MAX_HEAP_HOLE (heap_holes one_hole_heap)"
    using one_hole_heap_rep by (auto simp: hl_sorted_inv_def)
  ultimately show ?thesis
    using bytes by (simp add: heap4k_inv_def Int_commute) (simp add: one_hole_heap_def)
qed

text \<open>
  C8: \<open>alloc_kheap_4k\<close>, on a request of at most 2M that a hole or a free 2M page can serve,
  returns a non-zero, 4K-aligned block of free heap memory and takes exactly it out; if it does
  not return, it spins, which needs a held lock or a refill, or it panics with all descriptors in use.
\<close>

theorem alloc_kheap_4k_correct:
  assumes "heap4k_inv st" and "heap4k_request sz st"
  shows "(\<exists>a st'. alloc_kheap_4k sz st = Inr (a, st') \<and> a \<noteq> 0 \<and> al4k a \<and> heap4k_inv st' \<and> \<not> spin_4k st' \<and>
      span a (align_4k sz) \<subseteq> heap4k_bytes st \<and> heap4k_bytes st' = heap4k_bytes st - span a (align_4k sz)) \<or>
    alloc_kheap_4k sz st = Inl Spins_forever \<and>
      (spin_4k st \<or> find_fit (align_4k sz) (heap_holes st) = Some None) \<or>
    alloc_kheap_4k sz st = panic \<and> pfree (heap_holes st) = None"
  using alloc_kheap_4k_run [OF assms] by fastforce

theorem alloc_kheap_4k_correct_witness:
  "\<exists>a st'. alloc_kheap_4k 4000 one_hole_heap = Inr (a, st') \<and> al4k a \<and> span a 0x1000 \<subseteq> heap4k_bytes one_hole_heap"
proof -
  have n: "align_4k 4000 = 0x1000" by (simp add: align_4k_def)
  have fit: "find_fit 0x1000 (heap_holes one_hole_heap) = Some (Some 0)"
    unfolding find_fit_rep [OF one_hole_heap_rep(1)] by (simp add: one_hole_heap_def)
  have "\<not> spin_4k one_hole_heap" "pfree (heap_holes one_hole_heap) \<noteq> None" by (simp_all add: one_hole_heap_def)
  moreover have "heap4k_request 4000 one_hole_heap" using fit by (simp add: heap4k_request_def n)
  ultimately show ?thesis
    using alloc_kheap_4k_correct [OF one_hole_heap_inv, of 4000] fit unfolding n by auto
qed

text \<open>
  C5: In every run of requests to \<open>alloc_kheap_4k\<close> that can be served (of 1 byte to 2M, when a hole is large enough
  or a 2M page can still be had) and releases of blocks in use with \<open>free_kheap_4k\<close>, the blocks in use are pairwise
  disjoint and disjoint from the free bytes, and no byte of the heap is lost. Requests when memory is used up are left out:
  \<open>alloc_kheap_4k_exhausted\<close> shows what they get.
\<close>

theorem kheap_4k_blocks_never_overlap:
  assumes "heap4k_inv s0"
    and "alloc_run alloc_kheap_4k free_kheap_4k heap4k_request align_4k s0 s live"
  shows "apart live \<and> blocks live \<inter> heap4k_bytes s = {} \<and> heap4k_bytes s \<union> blocks live = heap4k_bytes s0"
  using heap4k.run_inv [OF assms] by blast

theorem kheap_4k_blocks_never_overlap_witness:
  "\<exists>a s. alloc_run alloc_kheap_4k free_kheap_4k heap4k_request align_4k one_hole_heap s [(a, align_4k 4096)] \<and>
     heap4k_bytes s \<union> span a (align_4k 4096) = heap4k_bytes one_hole_heap"
proof -
  have n: "align_4k 4096 = 0x1000" by (simp add: align_4k_def)
  have fit: "find_fit 0x1000 (heap_holes one_hole_heap) = Some (Some 0)"
    unfolding find_fit_rep [OF one_hole_heap_rep(1)] by (simp add: one_hole_heap_def)
  have lock: "\<not> spin_4k one_hole_heap" by (simp add: one_hole_heap_def)
  have req: "heap4k_request 4096 one_hole_heap" using fit by (simp add: heap4k_request_def n)
  obtain a s where al: "alloc_kheap_4k 4096 one_hole_heap = Inr (a, s)" "a \<noteq> 0"
    using alloc_kheap_4k_run [OF one_hole_heap_inv req] lock fit unfolding n by auto
  have run: "alloc_run alloc_kheap_4k free_kheap_4k heap4k_request align_4k one_hole_heap s [(a, align_4k 4096)]"
    using alloc_run.start req al by (rule alloc_run.got)
  from kheap_4k_blocks_never_overlap [OF one_hole_heap_inv run] run show ?thesis by auto
qed

text \<open>
  C39: When \<open>free_kheap_4k\<close> merges the block into the hole that ends where it starts, it returns
  with \<open>spin_4k\<close> still taken, and every later request to the 4K heap spins forever.
\<close>

theorem free_kheap_4k_merge_keeps_lock:
  assumes "heap4k_inv st" and "\<not> spin_4k st" and "pfree (heap_holes st) \<noteq> None"
    and "chain (next_of (heap_holes st)) (phead (heap_holes st)) = Some hs" and "i \<in> set hs"
    and "h_addr (nodes (heap_holes st) i) + h_size (nodes (heap_holes st) i) = a"
    and "al4k a" and "al4k sz" and "sz \<noteq> 0" and "unat a + unat sz < 2 ^ 64" and "span a sz \<inter> heap4k_bytes st = {}"
  shows "\<exists>st'. free_kheap_4k a sz st = Inr st' \<and> heap4k_bytes st' = heap4k_bytes st \<union> span a sz \<and>
    (\<forall>n. alloc_kheap_4k n st' = Inl Spins_forever)"
proof -
  obtain hs' fs where rep: "hl_rep MAX_HEAP_HOLE (heap_holes st) hs' fs" and srt: "hl_sorted (heap_holes st) hs'"
    using assms(1) by (rule heap4k_invE)
  have hs: "hs' = hs" using chain_linked [OF hl_repD(1) [OF rep]] assms(4) by simp
  have fs: "fs \<noteq> []" using hl_repD(2) [OF rep] assms(3) by auto
  have sub: "span a sz \<inter> hl_bytes (heap_holes st) = {}" and al: "hl_al (heap_holes st)"
    using assms(1,11) by (auto simp: heap4k_bytes_def heap4k_inv_def)
  from free_kheap_4k_run [OF rep srt assms(2,7,8) al assms(9,10) sub, unfolded if_not_P [OF fs] hs] obtain merged L' where
    run: "free_kheap_4k a sz st = Inr (st\<lparr>heap_holes := L', spin_4k := merged\<rparr>)"
    and m: "merged \<longleftrightarrow> (\<exists>i \<in> set hs. h_addr (nodes (heap_holes st) i) + h_size (nodes (heap_holes st) i) = a)"
    and bytes: "hl_bytes L' = hl_bytes (heap_holes st) \<union> span a sz" by blast
  have "merged" using m assms(5,6) by blast
  have "alloc_kheap_4k n (st\<lparr>heap_holes := L', spin_4k := merged\<rparr>) = Inl Spins_forever" for n
    using \<open>merged\<close> by (simp add: alloc_kheap_4k_def Let_def)
  then show ?thesis using run bytes by (auto simp: heap4k_bytes_def)
qed

theorem free_kheap_4k_merge_keeps_lock_witness:
  "\<exists>st'. free_kheap_4k 0x2000 0x1000 one_hole_heap = Inr st' \<and> (\<forall>n. alloc_kheap_4k n st' = Inl Spins_forever)"
proof -
  let ?L = "heap_holes one_hole_heap"
  have c: "chain (next_of ?L) (phead ?L) = Some [0]" using chain_linked [OF hl_repD(1) [OF one_hole_heap_rep(1)]] .
  have "hl_bytes ?L = {4096..<8192}"
    unfolding hl_bytes_rep [OF one_hole_heap_rep(1)] by (simp add: one_hole_heap_def span_def)
  then have d: "span 0x2000 0x1000 \<inter> heap4k_bytes one_hole_heap = {}"
    by (auto simp: heap4k_bytes_def span_def vpage_area_def PHYS_VIRT_START_def)
  have e: "\<not> spin_4k one_hole_heap" "pfree ?L \<noteq> None" "h_addr (nodes ?L 0) + h_size (nodes ?L 0) = 0x2000"
    by (simp_all add: one_hole_heap_def)
  have f: "al4k 0x2000" "al4k 0x1000" by (simp_all add: al4k_def)
  show ?thesis
    using free_kheap_4k_merge_keeps_lock [OF one_hole_heap_inv e(1,2) c _ e(3) f _ _ d] by auto
qed

text \<open>
  \<open>alloc_kheap_4k\<close> does not report that memory is exhausted: with no hole and no 2M page it
  takes the virtual address of physical page 0 for a new page and returns it.
\<close>

theorem alloc_kheap_4k_exhausted:
  assumes "alloc_phy_page (kmem st) = Inr (0, pm)" and "\<not> spin_4k st"
    and "phead (heap_holes st) = None" and "pfree (heap_holes st) = Some p" and "sz \<noteq> 0" and "sz < PAGE_SIZE_LARGE" and "al4k sz"
  shows "\<exists>st'. alloc_kheap_4k sz st = Inr (P2V 0, st')"
proof -
  have n: "align_4k sz = sz" using assms(7) by (simp add: align_4k_def al4k_def)
  have adj: "find_adjacent PHYS_VIRT_START (heap_holes st) = Some None" and fit: "find_fit sz (heap_holes st) = Some None"
    using assms(3) by (simp_all add: find_adjacent_def find_fit_def walk.simps)
  let ?fill = "\<lambda>m::kheap_t. m\<lparr>h_addr := PHYS_VIRT_START, h_origin_size := PAGE_SIZE_LARGE, h_size := PAGE_SIZE_LARGE\<rparr>"
  let ?L1 = "(heap_holes st)\<lparr>pfree := pnext (nodes (heap_holes st) p), nodes := (nodes (heap_holes st))(p := ?fill (nodes (heap_holes st) p))\<rparr>"
  let ?L = "(set_next p None ?L1)\<lparr>phead := Some p\<rparr>"
  have free: "free_kheap_4k (P2V 0) PAGE_SIZE_LARGE (st\<lparr>kmem := pm, spin_4k := False\<rparr>) =
      Inr (st\<lparr>kmem := pm, heap_holes := ?L, spin_4k := False\<rparr>)"
    using assms(3,4) adj by (simp add: free_kheap_4k_def P2V_def free_holes_def insert_sorted_def PHYS_VIRT_START_def)
  have last: "find_fit_or_last sz ?L = Some (Some p)"
    by (simp add: find_fit_or_last_def walk.simps)
  have "refill_4k_loop sz None (st\<lparr>spin_4k := True\<rparr>) = Some (Inr (Some p, st\<lparr>kmem := pm, heap_holes := ?L, spin_4k := True\<rparr>))"
    using assms(1) free last
    by (simp add: refill_4k_loop.simps [of sz None] refill_4k_loop.simps [of sz "Some p"] P2V_nonzero Let_def)
  then show ?thesis
    using assms(2) less_imp_neq [OF assms(6)] fit by (simp add: alloc_kheap_4k_def n carve_def Let_def P2V_def set_next_def)
qed

text \<open>
  \<open>alloc_kheap_small\<close>, on a request below 4K that a hole or the 4K heap can serve,
  returns a non-zero block of free heap memory, takes it out with at most the 16 bytes that follow,
  and keeps the invariant; if it does not return, no small hole fitted and the refill spun or
  panicked.
\<close>

theorem alloc_kheap_small_correct:
  assumes "kheap_inv st" and "\<not> spin_small st" and "sz < 0x1000"
    and "find_fit sz (heap_small_holes st) \<noteq> Some None \<or> heap4k_request 0x1000 st"
  shows "(\<exists>a st'. alloc_kheap_small sz st = Inr (a, st') \<and> a \<noteq> 0 \<and> kheap_inv st' \<and>
      small_taken a sz (kheap_bytes st) (kheap_bytes st')) \<or>
    (alloc_kheap_small sz st = Inl Spins_forever \<or> alloc_kheap_small sz st = panic) \<and>
      find_fit sz (heap_small_holes st) = Some None"
  using assms by (rule alloc_kheap_small_run)

text \<open>A heap whose small list has one hole of 4K.\<close>

definition small_hole_heap :: "kheap" where
  "small_hole_heap = one_page_heap\<lparr>heap_small_holes := heap_holes one_hole_heap\<rparr>"

lemma small_hole_heap_inv:
  "kheap_inv small_hole_heap" "find_fit 100 (heap_small_holes small_hole_heap) = Some (Some 0)"
proof -
  let ?L = "heap_holes one_hole_heap"
  have rep: "hl_rep MAX_SMALL_HOLE ?L [0] [1]"
    by (simp add: one_hole_heap_def hl_rep_def next_of_def zero_node_def)
  have bytes: "hl_bytes ?L = {4096..<8192}"
    unfolding hl_bytes_rep [OF rep] by (simp add: one_hole_heap_def span_def)
  have "{4096..<8192} \<inter> heap4k_bytes one_page_heap = {}"
    by (auto simp: heap4k_bytes_def vpage_area_def PHYS_VIRT_START_def)
  moreover have "heap4k_inv one_page_heap" using one_page_heap_inv by (simp add: kheap_inv_def)
  ultimately show "kheap_inv small_hole_heap"
    using rep by (auto simp: small_hole_heap_def kheap_inv_def hl_inv_def bytes)
  show "find_fit 100 (heap_small_holes small_hole_heap) = Some (Some 0)"
    unfolding small_hole_heap_def by (simp add: find_fit_rep [OF rep]) (simp add: one_hole_heap_def)
qed

theorem alloc_kheap_small_correct_witness:
  "\<exists>a st'. alloc_kheap_small 100 small_hole_heap = Inr (a, st') \<and> a \<noteq> 0 \<and>
     small_taken a 100 (kheap_bytes small_hole_heap) (kheap_bytes st')"
proof -
  have "\<not> spin_small small_hole_heap" by (simp add: small_hole_heap_def)
  then show ?thesis
    using alloc_kheap_small_correct [OF small_hole_heap_inv(1), of 100] small_hole_heap_inv(2) by auto
qed

text \<open>A heap whose machine has no free page left.\<close>

definition exhausted_heap :: "kheap" where
  "exhausted_heap = one_page_heap\<lparr>kmem := init_phy_mem 0x10000000 0x10000000 0\<rparr>"

theorem alloc_kheap_4k_exhausted_witness:
  "\<exists>st'. alloc_kheap_4k 0x1000 exhausted_heap = Inr (0xFFFF820000000000, st')"
proof -
  have "alloc_phy_page (kmem exhausted_heap) = Inr (0, kmem exhausted_heap)"
    by (simp add: alloc_phy_page_def alloc_phy_page_loop.simps exhausted_heap_def) (simp add: init_phy_mem_def Let_def)
  from alloc_kheap_4k_exhausted [OF this, of 0 "0x1000"] show ?thesis
    by (simp add: exhausted_heap_def P2V_def PHYS_VIRT_START_def al4k_def)
qed

end
