(* ===== verification/Pgtable.thy ===== *)
theory Pgtable
  imports Phy_page
begin

text \<open>
  The page tables, \<open>arch/x86_64/pgtable.c\<close>. Physical memory is seen as pages of 512
  entries of 64 bits: \<open>mem st p i\<close> is entry \<open>i\<close> of the page at physical address
  \<open>p\<close>. The code reaches a table through the direct map, so a pointer to a table is
  \<open>P2V\<close> of its physical address, and a pointer to an entry is the table and the index. The
  top level table \<open>pml4\<close> is a static array; its physical address is a field of the state.
  \<open>flush_tlb_one_page\<close> is recorded in a log.
\<close>

section \<open>Model\<close>

record pgt =
  physm :: phys
  pml4_pa :: ulong
  mem :: "ulong \<Rightarrow> nat \<Rightarrow> ulong"
  tlb_flushed :: "ulong list"

abbreviation NUMBER_1G :: ulong where "NUMBER_1G \<equiv> 0x40000000"
abbreviation PAGE_2M_MASK :: ulong where "PAGE_2M_MASK \<equiv> 0x1fffff"
abbreviation (input) PTE_G :: ulong where "PTE_G \<equiv> 0x100"

abbreviation (input) OK :: int where "OK \<equiv> 0"
abbreviation (input) ENOMEM :: int where "ENOMEM \<equiv> 12"
abbreviation (input) EINVAL :: int where "EINVAL \<equiv> 22"

definition pml4_index :: "ulong \<Rightarrow> nat" where "pml4_index a = unat (drop_bit 39 a AND 511)"
definition pdp_index :: "ulong \<Rightarrow> nat" where "pdp_index a = unat (drop_bit 30 a AND 511)"
definition pd_index :: "ulong \<Rightarrow> nat" where "pd_index a = unat (drop_bit 21 a AND 511)"
definition pt_index :: "ulong \<Rightarrow> nat" where "pt_index a = unat (drop_bit 12 a AND 511)"

definition base :: "ulong \<Rightarrow> ulong" where "base e = e AND NOT 0xfff"

definition set_entry :: "ulong \<Rightarrow> nat \<Rightarrow> ulong \<Rightarrow> pgt \<Rightarrow> pgt" where
  "set_entry t i e st = st\<lparr>mem := (mem st)(t := (mem st t)(i := e))\<rparr>"

definition memset_page :: "ulong \<Rightarrow> pgt \<Rightarrow> pgt" where
  "memset_page t st = st\<lparr>mem := (mem st)(t := (\<lambda>_. 0))\<rparr>"

definition flush_tlb_one_page :: "ulong \<Rightarrow> pgt \<Rightarrow> pgt" where
  "flush_tlb_one_page v st = st\<lparr>tlb_flushed := v # tlb_flushed st\<rparr>"

text \<open>
  \<open>p = P2V(alloc_phy_page_small(4096)); ASSERT((p & 0xfff) == 0); if (!p) return ...;\<close>
  and \<open>V2P(p)\<close>, the physical address of the new table.
\<close>

definition new_table :: "pgt \<Rightarrow> (ulong option \<times> pgt) outcome" where
  "new_table st =
     andThen (alloc_phy_page_small 4096 (physm st)) (\<lambda>(x, ph).
     let p = P2V x; st1 = st\<lparr>physm := ph\<rparr> in
     andThen (ASSERT (p AND 0xfff = 0)) (\<lambda>_.
     if p = 0 then Inr (None, st1)
     else andThen (V2P p) (\<lambda>t. Inr (Some t, st1))))"

text \<open>
  The table that entry \<open>i\<close> of table \<open>t\<close> points to; if the entry has no address, a new
  table is allocated, cleared and entered with \<open>flags\<close>.
\<close>

definition ensure_table :: "ulong \<Rightarrow> ulong \<Rightarrow> nat \<Rightarrow> pgt \<Rightarrow> (ulong option \<times> pgt) outcome" where
  "ensure_table flags t i st =
     (if base (mem st t i) = 0 then
        andThen (new_table st) (\<lambda>(q, st1).
        case q of
          None \<Rightarrow> Inr (None, st1)
        | Some x \<Rightarrow> Inr (Some x, set_entry t i (x OR flags) (memset_page x st1)))
      else Inr (Some (base (mem st t i)), st))"

text \<open>
  \<open>build_pte_with_addr\<close> and \<open>get_pte_with_addr\<close> return a pointer to an entry of a page
  directory, or NULL.
\<close>

definition build_pte_with_addr :: "ulong \<Rightarrow> pgt \<Rightarrow> ((ulong \<times> nat) option \<times> pgt) outcome" where
  "build_pte_with_addr addr st =
     andThen (ensure_table (PTE_P OR PTE_W) (pml4_pa st) (pml4_index addr) st) (\<lambda>(q, st1).
     case q of
       None \<Rightarrow> Inr (None, st1)
     | Some pdp \<Rightarrow>
         andThen (ensure_table (PTE_P OR PTE_W) pdp (pdp_index addr) st1) (\<lambda>(q, st2).
         case q of
           None \<Rightarrow> Inr (None, st2)
         | Some pd \<Rightarrow> Inr (Some (pd, pd_index addr), st2)))"

definition get_pte_with_addr :: "ulong \<Rightarrow> pgt \<Rightarrow> (ulong \<times> nat) option" where
  "get_pte_with_addr addr st =
     (let pdp = base (mem st (pml4_pa st) (pml4_index addr)) in
      if pdp = 0 then None
      else let pd = base (mem st pdp (pdp_index addr)) in
        if pd = 0 then None else Some (pd, pd_index addr))"

definition map_1g_page_p2v :: "ulong \<Rightarrow> ulong \<Rightarrow> ulong \<Rightarrow> pgt \<Rightarrow> (int \<times> pgt) outcome" where
  "map_1g_page_p2v paddr vaddr flag st =
     andThen (ASSERT (vaddr AND (NUMBER_1G - 1) = 0)) (\<lambda>_.
     andThen (ASSERT (paddr AND 0xfff = 0)) (\<lambda>_.
     andThen (ASSERT (flag AND NOT 0xfff = 0)) (\<lambda>_.
     andThen (ensure_table (PTE_P OR PTE_W OR PTE_U) (pml4_pa st) (pml4_index vaddr) st) (\<lambda>(q, st1).
     case q of
       None \<Rightarrow> Inr (ENOMEM, st1)
     | Some pdp \<Rightarrow> Inr (OK, set_entry pdp (pdp_index vaddr) (paddr OR flag) st1)))))"

definition PTE_FLAGS :: ulong where
  "PTE_FLAGS = PTE_PWT OR PTE_PCD OR PTE_U OR PTE_W OR PTE_P OR PTE_PS OR PTE_G"

definition map_flags_at :: "ulong \<Rightarrow> pgt \<Rightarrow> ulong" where
  "map_flags_at vaddr st =
     (case get_pte_with_addr (vaddr AND NOT PAGE_2M_MASK) st of
        None \<Rightarrow> 0
      | Some (pd, k) \<Rightarrow>
          let e = mem st pd k in
          if e AND PTE_PS \<noteq> 0 then e AND PTE_FLAGS
          else mem st (base e) (pt_index vaddr) AND PTE_FLAGS)"

text \<open>The result is \<open>ret.v\<close> and \<open>ret.e\<close>.\<close>

definition map_paddr_flags_at :: "ulong \<Rightarrow> pgt \<Rightarrow> ulong \<times> ulong" where
  "map_paddr_flags_at vaddr st =
     (case get_pte_with_addr (vaddr AND NOT PAGE_2M_MASK) st of
        None \<Rightarrow> (0, 0)
      | Some (pd, k) \<Rightarrow>
          let e = mem st pd k in
          if e AND (PTE_PS OR PTE_P) = (PTE_PS OR PTE_P)
          then (base e + (vaddr AND PAGE_2M_MASK), e AND PTE_FLAGS)
          else let f = mem st (base e) (pt_index vaddr) in
            (base f + (vaddr AND 0xfff), f AND PTE_FLAGS))"

definition get_phy_addr :: "ulong \<Rightarrow> pgt \<Rightarrow> ulong" where
  "get_phy_addr vaddr st = fst (map_paddr_flags_at vaddr st)"

text \<open>\<open>for (n = 0; n < cnt; n++) \<open>{\<close> t[n] = old | flag; old += step; \<open>}\<close>\<close>\<close>

primrec fill_entries :: "nat \<Rightarrow> ulong \<Rightarrow> ulong \<Rightarrow> ulong \<Rightarrow> ulong \<Rightarrow> pgt \<Rightarrow> ulong \<times> pgt" where
  "fill_entries 0 t old flag step st = (old, st)"
| "fill_entries (Suc n) t old flag step st =
     (case fill_entries n t old flag step st of
        (o1, st1) \<Rightarrow> (o1 + step, set_entry t n (o1 OR flag) st1))"

text \<open>
  The table of 4K pages behind entry \<open>k\<close> of page directory \<open>pd\<close>: a 2M page is split
  first, an empty entry gets a new table (which is not cleared).
\<close>

definition pte_table :: "ulong \<Rightarrow> nat \<Rightarrow> pgt \<Rightarrow> (ulong option \<times> pgt) outcome" where
  "pte_table pd k st =
     (let e = mem st pd k in
      if e AND (PTE_PS OR PTE_P) = (PTE_PS OR PTE_P) then
        andThen (new_table st) (\<lambda>(q, st1).
        case q of
          None \<Rightarrow> Inr (None, st1)
        | Some x \<Rightarrow>
            Inr (Some x, set_entry pd k (x OR (PTE_P OR PTE_W))
              (snd (fill_entries 512 x (base e) (PTE_P OR PTE_W OR PTE_G) PAGE_4K_SIZE st1))))
      else if e AND PTE_P = 0 then
        andThen (ASSERT (base e = 0)) (\<lambda>_.
        andThen (alloc_phy_page_small 4096 (physm st)) (\<lambda>(x, ph).
        let st1 = set_entry pd k x (st\<lparr>physm := ph\<rparr>) in
        andThen (ASSERT (x AND 0xfff = 0)) (\<lambda>_.
        if x = 0 then Inr (None, st1)
        else Inr (Some (base x), set_entry pd k (x OR (PTE_W OR PTE_P)) st1))))
      else Inr (Some (base e), st))"

definition map_4k_page_p2v :: "ulong \<Rightarrow> ulong \<Rightarrow> ulong \<Rightarrow> pgt \<Rightarrow> (int \<times> pgt) outcome" where
  "map_4k_page_p2v paddr vaddr flag st =
     andThen (ASSERT (paddr AND 0xfff = 0)) (\<lambda>_.
     andThen (ASSERT (vaddr AND 0xfff = 0)) (\<lambda>_.
     andThen (ASSERT (flag AND NOT 0xfff = 0)) (\<lambda>_.
     andThen (build_pte_with_addr (vaddr AND NOT PAGE_2M_MASK) st) (\<lambda>(q, st1).
     case q of
       None \<Rightarrow> Inr (ENOMEM, st1)
     | Some (pd, k) \<Rightarrow>
         andThen (pte_table pd k st1) (\<lambda>(q, st2).
         case q of
           None \<Rightarrow> Inr (ENOMEM, st2)
         | Some p \<Rightarrow>
             Inr (OK, flush_tlb_one_page vaddr
               (set_entry p (pt_index vaddr) (paddr OR (flag AND NOT PTE_PS) OR PTE_G) st2)))))))"

text \<open>The page directory for \<open>map_page_p2v\<close>: a 1G page is split into 2M pages.\<close>

definition ensure_pd :: "ulong \<Rightarrow> nat \<Rightarrow> pgt \<Rightarrow> (ulong option \<times> pgt) outcome" where
  "ensure_pd pdp j st =
     (let e = mem st pdp j in
      if e = 0 then
        andThen (new_table st) (\<lambda>(q, st1).
        case q of
          None \<Rightarrow> Inr (None, st1)
        | Some x \<Rightarrow> Inr (Some x, set_entry pdp j (x OR (PTE_P OR PTE_W OR PTE_U)) (memset_page x st1)))
      else if e AND PTE_PS \<noteq> 0 then
        andThen (new_table st) (\<lambda>(q, st1).
        case q of
          None \<Rightarrow> Inr (None, st1)
        | Some x \<Rightarrow>
            Inr (Some x, set_entry pdp j (x OR (PTE_P OR PTE_W OR PTE_U))
              (snd (fill_entries 512 x (base e) (e AND 0xfff) PAGE_SIZE_LARGE st1))))
      else Inr (Some (base e), st))"

definition map_page_p2v :: "ulong \<Rightarrow> ulong \<Rightarrow> ulong \<Rightarrow> pgt \<Rightarrow> (int \<times> pgt) outcome" where
  "map_page_p2v paddr vaddr flag st =
     andThen (ASSERT (vaddr AND (PAGE_SIZE_LARGE - 1) = 0)) (\<lambda>_.
     andThen (ASSERT (paddr AND (PAGE_SIZE_LARGE - 1) = 0)) (\<lambda>_.
     andThen (ASSERT (flag AND NOT 0xfff = 0)) (\<lambda>_.
     andThen (ensure_table (PTE_P OR PTE_W OR PTE_U) (pml4_pa st) (pml4_index vaddr) st) (\<lambda>(q, st1).
     case q of
       None \<Rightarrow> Inr (ENOMEM, st1)
     | Some pdp \<Rightarrow>
         andThen (ensure_pd pdp (pdp_index vaddr) st1) (\<lambda>(q, st2).
         case q of
           None \<Rightarrow> Inr (ENOMEM, st2)
         | Some pd \<Rightarrow>
             Inr (OK, flush_tlb_one_page vaddr (set_entry pd (pd_index vaddr) (paddr OR flag) st2)))))))"

text \<open>
  A loop of \<open>map_p2v\<close>: one page of \<open>step\<close> bytes after the other while
  \<open>going len\<close>. The result is the status, \<open>paddr\<close>, \<open>vaddr\<close>, \<open>len\<close> and the state.
\<close>

partial_function (option) map_loop ::
  "(ulong \<Rightarrow> ulong \<Rightarrow> pgt \<Rightarrow> (int \<times> pgt) outcome) \<Rightarrow> ulong \<Rightarrow> (ulong \<Rightarrow> bool) \<Rightarrow>
   ulong \<Rightarrow> ulong \<Rightarrow> ulong \<Rightarrow> pgt \<Rightarrow> (int \<times> ulong \<times> ulong \<times> ulong \<times> pgt) outcome option" where
  "map_loop mapper step going paddr vaddr len st =
     (if going len then
        (case mapper paddr vaddr st of
           Inl e \<Rightarrow> Some (Inl e)
         | Inr (ret, st1) \<Rightarrow>
             if ret \<noteq> OK then Some (Inr (ret, paddr, vaddr, len, st1))
             else map_loop mapper step going (paddr + step) (vaddr + step) (len + step) st1)
      else Some (Inr (OK, paddr, vaddr, len, st)))"

declare map_loop.simps [code]

definition map_p2v :: "ulong \<Rightarrow> ulong \<Rightarrow> ulong \<Rightarrow> ulong \<Rightarrow> pgt \<Rightarrow> (int \<times> pgt) outcome" where
  "map_p2v paddr vaddr sz flag st =
     (let small = (\<lambda>p v. map_4k_page_p2v p v flag); large = (\<lambda>p v. map_page_p2v p v flag);
          gap = PAGE_SIZE_LARGE - (vaddr AND PAGE_2M_MASK); head = (if sz > gap then gap else sz) in
      andThen (if vaddr AND PAGE_2M_MASK \<noteq> 0
               then andThen (ending (map_loop small PAGE_4K_SIZE (\<lambda>len. len < head) paddr vaddr 0 st)) (\<lambda>r. r)
               else Inr (OK, paddr, vaddr, 0, st)) (\<lambda>(ret, p1, v1, len1, st1).
      if ret \<noteq> OK then Inr (ret, st1)
      else
      andThen (if sz - len1 \<ge> PAGE_SIZE_LARGE
               then andThen (ending (map_loop large PAGE_SIZE_LARGE (\<lambda>len. len \<le> sz - PAGE_SIZE_LARGE) p1 v1 len1 st1)) (\<lambda>r. r)
               else Inr (OK, p1, v1, len1, st1)) (\<lambda>(ret, p2, v2, len2, st2).
      if ret \<noteq> OK then Inr (ret, st2)
      else
      andThen (andThen (ending (map_loop small PAGE_4K_SIZE (\<lambda>len. len < sz) p2 v2 len2 st2)) (\<lambda>r. r))
        (\<lambda>(ret, p3, v3, len3, st3). Inr (ret, st3)))))"

text \<open>The 4K loop of \<open>unmap_free_at_impl\<close>: it ends at \<open>size\<close> or at the end of the table.\<close>

function unmap_4k_loop :: "ulong \<Rightarrow> nat \<Rightarrow> ulong \<Rightarrow> ulong \<Rightarrow> ulong \<Rightarrow> bool \<Rightarrow> pgt \<Rightarrow> (ulong \<times> pgt) outcome" where
  "unmap_4k_loop t k len sz vaddr isfree st =
     (if k < 512 \<and> len < sz then
        (let paddr = base (mem st t k) in
         if paddr = 0 then panic
         else andThen (if isfree then andThen (free_phy_page_small paddr PAGE_4K_SIZE (physm st)) (\<lambda>ph. Inr (st\<lparr>physm := ph\<rparr>))
                       else Inr st) (\<lambda>st1.
           unmap_4k_loop t (Suc k) (len + PAGE_4K_SIZE) sz vaddr isfree
             (set_entry t k 0 (flush_tlb_one_page (vaddr + len) st1))))
      else Inr (len, st))"
  by pat_completeness auto
termination
  by (relation "measure (\<lambda>(t, k, _). 512 - k)") auto

declare unmap_4k_loop.simps [simp del]

partial_function (option) unmap_free_at_impl :: "ulong \<Rightarrow> ulong \<Rightarrow> bool \<Rightarrow> pgt \<Rightarrow> pgt outcome option" where
  "unmap_free_at_impl vaddr sz isfree st =
     (if sz = 0 then Some (Inr st)
      else case get_pte_with_addr (vaddr AND NOT PAGE_2M_MASK) st of
        None \<Rightarrow> Some panic
      | Some (pd, k) \<Rightarrow>
          let e = mem st pd k in
          if e = 0 then Some panic
          else if e AND (PTE_PS OR PTE_P) = (PTE_PS OR PTE_P) \<and> vaddr AND NOT PAGE_2M_MASK = vaddr \<and> PAGE_SIZE_LARGE \<le> sz then
            (case (if isfree then andThen (free_phy_one_page (e AND NOT PAGE_2M_MASK) (pmem (physm st)))
                                    (\<lambda>pm. Inr (st\<lparr>physm := (physm st)\<lparr>pmem := pm\<rparr>\<rparr>))
                   else Inr st) of
               Inl f \<Rightarrow> Some (Inl f)
             | Inr st1 \<Rightarrow>
                 unmap_free_at_impl (vaddr + PAGE_SIZE_LARGE) (sz - PAGE_SIZE_LARGE) isfree
                   (flush_tlb_one_page vaddr (set_entry pd k 0 st1)))
          else
            (case (if e AND (PTE_PS OR PTE_P) = (PTE_PS OR PTE_P) then
                     andThen (new_table st) (\<lambda>(q, st1).
                     case q of
                       None \<Rightarrow> Inr (None, st1)
                     | Some x \<Rightarrow>
                         Inr (Some x, set_entry pd k (x OR (PTE_P OR PTE_W OR PTE_U))
                           (snd (fill_entries 512 x (base e) (e AND 0xfff AND NOT PTE_PS) PAGE_4K_SIZE st1))))
                   else Inr (Some (base e), st)) of
               Inl f \<Rightarrow> Some (Inl f)
             | Inr (q, st2) \<Rightarrow>
                 (case q of
                    None \<Rightarrow> Some (Inr st2)
                  | Some t \<Rightarrow>
                      (case unmap_4k_loop t (pt_index vaddr) 0 sz vaddr isfree st2 of
                         Inl f \<Rightarrow> Some (Inl f)
                       | Inr (len, st3) \<Rightarrow>
                           if len < sz then unmap_free_at_impl (vaddr + len) (sz - len) isfree st3
                           else Some (Inr st3)))))"

declare unmap_free_at_impl.simps [code]

definition unmap_at :: "ulong \<Rightarrow> ulong \<Rightarrow> pgt \<Rightarrow> pgt outcome" where
  "unmap_at addr sz st = andThen (ending (unmap_free_at_impl addr sz False st)) (\<lambda>r. r)"

definition unmap_free_at :: "ulong \<Rightarrow> ulong \<Rightarrow> pgt \<Rightarrow> pgt outcome" where
  "unmap_free_at addr sz st = andThen (ending (unmap_free_at_impl addr sz True st)) (\<lambda>r. r)"

text \<open>
  A loop of \<open>map_alloc_at\<close>: a page is allocated and mapped while \<open>going len\<close>; the result is
  the status, \<open>mapvaddr\<close>, \<open>len\<close> and the state.
\<close>

partial_function (option) alloc_map_loop ::
  "(pgt \<Rightarrow> (ulong \<times> pgt) outcome) \<Rightarrow> (ulong \<Rightarrow> ulong \<Rightarrow> pgt \<Rightarrow> (int \<times> pgt) outcome) \<Rightarrow> ulong \<Rightarrow> (ulong \<Rightarrow> bool) \<Rightarrow>
   ulong \<Rightarrow> ulong \<Rightarrow> pgt \<Rightarrow> (int \<times> ulong \<times> ulong \<times> pgt) outcome option" where
  "alloc_map_loop alloc mapper step going mapvaddr len st =
     (if going len then
        (case andThen (alloc st) (\<lambda>(paddr, st1).
                if paddr = 0 then Inr (ENOMEM, st1) else mapper paddr mapvaddr st1) of
           Inl e \<Rightarrow> Some (Inl e)
         | Inr (ret, st2) \<Rightarrow>
             if ret \<noteq> OK then Some (Inr (ret, mapvaddr, len, st2))
             else alloc_map_loop alloc mapper step going (mapvaddr + step) (len + step) st2)
      else Some (Inr (OK, mapvaddr, len, st)))"

declare alloc_map_loop.simps [code]

definition alloc_low_4k :: "pgt \<Rightarrow> (ulong \<times> pgt) outcome" where
  "alloc_low_4k st = andThen (alloc_phy_page_small 4096 (physm st)) (\<lambda>(x, ph).
     andThen (ASSERT (x < 0x200000)) (\<lambda>_. Inr (x, st\<lparr>physm := ph\<rparr>)))"

definition alloc_4k :: "pgt \<Rightarrow> (ulong \<times> pgt) outcome" where
  "alloc_4k st = andThen (alloc_phy_page_small PAGE_4K_SIZE (physm st)) (\<lambda>(x, ph). Inr (x, st\<lparr>physm := ph\<rparr>))"

definition alloc_2m :: "pgt \<Rightarrow> (ulong \<times> pgt) outcome" where
  "alloc_2m st = andThen (alloc_phy_page (pmem (physm st))) (\<lambda>(x, pm).
     Inr (x, st\<lparr>physm := (physm st)\<lparr>pmem := pm\<rparr>\<rparr>))"

definition map_alloc_at :: "ulong \<Rightarrow> ulong \<Rightarrow> ulong \<Rightarrow> pgt \<Rightarrow> (int \<times> pgt) outcome" where
  "map_alloc_at vaddr sz flag st =
     (let small = (\<lambda>p v. map_4k_page_p2v p v flag); large = (\<lambda>p v. map_page_p2v p v flag);
          gap = PAGE_SIZE_LARGE - (vaddr AND PAGE_2M_MASK); head = (if sz > gap then gap else sz);
          freeat = (\<lambda>ret len s. if len > 0 then andThen (unmap_free_at vaddr len s) (\<lambda>s1. Inr (ret, s1)) else Inr (ret, s)) in
      andThen (if vaddr AND PAGE_2M_MASK \<noteq> 0
               then andThen (ending (alloc_map_loop alloc_low_4k small PAGE_4K_SIZE (\<lambda>len. len < head) vaddr 0 st)) (\<lambda>r. r)
               else Inr (OK, vaddr, 0, st)) (\<lambda>(ret, v1, len1, st1).
      if ret \<noteq> OK then freeat ret len1 st1
      else
      andThen (if sz - len1 \<ge> PAGE_SIZE_LARGE
               then andThen (ending (alloc_map_loop alloc_2m large PAGE_SIZE_LARGE (\<lambda>len. len \<le> sz - PAGE_SIZE_LARGE) v1 len1 st1)) (\<lambda>r. r)
               else Inr (OK, v1, len1, st1)) (\<lambda>(ret, v2, len2, st2).
      if ret \<noteq> OK then freeat ret len2 st2
      else
      andThen (andThen (ending (alloc_map_loop alloc_4k small PAGE_4K_SIZE (\<lambda>len. len < sz) v2 len2 st2)) (\<lambda>r. r))
        (\<lambda>(ret, v3, len3, st3).
         if ret \<noteq> OK then freeat ret len3 st3 else Inr (OK, st3)))))"

partial_function (option) map_copy_loop :: "ulong \<Rightarrow> ulong \<Rightarrow> ulong \<Rightarrow> pgt \<Rightarrow> (int \<times> pgt) outcome option" where
  "map_copy_loop vaddr oldaddr vend st =
     (if oldaddr < vend then
        (case map_paddr_flags_at oldaddr st of
           (paddr, flag) \<Rightarrow>
             if paddr = 0 then Some (Inr (EINVAL, st))
             else (case map_4k_page_p2v paddr vaddr flag st of
                     Inl e \<Rightarrow> Some (Inl e)
                   | Inr (ret, st1) \<Rightarrow>
                       if ret \<noteq> OK then Some (Inr (ENOMEM, st1))
                       else map_copy_loop (vaddr + PAGE_4K_SIZE) (oldaddr + PAGE_4K_SIZE) vend st1))
      else Some (Inr (OK, st)))"

declare map_copy_loop.simps [code]

definition map_copy_map :: "ulong \<Rightarrow> ulong \<Rightarrow> ulong \<Rightarrow> pgt \<Rightarrow> (int \<times> pgt) outcome" where
  "map_copy_map vaddr oldaddr sz st =
     (if sz = 0 then Inr (OK, st)
      else andThen (ending (map_copy_loop vaddr oldaddr (oldaddr + sz) st)) (\<lambda>r. r))"

text \<open>The status of \<open>map_page_p2v\<close> is not looked at.\<close>

partial_function (option) ioremap_loop :: "ulong \<Rightarrow> ulong \<Rightarrow> ulong \<Rightarrow> pgt \<Rightarrow> pgt outcome option" where
  "ioremap_loop added sz paddr st =
     (if added \<le> sz then
        (case map_page_p2v paddr (paddr + IO_MEM_BASE) (PTE_P OR PTE_W OR PTE_PWT OR PTE_PCD OR PTE_PS) st of
           Inl e \<Rightarrow> Some (Inl e)
         | Inr (ret, st1) \<Rightarrow> ioremap_loop (added + PAGE_SIZE_LARGE) sz (paddr + PAGE_SIZE_LARGE) st1)
      else Some (Inr st))"

declare ioremap_loop.simps [code]

definition ioremap_nocache :: "ulong \<Rightarrow> ulong \<Rightarrow> pgt \<Rightarrow> (ulong \<times> pgt) outcome" where
  "ioremap_nocache addr sz st =
     (let paddr = addr AND NOT (PAGE_SIZE_LARGE - 1) in
      andThen (andThen (ending (ioremap_loop 0 (sz + (addr - paddr)) paddr st)) (\<lambda>r. r))
        (\<lambda>st1. Inr (addr + IO_MEM_BASE, st1)))"

section \<open>Address translation\<close>

text \<open>What the processor does with the tables: present entries, 1G, 2M and 4K pages.\<close>

definition present :: "ulong \<Rightarrow> bool" where "present e \<longleftrightarrow> e AND PTE_P \<noteq> 0"
definition huge :: "ulong \<Rightarrow> bool" where "huge e \<longleftrightarrow> e AND PTE_PS \<noteq> 0"

definition translate :: "pgt \<Rightarrow> ulong \<Rightarrow> ulong option" where
  "translate st v =
     (let e4 = mem st (pml4_pa st) (pml4_index v); e3 = mem st (base e4) (pdp_index v);
          e2 = mem st (base e3) (pd_index v); e1 = mem st (base e2) (pt_index v) in
      if \<not> present e4 \<or> huge e4 then None
      else if \<not> present e3 then None
      else if huge e3 then Some (base e3 + (v AND 0x3fffffff))
      else if \<not> present e2 then None
      else if huge e2 then Some (base e2 + (v AND PAGE_2M_MASK))
      else if \<not> present e1 then None
      else Some (base e1 + (v AND 0xfff)))"

end
