(* ===== verification/Pgtable_Correct.thy ===== *)
theory Pgtable_Correct
  imports Pgtable
begin

text \<open>
  Correctness of the page tables: the tables form a tree of distinct pages outside free memory,
  the mapping functions keep it, and the processor's translation changes for the mapped page and for
  no other address.
\<close>

section \<open>Entries\<close>

lemma base_or:
  assumes "al4k x" "f AND NOT 0xfff = 0" shows "base (x OR f) = x"
proof (rule bit_word_eqI)
  fix n assume n: "n < LENGTH(64)"
  have lo: "\<not> bit x n" if "n < 12"
    using assms(1) that unfolding aligned_def by (metis bit_take_bit_iff bit_0_eq bot_apply bot_bool_def)
  have hi: "\<not> bit f n" if "\<not> n < 12"
  proof -
    have "bit (f AND NOT 0xfff) n \<longleftrightarrow> bit f n \<and> \<not> bit (mask 12 :: ulong) n"
      using n by (simp add: bit_simps mask_eq_exp_minus_1)
    with assms(2) that show ?thesis by (simp add: bit_mask_iff)
  qed
  have "bit (0xfff :: ulong) n \<longleftrightarrow> n < 12"
    using bit_mask_iff [of 12 n, where 'a = "64 word"] n by (simp add: mask_eq_exp_minus_1)
  then show "bit (base (x OR f)) n = bit x n"
    using lo hi n unfolding base_def by (auto simp: bit_simps)
qed

lemma al4k_base [simp]: "al4k (base e)"
  using unat_and_not_mask [of e 12] by (simp add: base_def al4k_dvd minus_mod_eq_div_mult)

lemma low_bit_or:
  assumes "al4k x" "b AND NOT 0xfff = 0" shows "(x OR f) AND b = f AND b"
proof -
  have "x AND b = 0"
  proof (rule bit_word_eqI)
    fix n assume n: "n < LENGTH(64)"
    have "\<not> bit x n" if "n < 12"
      using assms(1) that unfolding aligned_def by (metis bit_take_bit_iff bit_0_eq bot_apply bot_bool_def)
    moreover have "\<not> bit b n" if "\<not> n < 12"
    proof -
      have "bit (b AND NOT 0xfff) n \<longleftrightarrow> bit b n \<and> \<not> bit (mask 12 :: ulong) n"
        using n by (simp add: bit_simps mask_eq_exp_minus_1)
      with assms(2) that show ?thesis by (simp add: bit_mask_iff)
    qed
    ultimately show "bit (x AND b) n = bit (0::ulong) n" by (auto simp: bit_simps)
  qed
  then show ?thesis by (simp add: bit.conj_disj_distrib2)
qed

lemma base_2m: "al2m v \<Longrightarrow> v AND NOT 0x1fffff = v"
proof -
  assume "al2m v"
  then have "unat v mod 2 ^ 21 = 0" by (simp add: al2m_dvd)
  then have "unat (v AND NOT (2 ^ 21 - 1)) = unat v" unfolding unat_and_not_mask by simp
  then show ?thesis by (simp add: word_unat_eq_iff)
qed

lemma present_or: "al4k x \<Longrightarrow> present (x OR f) = present f"
  and huge_or: "al4k x \<Longrightarrow> huge (x OR f) = huge f"
  by (simp_all add: present_def huge_def low_bit_or)

lemma entry_zero [simp]: "\<not> present 0" "\<not> huge 0" "base 0 = 0"
  by (simp_all add: present_def huge_def base_def)

lemma index_lt [simp]: "pml4_index v < 512" "pdp_index v < 512" "pd_index v < 512" "pt_index v < 512"
proof -
  have "unat (x AND 511 :: ulong) < 512" for x
    using unat_and_mask [of x 9] by simp
  then show "pml4_index v < 512" "pdp_index v < 512" "pd_index v < 512" "pt_index v < 512"
    by (simp_all add: pml4_index_def pdp_index_def pd_index_def pt_index_def)
qed

section \<open>The tree of tables\<close>

definition child :: "ulong \<Rightarrow> ulong option" where
  "child e = (if present e \<and> \<not> huge e then Some (base e) else None)"

text \<open>A table is named by the indices that lead to it from the top level, the last one first.\<close>

primrec tab :: "pgt \<Rightarrow> nat list \<Rightarrow> ulong option" where
  "tab st [] = Some (pml4_pa st)"
| "tab st (i # p) = (case tab st p of None \<Rightarrow> None | Some t \<Rightarrow> child (mem st t i))"

definition ent :: "pgt \<Rightarrow> nat \<Rightarrow> nat list \<Rightarrow> ulong" where
  "ent st i p = (case tab st p of None \<Rightarrow> 0 | Some t \<Rightarrow> mem st t i)"

definition valid_path :: "nat list \<Rightarrow> bool" where
  "valid_path p \<longleftrightarrow> length p \<le> 3 \<and> (\<forall>i \<in> set p. i < 512)"

definition wf_entry :: "nat list \<Rightarrow> ulong \<Rightarrow> bool" where
  "wf_entry p e \<longleftrightarrow> (p = [] \<longrightarrow> \<not> huge e) \<and> (length p \<le> 2 \<longrightarrow> e = 0 \<or> present e) \<and>
     (length p \<le> 1 \<longrightarrow> e = 0 \<or> base e \<noteq> 0 \<or> huge e)"

definition pt_inv :: "pgt \<Rightarrow> bool" where
  "pt_inv st \<longleftrightarrow>
     phys_inv (physm st) \<and> (\<forall>x \<in> phys_bytes (physm st). x < 2 ^ 46) \<and>
     (\<forall>p q t. valid_path p \<longrightarrow> valid_path q \<longrightarrow> tab st p = Some t \<longrightarrow> tab st q = Some t \<longrightarrow> p = q) \<and>
     (\<forall>p t. valid_path p \<longrightarrow> tab st p = Some t \<longrightarrow> al4k t \<and> t \<noteq> 0 \<and> span t 0x1000 \<inter> phys_bytes (physm st) = {}) \<and>
     (\<forall>p t i. valid_path p \<longrightarrow> tab st p = Some t \<longrightarrow> i < 512 \<longrightarrow> wf_entry p (mem st t i))"

lemma pt_invD:
  assumes "pt_inv st"
  shows "phys_inv (physm st)" "\<And>x. x \<in> phys_bytes (physm st) \<Longrightarrow> x < 2 ^ 46"
    "\<And>p q t. valid_path p \<Longrightarrow> valid_path q \<Longrightarrow> tab st p = Some t \<Longrightarrow> tab st q = Some t \<Longrightarrow> p = q"
    "\<And>p t. valid_path p \<Longrightarrow> tab st p = Some t \<Longrightarrow> al4k t \<and> t \<noteq> 0 \<and> span t 0x1000 \<inter> phys_bytes (physm st) = {}"
    "\<And>p t i. valid_path p \<Longrightarrow> tab st p = Some t \<Longrightarrow> i < 512 \<Longrightarrow> wf_entry p (mem st t i)"
  using assms unfolding pt_inv_def by blast+

lemma valid_path_simps [simp]: "valid_path []" "valid_path (i # p) \<longleftrightarrow> i < 512 \<and> length p \<le> 2 \<and> valid_path p"
  by (auto simp: valid_path_def)

lemma span_page_nonempty: "unat t \<in> span t 0x1000"
  by (simp add: span_def)

text \<open>
  A state that differs from \<open>st\<close> in entry \<open>i\<close> of table \<open>p\<close> and outside the tables: no
  table changes but those behind that entry.
\<close>

definition differs_at :: "nat \<Rightarrow> nat list \<Rightarrow> pgt \<Rightarrow> pgt \<Rightarrow> bool" where
  "differs_at i p st st' \<longleftrightarrow> pml4_pa st' = pml4_pa st \<and>
     (\<forall>q u j. valid_path q \<longrightarrow> tab st q = Some u \<longrightarrow> j < 512 \<longrightarrow> (q, j) \<noteq> (p, i) \<longrightarrow> mem st' u j = mem st u j)"

definition behind :: "nat \<Rightarrow> nat list \<Rightarrow> nat list \<Rightarrow> bool" where
  "behind i p q \<longleftrightarrow> (\<exists>r. q = r @ i # p)"

lemma behind_Cons: "behind i p (j # q) \<longleftrightarrow> j = i \<and> q = p \<or> behind i p q"
  unfolding behind_def by (metis append_Cons append_Nil list.inject neq_Nil_conv)

lemma behind_self: "\<not> behind i p p"
  by (auto simp: behind_def)

lemma tab_differs:
  assumes "differs_at i p st st'" "valid_path q" "\<not> behind i p q" shows "tab st' q = tab st q"
  using assms(2,3)
proof (induction q)
  case Nil
  then show ?case using assms(1) by (simp add: differs_at_def)
next
  case (Cons j q)
  then have nb: "\<not> behind i p q" and ne: "(q, j) \<noteq> (p, i)" and v: "valid_path q" "j < 512"
    by (auto simp: behind_Cons)
  with Cons.IH have "tab st' q = tab st q" by blast
  then show ?case
    using assms(1) v ne unfolding differs_at_def by (auto split: option.split)
qed

lemma ent_differs:
  assumes "differs_at i p st st'" "valid_path q" "j < 512" "\<not> behind i p (j # q)"
  shows "ent st' j q = ent st j q"
proof -
  have "\<not> behind i p q" "(q, j) \<noteq> (p, i)" using assms(4) by (auto simp: behind_Cons)
  then show ?thesis
    using tab_differs [OF assms(1,2)] assms(1,2,3) unfolding ent_def differs_at_def by (auto split: option.split)
qed

lemma tab_behind_None:
  assumes "tab st (i # p) = None" "behind i p q" shows "tab st q = None"
proof -
  obtain r where "q = r @ i # p" using assms(2) by (auto simp: behind_def)
  with assms(1) show ?thesis by (induction r arbitrary: q) auto
qed

lemma tab_behind_fresh:
  assumes x: "tab st (i # p) = Some x" and leaf: "\<And>j. length p < 2 \<Longrightarrow> j < 512 \<Longrightarrow> child (mem st x j) = None"
    and q: "behind i p q" "valid_path q" "tab st q = Some u"
  shows "q = i # p"
proof -
  obtain r where r: "q = r @ i # p" using q(1) by (auto simp: behind_def)
  show ?thesis
  proof (cases r rule: rev_cases)
    case Nil
    with r show ?thesis by simp
  next
    case (snoc s j)
    have "j < 512" "length p < 2" using q(2) by (simp_all add: r snoc valid_path_def)
    then have "tab st (j # i # p) = None" using x leaf by simp
    then have "tab st q = None"
      by (rule tab_behind_None) (auto simp: behind_def r snoc)
    with q(3) show ?thesis by simp
  qed
qed

text \<open>The update of one entry keeps the invariant, if it points nowhere or to a fresh table of leaves.\<close>

definition fresh_child :: "nat list \<Rightarrow> pgt \<Rightarrow> pgt \<Rightarrow> ulong \<Rightarrow> bool" where
  "fresh_child p st st' x \<longleftrightarrow> al4k x \<and> x \<noteq> 0 \<and> span x 0x1000 \<subseteq> phys_bytes (physm st) \<and>
     span x 0x1000 \<inter> phys_bytes (physm st') = {} \<and>
     (\<forall>j < 512. (length p < 3 \<longrightarrow> child (mem st' x j) = None) \<and> wf_entry p (mem st' x j))"

lemma pt_update_inv:
  assumes inv: "pt_inv st" and t: "valid_path (i # p)" "tab st p = Some t" and df: "differs_at i p st st'"
    and ph: "phys_inv (physm st')" "phys_bytes (physm st') \<subseteq> phys_bytes (physm st)"
    and wf: "wf_entry p (mem st' t i)"
    and new: "\<And>x. child (mem st' t i) = Some x \<Longrightarrow> fresh_child (i # p) st st' x"
  shows "pt_inv st'" and "tab st' p = Some t"
proof -
  note I = pt_invD [OF inv]
  have vp: "valid_path p" "i < 512" using t(1) by auto
  show tp: "tab st' p = Some t" using tab_differs [OF df vp(1) behind_self] t(2) by simp
  have hit: "tab st' (i # p) = child (mem st' t i)" using tp by simp
  have cases: "(\<not> behind i p q \<and> tab st q = Some u) \<or> (q = i # p \<and> fresh_child (i # p) st st' u)"
    if q: "valid_path q" "tab st' q = Some u" for q u
  proof (cases "behind i p q")
    case False
    with tab_differs [OF df q(1)] q(2) show ?thesis by simp
  next
    case True
    then obtain x where x: "tab st' (i # p) = Some x" using tab_behind_None [of st' i p q] q(2) by fastforce
    then have fr: "fresh_child (i # p) st st' x" using new hit by simp
    then have "q = i # p" using tab_behind_fresh [OF x _ True q] by (simp add: fresh_child_def)
    with x q(2) fr show ?thesis by simp
  qed
  have old: "span u 0x1000 \<inter> phys_bytes (physm st) = {}" if "valid_path q" "tab st q = Some u" for q u
    using I(4) that by blast
  have clash: False if "valid_path q" "tab st q = Some u" "fresh_child (i # p) st st' u" for q u
    using old [OF that(1,2)] that(3) span_page_nonempty [of u] unfolding fresh_child_def by blast
  have "q1 = q2" if "valid_path q1" "valid_path q2" "tab st' q1 = Some u" "tab st' q2 = Some u" for q1 q2 u
    using cases [OF that(1,3)] cases [OF that(2,4)] I(3) [OF that(1,2)] clash that(1,2) by blast
  moreover have "al4k u \<and> u \<noteq> 0 \<and> span u 0x1000 \<inter> phys_bytes (physm st') = {}" if "valid_path q" "tab st' q = Some u" for q u
    using cases [OF that] I(4) [OF that(1)] ph(2) unfolding fresh_child_def by blast
  moreover have "wf_entry q (mem st' u j)" if q: "valid_path q" "tab st' q = Some u" and j: "j < 512" for q u j
  proof -
    from cases [OF q] show ?thesis
    proof (elim disjE conjE)
      assume o: "\<not> behind i p q" "tab st q = Some u"
      show ?thesis
      proof (cases "(q, j) = (p, i)")
        case True
        with o(2) t(2) wf show ?thesis by simp
      next
        case False
        with df q(1) o(2) j I(5) [OF q(1) o(2) j] show ?thesis unfolding differs_at_def by metis
      qed
    next
      assume "q = i # p" "fresh_child (i # p) st st' u"
      with j show ?thesis by (simp add: fresh_child_def)
    qed
  qed
  moreover have "\<forall>x \<in> phys_bytes (physm st'). x < 2 ^ 46" using ph(2) I(2) by blast
  ultimately show "pt_inv st'"
    unfolding pt_inv_def using ph(1) by blast
qed

section \<open>Translation\<close>

definition walk_result :: "ulong \<Rightarrow> ulong \<Rightarrow> ulong \<Rightarrow> ulong \<Rightarrow> ulong \<Rightarrow> ulong option" where
  "walk_result e4 e3 e2 e1 v =
     (if \<not> present e4 \<or> huge e4 then None
      else if \<not> present e3 then None
      else if huge e3 then Some (base e3 + (v AND 0x3fffffff))
      else if \<not> present e2 then None
      else if huge e2 then Some (base e2 + (v AND PAGE_2M_MASK))
      else if \<not> present e1 then None
      else Some (base e1 + (v AND 0xfff)))"

abbreviation path3 :: "ulong \<Rightarrow> nat list" where "path3 v \<equiv> [pml4_index v]"
abbreviation path2 :: "ulong \<Rightarrow> nat list" where "path2 v \<equiv> [pdp_index v, pml4_index v]"
abbreviation path1 :: "ulong \<Rightarrow> nat list" where "path1 v \<equiv> [pd_index v, pdp_index v, pml4_index v]"

lemma translate_ent:
  "translate st v = walk_result (ent st (pml4_index v) []) (ent st (pdp_index v) (path3 v))
     (ent st (pd_index v) (path2 v)) (ent st (pt_index v) (path1 v)) v"
  by (simp add: translate_def walk_result_def ent_def child_def Let_def)

lemma translate_differs:
  assumes df: "differs_at i p st st'" and nb: "\<not> behind i p (pt_index v # path1 v)"
  shows "translate st' v = translate st v"
proof -
  have "\<not> behind i p (path1 v)" "\<not> behind i p (path2 v)" "\<not> behind i p (path3 v)"
    using nb by (simp_all add: behind_Cons)
  with nb show ?thesis
    unfolding translate_ent by (simp add: ent_differs [OF df])
qed

section \<open>New tables\<close>

text \<open>The next \<open>n\<close> requests for a page of 4K are served.\<close>

primrec can_serve :: "nat \<Rightarrow> phys \<Rightarrow> bool" where
  "can_serve 0 ph = True"
| "can_serve (Suc n) ph = (case alloc_phy_page_small 4096 ph of Inl _ \<Rightarrow> False | Inr (a, ph1) \<Rightarrow> a \<noteq> 0 \<and> can_serve n ph1)"

definition fresh_page :: "phys \<Rightarrow> ulong \<Rightarrow> phys \<Rightarrow> bool" where
  "fresh_page ph x ph1 \<longleftrightarrow> al4k x \<and> x \<noteq> 0 \<and> span x 0x1000 \<subseteq> phys_bytes ph \<and> phys_inv ph1 \<and>
     phys_bytes ph1 = phys_bytes ph - span x 0x1000"

lemma alloc_page_run:
  assumes "phys_inv ph" "can_serve (Suc n) ph"
  shows "\<exists>x ph1. alloc_phy_page_small 4096 ph = Inr (x, ph1) \<and> fresh_page ph x ph1 \<and> can_serve n ph1"
proof -
  have req: "small_request 4096 ph" and n: "align_4k 4096 = 4096" by (simp_all add: small_request_def align_4k_def)
  from assms(2) obtain x ph1 where run: "alloc_phy_page_small 4096 ph = Inr (x, ph1)" and x: "x \<noteq> 0" and s: "can_serve n ph1"
    by (auto split: sum.splits)
  from alloc_phy_page_small_run [OF assms(1) req] run x s show ?thesis unfolding n by (auto simp: fresh_page_def)
qed

lemma new_table_run:
  assumes "pt_inv st" "can_serve (Suc n) (physm st)"
  shows "\<exists>x ph1. new_table st = Inr (Some x, st\<lparr>physm := ph1\<rparr>) \<and> fresh_page (physm st) x ph1 \<and> can_serve n ph1"
proof -
  note I = pt_invD(1,2) [OF assms(1)]
  from alloc_page_run [OF I(1) assms(2)] obtain x ph1 where
    run: "alloc_phy_page_small 4096 (physm st) = Inr (x, ph1)" and fr: "fresh_page (physm st) x ph1" and s: "can_serve n ph1" by blast
  have "unat x \<in> phys_bytes (physm st)" using fr span_page_nonempty [of x] unfolding fresh_page_def by blast
  then have lt: "unat x < 2 ^ 46" by (rule I(2))
  have "al4k (P2V x)" using fr by (simp add: fresh_page_def al4k_P2V)
  then have "new_table st = Inr (Some x, st\<lparr>physm := ph1\<rparr>)"
    using run P2V_nonzero [OF lt] V2P_P2V [OF lt] by (simp add: new_table_def Let_def al4k_def)
  with fr s show ?thesis by blast
qed

lemma fresh_not_table:
  assumes "pt_inv st" "fresh_page (physm st) x ph" "valid_path q" "tab st q = Some u" shows "u \<noteq> x"
proof
  assume "u = x"
  moreover have "span u 0x1000 \<inter> phys_bytes (physm st) = {}" using pt_invD(4) [OF assms(1,3,4)] by blast
  ultimately show False using assms(2) span_page_nonempty [of x] unfolding fresh_page_def by blast
qed

lemma new_child:
  assumes inv: "pt_inv st" and t: "valid_path (i # p)" "tab st p = Some t" and fr: "fresh_page (physm st) x ph"
    and fl: "present f" "\<not> huge f" "f AND NOT 0xfff = 0"
    and c: "\<And>j. j < 512 \<Longrightarrow> (length p < 2 \<longrightarrow> child (c j) = None) \<and> wf_entry (i # p) (c j)"
    and st': "mem st' = (mem st)(x := c, t := (mem st t)(i := x OR f))" "pml4_pa st' = pml4_pa st" "physm st' = ph"
  shows "differs_at i p st st'" "pt_inv st'" "tab st' p = Some t" "tab st' (i # p) = Some x" "mem st' x = c"
    "mem st' t i = x OR f"
proof -
  have ax: "al4k x" "x \<noteq> 0" using fr by (auto simp: fresh_page_def)
  have vp: "valid_path p" using t(1) by simp
  have tx: "t \<noteq> x" using fresh_not_table [OF inv fr vp t(2)] .
  have ch: "child (x OR f) = Some x" using fl ax by (simp add: child_def present_or huge_or base_or)
  show df: "differs_at i p st st'"
    unfolding differs_at_def
  proof (intro conjI allI impI st'(2))
    fix q u j assume q: "valid_path q" "tab st q = Some u" and ne: "(q, j) \<noteq> (p, i)"
    have "u \<noteq> x" using fresh_not_table [OF inv fr q] .
    moreover have "u \<noteq> t \<or> j \<noteq> i" using pt_invD(3) [OF inv q(1) vp, of u] q(2) t(2) ne by auto
    ultimately show "mem st' u j = mem st u j" by (auto simp: st'(1))
  qed
  show hit: "mem st' t i = x OR f" by (simp add: st'(1))
  show mx: "mem st' x = c" using tx by (simp add: st'(1))
  have wf: "wf_entry p (mem st' t i)" using fl ax by (simp add: hit wf_entry_def present_or huge_or base_or)
  have fc: "fresh_child (i # p) st st' y" if "child (mem st' t i) = Some y" for y
  proof -
    have "y = x" using that by (simp add: hit ch)
    then show ?thesis using fr c unfolding fresh_child_def fresh_page_def by (auto simp: mx st'(3))
  qed
  have ph: "phys_inv (physm st')" "phys_bytes (physm st') \<subseteq> phys_bytes (physm st)"
    using fr by (auto simp: fresh_page_def st'(3))
  from pt_update_inv [OF inv t df ph wf fc]
  show "pt_inv st'" and tp: "tab st' p = Some t" by blast+
  show "tab st' (i # p) = Some x" using tp hit ch by simp
qed

lemma set_entry_sel [simp]:
  "pml4_pa (set_entry t i e st) = pml4_pa st" "physm (set_entry t i e st) = physm st"
  "mem (set_entry t i e st) = (mem st)(t := (mem st t)(i := e))"
  "pml4_pa (memset_page t st) = pml4_pa st" "physm (memset_page t st) = physm st"
  "mem (memset_page t st) = (mem st)(t := (\<lambda>_. 0))"
  "pml4_pa (flush_tlb_one_page v st) = pml4_pa st" "physm (flush_tlb_one_page v st) = physm st"
  "mem (flush_tlb_one_page v st) = mem st"
  by (simp_all add: set_entry_def memset_page_def flush_tlb_one_page_def)

text \<open>An empty table in place of an empty entry changes no translation.\<close>

lemma new_empty_table_translate:
  assumes inv: "pt_inv st" and t: "valid_path (i # p)" "tab st p = Some t" "length p \<le> 1" and z: "mem st t i = 0"
    and df: "differs_at i p st st'" and x: "tab st' (i # p) = Some x" "mem st' x = (\<lambda>_. 0)"
  shows "translate st' v = translate st v"
proof (cases "behind i p (pt_index v # path1 v)")
  case False
  then show ?thesis by (rule translate_differs [OF df])
next
  case True
  then consider "p = []" "i = pml4_index v" | "p = path3 v" "i = pdp_index v"
    using t(3) by (auto simp: behind_Cons) (auto simp: behind_def)
  then show ?thesis
  proof cases
    case 1
    have "ent st (pml4_index v) [] = 0" using t(2) z 1 by (simp add: ent_def)
    moreover have "ent st' (pdp_index v) (path3 v) = 0" using x 1 by (simp add: ent_def)
    ultimately show ?thesis unfolding translate_ent by (simp add: walk_result_def)
  next
    case 2
    have "ent st (pdp_index v) (path3 v) = 0" using t(2) z 2 by (simp add: ent_def)
    moreover have "ent st' (pd_index v) (path2 v) = 0" using x 2 by (simp add: ent_def)
    moreover have "\<not> huge (ent st' (pdp_index v) (path3 v))"
      using x(1) 2 by (auto simp: ent_def child_def split: option.splits if_splits)
    ultimately show ?thesis unfolding translate_ent by (simp add: walk_result_def)
  qed
qed

text \<open>What the two functions that provide a table achieve.\<close>

definition provides :: "nat \<Rightarrow> nat list \<Rightarrow> nat \<Rightarrow> pgt \<Rightarrow> ulong \<Rightarrow> pgt \<Rightarrow> bool" where
  "provides i p n st x st' \<longleftrightarrow> pt_inv st' \<and> tab st' (i # p) = Some x \<and> (\<forall>v. translate st' v = translate st v) \<and>
     can_serve n (physm st') \<and> pml4_pa st' = pml4_pa st"

lemma can_serve_mono: "can_serve (Suc n) ph \<Longrightarrow> can_serve n ph"
proof (induction n arbitrary: ph)
  case 0
  then show ?case by simp
next
  case (Suc n)
  from Suc.prems obtain a ph1 where "alloc_phy_page_small 4096 ph = Inr (a, ph1)" "a \<noteq> 0" "can_serve (Suc n) ph1"
    unfolding can_serve.simps(2) [of "Suc n" ph] by (auto simp del: can_serve.simps split: sum.splits)
  with Suc.IH [of ph1] show ?case unfolding can_serve.simps(2) [of n ph] by simp
qed

lemma ensure_table_run:
  assumes inv: "pt_inv st" and t: "valid_path (i # p)" "tab st p = Some t" "length p \<le> 1" and s: "can_serve (Suc n) (physm st)"
    and fl: "present f" "\<not> huge f" "f AND NOT 0xfff = 0" and small: "\<not> huge (mem st t i)"
  shows "\<exists>x st'. ensure_table f t i st = Inr (Some x, st') \<and> provides i p n st x st' \<and>
    (\<forall>j. ent st' j (i # p) = 0 \<or> ent st' j (i # p) = ent st j (i # p))"
proof (cases "base (mem st t i) = 0")
  case True
  have wf: "wf_entry p (mem st t i)" using pt_invD(5) [OF inv _ t(2)] t(1) by simp
  with True small t(3) have z: "mem st t i = 0" by (auto simp: wf_entry_def)
  from new_table_run [OF inv s] obtain x ph where
    nt: "new_table st = Inr (Some x, st\<lparr>physm := ph\<rparr>)" and fr: "fresh_page (physm st) x ph" and s': "can_serve n ph" by blast
  let ?st = "set_entry t i (x OR f) (memset_page x (st\<lparr>physm := ph\<rparr>))"
  have tx: "t \<noteq> x" using fresh_not_table [OF inv fr _ t(2)] t(1) by simp
  have c: "(length p < 2 \<longrightarrow> child 0 = None) \<and> wf_entry (i # p) 0" by (simp add: child_def wf_entry_def)
  have m: "mem ?st = (mem st)(x := (\<lambda>_. 0), t := (mem st t)(i := x OR f))" using tx by (simp add: fun_eq_iff)
  note nc = new_child [OF inv t(1,2) fr fl c m]
  have "translate ?st v = translate st v" for v
    by (rule new_empty_table_translate [OF inv t z nc(1,4,5)]) simp_all
  then have "provides i p n st x ?st" using nc(2,4) s' by (simp add: provides_def)
  moreover have "ensure_table f t i st = Inr (Some x, ?st)" using True nt by (simp add: ensure_table_def)
  moreover have "ent ?st j (i # p) = 0" for j using nc(4,5) by (simp add: ent_def)
  ultimately show ?thesis by blast
next
  case False
  have wf: "wf_entry p (mem st t i)" using pt_invD(5) [OF inv _ t(2)] t(1) by simp
  with False t(3) have "present (mem st t i)" by (auto simp: wf_entry_def)
  then have "tab st (i # p) = Some (base (mem st t i))" using t(2) small by (simp add: child_def)
  then have "provides i p n st (base (mem st t i)) st" using inv can_serve_mono [OF s] by (simp add: provides_def)
  then show ?thesis using False by (auto simp: ensure_table_def)
qed

section \<open>Splitting a large page\<close>

lemma fill_entries_eq:
  "fill_entries n t old f s st = (old + of_nat n * s,
     st\<lparr>mem := (mem st)(t := (\<lambda>j. if j < n then (old + of_nat j * s) OR f else mem st t j))\<rparr>)"
proof (induction n)
  case 0
  then show ?case by simp
next
  case (Suc n)
  then show ?case by (auto simp: set_entry_def fun_eq_iff algebra_simps less_Suc_eq)
qed

lemma offset_split:
  assumes "m + k \<le> 64"
  shows "take_bit (m + k) (v::ulong) = push_bit m (take_bit k (drop_bit m v)) + take_bit m v"
proof -
  have "push_bit m (take_bit k (drop_bit m v)) + take_bit m v = push_bit m (take_bit k (drop_bit m v)) OR take_bit m v"
    by (rule disjunctive_add) (auto simp: bit_simps)
  also have "\<dots> = take_bit (m + k) v"
    by (rule bit_word_eqI) (auto simp: bit_simps)
  finally show ?thesis by simp
qed

lemma and_mask_take_bit: "v AND 0xfff = take_bit 12 v" "v AND 0x1fffff = take_bit 21 v" "v AND 0x3fffffff = take_bit 30 v"
  "v AND 511 = take_bit 9 (v::ulong)"
  by (simp_all add: take_bit_eq_mask mask_eq_decr_exp)

lemma offset_1g: "v AND 0x3fffffff = of_nat (pd_index v) * 0x200000 + (v AND PAGE_2M_MASK)"
  using offset_split [of 21 9 v] unfolding and_mask_take_bit pd_index_def by (simp add: push_bit_eq_mult mult.commute)

lemma offset_2m: "v AND PAGE_2M_MASK = of_nat (pt_index v) * 0x1000 + (v AND 0xfff)"
  using offset_split [of 12 9 v] unfolding and_mask_take_bit pt_index_def by (simp add: push_bit_eq_mult mult.commute)

lemma al4k_mult: "al4k (of_nat n * 0x200000)" "al4k (of_nat n * 0x1000)"
proof -
  have "(2::ulong) ^ 12 dvd 0x200000" by (rule dvdI [of _ _ 512]) simp
  then show "al4k (of_nat n * 0x200000)" by (simp only: aligned_dvd_word dvd_mult)
  show "al4k (of_nat n * 0x1000)" by (simp only: aligned_dvd_word) (simp add: dvd_triv_right)
qed

lemma low_flags: "(e AND 0xfff) AND NOT (0xfff::ulong) = 0"
  by (simp only: and.assoc bit.conj_cancel_right and_zero_eq)

lemma present_low: "present (e AND 0xfff) = present e" and huge_low: "huge (e AND 0xfff) = huge e"
  by (simp_all add: present_def huge_def and.assoc)

text \<open>The entries of a 1G page that is split into 2M pages.\<close>

lemma split_1g_entry:
  assumes "present e" "huge e"
  defines "c \<equiv> \<lambda>n. (base e + of_nat n * PAGE_SIZE_LARGE) OR (e AND 0xfff)"
  shows "present (c n)" "huge (c n)" "base (c n) = base e + of_nat n * PAGE_SIZE_LARGE"
proof -
  have "al4k (base e + of_nat n * PAGE_SIZE_LARGE)" using al4k_mult(1) by (intro aligned_add) simp_all
  then show "present (c n)" "huge (c n)" "base (c n) = base e + of_nat n * PAGE_SIZE_LARGE"
    using assms(1,2) by (simp_all only: c_def present_or huge_or base_or low_flags present_low huge_low)
qed

lemma ensure_pd_run:
  assumes inv: "pt_inv st" and t: "a < 512" "j < 512" "tab st [a] = Some pdp" and s: "can_serve (Suc n) (physm st)"
  shows "\<exists>x st'. ensure_pd pdp j st = Inr (Some x, st') \<and> provides j [a] n st x st'"
proof -
  let ?f = "PTE_P OR PTE_W OR PTE_U" and ?e = "mem st pdp j"
  have fl: "present ?f" "\<not> huge ?f" "?f AND NOT 0xfff = 0" by (simp_all add: present_def huge_def)
  have vp: "valid_path (j # [a])" "valid_path [a]" using t by simp_all
  have wf: "wf_entry [a] ?e" using pt_invD(5) [OF inv vp(2) t(3) t(2)] .
  from new_table_run [OF inv s] obtain x ph where
    nt: "new_table st = Inr (Some x, st\<lparr>physm := ph\<rparr>)" and fr: "fresh_page (physm st) x ph" and s': "can_serve n ph" by blast
  have tx: "pdp \<noteq> x" using fresh_not_table [OF inv fr vp(2) t(3)] .
  consider (zero) "?e = 0" | (big) "?e \<noteq> 0" "huge ?e" | (dir) "?e \<noteq> 0" "\<not> huge ?e" by blast
  then show ?thesis
  proof cases
    case zero
    let ?st = "set_entry pdp j (x OR ?f) (memset_page x (st\<lparr>physm := ph\<rparr>))"
    have c: "(length [a] < 2 \<longrightarrow> child 0 = None) \<and> wf_entry (j # [a]) 0" by (simp add: child_def wf_entry_def)
    have m: "mem ?st = (mem st)(x := (\<lambda>_. 0), pdp := (mem st pdp)(j := x OR ?f))" using tx by (simp add: fun_eq_iff)
    note nc = new_child [OF inv vp(1) t(3) fr fl c m]
    have "translate ?st v = translate st v" for v
      by (rule new_empty_table_translate [OF inv vp(1) t(3) _ zero nc(1,4,5)]) simp_all
    then have "provides j [a] n st x ?st" using nc(2,4) s' by (simp add: provides_def)
    then show ?thesis using zero nt by (auto simp: ensure_pd_def Let_def)
  next
    case big
    then have pr: "present ?e" using wf by (auto simp: wf_entry_def)
    let ?c = "\<lambda>m. if m < 512 then (base ?e + of_nat m * PAGE_SIZE_LARGE) OR (?e AND 0xfff) else mem st x m"
    let ?st = "set_entry pdp j (x OR ?f) (snd (fill_entries 512 x (base ?e) (?e AND 0xfff) PAGE_SIZE_LARGE (st\<lparr>physm := ph\<rparr>)))"
    note ce = split_1g_entry [OF pr big(2)]
    have c: "(length [a] < 2 \<longrightarrow> child (?c m) = None) \<and> wf_entry (j # [a]) (?c m)" if "m < 512" for m
      using that ce by (simp add: child_def wf_entry_def)
    have m: "mem ?st = (mem st)(x := ?c, pdp := (mem st pdp)(j := x OR ?f))" using tx by (simp add: fun_eq_iff fill_entries_eq)
    note nc = new_child [OF inv vp(1) t(3) fr fl c m]
    have same: "translate ?st v = translate st v" for v
    proof (cases "behind j [a] (pt_index v # path1 v)")
      case False
      with nc(1) show ?thesis by (intro translate_differs) (simp_all add: fill_entries_eq)
    next
      case True
      then have av: "a = pml4_index v" "j = pdp_index v" by (auto simp: behind_Cons) (auto simp: behind_def)
      have e4: "ent ?st (pml4_index v) [] = ent st (pml4_index v) []"
        using nc(1) av by (intro ent_differs [of j "[a]"]) (auto simp: behind_Cons behind_def fill_entries_eq)
      have p4: "present (ent st (pml4_index v) [])" "\<not> huge (ent st (pml4_index v) [])"
        using t(3) av by (auto simp: ent_def child_def split: if_splits)
      have e3: "ent st (pdp_index v) (path3 v) = ?e" using t(3) av by (simp add: ent_def)
      have e3': "ent ?st (pdp_index v) (path3 v) = x OR ?f" using nc(3,6) av by (simp add: ent_def fill_entries_eq)
      have ax: "al4k x" using fr by (simp add: fresh_page_def)
      have n3: "present (x OR ?f)" "\<not> huge (x OR ?f)" using fl ax by (simp_all only: present_or huge_or not_False_eq_True)
      have e2: "ent ?st (pd_index v) (path2 v) = ?c (pd_index v)" using nc(4,5) av by (simp add: ent_def fill_entries_eq)
      have "translate ?st v = Some (base ?e + of_nat (pd_index v) * PAGE_SIZE_LARGE + (v AND PAGE_2M_MASK))"
        unfolding translate_ent e4 e3' e2 using p4 n3 ce by (simp add: walk_result_def)
      moreover have "translate st v = Some (base ?e + (v AND 0x3fffffff))"
        unfolding translate_ent e3 using p4 pr big(2) by (simp add: walk_result_def)
      ultimately show ?thesis by (simp add: offset_1g add.assoc)
    qed
    have "provides j [a] n st x ?st" using nc(2,4) s' same by (simp add: provides_def fill_entries_eq)
    moreover have "ensure_pd pdp j st = Inr (Some x, ?st)"
      using big nt by (simp add: ensure_pd_def Let_def huge_def)
    ultimately show ?thesis by blast
  next
    case dir
    then have "present ?e" using wf by (auto simp: wf_entry_def)
    then have "tab st (j # [a]) = Some (base ?e)" using t(3) dir by (simp add: child_def)
    then have "provides j [a] n st (base ?e) st" using inv can_serve_mono [OF s] by (simp add: provides_def)
    then show ?thesis using dir by (auto simp: ensure_pd_def Let_def huge_def)
  qed
qed

section \<open>Mapping a 2M page\<close>

lemma leaf_write:
  assumes inv: "pt_inv st" and t: "valid_path (i # p)" "tab st p = Some t" and e: "child e = None" "wf_entry p e"
    and st': "mem st' = (mem st)(t := (mem st t)(i := e))" "pml4_pa st' = pml4_pa st" "physm st' = physm st"
  shows "differs_at i p st st'" "pt_inv st'" "tab st' p = Some t" "mem st' t i = e"
proof -
  have vp: "valid_path p" using t(1) by simp
  show df: "differs_at i p st st'"
    unfolding differs_at_def
  proof (intro conjI allI impI st'(2))
    fix q u j assume q: "valid_path q" "tab st q = Some u" and ne: "(q, j) \<noteq> (p, i)"
    then have "u \<noteq> t \<or> j \<noteq> i" using pt_invD(3) [OF inv q(1) vp, of u] t(2) by auto
    then show "mem st' u j = mem st u j" by (auto simp: st'(1))
  qed
  show hit: "mem st' t i = e" by (simp add: st'(1))
  have ph: "phys_inv (physm st')" "phys_bytes (physm st') \<subseteq> phys_bytes (physm st)"
    using pt_invD(1) [OF inv] by (simp_all add: st'(3))
  have "wf_entry p (mem st' t i)" using e(2) by (simp add: hit)
  from pt_update_inv [OF inv t df ph this] e(1) show "pt_inv st'" "tab st' p = Some t" by (simp_all add: hit)
qed

text \<open>The addresses of the 2M page of \<open>v\<close>.\<close>

definition same_2m :: "ulong \<Rightarrow> ulong \<Rightarrow> bool" where
  "same_2m v w \<longleftrightarrow> path1 v = path1 w"

lemma upper_entries:
  assumes "tab s (path2 w) = Some pd"
  shows "present (ent s (pml4_index w) [])" "\<not> huge (ent s (pml4_index w) [])"
    "present (ent s (pdp_index w) (path3 w))" "\<not> huge (ent s (pdp_index w) (path3 w))"
    "ent s k (path2 w) = mem s pd k"
  using assms by (auto simp: ent_def child_def split: option.splits if_splits)

lemma map_page_p2v_run:
  assumes inv: "pt_inv st" and s: "can_serve (Suc (Suc n)) (physm st)" and al: "al2m vaddr" "al2m paddr"
    and fl: "flag AND NOT 0xfff = 0" "present flag" "huge flag"
  shows "\<exists>st'. map_page_p2v paddr vaddr flag st = Inr (OK, st') \<and> pt_inv st' \<and> vaddr \<in> set (tlb_flushed st') \<and>
    can_serve n (physm st') \<and> (\<forall>w. translate st' w = (if same_2m vaddr w then Some (paddr + (w AND PAGE_2M_MASK)) else translate st w))"
proof -
  let ?a = "pml4_index vaddr" and ?j = "pdp_index vaddr" and ?k = "pd_index vaddr" and ?f = "PTE_P OR PTE_W OR PTE_U"
  have f: "present ?f" "\<not> huge ?f" "?f AND NOT 0xfff = 0" by (simp_all add: present_def huge_def)
  have nh: "\<not> huge (mem st (pml4_pa st) ?a)" using pt_invD(5) [OF inv, of "[]"] by (simp add: wf_entry_def)
  from ensure_table_run [OF inv _ _ _ s f nh, of "[]"] obtain pdp st1 where
    r1: "ensure_table ?f (pml4_pa st) ?a st = Inr (Some pdp, st1)" and p1: "provides ?a [] (Suc n) st pdp st1" by auto
  then have i1: "pt_inv st1" "tab st1 [?a] = Some pdp" "can_serve (Suc n) (physm st1)" "pml4_pa st1 = pml4_pa st"
    unfolding provides_def by blast+
  from ensure_pd_run [OF i1(1) _ _ i1(2,3), of ?j] obtain pd st2 where
    r2: "ensure_pd pdp ?j st1 = Inr (Some pd, st2)" and p2: "provides ?j [?a] n st1 pd st2" by auto
  then have i2: "pt_inv st2" "tab st2 [?j, ?a] = Some pd" unfolding provides_def by blast+
  define st' where "st' = flush_tlb_one_page vaddr (set_entry pd ?k (paddr OR flag) st2)"
  have ap: "al4k paddr" using al(2) by (auto simp: al4k_dvd al2m_dvd elim: dvd_trans [rotated])
  have e: "present (paddr OR flag)" "huge (paddr OR flag)" "base (paddr OR flag) = paddr"
    using fl ap by (simp_all only: present_or huge_or base_or)
  have st': "mem st' = (mem st2)(pd := (mem st2 pd)(?k := paddr OR flag))" "pml4_pa st' = pml4_pa st2" "physm st' = physm st2"
    by (simp_all add: st'_def)
  have "child (paddr OR flag) = None" "wf_entry [?j, ?a] (paddr OR flag)" "valid_path (?k # [?j, ?a])"
    using e by (simp_all add: child_def wf_entry_def)
  note lw = leaf_write [OF i2(1) this(3) i2(2) this(1,2) st']
  have "translate st' w = (if same_2m vaddr w then Some (paddr + (w AND PAGE_2M_MASK)) else translate st2 w)" for w
  proof (cases "behind ?k [?j, ?a] (pt_index w # path1 w)")
    case True
    then have same: "path1 vaddr = path1 w" by (auto simp: behind_Cons) (auto simp: behind_def)
    then have "path2 vaddr = path2 w" "?k = pd_index w" by simp_all
    note u = upper_entries [OF lw(3) [unfolded this]]
    have e2: "ent st' (pd_index w) (path2 w) = paddr OR flag" using lw(4) \<open>?k = pd_index w\<close> by (simp only: u(5))
    show ?thesis unfolding translate_ent e2 using e u(1-4) same by (simp add: walk_result_def same_2m_def)
  next
    case False
    then have "\<not> same_2m vaddr w" by (auto simp: same_2m_def behind_Cons)
    with translate_differs [OF lw(1) False] show ?thesis by simp
  qed
  moreover have "translate st2 w = translate st w" for w using p1 p2 unfolding provides_def by simp
  moreover have "map_page_p2v paddr vaddr flag st = Inr (OK, st')"
    using al fl(1) r1 r2 by (simp add: map_page_p2v_def al2m_def st'_def)
  moreover have "vaddr \<in> set (tlb_flushed st')" by (simp add: st'_def flush_tlb_one_page_def)
  moreover have "can_serve n (physm st')" using p2 unfolding provides_def st'(3) by blast
  ultimately show ?thesis using lw(2) by auto
qed

section \<open>Mapping a 4K page\<close>

text \<open>Writing an entry of a bottom level table.\<close>

lemma behind_length: "behind i p q \<Longrightarrow> length p < length q"
  by (auto simp: behind_def)

lemma bottom_write:
  assumes inv: "pt_inv st" and t: "valid_path p" "length p = 3" "tab st p = Some t" "i < 512"
    and st': "mem st' = (mem st)(t := (mem st t)(i := e))" "pml4_pa st' = pml4_pa st" "physm st' = physm st"
  shows "differs_at i p st st'" "pt_inv st'" "tab st' p = Some t" "mem st' t i = e"
proof -
  note I = pt_invD [OF inv]
  show df: "differs_at i p st st'"
    unfolding differs_at_def
  proof (intro conjI allI impI st'(2))
    fix q u j assume q: "valid_path q" "tab st q = Some u" and ne: "(q, j) \<noteq> (p, i)"
    then have "u \<noteq> t \<or> j \<noteq> i" using I(3) [OF q(1) t(1), of u] t(3) by auto
    then show "mem st' u j = mem st u j" by (auto simp: st'(1))
  qed
  have same: "tab st' q = tab st q" if "valid_path q" for q
  proof (rule tab_differs [OF df that])
    show "\<not> behind i p q" using that t(2) by (auto dest!: behind_length simp: valid_path_def)
  qed
  have wf: "wf_entry q (mem st' u j)" if q: "valid_path q" "tab st q = Some u" "j < 512" for q u j
  proof (cases "(q, j) = (p, i)")
    case True
    then show ?thesis using t(2) by (auto simp: wf_entry_def)
  next
    case False
    with df q I(5) [OF q] show ?thesis unfolding differs_at_def by metis
  qed
  have "\<forall>q t. valid_path q \<longrightarrow> tab st' q = Some t \<longrightarrow> al4k t \<and> t \<noteq> 0 \<and> span t 0x1000 \<inter> phys_bytes (physm st') = {}"
    using I(4) same by (simp add: st'(3))
  moreover have "\<forall>q q' u. valid_path q \<longrightarrow> valid_path q' \<longrightarrow> tab st' q = Some u \<longrightarrow> tab st' q' = Some u \<longrightarrow> q = q'"
    using I(3) same by metis
  moreover have "\<forall>q u j. valid_path q \<longrightarrow> tab st' q = Some u \<longrightarrow> j < 512 \<longrightarrow> wf_entry q (mem st' u j)"
    using wf same by metis
  ultimately show "pt_inv st'" using I(1,2) unfolding pt_inv_def st'(3) by blast
  show "tab st' p = Some t" using same t(1,3) by simp
  show "mem st' t i = e" by (simp add: st'(1))
qed

lemma drop_bit_page: "21 \<le> n \<Longrightarrow> drop_bit n (v AND NOT PAGE_2M_MASK) = drop_bit n (v::ulong)"
proof (rule bit_word_eqI)
  fix m assume "21 \<le> n" "m < LENGTH(64)"
  moreover have "bit (0x1fffff :: ulong) k \<Longrightarrow> k < 21" for k
    using bit_mask_iff [of 21 k, where 'a = "64 word"] by (simp add: mask_eq_exp_minus_1)
  ultimately show "bit (drop_bit n (v AND NOT PAGE_2M_MASK)) m = bit (drop_bit n v) m"
    by (fastforce simp: bit_simps dest: bit_imp_le_length)
qed

lemma index_page:
  "pml4_index (v AND NOT PAGE_2M_MASK) = pml4_index v" "pdp_index (v AND NOT PAGE_2M_MASK) = pdp_index v"
  "pd_index (v AND NOT PAGE_2M_MASK) = pd_index v"
proof -
  have "drop_bit 39 (v AND NOT PAGE_2M_MASK) = drop_bit 39 v" "drop_bit 30 (v AND NOT PAGE_2M_MASK) = drop_bit 30 v"
    "drop_bit 21 (v AND NOT PAGE_2M_MASK) = drop_bit 21 v" by (rule drop_bit_page; simp)+
  then show "pml4_index (v AND NOT PAGE_2M_MASK) = pml4_index v" "pdp_index (v AND NOT PAGE_2M_MASK) = pdp_index v"
    "pd_index (v AND NOT PAGE_2M_MASK) = pd_index v"
    by (simp_all only: pml4_index_def pdp_index_def pd_index_def)
qed

lemma provides_trans: "provides i p n st x st1 \<Longrightarrow> provides j q m st1 y st2 \<Longrightarrow> provides j q m st y st2"
  unfolding provides_def by (simp del: tab.simps can_serve.simps)

text \<open>No 1G page is mapped at \<open>v\<close>.\<close>

definition no_1g :: "pgt \<Rightarrow> ulong \<Rightarrow> bool" where
  "no_1g st v \<longleftrightarrow> \<not> huge (ent st (pdp_index v) (path3 v))"

lemma build_pte_run:
  assumes inv: "pt_inv st" and s: "can_serve (Suc (Suc n)) (physm st)" and no: "no_1g st v"
  shows "\<exists>pd st'. build_pte_with_addr (v AND NOT PAGE_2M_MASK) st = Inr (Some (pd, pd_index v), st') \<and>
    provides (pdp_index v) (path3 v) n st pd st'"
proof -
  let ?a = "pml4_index v" and ?j = "pdp_index v" and ?f = "PTE_P OR PTE_W"
  have f: "present ?f" "\<not> huge ?f" "?f AND NOT 0xfff = 0" by (simp_all add: present_def huge_def)
  have nh: "\<not> huge (mem st (pml4_pa st) ?a)" using pt_invD(5) [OF inv, of "[]"] by (simp add: wf_entry_def)
  from ensure_table_run [OF inv _ _ _ s f nh, of "[]"] obtain pdp st1 where
    r1: "ensure_table ?f (pml4_pa st) ?a st = Inr (Some pdp, st1)" and p1: "provides ?a [] (Suc n) st pdp st1"
    and e: "\<And>j. ent st1 j [?a] = 0 \<or> ent st1 j [?a] = ent st j [?a]" by auto
  have i1: "pt_inv st1" "tab st1 [?a] = Some pdp" "can_serve (Suc n) (physm st1)" "pml4_pa st1 = pml4_pa st"
    using p1 unfolding provides_def by blast+
  have "ent st1 ?j [?a] = mem st1 pdp ?j" using i1(2) by (simp add: ent_def del: tab.simps)
  then have nh1: "\<not> huge (mem st1 pdp ?j)" using e [of ?j] no by (auto simp: no_1g_def)
  from ensure_table_run [OF i1(1) _ i1(2) _ i1(3) f nh1] obtain pd st2 where
    r2: "ensure_table ?f pdp ?j st1 = Inr (Some pd, st2)" and p2: "provides ?j [?a] n st1 pd st2" by auto
  have "provides ?j [?a] n st pd st2" using p1 p2 by (rule provides_trans)
  then show ?thesis using r1 r2 unfolding build_pte_with_addr_def index_page by simp
qed

text \<open>The entries of a 2M page that is split into 4K pages.\<close>

lemma split_2m_entry:
  fixes e :: ulong
  assumes "present f" "f AND NOT 0xfff = 0"
  defines "c \<equiv> \<lambda>n. (base e + of_nat n * PAGE_4K_SIZE) OR f"
  shows "present (c n)" "base (c n) = base e + of_nat n * PAGE_4K_SIZE"
proof -
  have "al4k (base e + of_nat n * PAGE_4K_SIZE)" using al4k_mult(2) by (intro aligned_add) simp_all
  then show "present (c n)" "base (c n) = base e + of_nat n * PAGE_4K_SIZE"
    using assms(1,2) by (simp_all only: c_def present_or base_or)
qed

lemma behind_page: "behind (pd_index v) (path2 v) (pt_index w # path1 w) \<longleftrightarrow> same_2m v w"
  by (auto simp: behind_Cons same_2m_def) (auto simp: behind_def)

text \<open>A table of 4K pages in place of a 2M page changes no translation.\<close>

lemma split_2m_translate:
  assumes inv: "pt_inv st" and t: "tab st (path2 v) = Some pd" and e: "present (mem st pd (pd_index v))" "huge (mem st pd (pd_index v))"
    and df: "differs_at (pd_index v) (path2 v) st st'" and x: "tab st' (path2 v) = Some pd" "mem st' pd (pd_index v) = x OR g"
    and xg: "al4k x" "present g" "\<not> huge g" "tab st' (path1 v) = Some x"
    and f: "present f" "f AND NOT 0xfff = 0"
    and c: "\<And>n. n < 512 \<Longrightarrow> mem st' x n = (base (mem st pd (pd_index v)) + of_nat n * PAGE_4K_SIZE) OR f"
  shows "translate st' w = translate st w"
proof (cases "same_2m v w")
  case False
  then have "\<not> behind (pd_index v) (path2 v) (pt_index w # path1 w)" unfolding behind_page .
  then show ?thesis by (rule translate_differs [OF df])
next
  case True
  then have p: "path2 v = path2 w" "pd_index v = pd_index w" "path1 v = path1 w" by (simp_all add: same_2m_def)
  let ?e = "mem st pd (pd_index w)"
  note u = upper_entries [OF t [unfolded p]] and u' = upper_entries [OF x(1) [unfolded p]]
  have e1: "ent st' (pt_index w) (path1 w) = (base ?e + of_nat (pt_index w) * PAGE_4K_SIZE) OR f"
    using xg(4) c [of "pt_index w"] p by (simp add: ent_def del: tab.simps)
  note ce = split_2m_entry [OF f, of ?e "pt_index w"]
  have n2: "present (x OR g)" "\<not> huge (x OR g)" using xg by (simp_all only: present_or huge_or not_False_eq_True)
  have "translate st' w = Some (base ?e + of_nat (pt_index w) * PAGE_4K_SIZE + (w AND 0xfff))"
    unfolding translate_ent u'(5) e1 using u'(1-4) n2 ce x(2) p(2) by (simp add: walk_result_def)
  moreover have "translate st w = Some (base ?e + (w AND PAGE_2M_MASK))"
    unfolding translate_ent u(5) using u(1-4) e p(2) by (simp add: walk_result_def)
  ultimately show ?thesis by (simp add: offset_2m add.assoc)
qed

lemma present_bit: "present e \<longleftrightarrow> bit e 0" and huge_bit: "huge e \<longleftrightarrow> bit e 7"
  using and_exp_eq_0_iff_not_bit [of e 0] and_exp_eq_0_iff_not_bit [of e 7] by (simp_all add: present_def huge_def)

lemma large_page_iff: "e AND (PTE_PS OR PTE_P) = (PTE_PS OR PTE_P) \<longleftrightarrow> present e \<and> huge e"
proof -
  have b: "bit (0x81 :: ulong) n \<longleftrightarrow> n = 7 \<or> n = 0" for n
  proof -
    have "(0x81 :: ulong) = 2 ^ 7 OR 2 ^ 0" by simp
    then show ?thesis by (simp only: bit_or_iff bit_exp_iff) (auto simp: possible_bit_word)
  qed
  have "e AND 0x81 = 0x81 \<longleftrightarrow> bit e 0 \<and> bit e 7"
  proof
    assume "e AND 0x81 = 0x81"
    then have "bit (e AND 0x81) n" if "n = 0 \<or> n = 7" for n using that by (simp only: b) blast
    then show "bit e 0 \<and> bit e 7" by (simp only: bit_and_iff) blast
  next
    assume "bit e 0 \<and> bit e 7"
    then show "e AND 0x81 = 0x81" by (intro bit_word_eqI) (auto simp only: bit_and_iff b)
  qed
  then show ?thesis by (simp add: present_bit huge_bit)
qed

lemma pte_table_run:
  assumes inv: "pt_inv st" and t: "tab st (path2 v) = Some pd" and s: "can_serve (Suc 0) (physm st)"
  shows "\<exists>p st'. pte_table pd (pd_index v) st = Inr (Some p, st') \<and> pt_inv st' \<and> tab st' (path1 v) = Some p \<and>
    (\<forall>w. same_2m v w \<and> \<not> present (mem st pd (pd_index v)) \<or> translate st' w = translate st w)"
proof -
  let ?k = "pd_index v" let ?e = "mem st pd ?k"
  have vp: "valid_path (?k # path2 v)" "valid_path (path2 v)" by simp_all
  have wf: "wf_entry (path2 v) ?e" using pt_invD(5) [OF inv vp(2) t] by simp
  consider (large) "present ?e" "huge ?e" | (empty) "?e = 0" | (table) "present ?e" "\<not> huge ?e"
    using wf by (auto simp: wf_entry_def)
  then show ?thesis
  proof cases
    case large
    from new_table_run [OF inv s] obtain x ph where
      nt: "new_table st = Inr (Some x, st\<lparr>physm := ph\<rparr>)" and fr: "fresh_page (physm st) x ph" by blast
    let ?g = "PTE_P OR PTE_W" and ?f = "PTE_P OR PTE_W OR PTE_G"
    have g: "present ?g" "\<not> huge ?g" "?g AND NOT 0xfff = 0" "present ?f" "?f AND NOT 0xfff = 0"
      by (simp_all add: present_def huge_def)
    have tx: "pd \<noteq> x" using fresh_not_table [OF inv fr vp(2) t] .
    define c where "c = (\<lambda>m. if m < 512 then (base ?e + of_nat m * PAGE_4K_SIZE) OR ?f else mem st x m)"
    define st' where "st' = set_entry pd ?k (x OR ?g) (snd (fill_entries 512 x (base ?e) ?f PAGE_4K_SIZE (st\<lparr>physm := ph\<rparr>)))"
    have st': "mem st' = (mem st)(x := c, pd := (mem st pd)(?k := x OR ?g))" "pml4_pa st' = pml4_pa st" "physm st' = ph"
      using tx by (simp_all add: st'_def c_def fill_entries_eq fun_eq_iff)
    have cw: "(length (path2 v) < 2 \<longrightarrow> child (c m) = None) \<and> wf_entry (?k # path2 v) (c m)" for m by (simp add: wf_entry_def)
    note nc = new_child [OF inv vp(1) t fr g(1,2,3) cw st']
    have cm: "mem st' x m = (base ?e + of_nat m * PAGE_4K_SIZE) OR ?f" if "m < 512" for m
      using that by (simp add: nc(5) c_def)
    have ax: "al4k x" using fr by (simp add: fresh_page_def)
    have "translate st' w = translate st w" for w
      by (rule split_2m_translate [OF inv t large nc(1,3,6) ax g(1,2) nc(4) g(4,5) cm])
    moreover have "pte_table pd ?k st = Inr (Some x, st')"
      using nt large_page_iff [of ?e] large by (simp add: pte_table_def st'_def Let_def)
    ultimately show ?thesis using nc(2,4) by blast
  next
    case empty
    from alloc_page_run [OF pt_invD(1) [OF inv] s] obtain x ph where
      al: "alloc_phy_page_small 4096 (physm st) = Inr (x, ph)" and fr: "fresh_page (physm st) x ph" by blast
    let ?g = "PTE_W OR PTE_P"
    have g: "present ?g" "\<not> huge ?g" "?g AND NOT 0xfff = 0" by (simp_all add: present_def huge_def)
    have tx: "pd \<noteq> x" using fresh_not_table [OF inv fr vp(2) t] .
    have ax: "al4k x" "x \<noteq> 0" using fr by (simp_all add: fresh_page_def)
    define st' where "st' = set_entry pd ?k (x OR ?g) (set_entry pd ?k x (st\<lparr>physm := ph\<rparr>))"
    have st': "mem st' = (mem st)(x := mem st x, pd := (mem st pd)(?k := x OR ?g))" "pml4_pa st' = pml4_pa st" "physm st' = ph"
      using tx by (simp_all add: st'_def fun_eq_iff)
    have cw: "(length (path2 v) < 2 \<longrightarrow> child (mem st x m) = None) \<and> wf_entry (?k # path2 v) (mem st x m)" for m
      by (simp add: wf_entry_def)
    note nc = new_child [OF inv vp(1) t fr g cw st']
    have "base x = x" using base_or [OF ax(1), of 0] by simp
    then have "pte_table pd ?k st = Inr (Some x, st')"
      using al ax empty by (simp add: pte_table_def st'_def Let_def al4k_def)
    moreover have "translate st' w = translate st w" if "\<not> same_2m v w" for w
      using translate_differs [OF nc(1)] that unfolding behind_page [symmetric] by blast
    ultimately show ?thesis using nc(2,4) empty by (auto simp: present_def)
  next
    case table
    then have "tab st (path1 v) = Some (base ?e)" using t by (simp add: child_def)
    moreover have "pte_table pd ?k st = Inr (Some (base ?e), st)"
      using table large_page_iff [of ?e] by (simp add: pte_table_def Let_def present_def)
    ultimately show ?thesis using inv by blast
  qed
qed

definition same_4k :: "ulong \<Rightarrow> ulong \<Rightarrow> bool" where
  "same_4k v w \<longleftrightarrow> pt_index v # path1 v = pt_index w # path1 w"

text \<open>The entry of the page directory for \<open>v\<close> is in use: a 2M page or a table of 4K pages.\<close>

definition pde_present :: "pgt \<Rightarrow> ulong \<Rightarrow> bool" where
  "pde_present st v \<longleftrightarrow> present (ent st (pd_index v) (path2 v))"

lemma build_pte_existing:
  assumes inv: "pt_inv st" and t: "tab st (path2 v) = Some pd"
  shows "build_pte_with_addr (v AND NOT PAGE_2M_MASK) st = Inr (Some (pd, pd_index v), st)"
proof -
  from t obtain pdp where p3: "tab st (path3 v) = Some pdp" and c2: "child (mem st pdp (pdp_index v)) = Some pd"
    by (auto split: option.splits)
  from p3 have "child (mem st (pml4_pa st) (pml4_index v)) = Some pdp" by simp
  then have b3: "base (mem st (pml4_pa st) (pml4_index v)) = pdp" by (auto simp: child_def split: if_splits)
  have b2: "base (mem st pdp (pdp_index v)) = pd" using c2 by (auto simp: child_def split: if_splits)
  have nz: "pdp \<noteq> 0" "pd \<noteq> 0" using pt_invD(4) [OF inv _ p3] pt_invD(4) [OF inv _ t] by simp_all
  show ?thesis unfolding build_pte_with_addr_def index_page ensure_table_def using b3 b2 nz by simp
qed

lemma pde_present_tab: "pde_present st v \<Longrightarrow> \<exists>pd. tab st (path2 v) = Some pd \<and> present (mem st pd (pd_index v))"
  by (cases "tab st (path2 v)") (simp_all add: pde_present_def ent_def del: tab.simps)

lemma map_4k_page_p2v_run:
  assumes inv: "pt_inv st" and s: "can_serve 3 (physm st)" and al: "al4k vaddr" "al4k paddr" and no: "no_1g st vaddr"
    and fl: "flag AND NOT 0xfff = 0" "present flag"
  shows "\<exists>st'. map_4k_page_p2v paddr vaddr flag st = Inr (OK, st') \<and> pt_inv st' \<and> vaddr \<in> set (tlb_flushed st') \<and>
    (\<forall>w. if same_4k vaddr w then translate st' w = Some (paddr + (w AND 0xfff))
         else same_2m vaddr w \<and> \<not> pde_present st vaddr \<or> translate st' w = translate st w)"
proof -
  have s3: "can_serve (Suc (Suc (Suc 0))) (physm st)" using s by (simp only: numeral_3_eq_3)
  have "\<exists>pd st1. build_pte_with_addr (vaddr AND NOT PAGE_2M_MASK) st = Inr (Some (pd, pd_index vaddr), st1) \<and>
      pt_inv st1 \<and> tab st1 (path2 vaddr) = Some pd \<and> can_serve (Suc 0) (physm st1) \<and> (\<forall>w. translate st1 w = translate st w) \<and>
      (pde_present st vaddr \<longrightarrow> present (mem st1 pd (pd_index vaddr)))"
  proof (cases "pde_present st vaddr")
    case True
    then obtain pd where t: "tab st (path2 vaddr) = Some pd" and pr: "present (mem st pd (pd_index vaddr))"
      using pde_present_tab by blast
    show ?thesis
      using build_pte_existing [OF inv t] inv t pr can_serve_mono [OF can_serve_mono [OF s3]] by blast
  next
    case False
    from build_pte_run [OF inv s3 no] show ?thesis using False unfolding provides_def by blast
  qed
  then obtain pd st1 where b: "build_pte_with_addr (vaddr AND NOT PAGE_2M_MASK) st = Inr (Some (pd, pd_index vaddr), st1)"
    and i1: "pt_inv st1" "tab st1 (path2 vaddr) = Some pd" "can_serve (Suc 0) (physm st1)"
    and tr1: "\<And>w. translate st1 w = translate st w" and pr: "pde_present st vaddr \<longrightarrow> present (mem st1 pd (pd_index vaddr))" by blast
  from pte_table_run [OF i1] obtain p st2 where
    pt: "pte_table pd (pd_index vaddr) st1 = Inr (Some p, st2)" and i2: "pt_inv st2" "tab st2 (path1 vaddr) = Some p"
    and tr2: "\<And>w. same_2m vaddr w \<and> \<not> present (mem st1 pd (pd_index vaddr)) \<or> translate st2 w = translate st1 w" by blast
  let ?l = "pt_index vaddr" and ?e = "paddr OR (flag AND NOT PTE_PS) OR PTE_G"
  define st' where "st' = flush_tlb_one_page vaddr (set_entry p ?l ?e st2)"
  have st': "mem st' = (mem st2)(p := (mem st2 p)(?l := ?e))" "pml4_pa st' = pml4_pa st2" "physm st' = physm st2"
    by (simp_all add: st'_def)
  have vp: "valid_path (path1 vaddr)" "length (path1 vaddr) = 3" "?l < 512" by simp_all
  note bw = bottom_write [OF i2(1) vp(1,2) i2(2) vp(3) st']
  have "(flag AND NOT PTE_PS OR PTE_G) AND NOT 0xfff = 0"
  proof -
    have "(flag AND NOT PTE_PS) AND NOT 0xfff = (flag AND NOT 0xfff) AND NOT PTE_PS" by (simp only: ac_simps)
    then have "(flag AND NOT PTE_PS) AND NOT 0xfff = 0" by (simp only: fl(1) zero_and_eq)
    moreover have "PTE_G AND NOT 0xfff = (0::ulong)" by simp
    ultimately show ?thesis by (simp only: bit.conj_disj_distrib2 or.right_neutral)
  qed
  then have e: "base ?e = paddr" using base_or [OF al(2)] by simp
  have "present (flag AND NOT PTE_PS OR PTE_G)" using fl(2) by (simp add: present_bit bit_simps)
  then have pe: "present ?e" using present_or [OF al(2)] by (simp only:)
  have tr: "if same_4k vaddr w then translate st' w = Some (paddr + (w AND 0xfff)) else translate st' w = translate st2 w" for w
  proof (cases "behind ?l (path1 vaddr) (pt_index w # path1 w)")
    case True
    then have same: "?l = pt_index w" "path1 vaddr = path1 w" by (auto simp: behind_Cons) (auto simp: behind_def)
    have t1: "tab st' (path1 w) = Some p" using bw(3) unfolding same(2) .
    then have e1: "ent st' (pt_index w) (path1 w) = ?e" using bw(4) by (simp add: ent_def same(1) del: tab.simps)
    from t1 obtain q where t2: "tab st' (path2 w) = Some q" and c: "child (mem st' q (pd_index w)) = Some p"
      by (auto split: option.splits)
    note u = upper_entries [OF t2]
    have "present (mem st' q (pd_index w))" "\<not> huge (mem st' q (pd_index w))" using c by (auto simp: child_def split: if_splits)
    then have "translate st' w = Some (paddr + (w AND 0xfff))"
      unfolding translate_ent u(5) e1 using u(1-4) pe e by (simp add: walk_result_def)
    moreover have "same_4k vaddr w" using same by (simp add: same_4k_def)
    ultimately show ?thesis by simp
  next
    case False
    then have "\<not> same_4k vaddr w" by (auto simp: same_4k_def behind_Cons)
    with translate_differs [OF bw(1) False] show ?thesis by simp
  qed
  have "map_4k_page_p2v paddr vaddr flag st = Inr (OK, st')"
    unfolding map_4k_page_p2v_def b using al fl(1) pt by (simp add: al4k_def st'_def)
  moreover have "vaddr \<in> set (tlb_flushed st')" by (simp add: st'_def flush_tlb_one_page_def)
  moreover have "if same_4k vaddr w then translate st' w = Some (paddr + (w AND 0xfff))
      else same_2m vaddr w \<and> \<not> pde_present st vaddr \<or> translate st' w = translate st w" for w
    using tr [of w] tr2 [of w] tr1 [of w] pr by auto
  ultimately show ?thesis using bw(2) by blast
qed

section \<open>Properties\<close>

text \<open>
  An empty address space: the top level table is the page at 4K, and the memory from 1M on, 512K,
  is free for page tables.
\<close>

definition low_hole_phys :: "phys" where
  "low_hole_phys = one_page_phys\<lparr>phy_page_holes :=
     \<lparr>nodes = (\<lambda>i. if i = 0 then \<lparr>h_addr = 0x100000, h_size = 0x80000, pnext = None, origin_size = 0x80000\<rparr>
                    else \<lparr>h_addr = 0, h_size = 0, pnext = None, origin_size = 0\<rparr>),
      phead = Some 0, pfree = None\<rparr>\<rparr>"

definition empty_pgt :: "pgt" where
  "empty_pgt = \<lparr>physm = low_hole_phys, pml4_pa = 0x1000, mem = (\<lambda>_ _. 0), tlb_flushed = []\<rparr>"

lemma low_hole_phys_inv: "phys_inv low_hole_phys" "phys_bytes low_hole_phys = {0x100000..<0x180000} \<union> {0x200000..<0x400000}"
proof -
  let ?L = "phy_page_holes low_hole_phys"
  have rep: "hl_rep MAX_PHY_PAGE_HOLE ?L [0] []" "hl_sorted ?L [0]"
    by (simp_all add: low_hole_phys_def hl_rep_def hl_sorted_def next_of_def)
  have bytes: "hl_bytes ?L = {0x100000..<0x180000}"
    unfolding hl_bytes_rep [OF rep(1)] by (simp add: low_hole_phys_def span_def)
  have area: "page_area (pmem low_hole_phys) = {0x200000..<0x400000}"
    by (simp add: low_hole_phys_def page_area_def page_bytes_def)
  have "hl_al ?L" by (simp add: low_hole_phys_def hl_al_def) (simp add: al4k_def)
  moreover have "pm_inv (pmem low_hole_phys)" "\<not> spin_page low_hole_phys"
    using one_page_phys_inv by (simp_all add: low_hole_phys_def phys_inv_def)
  ultimately show "phys_inv low_hole_phys"
    using rep bytes area by (auto simp: phys_inv_def hl_sorted_inv_def)
  show "phys_bytes low_hole_phys = {0x100000..<0x180000} \<union> {0x200000..<0x400000}"
    by (simp add: phys_bytes_def bytes area)
qed

lemma low_hole_phys_serves: "can_serve 3 low_hole_phys"
proof -
  have lock: "spin_page one_page_phys = False" using one_page_phys_inv by (simp add: phys_inv_def)
  show ?thesis
    by (simp add: numeral_3_eq_3 low_hole_phys_def alloc_phy_page_small_def align_4k_def lock find_fit_def walk.simps
        refill_small_loop.simps carve_def Let_def)
qed

lemma empty_pgt_tab: "valid_path p \<Longrightarrow> tab empty_pgt p = (if p = [] then Some 0x1000 else None)"
  by (induction p) (auto simp: empty_pgt_def child_def)

lemma empty_pgt_inv: "pt_inv empty_pgt"
proof -
  have "\<forall>p t. valid_path p \<longrightarrow> tab empty_pgt p = Some t \<longrightarrow> al4k t \<and> t \<noteq> 0 \<and> span t 0x1000 \<inter> phys_bytes (physm empty_pgt) = {}"
    using empty_pgt_tab low_hole_phys_inv(2) by (auto simp: empty_pgt_def span_def al4k_def split: if_splits)
  moreover have "\<forall>p q t. valid_path p \<longrightarrow> valid_path q \<longrightarrow> tab empty_pgt p = Some t \<longrightarrow> tab empty_pgt q = Some t \<longrightarrow> p = q"
    using empty_pgt_tab by (auto split: if_splits)
  moreover have "\<forall>p t i. valid_path p \<longrightarrow> tab empty_pgt p = Some t \<longrightarrow> i < 512 \<longrightarrow> wf_entry p (mem empty_pgt t i)"
    by (simp add: empty_pgt_def wf_entry_def)
  moreover have "phys_inv (physm empty_pgt)" "\<forall>x \<in> phys_bytes (physm empty_pgt). x < 2 ^ 46"
    using low_hole_phys_inv by (auto simp: empty_pgt_def)
  ultimately show ?thesis unfolding pt_inv_def by blast
qed

text \<open>
  C19: \<open>map_page_p2v\<close> of an aligned 2M page with present and page-size flags, with memory for two
  tables, returns OK, keeps the tree of tables, flushes the page from the TLB, and changes the
  translation in exactly one way: the addresses of the 2M page of \<open>vaddr\<close> translate to \<open>paddr\<close>
  plus their offset, and every other address translates as before, also when a 1G page had to be split.
\<close>

theorem map_page_p2v_correct:
  assumes "pt_inv st" and "can_serve 2 (physm st)" and "al2m vaddr" and "al2m paddr"
    and "flag AND NOT 0xfff = 0" and "present flag" and "huge flag"
  shows "\<exists>st'. map_page_p2v paddr vaddr flag st = Inr (OK, st') \<and> pt_inv st' \<and> vaddr \<in> set (tlb_flushed st') \<and>
    (\<forall>w. translate st' w = (if same_2m vaddr w then Some (paddr + (w AND PAGE_2M_MASK)) else translate st w))"
  using map_page_p2v_run [of st 0, OF assms(1) _ assms(3-7)] assms(2) by (auto simp: numeral_2_eq_2)

theorem map_page_p2v_correct_witness:
  "\<exists>st'. map_page_p2v 0x200000 0xffffc90000000000 map_flags_rw empty_pgt = Inr (OK, st') \<and>
     translate st' 0xffffc90000000123 = Some 0x200123"
proof -
  have s: "can_serve 2 (physm empty_pgt)"
    using can_serve_mono [of 2 low_hole_phys] low_hole_phys_serves by (simp add: empty_pgt_def del: can_serve.simps)
  have "\<exists>st'. map_page_p2v 0x200000 0xffffc90000000000 map_flags_rw empty_pgt = Inr (OK, st') \<and>
     (\<forall>w. translate st' w = (if same_2m 0xffffc90000000000 w then Some (0x200000 + (w AND PAGE_2M_MASK)) else translate empty_pgt w))"
    using map_page_p2v_correct [OF empty_pgt_inv s, of "0xffffc90000000000" "0x200000" map_flags_rw]
    by (auto simp: map_flags_rw_def al2m_def present_def huge_def)
  moreover have "same_2m 0xffffc90000000000 0xffffc90000000123"
    by (simp add: same_2m_def pml4_index_def pdp_index_def pd_index_def)
  ultimately show ?thesis by force
qed

text \<open>
  C20: \<open>map_4k_page_p2v\<close> of an aligned 4K page, with memory for three tables and no 1G page at the
  address, returns OK, keeps the tree of tables and flushes the page; the 4K page translates to
  \<open>paddr\<close>, and every other address as before, with one exception: if the directory entry was empty,
  the new table is not cleared and nothing is said about the other addresses of that 2M range.
\<close>

theorem map_4k_page_p2v_correct:
  assumes "pt_inv st" and "can_serve 3 (physm st)" and "al4k vaddr" and "al4k paddr" and "no_1g st vaddr"
    and "flag AND NOT 0xfff = 0" and "present flag"
  shows "\<exists>st'. map_4k_page_p2v paddr vaddr flag st = Inr (OK, st') \<and> pt_inv st' \<and> vaddr \<in> set (tlb_flushed st') \<and>
    (\<forall>w. if same_4k vaddr w then translate st' w = Some (paddr + (w AND 0xfff))
         else same_2m vaddr w \<and> \<not> pde_present st vaddr \<or> translate st' w = translate st w)"
  using assms by (rule map_4k_page_p2v_run)

theorem map_4k_page_p2v_correct_witness:
  "\<exists>st'. map_4k_page_p2v 0x5000 0xffffc90000003000 map_flags_rw empty_pgt = Inr (OK, st') \<and>
     translate st' 0xffffc90000003004 = Some 0x5004"
proof -
  have s: "can_serve 3 (physm empty_pgt)" using low_hole_phys_serves by (simp add: empty_pgt_def del: can_serve.simps)
  have no: "no_1g empty_pgt 0xffffc90000003000" by (simp add: no_1g_def ent_def empty_pgt_def child_def)
  have "\<exists>st'. map_4k_page_p2v 0x5000 0xffffc90000003000 map_flags_rw empty_pgt = Inr (OK, st') \<and>
     (\<forall>w. same_4k 0xffffc90000003000 w \<longrightarrow> translate st' w = Some (0x5000 + (w AND 0xfff)))"
    using map_4k_page_p2v_correct [OF empty_pgt_inv s _ _ no, of "0x5000" map_flags_rw]
    by (auto simp: map_flags_rw_def al4k_def present_def)
  moreover have "same_4k 0xffffc90000003000 0xffffc90000003004"
    by (simp add: same_4k_def pml4_index_def pdp_index_def pd_index_def pt_index_def)
  ultimately show ?thesis by force
qed

section \<open>Looking up and unmapping\<close>

lemma get_pte_existing:
  assumes inv: "pt_inv st" and t: "tab st (path2 v) = Some pd"
  shows "get_pte_with_addr (v AND NOT PAGE_2M_MASK) st = Some (pd, pd_index v)"
proof -
  from t obtain pdp where p3: "tab st (path3 v) = Some pdp" and c2: "child (mem st pdp (pdp_index v)) = Some pd"
    by (auto split: option.splits)
  from p3 have "child (mem st (pml4_pa st) (pml4_index v)) = Some pdp" by simp
  then have b3: "base (mem st (pml4_pa st) (pml4_index v)) = pdp" by (auto simp: child_def split: if_splits)
  have b2: "base (mem st pdp (pdp_index v)) = pd" using c2 by (auto simp: child_def split: if_splits)
  have nz: "pdp \<noteq> 0" "pd \<noteq> 0" using pt_invD(4) [OF inv _ p3] pt_invD(4) [OF inv _ t] by simp_all
  show ?thesis unfolding get_pte_with_addr_def index_page using b3 b2 nz by simp
qed

lemma translate_Some_tab:
  assumes tr: "translate st v = Some pa" and no: "no_1g st v"
  shows "\<exists>pd. tab st (path2 v) = Some pd \<and> present (mem st pd (pd_index v))"
proof -
  have "present (ent st (pd_index v) (path2 v))"
    using tr no unfolding translate_ent walk_result_def no_1g_def by (auto split: if_splits)
  then show ?thesis by (intro pde_present_tab) (simp add: pde_present_def)
qed

text \<open>
  C22: Where no 1G page is mapped, the walk in software agrees with the processor: for an
  address that translates, \<open>get_phy_addr\<close> returns its physical address.
\<close>

theorem get_phy_addr_translate:
  assumes "pt_inv st" and "no_1g st v" and "translate st v = Some pa"
  shows "get_phy_addr v st = pa"
proof -
  from translate_Some_tab [OF assms(3,2)] obtain pd where
    t: "tab st (path2 v) = Some pd" and pr: "present (mem st pd (pd_index v))" by blast
  let ?e = "mem st pd (pd_index v)"
  note u = upper_entries [OF t]
  note g = get_pte_existing [OF assms(1) t]
  show ?thesis
  proof (cases "huge ?e")
    case True
    then have "translate st v = Some (base ?e + (v AND PAGE_2M_MASK))"
      unfolding translate_ent u(5) using u(1-4) pr by (simp add: walk_result_def)
    moreover have "get_phy_addr v st = base ?e + (v AND PAGE_2M_MASK)"
      unfolding get_phy_addr_def map_paddr_flags_at_def g using True pr large_page_iff [of ?e] by (simp add: Let_def)
    ultimately show ?thesis using assms(3) by simp
  next
    case False
    have t1: "tab st (path1 v) = Some (base ?e)" using t pr False by (simp add: child_def)
    have e1: "ent st (pt_index v) (path1 v) = mem st (base ?e) (pt_index v)" using t1 by (simp add: ent_def del: tab.simps)
    have "translate st v = (if present (mem st (base ?e) (pt_index v))
        then Some (base (mem st (base ?e) (pt_index v)) + (v AND 0xfff)) else None)"
      unfolding translate_ent u(5) e1 using u(1-4) pr False by (simp add: walk_result_def)
    moreover have "get_phy_addr v st = base (mem st (base ?e) (pt_index v)) + (v AND 0xfff)"
      unfolding get_phy_addr_def map_paddr_flags_at_def g using False large_page_iff [of ?e] by (simp add: Let_def)
    ultimately show ?thesis using assms(3) by (simp split: if_splits)
  qed
qed

text \<open>
  For an address that is not mapped because its page directory entry is empty, \<open>get_phy_addr\<close> does
  not return 0: it reads the page at physical address 0 as if it were a page table.
\<close>

theorem get_phy_addr_unmapped:
  assumes "pt_inv st" and "tab st (path2 v) = Some pd" and "mem st pd (pd_index v) = 0"
  shows "translate st v = None \<and> get_phy_addr v st = base (mem st 0 (pt_index v)) + (v AND 0xfff)"
proof -
  note u = upper_entries [OF assms(2)]
  have "translate st v = None"
    unfolding translate_ent u(5) using u(1-4) assms(3) by (simp add: walk_result_def)
  moreover have "get_phy_addr v st = base (mem st 0 (pt_index v)) + (v AND 0xfff)"
    unfolding get_phy_addr_def map_paddr_flags_at_def get_pte_existing [OF assms(1,2)] using assms(3) by (simp add: Let_def)
  ultimately show ?thesis by blast
qed

text \<open>
  C21: \<open>unmap_at\<close> of one aligned 2M page that is mapped returns, flushes the page, and makes
  exactly the addresses of that page untranslatable.
\<close>

theorem unmap_at_2m_correct:
  assumes "pt_inv st" and "al2m v" and "tab st (path2 v) = Some pd"
    and "present (mem st pd (pd_index v))" and "huge (mem st pd (pd_index v))"
  shows "\<exists>st'. unmap_at v PAGE_SIZE_LARGE st = Inr st' \<and> pt_inv st' \<and> v \<in> set (tlb_flushed st') \<and>
    (\<forall>w. translate st' w = (if same_2m v w then None else translate st w))"
proof -
  let ?k = "pd_index v"
  define st' where "st' = flush_tlb_one_page v (set_entry pd ?k 0 st)"
  have st': "mem st' = (mem st)(pd := (mem st pd)(?k := 0))" "pml4_pa st' = pml4_pa st" "physm st' = physm st"
    by (simp_all add: st'_def)
  have "child 0 = None" "wf_entry (path2 v) 0" "valid_path (?k # path2 v)" by (simp_all add: child_def wf_entry_def)
  note lw = leaf_write [OF assms(1) this(3) assms(3) this(1,2) st']
  have tr: "translate st' w = (if same_2m v w then None else translate st w)" for w
  proof (cases "same_2m v w")
    case True
    then have p: "path2 v = path2 w" "?k = pd_index w" by (simp_all add: same_2m_def)
    note u = upper_entries [OF lw(3) [unfolded p]]
    have e2: "ent st' (pd_index w) (path2 w) = 0" using lw(4) p(2) by (simp only: u(5))
    show ?thesis unfolding translate_ent e2 using u(1-4) True by (simp add: walk_result_def)
  next
    case False
    then have "\<not> behind ?k (path2 v) (pt_index w # path1 w)" unfolding behind_page .
    with translate_differs [OF lw(1)] False show ?thesis by simp
  qed
  have e: "mem st pd ?k AND (PTE_PS OR PTE_P) = (PTE_PS OR PTE_P)" using large_page_iff assms(4,5) by blast
  then have ne: "mem st pd ?k \<noteq> 0" by auto
  have al: "v AND NOT PAGE_2M_MASK = v"
    using base_2m [OF assms(2)] .
  note g = get_pte_existing [OF assms(1,3)]
  have "unmap_free_at_impl v PAGE_SIZE_LARGE False st = Some (Inr st')"
    unfolding unmap_free_at_impl.simps [of v PAGE_SIZE_LARGE False st] g using ne e al
    by (simp add: Let_def unmap_free_at_impl.simps [of _ 0] st'_def)
  then have "unmap_at v PAGE_SIZE_LARGE st = Inr st'" by (simp add: unmap_at_def)
  moreover have "v \<in> set (tlb_flushed st')" by (simp add: st'_def flush_tlb_one_page_def)
  ultimately show ?thesis using lw(2) tr by blast
qed

text \<open>An address space in which the 2M page at physical 2M is mapped at address 0.\<close>

definition small_pgt :: "pgt" where
  "small_pgt = empty_pgt\<lparr>mem := (\<lambda>t i. if t = 0x1000 \<and> i = 0 then 0x2003 else if t = 0x2000 \<and> i = 0 then 0x3003
     else if t = 0x3000 \<and> i = 0 then 0x200083 else 0)\<rparr>"

lemma small_pgt_tab:
  "tab small_pgt p = (if p = [] then Some 0x1000 else if p = [0] then Some 0x2000 else if p = [0, 0] then Some 0x3000 else None)"
proof (induction p)
  case Nil
  then show ?case by (simp add: small_pgt_def empty_pgt_def)
next
  case (Cons i p)
  have "child 0x2003 = Some 0x2000" "child 0x3003 = Some 0x3000" "child 0x200083 = None" "child 0 = None"
    by (simp_all add: child_def present_def huge_def base_def)
  with Cons show ?case by (auto simp: small_pgt_def)
qed

lemma small_pgt_inv: "pt_inv small_pgt"
proof -
  have ph: "physm small_pgt = low_hole_phys" by (simp add: small_pgt_def empty_pgt_def)
  have "\<forall>p t. valid_path p \<longrightarrow> tab small_pgt p = Some t \<longrightarrow> al4k t \<and> t \<noteq> 0 \<and> span t 0x1000 \<inter> phys_bytes (physm small_pgt) = {}"
    unfolding small_pgt_tab ph low_hole_phys_inv(2) by (auto simp: span_def al4k_def split: if_splits)
  moreover have "\<forall>p q t. valid_path p \<longrightarrow> valid_path q \<longrightarrow> tab small_pgt p = Some t \<longrightarrow> tab small_pgt q = Some t \<longrightarrow> p = q"
    by (auto simp: small_pgt_tab split: if_splits)
  moreover have "\<forall>p t i. valid_path p \<longrightarrow> tab small_pgt p = Some t \<longrightarrow> i < 512 \<longrightarrow> wf_entry p (mem small_pgt t i)"
    unfolding small_pgt_tab by (auto simp: small_pgt_def wf_entry_def present_def huge_def base_def split: if_splits)
  moreover have "phys_inv (physm small_pgt)" "\<forall>x \<in> phys_bytes (physm small_pgt). x < 2 ^ 46"
    unfolding ph using low_hole_phys_inv by auto
  ultimately show ?thesis unfolding pt_inv_def by blast
qed

lemma small_pgt_0:
  "path2 0 = [0, 0]" "pd_index 0 = 0" "path3 0x123 = [0]" "path2 0x123 = [0, 0]" "pdp_index 0x123 = 0" "pd_index 0x123 = 0"
  "path2 0x200000 = [0, 0]" "pd_index 0x200000 = 1" "pt_index 0x200000 = 0"
  by (simp_all add: pml4_index_def pdp_index_def pd_index_def pt_index_def)

theorem get_phy_addr_translate_witness: "get_phy_addr 0x123 small_pgt = 0x200123"
proof -
  have tr: "translate small_pgt 0x123 = Some 0x200123"
    by (simp add: translate_def small_pgt_def empty_pgt_def pml4_index_def pdp_index_def pd_index_def present_def huge_def base_def)
  have no: "no_1g small_pgt 0x123"
    unfolding no_1g_def ent_def small_pgt_0 small_pgt_tab by (simp add: small_pgt_def huge_def)
  from get_phy_addr_translate [OF small_pgt_inv no tr] show ?thesis .
qed

theorem get_phy_addr_unmapped_witness:
  "translate (small_pgt\<lparr>mem := (mem small_pgt)(0 := (\<lambda>_. 0xdead000))\<rparr>) 0x200000 = None \<and>
   get_phy_addr 0x200000 (small_pgt\<lparr>mem := (mem small_pgt)(0 := (\<lambda>_. 0xdead000))\<rparr>) = 0xdead000"
proof -
  let ?st = "small_pgt\<lparr>mem := (mem small_pgt)(0 := (\<lambda>_. 0xdead000))\<rparr>"
  have tabs: "tab ?st p = tab small_pgt p" for p
  proof (induction p)
    case (Cons i p)
    then show ?case using small_pgt_tab [of p] by (auto split: option.splits if_splits)
  qed simp
  have "mem ?st t i = mem small_pgt t i" if "tab small_pgt p = Some t" for p t i
    using that small_pgt_tab [of p] by (auto split: if_splits)
  then have inv: "pt_inv ?st" using small_pgt_inv unfolding pt_inv_def tabs by simp
  have t: "tab ?st (path2 0x200000) = Some 0x3000" unfolding tabs small_pgt_0 small_pgt_tab by simp
  have z: "mem ?st 0x3000 (pd_index 0x200000) = 0" unfolding small_pgt_0 by (simp add: small_pgt_def)
  from get_phy_addr_unmapped [OF inv t z] show ?thesis by (simp add: base_def)
qed

theorem unmap_at_2m_correct_witness:
  "\<exists>st'. unmap_at 0 PAGE_SIZE_LARGE small_pgt = Inr st' \<and> translate st' 0x123 = None"
proof -
  have t: "tab small_pgt (path2 0) = Some 0x3000" unfolding small_pgt_0 small_pgt_tab by simp
  have e: "present (mem small_pgt 0x3000 (pd_index 0))" "huge (mem small_pgt 0x3000 (pd_index 0))"
    unfolding small_pgt_0 by (simp_all add: small_pgt_def present_def huge_def)
  have "same_2m 0 0x123" by (simp add: same_2m_def pml4_index_def pdp_index_def pd_index_def)
  with unmap_at_2m_correct [OF small_pgt_inv _ t e] show ?thesis by auto
qed

end
