(* ===== verification/Vm_Zone.thy ===== *)
theory Vm_Zone
  imports Hole_List Range_Alloc Memory_Layout
begin

text \<open>
  The virtual address zones and the register of kernel stacks, \<open>kernel/vm.c\<close>. A zone is
  an array of 100 descriptors with three lists: the holes, the blocks handed out, and the unused
  descriptors. Addresses and sizes are rounded to 2M.
\<close>

section \<open>Zones\<close>

abbreviation PAGE_MASK :: ulong where "PAGE_MASK \<equiv> 0x1fffff"
abbreviation MAX_LINEAR_HOLE :: nat where "MAX_LINEAR_HOLE \<equiv> 100"

text \<open>\<open>zl\<close> is the array \<open>linear_holes\<close> with the heads \<open>phead\<close> and \<open>pfreeh\<close>.\<close>

record linear_zone =
  zl :: "unit hole_list"
  alloced :: ptr
  spin_vm :: spinlock_t

definition align_2m :: "ulong \<Rightarrow> ulong" where
  "align_2m sz = (if sz AND PAGE_MASK \<noteq> 0 then (sz AND NOT PAGE_MASK) + PAGE_SIZE_LARGE else sz)"

text \<open>The early return after a merge leaves the lock taken, as in \<open>free_kheap_4k\<close>.\<close>

definition free_linear_zone :: "ulong \<Rightarrow> ulong \<Rightarrow> linear_zone \<Rightarrow> linear_zone outcome" where
  "free_linear_zone a sz0 z =
     andThen (ASSERT (a AND PAGE_MASK = 0)) (\<lambda>_.
     let sz = align_2m sz0 in
     case pfree (zl z) of
       None \<Rightarrow> panic
     | Some p \<Rightarrow>
         andThen (spin_lock (spin_vm z)) (\<lambda>l.
         andThen (free_holes (\<lambda>m. m\<lparr>h_size := h_size m + sz\<rparr>) (\<lambda>m. m\<lparr>h_addr := a, h_size := sz\<rparr>)
             a p (zl z)) (\<lambda>(merged, L).
         if merged then Inr (z\<lparr>zl := L, spin_vm := l\<rparr>)
         else Inr (z\<lparr>zl := L, spin_vm := spin_unlock l\<rparr>))))"

text \<open>
  \<open>check_alloced\<close>: a block handed out whose 2M page holds the wanted address is
  extended, if the page has room. A return of 0 is \<open>NULL\<close>.
\<close>

definition extends_block :: "ulong \<Rightarrow> ulong \<Rightarrow> hole \<Rightarrow> bool" where
  "extends_block addr sz m \<longleftrightarrow> addr AND PAGE_MASK \<le> h_size m \<and> h_size m + sz < PAGE_SIZE_LARGE"

definition follows_block :: "ulong \<Rightarrow> ulong \<Rightarrow> hole \<Rightarrow> bool" where
  "follows_block addr sz m \<longleftrightarrow> (addr AND PAGE_MASK) + sz < PAGE_SIZE_LARGE \<and> addr AND PAGE_MASK \<ge> h_size m"

definition check_alloced :: "ulong \<Rightarrow> ulong \<Rightarrow> linear_zone \<Rightarrow> (ulong \<times> linear_zone) outcome" where
  "check_alloced addr sz z =
     (let baseaddr = addr AND NOT PAGE_MASK; L = zl z in
      andThen (spin_lock (spin_vm z)) (\<lambda>l.
      andThen (ending (walk (next_of L) (\<lambda>i. h_addr (nodes L i) = baseaddr \<and>
          (extends_block addr sz (nodes L i) \<or> follows_block addr sz (nodes L i))) (alloced z))) (\<lambda>q.
      case q of
        None \<Rightarrow> Inr (0, z\<lparr>spin_vm := spin_unlock l\<rparr>)
      | Some i \<Rightarrow>
          if extends_block addr sz (nodes L i)
          then Inr (baseaddr + h_size (nodes L i),
                    z\<lparr>zl := L\<lparr>nodes := (nodes L)(i := (nodes L i)\<lparr>h_size := h_size (nodes L i) + sz\<rparr>)\<rparr>,
                      spin_vm := spin_unlock l\<rparr>)
          else Inr (addr,
                    z\<lparr>zl := L\<lparr>nodes := (nodes L)(i := (nodes L i)\<lparr>h_size := (addr AND PAGE_MASK) + sz\<rparr>)\<rparr>,
                      spin_vm := spin_unlock l\<rparr>))))"

text \<open>The descriptor \<open>pf\<close>, taken from the unused ones before, records the block.\<close>

definition record_block :: "nat \<Rightarrow> ulong \<Rightarrow> ulong \<Rightarrow> linear_zone \<Rightarrow> linear_zone" where
  "record_block pf a sz z =
     (let L = zl z in
      z\<lparr>zl := L\<lparr>pfree := pnext (nodes L pf),
                nodes := (nodes L)(pf := (nodes L pf)\<lparr>h_addr := a, h_size := sz, pnext := alloced z\<rparr>)\<rparr>,
        alloced := Some pf\<rparr>)"

text \<open>Taking the block from the front of hole \<open>p\<close>.\<close>

definition take_front :: "nat \<Rightarrow> nat \<Rightarrow> ulong \<Rightarrow> ulong \<Rightarrow> ulong \<Rightarrow> linear_zone \<Rightarrow> (ulong \<times> linear_zone) outcome" where
  "take_front p pf sz realaddr realsize z =
     andThen (carve (\<lambda>rest. rest = 0) sz p (zl z)) (\<lambda>(pret, L).
     let z1 = record_block pf pret (realsize + (realaddr AND PAGE_MASK)) (z\<lparr>zl := L\<rparr>) in
     Inr (pret + (realaddr AND PAGE_MASK), z1\<lparr>spin_vm := spin_unlock (spin_vm z1)\<rparr>))"

text \<open>Whether hole \<open>m\<close> contains the wanted block.\<close>

definition contains_block :: "ulong \<Rightarrow> ulong \<Rightarrow> hole \<Rightarrow> bool" where
  "contains_block addr sz m \<longleftrightarrow> h_addr m \<le> addr \<and> h_addr m + h_size m \<ge> addr + sz"

function alloc_linear_zone_impl :: "ulong \<Rightarrow> ulong \<Rightarrow> linear_zone \<Rightarrow> (ulong \<times> linear_zone) outcome" where
  "alloc_linear_zone_impl realaddr realsize z =
     andThen (if realaddr \<noteq> 0 then check_alloced realaddr realsize z else Inr (0, z)) (\<lambda>(addr0, z0).
     if addr0 \<noteq> 0 then Inr (addr0, z0)
     else case pfree (zl z0) of
       None \<Rightarrow> panic
     | Some pf \<Rightarrow>
         let addr = (if realaddr AND PAGE_MASK \<noteq> 0 then realaddr AND NOT PAGE_MASK else realaddr);
             sz = align_2m realsize + (realaddr AND PAGE_MASK) in
         andThen (spin_lock (spin_vm z0)) (\<lambda>l.
         let z1 = z0\<lparr>spin_vm := l\<rparr>; L = zl z0 in
         if realaddr = 0 then
           andThen (ending (find_fit sz L)) (\<lambda>q.
           case q of
             None \<Rightarrow> Inr (0, z1\<lparr>spin_vm := spin_unlock l\<rparr>)
           | Some p \<Rightarrow> take_front p pf sz realaddr realsize z1)
         else
           andThen (ending (walk (next_of L)
               (\<lambda>i. \<not> h_size (nodes L i) < sz \<or> contains_block addr sz (nodes L i)) (phead L))) (\<lambda>q.
           case q of
             None \<Rightarrow> alloc_linear_zone_impl 0 realsize (z1\<lparr>spin_vm := spin_unlock l\<rparr>)
           | Some p \<Rightarrow>
               if h_size (nodes L p) < sz \<or> \<not> contains_block addr sz (nodes L p)
               then alloc_linear_zone_impl 0 realsize (z1\<lparr>spin_vm := spin_unlock l\<rparr>)
               else if h_addr (nodes L p) \<noteq> addr then
                 let oldsize = h_size (nodes L p);
                     L1 = L\<lparr>nodes := (nodes L)(p := (nodes L p)\<lparr>h_size := addr - h_addr (nodes L p)\<rparr>)\<rparr>;
                     z2 = record_block pf addr (realsize + (realaddr AND PAGE_MASK)) (z1\<lparr>zl := L1\<rparr>);
                     freeaddr = (addr + sz + PAGE_MASK) AND NOT PAGE_MASK in
                 andThen (free_linear_zone freeaddr (h_addr (nodes L p) + oldsize - freeaddr)
                     (z2\<lparr>spin_vm := spin_unlock l\<rparr>)) (\<lambda>z3.
                 Inr (addr + (realaddr AND PAGE_MASK), z3))
               else take_front p pf sz realaddr realsize z1)))"
  by pat_completeness auto
termination
  by (relation "measure (\<lambda>(a, _). if a = 0 then 0 else 1)") auto

declare alloc_linear_zone_impl.simps [simp del]

definition init_vm_zone :: "(nat \<Rightarrow> hole) \<Rightarrow> ulong \<Rightarrow> ulong \<Rightarrow> linear_zone outcome" where
  "init_vm_zone m a sz =
     free_linear_zone a sz \<lparr>zl = init_holes MAX_LINEAR_HOLE m, alloced = None, spin_vm = init_spinlock\<rparr>"

section \<open>The four zones\<close>

datatype vm_zone_t = VM_ZONE_VMALLOC | VM_ZONE_KERNEL_STACK | VM_ZONE_LOW_MMAP | VM_ZONE_KERNEL_BELOW1G

record vm_zones =
  low_mmap_zone :: linear_zone
  vmalloc_zone :: linear_zone
  kernel_stack_zone :: linear_zone
  kernel_below1g_zone :: linear_zone

definition get_zone :: "vm_zone_t \<Rightarrow> vm_zones \<Rightarrow> linear_zone" where
  "get_zone zid vz = (case zid of
       VM_ZONE_VMALLOC \<Rightarrow> vmalloc_zone vz
     | VM_ZONE_LOW_MMAP \<Rightarrow> low_mmap_zone vz
     | VM_ZONE_KERNEL_STACK \<Rightarrow> kernel_stack_zone vz
     | VM_ZONE_KERNEL_BELOW1G \<Rightarrow> kernel_below1g_zone vz)"

definition put_zone :: "vm_zone_t \<Rightarrow> linear_zone \<Rightarrow> vm_zones \<Rightarrow> vm_zones" where
  "put_zone zid z vz = (case zid of
       VM_ZONE_VMALLOC \<Rightarrow> vz\<lparr>vmalloc_zone := z\<rparr>
     | VM_ZONE_LOW_MMAP \<Rightarrow> vz\<lparr>low_mmap_zone := z\<rparr>
     | VM_ZONE_KERNEL_STACK \<Rightarrow> vz\<lparr>kernel_stack_zone := z\<rparr>
     | VM_ZONE_KERNEL_BELOW1G \<Rightarrow> vz\<lparr>kernel_below1g_zone := z\<rparr>)"

definition get_zone_from_addr :: "ulong \<Rightarrow> vm_zone_t outcome" where
  "get_zone_from_addr addr =
     (if addr \<ge> VMALLOC_START \<and> addr \<le> VMALLOC_END then Inr VM_ZONE_VMALLOC
      else if addr \<ge> LOW_MMAP_START \<and> addr \<le> LOW_MMAP_END then Inr VM_ZONE_LOW_MMAP
      else if addr \<ge> KERNEL_BELOW_1G_START \<and> addr \<le> KERNEL_BELOW_1G_END then Inr VM_ZONE_KERNEL_BELOW1G
      else panic)"

definition free_linear :: "vm_zone_t \<Rightarrow> ulong \<Rightarrow> ulong \<Rightarrow> vm_zones \<Rightarrow> vm_zones outcome" where
  "free_linear zid addr sz vz =
     andThen (free_linear_zone addr sz (get_zone zid vz)) (\<lambda>z. Inr (put_zone zid z vz))"

definition alloc_linear_impl :: "vm_zone_t \<Rightarrow> ulong \<Rightarrow> ulong \<Rightarrow> vm_zones \<Rightarrow> (ulong \<times> vm_zones) outcome" where
  "alloc_linear_impl zid addr sz vz =
     andThen (alloc_linear_zone_impl addr sz (get_zone zid vz)) (\<lambda>(a, z). Inr (a, put_zone zid z vz))"

definition alloc_linear_at :: "vm_zone_t \<Rightarrow> ulong \<Rightarrow> ulong \<Rightarrow> vm_zones \<Rightarrow> (ulong \<times> vm_zones) outcome" where
  "alloc_linear_at zid addr sz vz = alloc_linear_impl zid addr sz vz"

definition alloc_linear :: "vm_zone_t \<Rightarrow> ulong \<Rightarrow> vm_zones \<Rightarrow> (ulong \<times> vm_zones) outcome" where
  "alloc_linear zid sz vz = alloc_linear_impl zid 0 sz vz"

definition alloc_linear_hint :: "ulong \<Rightarrow> ulong \<Rightarrow> vm_zones \<Rightarrow> (ulong \<times> vm_zones) outcome" where
  "alloc_linear_hint addr sz vz =
     andThen (get_zone_from_addr addr) (\<lambda>zid. alloc_linear_impl zid addr sz vz)"

definition free_linear_hint :: "ulong \<Rightarrow> ulong \<Rightarrow> vm_zones \<Rightarrow> vm_zones outcome" where
  "free_linear_hint addr sz vz =
     andThen (get_zone_from_addr addr) (\<lambda>zid. free_linear zid addr sz vz)"

section \<open>Stacks\<close>

text \<open>\<open>name\<close> is only printed. The size is kept in 32 bits.\<close>

record stack_owner =
  s_pnext :: ptr
  s_start :: ulong
  s_size :: u32
  s_cpu :: u32

record stacks =
  stack_nodes :: "nat \<Rightarrow> stack_owner"
  pStackHead :: ptr
  pStackFree :: ptr

abbreviation MAX_STACKS :: nat where "MAX_STACKS \<equiv> 100"

definition init_stack_owner :: "stacks \<Rightarrow> stacks" where
  "init_stack_owner s =
     s\<lparr>stack_nodes := (\<lambda>i. if i < MAX_STACKS then (stack_nodes s i)\<lparr>s_pnext := array_next MAX_STACKS i\<rparr>
                            else stack_nodes s i),
       pStackFree := Some 0\<rparr>"

definition register_stack :: "ulong \<Rightarrow> ulong \<Rightarrow> u32 \<Rightarrow> stacks \<Rightarrow> stacks outcome" where
  "register_stack s_addr e_addr cpu s =
     (case pStackFree s of
        None \<Rightarrow> Inl Assertion_failed
      | Some p \<Rightarrow>
          Inr (s\<lparr>pStackFree := s_pnext (stack_nodes s p),
                 stack_nodes := (stack_nodes s)(p := \<lparr>s_pnext = pStackHead s, s_start = s_addr,
                    s_size = ucast (e_addr - s_addr), s_cpu = cpu\<rparr>),
                 pStackHead := Some p\<rparr>))"

definition in_stack :: "ulong \<Rightarrow> stack_owner \<Rightarrow> bool" where
  "in_stack addr w \<longleftrightarrow> s_start w \<le> addr \<and> s_start w + ucast (s_size w) \<ge> addr"

text \<open>\<open>find_stack\<close> prints the stack it finds, \<open>check_stack\<close> tells whether there is one.\<close>

definition find_stack :: "ulong \<Rightarrow> stacks \<Rightarrow> ptr outcome" where
  "find_stack addr s =
     ending (walk (\<lambda>i. s_pnext (stack_nodes s i)) (\<lambda>i. in_stack addr (stack_nodes s i)) (pStackHead s))"

definition check_stack :: "ulong \<Rightarrow> stacks \<Rightarrow> bool outcome" where
  "check_stack addr s =
     andThen (ending (walk (\<lambda>i. s_pnext (stack_nodes s i)) (\<lambda>i. in_stack addr (stack_nodes s i)) (pStackHead s)))
       (\<lambda>q. Inr (q \<noteq> None))"

text \<open>\<open>init_vm\<close>, with the static arrays of the four zones; the parameters are not used.\<close>

definition init_vm :: "(nat \<Rightarrow> hole) \<Rightarrow> stacks \<Rightarrow> (stacks \<times> vm_zones) outcome" where
  "init_vm m s =
     andThen (init_vm_zone m VMALLOC_START VMALLOC_SIZE) (\<lambda>vmalloc.
     andThen (init_vm_zone m LOW_MMAP_START LOW_MMAP_SIZE) (\<lambda>low.
     andThen (init_vm_zone m KERNEL_STACK_ZONE_START KERNEL_STACK_ZONE_SIZE) (\<lambda>stk.
     andThen (init_vm_zone m KERNEL_BELOW_1G_START KERNEL_BELOW_1G_SIZE) (\<lambda>below.
     Inr (init_stack_owner s, \<lparr>low_mmap_zone = low, vmalloc_zone = vmalloc,
            kernel_stack_zone = stk, kernel_below1g_zone = below\<rparr>)))))"

section \<open>Rounding\<close>

lemma unat_align_2m:
  assumes "unat sz + 0x200000 < 2 ^ 64"
  shows "unat (align_2m sz) = (unat sz + 0x1fffff) div 0x200000 * 0x200000"
proof (cases "0x200000 dvd unat sz")
  case True
  then have "unat (align_2m sz) = unat sz" by (simp add: align_2m_def aligned_2m)
  with True show ?thesis by auto
next
  case False
  have "unat (sz AND NOT PAGE_MASK) + unat PAGE_SIZE_LARGE < 2 ^ 64"
    using assms by (simp add: mask_2m)
  then have "unat ((sz AND NOT PAGE_MASK) + PAGE_SIZE_LARGE) = unat (sz AND NOT PAGE_MASK) + 0x200000"
    by (subst unat_add_no_wrap) simp_all
  then have "unat (align_2m sz) = unat sz - unat sz mod 0x200000 + 0x200000"
    using False by (simp add: align_2m_def aligned_2m mask_2m)
  with round_up_nat [OF _ False] show ?thesis by simp
qed

lemma align_2m_id: "al2m sz \<Longrightarrow> align_2m sz = sz"
  by (simp add: align_2m_def al2m_def)

lemma align_2m_bounds:
  assumes "sz \<noteq> 0" and "unat sz + 0x200000 < 2 ^ 64"
  shows "align_2m sz \<noteq> 0" "sz \<le> align_2m sz" "al2m (align_2m sz)"
proof -
  note u = unat_align_2m [OF assms(2)]
  have lo: "unat sz \<le> unat (align_2m sz)" unfolding u using round_up_ge [of "0x200000" "unat sz"] by simp
  have "0 < unat sz" using assms(1) by (simp add: unat_gt_0)
  with lo show "align_2m sz \<noteq> 0" by (cases "align_2m sz = 0") auto
  show "sz \<le> align_2m sz" using lo by (simp only: word_le_nat_alt)
  show "al2m (align_2m sz)" unfolding al2m_dvd u by (rule dvd_triv_right)
qed

section \<open>Invariant\<close>

text \<open>The three lists of a zone do not share descriptors.\<close>

definition zone_rep :: "linear_zone \<Rightarrow> nat list \<Rightarrow> nat list \<Rightarrow> nat list \<Rightarrow> bool" where
  "zone_rep z hs fs bl \<longleftrightarrow>
     hl_rep MAX_LINEAR_HOLE (zl z) hs fs \<and> hl_sorted (zl z) hs \<and>
     linked (next_of (zl z)) (alloced z) bl \<and> set bl \<inter> (set hs \<union> set fs) = {} \<and> set bl \<subseteq> {..<MAX_LINEAR_HOLE}"

definition zone_bytes :: "linear_zone \<Rightarrow> nat set" where
  "zone_bytes z = hl_bytes (zl z)"

definition zone_inv :: "linear_zone \<Rightarrow> bool" where
  "zone_inv z \<longleftrightarrow> (\<exists>hs fs bl. zone_rep z hs fs bl) \<and> 0 \<notin> zone_bytes z"

definition zone_request :: "ulong \<Rightarrow> linear_zone \<Rightarrow> bool" where
  "zone_request sz z \<longleftrightarrow> sz \<noteq> 0 \<and> unat sz + 0x200000 < 2 ^ 64"

lemma zone_frame [simp]:
  "zone_rep (z\<lparr>spin_vm := b\<rparr>) hs fs bl = zone_rep z hs fs bl" "zone_bytes (z\<lparr>spin_vm := b\<rparr>) = zone_bytes z"
  "zone_inv (z\<lparr>spin_vm := b\<rparr>) = zone_inv z"
  by (simp_all add: zone_rep_def zone_bytes_def zone_inv_def)

lemma free_linear_zone_run:
  assumes rep: "zone_rep z hs fs bl" and lock: "\<not> spin_vm z" and al: "al2m a"
    and blk: "align_2m sz \<noteq> 0" "unat a + unat (align_2m sz) < 2 ^ 64" "span a (align_2m sz) \<inter> zone_bytes z = {}"
  shows "if fs = [] then free_linear_zone a sz z = panic
    else \<exists>merged L' hs' fs'. free_linear_zone a sz z = Inr (z\<lparr>zl := L', spin_vm := merged\<rparr>) \<and>
      (merged \<longleftrightarrow> (\<exists>i \<in> set hs. h_addr (nodes (zl z) i) + h_size (nodes (zl z) i) = a)) \<and>
      zone_rep (z\<lparr>zl := L', spin_vm := merged\<rparr>) hs' fs' bl \<and> hl_bytes L' = zone_bytes z \<union> span a (align_2m sz)"
proof -
  let ?n = "align_2m sz" let ?L = "zl z"
  have hr: "hl_rep MAX_LINEAR_HOLE ?L hs fs" and srt: "hl_sorted ?L hs" and bl: "linked (next_of ?L) (alloced z) bl"
    and sep: "set bl \<inter> (set hs \<union> set fs) = {}" "set bl \<subseteq> {..<MAX_LINEAR_HOLE}"
    using rep by (auto simp: zone_rep_def)
  show ?thesis
  proof (cases fs)
    case Nil
    with hl_repD(2) [OF hr] have "pfree ?L = None" by simp
    with Nil al show ?thesis by (simp add: free_linear_zone_def al2m_def)
  next
    case (Cons p fs1)
    with hl_repD(2) [OF hr] have pf: "pfree ?L = Some p" by simp
    let ?grow = "\<lambda>m::hole. m\<lparr>h_size := h_size m + ?n\<rparr>" and ?fill = "\<lambda>m::hole. m\<lparr>h_addr := a, h_size := ?n\<rparr>"
    have upd: "hole_updates ?grow ?fill a ?n" by (simp add: hole_updates_def)
    note hr' = hr [unfolded Cons]
    from free_holes_spec [OF hr' blk(1,2) blk(3) [unfolded zone_bytes_def] upd] srt obtain merged L' hs' fs' where
      run: "free_holes ?grow ?fill a p ?L = Inr (merged, L')" and r: "hl_rep MAX_LINEAR_HOLE L' hs' fs'" "hl_sorted L' hs'"
      and bytes: "hl_bytes L' = hl_bytes ?L \<union> span a ?n"
      and m: "merged \<longleftrightarrow> (\<exists>i \<in> set hs. h_addr (nodes ?L i) + h_size (nodes ?L i) = a)"
      and sets: "fs' = (if merged then p # fs1 else fs1)" "set hs' \<subseteq> insert p (set hs)" by blast
    have free: "free_linear_zone a sz z = Inr (z\<lparr>zl := L', spin_vm := merged\<rparr>)"
      using al lock run by (simp add: free_linear_zone_def al2m_def pf Let_def)
    have "linked (next_of L') (alloced z) bl"
    proof (rule linked_cong [OF bl])
      fix x assume "x \<in> set bl"
      then have "x \<notin> insert p (set hs)" using sep Cons by auto
      then show "next_of L' x = next_of ?L x" using free_holes_frame [OF hr' run] by (simp add: next_of_def)
    qed
    moreover have "set bl \<inter> (set hs' \<union> set fs') = {}" using sep sets Cons by (auto split: if_splits)
    ultimately have "zone_rep (z\<lparr>zl := L', spin_vm := merged\<rparr>) hs' fs' bl" using r sep(2) by (simp add: zone_rep_def)
    with free m bytes Cons show ?thesis by (simp add: zone_bytes_def) blast
  qed
qed

lemma free_linear_zone_release:
  assumes inv: "zone_inv z" and blk: "a \<noteq> 0" "n \<noteq> 0" "align_2m n = n" "unat a + unat n < 2 ^ 64"
    and disj: "span a n \<inter> zone_bytes z = {}" and run: "free_linear_zone a n z = Inr z'"
  shows "zone_inv z' \<and> zone_bytes z' = zone_bytes z \<union> span a n"
proof -
  obtain hs fs bl where rep: "zone_rep z hs fs bl" and z0: "0 \<notin> zone_bytes z" using inv by (auto simp: zone_inv_def)
  have lock: "\<not> spin_vm z" and al: "al2m a"
    using run by (auto simp: free_linear_zone_def al2m_def outcome_simps spin_lock_def Let_def split: option.splits if_splits)
  from free_linear_zone_run [OF rep lock al, of n] blk disj run obtain L' hs' fs' b where
    z': "z' = z\<lparr>zl := L', spin_vm := b\<rparr>" and rep': "zone_rep z' hs' fs' bl" and bytes: "hl_bytes L' = zone_bytes z \<union> span a n"
    by (auto split: if_splits)
  have "0 \<notin> span a n" using blk(1) by (simp add: span_def unat_eq_0)
  then have "0 \<notin> zone_bytes z'" using bytes z0 by (simp add: z' zone_bytes_def)
  with rep' bytes show ?thesis by (auto simp: zone_inv_def z' zone_bytes_def)
qed

lemma take_front_run:
  assumes rep: "zone_rep z hs (pf # fs) bl" and z0: "0 \<notin> zone_bytes z"
    and p: "p \<in> set hs" "sz \<le> h_size (nodes (zl z) p)" and sz: "sz \<noteq> 0"
  defines "a \<equiv> h_addr (nodes (zl z) p)"
  shows "\<exists>z'. take_front p pf sz ra rs z = Inr (a + (ra AND PAGE_MASK), z') \<and> a \<noteq> 0 \<and> zone_inv z' \<and> \<not> spin_vm z' \<and>
    span a sz \<subseteq> zone_bytes z \<and> zone_bytes z' = zone_bytes z - span a sz \<and> unat a + unat sz < 2 ^ 64 \<and>
    alloced z' = Some pf \<and> h_addr (nodes (zl z') pf) = a \<and> h_size (nodes (zl z') pf) = rs + (ra AND PAGE_MASK)"
proof -
  let ?L = "zl z"
  have hr: "hl_rep MAX_LINEAR_HOLE ?L hs (pf # fs)" and srt: "hl_sorted ?L hs" and bl: "linked (next_of ?L) (alloced z) bl"
    and sep: "set bl \<inter> (set hs \<union> set (pf # fs)) = {}" "set bl \<subseteq> {..<MAX_LINEAR_HOLE}"
    using rep by (auto simp: zone_rep_def)
  note r = hl_repD [OF hr]
  from carve_exact_block [OF hr p] srt obtain L1 hs1 fs1 where
    cv: "carve (\<lambda>r. r = 0) sz p ?L = Inr (a, L1)" and r1: "hl_rep MAX_LINEAR_HOLE L1 hs1 fs1" "hl_sorted L1 hs1"
    and bytes: "hl_bytes L1 = hl_bytes ?L - span a sz"
    and sets: "set hs1 \<subseteq> set hs" "set (pf # fs) \<subseteq> set fs1" "set fs1 \<subseteq> insert p (set (pf # fs))"
    unfolding a_def by blast
  have frame: "nodes L1 i = nodes ?L i" if "i \<notin> set hs" for i using carve_frame [OF hr p(1) cv that] .
  have pfhs: "pf \<notin> set hs" "pf \<notin> set fs" "pf < MAX_LINEAR_HOLE" using r(4,5,7) by auto
  have fsl: "linked (next_of L1) (pnext (nodes L1 pf)) fs"
  proof (rule linked_cong)
    show "linked (next_of ?L) (pnext (nodes L1 pf)) fs" using r(2) frame [OF pfhs(1)] by (simp add: next_of_def)
    show "next_of L1 x = next_of ?L x" if "x \<in> set fs" for x
    proof -
      have "x \<notin> set hs" using that r(5) by auto
      from frame [OF this] show ?thesis by (simp add: next_of_def)
    qed
  qed
  let ?m = "(nodes L1 pf)\<lparr>h_addr := a, h_size := rs + (ra AND PAGE_MASK), pnext := alloced z\<rparr>"
  let ?L2 = "L1\<lparr>pfree := pnext (nodes L1 pf), nodes := (nodes L1)(pf := ?m)\<rparr>"
  let ?z = "z\<lparr>zl := ?L2, alloced := Some pf, spin_vm := False\<rparr>"
  have "pf \<notin> set hs1" using pfhs(1) sets(1) by auto
  note t = take_free_rep [OF r1(1) fsl _ this pfhs(2), of ?m]
  have tr: "hl_rep MAX_LINEAR_HOLE ?L2 hs1 fs" "hl_bytes ?L2 = hl_bytes L1" "hl_sorted ?L2 hs1"
    using t sets(2) r1(2) by auto
  have run: "take_front p pf sz ra rs z = Inr (a + (ra AND PAGE_MASK), ?z)"
    using cv by (simp add: take_front_def record_block_def Let_def)
  have "linked (next_of ?L2) (Some pf) (pf # bl)"
  proof -
    have "linked (next_of ?L2) (alloced z) bl"
    proof (rule linked_cong [OF bl])
      fix x assume x: "x \<in> set bl"
      then have "x \<notin> set hs" "x \<noteq> pf" using sep by auto
      with frame [of x] show "next_of ?L2 x = next_of ?L x" by (simp add: next_of_def)
    qed
    then show ?thesis by (simp add: next_of_def)
  qed
  moreover have "set (pf # bl) \<inter> (set hs1 \<union> set fs) = {}" using sep sets pfhs by auto
  ultimately have rep': "zone_rep ?z hs1 fs (pf # bl)" using tr sep(2) pfhs(3) by (simp add: zone_rep_def)
  have le: "unat sz \<le> unat (h_size (nodes ?L p))" using p(2) by (simp add: word_le_nat_alt)
  then have "span a sz \<subseteq> hspan ?L p" by (auto simp: span_def a_def)
  then have sub: "span a sz \<subseteq> zone_bytes z" using p(1) by (auto simp: zone_bytes_def hl_bytes_rep [OF hr])
  have "unat a \<in> span a sz" using sz by (simp add: span_def unat_gt_0)
  then have "a \<noteq> 0" using sub z0 by (metis subsetD unat_0)
  moreover have "unat a + unat sz < 2 ^ 64" using r(9) [OF p(1)] le unfolding a_def by linarith
  moreover have "zone_bytes ?z = zone_bytes z - span a sz" using tr(2) bytes by (simp add: zone_bytes_def)
  moreover from this have "zone_inv ?z" using rep' z0 by (auto simp: zone_inv_def)
  ultimately show ?thesis using run sub by (intro exI [of _ ?z]) simp
qed

lemma alloc_linear_null_run:
  assumes inv: "zone_inv z" and req: "zone_request sz z" and lock: "\<not> spin_vm z"
  defines "n \<equiv> align_2m sz"
  shows "(\<exists>a z'. alloc_linear_zone_impl 0 sz z = Inr (a, z') \<and> a \<noteq> 0 \<and> zone_inv z' \<and> \<not> spin_vm z' \<and> span a n \<subseteq> zone_bytes z \<and>
      zone_bytes z' = zone_bytes z - span a n \<and> unat a + unat n < 2 ^ 64) \<or>
    alloc_linear_zone_impl 0 sz z = Inr (0, z) \<and> find_fit n (zl z) = Some None \<or>
    alloc_linear_zone_impl 0 sz z = panic \<and> pfree (zl z) = None"
proof -
  obtain hs fs bl where rep: "zone_rep z hs fs bl" and z0: "0 \<notin> zone_bytes z" using inv by (auto simp: zone_inv_def)
  have hr: "hl_rep MAX_LINEAR_HOLE (zl z) hs fs" using rep by (simp add: zone_rep_def)
  have n0: "n \<noteq> 0" using align_2m_bounds(1) [of sz] req by (simp add: zone_request_def n_def)
  note unf = alloc_linear_zone_impl.simps [of 0 sz z]
  show ?thesis
  proof (cases fs)
    case Nil
    with hl_repD(2) [OF hr] show ?thesis by (simp add: unf)
  next
    case (Cons pf fs1)
    with hl_repD(2) [OF hr] have pf: "pfree (zl z) = Some pf" by simp
    obtain q where q: "find_fit n (zl z) = Some q" using find_fit_rep [OF hr] by blast
    show ?thesis
    proof (cases q)
      case None
      have "z\<lparr>spin_vm := False\<rparr> = z" using lock by simp
      with None pf q lock show ?thesis by (simp add: unf Let_def n_def)
    next
      case (Some p)
      note fit = find_fit_Some [OF hr q [unfolded Some]]
      from take_front_run [of "z\<lparr>spin_vm := True\<rparr>" hs pf fs1 bl p n 0 sz] rep z0 fit n0 Cons obtain a z' where
        "take_front p pf n 0 sz (z\<lparr>spin_vm := True\<rparr>) = Inr (a, z')" "a \<noteq> 0" "zone_inv z'" "\<not> spin_vm z'" "span a n \<subseteq> zone_bytes z"
        "zone_bytes z' = zone_bytes z - span a n" "unat a + unat n < 2 ^ 64" by auto
      with pf q lock Some show ?thesis by (simp add: unf Let_def n_def)
    qed
  qed
qed

lemma alloc_linear_null_locked: "spin_vm z \<Longrightarrow> alloc_linear_zone_impl 0 sz z \<noteq> Inr r"
  by (simp add: alloc_linear_zone_impl.simps [of 0] split: option.split)

interpretation zone: range_allocator zone_inv zone_bytes "alloc_linear_zone_impl 0" free_linear_zone zone_request align_2m
proof
  fix s s' :: linear_zone and sz a
  assume inv: "zone_inv s" and req: "zone_request sz s" and run: "alloc_linear_zone_impl 0 sz s = Inr (a, s')" and a: "a \<noteq> 0"
  have lock: "\<not> spin_vm s" using run alloc_linear_null_locked by blast
  have "align_2m sz \<noteq> 0" "align_2m (align_2m sz) = align_2m sz"
    using align_2m_bounds [of sz] align_2m_id req by (auto simp: zone_request_def)
  with alloc_linear_null_run [OF inv req lock] run a
  show "zone_inv s' \<and> span a (align_2m sz) \<subseteq> zone_bytes s \<and> zone_bytes s' = zone_bytes s - span a (align_2m sz) \<and>
      align_2m sz \<noteq> 0 \<and> align_2m (align_2m sz) = align_2m sz \<and> unat a + unat (align_2m sz) < 2 ^ 64" by auto
next
  fix s s' :: linear_zone and sz
  assume inv: "zone_inv s" and req: "zone_request sz s" and run: "alloc_linear_zone_impl 0 sz s = Inr (0, s')"
  have lock: "\<not> spin_vm s" using run alloc_linear_null_locked by blast
  from alloc_linear_null_run [OF inv req lock] run inv show "zone_inv s' \<and> zone_bytes s' = zone_bytes s" by auto
qed (rule free_linear_zone_release)

section \<open>Properties of zones\<close>

lemma init_zone_rep:
  "zone_rep \<lparr>zl = init_holes MAX_LINEAR_HOLE m, alloced = None, spin_vm = b\<rparr> [] [0..<MAX_LINEAR_HOLE] []"
  using init_holes_rep [of MAX_LINEAR_HOLE m] by (simp add: zone_rep_def hl_sorted_def)

lemma init_vm_zone_run:
  assumes "al2m a" "al2m sz" "a \<noteq> 0" "sz \<noteq> 0" "unat a + unat sz < 2 ^ 64"
  shows "\<exists>z. init_vm_zone m a sz = Inr z \<and> zone_inv z \<and> \<not> spin_vm z \<and> zone_bytes z = span a sz"
proof -
  let ?z = "\<lparr>zl = init_holes MAX_LINEAR_HOLE m, alloced = None, spin_vm = False\<rparr>"
  have n: "align_2m sz = sz" using assms(2) by (rule align_2m_id)
  have b: "zone_bytes ?z = {}" by (simp add: zone_bytes_def init_holes_bytes)
  from free_linear_zone_run [OF init_zone_rep [of m False] _ assms(1), of sz] assms n b obtain L' hs' fs' where
    run: "free_linear_zone a sz ?z = Inr (?z\<lparr>zl := L', spin_vm := False\<rparr>)"
    and rep: "zone_rep (?z\<lparr>zl := L', spin_vm := False\<rparr>) hs' fs' []" and bytes: "hl_bytes L' = span a sz"
    by auto
  have "0 \<notin> span a sz" using assms(3) by (simp add: span_def unat_eq_0)
  then have "zone_inv (?z\<lparr>zl := L', spin_vm := False\<rparr>)" using rep bytes by (auto simp: zone_inv_def zone_bytes_def)
  then show ?thesis using run bytes by (auto simp: init_vm_zone_def init_spinlock_def zone_bytes_def)
qed

text \<open>The addresses that each zone manages.\<close>

definition zone_region :: "vm_zone_t \<Rightarrow> nat set" where
  "zone_region zid = (case zid of
       VM_ZONE_VMALLOC \<Rightarrow> span VMALLOC_START VMALLOC_SIZE
     | VM_ZONE_LOW_MMAP \<Rightarrow> span LOW_MMAP_START LOW_MMAP_SIZE
     | VM_ZONE_KERNEL_STACK \<Rightarrow> span KERNEL_STACK_ZONE_START KERNEL_STACK_ZONE_SIZE
     | VM_ZONE_KERNEL_BELOW1G \<Rightarrow> span KERNEL_BELOW_1G_START KERNEL_BELOW_1G_SIZE)"

lemma zone_region_disjoint: "i \<noteq> j \<Longrightarrow> zone_region i \<inter> zone_region j = {}"
  by (cases i; cases j) (simp_all add: zone_region_def span_def layout_defs)

text \<open>
  C14: \<open>init_vm\<close> returns; each of the four zones then satisfies its invariant with its lock free
  and has exactly the addresses of its region free, and the regions are pairwise disjoint.
  \<open>get_zone_from_addr\<close> finds the zone of every address of the three zones it knows; for an address of
  the fourth, the zone of the kernel stacks, it panics.
\<close>

theorem init_vm_correct:
  "\<exists>s' vz. init_vm m s = Inr (s', vz) \<and>
     (\<forall>zid. zone_inv (get_zone zid vz) \<and> \<not> spin_vm (get_zone zid vz) \<and> zone_bytes (get_zone zid vz) = zone_region zid) \<and>
     (\<forall>i j. i \<noteq> j \<longrightarrow> zone_region i \<inter> zone_region j = {}) \<and>
     (\<forall>zid a. unat a \<in> zone_region zid \<longrightarrow> get_zone_from_addr a = (if zid = VM_ZONE_KERNEL_STACK then panic else Inr zid))"
proof -
  obtain v where v: "init_vm_zone m VMALLOC_START VMALLOC_SIZE = Inr v" "zone_inv v" "\<not> spin_vm v" "zone_bytes v = span VMALLOC_START VMALLOC_SIZE"
    using init_vm_zone_run [of VMALLOC_START VMALLOC_SIZE m] by (auto simp: layout_defs al2m_def)
  obtain l where l: "init_vm_zone m LOW_MMAP_START LOW_MMAP_SIZE = Inr l" "zone_inv l" "\<not> spin_vm l" "zone_bytes l = span LOW_MMAP_START LOW_MMAP_SIZE"
    using init_vm_zone_run [of LOW_MMAP_START LOW_MMAP_SIZE m] by (auto simp: layout_defs al2m_def)
  obtain k where k: "init_vm_zone m KERNEL_STACK_ZONE_START KERNEL_STACK_ZONE_SIZE = Inr k" "zone_inv k" "\<not> spin_vm k"
    "zone_bytes k = span KERNEL_STACK_ZONE_START KERNEL_STACK_ZONE_SIZE"
    using init_vm_zone_run [of KERNEL_STACK_ZONE_START KERNEL_STACK_ZONE_SIZE m] by (auto simp: layout_defs al2m_def)
  obtain b where b: "init_vm_zone m KERNEL_BELOW_1G_START KERNEL_BELOW_1G_SIZE = Inr b" "zone_inv b" "\<not> spin_vm b"
    "zone_bytes b = span KERNEL_BELOW_1G_START KERNEL_BELOW_1G_SIZE"
    using init_vm_zone_run [of KERNEL_BELOW_1G_START KERNEL_BELOW_1G_SIZE m] by (auto simp: layout_defs al2m_def)
  let ?vz = "\<lparr>low_mmap_zone = l, vmalloc_zone = v, kernel_stack_zone = k, kernel_below1g_zone = b\<rparr>"
  have run: "init_vm m s = Inr (init_stack_owner s, ?vz)" using v l k b by (simp add: init_vm_def)
  have zs: "zone_inv (get_zone zid ?vz) \<and> \<not> spin_vm (get_zone zid ?vz) \<and> zone_bytes (get_zone zid ?vz) = zone_region zid" for zid
    using v l k b by (cases zid) (simp_all add: get_zone_def zone_region_def)
  have addr: "unat a \<notin> zone_region zid \<or> get_zone_from_addr a = (if zid = VM_ZONE_KERNEL_STACK then panic else Inr zid)" for zid a
    by (cases zid) (auto simp: zone_region_def span_def get_zone_from_addr_def word_le_nat_alt layout_defs)
  show ?thesis using run zs addr zone_region_disjoint by blast
qed

definition no_holes :: "nat \<Rightarrow> hole" where
  "no_holes = (\<lambda>_. \<lparr>h_addr = 0, h_size = 0, pnext = None\<rparr>)"

definition no_stacks :: "stacks" where
  "no_stacks = \<lparr>stack_nodes = (\<lambda>_. \<lparr>s_pnext = None, s_start = 0, s_size = 0, s_cpu = 0\<rparr>), pStackHead = None, pStackFree = None\<rparr>"

theorem init_vm_correct_witness:
  "\<exists>s' vz. init_vm no_holes no_stacks = Inr (s', vz) \<and> zone_bytes (get_zone VM_ZONE_VMALLOC vz) = zone_region VM_ZONE_VMALLOC \<and>
    get_zone_from_addr VMALLOC_START = Inr VM_ZONE_VMALLOC \<and> get_zone_from_addr KERNEL_STACK_ZONE_START = panic"
proof -
  have k: "unat KERNEL_STACK_ZONE_START \<in> zone_region VM_ZONE_KERNEL_STACK"
    unfolding zone_region_def vm_zone_t.case span_def by (simp add: layout_defs)
  have a: "unat VMALLOC_START \<in> zone_region VM_ZONE_VMALLOC"
    unfolding zone_region_def vm_zone_t.case span_def by (simp add: layout_defs)
  obtain s' vz where r: "init_vm no_holes no_stacks = Inr (s', vz)"
      "zone_bytes (get_zone VM_ZONE_VMALLOC vz) = zone_region VM_ZONE_VMALLOC"
      "\<forall>zid a. unat a \<in> zone_region zid \<longrightarrow> get_zone_from_addr a = (if zid = VM_ZONE_KERNEL_STACK then panic else Inr zid)"
    by (rule exE [OF init_vm_correct [of no_holes no_stacks]]) meson
  from r(3) [rule_format, OF a] r(3) [rule_format, OF k]
  have "get_zone_from_addr VMALLOC_START = Inr VM_ZONE_VMALLOC" "get_zone_from_addr KERNEL_STACK_ZONE_START = panic" by simp_all
  with r(1,2) show ?thesis by blast
qed

text \<open>A zone with the 1G below the kernel, as \<open>init_vm\<close> leaves it.\<close>

definition fresh_zone :: "linear_zone \<Rightarrow> bool" where
  "fresh_zone z \<longleftrightarrow> init_vm_zone no_holes KERNEL_BELOW_1G_START KERNEL_BELOW_1G_SIZE = Inr z"

lemma fresh_zone_inv: "\<exists>z. fresh_zone z \<and> zone_inv z \<and> \<not> spin_vm z \<and> zone_bytes z = span KERNEL_BELOW_1G_START KERNEL_BELOW_1G_SIZE"
  using init_vm_zone_run [of KERNEL_BELOW_1G_START KERNEL_BELOW_1G_SIZE] by (simp add: fresh_zone_def layout_defs al2m_def)

text \<open>
  \<open>alloc_linear_zone_impl\<close> without a wanted address, with the lock free, returns a non-zero
  block of free addresses, the request rounded up to 2M, and takes exactly it out; or returns 0 and
  leaves the zone as it was, when no hole fits; or panics when no descriptor is unused.
\<close>

theorem alloc_linear_correct:
  assumes "zone_inv z" and "zone_request sz z" and "\<not> spin_vm z"
  shows "(\<exists>a z'. alloc_linear_zone_impl 0 sz z = Inr (a, z') \<and> a \<noteq> 0 \<and> zone_inv z' \<and> \<not> spin_vm z' \<and>
      span a (align_2m sz) \<subseteq> zone_bytes z \<and> zone_bytes z' = zone_bytes z - span a (align_2m sz)) \<or>
    alloc_linear_zone_impl 0 sz z = Inr (0, z) \<and> find_fit (align_2m sz) (zl z) = Some None \<or>
    alloc_linear_zone_impl 0 sz z = panic \<and> pfree (zl z) = None"
  using alloc_linear_null_run [OF assms] by blast

theorem alloc_linear_correct_witness:
  "\<exists>z. fresh_zone z \<and>
    ((\<exists>a z'. alloc_linear_zone_impl 0 5000 z = Inr (a, z') \<and> a \<noteq> 0 \<and> span a (align_2m 5000) \<subseteq> zone_bytes z) \<or>
     alloc_linear_zone_impl 0 5000 z = Inr (0, z) \<or> alloc_linear_zone_impl 0 5000 z = panic)"
proof -
  obtain z where z: "fresh_zone z" "zone_inv z" "\<not> spin_vm z" using fresh_zone_inv by blast
  have "zone_request 5000 z" by (simp add: zone_request_def)
  from alloc_linear_correct [OF z(2) this z(3)] z(1) show ?thesis by blast
qed

text \<open>
  C13: In every run of \<open>alloc_linear_zone_impl\<close> without a wanted address (requests of any size that does not wrap around when it is
  rounded up to 2M) and \<open>free_linear_zone\<close> of blocks in use, the blocks in use are pairwise disjoint and disjoint from the free addresses,
  and no address of the zone is lost.
\<close>

theorem zone_blocks_never_overlap:
  assumes "zone_inv z0"
    and "alloc_run (alloc_linear_zone_impl 0) free_linear_zone zone_request align_2m z0 z live"
  shows "apart live \<and> blocks live \<inter> zone_bytes z = {} \<and> zone_bytes z \<union> blocks live = zone_bytes z0"
  using zone.run_inv [OF assms] by blast

text \<open>Two blocks are taken from a fresh zone, the first is given back, and a third is taken.\<close>

definition zone_demo :: "(ulong \<times> ulong \<times> ulong) outcome" where
  "zone_demo =
     andThen (init_vm_zone no_holes KERNEL_BELOW_1G_START KERNEL_BELOW_1G_SIZE) (\<lambda>z.
     andThen (alloc_linear_zone_impl 0 0x1000 z) (\<lambda>(a, z1).
     andThen (alloc_linear_zone_impl 0 0x400000 z1) (\<lambda>(b, z2).
     andThen (free_linear_zone a 0x200000 z2) (\<lambda>z3.
     andThen (alloc_linear_zone_impl 0 0x300000 z3) (\<lambda>(c, z4). Inr (a, b, c))))))"

lemma zone_demo_eval:
  "zone_demo = Inr (KERNEL_BELOW_1G_START, KERNEL_BELOW_1G_START + 0x200000, KERNEL_BELOW_1G_START + 0x600000)"
  by code_simp

theorem zone_blocks_never_overlap_witness:
  "\<exists>z0 z a b. fresh_zone z0 \<and> alloc_run (alloc_linear_zone_impl 0) free_linear_zone zone_request align_2m z0 z [(b, 0x400000), (a, 0x400000)] \<and>
     a \<noteq> b \<and> apart [(b, 0x400000), (a, 0x400000)] \<and> zone_bytes z \<union> blocks [(b, 0x400000), (a, 0x400000)] = zone_bytes z0"
proof -
  let ?run = "alloc_run (alloc_linear_zone_impl 0) free_linear_zone zone_request align_2m"
  obtain z0 z1 z2 z3 z4 a b c where s: "fresh_zone z0" "alloc_linear_zone_impl 0 0x1000 z0 = Inr (a, z1)"
      "alloc_linear_zone_impl 0 0x400000 z1 = Inr (b, z2)" "free_linear_zone a 0x200000 z2 = Inr z3" "alloc_linear_zone_impl 0 0x300000 z3 = Inr (c, z4)"
    and v: "a = KERNEL_BELOW_1G_START" "b = KERNEL_BELOW_1G_START + 0x200000" "c = KERNEL_BELOW_1G_START + 0x600000"
    using zone_demo_eval unfolding zone_demo_def andThen_eq_Inr case_prod_unfold fresh_zone_def by auto
  have n: "a \<noteq> 0" "b \<noteq> 0" "c \<noteq> 0" "b \<noteq> c" by (simp_all add: v layout_defs)
  have rq: "zone_request 0x1000 z" "zone_request 0x400000 z" "zone_request 0x300000 z" for z by (simp_all add: zone_request_def)
  have al: "align_2m 0x1000 = 0x200000" "align_2m 0x400000 = 0x400000" "align_2m 0x300000 = 0x400000" by (simp_all add: align_2m_def)
  have r0: "?run z0 z0 []" by (rule alloc_run.start)
  from alloc_run.got [OF r0 rq(1) s(2) n(1)] have "?run z0 z1 [(a, 0x200000)]" unfolding al .
  from alloc_run.got [OF this rq(2) s(3) n(2)] have r2: "?run z0 z2 [(b, 0x400000), (a, 0x200000)]" unfolding al .
  have "(a, 0x200000) \<in> set [(b, 0x400000), (a, 0x200000)]" by simp
  from alloc_run.released [OF r2 this s(4)] have "?run z0 z3 [(b, 0x400000)]" using v by simp
  from alloc_run.got [OF this rq(3) s(5) n(3)] have run: "?run z0 z4 [(c, 0x400000), (b, 0x400000)]" unfolding al .
  have "zone_inv z0" using fresh_zone_inv s(1) by (auto simp: fresh_zone_def)
  from zone_blocks_never_overlap [OF this run] run s(1) n(4) show ?thesis by blast
qed

section \<open>Properties of stacks\<close>

definition stacks_inv :: "stacks \<Rightarrow> bool" where
  "stacks_inv s \<longleftrightarrow> (\<exists>st fr. linked (\<lambda>i. s_pnext (stack_nodes s i)) (pStackHead s) st \<and>
     linked (\<lambda>i. s_pnext (stack_nodes s i)) (pStackFree s) fr \<and> set st \<inter> set fr = {})"

lemma check_stack_linked:
  assumes "linked (\<lambda>i. s_pnext (stack_nodes s i)) (pStackHead s) st"
  shows "check_stack addr s = Inr (\<exists>i \<in> set st. in_stack addr (stack_nodes s i))"
  using walk_linked [OF assms, of "\<lambda>i. in_stack addr (stack_nodes s i)"]
  by (auto simp: check_stack_def find_None_iff not_None_eq [symmetric] simp del: not_None_eq)

lemma init_stack_owner_inv: "pStackHead s = None \<Longrightarrow> stacks_inv (init_stack_owner s)"
proof -
  assume h: "pStackHead s = None"
  have "linked (\<lambda>i. s_pnext (stack_nodes (init_stack_owner s) i)) (Some 0) [0..<MAX_STACKS]"
    using linked_array_upt [of 0 MAX_STACKS] by (rule linked_cong) (simp_all add: init_stack_owner_def)
  then show ?thesis using h unfolding stacks_inv_def
    by (intro exI [of _ "[]"] exI [of _ "[0..<MAX_STACKS]"]) (simp add: init_stack_owner_def)
qed

text \<open>
  After \<open>register_stack\<close> of a stack below 4G in size, \<open>check_stack\<close> (which always
  returns) accepts what it accepted before and the addresses from the start to the end of the new stack,
  the end included.
\<close>

theorem register_stack_checked:
  assumes "stacks_inv s" and "register_stack a b cpu s = Inr s'" and "a \<le> b" and "unat b - unat a < 2 ^ 32"
  shows "stacks_inv s' \<and> (\<exists>old. check_stack addr s = Inr old \<and> check_stack addr s' = Inr (old \<or> a \<le> addr \<and> addr \<le> b))"
proof -
  obtain st fr where st: "linked (\<lambda>i. s_pnext (stack_nodes s i)) (pStackHead s) st"
    and fr: "linked (\<lambda>i. s_pnext (stack_nodes s i)) (pStackFree s) fr" and dj: "set st \<inter> set fr = {}"
    using assms(1) by (auto simp: stacks_inv_def)
  from assms(2) obtain p where p: "pStackFree s = Some p"
    and s': "s' = s\<lparr>pStackFree := s_pnext (stack_nodes s p),
      stack_nodes := (stack_nodes s)(p := \<lparr>s_pnext = pStackHead s, s_start = a, s_size = ucast (b - a), s_cpu = cpu\<rparr>),
      pStackHead := Some p\<rparr>"
    by (auto simp: register_stack_def split: option.splits)
  from fr p obtain fr' where fr': "fr = p # fr'" and lf: "linked (\<lambda>i. s_pnext (stack_nodes s i)) (s_pnext (stack_nodes s p)) fr'"
    by (cases fr) auto
  have pn: "p \<notin> set st" "p \<notin> set fr'" using dj linked_distinct [OF fr] fr' by auto
  have nx: "(\<lambda>i. s_pnext (stack_nodes s' i)) = (\<lambda>i. s_pnext (stack_nodes s i))(p := pStackHead s)"
    by (auto simp: s')
  have st': "linked (\<lambda>i. s_pnext (stack_nodes s' i)) (pStackHead s') (p # st)"
    unfolding nx using st pn(1) by (simp add: s')
  moreover have "linked (\<lambda>i. s_pnext (stack_nodes s' i)) (pStackFree s') fr'"
    unfolding nx using lf pn(2) by (simp add: s')
  ultimately have "stacks_inv s'" unfolding stacks_inv_def using dj fr' pn by (intro exI [of _ "p # st"] exI [of _ fr']) auto
  have "unat (b - a) < 2 ^ 32" using assms(3,4) by (simp add: unat_sub_no_wrap)
  then have "ucast (ucast (b - a) :: u32) = b - a" by (rule ucast_u32_id)
  then have new: "in_stack addr (stack_nodes s' p) \<longleftrightarrow> a \<le> addr \<and> addr \<le> b"
    by (simp add: in_stack_def s')
  have old: "in_stack addr (stack_nodes s' i) = in_stack addr (stack_nodes s i)" if "i \<in> set st" for i
    using that pn(1) by (auto simp: s')
  have "(\<exists>i \<in> set (p # st). in_stack addr (stack_nodes s' i)) \<longleftrightarrow>
      (\<exists>i \<in> set st. in_stack addr (stack_nodes s i)) \<or> a \<le> addr \<and> addr \<le> b"
    using new old by auto
  then show ?thesis
    using \<open>stacks_inv s'\<close> unfolding check_stack_linked [OF st] check_stack_linked [OF st'] by simp
qed

theorem register_stack_checked_witness:
  "\<exists>s'. register_stack 0x1000 0x3000 0 (init_stack_owner \<lparr>stack_nodes = (\<lambda>_. \<lparr>s_pnext = None, s_start = 0, s_size = 0, s_cpu = 0\<rparr>),
      pStackHead = None, pStackFree = None\<rparr>) = Inr s' \<and> check_stack 0x2000 s' = Inr True"
proof -
  let ?s = "init_stack_owner \<lparr>stack_nodes = (\<lambda>_. \<lparr>s_pnext = None, s_start = 0, s_size = 0, s_cpu = 0\<rparr>),
      pStackHead = None, pStackFree = None\<rparr>"
  have inv: "stacks_inv ?s" by (rule init_stack_owner_inv) simp
  obtain s' where run: "register_stack 0x1000 0x3000 0 ?s = Inr s'"
    by (simp add: register_stack_def init_stack_owner_def)
  from register_stack_checked [OF inv run, of "0x2000"] run show ?thesis by auto
qed

end
