(* ===== verification/Vm.thy ===== *)
theory Vm
  imports Vm_Zone Pgtable
begin

text \<open>
  Virtual memory that is backed by physical memory, the second half of \<open>kernel/vm.c\<close>: a
  range of a zone is allocated and mapped by \<open>map_alloc_at\<close> of the page tables, and
  given back if the mapping fails.
\<close>

section \<open>Model\<close>

record vm =
  vz :: vm_zones
  pg :: pgt

definition free_vm :: "vm_zone_t \<Rightarrow> ulong \<Rightarrow> ulong \<Rightarrow> vm \<Rightarrow> vm outcome" where
  "free_vm zid addr sz st =
     andThen (unmap_free_at addr sz (pg st)) (\<lambda>pg1.
     andThen (free_linear zid addr sz (vz st)) (\<lambda>vz1. Inr \<lparr>vz = vz1, pg = pg1\<rparr>))"

definition alloc_vm :: "vm_zone_t \<Rightarrow> ulong \<Rightarrow> vm \<Rightarrow> (ulong \<times> vm) outcome" where
  "alloc_vm zid sz st =
     andThen (alloc_linear zid sz (vz st)) (\<lambda>(p, vz1).
     if p = 0 then Inr (p, st\<lparr>vz := vz1\<rparr>)
     else andThen (map_alloc_at p sz map_flags_rw (pg st)) (\<lambda>(ret, pg1).
       if ret \<noteq> OK then andThen (free_linear zid p sz vz1) (\<lambda>vz2. Inr (0, \<lparr>vz = vz2, pg = pg1\<rparr>))
       else Inr (p, \<lparr>vz = vz1, pg = pg1\<rparr>)))"

definition free_vm_stack :: "ulong \<Rightarrow> ulong \<Rightarrow> vm \<Rightarrow> vm outcome" where
  "free_vm_stack addr sz st =
     andThen (unmap_free_at addr sz (pg st)) (\<lambda>pg1.
     andThen (free_linear VM_ZONE_KERNEL_STACK (addr - PAGE_SIZE_LARGE) (sz + PAGE_SIZE_LARGE) (vz st)) (\<lambda>vz1.
     Inr \<lparr>vz = vz1, pg = pg1\<rparr>))"

text \<open>Only the topmost 4K of a stack are mapped; the lowest 2M stay unmapped.\<close>

definition alloc_vm_stack :: "ulong \<Rightarrow> vm \<Rightarrow> (ulong \<times> vm) outcome" where
  "alloc_vm_stack sz st =
     andThen (alloc_linear VM_ZONE_KERNEL_STACK (sz + PAGE_SIZE_LARGE) (vz st)) (\<lambda>(p, vz1).
     if p = 0 then Inr (p, st\<lparr>vz := vz1\<rparr>)
     else let addr = p + PAGE_SIZE_LARGE in
       andThen (map_alloc_at (addr + sz - PAGE_SIZE_SMALL) PAGE_SIZE_SMALL map_flags_stack (pg st)) (\<lambda>(ret, pg1).
       if ret \<noteq> OK
       then andThen (free_linear VM_ZONE_KERNEL_STACK (addr - PAGE_SIZE_LARGE) (sz + PAGE_SIZE_LARGE) vz1) (\<lambda>vz2.
              Inr (0, \<lparr>vz = vz2, pg = pg1\<rparr>))
       else Inr (addr, \<lparr>vz = vz1, pg = pg1\<rparr>)))"

section \<open>Effect on the zones\<close>

lemma get_put_zone [simp]: "get_zone i (put_zone j z zs) = (if i = j then z else get_zone i zs)"
  by (cases i; cases j) (simp_all add: get_zone_def put_zone_def)

lemma free_linear_zone_align: "al2m (align_2m sz) \<Longrightarrow> free_linear_zone a sz z = free_linear_zone a (align_2m sz) z"
  by (simp add: free_linear_zone_def align_2m_id)

lemma free_linear_effect:
  assumes run: "free_linear zid a sz vz0 = Inr vz1" and inv: "zone_inv (get_zone zid vz0)" and a: "a \<noteq> 0"
    and sz: "sz \<noteq> 0" "unat sz + 0x200000 < 2 ^ 64" "unat a + unat (align_2m sz) < 2 ^ 64"
    and disj: "span a (align_2m sz) \<inter> zone_bytes (get_zone zid vz0) = {}"
  shows "zone_inv (get_zone zid vz1)" "zone_bytes (get_zone zid vz1) = zone_bytes (get_zone zid vz0) \<union> span a (align_2m sz)"
    "\<And>i. i \<noteq> zid \<Longrightarrow> get_zone i vz1 = get_zone i vz0"
proof -
  note b = align_2m_bounds [OF sz(1,2)]
  from run obtain z where fr: "free_linear_zone a sz (get_zone zid vz0) = Inr z" and vz1: "vz1 = put_zone zid z vz0"
    by (auto simp: free_linear_def outcome_simps)
  have "free_linear_zone a (align_2m sz) (get_zone zid vz0) = Inr z" using fr free_linear_zone_align [OF b(3)] by simp
  from free_linear_zone_release [OF inv a b(1) align_2m_id [OF b(3)] sz(3) disj this]
  show "zone_inv (get_zone zid vz1)" "zone_bytes (get_zone zid vz1) = zone_bytes (get_zone zid vz0) \<union> span a (align_2m sz)"
    by (simp_all add: vz1)
  show "get_zone i vz1 = get_zone i vz0" if "i \<noteq> zid" for i using that by (simp add: vz1)
qed

lemma alloc_linear_effect:
  assumes run: "alloc_linear zid sz vz0 = Inr (a, vz1)" and inv: "zone_inv (get_zone zid vz0)"
    and req: "zone_request sz (get_zone zid vz0)"
  shows "zone_inv (get_zone zid vz1)" "\<And>i. i \<noteq> zid \<Longrightarrow> get_zone i vz1 = get_zone i vz0"
    "a = 0 \<Longrightarrow> zone_bytes (get_zone zid vz1) = zone_bytes (get_zone zid vz0)"
    "a \<noteq> 0 \<Longrightarrow> span a (align_2m sz) \<subseteq> zone_bytes (get_zone zid vz0) \<and> unat a + unat (align_2m sz) < 2 ^ 64 \<and>
       zone_bytes (get_zone zid vz1) = zone_bytes (get_zone zid vz0) - span a (align_2m sz)"
proof -
  from run obtain z where al: "alloc_linear_zone_impl 0 sz (get_zone zid vz0) = Inr (a, z)" and vz1: "vz1 = put_zone zid z vz0"
    by (auto simp: alloc_linear_def alloc_linear_impl_def outcome_simps)
  show "get_zone i vz1 = get_zone i vz0" if "i \<noteq> zid" for i using that by (simp add: vz1)
  have "zone_inv z \<and> (a = 0 \<longrightarrow> zone_bytes z = zone_bytes (get_zone zid vz0))"
  proof (cases "a = 0")
    case True
    with zone.alloc_failed [OF inv req] al show ?thesis by blast
  next
    case False
    with zone.alloc_got [OF inv req al] show ?thesis by blast
  qed
  then show "zone_inv (get_zone zid vz1)" "a = 0 \<Longrightarrow> zone_bytes (get_zone zid vz1) = zone_bytes (get_zone zid vz0)"
    by (simp_all add: vz1)
  assume "a \<noteq> 0"
  from zone.alloc_got [OF inv req al this]
  show "span a (align_2m sz) \<subseteq> zone_bytes (get_zone zid vz0) \<and> unat a + unat (align_2m sz) < 2 ^ 64 \<and>
       zone_bytes (get_zone zid vz1) = zone_bytes (get_zone zid vz0) - span a (align_2m sz)"
    by (simp add: vz1)
qed

text \<open>
  When \<open>alloc_vm\<close> returns a non-zero address, the block, rounded up to 2M, was free in
  the zone and is taken out of it; when it returns 0, because the zone is full or because the mapping
  failed, the free addresses of the zone are the same as before. The other zones are not touched.
\<close>

theorem alloc_vm_zone_effect:
  assumes "zone_inv (get_zone zid (vz st))" and "zone_request sz (get_zone zid (vz st))"
    and "alloc_vm zid sz st = Inr (a, st')"
  shows "zone_inv (get_zone zid (vz st')) \<and> (\<forall>i. i = zid \<or> get_zone i (vz st') = get_zone i (vz st)) \<and>
    (if a = 0 then zone_bytes (get_zone zid (vz st')) = zone_bytes (get_zone zid (vz st))
     else span a (align_2m sz) \<subseteq> zone_bytes (get_zone zid (vz st)) \<and>
       zone_bytes (get_zone zid (vz st')) = zone_bytes (get_zone zid (vz st)) - span a (align_2m sz))"
proof -
  from assms(3) obtain p vz1 where al: "alloc_linear zid sz (vz st) = Inr (p, vz1)"
    and rest: "(if p = 0 then Inr (p, st\<lparr>vz := vz1\<rparr>)
     else andThen (map_alloc_at p sz map_flags_rw (pg st)) (\<lambda>(ret, pg1).
       if ret \<noteq> OK then andThen (free_linear zid p sz vz1) (\<lambda>vz2. Inr (0, \<lparr>vz = vz2, pg = pg1\<rparr>))
       else Inr (p, \<lparr>vz = vz1, pg = pg1\<rparr>))) = (Inr (a, st') :: (ulong \<times> vm) outcome)"
    by (auto simp: alloc_vm_def andThen_eq_Inr)
  note e = alloc_linear_effect [OF al assms(1,2)]
  have sz: "sz \<noteq> 0" "unat sz + 0x200000 < 2 ^ 64" using assms(2) by (auto simp: zone_request_def)
  consider (full) "p = 0" "a = 0" "vz st' = vz1" | (mapped) "p \<noteq> 0" "a = p" "vz st' = vz1"
    | (failed) "p \<noteq> 0" "a = 0" "free_linear zid p sz vz1 = Inr (vz st')"
    using rest by (auto simp: andThen_eq_Inr split: if_splits)
  then show ?thesis
  proof cases
    case full
    with e show ?thesis by auto
  next
    case mapped
    with e show ?thesis by auto
  next
    case failed
    note e4 = e(4) [OF failed(1)]
    have disj: "span p (align_2m sz) \<inter> zone_bytes (get_zone zid vz1) = {}" using e4 by auto
    note f = free_linear_effect [OF failed(3) e(1) failed(1) sz _ disj]
    have "zone_bytes (get_zone zid (vz st')) = zone_bytes (get_zone zid (vz st))" using f(2) e4 by auto
    with f(1,3) e(2) e4 failed(2) show ?thesis by auto
  qed
qed

text \<open>
  \<open>map_alloc_at\<close> at an address that is not 2M-aligned stops at an assertion as soon as the
  4K page allocator hands out a page at or above 2M; this is the call \<open>alloc_vm_stack\<close> makes.
\<close>

theorem map_alloc_at_high_page:
  assumes "vaddr AND PAGE_2M_MASK \<noteq> 0" and "sz \<noteq> 0"
    and "alloc_phy_page_small 4096 (physm st) = Inr (x, ph)" and "0x200000 \<le> x"
  shows "map_alloc_at vaddr sz flag st = Inl Assertion_failed"
proof -
  let ?gap = "PAGE_SIZE_LARGE - (vaddr AND PAGE_2M_MASK)" let ?head = "if sz > ?gap then ?gap else sz"
  have "unat (vaddr AND PAGE_2M_MASK) < 0x200000" by (simp add: mask_2m)
  then have "?gap \<noteq> 0" by auto
  then have "0 < ?gap" "0 < sz" using assms(2) by (simp_all only: word_neq_0_conv)
  then have "0 < ?head" by simp
  moreover have "alloc_low_4k st = Inl Assertion_failed" 
  proof -
    have "\<not> x < 0x200000" using assms(4) by (simp only: not_less)
    then show ?thesis using assms(3) by (simp add: alloc_low_4k_def ASSERT_def)
  qed
  ultimately have "alloc_map_loop alloc_low_4k (\<lambda>p v. map_4k_page_p2v p v flag) PAGE_4K_SIZE (\<lambda>len. len < ?head) vaddr 0 st
      = Some (Inl Assertion_failed)"
    by (simp add: alloc_map_loop.simps [of alloc_low_4k])
  then show ?thesis using assms(1) by (simp add: map_alloc_at_def Let_def)
qed

text \<open>A state whose zones are full.\<close>

definition full_zone :: "linear_zone" where
  "full_zone = \<lparr>zl = init_holes MAX_LINEAR_HOLE (\<lambda>_. \<lparr>h_addr = 0, h_size = 0, pnext = None\<rparr>), alloced = None, spin_vm = False\<rparr>"

definition full_vm :: "vm" where
  "full_vm = \<lparr>vz = \<lparr>low_mmap_zone = full_zone, vmalloc_zone = full_zone, kernel_stack_zone = full_zone, kernel_below1g_zone = full_zone\<rparr>,
     pg = \<lparr>physm = one_page_phys, pml4_pa = 0x1000, mem = (\<lambda>_ _. 0), tlb_flushed = []\<rparr>\<rparr>"

lemma full_zone_inv: "zone_inv full_zone" "zone_bytes full_zone = {}"
proof -
  show b: "zone_bytes full_zone = {}" by (simp add: zone_bytes_def full_zone_def init_holes_bytes)
  have "zone_rep full_zone [] [0..<MAX_LINEAR_HOLE] []" unfolding full_zone_def by (rule init_zone_rep)
  then show "zone_inv full_zone" using b unfolding zone_inv_def by blast
qed

theorem alloc_vm_zone_effect_witness:
  "\<exists>st'. alloc_vm VM_ZONE_VMALLOC 0x1000 full_vm = Inr (0, st') \<and> zone_bytes (get_zone VM_ZONE_VMALLOC (vz st')) = {}"
proof -
  let ?z = "get_zone VM_ZONE_VMALLOC (vz full_vm)"
  have z: "?z = full_zone" by (simp add: full_vm_def get_zone_def)
  have req: "zone_request 0x1000 ?z" by (simp add: zone_request_def)
  have "alloc_linear_zone_impl 0 0x1000 full_zone = Inr (0, full_zone)"
    by (simp add: alloc_linear_zone_impl.simps full_zone_def init_holes_def find_fit_def walk.simps Let_def)
  then obtain st' where run: "alloc_vm VM_ZONE_VMALLOC 0x1000 full_vm = Inr (0, st')"
    by (simp add: alloc_vm_def alloc_linear_def alloc_linear_impl_def z)
  from alloc_vm_zone_effect [OF _ req run] run show ?thesis using full_zone_inv by (simp add: z)
qed

theorem map_alloc_at_high_page_witness:
  "\<exists>x ph. alloc_phy_page_small 4096 one_page_phys = Inr (x, ph) \<and>
     map_alloc_at 0xffff81ffffdff000 0x1000 map_flags_stack (pg full_vm) = Inl Assertion_failed"
proof -
  have req: "small_request 4096 one_page_phys" by (simp add: small_request_def)
  have n: "align_4k 4096 = 4096" by (simp add: align_4k_def)
  from alloc_phy_page_small_run [OF one_page_phys_inv req] obtain x ph where
    al: "alloc_phy_page_small 4096 one_page_phys = Inr (x, ph)" and sub: "span x 4096 \<subseteq> phys_bytes one_page_phys"
    unfolding n by (auto simp: phys_exhausted_def)
  have "unat x \<in> span x 4096" by (simp add: span_def)
  then have "unat x \<in> page_bytes 1" using sub by (auto simp: phys_bytes_def page_area_def)
  then have hi: "0x200000 \<le> x" by (simp add: page_bytes_def word_le_nat_alt)
  have "alloc_phy_page_small 4096 (physm (pg full_vm)) = Inr (x, ph)" using al by (simp add: full_vm_def)
  from map_alloc_at_high_page [OF _ _ this hi, of "0xffff81ffffdff000" "0x1000" map_flags_stack] al show ?thesis by auto
qed

end
