(* ===== verification/List_Head.thy ===== *)
theory List_Head
  imports Yaos_Prelude
begin

text \<open>
  The doubly linked lists of \<open>include/yaos/list.h\<close>. The \<open>struct list_head\<close> nodes that are
  embedded in the kernel's structures live in a store that gives the \<open>next\<close> and the
  \<open>prev\<close> pointer of every address; each function of the header is the sequence of its
  assignments to that store. \<open>ring s h xs\<close> says that the list with head \<open>h\<close> holds
  the entries \<open>xs\<close>, and the lemmas show which operation on \<open>xs\<close> each function is.
\<close>

section \<open>Model\<close>

record list_store =
  l_next :: "nat \<Rightarrow> nat"
  l_prev :: "nat \<Rightarrow> nat"

definition put_next :: "nat \<Rightarrow> nat \<Rightarrow> list_store \<Rightarrow> list_store" where
  "put_next a b s = s\<lparr>l_next := (l_next s)(a := b)\<rparr>"

definition put_prev :: "nat \<Rightarrow> nat \<Rightarrow> list_store \<Rightarrow> list_store" where
  "put_prev a b s = s\<lparr>l_prev := (l_prev s)(a := b)\<rparr>"

definition LIST_POISON1 :: nat where "LIST_POISON1 = 0x00100100"
definition LIST_POISON2 :: nat where "LIST_POISON2 = 0x00200200"

definition INIT_LIST_HEAD :: "nat \<Rightarrow> list_store \<Rightarrow> list_store" where
  "INIT_LIST_HEAD l s = put_prev l l (put_next l l s)"

definition list_add_between :: "nat \<Rightarrow> nat \<Rightarrow> nat \<Rightarrow> list_store \<Rightarrow> list_store" where
  "list_add_between new prv nxt s =
     put_next prv new (put_prev new prv (put_next new nxt (put_prev nxt new s)))"

definition list_add :: "nat \<Rightarrow> nat \<Rightarrow> list_store \<Rightarrow> list_store" where
  "list_add new head s = list_add_between new head (l_next s head) s"

definition list_add_tail :: "nat \<Rightarrow> nat \<Rightarrow> list_store \<Rightarrow> list_store" where
  "list_add_tail new head s = list_add_between new (l_prev s head) head s"

definition list_del_between :: "nat \<Rightarrow> nat \<Rightarrow> list_store \<Rightarrow> list_store" where
  "list_del_between prv nxt s = put_next prv nxt (put_prev nxt prv s)"

definition list_del_entry :: "nat \<Rightarrow> list_store \<Rightarrow> list_store" where
  "list_del_entry e s = list_del_between (l_prev s e) (l_next s e) s"

definition list_del :: "nat \<Rightarrow> list_store \<Rightarrow> list_store" where
  "list_del e s =
     put_prev e LIST_POISON2 (put_next e LIST_POISON1 (list_del_between (l_prev s e) (l_next s e) s))"

definition list_replace :: "nat \<Rightarrow> nat \<Rightarrow> list_store \<Rightarrow> list_store" where
  "list_replace old new s =
     (let s1 = put_next new (l_next s old) s;
          s2 = put_prev (l_next s1 new) new s1;
          s3 = put_prev new (l_prev s2 old) s2
      in put_next (l_prev s3 new) new s3)"

definition list_replace_init :: "nat \<Rightarrow> nat \<Rightarrow> list_store \<Rightarrow> list_store" where
  "list_replace_init old new s = INIT_LIST_HEAD old (list_replace old new s)"

definition list_del_init :: "nat \<Rightarrow> list_store \<Rightarrow> list_store" where
  "list_del_init e s = INIT_LIST_HEAD e (list_del_entry e s)"

definition list_move :: "nat \<Rightarrow> nat \<Rightarrow> list_store \<Rightarrow> list_store" where
  "list_move e head s = list_add e head (list_del_entry e s)"

definition list_move_tail :: "nat \<Rightarrow> nat \<Rightarrow> list_store \<Rightarrow> list_store" where
  "list_move_tail e head s = list_add_tail e head (list_del_entry e s)"

definition list_is_last :: "nat \<Rightarrow> nat \<Rightarrow> list_store \<Rightarrow> bool" where
  "list_is_last e head s \<longleftrightarrow> l_next s e = head"

definition list_empty :: "nat \<Rightarrow> list_store \<Rightarrow> bool" where
  "list_empty head s \<longleftrightarrow> l_next s head = head"

definition list_empty_careful :: "nat \<Rightarrow> list_store \<Rightarrow> bool" where
  "list_empty_careful head s \<longleftrightarrow> (let nxt = l_next s head in nxt = head \<and> nxt = l_prev s head)"

definition list_rotate_left :: "nat \<Rightarrow> list_store \<Rightarrow> list_store" where
  "list_rotate_left head s =
     (if \<not> list_empty head s then list_move_tail (l_next s head) head s else s)"

definition list_is_singular :: "nat \<Rightarrow> list_store \<Rightarrow> bool" where
  "list_is_singular head s \<longleftrightarrow> \<not> list_empty head s \<and> l_next s head = l_prev s head"

definition list_cut_position_between :: "nat \<Rightarrow> nat \<Rightarrow> nat \<Rightarrow> list_store \<Rightarrow> list_store" where
  "list_cut_position_between l head e s =
     (let new_first = l_next s e;
          s1 = put_next l (l_next s head) s;
          s2 = put_prev (l_next s1 l) l s1;
          s3 = put_prev l e s2;
          s4 = put_next e l s3;
          s5 = put_next head new_first s4
      in put_prev new_first head s5)"

definition list_cut_position :: "nat \<Rightarrow> nat \<Rightarrow> nat \<Rightarrow> list_store \<Rightarrow> list_store" where
  "list_cut_position l head e s =
     (if list_empty head s then s
      else if list_is_singular head s \<and> l_next s head \<noteq> e \<and> head \<noteq> e then s
      else if e = head then INIT_LIST_HEAD l s
      else list_cut_position_between l head e s)"

definition list_splice_between :: "nat \<Rightarrow> nat \<Rightarrow> nat \<Rightarrow> list_store \<Rightarrow> list_store" where
  "list_splice_between l prv nxt s =
     (let first = l_next s l; lst = l_prev s l
      in put_prev nxt lst (put_next lst nxt (put_next prv first (put_prev first prv s))))"

definition list_splice :: "nat \<Rightarrow> nat \<Rightarrow> list_store \<Rightarrow> list_store" where
  "list_splice l head s = (if \<not> list_empty l s then list_splice_between l head (l_next s head) s else s)"

definition list_splice_tail :: "nat \<Rightarrow> nat \<Rightarrow> list_store \<Rightarrow> list_store" where
  "list_splice_tail l head s = (if \<not> list_empty l s then list_splice_between l (l_prev s head) head s else s)"

definition list_splice_init :: "nat \<Rightarrow> nat \<Rightarrow> list_store \<Rightarrow> list_store" where
  "list_splice_init l head s =
     (if \<not> list_empty l s then INIT_LIST_HEAD l (list_splice_between l head (l_next s head) s) else s)"

definition list_splice_tail_init :: "nat \<Rightarrow> nat \<Rightarrow> list_store \<Rightarrow> list_store" where
  "list_splice_tail_init l head s =
     (if \<not> list_empty l s then INIT_LIST_HEAD l (list_splice_between l (l_prev s head) head s) else s)"

section \<open>Segments and rings\<close>

lemma put_sel [simp]:
  "l_next (put_next a b s) = (l_next s)(a := b)" "l_prev (put_next a b s) = l_prev s"
  "l_next (put_prev a b s) = l_next s" "l_prev (put_prev a b s) = (l_prev s)(a := b)"
  by (simp_all add: put_next_def put_prev_def)

text \<open>From \<open>a\<close> through the entries \<open>xs\<close> to \<open>b\<close>, linked in both directions.\<close>

primrec dseg :: "list_store \<Rightarrow> nat \<Rightarrow> nat list \<Rightarrow> nat \<Rightarrow> bool" where
  "dseg s a [] b \<longleftrightarrow> l_next s a = b \<and> l_prev s b = a"
| "dseg s a (x # xs) b \<longleftrightarrow> l_next s a = x \<and> l_prev s x = a \<and> dseg s x xs b"

definition ring :: "list_store \<Rightarrow> nat \<Rightarrow> nat list \<Rightarrow> bool" where
  "ring s h xs \<longleftrightarrow> distinct (h # xs) \<and> dseg s h xs h"

lemma dseg_append: "dseg s a (xs @ y # ys) b \<longleftrightarrow> dseg s a xs y \<and> dseg s y ys b"
  by (induction xs arbitrary: a) auto

lemma dseg_cong:
  "dseg s a xs b \<Longrightarrow> \<forall>x \<in> set (a # xs). l_next s' x = l_next s x \<Longrightarrow>
   \<forall>x \<in> set (xs @ [b]). l_prev s' x = l_prev s x \<Longrightarrow> dseg s' a xs b"
  by (induction xs arbitrary: a) auto

lemma dseg_first: "dseg s a xs b \<Longrightarrow> l_next s a = hd (xs @ [b]) \<and> l_prev s (hd (xs @ [b])) = a"
  by (cases xs) auto

lemma dseg_last: "dseg s a xs b \<Longrightarrow> l_prev s b = last (a # xs) \<and> l_next s (last (a # xs)) = b"
  by (induction xs arbitrary: a) auto

lemma dseg_split:
  "dseg s a (xs @ ys) b \<longleftrightarrow> dseg s a xs (hd (ys @ [b])) \<and> dseg s (last (a # xs)) ys b"
proof (induction xs arbitrary: a)
  case Nil
  show ?case by (cases ys) auto
next
  case (Cons x xs)
  then show ?case by simp
qed

text \<open>A segment with another end, or another start.\<close>

lemma dseg_new_end:
  assumes "dseg s a xs y" and "distinct (a # xs)"
    and "\<forall>x \<in> set (a # xs). x \<noteq> last (a # xs) \<longrightarrow> l_next s' x = l_next s x"
    and "\<forall>x \<in> set xs. l_prev s' x = l_prev s x"
    and "l_next s' (last (a # xs)) = y'" and "l_prev s' y' = last (a # xs)"
  shows "dseg s' a xs y'"
  using assms
proof (induction xs arbitrary: a)
  case Nil
  then show ?case by simp
next
  case (Cons x xs)
  have "a \<noteq> last (x # xs)" using Cons.prems(2) last_in_set [of "x # xs"] by auto
  moreover have "dseg s' x xs y'"
    using Cons.prems by (intro Cons.IH) auto
  ultimately show ?case using Cons.prems by auto
qed

lemma dseg_new_start:
  assumes "dseg s a ys b" and "distinct (ys @ [b])"
    and "l_next s' a' = hd (ys @ [b])" and "l_prev s' (hd (ys @ [b])) = a'"
    and "\<forall>x \<in> set ys. l_next s' x = l_next s x"
    and "\<forall>x \<in> set (ys @ [b]). x \<noteq> hd (ys @ [b]) \<longrightarrow> l_prev s' x = l_prev s x"
  shows "dseg s' a' ys b"
proof (cases ys)
  case Nil
  with assms show ?thesis by simp
next
  case (Cons y zs)
  have seg: "dseg s y zs b" using assms(1) unfolding Cons by simp
  have "\<forall>x \<in> set (y # zs). l_next s' x = l_next s x" using assms(5) unfolding Cons .
  moreover have "\<forall>x \<in> set (zs @ [b]). l_prev s' x = l_prev s x"
  proof
    fix x assume x: "x \<in> set (zs @ [b])"
    then have "x \<noteq> y" using assms(2) unfolding Cons by auto
    with assms(6) x show "l_prev s' x = l_prev s x" unfolding Cons by auto
  qed
  ultimately have "dseg s' y zs b" by (rule dseg_cong [OF seg])
  then show ?thesis using assms(3,4) unfolding Cons by simp
qed

section \<open>What the functions do to the entries\<close>

lemma ring_distinct: "ring s h xs \<Longrightarrow> distinct (h # xs)"
  by (simp add: ring_def)

text \<open>Both directions visit the same entries, so a ring determines its entries.\<close>

lemma dseg_unique: "dseg s a xs b \<Longrightarrow> dseg s a ys b \<Longrightarrow> b \<notin> set xs \<Longrightarrow> b \<notin> set ys \<Longrightarrow> xs = ys"
proof (induction xs arbitrary: a ys)
  case Nil
  then show ?case by (cases ys) auto
next
  case (Cons x xs)
  then show ?case by (cases ys) auto
qed

lemma ring_unique: "ring s h xs \<Longrightarrow> ring s h ys \<Longrightarrow> xs = ys"
  unfolding ring_def using dseg_unique [of s h xs h ys] by auto

lemma ring_cong:
  "ring s h xs \<Longrightarrow> \<forall>x \<in> set (h # xs). l_next s' x = l_next s x \<and> l_prev s' x = l_prev s x \<Longrightarrow> ring s' h xs"
  unfolding ring_def using dseg_cong [of s h xs h s'] by auto

lemma ring_empty: "ring s h xs \<Longrightarrow> list_empty h s \<longleftrightarrow> xs = []"
  by (cases xs) (auto simp: ring_def list_empty_def)

lemma ring_next: "ring s h xs \<Longrightarrow> l_next s h = hd (xs @ [h])"
  and ring_prev: "ring s h xs \<Longrightarrow> l_prev s h = last (h # xs)"
  using dseg_first dseg_last unfolding ring_def by blast+

lemma ring_init: "ring (INIT_LIST_HEAD l s) l []"
  by (simp add: ring_def INIT_LIST_HEAD_def)

lemma ring_between:
  assumes r: "ring s h (xs @ ys)" and new: "new \<notin> set (h # xs @ ys)"
  shows "ring (list_add_between new (last (h # xs)) (hd (ys @ [h])) s) h (xs @ new # ys)"
proof -
  let ?p = "last (h # xs)" and ?n = "hd (ys @ [h])"
  let ?s = "list_add_between new ?p ?n s"
  have d: "distinct (h # xs @ ys)" and sp: "dseg s h xs ?n" "dseg s ?p ys h"
    using r by (simp_all only: ring_def dseg_split)
  have pin: "?p \<in> set (h # xs)" and nin: "?n \<in> set (ys @ [h])"
    using last_in_set [of "h # xs"] hd_in_set [of "ys @ [h]"] by auto
  have pn: "?p \<noteq> new" "?n \<noteq> new" using pin nin new by auto
  have xs: "\<forall>x \<in> set xs. x \<noteq> ?n" and ys: "\<forall>y \<in> set ys. y \<noteq> ?p" using pin nin d by auto
  have "dseg ?s h xs new"
    by (rule dseg_new_end [OF sp(1)]) (use d new pn xs in \<open>auto simp: list_add_between_def\<close>)
  moreover have "dseg ?s new ys h"
    by (rule dseg_new_start [OF sp(2)]) (use d new pn ys in \<open>auto simp: list_add_between_def\<close>)
  ultimately show ?thesis using d new by (simp add: ring_def dseg_append)
qed

lemma ring_add: "ring s h xs \<Longrightarrow> new \<notin> set (h # xs) \<Longrightarrow> ring (list_add new h s) h (new # xs)"
  using ring_between [of s h "[]" xs new] ring_next by (simp add: list_add_def)

lemma ring_add_tail: "ring s h xs \<Longrightarrow> new \<notin> set (h # xs) \<Longrightarrow> ring (list_add_tail new h s) h (xs @ [new])"
  using ring_between [of s h xs "[]" new] ring_prev [of s h xs] by (simp add: list_add_tail_def)

lemma ring_del_between:
  assumes r: "ring s h (xs @ e # ys)"
  shows "l_prev s e = last (h # xs)" "l_next s e = hd (ys @ [h])"
    "ring (list_del_between (last (h # xs)) (hd (ys @ [h])) s) h (xs @ ys)"
proof -
  let ?p = "last (h # xs)" and ?n = "hd (ys @ [h])"
  let ?s = "list_del_between ?p ?n s"
  have d: "distinct (h # xs @ e # ys)" and sp: "dseg s h xs e" "dseg s e ys h"
    using r by (simp_all only: ring_def dseg_append)
  show "l_prev s e = ?p" "l_next s e = ?n"
    using dseg_last [OF sp(1)] dseg_first [OF sp(2)] by simp_all
  have pin: "?p \<in> set (h # xs)" and nin: "?n \<in> set (ys @ [h])"
    using last_in_set [of "h # xs"] hd_in_set [of "ys @ [h]"] by auto
  have xs: "\<forall>x \<in> set xs. x \<noteq> ?n" and ys: "\<forall>y \<in> set ys. y \<noteq> ?p" using pin nin d by auto
  have "dseg ?s h xs ?n"
    by (rule dseg_new_end [OF sp(1)]) (use d xs in \<open>auto simp: list_del_between_def\<close>)
  moreover have "dseg ?s ?p ys h"
    by (rule dseg_new_start [OF sp(2)]) (use d ys in \<open>auto simp: list_del_between_def\<close>)
  ultimately show "ring ?s h (xs @ ys)" using d by (simp add: ring_def dseg_split)
qed

lemma ring_del_entry: "ring s h (xs @ e # ys) \<Longrightarrow> ring (list_del_entry e s) h (xs @ ys)"
  using ring_del_between by (simp add: list_del_entry_def)

lemma ring_put_out:
  "ring s h xs \<Longrightarrow> e \<notin> set (h # xs) \<Longrightarrow> ring (put_prev e q (put_next e p s)) h xs"
  by (rule ring_cong) auto

lemma ring_del: "ring s h (xs @ e # ys) \<Longrightarrow> ring (list_del e s) h (xs @ ys)"
  using ring_distinct [of s h "xs @ e # ys"] ring_del_between [of s h xs e ys]
  unfolding list_del_def by (intro ring_put_out) auto

lemma ring_del_init: "ring s h (xs @ e # ys) \<Longrightarrow> ring (list_del_init e s) h (xs @ ys) \<and> ring (list_del_init e s) e []"
  using ring_distinct [of s h "xs @ e # ys"] ring_del_entry [of s h xs e ys] ring_init
  unfolding list_del_init_def INIT_LIST_HEAD_def by (auto intro!: ring_put_out)

text \<open>An entry is touched only through its neighbours: another list keeps its entries.\<close>

lemma between_other:
  "ring s k zs \<Longrightarrow> set (k # zs) \<inter> {new, prv, nxt} = {} \<Longrightarrow> ring (list_add_between new prv nxt s) k zs"
  by (rule ring_cong) (auto simp: list_add_between_def)

lemma del_other:
  "ring s k zs \<Longrightarrow> set (k # zs) \<inter> {prv, nxt} = {} \<Longrightarrow> ring (list_del_between prv nxt s) k zs"
  by (rule ring_cong) (auto simp: list_del_between_def)

lemma ring_move:
  assumes "ring s h (xs @ e # ys)"
  shows "ring (list_move e h s) h (e # xs @ ys)" "ring (list_move_tail e h s) h (xs @ ys @ [e])"
  using ring_distinct [OF assms] ring_add [OF ring_del_entry [OF assms], of e]
    ring_add_tail [OF ring_del_entry [OF assms], of e]
  by (auto simp: list_move_def list_move_tail_def)

text \<open>Moving an entry to the front of another list.\<close>

lemma ring_move_other:
  assumes r: "ring s h (xs @ e # ys)" and k: "ring s k zs" and disj: "set (h # xs @ e # ys) \<inter> set (k # zs) = {}"
  shows "ring (list_move e k s) k (e # zs)" "ring (list_move e k s) h (xs @ ys)"
proof -
  let ?p = "last (h # xs)" and ?n = "hd (ys @ [h])"
  have "?p \<in> set (h # xs)" "?n \<in> set (ys @ [h])"
    using last_in_set [of "h # xs"] hd_in_set [of "ys @ [h]"] by auto
  then have "set (k # zs) \<inter> {?p, ?n} = {}" using disj by auto
  with k have k1: "ring (list_del_entry e s) k zs"
    using ring_del_between(1,2) [OF r] del_other unfolding list_del_entry_def by simp
  then show "ring (list_move e k s) k (e # zs)"
    unfolding list_move_def using disj by (intro ring_add) auto
  have "hd (zs @ [k]) \<in> set (k # zs)" using hd_in_set [of "zs @ [k]"] by auto
  then show "ring (list_move e k s) h (xs @ ys)"
    unfolding list_move_def list_add_def ring_next [OF k1] using disj ring_distinct [OF r]
    by (intro between_other ring_del_entry r) auto
qed

lemma ring_rotate_left:
  assumes "ring s h xs" shows "ring (list_rotate_left h s) h (rotate1 xs)"
proof (cases xs)
  case Nil
  then show ?thesis using assms ring_empty [OF assms] by (simp add: list_rotate_left_def)
next
  case (Cons x ys)
  then show ?thesis using assms ring_empty [OF assms] ring_next [OF assms] ring_move(2) [of s h "[]" x ys]
    by (simp add: list_rotate_left_def)
qed

lemma ring_replace:
  assumes r: "ring s h (xs @ old # ys)" and new: "new \<notin> set (h # xs @ old # ys)"
  shows "ring (list_replace old new s) h (xs @ new # ys)"
proof -
  let ?p = "last (h # xs)" and ?n = "hd (ys @ [h])"
  let ?s = "list_replace old new s"
  have d: "distinct (h # xs @ old # ys)" and sp: "dseg s h xs old" "dseg s old ys h"
    using r by (simp_all only: ring_def dseg_append)
  have pin: "?p \<in> set (h # xs)" and nin: "?n \<in> set (ys @ [h])"
    using last_in_set [of "h # xs"] hd_in_set [of "ys @ [h]"] by auto
  have on: "?n \<noteq> old" "?p \<noteq> old" "?p \<noteq> new" "?n \<noteq> new" using pin nin d new by auto
  have s: "?s = put_next ?p new (put_prev new ?p (put_prev ?n new (put_next new ?n s)))"
    using on ring_del_between(1,2) [OF r] new d by (simp add: list_replace_def Let_def)
  have xs: "\<forall>x \<in> set xs. x \<noteq> ?n" and ys: "\<forall>y \<in> set ys. y \<noteq> ?p" using pin nin d by auto
  have "dseg ?s h xs new" unfolding s
    by (rule dseg_new_end [OF sp(1)]) (use d new on xs in auto)
  moreover have "dseg ?s new ys h" unfolding s
    by (rule dseg_new_start [OF sp(2)]) (use d new on ys in auto)
  ultimately show ?thesis using d new by (simp add: ring_def dseg_append)
qed

text \<open>Joining: the entries \<open>zs\<close> of one list between two neighbours of another.\<close>

lemma ring_splice_between:
  assumes r: "ring s h (xs @ ys)" and l: "ring s l zs" and ne: "zs \<noteq> []"
    and disj: "set (h # xs @ ys) \<inter> set (l # zs) = {}"
  shows "ring (list_splice_between l (last (h # xs)) (hd (ys @ [h])) s) h (xs @ zs @ ys)"
proof -
  let ?p = "last (h # xs)" and ?n = "hd (ys @ [h])"
  let ?s = "list_splice_between l ?p ?n s"
  have d: "distinct (h # xs @ ys)" and sp: "dseg s h xs ?n" "dseg s ?p ys h"
    using r by (simp_all only: ring_def dseg_split)
  have dl: "distinct (l # zs)" and sl: "dseg s l zs l" using l by (simp_all add: ring_def)
  obtain z ws where zs: "zs = z # ws" using ne by (cases zs) auto
  have lz: "last zs \<in> set zs" using ne by simp
  have s: "?s = put_prev ?n (last zs) (put_next (last zs) ?n (put_next ?p z (put_prev z ?p s)))"
    using ring_next [OF l] ring_prev [OF l] ne zs by (simp add: list_splice_between_def Let_def)
  have pin: "?p \<in> set (h # xs)" and nin: "?n \<in> set (ys @ [h])"
    using last_in_set [of "h # xs"] hd_in_set [of "ys @ [h]"] by auto
  have pz: "?p \<notin> set (l # zs)" "?n \<notin> set (l # zs)" using pin nin disj by auto
  have zo: "z \<notin> set (h # xs @ ys)" "last zs \<notin> set (h # xs @ ys)" using disj lz zs by auto
  have xs: "\<forall>x \<in> set xs. x \<noteq> ?n" and ys: "\<forall>y \<in> set ys. y \<noteq> ?p" using pin nin d by auto
  have "dseg ?s h xs z" unfolding s
    by (rule dseg_new_end [OF sp(1)]) (use d zo pz xs zs lz in auto)
  moreover have seg: "dseg s z ws l" using sl zs by simp
  have "dseg ?s z ws ?n" unfolding s
    by (rule dseg_new_end [OF seg]) (use dl zs pz lz in \<open>auto split: if_splits\<close>)
  moreover have "dseg ?s (last zs) ys h" unfolding s
    by (rule dseg_new_start [OF sp(2)]) (use d zo ys in auto)
  moreover have "distinct (h # xs @ zs @ ys)" using d dl disj by auto
  ultimately show ?thesis unfolding ring_def
    using dseg_append [of ?s h xs z "ws @ ys" h] dseg_split [of ?s z ws ys h] zs by simp
qed

lemma ring_splice:
  assumes r: "ring s h xs" and l: "ring s l zs" and disj: "set (h # xs) \<inter> set (l # zs) = {}"
  shows "ring (list_splice l h s) h (zs @ xs)" "ring (list_splice_tail l h s) h (xs @ zs)"
    "ring (list_splice_init l h s) h (zs @ xs) \<and> ring (list_splice_init l h s) l []"
    "ring (list_splice_tail_init l h s) h (xs @ zs) \<and> ring (list_splice_tail_init l h s) l []"
proof -
  note b = ring_splice_between [of s h _ _ l zs]
  have f: "zs \<noteq> [] \<Longrightarrow> ring (list_splice_between l h (l_next s h) s) h (zs @ xs)"
    using b [of "[]" xs] r l disj ring_next [OF r] by simp
  have t: "zs \<noteq> [] \<Longrightarrow> ring (list_splice_between l (l_prev s h) h s) h (xs @ zs)"
    using b [of xs "[]"] r l disj ring_prev [OF r] by simp
  have out: "l \<notin> set (h # zs @ xs)" using disj ring_distinct [OF l] by auto
  show "ring (list_splice l h s) h (zs @ xs)" "ring (list_splice_tail l h s) h (xs @ zs)"
    using r f t ring_empty [OF l] by (auto simp: list_splice_def list_splice_tail_def)
  show "ring (list_splice_init l h s) h (zs @ xs) \<and> ring (list_splice_init l h s) l []"
    using r l f ring_empty [OF l] ring_init out
    by (auto simp: list_splice_init_def INIT_LIST_HEAD_def intro: ring_put_out)
  show "ring (list_splice_tail_init l h s) h (xs @ zs) \<and> ring (list_splice_tail_init l h s) l []"
    using r l t ring_empty [OF l] ring_init out
    by (auto simp: list_splice_tail_init_def INIT_LIST_HEAD_def intro: ring_put_out)
qed

text \<open>Cutting after entry \<open>e\<close>: the first part goes to list \<open>l\<close>.\<close>

lemma ring_cut_position:
  assumes r: "ring s h (xs @ e # ys)" and l: "l \<notin> set (h # xs @ e # ys)"
  shows "ring (list_cut_position l h e s) l (xs @ [e]) \<and> ring (list_cut_position l h e s) h ys"
proof -
  let ?n = "hd (ys @ [h])" and ?f = "hd (xs @ [e])"
  let ?s = "put_prev ?n h (put_next h ?n (put_next e l (put_prev l e (put_prev ?f l (put_next l ?f s)))))"
  have d: "distinct (h # xs @ e # ys)" and sp: "dseg s h xs e" "dseg s e ys h"
    using r by (simp_all only: ring_def dseg_append)
  have nx: "l_next s h = ?f" "l_next s e = ?n" using dseg_first [OF sp(1)] dseg_first [OF sp(2)] by simp_all
  have fin: "?f \<in> set (xs @ [e])" and nin: "?n \<in> set (ys @ [h])"
    using hd_in_set [of "xs @ [e]"] hd_in_set [of "ys @ [h]"] by auto
  have one: "list_is_singular h s \<longrightarrow> l_next s h = e"
  proof
    assume "list_is_singular h s"
    then have "?f = last (e # ys)" using ring_prev [OF r] nx by (simp add: list_is_singular_def)
    moreover have "last (e # ys) \<in> set (e # ys)" using last_in_set [of "e # ys"] by simp
    ultimately show "l_next s h = e" using fin nx d by auto
  qed
  have he: "h \<noteq> e" "h \<noteq> l" "l \<noteq> e" using d l by auto
  have run: "list_cut_position l h e s = ?s"
    using ring_empty [OF r] one he nx by (auto simp: list_cut_position_def list_cut_position_between_def Let_def)
  have "dseg ?s l xs e"
    by (rule dseg_new_start [OF sp(1)]) (use d l fin nin in auto)
  moreover have "dseg ?s h ys h"
    by (rule dseg_new_start [OF sp(2)]) (use d l fin nin in auto)
  moreover have "l_next ?s e = l" "l_prev ?s l = e" using he l nin d fin by auto
  ultimately show ?thesis unfolding run using d l by (simp add: ring_def dseg_append)
qed

section \<open>The list functions implement lists\<close>

text \<open>
  C25: On a list with the entries \<open>xs @ e # ys\<close> and a second, disjoint one with the entries
  \<open>zs\<close>, the functions of \<open>list.h\<close> are the operations on sequences: \<open>list_add\<close> and
  \<open>list_add_tail\<close> put a new entry in front and at the end, \<open>list_del\<close> takes one out,
  \<open>list_replace\<close> puts another in its place, \<open>list_move\<close> moves it to the front of the
  other list, \<open>list_rotate_left\<close> rotates, the \<open>list_splice_init\<close> functions concatenate
  and empty the second list, and \<open>list_cut_position\<close> splits after \<open>e\<close>.
\<close>

theorem list_functions_refine:
  assumes h: "ring s h (xs @ e # ys)" and l: "ring s l zs"
    and disj: "set (h # xs @ e # ys) \<inter> set (l # zs) = {}"
    and new: "new \<notin> set (h # xs @ e # ys)"
  shows "ring (list_add new h s) h (new # xs @ e # ys) \<and>
    ring (list_add_tail new h s) h (xs @ e # ys @ [new]) \<and>
    ring (list_del e s) h (xs @ ys) \<and>
    ring (list_replace e new s) h (xs @ new # ys) \<and>
    (ring (list_move e l s) l (e # zs) \<and> ring (list_move e l s) h (xs @ ys)) \<and>
    ring (list_rotate_left h s) h (rotate1 (xs @ e # ys)) \<and>
    (ring (list_splice_init l h s) h (zs @ xs @ e # ys) \<and> ring (list_splice_init l h s) l []) \<and>
    (ring (list_splice_tail_init l h s) h (xs @ e # ys @ zs) \<and> ring (list_splice_tail_init l h s) l []) \<and>
    (ring (list_cut_position l h e s) l (xs @ [e]) \<and> ring (list_cut_position l h e s) h ys)"
  using ring_add [OF h new] ring_add_tail [OF h new] ring_del [OF h] ring_replace [OF h new]
    ring_move_other [OF h l disj] ring_rotate_left [OF h] ring_splice(3,4) [OF h l disj] ring_cut_position [OF h, of l] disj
  by auto

definition two_lists :: "list_store" where
  "two_lists = list_add_tail 4 3 (INIT_LIST_HEAD 3 (list_add_tail 2 0 (list_add_tail 1 0
     (INIT_LIST_HEAD 0 \<lparr>l_next = (\<lambda>_. 0), l_prev = (\<lambda>_. 0)\<rparr>))))"

lemma two_lists_rings: "ring two_lists 0 ([1] @ 2 # [])" "ring two_lists 3 [4]"
  by (simp_all add: two_lists_def ring_def list_add_tail_def list_add_between_def INIT_LIST_HEAD_def)

theorem list_functions_refine_witness:
  "ring (list_del 2 two_lists) 0 [1] \<and> ring (list_splice_init 3 0 two_lists) 0 [4, 1, 2]"
  using list_functions_refine [OF two_lists_rings, of 5] by simp

end
