(* ===== verification/Kthread.thy ===== *)
theory Kthread
  imports Vm List_Head
begin

text \<open>
  Kernel threads, \<open>kernel/kthread.c\<close> with \<open>include/yaos/sched.h\<close>. Threads switch to each
  other explicitly and only on one CPU: \<open>wake_up_thread\<close> and \<open>resume_thread\<close> put a
  thread on top of the running one, \<open>yield_thread\<close> and \<open>suspend_thread\<close> go back to the thread below,
  along the \<open>parent\<close> pointers. A function that switches is modelled up to the
  switch: the state it returns is the one in which the other thread goes on.
\<close>

section \<open>Model\<close>

subsection \<open>Data\<close>

abbreviation (input) THREAD_PERCPU :: u32 where "THREAD_PERCPU \<equiv> 1"
abbreviation (input) THREAD_SHOULD_STOP :: u32 where "THREAD_SHOULD_STOP \<equiv> 2"
abbreviation (input) THREAD_IDLE :: u32 where "THREAD_IDLE \<equiv> 4"
abbreviation THREAD_SUSPEND :: u32 where "THREAD_SUSPEND \<equiv> 8"

datatype thread_state = THREAD_INIT | THREAD_READY | THREAD_RUN | THREAD_DONE

abbreviation (input) POLL_LVL_HIGH :: nat where "POLL_LVL_HIGH \<equiv> 0"
abbreviation (input) POLL_LVL_TIMER :: nat where "POLL_LVL_TIMER \<equiv> 1"
abbreviation (input) NR_POLL_LVL :: nat where "NR_POLL_LVL \<equiv> 7"

text \<open>Function pointers are kept as names; what they do is given where they are called.\<close>

datatype poll_handle_t = null_handle | err_poll_handle | timeout_poll_handle | other_handle nat

record poll_cb =
  p_next :: ptr
  p_handle :: poll_handle_t
  p_thread :: ptr

record thread_struct =
  stack_addr :: ulong
  stack_size :: ulong
  rsp :: ulong
  flag :: u32
  on_cpu :: int
  state :: thread_state
  poll_pending :: ulong
  polls :: "nat \<Rightarrow> ptr"
  threads_link :: nat
  children_link :: nat
  parent :: ptr
  task :: nat

text \<open>
  The threads by their address, the per-CPU variable \<open>current_thread\<close>, the thread whose stack is
  loaded (\<open>running\<close>) with the stack pointer, the interrupt flag, the lists of threads, the poll
  callbacks by their address, the bounds of the read-only section, and the virtual memory that stacks
  are taken from.
\<close>

record 'c sched =
  threads :: "nat \<Rightarrow> thread_struct"
  current :: nat
  running :: nat
  reg_rsp :: ulong
  irqs :: bool
  kthread_create_list :: nat
  kthead_create_lock :: spinlock_t
  task_threads :: "nat \<Rightarrow> nat"
  tasklock :: "nat \<Rightarrow> spinlock_t"
  lists :: list_store
  cbs :: "nat \<Rightarrow> 'c poll_cb_scheme"
  ro_start :: nat
  ro_end :: nat
  stks :: stacks
  vmem :: vm

definition upd_thread :: "nat \<Rightarrow> (thread_struct \<Rightarrow> thread_struct) \<Rightarrow> ('c, 'e) sched_scheme \<Rightarrow> ('c, 'e) sched_scheme" where
  "upd_thread p f st = st\<lparr>threads := (threads st)(p := f (threads st p))\<rparr>"

definition upd_cb :: "nat \<Rightarrow> ('c poll_cb_scheme \<Rightarrow> 'c poll_cb_scheme) \<Rightarrow> ('c, 'e) sched_scheme \<Rightarrow> ('c, 'e) sched_scheme" where
  "upd_cb p f st = st\<lparr>cbs := (cbs st)(p := f (cbs st p))\<rparr>"

definition set_current :: "nat \<Rightarrow> ('c, 'e) sched_scheme \<Rightarrow> ('c, 'e) sched_scheme" where
  "set_current p st = st\<lparr>current := p\<rparr>"

definition local_irq_disable :: "('c, 'e) sched_scheme \<Rightarrow> ('c, 'e) sched_scheme" where
  "local_irq_disable st = st\<lparr>irqs := False\<rparr>"

definition local_irq_enable :: "('c, 'e) sched_scheme \<Rightarrow> ('c, 'e) sched_scheme" where
  "local_irq_enable st = st\<lparr>irqs := True\<rparr>"

definition suspended :: "('c, 'e) sched_scheme \<Rightarrow> nat \<Rightarrow> bool" where
  "suspended st p \<longleftrightarrow> flag (threads st p) AND THREAD_SUSPEND \<noteq> 0"

subsection \<open>Context switches\<close>

text \<open>
  \<open>switch_to\<close> and \<open>switch_first\<close> of \<open>entry64.S\<close>: six registers are pushed on the old stack,
  whose pointer \<open>sp\<close> at the call the compiler chooses, and the pointer is saved; then the new stack is
  loaded and either the saved registers and the return address are popped from it, or the address
  of \<open>s_exit_thread\<close> is pushed and \<open>thread_main\<close> entered.
\<close>

definition switch_to :: "nat \<Rightarrow> nat \<Rightarrow> ulong \<Rightarrow> ('c, 'e) sched_scheme \<Rightarrow> ('c, 'e) sched_scheme" where
  "switch_to p old sp st =
     (let st1 = upd_thread old (\<lambda>t. t\<lparr>rsp := sp - 48\<rparr>) st
      in st1\<lparr>running := p, reg_rsp := rsp (threads st p) + 56\<rparr>)"

definition switch_first :: "nat \<Rightarrow> ulong \<Rightarrow> nat \<Rightarrow> ulong \<Rightarrow> ('c, 'e) sched_scheme \<Rightarrow> ('c, 'e) sched_scheme" where
  "switch_first p stack_point old sp st =
     (upd_thread old (\<lambda>t. t\<lparr>rsp := sp - 48\<rparr>) st)\<lparr>running := p, reg_rsp := stack_point - 8\<rparr>"

definition thread_switch_first :: "nat \<Rightarrow> nat \<Rightarrow> ulong \<Rightarrow> ('c, 'e) sched_scheme \<Rightarrow> ('c, 'e) sched_scheme outcome" where
  "thread_switch_first p old sp st =
     (let stack_point = stack_addr (threads st p) + stack_size (threads st p) - 16 in
      andThen (ASSERT (stack_point \<noteq> 0)) (\<lambda>_.
      andThen (ASSERT (stack_point < max_phy_mem_addr (pmem (physm (pg (vmem st)))) \<or>
        get_pte_with_addr stack_point (pg (vmem st)) \<noteq> None)) (\<lambda>_.
      Inr (switch_first p stack_point old sp st))))"

definition thread_switch_to :: "nat \<Rightarrow> nat \<Rightarrow> ulong \<Rightarrow> ('c, 'e) sched_scheme \<Rightarrow> ('c, 'e) sched_scheme outcome" where
  "thread_switch_to p old sp st =
     andThen (ASSERT (rsp (threads st p) \<noteq> 0)) (\<lambda>_.
     andThen (ASSERT (rsp (threads st p) > KERNEL_STACK_ZONE_START)) (\<lambda>_.
     Inr (switch_to p old sp st)))"

subsection \<open>Creation\<close>

definition create_thread_oncpu :: "nat \<Rightarrow> int \<Rightarrow> ('c, 'e) sched_scheme \<Rightarrow> (int \<times> ('c, 'e) sched_scheme) outcome" where
  "create_thread_oncpu p oncpu st =
     andThen
       (if stack_addr (threads st p) = 0
        then andThen (alloc_vm_stack (stack_size (threads st p)) (vmem st)) (\<lambda>(a, vm1).
          if a = 0 then Inr (ENOMEM, st\<lparr>vmem := vm1\<rparr>)
          else Inr (0, upd_thread p (\<lambda>t. t\<lparr>stack_addr := a\<rparr>) (st\<lparr>vmem := vm1\<rparr>)))
        else Inr (0, st)) (\<lambda>(ret, st1).
     if ret \<noteq> 0 then Inr (ret, st1)
     else let t1 = threads st1 p in
       andThen (register_stack (stack_addr t1) (stack_addr t1 + stack_size t1) (word_of_int oncpu) (stks st1)) (\<lambda>stks1.
       andThen (spin_lock (kthead_create_lock st1)) (\<lambda>l.
       let lists1 = list_add (threads_link t1) (kthread_create_list st1) (lists st1) in
       andThen (spin_lock (tasklock st1 (task t1))) (\<lambda>m.
       let lists2 = list_add (children_link t1) (task_threads st1 (task t1)) lists1 in
       Inr (0, upd_thread p (\<lambda>t. t\<lparr>rsp := stack_addr t + stack_size t - 8, state := THREAD_READY, on_cpu := oncpu\<rparr>)
         (st1\<lparr>stks := stks1, lists := lists2, kthead_create_lock := spin_unlock l,
              tasklock := (tasklock st1)(task t1 := spin_unlock m)\<rparr>))))))"

subsection \<open>Switching\<close>

text \<open>Going on with thread \<open>p\<close>: for the first time, or where it left off.\<close>

definition enter_ready :: "nat \<Rightarrow> nat \<Rightarrow> ulong \<Rightarrow> ('c, 'e) sched_scheme \<Rightarrow> ('c, 'e) sched_scheme outcome" where
  "enter_ready p old sp st =
     thread_switch_first p old sp (upd_thread p (\<lambda>t. t\<lparr>state := THREAD_RUN\<rparr>) st)"

definition go_on_with :: "nat \<Rightarrow> nat \<Rightarrow> ulong \<Rightarrow> ('c, 'e) sched_scheme \<Rightarrow> ('c, 'e) sched_scheme outcome" where
  "go_on_with p old sp st =
     (if state (threads st p) = THREAD_READY then enter_ready p old sp st else thread_switch_to p old sp st)"

definition go_back_to :: "nat \<Rightarrow> nat \<Rightarrow> ulong \<Rightarrow> ('c, 'e) sched_scheme \<Rightarrow> ('c, 'e) sched_scheme outcome" where
  "go_back_to p old sp st =
     (if state (threads st p) = THREAD_READY then enter_ready p old sp st
      else thread_switch_to p old sp (upd_thread p (\<lambda>t. t\<lparr>state := THREAD_RUN\<rparr>) st))"

definition exit_thread :: "ulong \<Rightarrow> ('c, 'e) sched_scheme \<Rightarrow> ('c, 'e) sched_scheme outcome" where
  "exit_thread sp st =
     (let st0 = local_irq_disable st; pold = current st0;
          st1 = upd_thread pold (\<lambda>t. t\<lparr>state := THREAD_DONE\<rparr>) st0
      in case parent (threads st0 pold) of
           None \<Rightarrow> panic
         | Some p \<Rightarrow> go_back_to p pold sp (local_irq_enable st1))"

text \<open>
  \<open>wake_up_thread\<close>. With \<open>DEBUG\<close> a thread that is not suspended is looked for among the
  ancestors of the current one, and found there it is an assertion failure.
\<close>

definition wake_up_thread :: "nat \<Rightarrow> ulong \<Rightarrow> ('c, 'e) sched_scheme \<Rightarrow> ('c, 'e) sched_scheme outcome" where
  "wake_up_thread p sp st =
     (let pold = current st in
      if p = pold then Inr st
      else if state (threads st p) = THREAD_INIT then Inr st
      else if \<not> suspended st p then
        andThen (ending (chain (\<lambda>i. parent (threads st i)) (parent (threads st pold)))) (\<lambda>anc.
        andThen (ASSERT (p \<notin> set anc)) (\<lambda>_. Inr st))
      else
        let st1 = upd_thread p (\<lambda>t. t\<lparr>flag := flag t AND NOT THREAD_SUSPEND\<rparr>) (local_irq_disable st);
            st2 = set_current p st1;
            st3 = upd_thread p (\<lambda>t. t\<lparr>parent := Some pold\<rparr>) st2
        in go_on_with p pold sp st3)"

definition suspend_thread :: "ulong \<Rightarrow> ('c, 'e) sched_scheme \<Rightarrow> ('c, 'e) sched_scheme outcome" where
  "suspend_thread sp st =
     (let st0 = local_irq_disable st; pold = current st0; p = parent (threads st0 pold) in
      andThen (ASSERT (p \<noteq> Some pold)) (\<lambda>_.
      andThen (ending (walk (\<lambda>i. parent (threads st0 i)) (\<lambda>i. \<not> suspended st0 i) p)) (\<lambda>p.
      case p of
        None \<Rightarrow> panic
      | Some p \<Rightarrow>
          andThen (ASSERT (\<not> suspended st0 pold)) (\<lambda>_.
          let st1 = upd_thread pold (\<lambda>t. t\<lparr>flag := flag t OR THREAD_SUSPEND\<rparr>) st0
          in go_back_to p pold sp (set_current p st1)))))"

text \<open>\<open>resume_thread\<close> returns at once, with the pair (0, -1), only for a thread that is done.\<close>

definition resume_thread :: "nat \<Rightarrow> ulong \<Rightarrow> ('c, 'e) sched_scheme \<Rightarrow> ((int \<times> int) option \<times> ('c, 'e) sched_scheme) outcome" where
  "resume_thread p sp st =
     (let st0 = local_irq_disable st in
      if state (threads st0 p) = THREAD_DONE then Inr (Some (0, -1), local_irq_enable st0)
      else
        let pold = current st0; st1 = upd_thread p (\<lambda>t. t\<lparr>parent := Some pold\<rparr>) st0 in
        andThen (ASSERT (pold \<noteq> p)) (\<lambda>_.
        let st2 = local_irq_enable (set_current p st1) in
        andThen (go_on_with p pold sp st2) (\<lambda>st3.
        Inr (None, st3))))"

definition yield_thread :: "ulong \<Rightarrow> ('c, 'e) sched_scheme \<Rightarrow> ('c, 'e) sched_scheme outcome" where
  "yield_thread sp st =
     (let st0 = local_irq_disable st; pold = current st0; p = parent (threads st0 pold) in
      andThen (ASSERT (p \<noteq> Some pold)) (\<lambda>_.
      case p of
        None \<Rightarrow> panic
      | Some p \<Rightarrow> go_back_to p pold sp (set_current p st0)))"

text \<open>One round of the loop at the start of \<open>thread_main\<close>: yield while the thread is suspended.\<close>

definition thread_main :: "nat \<Rightarrow> ulong \<Rightarrow> ('c, 'e) sched_scheme \<Rightarrow> ('c, 'e) sched_scheme outcome" where
  "thread_main p sp st =
     (let st1 = upd_thread p (\<lambda>t. t\<lparr>state := THREAD_RUN\<rparr>) st
      in if suspended st1 p then yield_thread sp st1 else Inr st1)"

subsection \<open>The threads of the boot\<close>

text \<open>
  \<open>idle\<close> and \<open>kmain\<close> are the addresses of the per-CPU thread structures, \<open>tsk\<close> the task that
  contains the idle thread, \<open>init_stack\<close> the stack the CPU was started on.
\<close>

abbreviation IDLE_STACK_SIZE :: ulong where "IDLE_STACK_SIZE \<equiv> 0x1000"
abbreviation KMAIN_STACK_SIZE :: ulong where "KMAIN_STACK_SIZE \<equiv> 0x200000"

definition init_idle_thread :: "nat \<Rightarrow> nat \<Rightarrow> int \<Rightarrow> ('c, 'e) sched_scheme \<Rightarrow> (int \<times> ('c, 'e) sched_scheme) outcome" where
  "init_idle_thread idle tsk cpu st =
     (let st1 = upd_thread idle (\<lambda>t. t\<lparr>stack_addr := 0, stack_size := IDLE_STACK_SIZE, rsp := 0, flag := THREAD_IDLE, on_cpu := 0,
                  state := THREAD_INIT, poll_pending := 0, polls := (\<lambda>_. None), parent := None, task := tsk\<rparr>)
                (st\<lparr>lists := INIT_LIST_HEAD (task_threads st tsk) (lists st), tasklock := (tasklock st)(tsk := False)\<rparr>)
      in create_thread_oncpu idle cpu st1)"

definition init_kmain_thread ::
  "nat \<Rightarrow> nat \<Rightarrow> nat \<Rightarrow> ulong \<Rightarrow> int \<Rightarrow> ulong \<Rightarrow> ('c, 'e) sched_scheme \<Rightarrow> (int \<times> ('c, 'e) sched_scheme) outcome" where
  "init_kmain_thread kmain idle tsk init_stack cpu sp st =
     andThen (unmap_free_at init_stack 0x1000 (pg (vmem st))) (\<lambda>pg1.
     let st0 = st\<lparr>vmem := (vmem st)\<lparr>pg := pg1\<rparr>, lists := INIT_LIST_HEAD (task_threads st tsk) (lists st)\<rparr>;
         st1 = upd_thread kmain (\<lambda>t. t\<lparr>task := tsk, stack_addr := 0, stack_size := KMAIN_STACK_SIZE, flag := THREAD_PERCPU, parent := Some idle\<rparr>) st0
     in andThen (create_thread_oncpu kmain cpu st1) (\<lambda>(ret, st2).
        if ret \<noteq> 0 then Inr (ret, st2)
        else let st3 = upd_thread kmain (\<lambda>t. t\<lparr>state := THREAD_RUN\<rparr>) (set_current kmain st2) in
          andThen (resume_thread idle sp st3) (\<lambda>(_, st4). Inr (0, st4))))"

subsection \<open>Poll callbacks\<close>

definition thread_add_poll :: "nat \<Rightarrow> nat \<Rightarrow> ('c, 'e) sched_scheme \<Rightarrow> ('c, 'e) sched_scheme outcome" where
  "thread_add_poll p lvl st =
     (let addr_of = (\<lambda>q. case q of None \<Rightarrow> 0 | Some a \<Rightarrow> a); th = p_thread (cbs st p) in
      andThen (ASSERT (p < ro_start st \<or> p > ro_end st)) (\<lambda>_.
      andThen (ASSERT (addr_of th < ro_start st \<or> addr_of th > ro_end st)) (\<lambda>_.
      andThen (ASSERT (lvl < NR_POLL_LVL)) (\<lambda>_.
      let st0 = local_irq_disable st in
      andThen (deref th) (\<lambda>t.
      let st1 = (if polls (threads st0 t) lvl \<noteq> Some p
                 then upd_thread t (\<lambda>x. x\<lparr>polls := (polls x)(lvl := Some p)\<rparr>)
                        (upd_cb p (\<lambda>c. c\<lparr>p_next := polls (threads st0 t) lvl\<rparr>) st0)
                 else st0)
      in Inr (upd_thread (current st1) (\<lambda>x. x\<lparr>poll_pending := poll_pending x OR push_bit lvl 1\<rparr>) (local_irq_enable st1)))))))"

text \<open>
  The handlers are a parameter: \<open>call h p\<close> is the effect of the function \<open>h\<close> on the callback at \<open>p\<close>.
\<close>

partial_function (option) do_poll_head ::
  "(poll_handle_t \<Rightarrow> nat \<Rightarrow> ('c, 'e) sched_scheme \<Rightarrow> ('c, 'e) sched_scheme outcome) \<Rightarrow> ptr \<Rightarrow>
   ('c, 'e) sched_scheme \<Rightarrow> ('c, 'e) sched_scheme outcome option" where
  "do_poll_head call p st =
     (case p of None \<Rightarrow> Some (Inr st)
      | Some i \<Rightarrow>
          (case call (p_handle (cbs st i)) i (upd_cb i (\<lambda>c. c\<lparr>p_next := None\<rparr>) st) of
             Inl e \<Rightarrow> Some (Inl e)
           | Inr st1 \<Rightarrow> do_poll_head call (p_next (cbs st i)) st1))"

declare do_poll_head.simps [code]

definition poll_level ::
  "(poll_handle_t \<Rightarrow> nat \<Rightarrow> ('c, 'e) sched_scheme \<Rightarrow> ('c, 'e) sched_scheme outcome) \<Rightarrow> (nat \<Rightarrow> ptr) \<Rightarrow> nat \<Rightarrow>
   (bool \<times> ('c, 'e) sched_scheme) outcome \<Rightarrow> (bool \<times> ('c, 'e) sched_scheme) outcome" where
  "poll_level call pheads i r =
     andThen r (\<lambda>(ret, st).
       case pheads i of
         None \<Rightarrow> Inr (ret, st)
       | Some h \<Rightarrow> andThen (andThen (ending (do_poll_head call (Some h) st)) id) (\<lambda>st1. Inr (True, st1)))"

definition can_main_run ::
  "(poll_handle_t \<Rightarrow> nat \<Rightarrow> ('c, 'e) sched_scheme \<Rightarrow> ('c, 'e) sched_scheme outcome) \<Rightarrow> nat \<Rightarrow>
   ('c, 'e) sched_scheme \<Rightarrow> (bool \<times> ('c, 'e) sched_scheme) outcome" where
  "can_main_run call p st =
     (let pheads = polls (threads st p);
          st1 = upd_thread p (\<lambda>t. t\<lparr>polls := (\<lambda>_. None), poll_pending := 0\<rparr>) (local_irq_disable st)
      in fold (poll_level call pheads) [0..<NR_POLL_LVL] (Inr (False, local_irq_enable st1)))"

section \<open>Updates\<close>

lemma upd_thread_sel [simp]:
  "threads (upd_thread p f st) = (threads st)(p := f (threads st p))"
  "current (upd_thread p f st) = current st" "running (upd_thread p f st) = running st"
  "reg_rsp (upd_thread p f st) = reg_rsp st" "irqs (upd_thread p f st) = irqs st"
  "cbs (upd_thread p f st) = cbs st" "vmem (upd_thread p f st) = vmem st"
  by (simp_all add: upd_thread_def)

lemma irq_sel [simp]:
  "threads (local_irq_disable st) = threads st" "current (local_irq_disable st) = current st"
  "threads (local_irq_enable st) = threads st" "current (local_irq_enable st) = current st"
  "running (local_irq_disable st) = running st" "running (local_irq_enable st) = running st"
  "vmem (local_irq_disable st) = vmem st" "vmem (local_irq_enable st) = vmem st"
  "cbs (local_irq_disable st) = cbs st" "cbs (local_irq_enable st) = cbs st"
  by (simp_all add: local_irq_disable_def local_irq_enable_def)

lemma set_current_sel [simp]:
  "threads (set_current p st) = threads st" "current (set_current p st) = p"
  "vmem (set_current p st) = vmem st" "running (set_current p st) = running st" "cbs (set_current p st) = cbs st"
  by (simp_all add: set_current_def)

lemma upd_cb_sel [simp]:
  "cbs (upd_cb p f st) = (cbs st)(p := f (cbs st p))"
  "threads (upd_cb p f st) = threads st" "current (upd_cb p f st) = current st"
  by (simp_all add: upd_cb_def)

lemma switch_sel [simp]:
  "current (switch_to p old sp st) = current st" "running (switch_to p old sp st) = p"
  "reg_rsp (switch_to p old sp st) = rsp (threads st p) + 56"
  "threads (switch_to p old sp st) = (threads st)(old := (threads st old)\<lparr>rsp := sp - 48\<rparr>)"
  "current (switch_first p k old sp st) = current st" "running (switch_first p k old sp st) = p"
  "reg_rsp (switch_first p k old sp st) = k - 8"
  "threads (switch_first p k old sp st) = (threads st)(old := (threads st old)\<lparr>rsp := sp - 48\<rparr>)"
  "vmem (switch_to p old sp st) = vmem st" "vmem (switch_first p k old sp st) = vmem st"
  by (simp_all add: switch_to_def switch_first_def Let_def)

section \<open>Threads form a stack\<close>

text \<open>
  What a switch to thread \<open>p\<close> relies on: a new thread has a stack that is mapped at its top, another
  one has a saved stack pointer inside the zone of kernel stacks.
\<close>

definition can_enter :: "('c, 'e) sched_scheme \<Rightarrow> nat \<Rightarrow> bool" where
  "can_enter st p \<longleftrightarrow>
     (if state (threads st p) = THREAD_READY
      then let k = stack_addr (threads st p) + stack_size (threads st p) - 16 in
        k \<noteq> 0 \<and> (k < max_phy_mem_addr (pmem (physm (pg (vmem st)))) \<or> get_pte_with_addr k (pg (vmem st)) \<noteq> None)
      else rsp (threads st p) > KERNEL_STACK_ZONE_START)"

lemma can_enter_cong:
  "can_enter st p \<Longrightarrow> vmem st' = vmem st \<Longrightarrow> state (threads st' p) = state (threads st p) \<Longrightarrow>
   stack_addr (threads st' p) = stack_addr (threads st p) \<Longrightarrow> stack_size (threads st' p) = stack_size (threads st p) \<Longrightarrow>
   rsp (threads st' p) = rsp (threads st p) \<Longrightarrow> can_enter st' p"
  by (simp only: can_enter_def)

abbreviation parent_of :: "('c, 'e) sched_scheme \<Rightarrow> nat \<Rightarrow> ptr" where
  "parent_of st \<equiv> \<lambda>i. parent (threads st i)"

text \<open>
  The running thread and threads below it, each the parent of the one above; none of the lower
  ones is suspended. Nothing is said about the parent of the last one: at boot \<open>kmain\<close> and the idle thread become parents of each other.
\<close>

definition sched_inv :: "('c, 'e) sched_scheme \<Rightarrow> nat list \<Rightarrow> bool" where
  "sched_inv st xs \<longleftrightarrow> running st = current st \<and> xs \<noteq> [] \<and> hd xs = current st \<and> distinct xs \<and>
     successively (\<lambda>a b. parent_of st a = Some b) xs \<and> (\<forall>t \<in> set (tl xs). \<not> suspended st t)"

text \<open>The threads other than the one entered keep everything but the saved stack pointer of the old one.\<close>

lemma enter_run:
  assumes "can_enter st p"
  shows "\<exists>st'. go_on_with p old sp st = Inr st' \<and>
     current st' = current st \<and> running st' = p \<and> (\<forall>t. parent_of st' t = parent_of st t) \<and>
     (\<forall>t. flag (threads st' t) = flag (threads st t)) \<and> rsp (threads st' old) = sp - 48 \<and>
     (\<forall>t. t \<noteq> p \<longrightarrow> state (threads st' t) = state (threads st t))"
    and "\<exists>st'. go_back_to p old sp st = Inr st' \<and>
     current st' = current st \<and> running st' = p \<and> (\<forall>t. parent_of st' t = parent_of st t) \<and>
     (\<forall>t. flag (threads st' t) = flag (threads st t)) \<and> rsp (threads st' old) = sp - 48 \<and>
     (state (threads st p) \<noteq> THREAD_READY \<longrightarrow> reg_rsp st' = rsp (threads st p) + 56)"
proof -
  have "rsp (threads st p) \<noteq> 0" if "rsp (threads st p) > KERNEL_STACK_ZONE_START"
    using that by auto
  then show "\<exists>st'. go_on_with p old sp st = Inr st' \<and>
     current st' = current st \<and> running st' = p \<and> (\<forall>t. parent_of st' t = parent_of st t) \<and>
     (\<forall>t. flag (threads st' t) = flag (threads st t)) \<and> rsp (threads st' old) = sp - 48 \<and>
     (\<forall>t. t \<noteq> p \<longrightarrow> state (threads st' t) = state (threads st t))"
   and "\<exists>st'. go_back_to p old sp st = Inr st' \<and>
     current st' = current st \<and> running st' = p \<and> (\<forall>t. parent_of st' t = parent_of st t) \<and>
     (\<forall>t. flag (threads st' t) = flag (threads st t)) \<and> rsp (threads st' old) = sp - 48 \<and>
     (state (threads st p) \<noteq> THREAD_READY \<longrightarrow> reg_rsp st' = rsp (threads st p) + 56)"
    using assms
    by (auto simp: can_enter_def go_on_with_def enter_ready_def go_back_to_def thread_switch_first_def thread_switch_to_def Let_def)
qed

lemma suspended_cong: "flag (threads st' t) = flag (threads st t) \<Longrightarrow> suspended st' t = suspended st t"
  by (simp add: suspended_def)

lemma suspend_bit [simp]: "(f AND NOT THREAD_SUSPEND) AND THREAD_SUSPEND = 0" "(f OR THREAD_SUSPEND) AND THREAD_SUSPEND \<noteq> 0"
proof -
  show "(f AND NOT THREAD_SUSPEND) AND THREAD_SUSPEND = 0"
    by (rule bit_word_eqI) (simp add: bit_simps)
  have "bit ((f OR THREAD_SUSPEND) AND THREAD_SUSPEND) 3" by (simp add: bit_simps)
  then show "(f OR THREAD_SUSPEND) AND THREAD_SUSPEND \<noteq> 0" by auto
qed

text \<open>A thread that is put on top of the running one.\<close>

lemma successively_cong:
  "successively P xs \<Longrightarrow> (\<And>x y. x \<in> set xs \<Longrightarrow> P x y \<Longrightarrow> Q x y) \<Longrightarrow> successively Q xs"
  by (induction xs rule: induct_list012) auto

lemma pushed_inv:
  assumes st: "sched_inv st (c # xs)" "\<not> suspended st c" and p: "p \<notin> set (c # xs)"
    and st': "current st' = p" "running st' = p" "\<forall>t. parent_of st' t = (if t = p then Some c else parent_of st t)"
      "\<forall>t. t \<noteq> p \<longrightarrow> flag (threads st' t) = flag (threads st t)"
  shows "sched_inv st' (p # c # xs)"
proof -
  have "successively (\<lambda>a b. parent_of st a = Some b) (c # xs)" using st(1) unfolding sched_inv_def by blast
  then have "successively (\<lambda>a b. parent_of st' a = Some b) (c # xs)"
    by (rule successively_cong) (use st'(3) p in auto)
  moreover have "\<forall>t \<in> set (c # xs). \<not> suspended st' t"
    using st st'(4) p unfolding sched_inv_def by (metis suspended_cong list.sel(3) set_ConsD)
  ultimately show ?thesis using st(1) p st'(1-3) by (auto simp: sched_inv_def)
qed

text \<open>Going back to the thread below.\<close>

lemma popped_inv:
  assumes st: "sched_inv st (c # q # xs)"
    and st': "current st' = q" "running st' = q" "\<forall>t. parent_of st' t = parent_of st t"
      "\<forall>t. t \<noteq> c \<longrightarrow> flag (threads st' t) = flag (threads st t)"
  shows "sched_inv st' (q # xs)"
proof -
  have "\<forall>t \<in> set xs. \<not> suspended st' t"
  proof
    fix t assume t: "t \<in> set xs"
    then have "t \<noteq> c" "\<not> suspended st t" using st by (auto simp: sched_inv_def)
    with st'(4) show "\<not> suspended st' t" by (simp add: suspended_def)
  qed
  then show ?thesis using st st'(1-3) by (auto simp: sched_inv_def)
qed

lemma wake_up_run:
  assumes st: "sched_inv st (c # xs)" "\<not> suspended st c"
    and p: "suspended st p" "state (threads st p) \<noteq> THREAD_INIT" "can_enter st p"
  shows "\<exists>st'. wake_up_thread p sp st = Inr st' \<and> sched_inv st' (p # c # xs) \<and> rsp (threads st' c) = sp - 48"
proof -
  have c: "current st = c" using st(1) by (simp add: sched_inv_def)
  have pn: "p \<notin> set (c # xs)" using st p(1) by (auto simp: sched_inv_def)
  define s1 where "s1 = upd_thread p (\<lambda>t. t\<lparr>parent := Some c\<rparr>) (set_current p
    (upd_thread p (\<lambda>t. t\<lparr>flag := flag t AND NOT THREAD_SUSPEND\<rparr>) (local_irq_disable st)))"
  have "can_enter s1 p" by (rule can_enter_cong [OF p(3)]) (simp_all add: s1_def)
  from enter_run(1) [OF this, of c sp] obtain st' where
    r: "go_on_with p c sp s1 = Inr st'"
      "current st' = current s1" "running st' = p" "\<forall>t. parent_of st' t = parent_of s1 t"
      "\<forall>t. flag (threads st' t) = flag (threads s1 t)" "rsp (threads st' c) = sp - 48" by blast
  have "p \<noteq> c" using pn by simp
  then have "wake_up_thread p sp st = go_on_with p c sp s1"
    using p(1,2) c by (simp add: wake_up_thread_def s1_def Let_def)
  then have "wake_up_thread p sp st = Inr st'" using r(1) by simp
  moreover have "sched_inv st' (p # c # xs)"
    by (rule pushed_inv [OF st pn]) (simp_all add: r s1_def)
  ultimately show ?thesis using r(6) by blast
qed

lemma resume_run:
  assumes st: "sched_inv st (c # xs)" "\<not> suspended st c"
    and p: "p \<notin> set (c # xs)" "state (threads st p) \<noteq> THREAD_DONE" "can_enter st p"
  shows "\<exists>st'. resume_thread p sp st = Inr (None, st') \<and> sched_inv st' (p # c # xs) \<and>
    rsp (threads st' c) = sp - 48 \<and> state (threads st' c) = state (threads st c) \<and>
    (\<forall>t \<in> set (c # xs). \<not> suspended st' t)"
proof -
  have c: "current st = c" using st(1) by (simp add: sched_inv_def)
  define s1 where "s1 = local_irq_enable (set_current p (upd_thread p (\<lambda>t. t\<lparr>parent := Some c\<rparr>) (local_irq_disable st)))"
  have "can_enter s1 p" by (rule can_enter_cong [OF p(3)]) (simp_all add: s1_def)
  from enter_run(1) [OF this, of c sp] obtain st' where
    r: "go_on_with p c sp s1 = Inr st'"
      "current st' = current s1" "running st' = p" "\<forall>t. parent_of st' t = parent_of s1 t"
      "\<forall>t. flag (threads st' t) = flag (threads s1 t)" "rsp (threads st' c) = sp - 48"
      "\<forall>t. t \<noteq> p \<longrightarrow> state (threads st' t) = state (threads s1 t)" by blast
  have "c \<noteq> p" using p by auto
  then have "resume_thread p sp st = andThen (go_on_with p c sp s1) (\<lambda>s. Inr (None, s))"
    using p(2) c by (simp add: resume_thread_def s1_def Let_def)
  then have "resume_thread p sp st = Inr (None, st')" using r(1) by simp
  moreover have "sched_inv st' (p # c # xs)"
    by (rule pushed_inv [OF st p(1)]) (simp_all add: r s1_def)
  moreover have "state (threads st' c) = state (threads st c)" using r(7) \<open>c \<noteq> p\<close> by (simp add: s1_def)
  moreover have "\<forall>t \<in> set (c # xs). \<not> suspended st' t"
    using st r(5) p(1) by (auto simp: suspended_def s1_def sched_inv_def)
  ultimately show ?thesis using r(6) by blast
qed

lemma yield_run:
  assumes st: "sched_inv st (c # q # xs)" and q: "can_enter st q"
  shows "\<exists>st'. yield_thread sp st = Inr st' \<and> sched_inv st' (q # xs) \<and>
    (state (threads st q) \<noteq> THREAD_READY \<longrightarrow> reg_rsp st' = rsp (threads st q) + 56)"
proof -
  have c: "current st = c" and pc: "parent (threads st c) = Some q" and "q \<noteq> c"
    using st by (auto simp: sched_inv_def)
  define s1 where "s1 = set_current q (local_irq_disable st)"
  have "can_enter s1 q" by (rule can_enter_cong [OF q]) (simp_all add: s1_def)
  from enter_run(2) [OF this, of c sp] obtain st' where
    r: "go_back_to q c sp s1 = Inr st'" "current st' = current s1" "running st' = q" "\<forall>t. parent_of st' t = parent_of s1 t"
      "\<forall>t. flag (threads st' t) = flag (threads s1 t)"
      "state (threads s1 q) \<noteq> THREAD_READY \<longrightarrow> reg_rsp st' = rsp (threads s1 q) + 56" by blast
  have "yield_thread sp st = Inr st'" using r(1) c pc \<open>q \<noteq> c\<close> by (simp add: yield_thread_def s1_def Let_def)
  moreover have "sched_inv st' (q # xs)"
    by (rule popped_inv [OF st]) (simp_all add: r s1_def)
  ultimately show ?thesis using r(6) by (simp add: s1_def)
qed

lemma suspend_run:
  assumes st: "sched_inv st (c # q # xs)" "\<not> suspended st c"
    and q: "can_enter st q"
  shows "\<exists>st'. suspend_thread sp st = Inr st' \<and> sched_inv st' (q # xs) \<and> suspended st' c"
proof -
  have c: "current st = c" and pc: "parent (threads st c) = Some q" and "q \<noteq> c"
    using st by (auto simp: sched_inv_def)
  define s1 where "s1 = set_current q (upd_thread c (\<lambda>t. t\<lparr>flag := flag t OR THREAD_SUSPEND\<rparr>) (local_irq_disable st))"
  have "can_enter s1 q" by (rule can_enter_cong [OF q]) (simp_all add: s1_def \<open>q \<noteq> c\<close>)
  from enter_run(2) [OF this, of c sp] obtain st' where
    r: "go_back_to q c sp s1 = Inr st'" "current st' = current s1" "running st' = q" "\<forall>t. parent_of st' t = parent_of s1 t"
      "\<forall>t. flag (threads st' t) = flag (threads s1 t)" by blast
  have "\<not> suspended st q" using st(1) by (simp add: sched_inv_def)
  then have "walk (parent_of st) (\<lambda>i. \<not> suspended st i) (Some q) = Some (Some q)" by (subst walk.simps) simp
  then have "suspend_thread sp st = Inr st'"
    using r(1) c pc \<open>q \<noteq> c\<close> st(2) unfolding suspend_thread_def Let_def
    by (simp add: s1_def [symmetric] suspended_def)
  moreover have "sched_inv st' (q # xs)"
    by (rule popped_inv [OF st(1)]) (simp_all add: r s1_def)
  moreover have "suspended st' c" by (simp add: suspended_def r s1_def)
  ultimately show ?thesis by blast
qed

section \<open>Properties of the switches\<close>

text \<open>
  C23: The threads behave as a stack. From a state in which the current thread \<open>c\<close> runs above
  \<open>q\<close> and \<open>xs\<close>, waking a suspended thread or resuming another one puts it on top of \<open>c\<close>;
  \<open>yield_thread\<close> and \<open>suspend_thread\<close> take \<open>c\<close> off and go on with \<open>q\<close>, in the second case
  with \<open>c\<close> marked as suspended. All four return a state in which the thread that runs is the
  current one and no thread below it is suspended.
\<close>

theorem thread_switches_are_a_stack:
  assumes "sched_inv st (c # q # xs)" and "\<not> suspended st c" and "can_enter st q"
    and "p \<notin> set (c # q # xs)" and "state (threads st p) \<in> {THREAD_READY, THREAD_RUN}" and "can_enter st p"
  shows "(\<exists>st'. yield_thread sp st = Inr st' \<and> sched_inv st' (q # xs)) \<and>
    (\<exists>st'. suspend_thread sp st = Inr st' \<and> sched_inv st' (q # xs) \<and> suspended st' c) \<and>
    (\<exists>st'. resume_thread p sp st = Inr (None, st') \<and> sched_inv st' (p # c # q # xs)) \<and>
    (suspended st p \<longrightarrow> (\<exists>st'. wake_up_thread p sp st = Inr st' \<and> sched_inv st' (p # c # q # xs)))"
proof -
  have p: "state (threads st p) \<noteq> THREAD_DONE" "state (threads st p) \<noteq> THREAD_INIT" using assms(5) by auto
  show ?thesis
    using yield_run [OF assms(1,3)] suspend_run [OF assms(1-3)]
      resume_run [OF assms(1,2,4) p(1) assms(6)] wake_up_run [OF assms(1,2) _ p(2) assms(6)]
    by meson
qed

text \<open>
  A thread that is resumed and yields gives control back to the thread that resumed it: the
  stack pointer is the one of the call (plus the return address that was popped), the
  current thread and the threads below it are as before.
\<close>

theorem resume_then_yield:
  assumes "sched_inv st (c # xs)" and "\<not> suspended st c" and "state (threads st c) = THREAD_RUN"
    and "p \<notin> set (c # xs)" and "state (threads st p) \<in> {THREAD_READY, THREAD_RUN}" and "can_enter st p"
    and "sp - 48 > KERNEL_STACK_ZONE_START"
  shows "\<exists>st1 st2. resume_thread p sp st = Inr (None, st1) \<and> running st1 = p \<and> yield_thread sp1 st1 = Inr st2 \<and>
    running st2 = c \<and> reg_rsp st2 = sp + 8 \<and> sched_inv st2 (c # xs)"
proof -
  have p: "state (threads st p) \<noteq> THREAD_DONE" using assms(5) by auto
  obtain st1 where r: "resume_thread p sp st = Inr (None, st1)" "sched_inv st1 (p # c # xs)"
      "rsp (threads st1 c) = sp - 48" "state (threads st1 c) = THREAD_RUN"
    using resume_run [OF assms(1,2,4) p assms(6), of sp] assms(3) by auto
  have "can_enter st1 c" unfolding can_enter_def r(3,4) using assms(7) by simp
  from yield_run [OF r(2) this, of sp1] obtain st2 where
    y: "yield_thread sp1 st1 = Inr st2" "sched_inv st2 (c # xs)" "reg_rsp st2 = sp - 48 + 56"
    using r(3,4) by auto
  have "running st1 = p" "running st2 = c"
    using r(2) y(2) by (auto simp: sched_inv_def)
  then show ?thesis using r(1) y by auto
qed

text \<open>
  \<open>exit_thread\<close> goes on with the parent of the thread that ends but does not make it the
  current one: \<open>current\<close> is still the thread that is done.
\<close>

theorem exit_thread_current_stale:
  assumes "parent (threads st (current st)) = Some p" and "p \<noteq> current st" and "can_enter st p"
  shows "\<exists>st'. exit_thread sp st = Inr st' \<and> running st' = p \<and> current st' = current st \<and>
    state (threads st' (current st)) = THREAD_DONE \<and> (\<forall>xs. \<not> sched_inv st' xs)"
proof -
  define s1 where "s1 = local_irq_enable (upd_thread (current st) (\<lambda>t. t\<lparr>state := THREAD_DONE\<rparr>) (local_irq_disable st))"
  have run: "exit_thread sp st = go_back_to p (current st) sp s1"
    using assms(1) by (simp add: exit_thread_def s1_def Let_def)
  have ce: "can_enter s1 p" by (rule can_enter_cong [OF assms(3)]) (simp_all add: s1_def assms(2))
  from enter_run(2) [OF this, of "current st" sp] obtain st' where
    r: "go_back_to p (current st) sp s1 = Inr st'" "current st' = current s1" "running st' = p" by blast
  have "state (threads st' (current st)) = THREAD_DONE"
    using r(1) assms(2)
    by (auto simp: go_back_to_def enter_ready_def thread_switch_first_def thread_switch_to_def s1_def Let_def outcome_simps split: if_splits)
  moreover have "current st' = current st" using r(2) by (simp add: s1_def)
  ultimately show ?thesis using run r assms(2) by (auto simp: sched_inv_def)
qed

text \<open>A walk along pointers that never leave a set does not reach the end of a list.\<close>

lemma chain_inside:
  assumes "x \<in> S" and "\<And>y. y \<in> S \<Longrightarrow> \<exists>z \<in> S. nxt y = Some z"
  shows "chain nxt (Some x) = None"
proof -
  have "\<not> linked nxt (Some y) xs" if "y \<in> S" for y xs
    using that
  proof (induction xs arbitrary: y)
    case Nil
    then show ?case by simp
  next
    case (Cons z zs)
    then show ?case using assms(2) [of y] by (cases zs) (auto, metis linked.simps(2))
  qed
  with assms(1) show ?thesis by (metis chain_iff_linked not_Some_eq)
qed

text \<open>
  Where two threads are the parents of each other, as \<open>kmain\<close> and the idle thread are after
  \<open>init_kmain_thread\<close>, \<open>wake_up_thread\<close> of a third thread that is not suspended does not return: the loop
  over the ancestors, there only in builds with \<open>DEBUG\<close>, goes around between the two for ever.
\<close>

theorem wake_up_thread_loops:
  assumes "current st = kmain" and "parent (threads st kmain) = Some idle" and "parent (threads st idle) = Some kmain"
    and "p \<noteq> kmain" and "state (threads st p) \<noteq> THREAD_INIT" and "\<not> suspended st p"
  shows "wake_up_thread p sp st = Inl Loops_forever"
proof -
  have "chain (parent_of st) (Some idle) = None"
    by (rule chain_inside [of _ "{idle, kmain}"]) (use assms(2,3) in auto)
  then show ?thesis using assms by (simp add: wake_up_thread_def Let_def)
qed

definition demo_thread :: "ptr \<Rightarrow> u32 \<Rightarrow> thread_struct" where
  "demo_thread par f = \<lparr>stack_addr = 0, stack_size = 0, rsp = KERNEL_STACK_ZONE_START + 0x1000, flag = f, on_cpu = 0, state = THREAD_RUN,
     poll_pending = 0, polls = (\<lambda>_. None), threads_link = 0, children_link = 0, parent = par, task = 0\<rparr>"

text \<open>Thread 0 runs above thread 1, thread 2 is suspended.\<close>

definition three_threads :: "unit sched" where
  "three_threads = \<lparr>threads = (\<lambda>i. if i = 0 then demo_thread (Some 1) 0 else if i = 1 then demo_thread None 0 else demo_thread None THREAD_SUSPEND),
     current = 0, running = 0, reg_rsp = 0, irqs = True, kthread_create_list = 100, kthead_create_lock = False,
     task_threads = (\<lambda>_. 101), tasklock = (\<lambda>_. False), lists = \<lparr>l_next = id, l_prev = id\<rparr>,
     cbs = (\<lambda>_. \<lparr>p_next = None, p_handle = null_handle, p_thread = None\<rparr>), ro_start = 0, ro_end = 0,
     stks = \<lparr>stack_nodes = (\<lambda>_. \<lparr>s_pnext = None, s_start = 0, s_size = 0, s_cpu = 0\<rparr>), pStackHead = None, pStackFree = None\<rparr>,
     vmem = full_vm\<rparr>"

lemma three_threads_facts:
  "sched_inv three_threads [0, 1]" "\<not> suspended three_threads 0" "suspended three_threads 2" "can_enter three_threads 1" "can_enter three_threads 2"
  "state (threads three_threads 2) \<in> {THREAD_READY, THREAD_RUN}" "2 \<notin> set [0, 1::nat]"
  by (auto simp: sched_inv_def three_threads_def demo_thread_def suspended_def can_enter_def layout_defs)

theorem thread_switches_are_a_stack_witness:
  "\<exists>st'. wake_up_thread 2 0 three_threads = Inr st' \<and> sched_inv st' [2, 0, 1]"
  using thread_switches_are_a_stack [OF three_threads_facts(1,2,4,7,6,5), of 0] three_threads_facts(3) by blast

theorem resume_then_yield_witness:
  "\<exists>st1 st2. resume_thread 2 (KERNEL_STACK_ZONE_START + 0x2000) three_threads = Inr (None, st1) \<and> running st1 = 2 \<and>
    yield_thread 0 st1 = Inr st2 \<and> running st2 = 0 \<and> reg_rsp st2 = KERNEL_STACK_ZONE_START + 0x2000 + 8 \<and> sched_inv st2 [0, 1]"
proof -
  have "state (threads three_threads 0) = THREAD_RUN"
    "KERNEL_STACK_ZONE_START + 0x2000 - 48 > KERNEL_STACK_ZONE_START"
    by (simp_all add: three_threads_def demo_thread_def layout_defs)
  from resume_then_yield [OF three_threads_facts(1,2) this(1) three_threads_facts(7,6,5) this(2), of 0]
  show ?thesis .
qed

theorem exit_thread_current_stale_witness:
  "\<exists>st'. exit_thread 0 three_threads = Inr st' \<and> running st' = 1 \<and> current st' = 0"
proof -
  have "parent (threads three_threads (current three_threads)) = Some 1" "1 \<noteq> current three_threads" "current three_threads = 0"
    by (simp_all add: three_threads_def demo_thread_def)
  with exit_thread_current_stale [OF this(1,2) three_threads_facts(4), of 0] show ?thesis by auto
qed

theorem wake_up_thread_loops_witness:
  "wake_up_thread 3 0 (upd_thread 3 (\<lambda>_. demo_thread None 0) (upd_thread 1 (\<lambda>_. demo_thread (Some 0) 0) three_threads)) = Inl Loops_forever"
  by (rule wake_up_thread_loops [of _ 0 1]) (simp_all add: three_threads_def demo_thread_def suspended_def)

section \<open>Poll callbacks\<close>

text \<open>On a list, every callback is called once, in the order of the list.\<close>

lemma do_poll_head_linked:
  assumes "linked (\<lambda>i. p_next (cbs st i)) p xs"
    and "\<And>h i s s'. call h i s = Inr s' \<Longrightarrow> \<forall>j. p_next (cbs s' j) = p_next (cbs s j)"
  shows "do_poll_head call p st =
    Some (fold (\<lambda>i r. andThen r (\<lambda>s. call (p_handle (cbs s i)) i (upd_cb i (\<lambda>c. c\<lparr>p_next := None\<rparr>) s))) xs (Inr st))"
  using assms(1)
proof (induction xs arbitrary: p st)
  case Nil
  then show ?case by (simp add: do_poll_head.simps)
next
  case (Cons i xs)
  define s1 where "s1 = upd_cb i (\<lambda>c. c\<lparr>p_next := None\<rparr>) st"
  let ?f = "\<lambda>i r. andThen r (\<lambda>s. call (p_handle (cbs s i)) i (upd_cb i (\<lambda>c. c\<lparr>p_next := None\<rparr>) s))"
  have p: "p = Some i" and lk: "linked (\<lambda>i. p_next (cbs st i)) (p_next (cbs st i)) xs" using Cons.prems by auto
  have nin: "i \<notin> set xs" using linked_distinct [OF Cons.prems] by simp
  have err: "fold ?f ys (Inl e) = Inl e" for ys e by (induction ys) simp_all
  show ?case
  proof (cases "call (p_handle (cbs st i)) i s1")
    case (Inl e)
    then show ?thesis by (subst do_poll_head.simps) (simp add: p s1_def [symmetric] err)
  next
    case (Inr s2)
    have "linked (\<lambda>j. p_next (cbs s2 j)) (p_next (cbs st i)) xs"
      by (rule linked_cong [OF lk]) (use assms(2) [OF Inr] nin in \<open>auto simp: s1_def\<close>)
    from Cons.IH [OF this] show ?thesis by (subst do_poll_head.simps) (simp add: p s1_def [symmetric] Inr)
  qed
qed

lemma do_poll_head_ends_measure:
  assumes fin: "finite N" and call: "\<And>h i s. \<exists>s'. call h i s = Inr s' \<and> (\<forall>j. p_next (cbs s' j) = p_next (cbs s j))"
  shows "(\<forall>i \<in> N. \<forall>j. p_next (cbs st i) = Some j \<longrightarrow> j \<in> N) \<Longrightarrow> set_option p \<subseteq> N \<Longrightarrow>
    \<exists>st'. do_poll_head call p st = Some (Inr st')"
proof (induction "card {i \<in> N. p_next (cbs st i) \<noteq> None}" arbitrary: p st rule: less_induct)
  case less
  show ?case
  proof (cases p)
    case None
    then show ?thesis by (simp add: do_poll_head.simps)
  next
    case (Some i)
    define s1 where "s1 = upd_cb i (\<lambda>c. c\<lparr>p_next := None\<rparr>) st"
    obtain s2 where s2: "call (p_handle (cbs st i)) i s1 = Inr s2" "\<forall>j. p_next (cbs s2 j) = p_next (cbs s1 j)"
      using call by blast
    have nx: "p_next (cbs s2 j) = (if j = i then None else p_next (cbs st j))" for j using s2(2) by (simp add: s1_def)
    have step: "do_poll_head call p st = do_poll_head call (p_next (cbs st i)) s2"
      by (subst do_poll_head.simps) (simp add: Some s1_def [symmetric] s2)
    show ?thesis
    proof (cases "p_next (cbs st i)")
      case None
      then show ?thesis unfolding step by (simp add: do_poll_head.simps)
    next
      case (Some j)
      have i: "i \<in> N" using less.prems(2) \<open>p = Some i\<close> by simp
      have "{k \<in> N. p_next (cbs s2 k) \<noteq> None} \<subset> {k \<in> N. p_next (cbs st k) \<noteq> None}"
        using i Some by (auto simp: nx)
      then have "card {k \<in> N. p_next (cbs s2 k) \<noteq> None} < card {k \<in> N. p_next (cbs st k) \<noteq> None}"
        using fin by (intro psubset_card_mono) auto
      moreover have "\<forall>k \<in> N. \<forall>m. p_next (cbs s2 k) = Some m \<longrightarrow> m \<in> N" using less.prems(1) by (auto simp: nx)
      moreover have "set_option (p_next (cbs st i)) \<subseteq> N" using less.prems(1) i Some by auto
      ultimately show ?thesis unfolding step by (rule less.hyps)
    qed
  qed
qed

text \<open>
  \<open>do_poll_head\<close> ends for callbacks from a finite set \<open>N\<close> however they are linked, also when
  a callback that was added twice has closed a cycle, provided the handlers return and do not relink them.
\<close>

theorem do_poll_head_ends:
  assumes "finite N" and "\<And>h i s. \<exists>s'. call h i s = Inr s' \<and> (\<forall>j. p_next (cbs s' j) = p_next (cbs s j))"
    and "\<forall>i \<in> N. \<forall>j. p_next (cbs st i) = Some j \<longrightarrow> j \<in> N" and "set_option p \<subseteq> N"
  shows "\<exists>st'. do_poll_head call p st = Some (Inr st')"
  using assms by (rule do_poll_head_ends_measure)

text \<open>Adding callback 5, then 6, then 5 again to one level links 5 and 6 to each other.\<close>

definition poll_cycle :: "unit sched" where
  "poll_cycle = three_threads\<lparr>cbs := (\<lambda>i. \<lparr>p_next = if i = 5 then Some 6 else if i = 6 then Some 5 else None, p_handle = null_handle, p_thread = Some 0\<rparr>)\<rparr>"

theorem do_poll_head_ends_witness:
  "\<exists>st'. do_poll_head (\<lambda>_ _. Inr) (Some 5) poll_cycle = Some (Inr st')"
  by (rule do_poll_head_ends [of "{5, 6}"]) (auto simp: poll_cycle_def split: if_splits)

end
