(* ===== verification/Softirq.thy ===== *)
theory Softirq
  imports Kthread
begin

text \<open>
  Soft interrupts, \<open>kernel/softirq.c\<close> and \<open>kernel/softirq.h\<close>: a word of pending numbers, a table of
  actions, and the function that runs the actions that are pending, at most ten rounds of them before
  it leaves the rest to the thread \<open>taskletd\<close>.
\<close>

section \<open>Model\<close>

abbreviation (input) HI_SOFTIRQ :: nat where "HI_SOFTIRQ \<equiv> 0"
abbreviation (input) TIMER_SOFTIRQ :: nat where "TIMER_SOFTIRQ \<equiv> 1"
abbreviation (input) TASKLET_SOFTIRQ :: nat where "TASKLET_SOFTIRQ \<equiv> 6"
abbreviation (input) HRTIMER_SOFTIRQ :: nat where "HRTIMER_SOFTIRQ \<equiv> 8"
abbreviation (input) NR_SOFTIRQS :: nat where "NR_SOFTIRQS \<equiv> 11"

text \<open>
  The variables of one CPU on top of its threads; \<open>taskletd\<close> is the main thread of \<open>tasklet_task\<close>. An entry of
  \<open>softirq_vec\<close> is the name of the function, \<open>None\<close> where none was registered.
\<close>

record 'c softirq = "'c sched" +
  softirq_pending :: u32
  softirq_vec :: "nat \<Rightarrow> nat option"
  tasklet_count :: int
  msec_count :: ulong
  taskletd :: nat

text \<open>The registered functions, a parameter of what calls them.\<close>

type_synonym ('c, 'e) actions = "nat \<Rightarrow> ('c, 'e) softirq_scheme \<Rightarrow> ('c, 'e) softirq_scheme outcome"

definition in_tasklet :: "('c, 'e) softirq_scheme \<Rightarrow> bool" where
  "in_tasklet st \<longleftrightarrow> tasklet_count st \<ge> 0"

definition disable_tasklet :: "('c, 'e) softirq_scheme \<Rightarrow> ('c, 'e) softirq_scheme" where
  "disable_tasklet st = st\<lparr>tasklet_count := tasklet_count st + 1\<rparr>"

definition enable_tasklet :: "('c, 'e) softirq_scheme \<Rightarrow> ('c, 'e) softirq_scheme" where
  "enable_tasklet st = st\<lparr>tasklet_count := tasklet_count st - 1\<rparr>"

definition raise_softirq_irqoff :: "nat \<Rightarrow> ('c, 'e) softirq_scheme \<Rightarrow> ('c, 'e) softirq_scheme" where
  "raise_softirq_irqoff nr st = st\<lparr>softirq_pending := softirq_pending st OR push_bit nr 1\<rparr>"

text \<open>With interrupts off from the save to the restore of the flag.\<close>

definition raise_softirq :: "nat \<Rightarrow> ('c, 'e) softirq_scheme \<Rightarrow> ('c, 'e) softirq_scheme" where
  "raise_softirq nr st =
     (let flags = irqs st in (raise_softirq_irqoff nr (local_irq_disable st))\<lparr>irqs := flags\<rparr>)"

definition open_softirq :: "nat \<Rightarrow> nat \<Rightarrow> ('c, 'e) softirq_scheme \<Rightarrow> ('c, 'e) softirq_scheme" where
  "open_softirq nr f st = st\<lparr>softirq_vec := (softirq_vec st)(nr := Some f)\<rparr>"

definition wakeup_taskletd :: "ulong \<Rightarrow> ('c, 'e) softirq_scheme \<Rightarrow> ('c, 'e) softirq_scheme outcome" where
  "wakeup_taskletd sp st = (if suspended st (taskletd st) then wake_up_thread (taskletd st) sp st else Inr st)"

definition ffs :: "u32 \<Rightarrow> nat" where
  "ffs x = (case List.find (bit x) [0..<32] of None \<Rightarrow> 0 | Some i \<Rightarrow> Suc i)"

lemma find_never: "List.find (\<lambda>_. False) xs = None"
  by (induction xs) simp_all

lemma ffs_0 [simp]: "ffs 0 = 0"
  by (simp add: ffs_def find_never bot_fun_def)

lemma drop_bit_less: "x \<noteq> 0 \<Longrightarrow> 0 < n \<Longrightarrow> unat (drop_bit n x) < unat x" for x :: u32
proof -
  assume x: "x \<noteq> 0" and n: "0 < n"
  have "1 < (2::nat) ^ n" using n by (intro one_less_power) simp_all
  moreover have "0 < unat x" using x by (simp add: unat_gt_0)
  ultimately have "unat x div 2 ^ n < unat x" by (rule div_less_dividend)
  moreover have "take_bit 32 (unat x) = unat x"
    using unsigned_less [of x] by (intro take_bit_nat_eq_self) simp
  ultimately show ?thesis unfolding unsigned_drop_bit_eq by (simp add: drop_bit_eq_div)
qed

text \<open>
  \<open>while ((softirq_bit = ffs(pending)))\<close>; \<open>h\<close> is the index of the next entry of the table. Calling through an entry
  behind the \<open>NR_SOFTIRQS\<close> entries of the table is a fault, so that no shift by 32 is reached.
\<close>

function run_pending :: "('c, 'e) actions \<Rightarrow> nat \<Rightarrow> u32 \<Rightarrow> ('c, 'e) softirq_scheme \<Rightarrow> ('c, 'e) softirq_scheme outcome" where
  "run_pending act h pending st =
     (let softirq_bit = ffs pending in
      if softirq_bit = 0 then Inr st
      else let h1 = h + (softirq_bit - 1) in
        if h1 \<ge> NR_SOFTIRQS then Inl Out_of_bounds
        else case softirq_vec st h1 of
          None \<Rightarrow> Inl Null_dereference
        | Some f \<Rightarrow> andThen (act f st) (\<lambda>st1. run_pending act (h1 + 1) (drop_bit softirq_bit pending) st1))"
  by pat_completeness auto
termination
proof (relation "measure (\<lambda>(act, h, pending, st). unat pending)")
  fix act :: "('c, 'e) actions" and h :: nat and pending :: u32 and st bit' h1 f st1
  assume "bit' = ffs pending" "bit' \<noteq> 0"
  then have "pending \<noteq> 0" by auto
  with \<open>bit' \<noteq> 0\<close> show "((act, h1 + 1, drop_bit bit' pending, st1), act, h, pending, st) \<in> measure (\<lambda>(act, h, pending, st). unat pending)"
    by (simp add: drop_bit_less)
qed simp

abbreviation (input) MAX_SOFTIRQ_TIME :: ulong where "MAX_SOFTIRQ_TIME \<equiv> 2"
abbreviation (input) MAX_SOFTIRQ_RESTART :: nat where "MAX_SOFTIRQ_RESTART \<equiv> 10"

text \<open>From the label \<open>restart\<close> on, with \<open>max_restart\<close> as the first argument.\<close>

fun softirq_rounds :: "nat \<Rightarrow> ('c, 'e) actions \<Rightarrow> ulong \<Rightarrow> ulong \<Rightarrow> u32 \<Rightarrow> ('c, 'e) softirq_scheme \<Rightarrow> ('c, 'e) softirq_scheme outcome" where
  "softirq_rounds max_restart act sp till pending st =
     andThen (run_pending act 0 pending (local_irq_enable (st\<lparr>softirq_pending := 0\<rparr>))) (\<lambda>st1.
     let st2 = local_irq_disable st1 in
     if softirq_pending st2 \<noteq> 0
     then if msec_count st2 < till \<and> max_restart > 1
          then softirq_rounds (max_restart - 1) act sp till (softirq_pending st2) st2
          else wakeup_taskletd sp (enable_tasklet st2)
     else Inr (enable_tasklet st2))"

declare softirq_rounds.simps [simp del] run_pending.simps [simp del]

definition do_softirq_now :: "('c, 'e) actions \<Rightarrow> ulong \<Rightarrow> ('c, 'e) softirq_scheme \<Rightarrow> ('c, 'e) softirq_scheme outcome" where
  "do_softirq_now act sp st =
     softirq_rounds MAX_SOFTIRQ_RESTART act sp (msec_count st + MAX_SOFTIRQ_TIME) (softirq_pending st) (disable_tasklet st)"

definition irq_exit :: "('c, 'e) actions \<Rightarrow> ulong \<Rightarrow> ('c, 'e) softirq_scheme \<Rightarrow> ('c, 'e) softirq_scheme outcome" where
  "irq_exit act sp st0 =
     (let st = local_irq_disable st0 in
      if \<not> in_tasklet st \<and> softirq_pending st \<noteq> 0 then do_softirq_now act sp st else Inr st)"

definition do_softirq :: "('c, 'e) actions \<Rightarrow> ulong \<Rightarrow> ('c, 'e) softirq_scheme \<Rightarrow> ('c, 'e) softirq_scheme outcome" where
  "do_softirq act sp st =
     (if in_tasklet st then Inr st
      else let flags = irqs st; st0 = local_irq_disable st in
        andThen (if softirq_pending st0 \<noteq> 0 then do_softirq_now act sp st0 else Inr st0) (\<lambda>st1.
        Inr (st1\<lparr>irqs := flags\<rparr>)))"

text \<open>\<open>run_ksoftirqd\<close> and \<open>ksoftirqd_should_run\<close> of \<open>kernel/tasklet.c\<close>, the work of the thread \<open>taskletd\<close>.\<close>

definition ksoftirqd_should_run :: "('c, 'e) softirq_scheme \<Rightarrow> u32" where
  "ksoftirqd_should_run st = softirq_pending st"

definition run_ksoftirqd :: "('c, 'e) actions \<Rightarrow> ulong \<Rightarrow> ('c, 'e) softirq_scheme \<Rightarrow> ('c, 'e) softirq_scheme outcome" where
  "run_ksoftirqd act sp st =
     (let st0 = local_irq_disable st in
      if softirq_pending st0 \<noteq> 0
      then andThen (do_softirq_now act sp st0) (\<lambda>st1. Inr (local_irq_enable st1))
      else Inr (local_irq_enable st0))"

section \<open>One round\<close>

text \<open>The pending numbers, ascending, and the run of their actions one after the other.\<close>

definition numbers :: "u32 \<Rightarrow> nat list" where
  "numbers p = filter (bit p) [0..<32]"

definition run_action :: "('c, 'e) actions \<Rightarrow> nat \<Rightarrow> ('c, 'e) softirq_scheme outcome \<Rightarrow> ('c, 'e) softirq_scheme outcome" where
  "run_action act i r = andThen r (\<lambda>s. if i \<ge> NR_SOFTIRQS then Inl Out_of_bounds
     else case softirq_vec s i of None \<Rightarrow> Inl Null_dereference | Some f \<Rightarrow> act f s)"

lemma fold_run_Inl: "fold (run_action act) xs (Inl e) = Inl e"
  by (induction xs) (simp_all add: run_action_def)

lemma ffs_Suc:
  assumes "p \<noteq> 0" shows "\<exists>i. ffs p = Suc i \<and> i < 32 \<and> bit p i \<and> (\<forall>j < i. \<not> bit p j)"
proof -
  obtain n where n: "bit p n" using assms by (metis bit_word_eqI bit_0_eq bot_apply bot_bool_def)
  then have "n < 32" using bit_imp_le_length [of p n] by simp
  with n have "List.find (bit p) [0..<32] \<noteq> None" by (auto simp: find_None_iff)
  then obtain i where f: "List.find (bit p) [0..<32] = Some i" by blast
  then obtain k where k: "k < length [0..<32]" "bit p ([0..<32] ! k)" "i = [0..<32] ! k" "\<forall>j < k. \<not> bit p ([0..<32] ! j)"
    by (auto simp: find_Some_iff)
  then show ?thesis using f by (auto simp: ffs_def)
qed

lemma upt_split: "i \<le> j \<Longrightarrow> j \<le> k \<Longrightarrow> [i..<k] = [i..<j] @ [j..<k]"
  by (metis le_add_diff_inverse upt_add_eq_append)

lemma numbers_step:
  assumes "i < 32" "bit p i" "\<forall>j < i. \<not> bit p j"
  shows "numbers p = i # map ((+) (Suc i)) (numbers (drop_bit (Suc i) p))"
proof -
  have sp: "[0..<32] = [0..<i] @ i # [Suc i..<32]" using assms(1) upt_split [of 0 i 32] by (simp add: upt_conv_Cons)
  have hi: "\<not> bit p (Suc i + j)" if "31 - i \<le> j" for j
    using that assms(1) bit_imp_le_length [of p "Suc i + j"] by auto
  have "[0..<32] = [0..<31 - i] @ [31 - i..<32]" using assms(1) by (intro upt_split) simp_all
  then have "numbers (drop_bit (Suc i) p) = filter (\<lambda>j. bit p (Suc i + j)) [0..<31 - i]"
    using hi by (simp add: numbers_def bit_drop_bit_eq o_def)
  then have "map ((+) (Suc i)) (numbers (drop_bit (Suc i) p)) = filter (bit p) (map ((+) (Suc i)) [0..<31 - i])"
    by (simp add: filter_map o_def)
  also have "map ((+) (Suc i)) [0..<31 - i] = [Suc i..<32]"
    using assms(1) by (intro nth_equalityI) simp_all
  finally have "i # map ((+) (Suc i)) (numbers (drop_bit (Suc i) p)) = i # filter (bit p) [Suc i..<32]" by (simp only:)
  also have "\<dots> = filter (bit p) [0..<32]" unfolding sp using assms by simp
  finally show ?thesis by (simp only: numbers_def [of p])
qed

lemma run_pending_numbers:
  "run_pending act h p st = fold (run_action act) (map ((+) h) (numbers p)) (Inr st)"
proof (induction act h p st rule: run_pending.induct)
  case (1 act h p st)
  show ?case
  proof (cases "p = 0")
    case True
    then show ?thesis by (subst run_pending.simps) (simp add: numbers_def)
  next
    case False
    then obtain i where i: "ffs p = Suc i" "i < 32" "bit p i" "\<forall>j < i. \<not> bit p j" using ffs_Suc by blast
    have m: "map ((+) h) (numbers p) = (h + i) # map ((+) (h + i + 1)) (numbers (drop_bit (Suc i) p))"
      unfolding numbers_step [OF i(2-4)] by (simp add: o_def add.assoc)
    consider (out) "h + i \<ge> NR_SOFTIRQS" | (null) "h + i < NR_SOFTIRQS" "softirq_vec st (h + i) = None"
      | (err) f e where "h + i < NR_SOFTIRQS" "softirq_vec st (h + i) = Some f" "act f st = Inl e"
      | (ok) f st1 where "h + i < NR_SOFTIRQS" "softirq_vec st (h + i) = Some f" "act f st = Inr st1"
      by (metis leI not_None_eq old.sum.exhaust)
    then show ?thesis
    proof cases
      case ok
      define hs where "hs = map ((+) (h + i + 1)) (numbers (drop_bit (Suc i) p))"
      have "run_pending act (h + i + 1) (drop_bit (Suc i) p) st1 = fold (run_action act) hs (Inr st1)"
        unfolding hs_def using i ok by (intro 1) simp_all
      then show ?thesis unfolding m hs_def [symmetric] using linorder_not_le [THEN iffD2, OF ok(1)] by (subst run_pending.simps) (simp add: i ok run_action_def)
    qed (subst run_pending.simps, simp add: m i run_action_def fold_run_Inl)+
  qed
qed

section \<open>Properties\<close>

lemma softirq_sel [simp]:
  "softirq_vec (local_irq_disable st) = softirq_vec st" "softirq_vec (local_irq_enable st) = softirq_vec st"
  "softirq_pending (local_irq_disable st) = softirq_pending st" "softirq_pending (local_irq_enable st) = softirq_pending st"
  "tasklet_count (local_irq_disable st) = tasklet_count st" "tasklet_count (local_irq_enable st) = tasklet_count st"
  "msec_count (local_irq_disable st) = msec_count st" "msec_count (local_irq_enable st) = msec_count st"
  "softirq.more (local_irq_disable st) = softirq.more st" "softirq.more (local_irq_enable st) = softirq.more st"
  "irqs (local_irq_disable st) = False" "irqs (local_irq_enable st) = True"
  "softirq.more (upd_thread p f st) = softirq.more st" "softirq.more (set_current p st) = softirq.more st"
  "softirq.more (switch_to p q sp st) = softirq.more st" "softirq.more (switch_first p k q sp st) = softirq.more st"
  by (simp_all add: local_irq_disable_def local_irq_enable_def upd_thread_def set_current_def switch_to_def switch_first_def Let_def)

lemma tasklet_sel [simp]:
  "softirq_vec (disable_tasklet st) = softirq_vec st" "softirq.more (disable_tasklet st) = softirq.more st"
  "softirq_vec (enable_tasklet st) = softirq_vec st" "softirq.more (enable_tasklet st) = softirq.more st"
  "softirq_pending (enable_tasklet st) = softirq_pending st" "softirq_pending (disable_tasklet st) = softirq_pending st"
  "tasklet_count (disable_tasklet st) = tasklet_count st + 1" "tasklet_count (enable_tasklet st) = tasklet_count st - 1"
  "irqs (enable_tasklet st) = irqs st"
  by (simp_all add: disable_tasklet_def enable_tasklet_def)

subsection \<open>The rounds of one call\<close>

text \<open>
  What is expected of the registered actions: from a state that is \<open>ok\<close> around the soft interrupts, an action returns
  to one, leaves the table and the nesting count as they are, and may raise soft interrupts of the set \<open>R\<close>
  (the word \<open>b\<close> of what it raised). \<open>log\<close> is an auxiliary record of the actions that have run, with what each raised.
\<close>

definition softirq_actions :: "nat set \<Rightarrow> ('e \<Rightarrow> bool) \<Rightarrow> ('c, 'e) actions \<Rightarrow> ('e \<Rightarrow> (nat \<times> u32) list) \<Rightarrow> bool" where
  "softirq_actions R ok act log \<longleftrightarrow> (\<forall>f s. ok (softirq.more s) \<longrightarrow>
     (\<exists>s' b. act f s = Inr s' \<and> ok (softirq.more s') \<and> softirq_vec s' = softirq_vec s \<and> tasklet_count s' = tasklet_count s \<and>
       softirq_pending s' = softirq_pending s OR b \<and> (\<forall>i. bit b i \<longrightarrow> i \<in> R) \<and>
       log (softirq.more s') = log (softirq.more s) @ [(f, b)]))"

text \<open>
  The rounds that start with the numbers of \<open>p\<close> pending: each runs the actions of all numbers pending at its start, in
  ascending order; what its actions raise is pending at the start of the next. \<open>q\<close> is what the last of the
  \<open>n\<close> rounds leaves pending.
\<close>

definition raised :: "(nat \<times> u32) list \<Rightarrow> u32" where
  "raised l = foldr (\<lambda>x. (OR) (snd x)) l 0"

inductive softirq_trace :: "(nat \<Rightarrow> nat) \<Rightarrow> u32 \<Rightarrow> (nat \<times> u32) list \<Rightarrow> u32 \<Rightarrow> nat \<Rightarrow> bool" for f where
  round: "map fst l = map f (filter (bit p) [0..<32]) \<Longrightarrow> softirq_trace f p l (raised l) 1"
| again: "map fst l = map f (filter (bit p) [0..<32]) \<Longrightarrow> raised l \<noteq> 0 \<Longrightarrow> softirq_trace f (raised l) l' q n \<Longrightarrow>
    softirq_trace f p (l @ l') q (Suc n)"

lemma raised_simps [simp]: "raised [] = 0" "raised (x # l) = snd x OR raised l"
  by (simp_all add: raised_def)

lemma run_actions:
  assumes act: "softirq_actions R ok act log"
  shows "ok (softirq.more s) \<Longrightarrow> set xs \<subseteq> R \<Longrightarrow> \<forall>i \<in> R. i < NR_SOFTIRQS \<and> softirq_vec s i = Some (f i) \<Longrightarrow>
    \<exists>s' l. fold (run_action act) xs (Inr s) = Inr s' \<and> map fst l = map f xs \<and> softirq_pending s' = softirq_pending s OR raised l \<and>
      (\<forall>i. bit (raised l) i \<longrightarrow> i \<in> R) \<and> ok (softirq.more s') \<and> log (softirq.more s') = log (softirq.more s) @ l \<and>
      softirq_vec s' = softirq_vec s \<and> tasklet_count s' = tasklet_count s"
proof (induction xs arbitrary: s)
  case Nil
  then show ?case by (intro exI [of _ s] exI [of _ "[]"]) simp
next
  case (Cons i xs)
  obtain s1 b where s1: "act (f i) s = Inr s1" "ok (softirq.more s1)" "softirq_vec s1 = softirq_vec s" "tasklet_count s1 = tasklet_count s"
      "softirq_pending s1 = softirq_pending s OR b" "\<forall>i. bit b i \<longrightarrow> i \<in> R" "log (softirq.more s1) = log (softirq.more s) @ [(f i, b)]"
    using act Cons.prems(1) unfolding softirq_actions_def by blast
  have i: "run_action act i (Inr s) = Inr s1" using Cons.prems(2,3) s1(1) by (auto simp: run_action_def)
  have "\<forall>i \<in> R. i < NR_SOFTIRQS \<and> softirq_vec s1 i = Some (f i)" using Cons.prems(3) s1(3) by simp
  moreover have "set xs \<subseteq> R" using Cons.prems(2) by simp
  ultimately obtain s' l where IH: "fold (run_action act) xs (Inr s1) = Inr s'" "map fst l = map f xs"
      "softirq_pending s' = softirq_pending s1 OR raised l" "\<forall>i. bit (raised l) i \<longrightarrow> i \<in> R" "ok (softirq.more s')"
      "log (softirq.more s') = log (softirq.more s1) @ l" "softirq_vec s' = softirq_vec s1" "tasklet_count s' = tasklet_count s1"
    using Cons.IH [OF s1(2)] by blast
  then show ?case using i s1
    by (intro exI [of _ s'] exI [of _ "(f i, b) # l"]) (auto simp: bit_or_iff or.assoc)
qed

lemma map_plus_0: "map ((+) (0 :: nat)) xs = xs"
  by (induction xs) simp_all

text \<open>One round, up to the test of what is pending.\<close>

lemma run_round:
  assumes "softirq_actions R ok act log" and ok: "ok (softirq.more st)" and R: "\<forall>i \<in> R. i < NR_SOFTIRQS \<and> softirq_vec st i = Some (f i)"
    and p: "\<forall>i. bit p i \<longrightarrow> i \<in> R"
  shows "\<exists>s l. run_pending act 0 p (local_irq_enable (st\<lparr>softirq_pending := 0\<rparr>)) = Inr s \<and> map fst l = map f (filter (bit p) [0..<32]) \<and>
    softirq_pending s = raised l \<and> (\<forall>i. bit (raised l) i \<longrightarrow> i \<in> R) \<and> ok (softirq.more s) \<and>
    log (softirq.more s) = log (softirq.more st) @ l \<and> softirq_vec s = softirq_vec st \<and> tasklet_count s = tasklet_count st"
proof -
  let ?s = "local_irq_enable (st\<lparr>softirq_pending := 0\<rparr>)"
  have "set (numbers p) \<subseteq> R" using p by (auto simp: numbers_def)
  moreover have "\<forall>i \<in> R. i < NR_SOFTIRQS \<and> softirq_vec ?s i = Some (f i)" "ok (softirq.more ?s)" using R ok by simp_all
  ultimately show ?thesis
    using run_actions [OF assms(1), of ?s "numbers p" f] unfolding run_pending_numbers map_plus_0
    by (simp add: numbers_def)
qed

lemma rounds_trace:
  assumes act: "softirq_actions R ok act log"
  shows "ok (softirq.more st) \<Longrightarrow> \<forall>i \<in> R. i < NR_SOFTIRQS \<and> softirq_vec st i = Some (f i) \<Longrightarrow> \<forall>i. bit p i \<longrightarrow> i \<in> R \<Longrightarrow>
    \<exists>st2 l m. softirq_trace f p l (softirq_pending st2) m \<and> m \<le> Suc n \<and> log (softirq.more st2) = log (softirq.more st) @ l \<and>
      \<not> irqs st2 \<and> tasklet_count st2 = tasklet_count st - 1 \<and>
      (if softirq_pending st2 = 0 then softirq_rounds (Suc n) act sp till p st = Inr st2
       else softirq_rounds (Suc n) act sp till p st = wakeup_taskletd sp st2 \<and> (m = Suc n \<or> till \<le> msec_count st2))"
proof (induction n arbitrary: p st)
  case (0 p st)
  obtain s l where s: "run_pending act 0 p (local_irq_enable (st\<lparr>softirq_pending := 0\<rparr>)) = Inr s" "map fst l = map f (filter (bit p) [0..<32])"
      "softirq_pending s = raised l" "log (softirq.more s) = log (softirq.more st) @ l" "tasklet_count s = tasklet_count st"
    using run_round [OF act 0] by blast
  let ?s = "enable_tasklet (local_irq_disable s)"
  have "softirq_trace f p l (softirq_pending ?s) 1" using softirq_trace.round [OF s(2)] s(3) by simp
  then show ?case using s by (intro exI [of _ ?s] exI [of _ l] exI [of _ 1]) (simp add: softirq_rounds.simps)
next
  case (Suc n p st)
  obtain s l where s: "run_pending act 0 p (local_irq_enable (st\<lparr>softirq_pending := 0\<rparr>)) = Inr s" "map fst l = map f (filter (bit p) [0..<32])"
      "softirq_pending s = raised l" "\<forall>i. bit (raised l) i \<longrightarrow> i \<in> R" "ok (softirq.more s)" "log (softirq.more s) = log (softirq.more st) @ l"
      "softirq_vec s = softirq_vec st" "tasklet_count s = tasklet_count st"
    using run_round [OF act Suc.prems] by blast
  let ?d = "local_irq_disable s" let ?e = "enable_tasklet ?d"
  have one: "softirq_trace f p l (softirq_pending ?e) 1" using softirq_trace.round [OF s(2)] s(3) by simp
  show ?case
  proof (cases "raised l \<noteq> 0 \<and> msec_count ?d < till")
    case True
    then have step: "softirq_rounds (Suc (Suc n)) act sp till p st = softirq_rounds (Suc n) act sp till (raised l) ?d"
      by (subst softirq_rounds.simps) (simp add: s)
    obtain st2 l' m where IH: "softirq_trace f (raised l) l' (softirq_pending st2) m" "m \<le> Suc n"
        "log (softirq.more st2) = log (softirq.more ?d) @ l'" "\<not> irqs st2" "tasklet_count st2 = tasklet_count ?d - 1"
        "if softirq_pending st2 = 0 then softirq_rounds (Suc n) act sp till (raised l) ?d = Inr st2
         else softirq_rounds (Suc n) act sp till (raised l) ?d = wakeup_taskletd sp st2 \<and> (m = Suc n \<or> till \<le> msec_count st2)"
      using Suc.IH [of ?d "raised l"] s(4,5,7) Suc.prems(2) by auto
    have "softirq_trace f p (l @ l') (softirq_pending st2) (Suc m)" using True s(2) IH(1) by (intro softirq_trace.again) simp_all
    then show ?thesis unfolding step using IH(2-6) s(6,8)
      by (intro exI [of _ st2] exI [of _ "l @ l'"] exI [of _ "Suc m"]) (auto split: if_splits)
  next
    case False
    then have "softirq_rounds (Suc (Suc n)) act sp till p st = (if raised l = 0 then Inr ?e else wakeup_taskletd sp ?e)"
      by (subst softirq_rounds.simps) (auto simp: s)
    moreover have "raised l = 0 \<or> till \<le> msec_count ?e" using False by (auto simp: enable_tasklet_def)
    ultimately show ?thesis using one s by (intro exI [of _ ?e] exI [of _ l] exI [of _ 1]) auto
  qed
qed

text \<open>
  C28: \<open>__do_softirq\<close>, with a registered action for every number that is pending or can be raised, and actions that return and leave the table of actions and the
  nesting count as they are: it runs rounds, at most ten.
  A round runs every action that is pending at its start exactly once, in ascending order of the numbers,
  and what its actions raise is what the next round runs; nothing that was raised is lost. If the last round leaves nothing
  pending it returns. Otherwise ten rounds have run or two milliseconds have passed, and the thread \<open>taskletd\<close> is woken with the rest
  still pending. Interrupts are then off and the nesting count is as before.
\<close>

theorem do_softirq_runs_pending:
  assumes "softirq_actions R ok act log" and "ok (softirq.more st)"
    and "\<forall>i \<in> R. i < NR_SOFTIRQS \<and> softirq_vec st i = Some (f i)" and "\<forall>i. bit (softirq_pending st) i \<longrightarrow> i \<in> R"
  shows "\<exists>st2 l n. softirq_trace f (softirq_pending st) l (softirq_pending st2) n \<and> n \<le> 10 \<and>
    log (softirq.more st2) = log (softirq.more st) @ l \<and> \<not> irqs st2 \<and> tasklet_count st2 = tasklet_count st \<and>
    (if softirq_pending st2 = 0 then do_softirq_now act sp st = Inr st2
     else do_softirq_now act sp st = wakeup_taskletd sp st2 \<and> (n = 10 \<or> msec_count st + 2 \<le> msec_count st2))"
proof -
  have ten: "Suc 9 = 10" by simp
  show ?thesis
    using rounds_trace [OF assms(1), of "disable_tasklet st" f "softirq_pending st" 9 sp "msec_count st + 2", unfolded ten] assms(2-4)
    by (simp add: do_softirq_now_def cong: if_cong)
qed

subsection \<open>The number of actions is bounded\<close>

lemma run_bounded:
  assumes "\<And>f s s'. act f s = Inr s' \<Longrightarrow> cnt (softirq.more s') \<le> cnt (softirq.more s) + 1"
    and "fold (run_action act) xs (Inr s) = Inr s'"
  shows "cnt (softirq.more s') \<le> cnt (softirq.more s) + length xs"
  using assms(2)
proof (induction xs arbitrary: s)
  case Nil
  then show ?case by simp
next
  case (Cons i xs)
  obtain s1 where s1: "run_action act i (Inr s) = Inr s1"
    using Cons.prems by (cases "run_action act i (Inr s)") (simp_all add: fold_run_Inl)
  with Cons.prems have "cnt (softirq.more s') \<le> cnt (softirq.more s1) + length xs" by (intro Cons.IH) simp
  moreover have "cnt (softirq.more s1) \<le> cnt (softirq.more s) + 1"
    using s1 assms(1) by (auto simp: run_action_def split: option.splits if_splits)
  ultimately show ?case by simp
qed

lemma wakeup_more: "wakeup_taskletd sp st = Inr st' \<Longrightarrow> softirq.more st' = softirq.more st"
  by (auto simp: wakeup_taskletd_def wake_up_thread_def go_on_with_def enter_ready_def thread_switch_first_def
      thread_switch_to_def Let_def outcome_simps split: if_splits)

lemma length_numbers: "length (numbers p) \<le> 32"
  unfolding numbers_def by (rule order_trans [OF length_filter_le]) simp

lemma rounds_bounded:
  assumes act: "\<And>f s s'. act f s = Inr s' \<Longrightarrow> cnt (softirq.more s') \<le> cnt (softirq.more s) + 1"
  shows "softirq_rounds n act sp till p st = Inr st' \<Longrightarrow> cnt (softirq.more st') \<le> cnt (softirq.more st) + 32 * max n 1"
proof (induction n arbitrary: p st rule: less_induct)
  case (less n)
  define s where "s = local_irq_enable (st\<lparr>softirq_pending := 0\<rparr>)"
  have run: "softirq_rounds n act sp till p st = Inr st'" by (rule less.prems)
  have "\<exists>s1. run_pending act 0 p s = Inr s1"
  proof (cases "run_pending act 0 p s")
    case (Inl e)
    from run have False unfolding softirq_rounds.simps [of n] s_def [symmetric] Inl andThen_Inl by simp
    then show ?thesis ..
  qed simp
  then obtain s1 where s1: "run_pending act 0 p s = Inr s1" ..
  have "cnt (softirq.more s1) \<le> cnt (softirq.more s) + length (map ((+) 0) (numbers p))"
  proof (rule run_bounded [where act = act and cnt = cnt])
    show "fold (run_action act) (map ((+) 0) (numbers p)) (Inr s) = Inr s1" using s1 unfolding run_pending_numbers .
  qed (rule act)
  then have one: "cnt (softirq.more s1) \<le> cnt (softirq.more st) + 32"
    using length_numbers [of p] unfolding length_map s_def by simp
  define s2 where "s2 = local_irq_disable s1"
  have m2: "softirq.more s2 = softirq.more s1" by (simp add: s2_def)
  have "(if softirq_pending s2 \<noteq> 0
      then if msec_count s2 < till \<and> n > 1 then softirq_rounds (n - 1) act sp till (softirq_pending s2) s2
           else wakeup_taskletd sp (enable_tasklet s2)
      else Inr (enable_tasklet s2)) = Inr st'"
    using run unfolding softirq_rounds.simps [of n] s_def [symmetric] s1 andThen_Inr Let_def s2_def [symmetric] .
  then consider (again) "n > 1" "softirq_rounds (n - 1) act sp till (softirq_pending s2) s2 = Inr st'"
    | (woken) "wakeup_taskletd sp (enable_tasklet s2) = Inr st'" | (ended) "st' = enable_tasklet s2"
    by (cases "softirq_pending s2 \<noteq> 0"; cases "msec_count s2 < till \<and> n > 1") (simp_all only: if_True if_False simp_thms sum.inject)
  then show ?case
  proof cases
    case again
    then have "cnt (softirq.more st') \<le> cnt (softirq.more s2) + 32 * max (n - 1) 1" by (intro less.IH) simp_all
    with one m2 again(1) show ?thesis by (simp add: max_def split: if_splits)
  next
    case woken
    from wakeup_more [OF this] one m2 show ?thesis by simp
  next
    case ended
    with one m2 show ?thesis by simp
  qed
qed

text \<open>
  C29: Whatever the actions do, also when they keep raising soft interrupts, one call of
  \<open>__do_softirq\<close> runs at most 320 of them (ten rounds of 32): a count that an action
  raises by at most 1 is at most 320 higher afterwards.
\<close>

theorem do_softirq_bounded:
  assumes "\<And>f s s'. act f s = Inr s' \<Longrightarrow> cnt (softirq.more s') \<le> cnt (softirq.more s) + 1"
    and "do_softirq_now act sp st = Inr st'"
  shows "cnt (softirq.more st') \<le> cnt (softirq.more st) + (320 :: nat)"
proof -
  have "cnt (softirq.more st') \<le> cnt (softirq.more (disable_tasklet st)) + 32 * max MAX_SOFTIRQ_RESTART 1"
  proof (rule rounds_bounded [where act = act and cnt = cnt])
    show "softirq_rounds MAX_SOFTIRQ_RESTART act sp (msec_count st + MAX_SOFTIRQ_TIME) (softirq_pending st) (disable_tasklet st) = Inr st'"
      using assms(2) unfolding do_softirq_now_def .
  qed (rule assms(1))
  then show ?thesis by simp
qed

text \<open>Numbers 1 and 6 pending; every action is registered under its own number. The environment is a log.\<close>

definition two_pending :: "(unit, (nat \<times> u32) list) softirq_scheme" where
  "two_pending = \<lparr>threads = threads three_threads, current = 0, running = 0, reg_rsp = 0, irqs = False, kthread_create_list = 100,
     kthead_create_lock = False, task_threads = (\<lambda>_. 101), tasklock = (\<lambda>_. False), lists = lists three_threads,
     cbs = cbs three_threads, ro_start = 0, ro_end = 0, stks = stks three_threads, vmem = full_vm,
     softirq_pending = 0x42, softirq_vec = Some, tasklet_count = - 1, msec_count = 0, taskletd = 1, \<dots> = []\<rparr>"

lemma numbers_42: "filter (bit (0x42 :: u32)) [0..<32] = [1, 6]"
  by (simp add: upt_rec)

text \<open>An action that raises the soft interrupts of the word its number is given, and is entered in the log.\<close>

definition raising :: "(nat \<Rightarrow> u32) \<Rightarrow> ('c, (nat \<times> u32) list) actions" where
  "raising r f st = Inr (softirq.more_update (\<lambda>l. l @ [(f, r f)]) (st\<lparr>softirq_pending := softirq_pending st OR r f\<rparr>))"

lemma raising_actions: "(\<And>f i. bit (r f) i \<Longrightarrow> i \<in> R) \<Longrightarrow> softirq_actions R (\<lambda>_. True) (raising r) id"
  by (auto simp: softirq_actions_def raising_def)

text \<open>The action of number 1 raises number 6.\<close>

definition one_raises_six :: "nat \<Rightarrow> u32" where
  "one_raises_six f = (if f = 1 then 0x40 else 0)"

lemma one_raises_six_actions: "softirq_actions {1, 6} (\<lambda>_. True) (raising one_raises_six) id"
proof (rule raising_actions)
  fix f i assume "bit (one_raises_six f) i"
  then have "bit (0x40 :: u32) i" by (simp add: one_raises_six_def split: if_splits)
  moreover have "(0x40 :: u32) = push_bit 6 1" by simp
  ultimately show "i \<in> {1, 6}" by (simp only: bit_push_bit_iff bit_1_iff) auto
qed

lemma two_pending_numbers: "bit (softirq_pending two_pending) i \<Longrightarrow> i \<in> {1, 6}"
proof -
  assume b: "bit (softirq_pending two_pending) i"
  then have "i < 32" using bit_imp_le_length [of "softirq_pending two_pending" i] by simp
  with b have "i \<in> set (filter (bit (0x42 :: u32)) [0..<32])" by (simp add: two_pending_def)
  then show ?thesis unfolding numbers_42 by simp
qed

theorem do_softirq_runs_pending_witness:
  "(\<exists>st2 l n. softirq_trace id 0x42 l (softirq_pending st2) n \<and> n \<le> 10 \<and> softirq.more st2 = l \<and>
     (softirq_pending st2 = 0 \<longrightarrow> do_softirq_now (raising one_raises_six) 0 two_pending = Inr st2)) \<and>
   (case do_softirq_now (raising one_raises_six) 0 two_pending of Inl e \<Rightarrow> False
    | Inr st \<Rightarrow> softirq_pending st = 0 \<and> softirq.more st = [(1, 0x40), (6, 0), (6, 0)])"
proof
  have v: "\<forall>i \<in> {1, 6}. i < NR_SOFTIRQS \<and> softirq_vec two_pending i = Some (id i)" by (simp add: two_pending_def)
  have p: "softirq_pending two_pending = 0x42" "softirq.more two_pending = []" by (simp_all add: two_pending_def)
  obtain st2 l n where "softirq_trace id 0x42 l (softirq_pending st2) n" "n \<le> 10" "softirq.more st2 = l"
      "if softirq_pending st2 = 0 then do_softirq_now (raising one_raises_six) 0 two_pending = Inr st2
       else do_softirq_now (raising one_raises_six) 0 two_pending = wakeup_taskletd 0 st2 \<and> (n = 10 \<or> msec_count two_pending + 2 \<le> msec_count st2)"
    using do_softirq_runs_pending [OF one_raises_six_actions TrueI v allI, of 0] two_pending_numbers unfolding p id_apply append_Nil by blast
  then show "\<exists>st2 l n. softirq_trace id 0x42 l (softirq_pending st2) n \<and> n \<le> 10 \<and> softirq.more st2 = l \<and>
     (softirq_pending st2 = 0 \<longrightarrow> do_softirq_now (raising one_raises_six) 0 two_pending = Inr st2)"
    by (intro exI [of _ st2] exI [of _ l] exI [of _ n]) simp
qed code_simp

theorem do_softirq_bounded_witness:
  "\<exists>st'. do_softirq_now (raising one_raises_six) 0 two_pending = Inr st' \<and> length (softirq.more st') \<le> 320"
proof -
  have "case do_softirq_now (raising one_raises_six) 0 two_pending of Inl e \<Rightarrow> False | Inr st \<Rightarrow> True" by code_simp
  then obtain st' where r: "do_softirq_now (raising one_raises_six) 0 two_pending = Inr st'" by (auto split: sum.splits)
  have "length (softirq.more st') \<le> length (softirq.more two_pending) + 320"
    by (rule do_softirq_bounded [OF _ r]) (auto simp: raising_def)
  with r show ?thesis by (simp add: two_pending_def)
qed

end
