(* ===== verification/Timer.thy ===== *)
theory Timer
  imports Softirq "HOL-Library.Sublist"
begin

text \<open>
  Timers, \<open>kernel/timer.c\<close>: a list of timeouts sorted by deadline, a list of unused ones, the clock
  event device that is programmed for the first deadline, and the soft interrupt that runs what has
  expired, with the callbacks of \<open>hpet.c\<close> and \<open>kthread.c\<close> that the kernel itself sets. A \<open>timeout_callback\<close> starts with the fields of a \<open>poll_cb\<close>, so that a timeout
  can be queued as a poll callback of the thread that set it.
\<close>

section \<open>Model\<close>

abbreviation NR_TIMER_BUF :: nat where "NR_TIMER_BUF \<equiv> 64"

record timeout_callback = poll_cb +
  deadline :: ulong
  callback :: nat
  tparam :: ulong
  tcount :: int

text \<open>
  The timer manager of the CPU. \<open>set_events\<close> records the calls of \<open>set_next_event\<close>, the last one first.
\<close>

record timers = "unit timeout_callback_ext softirq" +
  pfree_timer :: ptr
  ptimer :: ptr
  set_events :: "ulong list"

abbreviation tnext :: "'e timers_scheme \<Rightarrow> nat \<Rightarrow> ptr" where
  "tnext st \<equiv> \<lambda>i. p_next (cbs st i)"

abbreviation dl :: "'e timers_scheme \<Rightarrow> nat \<Rightarrow> ulong" where
  "dl st i \<equiv> deadline (cbs st i)"

text \<open>The functions that timers call, by name: a parameter of the functions that run them.\<close>

type_synonym 'e callbacks = "nat \<Rightarrow> ulong \<Rightarrow> ulong \<Rightarrow> 'e timers_scheme \<Rightarrow> 'e timers_scheme outcome"

definition set_next_event :: "ulong \<Rightarrow> 'e timers_scheme \<Rightarrow> 'e timers_scheme" where
  "set_next_event nsec st = st\<lparr>set_events := nsec # set_events st\<rparr>"

definition free_poll :: "nat \<Rightarrow> 'e timers_scheme \<Rightarrow> 'e timers_scheme" where
  "free_poll p st = (upd_cb p (\<lambda>c. c\<lparr>p_handle := err_poll_handle, p_next := pfree_timer st\<rparr>) st)\<lparr>pfree_timer := Some p\<rparr>"

definition timeout_poll :: "'e callbacks \<Rightarrow> nat \<Rightarrow> 'e timers_scheme \<Rightarrow> 'e timers_scheme outcome" where
  "timeout_poll call p st =
     andThen (call (callback (cbs st p)) (dl st p) (tparam (cbs st p)) st) (\<lambda>st1. Inr (free_poll p st1))"

text \<open>What \<open>do_poll_head\<close> calls for the handlers of this file.\<close>

definition timer_handle :: "'e callbacks \<Rightarrow> (nat \<Rightarrow> nat \<Rightarrow> 'e timers_scheme \<Rightarrow> 'e timers_scheme outcome) \<Rightarrow>
    poll_handle_t \<Rightarrow> nat \<Rightarrow> 'e timers_scheme \<Rightarrow> 'e timers_scheme outcome" where
  "timer_handle call other h p st =
     (case h of null_handle \<Rightarrow> Inl Null_dereference | err_poll_handle \<Rightarrow> panic
      | timeout_poll_handle \<Rightarrow> timeout_poll call p st | other_handle k \<Rightarrow> other k p st)"

text \<open>Interrupts are off while the list changes; \<open>local_irq_restore\<close> gives the flag its old value.\<close>

definition add_timer :: "ulong \<Rightarrow> nat \<Rightarrow> 'e timers_scheme \<Rightarrow> 'e timers_scheme outcome" where
  "add_timer nsec p st0 =
     (let st = upd_cb p (\<lambda>c. c\<lparr>tcount := 1\<rparr>) st0 in
      case ptimer st of
        None \<Rightarrow> Inr (set_next_event nsec ((upd_cb p (\<lambda>c. c\<lparr>p_next := None\<rparr>) st)\<lparr>ptimer := Some p\<rparr>))
      | Some h \<Rightarrow>
          if dl st p < dl st h
          then Inr (set_next_event nsec ((upd_cb p (\<lambda>c. c\<lparr>p_next := Some h\<rparr>) st)\<lparr>ptimer := Some p\<rparr>))
          else andThen (ending (seek (tnext st) (\<lambda>j. dl st j < dl st p) h)) (\<lambda>q.
            let st1 = upd_cb p (\<lambda>c. c\<lparr>p_next := tnext st q\<rparr>) st
            in Inr (upd_cb q (\<lambda>c. c\<lparr>p_next := Some p\<rparr>) st1)))"

text \<open>
  A timeout of its own: from the unused ones, or else from \<open>yaos_malloc\<close>, whose result is
  the argument \<open>mal\<close>.
\<close>

definition take_timer :: "ptr \<Rightarrow> 'e timers_scheme \<Rightarrow> ptr \<times> 'e timers_scheme" where
  "take_timer mal st =
     (case pfree_timer st of
        None \<Rightarrow> (mal, st)
      | Some p \<Rightarrow> (Some p, st\<lparr>pfree_timer := tnext st p\<rparr>))"

text \<open>\<open>uptime\<close> is what \<open>hrt_uptime()\<close> returns.\<close>

definition set_timeout :: "ptr \<Rightarrow> poll_handle_t \<Rightarrow> ulong \<Rightarrow> nat \<Rightarrow> ulong \<Rightarrow> ulong \<Rightarrow> ptr \<Rightarrow> 'e timers_scheme \<Rightarrow> (int \<times> 'e timers_scheme) outcome" where
  "set_timeout thr h nsec pfunc par uptime mal st =
     (let (q, st1) = take_timer mal st in
      case q of
        None \<Rightarrow> Inr (ENOMEM, st1)
      | Some p \<Rightarrow>
          andThen (add_timer nsec p (upd_cb p (\<lambda>c. c\<lparr>deadline := nsec + uptime, callback := pfunc, tparam := par,
              p_thread := thr, p_handle := h\<rparr>) st1)) (\<lambda>st2.
          Inr (0, st2)))"

definition set_timeout_nsec_cb :: "ulong \<Rightarrow> nat \<Rightarrow> ulong \<Rightarrow> ulong \<Rightarrow> ptr \<Rightarrow> 'e timers_scheme \<Rightarrow> (int \<times> 'e timers_scheme) outcome" where
  "set_timeout_nsec_cb nsec pfunc par uptime mal st = set_timeout None null_handle nsec pfunc par uptime mal st"

definition set_timeout_nsec_poll :: "ulong \<Rightarrow> nat \<Rightarrow> ulong \<Rightarrow> ulong \<Rightarrow> ptr \<Rightarrow> 'e timers_scheme \<Rightarrow> (int \<times> 'e timers_scheme) outcome" where
  "set_timeout_nsec_poll nsec pfunc par uptime mal st =
     set_timeout (Some (current st)) timeout_poll_handle nsec pfunc par uptime mal st"

definition is_poll :: "nat \<Rightarrow> 'e timers_scheme \<Rightarrow> bool" where
  "is_poll p st \<longleftrightarrow> p_thread (cbs st p) \<noteq> None"

definition timer_cb :: "'e callbacks \<Rightarrow> nat \<Rightarrow> 'e timers_scheme \<Rightarrow> 'e timers_scheme outcome" where
  "timer_cb call p st0 =
     (let st = upd_cb p (\<lambda>c. c\<lparr>tcount := tcount c - 1\<rparr>) st0 in
      andThen (ASSERT (tcount (cbs st p) = 0)) (\<lambda>_.
      if \<not> is_poll p st
      then andThen (call (callback (cbs st p)) (dl st p) (tparam (cbs st p)) st) (\<lambda>st1. Inr (free_poll p st1))
      else thread_add_poll p POLL_LVL_TIMER st))"

text \<open>
  The first loop of \<open>run_hrtimer_softirq\<close>, which fills \<open>paramarr\<close>: from \<open>p\<close> on, at most \<open>n\<close> more timers.
\<close>

primrec collect_expired :: "ulong \<Rightarrow> 'e timers_scheme \<Rightarrow> nat \<Rightarrow> nat \<Rightarrow> nat list" where
  "collect_expired uptime st 0 p = [p]"
| "collect_expired uptime st (Suc n) p =
     (case tnext st p of None \<Rightarrow> [p]
      | Some q \<Rightarrow> if uptime \<ge> dl st q then p # collect_expired uptime st n q else [p])"

text \<open>The part that runs with interrupts off: the timers to run, and the state with the rest of the list.\<close>

definition expire_timers :: "ulong \<Rightarrow> nat \<Rightarrow> 'e timers_scheme \<Rightarrow> nat list \<times> 'e timers_scheme" where
  "expire_timers uptime h st =
     (let paramarr = collect_expired uptime st 19 h;
          st1 = st\<lparr>ptimer := tnext st (last paramarr)\<rparr>
      in (paramarr,
          case ptimer st1 of None \<Rightarrow> st1 | Some q \<Rightarrow> set_next_event (dl st1 q - uptime) st1))"

definition run_hrtimer_softirq :: "'e callbacks \<Rightarrow> ulong \<Rightarrow> 'e timers_scheme \<Rightarrow> 'e timers_scheme outcome" where
  "run_hrtimer_softirq call uptime st =
     (case ptimer st of
        None \<Rightarrow> Inr st
      | Some h \<Rightarrow>
          if uptime < dl st h then Inr st
          else let (paramarr, st1) = expire_timers uptime h (local_irq_disable st)
            in fold (\<lambda>p r. andThen r (timer_cb call p)) paramarr (Inr (local_irq_enable st1)))"

text \<open>\<open>run_timer_softirq\<close> does nothing.\<close>

definition run_timer_softirq :: "'e timers_scheme \<Rightarrow> 'e timers_scheme" where
  "run_timer_softirq st = st"

text \<open>The buffer is the per-CPU array at the addresses from \<open>buf\<close> on; \<open>f_hrtimer\<close> and \<open>f_timer\<close> are the names of the two actions.\<close>

definition init_hrtimer :: "bool \<Rightarrow> nat \<Rightarrow> nat \<Rightarrow> nat \<Rightarrow> 'e timers_scheme \<Rightarrow> 'e timers_scheme" where
  "init_hrtimer isbp f_hrtimer f_timer buf st0 =
     (let st = st0\<lparr>cbs := (\<lambda>i. if buf \<le> i \<and> i < buf + NR_TIMER_BUF
                     then (cbs st0 i)\<lparr>p_next := if i < buf + NR_TIMER_BUF - 1 then Some (Suc i) else None\<rparr> else cbs st0 i),
            pfree_timer := Some buf, ptimer := None\<rparr>
      in if isbp then open_softirq TIMER_SOFTIRQ f_timer (open_softirq HRTIMER_SOFTIRQ f_hrtimer st) else st)"

definition run_local_timers :: "'e timers_scheme \<Rightarrow> 'e timers_scheme" where
  "run_local_timers st = raise_softirq TIMER_SOFTIRQ st"

definition run_hrt_timers :: "'e timers_scheme \<Rightarrow> 'e timers_scheme" where
  "run_hrt_timers st = raise_softirq HRTIMER_SOFTIRQ st"

text \<open>
  The callbacks of \<open>hpet.c\<close>, which set themselves again every millisecond: \<open>self\<close> is their own name, \<open>msec\<close> what
  \<open>hpet_uptime_msec()\<close> returns. Their result does not depend on whether the timer could be set.
\<close>

definition msec_apcallback :: "nat \<Rightarrow> ulong \<Rightarrow> ptr \<Rightarrow> ulong \<Rightarrow> ulong \<Rightarrow> 'e timers_scheme \<Rightarrow> 'e timers_scheme outcome" where
  "msec_apcallback self uptime mal nsec par st =
     andThen (set_timeout_nsec_cb 1000000 self par uptime mal st) (\<lambda>(_, st1). Inr (run_local_timers st1))"

definition msec_callback :: "nat \<Rightarrow> ulong \<Rightarrow> ulong \<Rightarrow> ptr \<Rightarrow> ulong \<Rightarrow> ulong \<Rightarrow> 'e timers_scheme \<Rightarrow> 'e timers_scheme outcome" where
  "msec_callback self msec uptime mal nsec par st =
     andThen (set_timeout_nsec_cb 1000000 self par uptime mal (st\<lparr>msec_count := msec\<rparr>)) (\<lambda>(_, st1). Inr (run_local_timers st1))"

text \<open>\<open>nsleep\<close> of \<open>kthread.c\<close>, and the function it sets, which it is given by name.\<close>

definition sleep_callback :: "ulong \<Rightarrow> ulong \<Rightarrow> ulong \<Rightarrow> 'e timers_scheme \<Rightarrow> 'e timers_scheme outcome" where
  "sleep_callback sp nownsec par st = wake_up_thread (unat par) sp st"

definition nsleep :: "nat \<Rightarrow> ulong \<Rightarrow> ulong \<Rightarrow> ptr \<Rightarrow> ulong \<Rightarrow> 'e timers_scheme \<Rightarrow> 'e timers_scheme outcome" where
  "nsleep f_sleep nsec uptime mal sp st =
     (let st0 = local_irq_disable st in
      andThen (ASSERT (\<not> suspended st0 (current st0))) (\<lambda>_.
      andThen (set_timeout_nsec_cb nsec f_sleep (of_nat (current st0)) uptime mal st0) (\<lambda>(_, st1).
      andThen (ASSERT (\<not> suspended st1 (current st1))) (\<lambda>_.
      suspend_thread sp st1))))"

section \<open>The lists\<close>

text \<open>
  \<open>ts\<close> are the timers that are set, by ascending deadline, each with its count at 1; \<open>fs\<close> are the
  unused ones.
\<close>

definition timer_rep :: "'e timers_scheme \<Rightarrow> nat list \<Rightarrow> nat list \<Rightarrow> bool" where
  "timer_rep st ts fs \<longleftrightarrow>
     linked (tnext st) (ptimer st) ts \<and> linked (tnext st) (pfree_timer st) fs \<and> set ts \<inter> set fs = {} \<and>
     sorted_wrt (\<lambda>i j. dl st i \<le> dl st j) ts \<and> (\<forall>i \<in> set ts. tcount (cbs st i) = 1)"

lemma timers_sel [simp]:
  "ptimer (upd_cb p f st) = ptimer st" "pfree_timer (upd_cb p f st) = pfree_timer st" "set_events (upd_cb p f st) = set_events st"
  "cbs (set_next_event n st) = cbs st" "ptimer (set_next_event n st) = ptimer st" "pfree_timer (set_next_event n st) = pfree_timer st"
  "set_events (set_next_event n st) = n # set_events st"
  "ptimer (local_irq_disable st) = ptimer st" "ptimer (local_irq_enable st) = ptimer st"
  "pfree_timer (local_irq_disable st) = pfree_timer st" "pfree_timer (local_irq_enable st) = pfree_timer st"
  "set_events (local_irq_disable st) = set_events st" "set_events (local_irq_enable st) = set_events st"
  "timers.more (local_irq_disable st) = timers.more st" "timers.more (local_irq_enable st) = timers.more st"
  "timers.more (upd_cb p f st) = timers.more st" "timers.more (set_next_event n st) = timers.more st"
  "threads (set_next_event n st) = threads st" "ro_start (set_next_event n st) = ro_start st" "ro_end (set_next_event n st) = ro_end st"
  "ro_start (upd_cb p f st) = ro_start st" "ro_end (upd_cb p f st) = ro_end st"
  "ro_start (local_irq_disable st) = ro_start st" "ro_end (local_irq_disable st) = ro_end st"
  "ro_start (local_irq_enable st) = ro_start st" "ro_end (local_irq_enable st) = ro_end st"
  by (simp_all add: upd_cb_def set_next_event_def local_irq_disable_def local_irq_enable_def)

lemma upd_thread_timers [simp]:
  "ptimer (upd_thread p f st) = ptimer st" "pfree_timer (upd_thread p f st) = pfree_timer st" "set_events (upd_thread p f st) = set_events st"
  "timers.more (upd_thread p f st) = timers.more st" "ro_start (upd_thread p f st) = ro_start st" "ro_end (upd_thread p f st) = ro_end st"
  by (simp_all add: upd_thread_def)

lemma run_local_timers_sel [simp]:
  "cbs (run_local_timers st) = cbs st" "ptimer (run_local_timers st) = ptimer st" "pfree_timer (run_local_timers st) = pfree_timer st"
  "set_events (run_local_timers st) = set_events st" "timers.more (run_local_timers st) = timers.more st"
  "threads (run_local_timers st) = threads st" "ro_start (run_local_timers st) = ro_start st" "ro_end (run_local_timers st) = ro_end st"
  by (simp_all add: run_local_timers_def raise_softirq_def raise_softirq_irqoff_def local_irq_disable_def Let_def)

lemma tnext_upd: "tnext (upd_cb p f st) = (tnext st)(p := p_next (f (cbs st p)))"
  by (auto simp: fun_eq_iff)

text \<open>What a timer is set to.\<close>

definition timeout :: "'e timers_scheme \<Rightarrow> nat \<Rightarrow> ulong \<times> nat \<times> ulong \<times> ptr \<times> poll_handle_t" where
  "timeout st i = (dl st i, callback (cbs st i), tparam (cbs st i), p_thread (cbs st i), p_handle (cbs st i))"

text \<open>The fields of the timers that \<open>add_timer\<close> does not change.\<close>

definition same_timers :: "'e timers_scheme \<Rightarrow> 'e timers_scheme \<Rightarrow> bool" where
  "same_timers st st' \<longleftrightarrow> pfree_timer st' = pfree_timer st \<and> timers.more st' = timers.more st \<and>
     threads st' = threads st \<and> ro_start st' = ro_start st \<and> ro_end st' = ro_end st \<and>
     (\<forall>i. dl st' i = dl st i \<and> callback (cbs st' i) = callback (cbs st i) \<and> tparam (cbs st' i) = tparam (cbs st i) \<and>
       p_thread (cbs st' i) = p_thread (cbs st i) \<and> p_handle (cbs st' i) = p_handle (cbs st i))"

lemma add_timer_first:
  assumes "linked (tnext st) (ptimer st) ts" and p: "p \<notin> set ts" and "ts = [] \<or> dl st p < dl st (hd ts)"
  shows "\<exists>st'. add_timer nsec p st = Inr st' \<and> linked (tnext st') (ptimer st') (p # ts) \<and> same_timers st st' \<and>
    set_events st' = nsec # set_events st \<and> (\<forall>i. i \<noteq> p \<longrightarrow> cbs st' i = cbs st i) \<and> tcount (cbs st' p) = 1"
proof -
  define s where "s = upd_cb p (\<lambda>c. c\<lparr>tcount := 1\<rparr>) st"
  define st' where "st' = set_next_event nsec ((upd_cb p (\<lambda>c. c\<lparr>p_next := ptimer st\<rparr>) s)\<lparr>ptimer := Some p\<rparr>)"
  have "add_timer nsec p st = Inr st'"
  proof (cases ts)
    case Nil
    with assms(1) show ?thesis by (simp add: add_timer_def s_def [symmetric] st'_def Let_def) (simp add: s_def)
  next
    case (Cons h hs)
    with assms(1,3) have "ptimer s = Some h" "dl s p < dl s h" "ptimer st = Some h" by (auto simp: s_def)
    then show ?thesis by (simp add: add_timer_def s_def [symmetric] st'_def Let_def)
  qed
  moreover have "tnext st' = (tnext st)(p := ptimer st)" by (rule ext) (simp add: st'_def s_def)
  then have "linked (tnext st') (ptimer st') (p # ts)"
    using linked_push [OF assms(1) p] by (simp add: st'_def)
  ultimately show ?thesis by (intro exI [of _ st']) (simp add: st'_def s_def same_timers_def)
qed

lemma add_timer_later:
  assumes lk: "linked (tnext st) (ptimer st) (h # hs)" and p: "p \<notin> set (h # hs)" and "\<not> dl st p < dl st h"
    and as: "as = h # takeWhile (\<lambda>j. dl st j < dl st p) hs" and bs: "bs = dropWhile (\<lambda>j. dl st j < dl st p) hs"
  shows "\<exists>st'. add_timer nsec p st = Inr st' \<and> linked (tnext st') (ptimer st') (as @ p # bs) \<and> same_timers st st' \<and>
    set_events st' = set_events st \<and> (\<forall>i. i \<noteq> p \<and> i \<notin> set (h # hs) \<longrightarrow> cbs st' i = cbs st i) \<and>
    (\<forall>i. i \<noteq> p \<longrightarrow> tcount (cbs st' i) = tcount (cbs st i)) \<and> tcount (cbs st' p) = 1"
proof -
  define s where "s = upd_cb p (\<lambda>c. c\<lparr>tcount := 1\<rparr>) st"
  have nx: "tnext s = tnext st" by (rule ext) (simp add: s_def)
  have s_sel: "ptimer s = ptimer st" "dl s i = dl st i" for i by (simp_all add: s_def)
  have h: "ptimer st = Some h" and hs: "linked (tnext st) (tnext st h) hs" using lk by auto
  define q where "q = last as"
  have as2: "as = butlast as @ [q]" by (simp add: q_def as)
  have ts: "h # hs = as @ bs" by (simp add: as bs)
  then have ts2: "h # hs = butlast as @ q # bs" using as2 by (metis append.assoc append_Cons append_Nil)
  define st' where "st' = upd_cb q (\<lambda>c. c\<lparr>p_next := Some p\<rparr>) (upd_cb p (\<lambda>c. c\<lparr>p_next := tnext st q\<rparr>) s)"
  have "seek (tnext s) (\<lambda>j. dl s j < dl s p) h = Some q"
    unfolding nx s_sel using seek_linked [of "tnext st" h hs "\<lambda>j. dl st j < dl st p"] hs by (simp add: q_def as)
  then have run: "add_timer nsec p st = Inr st'"
    using assms(3) h nx unfolding add_timer_def s_def [symmetric] Let_def s_sel by (simp add: st'_def fun_eq_iff)
  have qin: "q \<in> set (h # hs)" unfolding ts2 by simp
  then have qp: "q \<noteq> p" using p by auto
  have nx': "tnext st' = (tnext st)(p := tnext st q, q := Some p)"
    using qp by (intro ext) (simp add: st'_def s_def)
  have "linked (tnext st') (ptimer st) (butlast as @ q # p # bs)"
    unfolding nx' using p lk unfolding ts2 by (intro linked_insert_after)
  moreover have "butlast as @ q # p # bs = as @ p # bs" using as2 by (metis append.assoc append_Cons append_Nil)
  moreover have "ptimer st' = ptimer st" by (simp add: st'_def s_def)
  ultimately have "linked (tnext st') (ptimer st') (as @ p # bs)" by simp
  moreover have "same_timers st st'" by (simp add: same_timers_def st'_def s_def)
  moreover have "set_events st' = set_events st" "tcount (cbs st' p) = 1" "\<forall>i. i \<noteq> p \<longrightarrow> tcount (cbs st' i) = tcount (cbs st i)"
    using qp by (simp_all add: st'_def s_def)
  moreover have "\<forall>i. i \<noteq> p \<and> i \<notin> set (h # hs) \<longrightarrow> cbs st' i = cbs st i"
    using qin by (auto simp: st'_def s_def)
  ultimately show ?thesis using run by blast
qed

text \<open>Where \<open>add_timer\<close> puts a timer: after those with an earlier deadline, before later ones.\<close>

lemma add_timer_run:
  assumes lk: "linked (tnext st) (ptimer st) ts" and p: "p \<notin> set ts" and so: "sorted_wrt (\<lambda>i j. dl st i \<le> dl st j) ts"
  shows "\<exists>as bs st'. ts = as @ bs \<and> add_timer nsec p st = Inr st' \<and> linked (tnext st') (ptimer st') (as @ p # bs) \<and>
    same_timers st st' \<and> set_events st' = (if as = [] then nsec # set_events st else set_events st) \<and>
    (\<forall>i. i \<noteq> p \<and> i \<notin> set ts \<longrightarrow> cbs st' i = cbs st i) \<and>
    (\<forall>i. i \<noteq> p \<longrightarrow> tcount (cbs st' i) = tcount (cbs st i)) \<and> tcount (cbs st' p) = 1 \<and>
    (\<forall>i \<in> set as. dl st i \<le> dl st p) \<and> (\<forall>i \<in> set bs. dl st p \<le> dl st i)"
proof (cases "ts = [] \<or> dl st p < dl st (hd ts)")
  case True
  moreover from this have "\<forall>i \<in> set ts. dl st p \<le> dl st i" using so by (cases ts) auto
  ultimately show ?thesis using add_timer_first [OF lk p True, of nsec]
    by (intro exI [of _ "[]"] exI [of _ ts]) auto
next
  case False
  then obtain h hs where ts: "ts = h # hs" and le: "\<not> dl st p < dl st h" by (cases ts) auto
  let ?go = "\<lambda>j. dl st j < dl st p"
  define as where "as = h # takeWhile ?go hs"
  define bs where "bs = dropWhile ?go hs"
  have "\<forall>i \<in> set as. dl st i \<le> dl st p" using le by (auto simp: as_def dest: set_takeWhileD)
  moreover have "\<forall>i \<in> set bs. dl st p \<le> dl st i"
  proof (cases bs)
    case (Cons b cs)
    then have "\<not> ?go b" unfolding bs_def by (metis hd_dropWhile list.distinct(1) list.sel(1))
    moreover have "ts = as @ bs" by (simp add: ts as_def bs_def)
    then have "sorted_wrt (\<lambda>i j. dl st i \<le> dl st j) bs" using so by (simp add: sorted_wrt_append)
    ultimately show ?thesis by (auto simp: Cons)
  qed simp
  moreover have "ts = as @ bs" "as \<noteq> []" by (simp_all add: ts as_def bs_def)
  ultimately show ?thesis
    using add_timer_later [OF lk [unfolded ts] p [unfolded ts] le as_def bs_def, of nsec]
    by (intro exI [of _ as] exI [of _ bs]) (simp add: ts)
qed

lemma collect_linked:
  "linked (tnext st) (Some p) (p # xs) \<Longrightarrow>
   collect_expired uptime st n p = p # take n (takeWhile (\<lambda>i. dl st i \<le> uptime) xs)"
proof (induction n arbitrary: p xs)
  case 0
  then show ?case by simp
next
  case (Suc n)
  show ?case
  proof (cases xs)
    case Nil
    with Suc.prems show ?thesis by simp
  next
    case (Cons q ys)
    with Suc.prems have nx: "tnext st p = Some q" and lk: "linked (tnext st) (Some q) (q # ys)" by auto
    with Suc.IH [OF lk] Cons show ?thesis by simp
  qed
qed

section \<open>Setting a timeout\<close>

lemma timer_repD:
  assumes "timer_rep st ts fs"
  shows "linked (tnext st) (ptimer st) ts" "linked (tnext st) (pfree_timer st) fs" "set ts \<inter> set fs = {}"
    "sorted_wrt (\<lambda>i j. dl st i \<le> dl st j) ts" "\<And>i. i \<in> set ts \<Longrightarrow> tcount (cbs st i) = 1" "distinct ts" "distinct fs"
  using assms linked_distinct by (auto simp: timer_rep_def)

definition own_timer :: "ptr \<Rightarrow> nat list \<Rightarrow> ptr" where
  "own_timer mal fs = (case fs of [] \<Rightarrow> mal | f # _ \<Rightarrow> Some f)"

text \<open>The first unused timer, or one from the heap that is in neither list.\<close>

lemma take_timer_run:
  assumes "timer_rep st ts fs"
  shows "take_timer mal st = (own_timer mal fs, st\<lparr>pfree_timer := (if fs = [] then None else tnext st (hd fs))\<rparr>)"
  using timer_repD(2) [OF assms] by (cases fs) (simp_all add: take_timer_def own_timer_def)

lemma set_timeout_run:
  assumes rep: "timer_rep st ts fs" and own: "own_timer mal fs = Some p" "set_option mal \<inter> (set ts \<union> set fs) = {}"
  shows "\<exists>as bs st'. set_timeout thr h nsec f par uptime mal st = Inr (0, st') \<and> ts = as @ bs \<and> timer_rep st' (as @ p # bs) (tl fs) \<and>
    dl st' p = nsec + uptime \<and> callback (cbs st' p) = f \<and> tparam (cbs st' p) = par \<and> p_thread (cbs st' p) = thr \<and> p_handle (cbs st' p) = h \<and>
    (\<forall>i \<in> set ts. timeout st' i = timeout st i) \<and> (\<forall>i. i \<notin> set ts \<and> i \<noteq> p \<longrightarrow> cbs st' i = cbs st i) \<and>
    set_events st' = (if as = [] then nsec # set_events st else set_events st) \<and>
    timers.more st' = timers.more st \<and> threads st' = threads st \<and> ro_start st' = ro_start st \<and> ro_end st' = ro_end st"
proof -
  note r = timer_repD [OF rep]
  define pf where "pf = (if fs = [] then None else tnext st (hd fs))"
  define s where "s = upd_cb p (\<lambda>c. c\<lparr>deadline := nsec + uptime, callback := f, tparam := par, p_thread := thr, p_handle := h\<rparr>)
    (st\<lparr>pfree_timer := pf\<rparr>)"
  have p: "p \<notin> set ts" "p \<notin> set (tl fs)"
    using own r(3,7) by (cases fs; force simp: own_timer_def)+
  have sub: "set (tl fs) \<subseteq> set fs" by (cases fs) auto
  have nx: "tnext s = tnext st" by (rule ext) (simp add: s_def)
  have lk: "linked (tnext s) (ptimer s) ts" using r(1) unfolding nx by (simp add: s_def)
  have old: "dl s i = dl st i" "callback (cbs s i) = callback (cbs st i)" "tparam (cbs s i) = tparam (cbs st i)" "tcount (cbs s i) = tcount (cbs st i)"
    "p_thread (cbs s i) = p_thread (cbs st i)" "p_handle (cbs s i) = p_handle (cbs st i)"
    if "i \<noteq> p" for i using that by (simp_all add: s_def)
  have so: "sorted_wrt (\<lambda>i j. dl s i \<le> dl s j) ts"
    by (rule sorted_wrt_mono_rel [OF _ r(4)]) (use p(1) old(1) in metis)
  from add_timer_run [OF lk p(1) so, of nsec] obtain as bs st' where
    a: "ts = as @ bs" "add_timer nsec p s = Inr st'" "linked (tnext st') (ptimer st') (as @ p # bs)" "same_timers s st'"
      "set_events st' = (if as = [] then nsec # set_events s else set_events s)"
      "\<forall>i. i \<noteq> p \<and> i \<notin> set ts \<longrightarrow> cbs st' i = cbs s i" "\<forall>i. i \<noteq> p \<longrightarrow> tcount (cbs st' i) = tcount (cbs s i)" "tcount (cbs st' p) = 1"
      "\<forall>i \<in> set as. dl s i \<le> dl s p" "\<forall>i \<in> set bs. dl s p \<le> dl s i" by blast
  have run: "set_timeout thr h nsec f par uptime mal st = Inr (0, st')"
    using a(2) unfolding set_timeout_def take_timer_run [OF rep] own(1) by (simp add: s_def pf_def)
  have same: "dl st' i = dl s i" "callback (cbs st' i) = callback (cbs s i)" "tparam (cbs st' i) = tparam (cbs s i)"
      "p_thread (cbs st' i) = p_thread (cbs s i)" "p_handle (cbs st' i) = p_handle (cbs s i)" "pfree_timer st' = pf" for i
    using a(4) by (simp_all add: same_timers_def s_def)
  have "linked (tnext st) pf (tl fs)" using r(2) by (cases fs) (simp_all add: pf_def)
  then have fr: "linked (tnext st') (pfree_timer st') (tl fs)" unfolding same(6)
  proof (rule linked_cong)
    fix i assume i: "i \<in> set (tl fs)"
    then have "i \<noteq> p" "i \<notin> set ts" using p(2) r(3) sub by auto
    with a(6) show "tnext st' i = tnext st i" by (simp add: s_def)
  qed
  have "sorted_wrt (\<lambda>i j. dl st' i \<le> dl st' j) (as @ p # bs)"
    using so a(9,10) unfolding same(1) a(1) by (auto simp: sorted_wrt_append intro: order_trans)
  moreover have "set (as @ p # bs) \<inter> set (tl fs) = {}" using r(3) p(2) a(1) sub by auto
  moreover have "\<forall>i \<in> set (as @ p # bs). tcount (cbs st' i) = 1"
  proof
    fix i assume i: "i \<in> set (as @ p # bs)"
    show "tcount (cbs st' i) = 1"
    proof (cases "i = p")
      case False
      with i a(1) have "i \<in> set ts" by auto
      with r(5) a(7) old(4) [OF False] False show ?thesis by simp
    qed (simp add: a(8))
  qed
  ultimately have "timer_rep st' (as @ p # bs) (tl fs)" using a(3) fr by (simp add: timer_rep_def)
  moreover have "\<forall>i \<in> set ts. timeout st' i = timeout st i"
    using old p(1) unfolding same timeout_def by (metis (no_types, lifting))
  moreover have "\<forall>i. i \<notin> set ts \<and> i \<noteq> p \<longrightarrow> cbs st' i = cbs st i" using a(6) by (simp add: s_def)
  moreover have "timers.more st' = timers.more st" "threads st' = threads st" "ro_start st' = ro_start st" "ro_end st' = ro_end st"
    using a(4) by (simp_all add: same_timers_def s_def)
  moreover have "set_events s = set_events st" by (simp add: s_def)
  ultimately show ?thesis using run a(1,5)
    by (intro exI [of _ as] exI [of _ bs] exI [of _ st']) (simp add: same, simp add: s_def)
qed

text \<open>
  \<open>set_timeout_nsec_cb\<close> in a state whose timers \<open>ts\<close> are sorted by deadline and whose unused
  ones are \<open>fs\<close>: without an unused timer and without memory it returns ENOMEM and changes nothing;
  otherwise it returns 0 and one more timer is set, with deadline \<open>nsec + uptime\<close> and the
  function and parameter given, in its place in the order of deadlines. The clock device is programmed
  exactly when the new timer is the first.
\<close>

theorem set_timeout_nsec_cb_correct:
  assumes "timer_rep st ts fs" and "set_option mal \<inter> (set ts \<union> set fs) = {}"
  shows "case own_timer mal fs of
      None \<Rightarrow> set_timeout_nsec_cb nsec f par uptime mal st = Inr (ENOMEM, st)
    | Some p \<Rightarrow> \<exists>as bs st'. set_timeout_nsec_cb nsec f par uptime mal st = Inr (0, st') \<and> ts = as @ bs \<and>
        timer_rep st' (as @ p # bs) (tl fs) \<and> dl st' p = nsec + uptime \<and> callback (cbs st' p) = f \<and> tparam (cbs st' p) = par \<and>
        set_events st' = (if as = [] then nsec # set_events st else set_events st)"
proof (cases "own_timer mal fs")
  case None
  then have "fs = []" by (auto simp: own_timer_def split: list.splits)
  moreover from this timer_repD(2) [OF assms(1)] have "pfree_timer st = None" by simp
  ultimately show ?thesis
    using None unfolding set_timeout_nsec_cb_def set_timeout_def take_timer_run [OF assms(1)] by simp
next
  case (Some p)
  show ?thesis unfolding Some option.case set_timeout_nsec_cb_def
    using set_timeout_run [OF assms(1) Some assms(2), of None null_handle nsec f par uptime] by blast
qed

section \<open>Running the timers that have expired\<close>

lemma expire_run:
  assumes rep: "timer_rep st ts fs" and h: "ptimer st = Some h" "dl st h \<le> uptime"
    and xs: "xs = take 20 (takeWhile (\<lambda>i. dl st i \<le> uptime) ts)" and rest: "rest = drop (length xs) ts"
  shows "\<exists>st'. expire_timers uptime h st = (xs, st') \<and> linked (tnext st') (ptimer st') rest \<and> ts = xs @ rest \<and>
    cbs st' = cbs st \<and> pfree_timer st' = pfree_timer st \<and> timers.more st' = timers.more st \<and>
    set_events st' = (if rest = [] then set_events st else (dl st (hd rest) - uptime) # set_events st) \<and>
    threads st' = threads st \<and> ro_start st' = ro_start st \<and> ro_end st' = ro_end st"
proof -
  note r = timer_repD [OF rep]
  obtain hs where ts: "ts = h # hs" using r(1) h(1) by (cases ts) auto
  have lk: "linked (tnext st) (Some h) (h # hs)" using r(1) h(1) ts by simp
  have c: "collect_expired uptime st 19 h = xs"
    using collect_linked [OF lk, of uptime 19] h(2) by (simp add: xs ts)
  have split: "ts = xs @ rest"
  proof -
    have "takeWhile (\<lambda>i. dl st i \<le> uptime) ts = xs @ drop 20 (takeWhile (\<lambda>i. dl st i \<le> uptime) ts)" by (simp add: xs)
    then have "ts = xs @ drop 20 (takeWhile (\<lambda>i. dl st i \<le> uptime) ts) @ dropWhile (\<lambda>i. dl st i \<le> uptime) ts"
      by (metis append.assoc takeWhile_dropWhile_id)
    then show ?thesis unfolding rest by (metis append_eq_conv_conj)
  qed
  have ne: "xs \<noteq> []" using h(2) by (simp add: xs ts)
  then have "ts = butlast xs @ last xs # rest" using split by (metis append.assoc append_Cons append_Nil append_butlast_last_id)
  then have nxt: "linked (tnext st) (tnext st (last xs)) rest"
    using linked_suffix [of "tnext st" "ptimer st" "butlast xs" "last xs" rest] r(1) by simp
  then have pt: "tnext st (last xs) = (case rest of [] \<Rightarrow> None | q # _ \<Rightarrow> Some q)" by (cases rest) auto
  show ?thesis
    using nxt split unfolding expire_timers_def c Let_def
    by (cases rest) (simp_all add: pt)
qed

subsection \<open>What is expected of callbacks\<close>

text \<open>
  From the lists \<open>ts\<close> and \<open>fs\<close> of one state to the lists \<open>ts'\<close> and \<open>fs'\<close> of a later one, timers may have been
  set but none that is set was removed or changed, and no timer was lost. The timers \<open>X\<close>, which are in neither list, have not been touched,
  and the threads have the same timers to poll.
\<close>

definition only_sets :: "nat set \<Rightarrow> nat list \<Rightarrow> nat list \<Rightarrow> 'e timers_scheme \<Rightarrow> nat list \<Rightarrow> nat list \<Rightarrow> 'e timers_scheme \<Rightarrow> bool" where
  "only_sets X ts fs s ts' fs' s' \<longleftrightarrow> timer_rep s' ts' fs' \<and> X \<inter> (set ts' \<union> set fs') = {} \<and> (\<forall>i \<in> X. cbs s' i = cbs s i) \<and>
     subseq ts ts' \<and> (\<forall>i \<in> set ts. timeout s' i = timeout s i) \<and> set fs \<subseteq> set ts' \<union> set fs' \<and>
     (\<forall>t. polls (threads s' t) POLL_LVL_TIMER = polls (threads s t) POLL_LVL_TIMER) \<and> ro_start s' = ro_start s \<and> ro_end s' = ro_end s"

text \<open>
  A callback returns, and until then it, and whatever runs meanwhile, may set timers, also on timers from the heap outside \<open>A\<close>, but leaves
  alone the timers of \<open>A\<close> that the soft interrupt or a poll has taken from the lists. It may program the clock device. \<open>log\<close> is
  an auxiliary record of the calls.
\<close>

definition timer_callbacks :: "nat set \<Rightarrow> 'e callbacks \<Rightarrow> ('e \<Rightarrow> (nat \<times> ulong \<times> ulong) list) \<Rightarrow> bool" where
  "timer_callbacks A call log \<longleftrightarrow> (\<forall>f d q s ts fs X. timer_rep s ts fs \<longrightarrow> X \<subseteq> A \<longrightarrow> X \<inter> (set ts \<union> set fs) = {} \<longrightarrow>
     (\<exists>s' ts' fs' evs. call f d q s = Inr s' \<and> only_sets X ts fs s ts' fs' s' \<and> set_events s' = evs @ set_events s \<and>
       log (timers.more s') = log (timers.more s) @ [(f, d, q)]))"

lemma timer_callbacksE:
  assumes "timer_callbacks A call log" "timer_rep s ts fs" "X \<subseteq> A" "X \<inter> (set ts \<union> set fs) = {}"
  obtains s' ts' fs' evs where "call f d q s = Inr s'" "only_sets X ts fs s ts' fs' s'" "set_events s' = evs @ set_events s"
    "log (timers.more s') = log (timers.more s) @ [(f, d, q)]"
  using assms(1) [unfolded timer_callbacks_def, rule_format, OF assms(2-4), of f d q] by blast

lemma subseq_set: "subseq xs ys \<Longrightarrow> set xs \<subseteq> set ys"
  by (auto elim: list_emb_set)

lemma only_setsD:
  assumes "only_sets X ts fs s ts' fs' s'"
  shows "timer_rep s' ts' fs'" "X \<inter> (set ts' \<union> set fs') = {}" "\<And>i. i \<in> X \<Longrightarrow> cbs s' i = cbs s i" "subseq ts ts'"
    "\<And>i. i \<in> set ts \<Longrightarrow> timeout s' i = timeout s i" "set fs \<subseteq> set ts' \<union> set fs'"
    "\<And>t. polls (threads s' t) POLL_LVL_TIMER = polls (threads s t) POLL_LVL_TIMER" "ro_start s' = ro_start s" "ro_end s' = ro_end s"
  using assms by (auto simp: only_sets_def)

lemma timer_rep_cong:
  assumes "timer_rep s ts fs" "ptimer s' = ptimer s" "pfree_timer s' = pfree_timer s" "\<And>i. i \<in> set ts \<union> set fs \<Longrightarrow> cbs s' i = cbs s i"
  shows "timer_rep s' ts fs"
proof -
  note r = timer_repD [OF assms(1)]
  have "linked (tnext s') (ptimer s') ts" using r(1) unfolding assms(2) by (rule linked_cong) (simp add: assms(4))
  moreover have "linked (tnext s') (pfree_timer s') fs" using r(2) unfolding assms(3) by (rule linked_cong) (simp add: assms(4))
  moreover have "sorted_wrt (\<lambda>i j. dl s' i \<le> dl s' j) ts" by (rule sorted_wrt_mono_rel [OF _ r(4)]) (simp add: assms(4))
  ultimately show ?thesis using r(3,5) assms(4) by (simp add: timer_rep_def)
qed

text \<open>A timer that was taken is given back.\<close>

lemma free_poll_run:
  assumes "timer_rep s ts fs" "p \<notin> set ts \<union> set fs"
  shows "timer_rep (free_poll p s) ts (p # fs)" "set_events (free_poll p s) = set_events s" "timers.more (free_poll p s) = timers.more s"
    "threads (free_poll p s) = threads s" "\<And>i. i \<noteq> p \<Longrightarrow> cbs (free_poll p s) i = cbs s i"
    "ro_start (free_poll p s) = ro_start s" "ro_end (free_poll p s) = ro_end s"
proof -
  let ?s = "free_poll p s"
  note r = timer_repD [OF assms(1)]
  show c: "cbs ?s i = cbs s i" if "i \<noteq> p" for i using that by (simp add: free_poll_def)
  show "set_events ?s = set_events s" "timers.more ?s = timers.more s" "threads ?s = threads s" "ro_start ?s = ro_start s" "ro_end ?s = ro_end s"
    by (simp_all add: free_poll_def)
  have "tnext ?s = (tnext s)(p := pfree_timer s)" "pfree_timer ?s = Some p" "ptimer ?s = ptimer s"
    by (auto simp: free_poll_def)
  then have "linked (tnext ?s) (pfree_timer ?s) (p # fs)" "linked (tnext ?s) (ptimer ?s) ts"
    using linked_push [OF r(2)] r(1) assms(2) by auto
  moreover have ne: "i \<noteq> p" if "i \<in> set ts" for i using that assms(2) by auto
  then have "sorted_wrt (\<lambda>i j. dl ?s i \<le> dl ?s j) ts" by (intro sorted_wrt_mono_rel [OF _ r(4)]) (simp add: c)
  ultimately show "timer_rep ?s ts (p # fs)" using r(3,5) assms(2) ne c by (auto simp: timer_rep_def)
qed

text \<open>The call of a callback of a timer that was taken, and the return of the timer.\<close>

lemma called_and_freed:
  assumes cb: "timer_callbacks A call log" and rep: "timer_rep s ts fs" and X: "X \<subseteq> A" "X \<inter> (set ts \<union> set fs) = {}" and p: "p \<in> X"
  shows "\<exists>s' ts' fs' evs. andThen (call f d q s) (\<lambda>s1. Inr (free_poll p s1)) = Inr s' \<and> only_sets (X - {p}) ts fs s ts' fs' s' \<and>
    p \<in> set fs' \<and> set_events s' = evs @ set_events s \<and> log (timers.more s') = log (timers.more s) @ [(f, d, q)]"
proof -
  obtain s1 ts1 fs1 evs where c: "call f d q s = Inr s1" "only_sets X ts fs s ts1 fs1 s1" "set_events s1 = evs @ set_events s"
      "log (timers.more s1) = log (timers.more s) @ [(f, d, q)]"
    using cb rep X by (rule timer_callbacksE)
  note O = only_setsD [OF c(2)]
  have n: "p \<notin> set ts1 \<union> set fs1" using O(2) p by blast
  note F = free_poll_run [OF O(1) n]
  have sub: "set ts \<subseteq> set ts1" using O(4) by (rule subseq_set)
  have "timeout (free_poll p s1) i = timeout s i" if "i \<in> set ts" for i
  proof -
    have "i \<noteq> p" using that sub n by auto
    then show ?thesis using O(5) [OF that] F(5) by (simp add: timeout_def)
  qed
  moreover have "cbs (free_poll p s1) i = cbs s i" if "i \<in> X - {p}" for i using that O(3) F(5) by simp
  ultimately have "only_sets (X - {p}) ts fs s ts1 (p # fs1) (free_poll p s1)"
    using F O(2,4,6-9) by (auto simp: only_sets_def)
  then show ?thesis using c F(2,3)
    by (intro exI [of _ "free_poll p s1"] exI [of _ ts1] exI [of _ "p # fs1"] exI [of _ evs]) simp
qed

lemma only_sets_trans:
  assumes "only_sets X ts fs s ts1 fs1 s1" "only_sets Y ts1 fs1 s1 ts2 fs2 s2" "Y \<subseteq> X"
  shows "only_sets Y ts fs s ts2 fs2 s2"
proof -
  note O = only_setsD [OF assms(1)] and P = only_setsD [OF assms(2)]
  have "set ts \<subseteq> set ts1" "set ts1 \<subseteq> set ts2" using O(4) P(4) by (simp_all add: subseq_set)
  then have "timeout s2 i = timeout s i" if "i \<in> set ts" for i using that O(5) P(5) by auto
  moreover have "cbs s2 i = cbs s i" if "i \<in> Y" for i using that O(3) P(3) assms(3) by auto
  moreover have "set fs \<subseteq> set ts2 \<union> set fs2" using O(6) P(6) \<open>set ts1 \<subseteq> set ts2\<close> by blast
  ultimately show ?thesis using O P subseq_order.order_trans [OF O(4) P(4)] by (auto simp: only_sets_def)
qed

subsection \<open>The soft interrupt\<close>

text \<open>The timers that wait in the polls of the threads, each in the list of its own thread.\<close>

definition poll_lists :: "'e timers_scheme \<Rightarrow> (nat \<Rightarrow> nat list) \<Rightarrow> bool" where
  "poll_lists s P \<longleftrightarrow>
     (\<forall>t. linked (tnext s) (polls (threads s t) POLL_LVL_TIMER) (P t) \<and> (\<forall>i \<in> set (P t). p_thread (cbs s i) = Some t))"

abbreviation in_polls :: "(nat \<Rightarrow> nat list) \<Rightarrow> nat set" where
  "in_polls P \<equiv> \<Union>t. set (P t)"

text \<open>The assertions of \<open>thread_add_poll\<close>: neither the timer nor the thread lies in the read-only data.\<close>

definition can_poll :: "'e timers_scheme \<Rightarrow> nat \<Rightarrow> bool" where
  "can_poll s i \<longleftrightarrow> (\<forall>t. p_thread (cbs s i) = Some t \<longrightarrow> (i < ro_start s \<or> i > ro_end s) \<and> (t < ro_start s \<or> t > ro_end s))"

lemma can_poll_cong: "cbs s' i = cbs s i \<Longrightarrow> ro_start s' = ro_start s \<Longrightarrow> ro_end s' = ro_end s \<Longrightarrow> can_poll s' i = can_poll s i"
  by (simp add: can_poll_def)

lemma timeout_cong: "cbs s' i = cbs s i \<Longrightarrow> timeout s' i = timeout s i"
  by (simp add: timeout_def)

text \<open>While the soft interrupt still has the timers \<open>xs\<close> to run.\<close>

definition softirq_timers :: "nat set \<Rightarrow> 'e timers_scheme \<Rightarrow> nat list \<Rightarrow> nat list \<Rightarrow> nat list \<Rightarrow> (nat \<Rightarrow> nat list) \<Rightarrow> bool" where
  "softirq_timers A s xs ts fs P \<longleftrightarrow> timer_rep s ts fs \<and> poll_lists s P \<and> distinct xs \<and> set xs \<union> in_polls P \<subseteq> A \<and>
     set xs \<inter> in_polls P = {} \<and> (set xs \<union> in_polls P) \<inter> (set ts \<union> set fs) = {} \<and> (\<forall>i \<in> set xs. tcount (cbs s i) = 1 \<and> can_poll s i)"

lemma softirq_timersD:
  assumes "softirq_timers A s xs ts fs P"
  shows "timer_rep s ts fs" "poll_lists s P" "distinct xs" "set xs \<union> in_polls P \<subseteq> A" "set xs \<inter> in_polls P = {}"
    "(set xs \<union> in_polls P) \<inter> (set ts \<union> set fs) = {}" "\<And>i. i \<in> set xs \<Longrightarrow> tcount (cbs s i) = 1" "\<And>i. i \<in> set xs \<Longrightarrow> can_poll s i"
  using assms by (simp_all add: softirq_timers_def)

text \<open>Where a timer that has run ends: called and unused, or in the polls of its thread.\<close>

definition after_cb :: "'e timers_scheme \<Rightarrow> nat \<Rightarrow> (nat \<Rightarrow> nat list) \<Rightarrow> nat \<Rightarrow> nat list" where
  "after_cb s p P = (case p_thread (cbs s p) of None \<Rightarrow> P | Some t \<Rightarrow> P(t := p # P t))"

abbreviation call_of :: "'e timers_scheme \<Rightarrow> nat \<Rightarrow> nat \<times> ulong \<times> ulong" where
  "call_of s i \<equiv> (callback (cbs s i), dl s i, tparam (cbs s i))"

lemma poll_lists_kept:
  assumes "poll_lists s P" "\<And>i. i \<in> in_polls P \<Longrightarrow> cbs s' i = cbs s i"
    "\<And>t. polls (threads s' t) POLL_LVL_TIMER = polls (threads s t) POLL_LVL_TIMER"
  shows "poll_lists s' P"
  unfolding poll_lists_def
proof (intro allI conjI)
  fix t
  have "linked (tnext s) (polls (threads s' t) POLL_LVL_TIMER) (P t)" using assms(1,3) by (simp add: poll_lists_def)
  then show "linked (tnext s') (polls (threads s' t) POLL_LVL_TIMER) (P t)" by (rule linked_cong) (metis assms(2) UN_I UNIV_I)
  show "\<forall>i \<in> set (P t). p_thread (cbs s' i) = Some t" using assms(1,2) unfolding poll_lists_def by (metis UN_I UNIV_I)
qed

lemma timer_cb_called:
  assumes cb: "timer_callbacks A call log" and S: "softirq_timers A s (p # xs) ts fs P" and th: "p_thread (cbs s p) = None"
  shows "\<exists>s' ts' fs' evs. timer_cb call p s = Inr s' \<and> softirq_timers A s' xs ts' fs' P \<and> only_sets (set xs) ts fs s ts' fs' s' \<and>
    p \<in> set fs' \<and> set_events s' = evs @ set_events s \<and> log (timers.more s') = log (timers.more s) @ [call_of s p]"
proof -
  note D = softirq_timersD [OF S]
  define s0 where "s0 = upd_cb p (\<lambda>c. c\<lparr>tcount := tcount c - 1\<rparr>) s"
  have c0: "cbs s0 i = cbs s i" if "i \<noteq> p" for i using that by (simp add: s0_def)
  let ?X = "set (p # xs) \<union> in_polls P"
  have p: "p \<notin> set ts \<union> set fs" "p \<notin> set xs" "p \<notin> in_polls P" using D(3,5,6) by auto
  have rep0: "timer_rep s0 ts fs" by (rule timer_rep_cong [OF D(1)]) (use p in \<open>auto simp: s0_def\<close>)
  have "p \<in> ?X" by simp
  from called_and_freed [OF cb rep0 D(4,6) this] obtain s' ts' fs' evs where
    c: "andThen (call (callback (cbs s0 p)) (dl s0 p) (tparam (cbs s0 p)) s0) (\<lambda>s1. Inr (free_poll p s1)) = Inr s'"
      "only_sets (?X - {p}) ts fs s0 ts' fs' s'" "p \<in> set fs'" "set_events s' = evs @ set_events s0"
      "log (timers.more s') = log (timers.more s0) @ [(callback (cbs s0 p), dl s0 p, tparam (cbs s0 p))]" by blast
  have run: "timer_cb call p s = Inr s'"
    using c(1) D(7) [of p] th unfolding timer_cb_def s0_def [symmetric] by (simp add: is_poll_def s0_def)
  have X: "?X - {p} = set xs \<union> in_polls P" using p by auto
  note O = only_setsD [OF c(2) [unfolded X]]
  have same: "cbs s' i = cbs s i" if "i \<in> set xs \<union> in_polls P" for i
  proof -
    have "i \<noteq> p" using that p by auto
    then show ?thesis using O(3) [OF that] c0 by simp
  qed
  have thr: "threads s0 = threads s" "ro_start s0 = ro_start s" "ro_end s0 = ro_end s" by (simp_all add: s0_def)
  have "poll_lists s' P" by (rule poll_lists_kept [OF D(2)]) (use same O(7) thr in auto)
  moreover have "\<forall>i \<in> set xs. tcount (cbs s' i) = 1 \<and> can_poll s' i"
    using D(7,8) same can_poll_cong [of s' _ s] O(8,9) thr by simp
  ultimately have "softirq_timers A s' xs ts' fs' P" using D(3,4,5) O(1,2) by (auto simp: softirq_timers_def)
  moreover have "only_sets (set xs) ts fs s ts' fs' s'"
  proof -
    have "timeout s0 i = timeout s i" if "i \<in> set ts" for i using that p(1) by (intro timeout_cong c0) auto
    then show ?thesis using O thr same by (auto simp: only_sets_def)
  qed
  ultimately show ?thesis using run c(3-5) by (intro exI [of _ s'] exI [of _ ts'] exI [of _ fs'] exI [of _ evs]) (simp add: s0_def)
qed

lemma timer_cb_polled:
  assumes S: "softirq_timers A s (p # xs) ts fs P" and th: "p_thread (cbs s p) = Some t"
  shows "\<exists>s'. timer_cb call p s = Inr s' \<and> softirq_timers A s' xs ts fs (P(t := p # P t)) \<and> (\<forall>i. i \<noteq> p \<longrightarrow> cbs s' i = cbs s i) \<and>
    ro_start s' = ro_start s \<and> ro_end s' = ro_end s \<and> set_events s' = set_events s \<and> timers.more s' = timers.more s"
proof -
  note D = softirq_timersD [OF S]
  define s0 where "s0 = upd_cb p (\<lambda>c. c\<lparr>tcount := tcount c - 1\<rparr>) s"
  let ?hd = "polls (threads s t) POLL_LVL_TIMER"
  let ?add = "\<lambda>x. x\<lparr>polls := (polls x)(POLL_LVL_TIMER := Some p)\<rparr>"
  define s' where "s' = upd_thread (current s) (\<lambda>x. x\<lparr>poll_pending := poll_pending x OR push_bit POLL_LVL_TIMER 1\<rparr>)
    (local_irq_enable (upd_thread t ?add (upd_cb p (\<lambda>c. c\<lparr>p_next := ?hd\<rparr>) (local_irq_disable s0))))"
  have p: "p \<notin> set ts \<union> set fs" "p \<notin> set xs" "p \<notin> in_polls P" using D(3,5,6) by auto
  have lk: "linked (tnext s) ?hd (P t)" using D(2) by (simp add: poll_lists_def)
  moreover have "p \<notin> set (P t)" using p(3) by auto
  ultimately have "?hd \<noteq> Some p" by (cases "P t") auto
  moreover have "can_poll s p" using D(8) [of p] by simp
  ultimately have run: "timer_cb call p s = Inr s'"
    using D(7) [of p] th unfolding timer_cb_def s0_def [symmetric]
    by (simp add: is_poll_def thread_add_poll_def can_poll_def s0_def s'_def Let_def)
  have c: "cbs s' i = cbs s i" if "i \<noteq> p" for i using that by (simp add: s'_def s0_def)
  have cp: "p_thread (cbs s' p) = Some t" "tnext s' p = ?hd" using th by (simp_all add: s'_def s0_def)
  have nx: "tnext s' = (tnext s)(p := ?hd)" using c cp by (auto simp: fun_eq_iff)
  have pl: "polls (threads s' u) POLL_LVL_TIMER = (if u = t then Some p else polls (threads s u) POLL_LVL_TIMER)" for u
    by (simp add: s'_def s0_def)
  have sel: "ptimer s' = ptimer s" "pfree_timer s' = pfree_timer s" "ro_start s' = ro_start s" "ro_end s' = ro_end s"
    "set_events s' = set_events s" "timers.more s' = timers.more s"
    by (simp_all add: s'_def s0_def)
  have "cbs s' i = cbs s i" if "i \<in> set ts \<union> set fs" for i using that p(1) by (intro c) auto
  then have "timer_rep s' ts fs" using sel(1,2) by (intro timer_rep_cong [OF D(1)])
  moreover have "poll_lists s' (P(t := p # P t))" unfolding poll_lists_def pl
  proof (intro allI conjI)
    fix u
    have np: "p \<notin> set (P u)" using p(3) by auto
    have "linked (tnext s) (polls (threads s u) POLL_LVL_TIMER) (P u)" using D(2) by (simp add: poll_lists_def)
    then show "linked (tnext s') (if u = t then Some p else polls (threads s u) POLL_LVL_TIMER) ((P(t := p # P t)) u)"
      unfolding nx using np linked_push [OF lk] by auto
    show "\<forall>i \<in> set ((P(t := p # P t)) u). p_thread (cbs s' i) = Some u"
      using D(2) c cp np unfolding poll_lists_def by (auto simp: fun_upd_def) metis+
  qed
  moreover have "in_polls (P(t := p # P t)) = insert p (in_polls P)" by (auto split: if_splits)
  moreover have "\<forall>i \<in> set xs. tcount (cbs s' i) = 1 \<and> can_poll s' i"
  proof
    fix i assume i: "i \<in> set xs"
    then have "i \<noteq> p" using p(2) by auto
    then have "cbs s' i = cbs s i" by (rule c)
    with i D(7,8) [of i] can_poll_cong [of s' i s] sel show "tcount (cbs s' i) = 1 \<and> can_poll s' i" by simp
  qed
  ultimately have "softirq_timers A s' xs ts fs (P(t := p # P t))" using D(3,4,5,6) p by (auto simp: softirq_timers_def)
  then show ?thesis using run c sel by blast
qed

lemma run_expired:
  assumes cb: "timer_callbacks A call log"
  shows "softirq_timers A s xs ts fs P \<Longrightarrow> \<exists>s' ts' fs' evs. fold (\<lambda>p r. andThen r (timer_cb call p)) xs (Inr s) = Inr s' \<and>
    timer_rep s' ts' fs' \<and> subseq ts ts' \<and> (\<forall>i \<in> set ts. timeout s' i = timeout s i) \<and>
    set fs \<union> {i \<in> set xs. p_thread (cbs s i) = None} \<subseteq> set ts' \<union> set fs' \<and>
    poll_lists s' (\<lambda>t. rev (filter (\<lambda>i. p_thread (cbs s i) = Some t) xs) @ P t) \<and> set_events s' = evs @ set_events s \<and>
    log (timers.more s') = log (timers.more s) @ map (call_of s) (filter (\<lambda>i. p_thread (cbs s i) = None) xs)"
proof (induction xs arbitrary: s ts fs P)
  case Nil
  then show ?case
    by (intro exI [of _ s] exI [of _ ts] exI [of _ fs] exI [of _ "[]"]) (simp add: softirq_timers_def)
next
  case (Cons p xs)
  note D = softirq_timersD [OF Cons.prems]
  have p: "p \<notin> set ts" "p \<notin> set xs" using D(3,6) by auto
  show ?case
  proof (cases "p_thread (cbs s p)")
    case None
    obtain s1 ts1 fs1 evs1 where c: "timer_cb call p s = Inr s1" "softirq_timers A s1 xs ts1 fs1 P" "only_sets (set xs) ts fs s ts1 fs1 s1"
        "p \<in> set fs1" "set_events s1 = evs1 @ set_events s" "log (timers.more s1) = log (timers.more s) @ [call_of s p]"
      using timer_cb_called [OF cb Cons.prems None] by blast
    note O = only_setsD [OF c(3)]
    obtain s' ts' fs' evs where IH: "fold (\<lambda>p r. andThen r (timer_cb call p)) xs (Inr s1) = Inr s'" "timer_rep s' ts' fs'" "subseq ts1 ts'"
        "\<forall>i \<in> set ts1. timeout s' i = timeout s1 i" "set fs1 \<union> {i \<in> set xs. p_thread (cbs s1 i) = None} \<subseteq> set ts' \<union> set fs'"
        "poll_lists s' (\<lambda>t. rev (filter (\<lambda>i. p_thread (cbs s1 i) = Some t) xs) @ P t)" "set_events s' = evs @ set_events s1"
        "log (timers.more s') = log (timers.more s1) @ map (call_of s1) (filter (\<lambda>i. p_thread (cbs s1 i) = None) xs)"
      using Cons.IH [OF c(2)] by blast
    have same: "\<And>i. i \<in> set xs \<Longrightarrow> cbs s1 i = cbs s i" by (rule O(3))
    have f: "filter (\<lambda>i. p_thread (cbs s1 i) = u) xs = filter (\<lambda>i. p_thread (cbs s i) = u) xs" for u
      by (rule filter_cong) (simp_all add: same)
    have g: "map (call_of s1) (filter Q xs) = map (call_of s) (filter Q xs)" for Q by (rule map_cong) (auto simp: same)
    have sub: "set ts \<subseteq> set ts1" "set ts1 \<subseteq> set ts'" using O(4) IH(3) by (simp_all add: subseq_set)
    have "subseq ts ts'" using O(4) IH(3) by (rule subseq_order.order_trans)
    moreover have "\<forall>i \<in> set ts. timeout s' i = timeout s i" using O(5) IH(4) sub by auto
    moreover have "{i \<in> set (p # xs). p_thread (cbs s i) = None} \<subseteq> insert p {i \<in> set xs. p_thread (cbs s1 i) = None}" by (auto simp: same)
    then have "set fs \<union> {i \<in> set (p # xs). p_thread (cbs s i) = None} \<subseteq> set ts' \<union> set fs'" using c(4) O(6) IH(5) sub by blast
    moreover have "poll_lists s' (\<lambda>t. rev (filter (\<lambda>i. p_thread (cbs s i) = Some t) (p # xs)) @ P t)" using IH(6) None by (simp add: f)
    moreover have "log (timers.more s') = log (timers.more s) @ map (call_of s) (filter (\<lambda>i. p_thread (cbs s i) = None) (p # xs))"
      using IH(8) c(6) None by (simp add: f g)
    moreover have "set_events s' = (evs @ evs1) @ set_events s" using IH(7) c(5) by simp
    ultimately show ?thesis using IH(1,2) c(1) by (intro exI [of _ s'] exI [of _ ts'] exI [of _ fs'] exI [of _ "evs @ evs1"]) simp
  next
    case (Some t)
    obtain s1 where c: "timer_cb call p s = Inr s1" "softirq_timers A s1 xs ts fs (P(t := p # P t))" "\<And>i. i \<noteq> p \<Longrightarrow> cbs s1 i = cbs s i"
        "set_events s1 = set_events s" "timers.more s1 = timers.more s"
      using timer_cb_polled [OF Cons.prems Some, of call] by blast
    obtain s' ts' fs' evs where IH: "fold (\<lambda>p r. andThen r (timer_cb call p)) xs (Inr s1) = Inr s'" "timer_rep s' ts' fs'" "subseq ts ts'"
        "\<forall>i \<in> set ts. timeout s' i = timeout s1 i" "set fs \<union> {i \<in> set xs. p_thread (cbs s1 i) = None} \<subseteq> set ts' \<union> set fs'"
        "poll_lists s' (\<lambda>u. rev (filter (\<lambda>i. p_thread (cbs s1 i) = Some u) xs) @ (P(t := p # P t)) u)" "set_events s' = evs @ set_events s1"
        "log (timers.more s') = log (timers.more s1) @ map (call_of s1) (filter (\<lambda>i. p_thread (cbs s1 i) = None) xs)"
      using Cons.IH [OF c(2)] by blast
    have same: "cbs s1 i = cbs s i" if "i \<in> set xs" for i using that p(2) by (intro c(3)) auto
    have f: "filter (\<lambda>i. p_thread (cbs s1 i) = u) xs = filter (\<lambda>i. p_thread (cbs s i) = u) xs" for u
      by (rule filter_cong) (simp_all add: same)
    have g: "map (call_of s1) (filter Q xs) = map (call_of s) (filter Q xs)" for Q by (rule map_cong) (auto simp: same)
    have "\<forall>i \<in> set ts. timeout s' i = timeout s i" using IH(4) timeout_cong [OF c(3)] p(1) by metis
    moreover have "{i \<in> set (p # xs). p_thread (cbs s i) = None} = {i \<in> set xs. p_thread (cbs s1 i) = None}" using Some by (auto simp: same)
    moreover have "(\<lambda>u. rev (filter (\<lambda>i. p_thread (cbs s i) = Some u) (p # xs)) @ P u) =
        (\<lambda>u. rev (filter (\<lambda>i. p_thread (cbs s1 i) = Some u) xs) @ (P(t := p # P t)) u)" using Some by (auto simp: f fun_eq_iff)
    moreover have "log (timers.more s') = log (timers.more s) @ map (call_of s) (filter (\<lambda>i. p_thread (cbs s i) = None) (p # xs))"
      using IH(8) c(5) Some by (simp add: f g)
    ultimately show ?thesis using IH(1-3,5-7) c(1,4) by (intro exI [of _ s'] exI [of _ ts'] exI [of _ fs'] exI [of _ evs]) simp
  qed
qed

lemma run_hrtimer_run:
  assumes cb: "timer_callbacks A call log" and rep: "timer_rep st ts fs" and P: "poll_lists st P"
    and A: "set ts \<union> in_polls P \<subseteq> A" "in_polls P \<inter> (set ts \<union> set fs) = {}" and ro: "\<forall>i \<in> set ts. can_poll st i"
    and xs: "xs = take 20 (takeWhile (\<lambda>i. dl st i \<le> uptime) ts)" and rest: "rest = drop (length xs) ts"
  shows "\<exists>st' ts' fs' evs. run_hrtimer_softirq call uptime st = Inr st' \<and> timer_rep st' ts' fs' \<and> subseq rest ts' \<and>
    (\<forall>i \<in> set rest. timeout st' i = timeout st i) \<and> set fs \<union> {i \<in> set xs. \<not> is_poll i st} \<subseteq> set ts' \<union> set fs' \<and>
    poll_lists st' (\<lambda>t. rev (filter (\<lambda>i. p_thread (cbs st i) = Some t) xs) @ P t) \<and>
    log (timers.more st') = log (timers.more st) @ map (call_of st) (filter (\<lambda>i. \<not> is_poll i st) xs) \<and>
    set_events st' = evs @ (if xs = [] \<or> rest = [] then set_events st else (dl st (hd rest) - uptime) # set_events st)"
proof (cases "xs = []")
  case True
  then have "ts = [] \<or> uptime < dl st (hd ts)" using xs by (cases ts) (auto split: if_splits)
  then have "run_hrtimer_softirq call uptime st = Inr st"
    using timer_repD(1) [OF rep] by (cases ts) (auto simp: run_hrtimer_softirq_def)
  with True rest rep P show ?thesis by (intro exI [of _ st] exI [of _ ts] exI [of _ fs] exI [of _ "[]"]) simp
next
  case False
  then obtain h hs where ts: "ts = h # hs" and le: "dl st h \<le> uptime" using xs by (cases ts) (auto split: if_splits)
  note r = timer_repD [OF rep]
  have h: "ptimer st = Some h" using r(1) ts by simp
  define s0 where "s0 = local_irq_disable st"
  have same: "cbs s0 = cbs st" "ptimer s0 = ptimer st" "pfree_timer s0 = pfree_timer st" "set_events s0 = set_events st" "timers.more s0 = timers.more st"
    by (simp_all add: s0_def)
  have rep0: "timer_rep s0 ts fs" using rep unfolding timer_rep_def same .
  have "ptimer s0 = Some h" "dl s0 h \<le> uptime" using h le same by simp_all
  from expire_run [OF rep0 this xs [folded same(1)] rest] obtain s1 where
    e: "expire_timers uptime h s0 = (xs, s1)" "linked (tnext s1) (ptimer s1) rest" "ts = xs @ rest" "cbs s1 = cbs st"
      "pfree_timer s1 = pfree_timer st" "timers.more s1 = timers.more st"
      "set_events s1 = (if rest = [] then set_events st else (dl st (hd rest) - uptime) # set_events st)"
      "threads s1 = threads st" "ro_start s1 = ro_start st" "ro_end s1 = ro_end st"
    unfolding same by (auto simp: s0_def)
  define s2 where "s2 = local_irq_enable s1"
  have s2: "cbs s2 = cbs st" "ptimer s2 = ptimer s1" "pfree_timer s2 = pfree_timer st" "timers.more s2 = timers.more st"
      "set_events s2 = set_events s1" "threads s2 = threads st" "ro_start s2 = ro_start st" "ro_end s2 = ro_end st"
    using e by (simp_all add: s2_def)
  have run: "run_hrtimer_softirq call uptime st = fold (\<lambda>p r. andThen r (timer_cb call p)) xs (Inr s2)"
    using h leD [OF le] e(1) by (simp add: run_hrtimer_softirq_def s0_def s2_def)
  have dist: "distinct xs" "set xs \<inter> (set rest \<union> set fs) = {}" using r(3,6) e(3) by auto
  have "linked (tnext s2) (ptimer s2) rest" "linked (tnext s2) (pfree_timer s2) fs" "sorted_wrt (\<lambda>i j. dl s2 i \<le> dl s2 j) rest"
    using e(2-4) r(2,4) by (simp_all add: s2 sorted_wrt_append)
  then have "timer_rep s2 rest fs" using r(3,5) e(3) by (auto simp: timer_rep_def s2)
  moreover have "poll_lists s2 P" using P by (simp add: poll_lists_def s2)
  moreover have "\<forall>i \<in> set xs. tcount (cbs s2 i) = 1 \<and> can_poll s2 i" using r(5) ro e(3) by (auto simp: can_poll_def s2)
  ultimately have "softirq_timers A s2 xs rest fs P" using dist A e(3) by (auto simp: softirq_timers_def)
  from run_expired [OF cb this, unfolded s2] obtain st' ts' fs' evs where
    f: "fold (\<lambda>p r. andThen r (timer_cb call p)) xs (Inr s2) = Inr st'" "timer_rep st' ts' fs'" "subseq rest ts'"
      "\<forall>i \<in> set rest. timeout st' i = timeout s2 i" "set fs \<union> {i \<in> set xs. p_thread (cbs st i) = None} \<subseteq> set ts' \<union> set fs'"
      "poll_lists st' (\<lambda>t. rev (filter (\<lambda>i. p_thread (cbs st i) = Some t) xs) @ P t)" "set_events st' = evs @ set_events s1"
      "log (timers.more st') = log (timers.more st) @ map (call_of st) (filter (\<lambda>i. p_thread (cbs st i) = None) xs)"
    by blast
  moreover have "timeout s2 i = timeout st i" for i by (rule timeout_cong) (simp add: s2)
  ultimately show ?thesis using run e(7) False
    by (intro exI [of _ st'] exI [of _ ts'] exI [of _ fs'] exI [of _ evs]) (simp add: is_poll_def)
qed

text \<open>
  C26: \<open>run_hrtimer_softirq\<close> takes the timers that have expired, at most 20 of them and those with the earliest deadlines, and
  returns, for callbacks that return, set timers as they like, remove none, and leave alone the timers that are being run and the threads'
  lists of timers to poll. In the order of
  the deadlines, the callback of each timer that is not a poll timer is called exactly once, with its deadline and its
  parameter, and the timer can be used again; each poll timer is put in front of the timers its thread has to poll. The other timers are still
  set to the same deadlines, with the ones the callbacks have set between them in the order of deadlines, and no timer is lost. If any
  was run and timers remain, the clock device is first programmed with the deadline of the next one minus \<open>uptime\<close>.
\<close>

theorem run_hrtimer_softirq_correct:
  assumes "timer_callbacks A call log" and "timer_rep st ts fs" and "poll_lists st P"
    and "set ts \<union> in_polls P \<subseteq> A" and "in_polls P \<inter> (set ts \<union> set fs) = {}" and "\<forall>i \<in> set ts. can_poll st i"
    and "xs = take 20 (takeWhile (\<lambda>i. dl st i \<le> uptime) ts)" and "rest = drop (length xs) ts"
  shows "\<exists>st' ts' fs' evs. run_hrtimer_softirq call uptime st = Inr st' \<and> timer_rep st' ts' fs' \<and> subseq rest ts' \<and>
    (\<forall>i \<in> set rest. timeout st' i = timeout st i) \<and> set fs \<union> {i \<in> set xs. \<not> is_poll i st} \<subseteq> set ts' \<union> set fs' \<and>
    poll_lists st' (\<lambda>t. rev (filter (\<lambda>i. p_thread (cbs st i) = Some t) xs) @ P t) \<and>
    log (timers.more st') = log (timers.more st) @ map (call_of st) (filter (\<lambda>i. \<not> is_poll i st) xs) \<and>
    set_events st' = evs @ (if xs = [] \<or> rest = [] then set_events st else (dl st (hd rest) - uptime) # set_events st)"
  using assms by (rule run_hrtimer_run)

text \<open>
  When the timer after the 20 that are called has expired too, the time until the next event that is
  given to the clock device is negative and wraps around to almost \<open>2^64\<close> nanoseconds.
\<close>

theorem run_hrtimer_softirq_late:
  assumes "timer_callbacks A call log" and "timer_rep st ts fs" and "poll_lists st P"
    and "set ts \<union> in_polls P \<subseteq> A" and "in_polls P \<inter> (set ts \<union> set fs) = {}" and "\<forall>i \<in> set ts. can_poll st i"
    and "length ts > 20" and "\<forall>i \<in> set (take 21 ts). dl st i < uptime"
  shows "\<exists>st' evs d. run_hrtimer_softirq call uptime st = Inr st' \<and> set_events st' = evs @ d # set_events st \<and>
    unat d = 2 ^ 64 - (unat uptime - unat (dl st (ts ! 20)))"
proof -
  define late where "late i \<longleftrightarrow> dl st i \<le> uptime" for i
  have e: "\<forall>i \<in> set (take 21 ts). late i" using assms(8) by (auto simp: late_def)
  have "take 20 (takeWhile late ts) = take 20 ts"
  proof -
    have "takeWhile late ts = take 21 ts @ takeWhile late (drop 21 ts)"
      using e by (metis append_take_drop_id takeWhile_append2)
    then show ?thesis using assms(7) by simp
  qed
  then have xs: "take 20 ts = take 20 (takeWhile (\<lambda>i. dl st i \<le> uptime) ts)" by (simp add: late_def [abs_def])
  have rest: "drop 20 ts = drop (length (take 20 ts)) ts" using assms(7) by simp
  have ne: "take 20 ts \<noteq> []" "drop 20 ts \<noteq> []" using assms(7) by auto
  have hd: "hd (drop 20 ts) = ts ! 20" using assms(7) by (simp add: hd_drop_conv_nth)
  have "ts ! 20 \<in> set (take 21 ts)" using assms(7) by (auto simp: in_set_conv_nth intro!: exI [of _ 20])
  with assms(8) have lt: "dl st (ts ! 20) < uptime" by blast
  have "unat (dl st (ts ! 20) - uptime) = 2 ^ 64 - (unat uptime - unat (dl st (ts ! 20)))"
    using lt ulong_lt_2p64 [of uptime] unfolding word_less_nat_alt
    by (simp add: unat_sub_if')
  moreover obtain st' evs where "run_hrtimer_softirq call uptime st = Inr st'"
      "set_events st' = evs @ (dl st (ts ! 20) - uptime) # set_events st"
    using run_hrtimer_run [OF assms(1-6) xs rest] ne unfolding hd by auto
  ultimately show ?thesis by blast
qed

subsection \<open>Polling\<close>

lemma timer_polls_run:
  assumes cb: "timer_callbacks A call log"
  shows "timer_rep st ts fs \<Longrightarrow> linked (tnext st) p xs \<Longrightarrow> set xs \<subseteq> A \<Longrightarrow> set xs \<inter> (set ts \<union> set fs) = {} \<Longrightarrow>
    \<forall>i \<in> set xs. p_handle (cbs st i) = timeout_poll_handle \<Longrightarrow>
    \<exists>st' ts' fs'. do_poll_head (timer_handle call other) p st = Some (Inr st') \<and> only_sets {} ts fs st ts' fs' st' \<and>
      set xs \<subseteq> set ts' \<union> set fs' \<and> log (timers.more st') = log (timers.more st) @ map (call_of st) xs"
proof (induction xs arbitrary: st ts fs p)
  case Nil
  then show ?case
    by (intro exI [of _ st] exI [of _ ts] exI [of _ fs]) (simp add: do_poll_head.simps only_sets_def)
next
  case (Cons i xs)
  define s0 where "s0 = upd_cb i (\<lambda>c. c\<lparr>p_next := None\<rparr>) st"
  have p: "p = Some i" and lk: "linked (tnext st) (tnext st i) xs" using Cons.prems(2) by auto
  have i: "i \<notin> set xs" "i \<notin> set ts \<union> set fs" using linked_distinct [OF Cons.prems(2)] Cons.prems(4) by auto
  have c0: "cbs s0 j = cbs st j" if "j \<noteq> i" for j using that by (simp add: s0_def)
  have rep0: "timer_rep s0 ts fs" by (rule timer_rep_cong [OF Cons.prems(1)]) (use i c0 in \<open>auto simp: s0_def\<close>)
  have "i \<in> set (i # xs)" by simp
  from called_and_freed [OF cb rep0 Cons.prems(3,4) this] obtain s1 ts1 fs1 where
    c: "andThen (call (callback (cbs s0 i)) (dl s0 i) (tparam (cbs s0 i)) s0) (\<lambda>s1. Inr (free_poll i s1)) = Inr s1"
      "only_sets (set (i # xs) - {i}) ts fs s0 ts1 fs1 s1" "i \<in> set fs1"
      "log (timers.more s1) = log (timers.more s0) @ [(callback (cbs s0 i), dl s0 i, tparam (cbs s0 i))]" by blast
  have X: "set (i # xs) - {i} = set xs" using i(1) by auto
  note O = only_setsD [OF c(2) [unfolded X]]
  have same: "cbs s1 j = cbs st j" if "j \<in> set xs" for j
    using O(3) [OF that] c0 [of j] that i(1) by (cases "j = i") auto
  have step: "do_poll_head (timer_handle call other) p st = do_poll_head (timer_handle call other) (tnext st i) s1"
    using c(1) Cons.prems(5) by (subst do_poll_head.simps) (simp add: p s0_def [symmetric] timer_handle_def timeout_poll_def)
  have "linked (tnext s1) (tnext st i) xs" using lk by (rule linked_cong) (simp add: same)
  moreover have "\<forall>j \<in> set xs. p_handle (cbs s1 j) = timeout_poll_handle" using Cons.prems(5) same by simp
  ultimately obtain st' ts' fs' where
    IH: "do_poll_head (timer_handle call other) (tnext st i) s1 = Some (Inr st')" "only_sets {} ts1 fs1 s1 ts' fs' st'"
      "set xs \<subseteq> set ts' \<union> set fs'" "log (timers.more st') = log (timers.more s1) @ map (call_of s1) xs"
    using Cons.IH [OF O(1) _ _ O(2)] Cons.prems(3) by (meson set_subset_Cons subset_trans)
  have 0: "only_sets (set xs) ts fs st ts fs s0"
    using rep0 Cons.prems(4) i c0 unfolding only_sets_def by (auto simp: s0_def timeout_def)
  have "only_sets {} ts fs st ts' fs' st'"
    using only_sets_trans [OF only_sets_trans [OF 0 c(2) [unfolded X]] IH(2)] by simp
  moreover have "set (i # xs) \<subseteq> set ts' \<union> set fs'" using IH(3) only_setsD(6) [OF IH(2)] c(3) by auto
  moreover have "map (call_of s1) xs = map (call_of st) xs" by (rule map_cong) (simp_all add: same)
  ultimately show ?case using step IH(1,4) c(4) by (intro exI [of _ st'] exI [of _ ts'] exI [of _ fs']) (simp add: s0_def)
qed

text \<open>
  C24: \<open>do_poll_head\<close> on the list of timers a thread has to poll, as \<open>run_hrtimer_softirq\<close> leaves it: it ends, for callbacks that return,
  set timers as they like, remove none, and leave alone the timers still to be polled and the threads' lists of timers to poll. The callback of each timer of the list has been called exactly once,
  in the order of the list, with its deadline and its parameter, although each timer is unlinked and put on the list of unused timers
  while the list is walked. The timers that were set are still set, those of the list can be used again, and none is lost.
\<close>

theorem timer_polls_correct:
  assumes "timer_callbacks A call log" and "timer_rep st ts fs" and "linked (tnext st) p xs" and "set xs \<subseteq> A"
    and "set xs \<inter> (set ts \<union> set fs) = {}" and "\<forall>i \<in> set xs. p_handle (cbs st i) = timeout_poll_handle"
  shows "\<exists>st' ts' fs'. do_poll_head (timer_handle call other) p st = Some (Inr st') \<and> timer_rep st' ts' fs' \<and>
    log (timers.more st') = log (timers.more st) @ map (call_of st) xs \<and>
    subseq ts ts' \<and> (\<forall>i \<in> set ts. timeout st' i = timeout st i) \<and> set fs \<union> set xs \<subseteq> set ts' \<union> set fs'"
proof -
  obtain st' ts' fs' where r: "do_poll_head (timer_handle call other) p st = Some (Inr st')" "only_sets {} ts fs st ts' fs' st'"
      "set xs \<subseteq> set ts' \<union> set fs'" "log (timers.more st') = log (timers.more st) @ map (call_of st) xs"
    using timer_polls_run [OF assms, of other] by blast
  then show ?thesis using only_setsD [OF r(2)] by (intro exI [of _ st'] exI [of _ ts'] exI [of _ fs']) auto
qed

subsection \<open>Callbacks that set themselves again\<close>

text \<open>The calls of any callbacks entered in a log.\<close>

definition logged :: "(nat \<times> ulong \<times> ulong) list callbacks \<Rightarrow> (nat \<times> ulong \<times> ulong) list callbacks" where
  "logged call f d q st = andThen (call f d q st) (\<lambda>s. Inr (timers.more_update (\<lambda>l. l @ [(f, d, q)]) s))"

text \<open>The callbacks of the clock tick, on the boot processor under the name 1.\<close>

definition tick_callbacks :: "ulong \<Rightarrow> ulong \<Rightarrow> 'e callbacks" where
  "tick_callbacks msec uptime f = (if f = 1 then msec_callback f msec uptime None else msec_apcallback f uptime None)"

lemma only_sets_cong:
  assumes "only_sets X ts fs s ts' fs' s1" "ptimer s' = ptimer s1" "pfree_timer s' = pfree_timer s1" "cbs s' = cbs s1" "threads s' = threads s1"
    "ro_start s' = ro_start s1" "ro_end s' = ro_end s1"
  shows "only_sets X ts fs s ts' fs' s'"
  using assms timer_rep_cong [of s1 ts' fs' s'] timeout_cong [of s' _ s1] unfolding only_sets_def by simp

lemma set_again:
  assumes rep: "timer_rep s ts fs" and X: "X \<inter> (set ts \<union> set fs) = {}"
  shows "\<exists>r s' ts' fs' evs. set_timeout_nsec_cb nsec f par uptime None s = Inr (r, s') \<and> only_sets X ts fs s ts' fs' s' \<and>
    set_events s' = evs @ set_events s \<and> timers.more s' = timers.more s"
proof (cases fs)
  case Nil
  then have "set_timeout_nsec_cb nsec f par uptime None s = Inr (ENOMEM, s)"
    using set_timeout_nsec_cb_correct [OF rep, of None nsec f par uptime] by (simp add: own_timer_def)
  moreover have "only_sets X ts fs s ts fs s" using rep X by (simp add: only_sets_def)
  ultimately show ?thesis
    by (intro exI [of _ ENOMEM] exI [of _ s] exI [of _ ts] exI [of _ fs] exI [of _ "[]"]) simp
next
  case (Cons p fs1)
  then have own: "own_timer None fs = Some p" by (simp add: own_timer_def)
  obtain as bs s' where r: "set_timeout None null_handle nsec f par uptime None s = Inr (0, s')" "ts = as @ bs" "timer_rep s' (as @ p # bs) fs1"
      "\<forall>i \<in> set ts. timeout s' i = timeout s i" "\<forall>i. i \<notin> set ts \<and> i \<noteq> p \<longrightarrow> cbs s' i = cbs s i"
      "set_events s' = (if as = [] then nsec # set_events s else set_events s)" "timers.more s' = timers.more s" "threads s' = threads s"
      "ro_start s' = ro_start s" "ro_end s' = ro_end s"
    using set_timeout_run [OF rep own, of None null_handle nsec f par uptime] Cons by auto
  have "subseq ts (as @ p # bs)" using list_emb_append_mono [of "(=)" as as bs "p # bs"] r(2) by (simp add: list_emb_Cons)
  then have "only_sets X ts fs s (as @ p # bs) fs1 s'" using r X Cons unfolding only_sets_def by auto
  then show ?thesis using r(1,6,7)
    by (intro exI [of _ 0] exI [of _ s'] exI [of _ "as @ p # bs"] exI [of _ fs1] exI [of _ "if as = [] then [nsec] else []"])
      (simp add: set_timeout_nsec_cb_def)
qed

lemma tick_timer_callbacks: "timer_callbacks UNIV (logged (tick_callbacks msec uptime)) id"
  unfolding timer_callbacks_def
proof (intro allI impI)
  fix f :: nat and d q :: ulong and s :: "(nat \<times> ulong \<times> ulong) list timers_scheme" and ts fs and X :: "nat set"
  assume rep: "timer_rep s ts fs" and X: "X \<inter> (set ts \<union> set fs) = {}"
  define s0 where "s0 = (if f = 1 then s\<lparr>msec_count := msec\<rparr> else s)"
  have s0: "ptimer s0 = ptimer s" "pfree_timer s0 = pfree_timer s" "cbs s0 = cbs s" "threads s0 = threads s" "ro_start s0 = ro_start s"
      "ro_end s0 = ro_end s" "set_events s0 = set_events s" "timers.more s0 = timers.more s"
    by (simp_all add: s0_def)
  have rep0: "timer_rep s0 ts fs" by (rule timer_rep_cong [OF rep]) (simp_all add: s0)
  obtain r s1 ts' fs' evs where a: "set_timeout_nsec_cb 1000000 f q uptime None s0 = Inr (r, s1)" "only_sets X ts fs s0 ts' fs' s1"
      "set_events s1 = evs @ set_events s0" "timers.more s1 = timers.more s0"
    using set_again [OF rep0 X, of 1000000 f q uptime] by blast
  define s' where "s' = timers.more_update (\<lambda>l. l @ [(f, d, q)]) (run_local_timers s1)"
  have s': "ptimer s' = ptimer s1" "pfree_timer s' = pfree_timer s1" "cbs s' = cbs s1" "threads s' = threads s1" "ro_start s' = ro_start s1"
      "ro_end s' = ro_end s1" "set_events s' = set_events s1" "timers.more s' = timers.more s1 @ [(f, d, q)]"
    by (simp_all add: s'_def)
  have "logged (tick_callbacks msec uptime) f d q s = Inr s'"
    using a(1) by (auto simp: logged_def tick_callbacks_def msec_callback_def msec_apcallback_def s0_def s'_def)
  moreover have "only_sets X ts fs s0 ts' fs' s'" by (rule only_sets_cong [OF a(2) s'(1-6)])
  then have "only_sets X ts fs s ts' fs' s'" using s0 timeout_cong [of s0 _ s] unfolding only_sets_def by simp
  ultimately show "\<exists>s' ts' fs' evs. logged (tick_callbacks msec uptime) f d q s = Inr s' \<and> only_sets X ts fs s ts' fs' s' \<and>
       set_events s' = evs @ set_events s \<and> id (timers.more s') = id (timers.more s) @ [(f, d, q)]"
    using a(3,4) s'(7,8) s0(7,8) by (intro exI [of _ s'] exI [of _ ts'] exI [of _ fs'] exI [of _ evs]) simp
qed

text \<open>A timer manager with the timers from \<open>a\<close> up to \<open>b\<close> set, the deadline of timer \<open>i\<close> being \<open>i\<close>, and the next ones up to \<open>c\<close>
  unused; timer 2 is a poll timer of thread 3. The environment is a log of the calls.\<close>

definition some_timers :: "nat \<Rightarrow> nat \<Rightarrow> nat \<Rightarrow> (nat \<times> ulong \<times> ulong) list timers_scheme" where
  "some_timers a b c = \<lparr>threads = threads three_threads, current = 0, running = 0, reg_rsp = 0, irqs = True, kthread_create_list = 100,
     kthead_create_lock = False, task_threads = (\<lambda>_. 101), tasklock = (\<lambda>_. False), lists = lists three_threads,
     cbs = (\<lambda>i. \<lparr>p_next = if i + 1 = b \<or> i + 1 = c then None else Some (i + 1),
       p_handle = if i = 2 then timeout_poll_handle else null_handle, p_thread = if i = 2 then Some 3 else None, deadline = of_nat i, callback = i, tparam = 7, tcount = 1\<rparr>),
     ro_start = 0, ro_end = 0, stks = stks three_threads, vmem = full_vm,
     softirq_pending = 0, softirq_vec = Some, tasklet_count = - 1, msec_count = 0, taskletd = 1,
     pfree_timer = if b < c then Some b else None, ptimer = if a < b then Some a else None, set_events = [], \<dots> = []\<rparr>"

lemma linked_upt:
  "a < b \<Longrightarrow> (\<And>i. a \<le> i \<Longrightarrow> i < b \<Longrightarrow> nxt i = (if Suc i = b then None else Some (Suc i))) \<Longrightarrow> linked nxt (Some a) [a..<b]"
proof (induction "b - a" arbitrary: a)
  case 0
  then show ?case by simp
next
  case (Suc d)
  show ?case
  proof (cases "Suc a = b")
    case True
    then have "[a..<b] = [a]" by (simp add: upt_conv_Cons)
    with True Suc.prems(2) [of a] show ?thesis by simp
  next
    case False
    with Suc have "linked nxt (Some (Suc a)) [Suc a..<b]" by simp
    with False Suc.prems show ?thesis by (simp add: upt_conv_Cons)
  qed
qed

lemma some_timers_rep:
  assumes "a < b" "b < c" "c < 2 ^ 64" shows "timer_rep (some_timers a b c) [a..<b] [b..<c]"
proof -
  have "linked (tnext (some_timers a b c)) (Some a) [a..<b]" "linked (tnext (some_timers a b c)) (Some b) [b..<c]"
    using assms by (auto intro!: linked_upt simp: some_timers_def)
  moreover have "sorted_wrt (\<lambda>i j. dl (some_timers a b c) i \<le> dl (some_timers a b c) j) [a..<b]"
    using assms by (intro sorted_wrt_mono_rel [OF _ sorted_wrt_upt]) (auto simp: some_timers_def word_le_nat_alt unat_of_nat)
  ultimately show ?thesis using assms by (auto simp: timer_rep_def some_timers_def)
qed

theorem set_timeout_nsec_cb_correct_witness:
  "\<exists>as bs st'. set_timeout_nsec_cb 1 9 0 2 None (some_timers 1 5 8) = Inr (0, st') \<and> [1, 2, 3, 4] = as @ bs \<and> timer_rep st' (as @ 5 # bs) [6, 7]"
proof -
  have l: "[1..<5] = [1, 2, 3, 4::nat]" "[5..<8] = [5, 6, 7::nat]" by (simp_all add: upt_rec)
  have "timer_rep (some_timers 1 5 8) [1, 2, 3, 4] [5, 6, 7]"
    using some_timers_rep [of 1 5 8] unfolding l by simp
  from set_timeout_nsec_cb_correct [OF this, of None 1 9 0 2] show ?thesis
    unfolding own_timer_def list.case option.case list.sel(3) by auto
qed

lemma some_timers_polls:
  "poll_lists (some_timers a b c) (\<lambda>_. [])" "can_poll (some_timers a b c) (Suc i)"
  by (simp_all add: poll_lists_def can_poll_def some_timers_def three_threads_def demo_thread_def)

text \<open>At time 2, the tick is called and sets itself again on timer 5, and timer 2 waits for thread 3.\<close>

theorem run_hrtimer_softirq_correct_witness:
  "\<exists>st' ts' fs'. run_hrtimer_softirq (logged (tick_callbacks 9 3)) 2 (some_timers 1 5 8) = Inr st' \<and> timer_rep st' ts' fs' \<and>
     subseq [3, 4] ts' \<and> timers.more st' = [(1, 1, 7)] \<and> polls (threads st' 3) POLL_LVL_TIMER = Some 2"
proof -
  let ?s = "some_timers 1 5 8"
  have l: "[1..<5] = [1, 2, 3, 4::nat]" "[5..<8] = [5, 6, 7::nat]" by (simp_all add: upt_rec)
  have rep: "timer_rep ?s [1, 2, 3, 4] [5, 6, 7]"
    using some_timers_rep [of 1 5 8] unfolding l by simp
  have ro: "\<forall>i \<in> set [1, 2, 3, 4]. can_poll ?s i"
    using some_timers_polls(2) [of 1 5 8 0] some_timers_polls(2) [of 1 5 8 1] some_timers_polls(2) [of 1 5 8 2] some_timers_polls(2) [of 1 5 8 3]
    by (simp add: eval_nat_numeral)
  have xs: "[1, 2] = take 20 (takeWhile (\<lambda>i. dl ?s i \<le> 2) [1, 2, 3, 4])" by (simp add: some_timers_def)
  have f: "filter (\<lambda>i. \<not> is_poll i ?s) [1, 2] = [1]" "filter (\<lambda>i. p_thread (cbs ?s i) = Some 3) [1, 2] = [2]" "call_of ?s 1 = (1, 1, 7)"
    "timers.more ?s = []" by (simp_all add: is_poll_def some_timers_def)
  obtain st' ts' fs' where r: "run_hrtimer_softirq (logged (tick_callbacks 9 3)) 2 ?s = Inr st'" "timer_rep st' ts' fs'"
      "subseq (drop (length [1, 2 :: nat]) [1, 2, 3, 4]) ts'"
      "poll_lists st' (\<lambda>t. rev (filter (\<lambda>i. p_thread (cbs ?s i) = Some t) [1, 2]) @ [])"
      "id (timers.more st') = id (timers.more ?s) @ map (call_of ?s) (filter (\<lambda>i. \<not> is_poll i ?s) [1, 2])"
    using run_hrtimer_softirq_correct [OF tick_timer_callbacks [of 9 3] rep some_timers_polls(1) _ _ ro xs refl] by auto
  have "linked (tnext st') (polls (threads st' 3) POLL_LVL_TIMER) (rev (filter (\<lambda>i. p_thread (cbs ?s i) = Some 3) [1, 2]) @ [])"
    using r(4) by (simp add: poll_lists_def)
  then have "polls (threads st' 3) POLL_LVL_TIMER = Some 2" unfolding f by simp
  moreover have "timers.more st' = [(1, 1, 7)]" using r(5) f(3) unfolding f(1,4) by simp
  moreover have "subseq [3, 4] ts'" using r(3) by simp
  ultimately show ?thesis using r(1,2) by blast
qed

theorem run_hrtimer_softirq_late_witness:
  "\<exists>st' evs d. run_hrtimer_softirq (logged (tick_callbacks 9 3)) 100 (some_timers 1 30 40) = Inr st' \<and> set_events st' = evs @ [d] \<and>
     unat d = 2 ^ 64 - 79"
proof -
  let ?s = "some_timers 1 30 40"
  have rep: "timer_rep ?s [1..<30] [30..<40]" by (rule some_timers_rep) simp_all
  have ro: "\<forall>i \<in> set [1..<30]. can_poll ?s i"
  proof
    fix i assume "i \<in> set [1..<30]"
    then have "i = Suc (i - 1)" by simp
    then show "can_poll ?s i" using some_timers_polls(2) by metis
  qed
  have len: "length [1..<30] > 20" by simp
  have late: "\<forall>i \<in> set (take 21 [1..<30]). dl ?s i < 100"
    by (auto simp: some_timers_def word_less_nat_alt unat_of_nat dest!: in_set_takeD)
  have "dl ?s ([1..<30] ! 20) = 21" by (simp add: some_timers_def)
  moreover have "set_events ?s = []" by (simp add: some_timers_def)
  ultimately show ?thesis
    using run_hrtimer_softirq_late [OF tick_timer_callbacks [of 9 3] rep some_timers_polls(1) _ _ ro len late] by simp
qed

text \<open>Thread 3 polls two timers; the callback of the first sets itself again.\<close>

definition polled_timers :: "(nat \<times> ulong \<times> ulong) list timers_scheme" where
  "polled_timers = upd_cb 1 (\<lambda>c. c\<lparr>p_next := Some 2, p_handle := timeout_poll_handle\<rparr>) (upd_cb 2 (\<lambda>c. c\<lparr>p_next := None\<rparr>) (some_timers 3 5 8))"

theorem timer_polls_correct_witness:
  "\<exists>st' ts' fs'. do_poll_head (timer_handle (logged (tick_callbacks 9 3)) (\<lambda>_ _. Inr)) (Some 1) polled_timers = Some (Inr st') \<and>
     timer_rep st' ts' fs' \<and> timers.more st' = [(1, 1, 7), (2, 2, 7)] \<and> {1, 2, 5, 6, 7} \<subseteq> set ts' \<union> set fs'"
proof -
  have l: "[3..<5] = [3, 4::nat]" "[5..<8] = [5, 6, 7::nat]" by (simp_all add: upt_rec)
  have "timer_rep (some_timers 3 5 8) [3, 4] [5, 6, 7]" using some_timers_rep [of 3 5 8] unfolding l by simp
  then have rep: "timer_rep polled_timers [3, 4] [5, 6, 7]" by (rule timer_rep_cong) (auto simp: polled_timers_def)
  have lk: "linked (tnext polled_timers) (Some 1) [1, 2]" by (simp add: polled_timers_def)
  have hd: "\<forall>i \<in> set [1, 2]. p_handle (cbs polled_timers i) = timeout_poll_handle" by (simp add: polled_timers_def some_timers_def)
  have c: "map (call_of polled_timers) [1, 2] = [(1, 1, 7), (2, 2, 7)]" "timers.more polled_timers = []"
    by (simp_all add: polled_timers_def some_timers_def)
  from timer_polls_correct [OF tick_timer_callbacks [of 9 3] rep lk _ _ hd, of "\<lambda>_ _. Inr"] show ?thesis unfolding c by auto
qed

end
