(* ===== verification/Mktime.thy ===== *)
theory Mktime
  imports Yaos_Prelude
begin

text \<open>
  Calendar time: \<open>mktime64\<close> of \<open>kernel/timer.c\<close>, which converts a date to seconds since 1970 with one
  closed formula, and its equivalence to counting the days of the years and months before the date.
\<close>

section \<open>Model\<close>

text \<open>Unsigned int arithmetic; the sum of days is widened to 64 bits before it is scaled.\<close>

definition mktime64 :: "u32 \<Rightarrow> u32 \<Rightarrow> u32 \<Rightarrow> u32 \<Rightarrow> u32 \<Rightarrow> u32 \<Rightarrow> ulong" where
  "mktime64 year0 mon0 day hour mn sec =
     (let mon1 = mon0 - 2;
          (mon, year) = (if sint mon1 \<le> 0 then (mon1 + 12, year0 - 1) else (mon1, year0))
      in (((ucast (year div 4 - year div 100 + year div 400 + 367 * mon div 12 + day) + ucast (year * 365) - 719499) * 24
            + ucast hour) * 60 + ucast mn) * 60 + ucast sec)"

section \<open>Reference\<close>

definition leap :: "nat \<Rightarrow> bool" where
  "leap y \<longleftrightarrow> 4 dvd y \<and> \<not> 100 dvd y \<or> 400 dvd y"

definition year_length :: "nat \<Rightarrow> nat" where
  "year_length y = (if leap y then 366 else 365)"

definition month_length :: "nat \<Rightarrow> nat \<Rightarrow> nat" where
  "month_length y m = (if m = 2 then if leap y then 29 else 28 else if m \<in> {4, 6, 9, 11} then 30 else 31)"

text \<open>The days from the first of January 1970 to the given date.\<close>

definition days_since_1970 :: "nat \<Rightarrow> nat \<Rightarrow> nat \<Rightarrow> nat" where
  "days_since_1970 y m d = sum_list (map year_length [1970..<y]) + sum_list (map (month_length y) [1..<m]) + (d - 1)"

section \<open>The formula counts days\<close>

text \<open>The leap years up to and including \<open>n\<close>.\<close>

definition leaps :: "nat \<Rightarrow> nat" where
  "leaps n = n div 4 - n div 100 + n div 400"

lemma div_Suc_dvd: "Suc n div k = n div k + (if k dvd Suc n then 1 else 0)"
  by (simp add: div_Suc dvd_eq_mod_eq_0)

lemma leaps_Suc: "leaps (Suc n) = leaps n + (if leap (Suc n) then 1 else 0)"
proof -
  have "(4::nat) dvd 100" "(100::nat) dvd 400" by simp_all
  then have "400 dvd Suc n \<longrightarrow> 100 dvd Suc n" "100 dvd Suc n \<longrightarrow> 4 dvd Suc n" by (blast intro: dvd_trans)+
  moreover have "n div 100 \<le> n div 4" by (rule div_le_mono2) simp_all
  ultimately show ?thesis
    unfolding leaps_def leap_def div_Suc_dvd
    by (cases "400 dvd Suc n"; cases "100 dvd Suc n"; cases "4 dvd Suc n") (simp_all add: Suc_diff_le)
qed

lemma days_before_year:
  assumes "1970 \<le> y" shows "sum_list (map year_length [1970..<y]) + 719162 = 365 * (y - 1) + leaps (y - 1)"
  using assms
proof (induction y rule: nat_induct_at_least)
  case base
  show ?case by (simp add: leaps_def)
next
  case (Suc y)
  then have "Suc (y - 1) = y" by simp
  with Suc leaps_Suc [of "y - 1"] show ?case by (simp add: year_length_def split: if_splits)
qed

lemma days_before_month:
  assumes "m \<in> {1..12}"
  shows "sum_list (map (month_length y) [1..<m]) + 30 =
    (if m \<le> 2 then 367 * (m + 10) div 12 - 306 else 367 * (m - 2) div 12 + 59 + (if leap y then 1 else 0))"
proof -
  have "m = 1 \<or> m = 2 \<or> m = 3 \<or> m = 4 \<or> m = 5 \<or> m = 6 \<or> m = 7 \<or> m = 8 \<or> m = 9 \<or> m = 10 \<or> m = 11 \<or> m = 12"
    using assms by (simp add: atLeastAtMost_iff) presburger
  then show ?thesis by (elim disjE) (simp_all add: upt_rec month_length_def)
qed

text \<open>The formula on natural numbers: \<open>mon\<close> and \<open>year\<close> count from March.\<close>

lemma formula_counts_days:
  assumes "1970 \<le> y" "m \<in> {1..12}" "1 \<le> d" and yr: "yr = (if m \<le> 2 then y - 1 else y)" and mon: "mon = (if m \<le> 2 then m + 10 else m - 2)"
  shows "leaps yr + 367 * mon div 12 + d + yr * 365 = days_since_1970 y m d + 719499"
proof (cases "m \<le> 2")
  case True
  have "367 * (m + 10) div 12 \<ge> 306" using assms(2) by (auto simp: le_div_geq)
  with True assms days_before_year [OF assms(1)] days_before_month [OF assms(2), of y] show ?thesis
    by (simp add: days_since_1970_def)
next
  case False
  have "Suc (y - 1) = y" using assms(1) by simp
  with leaps_Suc [of "y - 1"] have "leaps y = leaps (y - 1) + (if leap y then 1 else 0)" by simp
  with False assms days_before_year [OF assms(1)] days_before_month [OF assms(2), of y] show ?thesis
    by (simp add: days_since_1970_def split: if_splits)
qed

section \<open>The formula on machine words\<close>

lemma unat_u32_of_nat: "a < 2 ^ 32 \<Longrightarrow> unat (of_nat a :: u32) = a"
  by (simp add: unat_of_nat)

lemma u32_div: "a < 2 ^ 32 \<Longrightarrow> k < 2 ^ 32 \<Longrightarrow> (of_nat a :: u32) div of_nat k = of_nat (a div k)"
proof -
  assume a: "a < 2 ^ 32" and k: "k < 2 ^ 32"
  then have "a div k < 2 ^ 32" using div_le_dividend [of a k] by linarith
  then show ?thesis using a k by (simp only: word_unat_eq_iff unat_div unat_u32_of_nat)
qed

lemma u32_widen: "a < 2 ^ 32 \<Longrightarrow> ucast (of_nat a :: u32) = (of_nat a :: ulong)"
  by (simp add: word_unat_eq_iff unsigned_ucast_eq unat_of_nat take_bit_eq_mod)

lemma mktime64_days:
  assumes m: "m \<in> {1..12}" and y: "1 \<le> y" "y \<le> 9999" and d: "d \<le> 31"
    and yr: "yr = (if m \<le> 2 then y - 1 else y)" and mon: "mon = (if m \<le> 2 then m + 10 else m - 2)"
  shows "mktime64 (of_nat y) (of_nat m) (of_nat d) hour mn sec =
    (((of_nat (leaps yr + 367 * mon div 12 + d + yr * 365) - 719499) * 24 + ucast hour) * 60 + ucast mn) * 60 + ucast sec"
proof -
  have mb: "m = 1 \<or> m = 2 \<or> m = 3 \<or> m = 4 \<or> m = 5 \<or> m = 6 \<or> m = 7 \<or> m = 8 \<or> m = 9 \<or> m = 10 \<or> m = 11 \<or> m = 12"
    using m by (simp add: atLeastAtMost_iff) presburger
  have start: "(if sint (of_nat m - 2 :: u32) \<le> 0 then (of_nat m - 2 + 12, of_nat y - 1) else (of_nat m - 2, of_nat y)) =
      (of_nat mon :: u32, of_nat yr :: u32)"
    using mb y(1) unfolding yr mon by (elim disjE) (simp_all add: of_nat_diff)
  have b: "yr \<le> 9999" "mon \<le> 12" using y m by (auto simp: yr mon)
  then have lim: "yr < 2 ^ 32" "367 * mon < 2 ^ 32" by simp_all
  have le: "yr div 100 \<le> yr div 4" by (rule div_le_mono2) simp_all
  have days: "of_nat yr div 4 - of_nat yr div 100 + of_nat yr div 400 + 367 * of_nat mon div 12 + of_nat d =
      (of_nat (leaps yr + 367 * mon div 12 + d) :: u32)"
    using u32_div [OF lim(1), of 4] u32_div [OF lim(1), of 100] u32_div [OF lim(1), of 400] u32_div [OF lim(2), of 12] le
    by (simp add: leaps_def of_nat_diff)
  have "leaps yr \<le> yr" unfolding leaps_def using div_le_dividend [of yr 4] div_le_mono2 [of 100 400 yr] le by linarith
  moreover have "367 * mon div 12 \<le> 367 * mon" by (rule div_le_dividend)
  ultimately have small: "leaps yr + 367 * mon div 12 + d < 2 ^ 32" "yr * 365 < 2 ^ 32" using b d by simp_all
  have "(of_nat yr :: u32) * 365 = of_nat (yr * 365)" by simp
  then show ?thesis
    unfolding mktime64_def Let_def start prod.case days
    using u32_widen [OF small(1)] u32_widen [OF small(2)] by simp
qed

text \<open>
  C27: For every valid date of the years 1970 to 9999, \<open>mktime64\<close> is the number of seconds since
  the beginning of 1970, counted by the lengths of the years and months before the date.
\<close>

theorem mktime64_equiv:
  assumes "y \<in> {1970..9999}" and "m \<in> {1..12}" and "d \<in> {1..month_length y m}" and "hour < 24" and "mn < 60" and "sec < 60"
  shows "mktime64 (of_nat y) (of_nat m) (of_nat d) (of_nat hour) (of_nat mn) (of_nat sec) =
    of_nat (((days_since_1970 y m d * 24 + hour) * 60 + mn) * 60 + sec)"
proof -
  have d: "1 \<le> d" "d \<le> 31" using assms(3) by (auto simp: month_length_def split: if_splits)
  define yr where "yr = (if m \<le> 2 then y - 1 else y)"
  define mon where "mon = (if m \<le> 2 then m + 10 else m - 2)"
  have y: "1970 \<le> y" "1 \<le> y" "y \<le> 9999" using assms(1) by auto
  have t: "ucast (of_nat hour :: u32) = (of_nat hour :: ulong)" "ucast (of_nat mn :: u32) = (of_nat mn :: ulong)"
      "ucast (of_nat sec :: u32) = (of_nat sec :: ulong)"
    using assms(4-6) by (auto intro!: u32_widen)
  show ?thesis
    unfolding mktime64_days [OF assms(2) y(2,3) d(2) yr_def mon_def] formula_counts_days [OF y(1) assms(2) d(1) yr_def mon_def] t
    by simp
qed

theorem mktime64_equiv_witness:
  "mktime64 2000 3 1 12 0 0 = of_nat (((days_since_1970 2000 3 1 * 24 + 12) * 60 + 0) * 60 + 0)"
  using mktime64_equiv [of 2000 3 1 12 0 0] by (simp add: month_length_def)

end
