(* ===== verification/Tasklet.thy ===== *)
theory Tasklet
  imports Softirq
begin

text \<open>
  Tasklets, \<open>kernel/tasklet.c\<close> and \<open>include/yaos/tasklet.h\<close>: two queues per CPU of functions to be
  called by a soft interrupt. A queue keeps a head pointer and the address of the last \<open>next\<close>
  field, through which a tasklet is appended.
\<close>

section \<open>The contract of a queue\<close>

text \<open>
  What the users of a queue rely on: a new item goes to the end, and taking the items leaves it empty.
\<close>

locale fifo =
  fixes inv :: "'s \<Rightarrow> bool" and items :: "'s \<Rightarrow> 'a list" and enq :: "'a \<Rightarrow> 's \<Rightarrow> 's" and taken :: "'s \<Rightarrow> 's"
  assumes enq_inv: "inv s \<Longrightarrow> x \<notin> set (items s) \<Longrightarrow> inv (enq x s)"
    and enq_items: "inv s \<Longrightarrow> x \<notin> set (items s) \<Longrightarrow> items (enq x s) = items s @ [x]"
    and taken_inv: "inv s \<Longrightarrow> inv (taken s)"
    and taken_items: "inv s \<Longrightarrow> items (taken s) = []"
begin

lemma enq_all: "inv s \<Longrightarrow> distinct (items s @ xs) \<Longrightarrow> inv (fold enq xs s) \<and> items (fold enq xs s) = items s @ xs"
proof (induction xs arbitrary: s)
  case Nil
  then show ?case by simp
next
  case (Cons x xs)
  then have x: "x \<notin> set (items s)" by auto
  from Cons.IH [of "enq x s"] enq_inv [OF Cons.prems(1) x] enq_items [OF Cons.prems(1) x] Cons.prems(2) show ?case by simp
qed

text \<open>Items come out in the order they went in.\<close>

lemma first_in_first_out: "inv s \<Longrightarrow> distinct xs \<Longrightarrow> items (fold enq xs (taken s)) = xs"
  using enq_all [OF taken_inv, of s xs] taken_items [of s] by simp

end

section \<open>Model\<close>

record tasklet_struct =
  t_next :: ptr
  t_state :: ulong
  t_count :: int
  t_func :: nat
  t_data :: ulong

text \<open>\<open>tail\<close> points to \<open>head\<close> itself or to the \<open>next\<close> field of a tasklet.\<close>

datatype tail_ptr = To_head | To_next nat

record tasklet_head =
  head :: ptr
  tail :: tail_ptr

record 'c tasklets = "'c softirq" +
  tasks :: "nat \<Rightarrow> tasklet_struct"
  tasklet_vec :: tasklet_head
  tasklet_hi_vec :: tasklet_head

abbreviation (input) TASKLET_STATE_SCHED :: nat where "TASKLET_STATE_SCHED \<equiv> 0"
abbreviation (input) TASKLET_STATE_RUN :: nat where "TASKLET_STATE_RUN \<equiv> 1"

text \<open>\<open>t->next = NULL; *tail = t; tail = &t->next;\<close>\<close>

definition append_tasklet :: "nat \<Rightarrow> (nat \<Rightarrow> tasklet_struct) \<times> tasklet_head \<Rightarrow> (nat \<Rightarrow> tasklet_struct) \<times> tasklet_head" where
  "append_tasklet t q =
     (let (ts, h) = q;
          ts1 = ts(t := (ts t)\<lparr>t_next := None\<rparr>)
      in case tail h of
           To_head \<Rightarrow> (ts1, h\<lparr>head := Some t, tail := To_next t\<rparr>)
         | To_next k \<Rightarrow> (ts1(k := (ts1 k)\<lparr>t_next := Some t\<rparr>), h\<lparr>tail := To_next t\<rparr>))"

definition empty_head :: "tasklet_head" where
  "empty_head = \<lparr>head = None, tail = To_head\<rparr>"

text \<open>\<open>__tasklet_schedule\<close> and \<open>__tasklet_hi_schedule\<close>, with interrupts off until the flag is restored.\<close>

definition enqueue :: "nat \<Rightarrow> ('c, 'e) tasklets_scheme \<Rightarrow> ('c, 'e) tasklets_scheme" where
  "enqueue t st =
     (let (ts, h) = append_tasklet t (tasks st, tasklet_vec st)
      in raise_softirq_irqoff TASKLET_SOFTIRQ (st\<lparr>tasks := ts, tasklet_vec := h\<rparr>))"

definition hi_enqueue :: "nat \<Rightarrow> ('c, 'e) tasklets_scheme \<Rightarrow> ('c, 'e) tasklets_scheme" where
  "hi_enqueue t st =
     (let (ts, h) = append_tasklet t (tasks st, tasklet_hi_vec st)
      in raise_softirq_irqoff HI_SOFTIRQ (st\<lparr>tasks := ts, tasklet_hi_vec := h\<rparr>))"

text \<open>\<open>__tasklet_hi_schedule_first\<close>: at the front of the queue, \<open>tail\<close> unchanged.\<close>

definition hi_enqueue_first :: "nat \<Rightarrow> ('c, 'e) tasklets_scheme \<Rightarrow> ('c, 'e) tasklets_scheme outcome" where
  "hi_enqueue_first t st =
     andThen (if irqs st then panic else Inr ()) (\<lambda>_.
     Inr (raise_softirq_irqoff HI_SOFTIRQ
       (st\<lparr>tasks := (tasks st)(t := (tasks st t)\<lparr>t_next := head (tasklet_hi_vec st)\<rparr>),
           tasklet_hi_vec := (tasklet_hi_vec st)\<lparr>head := Some t\<rparr>\<rparr>)))"

definition set_state :: "nat \<Rightarrow> ulong \<Rightarrow> ('c, 'e) tasklets_scheme \<Rightarrow> ('c, 'e) tasklets_scheme" where
  "set_state t w st = st\<lparr>tasks := (tasks st)(t := (tasks st t)\<lparr>t_state := w\<rparr>)\<rparr>"

text \<open>\<open>test_and_set_bit(TASKLET_STATE_SCHED, &t->state)\<close> guards each of the three.\<close>

definition tasklet_schedule :: "nat \<Rightarrow> ('c, 'e) tasklets_scheme \<Rightarrow> ('c, 'e) tasklets_scheme" where
  "tasklet_schedule t st =
     (let st1 = set_state t (set_bit TASKLET_STATE_SCHED (t_state (tasks st t))) st
      in if \<not> bit (t_state (tasks st t)) TASKLET_STATE_SCHED then enqueue t st1 else st1)"

definition tasklet_hi_schedule :: "nat \<Rightarrow> ('c, 'e) tasklets_scheme \<Rightarrow> ('c, 'e) tasklets_scheme" where
  "tasklet_hi_schedule t st =
     (let st1 = set_state t (set_bit TASKLET_STATE_SCHED (t_state (tasks st t))) st
      in if \<not> bit (t_state (tasks st t)) TASKLET_STATE_SCHED then hi_enqueue t st1 else st1)"

definition tasklet_hi_schedule_first :: "nat \<Rightarrow> ('c, 'e) tasklets_scheme \<Rightarrow> ('c, 'e) tasklets_scheme outcome" where
  "tasklet_hi_schedule_first t st =
     (let st1 = set_state t (set_bit TASKLET_STATE_SCHED (t_state (tasks st t))) st
      in if \<not> bit (t_state (tasks st t)) TASKLET_STATE_SCHED then hi_enqueue_first t st1 else Inr st1)"

definition tasklet_trylock :: "nat \<Rightarrow> ('c, 'e) tasklets_scheme \<Rightarrow> bool \<times> ('c, 'e) tasklets_scheme" where
  "tasklet_trylock t st =
     (\<not> bit (t_state (tasks st t)) TASKLET_STATE_RUN, set_state t (set_bit TASKLET_STATE_RUN (t_state (tasks st t))) st)"

definition tasklet_unlock :: "nat \<Rightarrow> ('c, 'e) tasklets_scheme \<Rightarrow> ('c, 'e) tasklets_scheme" where
  "tasklet_unlock t st = set_state t (unset_bit TASKLET_STATE_RUN (t_state (tasks st t))) st"

text \<open>\<open>while (test_bit(TASKLET_STATE_RUN, ...)) barrier();\<close>: on one CPU it returns at once or never.\<close>

definition tasklet_unlock_wait :: "nat \<Rightarrow> ('c, 'e) tasklets_scheme \<Rightarrow> unit outcome" where
  "tasklet_unlock_wait t st = (if bit (t_state (tasks st t)) TASKLET_STATE_RUN then Inl Loops_forever else Inr ())"

definition tasklet_disable_nosync :: "nat \<Rightarrow> ('c, 'e) tasklets_scheme \<Rightarrow> ('c, 'e) tasklets_scheme" where
  "tasklet_disable_nosync t st = st\<lparr>tasks := (tasks st)(t := (tasks st t)\<lparr>t_count := t_count (tasks st t) + 1\<rparr>)\<rparr>"

definition tasklet_disable :: "nat \<Rightarrow> ('c, 'e) tasklets_scheme \<Rightarrow> ('c, 'e) tasklets_scheme outcome" where
  "tasklet_disable t st = (let st1 = tasklet_disable_nosync t st in andThen (tasklet_unlock_wait t st1) (\<lambda>_. Inr st1))"

definition tasklet_enable :: "nat \<Rightarrow> ('c, 'e) tasklets_scheme \<Rightarrow> ('c, 'e) tasklets_scheme" where
  "tasklet_enable t st = st\<lparr>tasks := (tasks st)(t := (tasks st t)\<lparr>t_count := t_count (tasks st t) - 1\<rparr>)\<rparr>"

definition tasklet_init :: "nat \<Rightarrow> nat \<Rightarrow> ulong \<Rightarrow> ('c, 'e) tasklets_scheme \<Rightarrow> ('c, 'e) tasklets_scheme" where
  "tasklet_init t f d st = st\<lparr>tasks := (tasks st)(t := \<lparr>t_next = None, t_state = 0, t_count = 0, t_func = f, t_data = d\<rparr>)\<rparr>"

subsection \<open>The soft interrupts\<close>

type_synonym ('c, 'e) tasklet_funcs = "nat \<Rightarrow> ulong \<Rightarrow> ('c, 'e) tasklets_scheme \<Rightarrow> ('c, 'e) tasklets_scheme outcome"

text \<open>
  The body of the loop over the list that was taken: run the tasklet, or put it back if it is being
  run elsewhere or is disabled; \<open>requeue\<close> is the queue it goes back to.
\<close>

definition run_tasklet :: "('c, 'e) tasklet_funcs \<Rightarrow> (nat \<Rightarrow> ('c, 'e) tasklets_scheme \<Rightarrow> ('c, 'e) tasklets_scheme) \<Rightarrow> nat \<Rightarrow>
    ('c, 'e) tasklets_scheme \<Rightarrow> ('c, 'e) tasklets_scheme outcome" where
  "run_tasklet call requeue t st =
     (case tasklet_trylock t st of (locked, st1) \<Rightarrow>
        if locked \<and> t_count (tasks st1 t) = 0
        then let w = t_state (tasks st1 t) in
          if \<not> bit w TASKLET_STATE_SCHED then panic
          else let st2 = set_state t (unset_bit TASKLET_STATE_SCHED w) st1 in
            andThen (call (t_func (tasks st2 t)) (t_data (tasks st2 t)) st2) (\<lambda>st3. Inr (tasklet_unlock t st3))
        else let st2 = (if locked then tasklet_unlock t st1 else st1)
          in Inr (local_irq_enable (requeue t (local_irq_disable st2))))"

partial_function (option) run_tasklets :: "('c, 'e) tasklet_funcs \<Rightarrow> (nat \<Rightarrow> ('c, 'e) tasklets_scheme \<Rightarrow> ('c, 'e) tasklets_scheme) \<Rightarrow> ptr \<Rightarrow>
    ('c, 'e) tasklets_scheme \<Rightarrow> ('c, 'e) tasklets_scheme outcome option" where
  "run_tasklets call requeue p st =
     (case p of None \<Rightarrow> Some (Inr st)
      | Some t \<Rightarrow>
          (case run_tasklet call requeue t st of
             Inl e \<Rightarrow> Some (Inl e)
           | Inr st1 \<Rightarrow> run_tasklets call requeue (t_next (tasks st t)) st1))"

declare run_tasklets.simps [code]


definition tasklet_hi_action :: "('c, 'e) tasklet_funcs \<Rightarrow> ('c, 'e) tasklets_scheme \<Rightarrow> ('c, 'e) tasklets_scheme outcome" where
  "tasklet_hi_action call st =
     andThen (ending (run_tasklets call hi_enqueue (head (tasklet_hi_vec st)) (local_irq_enable (st\<lparr>tasklet_hi_vec := empty_head\<rparr>)))) id"

text \<open>
  \<open>softirq_init\<close> on the boot CPU; \<open>f_action\<close> and \<open>f_hi\<close> are the names of the two actions. The thread \<open>taskletd\<close> is
  registered with \<open>smpboot_register_percpu_thread\<close>, which starts it later.
\<close>

definition softirq_init :: "nat \<Rightarrow> nat \<Rightarrow> ('c, 'e) tasklets_scheme \<Rightarrow> ('c, 'e) tasklets_scheme" where
  "softirq_init f_action f_hi st =
     open_softirq HI_SOFTIRQ f_hi (open_softirq TASKLET_SOFTIRQ f_action
       (st\<lparr>tasklet_vec := (tasklet_vec st)\<lparr>tail := To_head\<rparr>, tasklet_hi_vec := (tasklet_hi_vec st)\<lparr>tail := To_head\<rparr>\<rparr>))"

section \<open>The queues\<close>

text \<open>Functions that change only what is around the tasklets.\<close>

definition outside_funcs :: "(nat \<Rightarrow> ulong \<Rightarrow> 'e \<Rightarrow> 'e) \<Rightarrow> ('c, 'e) tasklet_funcs" where
  "outside_funcs g f d st = Inr (tasklets.more_update (g f d) st)"

definition tq_rep :: "(nat \<Rightarrow> tasklet_struct) \<Rightarrow> tasklet_head \<Rightarrow> nat list \<Rightarrow> bool" where
  "tq_rep ts h xs \<longleftrightarrow> linked (\<lambda>i. t_next (ts i)) (head h) xs \<and> tail h = (if xs = [] then To_head else To_next (last xs))"

definition queued :: "(nat \<Rightarrow> tasklet_struct) \<Rightarrow> tasklet_head \<Rightarrow> nat list" where
  "queued ts h = (case chain (\<lambda>i. t_next (ts i)) (head h) of None \<Rightarrow> [] | Some xs \<Rightarrow> xs)"

lemma queued_rep: "tq_rep ts h xs \<Longrightarrow> queued ts h = xs"
  using chain_linked [of "\<lambda>i. t_next (ts i)" "head h" xs] by (auto simp: tq_rep_def queued_def)

lemma tq_rep_empty: "tq_rep ts empty_head []"
  by (simp add: tq_rep_def empty_head_def)

lemma linked_snoc:
  assumes "linked nxt p xs" "xs \<noteq> []" "t \<notin> set xs"
  shows "linked (nxt(t := None, last xs := Some t)) p (xs @ [t])"
proof -
  have xs: "xs = butlast xs @ last xs # []" using assms(2) by simp
  then have "nxt (last xs) = None" using linked_next_None [OF assms(1)] assms(2) by (simp add: last_in_set)
  moreover have "linked (nxt(t := nxt (last xs), last xs := Some t)) p (butlast xs @ last xs # t # [])"
    using assms(1,3) xs by (intro linked_insert_after) simp_all
  ultimately show ?thesis using xs by (metis append.assoc append_Cons append_Nil)
qed

lemma append_rep:
  assumes "tq_rep ts h xs" "t \<notin> set xs" "append_tasklet t (ts, h) = (ts', h')"
  shows "tq_rep ts' h' (xs @ [t])" "\<And>i. i \<notin> set (t # xs) \<Longrightarrow> ts' i = ts i"
    "\<And>i. t_state (ts' i) = t_state (ts i) \<and> t_count (ts' i) = t_count (ts i) \<and> t_func (ts' i) = t_func (ts i) \<and> t_data (ts' i) = t_data (ts i)"
proof -
  have lk: "linked (\<lambda>i. t_next (ts i)) (head h) xs" using assms(1) by (simp add: tq_rep_def)
  show "tq_rep ts' h' (xs @ [t])"
  proof (cases "xs = []")
    case True
    then show ?thesis using assms by (auto simp: tq_rep_def append_tasklet_def)
  next
    case False
    have r: "ts' = (ts(t := (ts t)\<lparr>t_next := None\<rparr>))(last xs := (ts (last xs))\<lparr>t_next := Some t\<rparr>)" "h' = h\<lparr>tail := To_next t\<rparr>"
      using assms False last_in_set [OF False] by (auto simp: tq_rep_def append_tasklet_def)
    have "(\<lambda>i. t_next (ts' i)) = (\<lambda>i. t_next (ts i))(t := None, last xs := Some t)" by (auto simp: r)
    then show ?thesis using linked_snoc [OF lk False assms(2)] by (simp add: tq_rep_def r)
  qed
  show "ts' i = ts i" if "i \<notin> set (t # xs)" for i
    using assms that last_in_set [of xs] by (auto simp: append_tasklet_def tq_rep_def split: if_splits)
  show "t_state (ts' i) = t_state (ts i) \<and> t_count (ts' i) = t_count (ts i) \<and> t_func (ts' i) = t_func (ts i) \<and> t_data (ts' i) = t_data (ts i)" for i
    using assms(3) by (auto simp: append_tasklet_def Let_def split: tail_ptr.splits)
qed

lemma tasklets_sel [simp]:
  "tasks (local_irq_disable s) = tasks s" "tasks (local_irq_enable s) = tasks s"
  "tasklet_vec (local_irq_disable s) = tasklet_vec s" "tasklet_vec (local_irq_enable s) = tasklet_vec s"
  "tasklet_hi_vec (local_irq_disable s) = tasklet_hi_vec s" "tasklet_hi_vec (local_irq_enable s) = tasklet_hi_vec s"
  "tasklets.more (local_irq_disable s) = tasklets.more s" "tasklets.more (local_irq_enable s) = tasklets.more s"
  "tasks (raise_softirq_irqoff n s) = tasks s" "tasklet_vec (raise_softirq_irqoff n s) = tasklet_vec s"
  "tasklet_hi_vec (raise_softirq_irqoff n s) = tasklet_hi_vec s" "tasklets.more (raise_softirq_irqoff n s) = tasklets.more s"
  by (simp_all add: local_irq_disable_def local_irq_enable_def raise_softirq_irqoff_def)

text \<open>The two queues have the same contract: where the list is, and how a tasklet is appended to it.\<close>

locale tasklet_queue =
  fixes vec :: "('c, 'e) tasklets_scheme \<Rightarrow> tasklet_head" and requeue :: "nat \<Rightarrow> ('c, 'e) tasklets_scheme \<Rightarrow> ('c, 'e) tasklets_scheme"
  assumes back_append: "(tasks (requeue t s), vec (requeue t s)) = append_tasklet t (tasks s, vec s)"
    and back_more: "tasklets.more (requeue t s) = tasklets.more s"
    and vec_tasks: "vec (tasks_update f s) = vec s"
    and vec_irq: "vec (local_irq_disable s) = vec s" "vec (local_irq_enable s) = vec s"
    and vec_more: "vec (tasklets.more_update g s) = vec s"
begin

abbreviation rep :: "('c, 'e) tasklets_scheme \<Rightarrow> nat list \<Rightarrow> bool" where
  "rep s xs \<equiv> tq_rep (tasks s) (vec s) xs"

lemma back_rep:
  assumes "rep s xs" "t \<notin> set xs"
  shows "rep (requeue t s) (xs @ [t])" "\<And>i. i \<notin> set (t # xs) \<Longrightarrow> tasks (requeue t s) i = tasks s i"
    "\<And>i. t_state (tasks (requeue t s) i) = t_state (tasks s i) \<and> t_count (tasks (requeue t s) i) = t_count (tasks s i) \<and>
      t_func (tasks (requeue t s) i) = t_func (tasks s i) \<and> t_data (tasks (requeue t s) i) = t_data (tasks s i)"
  using append_rep [OF assms back_append [symmetric]] by blast+

text \<open>A tasklet that can run: its function is called, and it is then neither scheduled nor running.\<close>

lemma run_enabled:
  assumes "\<not> bit (t_state (tasks s t)) TASKLET_STATE_RUN" "t_count (tasks s t) = 0" "bit (t_state (tasks s t)) TASKLET_STATE_SCHED"
  shows "\<exists>s'. run_tasklet (outside_funcs g) requeue t s = Inr s' \<and> vec s' = vec s \<and>
    tasks s' = (tasks s)(t := (tasks s t)\<lparr>t_state := unset_bit TASKLET_STATE_SCHED (t_state (tasks s t))\<rparr>) \<and>
    tasklets.more s' = g (t_func (tasks s t)) (t_data (tasks s t)) (tasklets.more s)"
proof -
  have "unset_bit 1 (unset_bit 0 (set_bit 1 w)) = unset_bit 0 w" if "\<not> bit w 1" for w :: ulong
    using that by (intro bit_word_eqI) (auto simp: bit_simps)
  moreover have "bit (set_bit 1 w) 0 = bit w 0" for w :: ulong by (simp add: bit_simps)
  ultimately show ?thesis
    using assms by (simp add: run_tasklet_def tasklet_trylock_def tasklet_unlock_def set_state_def outside_funcs_def Let_def vec_tasks vec_more)
qed

text \<open>A tasklet that is disabled goes back to the queue.\<close>

lemma run_disabled:
  assumes "\<not> bit (t_state (tasks s t)) TASKLET_STATE_RUN" "t_count (tasks s t) \<noteq> 0"
  shows "run_tasklet call requeue t s = Inr (local_irq_enable (requeue t (local_irq_disable s)))"
proof -
  have "unset_bit 1 (set_bit 1 w) = w" if "\<not> bit w 1" for w :: ulong
    using that by (intro bit_word_eqI) (auto simp: bit_simps)
  then have "tasklet_unlock t (set_state t (set_bit 1 (t_state (tasks s t))) s) = s"
    using assms(1) by (simp add: tasklet_unlock_def set_state_def)
  then show ?thesis
    using assms by (simp add: run_tasklet_def tasklet_trylock_def Let_def) (simp add: set_state_def)
qed

lemma run_tasklets_outside:
  assumes "linked (\<lambda>i. t_next (tasks s i)) p xs" "rep s ys" "set xs \<inter> set ys = {}"
    "\<forall>t \<in> set xs. \<not> bit (t_state (tasks s t)) TASKLET_STATE_RUN \<and> bit (t_state (tasks s t)) TASKLET_STATE_SCHED"
  shows "\<exists>s'. run_tasklets (outside_funcs g) requeue p s = Some (Inr s') \<and>
    rep s' (ys @ filter (\<lambda>t. t_count (tasks s t) \<noteq> 0) xs) \<and>
    tasklets.more s' = fold (\<lambda>t. g (t_func (tasks s t)) (t_data (tasks s t))) (filter (\<lambda>t. t_count (tasks s t) = 0) xs) (tasklets.more s) \<and>
    (\<forall>t \<in> set xs. bit (t_state (tasks s' t)) TASKLET_STATE_SCHED \<longleftrightarrow> t_count (tasks s t) \<noteq> 0) \<and>
    (\<forall>i. i \<notin> set xs \<longrightarrow> t_state (tasks s' i) = t_state (tasks s i))"
  using assms
proof (induction xs arbitrary: p s ys)
  case Nil
  then show ?case by (auto simp: run_tasklets.simps)
next
  case (Cons t xs)
  have p: "p = Some t" and lk: "linked (\<lambda>i. t_next (tasks s i)) (t_next (tasks s t)) xs" using Cons.prems(1) by auto
  have tx: "t \<notin> set xs" using linked_distinct [OF Cons.prems(1)] by simp
  have t: "\<not> bit (t_state (tasks s t)) 1" "bit (t_state (tasks s t)) 0" using Cons.prems(4) by auto
  define s1 where "s1 = (case run_tasklet (outside_funcs g) requeue t s of Inr s1 \<Rightarrow> s1)"
  define zs where "zs = (if t_count (tasks s t) = 0 then ys else ys @ [t])"
  have step: "run_tasklet (outside_funcs g) requeue t s = Inr s1 \<and> rep s1 zs \<and> (\<forall>i \<in> set xs. tasks s1 i = tasks s i) \<and>
      (\<forall>i. i \<noteq> t \<longrightarrow> t_state (tasks s1 i) = t_state (tasks s i)) \<and>
      (bit (t_state (tasks s1 t)) 0 \<longleftrightarrow> t_count (tasks s t) \<noteq> 0) \<and>
      tasklets.more s1 = (if t_count (tasks s t) = 0 then g (t_func (tasks s t)) (t_data (tasks s t)) (tasklets.more s) else tasklets.more s)"
  proof (cases "t_count (tasks s t) = 0")
    case True
    from run_enabled [OF t(1) True t(2), of g] obtain s' where
      r: "run_tasklet (outside_funcs g) requeue t s = Inr s'" "vec s' = vec s"
        "tasks s' = (tasks s)(t := (tasks s t)\<lparr>t_state := unset_bit 0 (t_state (tasks s t))\<rparr>)"
        "tasklets.more s' = g (t_func (tasks s t)) (t_data (tasks s t)) (tasklets.more s)" by blast
    have "(\<lambda>i. t_next (tasks s' i)) = (\<lambda>i. t_next (tasks s i))" by (auto simp: r(3))
    then have "rep s' ys" using Cons.prems(2) by (simp add: tq_rep_def r(2))
    then show ?thesis using r tx True by (auto simp: s1_def zs_def bit_simps)
  next
    case False
    have "t \<notin> set ys" using Cons.prems(3) by auto
    moreover have "rep (local_irq_disable s) ys" using Cons.prems(2) by (simp add: vec_irq)
    ultimately have b: "rep (requeue t (local_irq_disable s)) (ys @ [t])"
        "\<And>i. i \<notin> set (t # ys) \<Longrightarrow> tasks (requeue t (local_irq_disable s)) i = tasks s i"
        "\<And>i. t_state (tasks (requeue t (local_irq_disable s)) i) = t_state (tasks s i)"
      using back_rep [of "local_irq_disable s" ys t] by auto
    have "s1 = local_irq_enable (requeue t (local_irq_disable s))" using run_disabled [OF t(1) False] by (simp add: s1_def)
    moreover have "\<forall>i \<in> set xs. tasks (requeue t (local_irq_disable s)) i = tasks s i"
    proof
      fix i assume "i \<in> set xs"
      then have "i \<notin> set (t # ys)" using tx Cons.prems(3) by auto
      then show "tasks (requeue t (local_irq_disable s)) i = tasks s i" by (rule b(2))
    qed
    ultimately show ?thesis using run_disabled [OF t(1) False] b(1,3) False t
      by (simp add: zs_def vec_irq back_more)
  qed
  have eq: "\<forall>i \<in> set xs. tasks s1 i = tasks s i" using step by blast
  have l1: "linked (\<lambda>i. t_next (tasks s1 i)) (t_next (tasks s t)) xs" by (rule linked_cong [OF lk]) (simp add: eq)
  have d1: "set xs \<inter> set zs = {}" using Cons.prems(3) tx by (auto simp: zs_def)
  have b1: "\<forall>t \<in> set xs. \<not> bit (t_state (tasks s1 t)) 1 \<and> bit (t_state (tasks s1 t)) 0" using Cons.prems(4) eq by simp
  from Cons.IH [OF l1 _ d1 b1] step obtain s' where
    s': "run_tasklets (outside_funcs g) requeue (t_next (tasks s t)) s1 = Some (Inr s')"
      "rep s' (zs @ filter (\<lambda>t. t_count (tasks s1 t) \<noteq> 0) xs)"
      "tasklets.more s' = fold (\<lambda>t. g (t_func (tasks s1 t)) (t_data (tasks s1 t))) (filter (\<lambda>t. t_count (tasks s1 t) = 0) xs) (tasklets.more s1)"
      "\<forall>t \<in> set xs. bit (t_state (tasks s' t)) 0 \<longleftrightarrow> t_count (tasks s1 t) \<noteq> 0"
      "\<forall>i. i \<notin> set xs \<longrightarrow> t_state (tasks s' i) = t_state (tasks s1 i)" by blast
  have run: "run_tasklets (outside_funcs g) requeue p s = Some (Inr s')"
    using s'(1) step by (subst run_tasklets.simps) (simp add: p)
  have flt: "filter (\<lambda>t. t_count (tasks s1 t) \<noteq> 0) xs = filter (\<lambda>t. t_count (tasks s t) \<noteq> 0) xs"
      "filter (\<lambda>t. t_count (tasks s1 t) = 0) xs = filter (\<lambda>t. t_count (tasks s t) = 0) xs"
    using eq by (simp_all cong: filter_cong)
  have fld: "fold (\<lambda>t. g (t_func (tasks s1 t)) (t_data (tasks s1 t))) ws e = fold (\<lambda>t. g (t_func (tasks s t)) (t_data (tasks s t))) ws e"
    if "set ws \<subseteq> set xs" for ws e using eq that by (intro fold_cong) auto
  have "rep s' (ys @ filter (\<lambda>t. t_count (tasks s t) \<noteq> 0) (t # xs))" using s'(2) unfolding flt zs_def by (simp split: if_splits)
  moreover have "tasklets.more s' = fold (\<lambda>t. g (t_func (tasks s t)) (t_data (tasks s t))) (filter (\<lambda>t. t_count (tasks s t) = 0) (t # xs)) (tasklets.more s)"
    unfolding s'(3) flt using step by (simp add: fld)
  moreover have "\<forall>u \<in> set (t # xs). bit (t_state (tasks s' u)) 0 \<longleftrightarrow> t_count (tasks s u) \<noteq> 0"
    using s'(4,5) step eq tx by auto
  moreover have "\<forall>i. i \<notin> set (t # xs) \<longrightarrow> t_state (tasks s' i) = t_state (tasks s i)"
    using s'(5) step by auto
  ultimately show ?case using run by blast
qed

end

interpretation normal: tasklet_queue tasklet_vec enqueue
  by unfold_locales (simp_all add: enqueue_def split: prod.splits)

interpretation hi: tasklet_queue tasklet_hi_vec hi_enqueue
  by unfold_locales (simp_all add: hi_enqueue_def split: prod.splits)

definition queue_inv :: "('c, 'e) tasklets_scheme \<Rightarrow> bool" where
  "queue_inv s \<longleftrightarrow> (\<exists>xs. tq_rep (tasks s) (tasklet_vec s) xs)"

definition hi_queue_inv :: "('c, 'e) tasklets_scheme \<Rightarrow> bool" where
  "hi_queue_inv s \<longleftrightarrow> (\<exists>xs. tq_rep (tasks s) (tasklet_hi_vec s) xs)"

interpretation normal_fifo: fifo queue_inv "\<lambda>s. queued (tasks s) (tasklet_vec s)" enqueue "\<lambda>s. s\<lparr>tasklet_vec := empty_head\<rparr>"
proof unfold_locales
  fix s :: "('a, 'b) tasklets_scheme" and x
  assume "queue_inv s" "x \<notin> set (queued (tasks s) (tasklet_vec s))"
  then obtain xs where xs: "tq_rep (tasks s) (tasklet_vec s) xs" "x \<notin> set xs" using queued_rep by (auto simp: queue_inv_def)
  from normal.back_rep(1) [OF this] have r: "tq_rep (tasks (enqueue x s)) (tasklet_vec (enqueue x s)) (xs @ [x])" .
  then show "queue_inv (enqueue x s)" by (auto simp: queue_inv_def)
  show "queued (tasks (enqueue x s)) (tasklet_vec (enqueue x s)) = queued (tasks s) (tasklet_vec s) @ [x]"
    by (simp add: queued_rep [OF r] queued_rep [OF xs(1)])
next
  fix s :: "('a, 'b) tasklets_scheme"
  have r: "tq_rep (tasks (s\<lparr>tasklet_vec := empty_head\<rparr>)) (tasklet_vec (s\<lparr>tasklet_vec := empty_head\<rparr>)) []" by (simp add: tq_rep_empty)
  then show "queue_inv (s\<lparr>tasklet_vec := empty_head\<rparr>)" unfolding queue_inv_def by blast
  show "queued (tasks (s\<lparr>tasklet_vec := empty_head\<rparr>)) (tasklet_vec (s\<lparr>tasklet_vec := empty_head\<rparr>)) = []" by (rule queued_rep [OF r])
qed

interpretation hi_fifo: fifo hi_queue_inv "\<lambda>s. queued (tasks s) (tasklet_hi_vec s)" hi_enqueue "\<lambda>s. s\<lparr>tasklet_hi_vec := empty_head\<rparr>"
proof unfold_locales
  fix s :: "('a, 'b) tasklets_scheme" and x
  assume "hi_queue_inv s" "x \<notin> set (queued (tasks s) (tasklet_hi_vec s))"
  then obtain xs where xs: "tq_rep (tasks s) (tasklet_hi_vec s) xs" "x \<notin> set xs" using queued_rep by (auto simp: hi_queue_inv_def)
  from hi.back_rep(1) [OF this] have r: "tq_rep (tasks (hi_enqueue x s)) (tasklet_hi_vec (hi_enqueue x s)) (xs @ [x])" .
  then show "hi_queue_inv (hi_enqueue x s)" by (auto simp: hi_queue_inv_def)
  show "queued (tasks (hi_enqueue x s)) (tasklet_hi_vec (hi_enqueue x s)) = queued (tasks s) (tasklet_hi_vec s) @ [x]"
    by (simp add: queued_rep [OF r] queued_rep [OF xs(1)])
next
  fix s :: "('a, 'b) tasklets_scheme"
  have r: "tq_rep (tasks (s\<lparr>tasklet_hi_vec := empty_head\<rparr>)) (tasklet_hi_vec (s\<lparr>tasklet_hi_vec := empty_head\<rparr>)) []" by (simp add: tq_rep_empty)
  then show "hi_queue_inv (s\<lparr>tasklet_hi_vec := empty_head\<rparr>)" unfolding hi_queue_inv_def by blast
  show "queued (tasks (s\<lparr>tasklet_hi_vec := empty_head\<rparr>)) (tasklet_hi_vec (s\<lparr>tasklet_hi_vec := empty_head\<rparr>)) = []" by (rule queued_rep [OF r])
qed

section \<open>Properties\<close>


text \<open>Scheduling, through the contract of a queue: a tasklet that is not scheduled goes to the end, another one stays where it is.\<close>

lemma tasklet_schedule_queue:
  assumes "queue_inv st" and "t \<notin> set (queued (tasks st) (tasklet_vec st))"
  shows "queued (tasks (tasklet_schedule t st)) (tasklet_vec (tasklet_schedule t st)) =
    queued (tasks st) (tasklet_vec st) @ (if bit (t_state (tasks st t)) TASKLET_STATE_SCHED then [] else [t])"
    and "queue_inv (tasklet_schedule t st)"
proof -
  define s where "s = set_state t (set_bit TASKLET_STATE_SCHED (t_state (tasks st t))) st"
  have nx: "(\<lambda>i. t_next (tasks s i)) = (\<lambda>i. t_next (tasks st i))" "tasklet_vec s = tasklet_vec st" by (auto simp: s_def set_state_def)
  have q: "queued (tasks s) (tasklet_vec s) = queued (tasks st) (tasklet_vec st)" by (simp only: queued_def nx)
  have "queue_inv s" using assms(1) by (simp only: queue_inv_def tq_rep_def nx)
  then show "queued (tasks (tasklet_schedule t st)) (tasklet_vec (tasklet_schedule t st)) =
      queued (tasks st) (tasklet_vec st) @ (if bit (t_state (tasks st t)) TASKLET_STATE_SCHED then [] else [t])"
    "queue_inv (tasklet_schedule t st)"
    using normal_fifo.enq_items [of s t] normal_fifo.enq_inv [of s t] assms(2) q
    by (simp_all add: tasklet_schedule_def s_def [symmetric] Let_def)
qed

text \<open>
  A tasklet that \<open>tasklet_hi_schedule_first\<close> puts in an empty queue is lost when another one
  is scheduled before the soft interrupt has run: \<open>tail\<close> still points to \<open>head\<close>, so the second one replaces the
  first. The first stays marked as scheduled and can never be scheduled again.
\<close>

theorem hi_schedule_first_lost:
  assumes "tasklet_hi_vec st = empty_head" and "\<not> irqs st" and "t \<noteq> u"
    and "\<not> bit (t_state (tasks st t)) TASKLET_STATE_SCHED" and "\<not> bit (t_state (tasks st u)) TASKLET_STATE_SCHED"
  shows "\<exists>st1. tasklet_hi_schedule_first t st = Inr st1 \<and> queued (tasks st1) (tasklet_hi_vec st1) = [t] \<and>
    (let st2 = tasklet_hi_schedule u st1 in queued (tasks st2) (tasklet_hi_vec st2) = [u] \<and>
       bit (t_state (tasks st2 t)) TASKLET_STATE_SCHED)"
proof -
  define ts where "ts = (tasks st)(t := (tasks st t)\<lparr>t_state := set_bit 0 (t_state (tasks st t)), t_next := None\<rparr>)"
  define h where "h = \<lparr>head = Some t, tail = To_head\<rparr>"
  obtain st1 where r: "tasklet_hi_schedule_first t st = Inr st1" "tasks st1 = ts" "tasklet_hi_vec st1 = h"
    using assms by (simp add: tasklet_hi_schedule_first_def hi_enqueue_first_def set_state_def ts_def h_def empty_head_def Let_def)
  have q1: "chain (\<lambda>i. t_next (ts i)) (head h) = Some [t]"
    by (simp add: chain_iff_linked h_def ts_def)
  have "t_state (ts u) = t_state (tasks st u)" using assms(3) by (simp add: ts_def)
  then have nb: "\<not> bit (t_state (ts u)) 0" using assms(5) by simp
  define ts2 where "ts2 = ts(u := (ts u)\<lparr>t_state := set_bit 0 (t_state (ts u)), t_next := None\<rparr>)"
  have r2: "tasks (tasklet_hi_schedule u st1) = ts2" "tasklet_hi_vec (tasklet_hi_schedule u st1) = \<lparr>head = Some u, tail = To_next u\<rparr>"
    using nb by (simp_all add: tasklet_hi_schedule_def hi_enqueue_def append_tasklet_def set_state_def r h_def ts2_def Let_def)
  have q2: "chain (\<lambda>i. t_next (ts2 i)) (Some u) = Some [u]" by (simp add: chain_iff_linked ts2_def)
  have "bit (t_state (ts2 t)) 0" using assms(3) by (simp add: ts2_def ts_def bit_simps)
  then show ?thesis using r r2 q1 q2 by (auto simp: queued_def Let_def)
qed

text \<open>Tasklets 1 and 2 queued, 2 disabled; tasklets 3 and 4 not scheduled.\<close>

definition some_tasklets :: "(unit, nat list) tasklets_scheme" where
  "some_tasklets = \<lparr>threads = threads three_threads, current = 0, running = 0, reg_rsp = 0, irqs = False, kthread_create_list = 100,
     kthead_create_lock = False, task_threads = (\<lambda>_. 101), tasklock = (\<lambda>_. False), lists = lists three_threads,
     cbs = cbs three_threads, ro_start = 0, ro_end = 0, stks = stks three_threads, vmem = full_vm,
     softirq_pending = 0x40, softirq_vec = Some, tasklet_count = - 1, msec_count = 0, taskletd = 1,
     tasks = (\<lambda>i. \<lparr>t_next = if i = 1 then Some 2 else None, t_state = if i \<le> 2 then 1 else 0, t_count = if i = 2 then 1 else 0, t_func = i, t_data = 0\<rparr>),
     tasklet_vec = \<lparr>head = Some 1, tail = To_next 2\<rparr>, tasklet_hi_vec = empty_head, \<dots> = []\<rparr>"


theorem hi_schedule_first_lost_witness:
  "\<exists>st1. tasklet_hi_schedule_first 3 some_tasklets = Inr st1 \<and>
    queued (tasks (tasklet_hi_schedule 4 st1)) (tasklet_hi_vec (tasklet_hi_schedule 4 st1)) = [4]"
  using hi_schedule_first_lost [of some_tasklets 3 4] by (auto simp: some_tasklets_def Let_def)

end
