(* ===== verification/Yaos_Page.thy ===== *)
theory Yaos_Page
  imports Vm
begin

text \<open>
  The call table of the kernel and the calls for memory: \<open>kernel/yaoscall.c\<close>,
  \<open>kernel/yaos_page.c\<close> and the wrappers of \<open>include/yaoscall/page.h\<close>. Modules reach
  the allocators of the kernel through a table of function pointers at a fixed address.
\<close>

section \<open>The call table\<close>

text \<open>\<open>ret_t\<close>: a value in \<open>rax\<close> and an error number in \<open>rdx\<close>.\<close>

record ret_t =
  rv :: ulong
  re :: int

abbreviation (input) ERR_YAOSCALL_NONE_EXIST :: int where "ERR_YAOSCALL_NONE_EXIST \<equiv> -1"
abbreviation (input) ERR_YAOSCALL_NO_MEM :: int where "ERR_YAOSCALL_NO_MEM \<equiv> -2"
abbreviation (input) YAOSCALL_OK :: int where "YAOSCALL_OK \<equiv> 0"

datatype yaoscall_id = YAOS_yaoscall | YAOS_page_alloc | YAOS_page_free | YAOS_heap_alloc | YAOS_heap_free
  | YAOS_malloc | YAOS_mfree | YAOS_max_physical_mem | YAOS_alloc_at | YAOS_free_at | YAOS_map_p2v
  | YAOS_map_flags_at | YAOS_map_copy | YAOS_alloc_linear | YAOS_free_linear | YAOS_readv | YAOS_writev
  | YAOS_lseek | YAOS_lua_modules_init | YAOS_v2p | YAOS_unmap_at

text \<open>
  The functions a slot of the table may hold: those of the kernel, those of the module
  \<open>slub_mm\<close>, and those of other modules.
\<close>

datatype yaoscall_t = dummy | dummy1 | f_heap_alloc_4k | f_heap_free_4k | f_page_alloc | f_page_free
  | f_max_phymem | f_map_p2v | f_alloc_linear | f_free_linear | f_alloc_at | f_free_at | f_copy_map | f_v2p
  | f_map_flags_at | f_unmap_at | f_slub_malloc | f_slub_mfree | f_module nat

record yaos =
  sysvm :: vm
  yaoscall_table :: "yaoscall_id \<Rightarrow> yaoscall_t"

definition regist_yaoscall :: "yaoscall_id \<Rightarrow> yaoscall_t \<Rightarrow> 'e yaos_scheme \<Rightarrow> 'e yaos_scheme" where
  "regist_yaoscall i f st = st\<lparr>yaoscall_table := (yaoscall_table st)(i := f)\<rparr>"

definition yaoscall_p :: "yaoscall_id \<Rightarrow> 'e yaos_scheme \<Rightarrow> yaoscall_t" where
  "yaoscall_p i st = yaoscall_table st i"

definition dummy_call :: "ret_t" where
  "dummy_call = \<lparr>rv = 0, re = ERR_YAOSCALL_NONE_EXIST\<rparr>"

text \<open>
  The entries that \<open>DECLARE_YAOSCALL\<close> collects in the section \<open>.yaoscall_data\<close>, those of
  \<open>yaoscall.c\<close> and those of \<open>yaos_page.c\<close>. The linker may place entries of other files
  around them.
\<close>

type_synonym yaoscall_st = "yaoscall_id \<times> yaoscall_t"

definition yaoscall_data :: "yaoscall_st list" where
  "yaoscall_data = [(YAOS_yaoscall, dummy1), (YAOS_yaoscall, dummy)]"

definition page_data :: "yaoscall_st list" where
  "page_data =
     [(YAOS_heap_alloc, f_heap_alloc_4k), (YAOS_heap_free, f_heap_free_4k), (YAOS_page_alloc, f_page_alloc),
      (YAOS_page_free, f_page_free), (YAOS_max_physical_mem, f_max_phymem), (YAOS_map_p2v, f_map_p2v),
      (YAOS_alloc_linear, f_alloc_linear), (YAOS_free_linear, f_free_linear), (YAOS_alloc_at, f_alloc_at),
      (YAOS_free_at, f_free_at), (YAOS_map_copy, f_copy_map), (YAOS_v2p, f_v2p),
      (YAOS_map_flags_at, f_map_flags_at), (YAOS_unmap_at, f_unmap_at)]"

text \<open>The loop over the section: \<open>pyaoscall_table[p->id] = p->func\<close>, entry after entry.\<close>

primrec regist_all :: "yaoscall_st list \<Rightarrow> 'e yaos_scheme \<Rightarrow> 'e yaos_scheme" where
  "regist_all [] st = st"
| "regist_all (p # ps) st = regist_all ps (regist_yaoscall (fst p) (snd p) st)"

definition init_yaoscall :: "bool \<Rightarrow> yaoscall_st list \<Rightarrow> 'e yaos_scheme \<Rightarrow> int \<times> 'e yaos_scheme" where
  "init_yaoscall isbp sect st =
     (if \<not> isbp then (0, st) else (0, regist_all sect (st\<lparr>yaoscall_table := (\<lambda>_. dummy)\<rparr>)))"

section \<open>The calls of \<open>yaos_page.c\<close>\<close>

definition put_phys :: "phys \<Rightarrow> vm \<Rightarrow> vm" where
  "put_phys p st = st\<lparr>pg := (pg st)\<lparr>physm := p\<rparr>\<rparr>"

definition max_phymem :: "vm \<Rightarrow> ret_t" where
  "max_phymem st = \<lparr>rv = max_phy_mem_addr (pmem (physm (pg st))), re = YAOSCALL_OK\<rparr>"

definition heap_alloc_4k :: "ulong \<Rightarrow> vm \<Rightarrow> (ret_t \<times> vm) outcome" where
  "heap_alloc_4k sz st =
     andThen (ASSERT (sz AND 0xfff = 0)) (\<lambda>_.
     andThen (alloc_phy_page_small sz (physm (pg st))) (\<lambda>(a, p).
     Inr (\<lparr>rv = P2V a, re = 0\<rparr>, put_phys p st)))"

definition heap_free_4k :: "ulong \<Rightarrow> ulong \<Rightarrow> vm \<Rightarrow> (ret_t \<times> vm) outcome" where
  "heap_free_4k addr sz st =
     andThen (ASSERT (sz AND 0xfff = 0 \<and> addr AND 0xfff = 0)) (\<lambda>_.
     andThen (V2P addr) (\<lambda>a.
     andThen (free_phy_page_small a sz (physm (pg st))) (\<lambda>p.
     Inr (\<lparr>rv = 0, re = 0\<rparr>, put_phys p st))))"

definition page_alloc :: "ulong \<Rightarrow> vm \<Rightarrow> (ret_t \<times> vm) outcome" where
  "page_alloc sz st =
     andThen (ASSERT (sz = PAGE_SIZE_LARGE)) (\<lambda>_.
     andThen (alloc_phy_page (pmem (physm (pg st)))) (\<lambda>(a, pm).
     Inr (\<lparr>rv = a, re = (if a = 0 then ERR_YAOSCALL_NO_MEM else YAOSCALL_OK)\<rparr>,
       put_phys ((physm (pg st))\<lparr>pmem := pm\<rparr>) st)))"

definition page_free :: "ulong \<Rightarrow> ulong \<Rightarrow> vm \<Rightarrow> (ret_t \<times> vm) outcome" where
  "page_free addr sz st =
     andThen (free_phy_pages addr sz (pmem (physm (pg st)))) (\<lambda>pm.
     Inr (\<lparr>rv = 0, re = 0\<rparr>, put_phys ((physm (pg st))\<lparr>pmem := pm\<rparr>) st))"

text \<open>The numbers of the zones; \<open>get_zone\<close> panics on any other.\<close>

definition zone_of_id :: "ulong \<Rightarrow> vm_zone_t outcome" where
  "zone_of_id i = (if i = 1 then Inr VM_ZONE_VMALLOC else if i = 2 then Inr VM_ZONE_KERNEL_STACK
     else if i = 3 then Inr VM_ZONE_LOW_MMAP else if i = 4 then Inr VM_ZONE_KERNEL_BELOW1G else panic)"

definition s_alloc_linear :: "ulong \<Rightarrow> ulong \<Rightarrow> ulong \<Rightarrow> vm \<Rightarrow> (ret_t \<times> vm) outcome" where
  "s_alloc_linear i addr sz st =
     andThen (zone_of_id i) (\<lambda>zid.
     andThen (alloc_linear_at zid addr sz (vz st)) (\<lambda>(a, z).
     Inr (\<lparr>rv = a, re = (if a = 0 then ERR_YAOSCALL_NO_MEM else YAOSCALL_OK)\<rparr>, st\<lparr>vz := z\<rparr>)))"

definition s_free_linear :: "ulong \<Rightarrow> ulong \<Rightarrow> ulong \<Rightarrow> vm \<Rightarrow> (ret_t \<times> vm) outcome" where
  "s_free_linear i addr sz st =
     (if addr AND (PAGE_SIZE_LARGE - 1) \<noteq> 0 then Inr (\<lparr>rv = 0, re = 0\<rparr>, st)
      else andThen (zone_of_id i) (\<lambda>zid.
        andThen (free_linear zid addr sz (vz st)) (\<lambda>z. Inr (\<lparr>rv = 0, re = 0\<rparr>, st\<lparr>vz := z\<rparr>))))"

definition s_alloc_at :: "ulong \<Rightarrow> ulong \<Rightarrow> ulong \<Rightarrow> vm \<Rightarrow> (ret_t \<times> vm) outcome" where
  "s_alloc_at addr sz flag st =
     (if addr = 0 then Inr (\<lparr>rv = 0, re = EINVAL\<rparr>, st)
      else andThen (map_alloc_at addr sz flag (pg st)) (\<lambda>(e, g). Inr (\<lparr>rv = 0, re = e\<rparr>, st\<lparr>pg := g\<rparr>)))"

definition s_free_at :: "ulong \<Rightarrow> ulong \<Rightarrow> vm \<Rightarrow> (ret_t \<times> vm) outcome" where
  "s_free_at addr sz st =
     andThen (unmap_free_at addr sz (pg st)) (\<lambda>g. Inr (\<lparr>rv = 0, re = 0\<rparr>, st\<lparr>pg := g\<rparr>))"

definition s_unmap_at :: "ulong \<Rightarrow> ulong \<Rightarrow> vm \<Rightarrow> (ret_t \<times> vm) outcome" where
  "s_unmap_at addr sz st =
     andThen (unmap_at addr sz (pg st)) (\<lambda>g. Inr (\<lparr>rv = 0, re = 0\<rparr>, st\<lparr>pg := g\<rparr>))"

definition s_map_p2v :: "ulong \<Rightarrow> ulong \<Rightarrow> ulong \<Rightarrow> ulong \<Rightarrow> vm \<Rightarrow> (ret_t \<times> vm) outcome" where
  "s_map_p2v paddr vaddr sz flag st =
     andThen (map_p2v paddr vaddr sz flag (pg st)) (\<lambda>(e, g). Inr (\<lparr>rv = 0, re = e\<rparr>, st\<lparr>pg := g\<rparr>))"

text \<open>Three calls do not return a \<open>ret_t\<close> but an \<open>int\<close> or an \<open>ulong\<close>.\<close>

definition s_copy_map :: "ulong \<Rightarrow> ulong \<Rightarrow> ulong \<Rightarrow> vm \<Rightarrow> (int \<times> vm) outcome" where
  "s_copy_map vaddr old sz st =
     andThen (map_copy_map vaddr old sz (pg st)) (\<lambda>(e, g). Inr (e, st\<lparr>pg := g\<rparr>))"

definition s_v2p :: "ulong \<Rightarrow> vm \<Rightarrow> int" where
  "s_v2p addr st = sint (ucast (fst (map_paddr_flags_at addr (pg st))) :: u32)"

definition s_map_flags_at :: "ulong \<Rightarrow> vm \<Rightarrow> ulong" where
  "s_map_flags_at addr st = snd (map_paddr_flags_at addr (pg st))"

section \<open>A call through the table\<close>

text \<open>
  The caller passes its arguments in registers and reads \<open>rax\<close> and \<open>rdx\<close>; it casts the
  pointer, so nothing checks that the function has the type it is called with. \<open>junk\<close> is
  what is in a register that nobody has set: an argument that was not passed, the upper half
  of \<open>rax\<close> after an \<open>int\<close>, and \<open>rdx\<close> after a function that returns one value.
\<close>

definition int_result :: "ulong \<Rightarrow> int \<Rightarrow> ret_t" where
  "int_result junk i = \<lparr>rv = (junk AND NOT 0xffffffff) OR (of_int i AND 0xffffffff), re = sint junk\<rparr>"

definition arg_reg :: "ulong \<Rightarrow> ulong list \<Rightarrow> nat \<Rightarrow> ulong" where
  "arg_reg junk args k = (if k < length args then args ! k else junk)"

definition page_call :: "ulong \<Rightarrow> yaoscall_t \<Rightarrow> ulong list \<Rightarrow> vm \<Rightarrow> (ret_t \<times> vm) outcome" where
  "page_call junk f args st =
     (let a = arg_reg junk args in
      case f of
        dummy \<Rightarrow> Inr (dummy_call, st)
      | dummy1 \<Rightarrow> Inr (dummy_call, st)
      | f_heap_alloc_4k \<Rightarrow> heap_alloc_4k (a 0) st
      | f_heap_free_4k \<Rightarrow> heap_free_4k (a 0) (a 1) st
      | f_page_alloc \<Rightarrow> page_alloc (a 0) st
      | f_page_free \<Rightarrow> page_free (a 0) (a 1) st
      | f_max_phymem \<Rightarrow> Inr (max_phymem st, st)
      | f_map_p2v \<Rightarrow> s_map_p2v (a 0) (a 1) (a 2) (a 3) st
      | f_alloc_linear \<Rightarrow> s_alloc_linear (a 0) (a 1) (a 2) st
      | f_free_linear \<Rightarrow> s_free_linear (a 0) (a 1) (a 2) st
      | f_alloc_at \<Rightarrow> s_alloc_at (a 0) (a 1) (a 2) st
      | f_free_at \<Rightarrow> s_free_at (a 0) (a 1) st
      | f_copy_map \<Rightarrow> andThen (s_copy_map (a 0) (a 1) (a 2) st) (\<lambda>(e, st1). Inr (int_result junk e, st1))
      | f_v2p \<Rightarrow> Inr (int_result junk (s_v2p (a 0) st), st)
      | f_map_flags_at \<Rightarrow> Inr (\<lparr>rv = s_map_flags_at (a 0) st, re = sint junk\<rparr>, st)
      | f_unmap_at \<Rightarrow> s_unmap_at (a 0) (a 1) st
      | f_slub_malloc \<Rightarrow> Inl Wild_call
      | f_slub_mfree \<Rightarrow> Inl Wild_call
      | f_module n \<Rightarrow> Inl Wild_call)"

definition yaoscall :: "ulong \<Rightarrow> yaoscall_id \<Rightarrow> ulong list \<Rightarrow> 'e yaos_scheme \<Rightarrow> (ret_t \<times> 'e yaos_scheme) outcome" where
  "yaoscall junk i args st =
     andThen (page_call junk (yaoscall_p i st) args (sysvm st)) (\<lambda>(r, s). Inr (r, st\<lparr>sysvm := s\<rparr>))"

section \<open>The wrappers of \<open>page.h\<close>\<close>

definition get_vm_zone_from_addr :: "ulong \<Rightarrow> ulong" where
  "get_vm_zone_from_addr addr =
     (if addr \<ge> VMALLOC_START \<and> addr \<le> VMALLOC_END then 1
      else if addr \<ge> LOW_MMAP_START \<and> addr \<le> LOW_MMAP_END then 3
      else if addr \<ge> KERNEL_BELOW_1G_START then 4
      else 0)"

definition yaos_p2v :: "ulong \<Rightarrow> ulong" where
  "yaos_p2v p = P2V p"

definition yaos_v2p :: "ulong \<Rightarrow> ulong \<Rightarrow> 'e yaos_scheme \<Rightarrow> (ulong \<times> 'e yaos_scheme) outcome" where
  "yaos_v2p junk addr st =
     (if addr > KERNEL_BASE then Inr (K2P addr, st)
      else if addr \<ge> PHYS_VIRT_START \<and> addr \<le> PHYS_VIRT_END then andThen (V2P addr) (\<lambda>a. Inr (a, st))
      else andThen (yaoscall junk YAOS_v2p [addr] st) (\<lambda>(r, st1). Inr (rv r, st1)))"

definition yaos_heap_alloc_4k :: "ulong \<Rightarrow> ulong \<Rightarrow> 'e yaos_scheme \<Rightarrow> (ulong \<times> 'e yaos_scheme) outcome" where
  "yaos_heap_alloc_4k junk sz st = andThen (yaoscall junk YAOS_heap_alloc [sz] st) (\<lambda>(r, st1). Inr (rv r, st1))"

definition yaos_heap_free_4k :: "ulong \<Rightarrow> ulong \<Rightarrow> ulong \<Rightarrow> 'e yaos_scheme \<Rightarrow> 'e yaos_scheme outcome" where
  "yaos_heap_free_4k junk addr sz st = andThen (yaoscall junk YAOS_heap_free [addr, sz] st) (\<lambda>(r, st1). Inr st1)"

definition yaos_page_alloc :: "ulong \<Rightarrow> ulong \<Rightarrow> 'e yaos_scheme \<Rightarrow> (ulong \<times> 'e yaos_scheme) outcome" where
  "yaos_page_alloc junk sz st = andThen (yaoscall junk YAOS_page_alloc [sz] st) (\<lambda>(r, st1). Inr (rv r, st1))"

definition yaos_alloc_linear_at :: "ulong \<Rightarrow> ulong \<Rightarrow> ulong \<Rightarrow> ulong \<Rightarrow> 'e yaos_scheme \<Rightarrow> (ulong \<times> 'e yaos_scheme) outcome" where
  "yaos_alloc_linear_at junk i addr sz st =
     andThen (yaoscall junk YAOS_alloc_linear [i, addr, sz] st) (\<lambda>(r, st1). Inr (rv r, st1))"

definition yaos_alloc_linear :: "ulong \<Rightarrow> ulong \<Rightarrow> ulong \<Rightarrow> 'e yaos_scheme \<Rightarrow> (ulong \<times> 'e yaos_scheme) outcome" where
  "yaos_alloc_linear junk i sz st =
     andThen (yaoscall junk YAOS_alloc_linear [i, 0, sz] st) (\<lambda>(r, st1). Inr (rv r, st1))"

definition yaos_alloc_linear_hint :: "ulong \<Rightarrow> ulong \<Rightarrow> ulong \<Rightarrow> 'e yaos_scheme \<Rightarrow> (ulong \<times> 'e yaos_scheme) outcome" where
  "yaos_alloc_linear_hint junk addr sz st =
     (let i = get_vm_zone_from_addr addr in
      if i = 0 then Inr (0, st) else yaos_alloc_linear_at junk i addr sz st)"

definition yaos_map_p2v :: "ulong \<Rightarrow> ulong \<Rightarrow> ulong \<Rightarrow> ulong \<Rightarrow> ulong \<Rightarrow> 'e yaos_scheme \<Rightarrow> (ret_t \<times> 'e yaos_scheme) outcome" where
  "yaos_map_p2v junk paddr addr sz flag st = yaoscall junk YAOS_map_p2v [paddr, addr, sz, flag] st"

definition yaos_alloc_at :: "ulong \<Rightarrow> ulong \<Rightarrow> ulong \<Rightarrow> ulong \<Rightarrow> 'e yaos_scheme \<Rightarrow> (ret_t \<times> 'e yaos_scheme) outcome" where
  "yaos_alloc_at junk addr sz flag st = yaoscall junk YAOS_alloc_at [addr, sz, flag] st"

definition yaos_free_at :: "ulong \<Rightarrow> ulong \<Rightarrow> ulong \<Rightarrow> 'e yaos_scheme \<Rightarrow> (ret_t \<times> 'e yaos_scheme) outcome" where
  "yaos_free_at junk addr sz st = yaoscall junk YAOS_free_at [addr, sz] st"

definition yaos_map_flags_at :: "ulong \<Rightarrow> ulong \<Rightarrow> 'e yaos_scheme \<Rightarrow> (ulong \<times> 'e yaos_scheme) outcome" where
  "yaos_map_flags_at junk addr st =
     andThen (yaoscall junk YAOS_map_flags_at [addr] st) (\<lambda>(r, st1). Inr (rv r, st1))"

definition yaos_free_linear :: "ulong \<Rightarrow> ulong \<Rightarrow> ulong \<Rightarrow> ulong \<Rightarrow> 'e yaos_scheme \<Rightarrow> (ret_t \<times> 'e yaos_scheme) outcome" where
  "yaos_free_linear junk i addr sz st = yaoscall junk YAOS_free_linear [i, addr, sz] st"

definition yaos_free_linear_low_mmap :: "ulong \<Rightarrow> ulong \<Rightarrow> ulong \<Rightarrow> 'e yaos_scheme \<Rightarrow> (ret_t \<times> 'e yaos_scheme) outcome" where
  "yaos_free_linear_low_mmap junk addr sz st = yaos_free_linear junk 3 addr sz st"

definition yaos_alloc_linear_low_mmap :: "ulong \<Rightarrow> ulong \<Rightarrow> ulong \<Rightarrow> 'e yaos_scheme \<Rightarrow> (ulong \<times> 'e yaos_scheme) outcome" where
  "yaos_alloc_linear_low_mmap junk addr sz st = yaos_alloc_linear_at junk 3 addr sz st"

definition yaos_free_linear_hint :: "ulong \<Rightarrow> ulong \<Rightarrow> ulong \<Rightarrow> 'e yaos_scheme \<Rightarrow> (ret_t \<times> 'e yaos_scheme) outcome" where
  "yaos_free_linear_hint junk addr sz st =
     (let i = get_vm_zone_from_addr addr in
      andThen (ASSERT (i \<noteq> 0)) (\<lambda>_. yaos_free_linear junk i addr sz st))"

text \<open>The two steps of giving up a mapped range: take the pages away, then the addresses.\<close>

definition unmap_then_free :: "yaoscall_id \<Rightarrow> ulong \<Rightarrow> ulong \<Rightarrow> ulong \<Rightarrow> ulong \<Rightarrow> 'e yaos_scheme \<Rightarrow> (ret_t \<times> 'e yaos_scheme) outcome" where
  "unmap_then_free call junk i addr sz st =
     andThen (yaoscall junk call [addr, sz] st) (\<lambda>(r, st1).
     if re r \<noteq> OK then Inr (r, st1) else yaos_free_linear junk i addr sz st1)"

definition yaos_vm_unmap_low_mmap :: "ulong \<Rightarrow> ulong \<Rightarrow> ulong \<Rightarrow> 'e yaos_scheme \<Rightarrow> (ret_t \<times> 'e yaos_scheme) outcome" where
  "yaos_vm_unmap_low_mmap junk addr sz st = unmap_then_free YAOS_unmap_at junk 3 addr sz st"

definition yaos_vm_free_low_mmap :: "ulong \<Rightarrow> ulong \<Rightarrow> ulong \<Rightarrow> 'e yaos_scheme \<Rightarrow> (ret_t \<times> 'e yaos_scheme) outcome" where
  "yaos_vm_free_low_mmap junk addr sz st = unmap_then_free YAOS_free_at junk 3 addr sz st"

definition yaos_vm_free_hint :: "ulong \<Rightarrow> ulong \<Rightarrow> ulong \<Rightarrow> 'e yaos_scheme \<Rightarrow> (ret_t \<times> 'e yaos_scheme) outcome" where
  "yaos_vm_free_hint junk addr sz st =
     (let i = get_vm_zone_from_addr addr in
      andThen (ASSERT (i \<noteq> 0)) (\<lambda>_. unmap_then_free YAOS_free_at junk i addr sz st))"

text \<open>\<open>yaos_page_free\<close> takes its function from the slot \<open>YAOS_page_alloc\<close>.\<close>

definition yaos_page_free :: "ulong \<Rightarrow> ulong \<Rightarrow> ulong \<Rightarrow> 'e yaos_scheme \<Rightarrow> 'e yaos_scheme outcome" where
  "yaos_page_free junk addr sz st = andThen (yaoscall junk YAOS_page_alloc [addr, sz] st) (\<lambda>(r, st1). Inr st1)"

definition yaos_max_physical_mem :: "ulong \<Rightarrow> 'e yaos_scheme \<Rightarrow> (ulong \<times> 'e yaos_scheme) outcome" where
  "yaos_max_physical_mem junk st =
     andThen (yaoscall junk YAOS_max_physical_mem [] st) (\<lambda>(r, st1). Inr (rv r, st1))"

definition yaos_map_copy :: "ulong \<Rightarrow> ulong \<Rightarrow> ulong \<Rightarrow> ulong \<Rightarrow> 'e yaos_scheme \<Rightarrow> (int \<times> 'e yaos_scheme) outcome" where
  "yaos_map_copy junk vaddr old sz st =
     andThen (yaoscall junk YAOS_map_copy [vaddr, old, sz] st) (\<lambda>(r, st1). Inr (sint (ucast (rv r) :: u32), st1))"

text \<open>\<open>init_callpage\<close> makes the page of the call table readable outside the kernel.\<close>

definition init_callpage :: "bool \<Rightarrow> 'e yaos_scheme \<Rightarrow> (int \<times> 'e yaos_scheme) outcome" where
  "init_callpage isbp st =
     (if \<not> isbp then Inr (0, st)
      else andThen (map_4k_page_p2v 0x9000 (P2V 0x9000) (PTE_U OR PTE_P) (pg (sysvm st))) (\<lambda>(e, g).
        Inr (0, st\<lparr>sysvm := (sysvm st)\<lparr>pg := g\<rparr>\<rparr>)))"

section \<open>The table after boot\<close>

lemma regist_all_table:
  "yaoscall_table (regist_all ps st) i =
     (case map_of (rev ps) i of None \<Rightarrow> yaoscall_table st i | Some f \<Rightarrow> f)"
proof (induction ps arbitrary: st)
  case (Cons p ps)
  then show ?case by (cases p) (auto simp: regist_yaoscall_def map_add_def split: option.split)
qed simp

lemma regist_all_sysvm [simp]: "sysvm (regist_all ps st) = sysvm st"
  by (induction ps arbitrary: st) (simp_all add: regist_yaoscall_def)

text \<open>The calls for memory reach the functions of \<open>yaos_page.c\<close>.\<close>

definition page_calls :: "'e yaos_scheme \<Rightarrow> bool" where
  "page_calls st \<longleftrightarrow> list_all (\<lambda>(i, f). yaoscall_p i st = f) page_data"

lemma page_calls_cong: "yaoscall_table st' = yaoscall_table st \<Longrightarrow> page_calls st' = page_calls st"
  by (simp add: page_calls_def yaoscall_p_def)

lemma page_calls_heap:
  assumes "page_calls st"
  shows "yaoscall_p YAOS_heap_alloc st = f_heap_alloc_4k" "yaoscall_p YAOS_heap_free st = f_heap_free_4k"
    "yaoscall_p YAOS_max_physical_mem st = f_max_phymem" "yaoscall_p YAOS_page_alloc st = f_page_alloc"
  using assms by (simp_all add: page_calls_def page_data_def)

text \<open>
  After \<open>init_yaoscall\<close> on the boot processor, whatever other entries the linker has placed in the
  section (with numbers of their own), every call of \<open>yaos_page.c\<close> is in its slot, every other
  entry is in its slot, and a slot without an entry holds \<open>dummy\<close>, which returns
  \<open>ERR_YAOSCALL_NONE_EXIST\<close>. On the other processors nothing changes.
\<close>

theorem init_yaoscall_correct:
  assumes "distinct (map fst sect)" and "set page_data \<subseteq> set sect"
  shows "page_calls (snd (init_yaoscall True (yaoscall_data @ sect) st)) \<and>
    (\<forall>i f. (i, f) \<in> set sect \<longrightarrow> yaoscall_p i (snd (init_yaoscall True (yaoscall_data @ sect) st)) = f) \<and>
    (\<forall>i. i \<notin> fst ` set sect \<longrightarrow> yaoscall_p i (snd (init_yaoscall True (yaoscall_data @ sect) st)) = dummy) \<and>
    page_call junk dummy args s = Inr (\<lparr>rv = 0, re = ERR_YAOSCALL_NONE_EXIST\<rparr>, s) \<and>
    init_yaoscall False sect st = (0, st)"
proof -
  let ?st = "snd (init_yaoscall True (yaoscall_data @ sect) st)"
  have tab: "yaoscall_p i ?st = (case map_of (rev sect) i of None \<Rightarrow> dummy | Some f \<Rightarrow> f)" for i
    by (simp add: yaoscall_p_def init_yaoscall_def regist_all_table yaoscall_data_def regist_yaoscall_def split: option.split)
  have get: "yaoscall_p i ?st = f" if "(i, f) \<in> set sect" for i f
  proof -
    have "map_of (rev sect) i = Some f"
      using assms(1) that by (subst map_of_eq_Some_iff) (simp_all add: rev_map [symmetric])
    then show ?thesis by (simp only: tab option.case)
  qed
  have none: "yaoscall_p i ?st = dummy" if "i \<notin> fst ` set sect" for i
    using that by (simp add: tab map_of_eq_None_iff [THEN iffD2])
  have "page_calls ?st" unfolding page_calls_def list_all_iff using get assms(2) by blast
  with get none show ?thesis by (simp add: page_call_def dummy_call_def init_yaoscall_def)
qed

text \<open>The state of a machine with one free 2M page, before the table is built.\<close>

definition boot_yaos :: "yaos" where
  "boot_yaos = \<lparr>sysvm = full_vm, yaoscall_table = (\<lambda>_. dummy1)\<rparr>"

theorem init_yaoscall_correct_witness:
  "page_calls (snd (init_yaoscall True (yaoscall_data @ page_data) boot_yaos)) \<and>
   yaoscall_p YAOS_malloc (snd (init_yaoscall True (yaoscall_data @ page_data) boot_yaos)) = dummy"
proof -
  have "distinct (map fst page_data)" "set page_data \<subseteq> set page_data" by (simp_all add: page_data_def)
  note init = init_yaoscall_correct [OF this, of boot_yaos]
  have "YAOS_malloc \<notin> fst ` set page_data" by (simp add: page_data_def)
  with init show ?thesis by blast
qed

text \<open>
  \<open>yaos_page_free\<close> never frees anything: it calls the function that allocates. Any address
  but 2M fails the assertion of \<open>page_alloc\<close>, and for the address 2M it takes one more page.
\<close>

lemma yaos_page_free_allocates:
  assumes "page_calls st"
  shows "if addr = PAGE_SIZE_LARGE
    then yaos_page_free junk addr sz st = andThen (yaos_page_alloc junk addr st) (\<lambda>(a, st'). Inr st')
    else yaos_page_free junk addr sz st = Inl Assertion_failed"
  using page_calls_heap(4) [OF assms]
  by (simp add: yaos_page_free_def yaos_page_alloc_def yaoscall_def page_call_def arg_reg_def page_alloc_def
      andThen_assoc case_prod_unfold)

lemma half_of_rax:
  fixes j p :: ulong
  shows "take_bit 32 ((j AND NOT (mask 32)) OR (scast (ucast p :: u32) AND mask 32)) = take_bit 32 p"
    and "drop_bit 32 ((j AND NOT (mask 32)) OR (scast (ucast p :: u32) AND mask 32)) = drop_bit 32 j"
proof -
  let ?a = "(j AND NOT (mask 32)) OR (scast (ucast p :: u32) AND mask 32)"
  have lo: "bit ?a n = bit p n" if "n < 32" for n using that by (simp add: bit_simps)
  have hi: "bit ?a n = bit j n" if "32 \<le> n" "n < 64" for n using that by (simp add: bit_simps)
  show "take_bit 32 ?a = take_bit 32 p"
    by (rule bit_word_eqI) (simp only: bit_take_bit_iff lo cong: conj_cong)
  show "drop_bit 32 ?a = drop_bit 32 j"
  proof (rule bit_word_eqI)
    fix n assume "n < LENGTH(64)"
    show "bit (drop_bit 32 ?a) n = bit (drop_bit 32 j) n"
    proof (cases "n < 32")
      case True
      then show ?thesis unfolding bit_drop_bit_eq comp_def by (intro hi) simp_all
    next
      case False
      then have "\<not> bit ?a (32 + n)" "\<not> bit j (32 + n)" by (auto dest: bit_imp_le_length)
      then show ?thesis by (simp only: bit_drop_bit_eq comp_def)
    qed
  qed
qed

text \<open>
  A call of \<open>yaos_v2p\<close> for an address outside the kernel and the direct map keeps only the lower
  half of the physical address, since \<open>s_v2p\<close> returns an \<open>int\<close>.
\<close>

lemma yaos_v2p_lower_half:
  assumes "page_calls st" and "\<not> addr > KERNEL_BASE" "\<not> (addr \<ge> PHYS_VIRT_START \<and> addr \<le> PHYS_VIRT_END)"
  shows "\<exists>a. yaos_v2p junk addr st = Inr (a, st) \<and>
    take_bit 32 a = take_bit 32 (fst (map_paddr_flags_at addr (pg (sysvm st)))) \<and> drop_bit 32 a = drop_bit 32 junk"
proof -
  let ?p = "fst (map_paddr_flags_at addr (pg (sysvm st)))"
  let ?a = "rv (int_result junk (s_v2p addr (sysvm st)))"
  have "yaoscall_p YAOS_v2p st = f_v2p" using assms(1) by (simp add: page_calls_def page_data_def)
  then have "yaoscall junk YAOS_v2p [addr] st = Inr (int_result junk (s_v2p addr (sysvm st)), st)"
    by (simp add: yaoscall_def page_call_def arg_reg_def)
  then have run: "yaos_v2p junk addr st = Inr (?a, st)"
    by (simp only: yaos_v2p_def assms(2,3) if_False andThen_Inr prod.case)
  have m: "(0xffffffff :: ulong) = mask 32" by (simp add: mask_eq_exp_minus_1)
  have low: "(of_int (s_v2p addr (sysvm st)) :: ulong) = scast (ucast ?p :: u32)"
    unfolding s_v2p_def by (rule scast_eq [symmetric])
  have "take_bit 32 ?a = take_bit 32 ?p" "drop_bit 32 ?a = drop_bit 32 junk"
    unfolding int_result_def low m ret_t.select_convs by (rule half_of_rax)+
  with run show ?thesis by blast
qed

end
