(* ===== verification/Module.thy ===== *)
theory Module
  imports Yaos_Prelude
begin

text \<open>
  The module table of \<open>kernel/module.c\<close>: the linker collects a \<open>moduledata\<close> entry per module in a
  section, \<open>init_module\<close> registers the entries on the boot processor and sends each module
  \<open>MOD_BPLOAD\<close>, \<open>init_module_ap\<close> sends \<open>MOD_APLOAD\<close> on the other processors, and
  \<open>init_module_step\<close> sends the events of the later start-up levels. A module may ask to be called
  again in another loop. The handlers are reached through function pointers: they are a parameter.
\<close>

section \<open>Model\<close>

datatype modeventtype_t = MOD_BPLOAD | MOD_APLOAD | MOD_BPSUBSYS | MOD_APSUBSYS | MOD_BPDEVICE | MOD_APDEVICE
  | MOD_UNLOAD | MOD_SHUTDOWN | MOD_QUIESCE

abbreviation (input) MOD_ERR_NEXTLOOP :: int where "MOD_ERR_NEXTLOOP \<equiv> - 1"
abbreviation (input) MOD_ERR_OK :: int where "MOD_ERR_OK \<equiv> 0"
abbreviation (input) MAX_MODULE_NR :: nat where "MAX_MODULE_NR \<equiv> 256"
abbreviation (input) MODULE_INIT :: int where "MODULE_INIT \<equiv> 0"
abbreviation (input) MODULE_LOADED :: int where "MODULE_LOADED \<equiv> 1"

text \<open>Names, functions and arguments are addresses; 0 is NULL.\<close>

record moduledata =
  md_name :: ulong
  md_evhand :: ulong
  md_priv :: ulong

record module_t =
  m_status :: int
  m_id :: nat
  m_name :: ulong
  m_handler :: ulong
  m_arg :: ulong
  m_data :: ulong

text \<open>
  The section: its bounds, the addresses of its two dummy entries, from which the code computes the
  distance of two entries, and the entry found at an address.
\<close>

record module_section =
  data_start :: ulong
  data_end :: ulong
  dummy1 :: ulong
  dummy2 :: ulong
  entry_at :: "ulong \<Rightarrow> moduledata"

text \<open>
  The array \<open>all\<close>, its copy of the status for each CPU, the number of modules, and the rest of the
  kernel, which the handlers change. A handler cannot reach into \<open>all\<close>: \<open>struct module\<close> is opaque
  outside \<open>module.c\<close>.
\<close>

record 'w modules =
  all_modules :: "module_t list"
  percpu_status :: "nat \<Rightarrow> int list"
  total_modules :: nat
  world :: 'w

text \<open>A handler, called by its address with the module, the event and the argument.\<close>

type_synonym 'w modeventhand = "ulong \<Rightarrow> nat \<Rightarrow> modeventtype_t \<Rightarrow> ulong \<Rightarrow> 'w \<Rightarrow> (int \<times> 'w) outcome"

definition dummy_module :: "nat \<Rightarrow> modeventtype_t \<Rightarrow> ulong \<Rightarrow> int" where
  "dummy_module m t arg = MOD_ERR_OK"

definition myabs :: "ulong \<Rightarrow> ulong \<Rightarrow> ulong" where
  "myabs a b = (if a > b then a - b else b - a)"

text \<open>\<open>(all[i].handler)(&all[i], event, all[i].arg)\<close>\<close>

definition call_module :: "'w modeventhand \<Rightarrow> nat \<Rightarrow> modeventtype_t \<Rightarrow> 'w modules \<Rightarrow> (int \<times> 'w modules) outcome" where
  "call_module run i ev st =
     andThen (run (m_handler (all_modules st ! i)) i ev (m_arg (all_modules st ! i)) (world st))
       (\<lambda>(ret, w). Inr (ret, st\<lparr>world := w\<rparr>))"

definition set_loaded :: "nat \<Rightarrow> 'w modules \<Rightarrow> 'w modules" where
  "set_loaded i st = st\<lparr>all_modules := (all_modules st)[i := (all_modules st ! i)\<lparr>m_status := MODULE_LOADED\<rparr>]\<rparr>"

definition set_percpu :: "nat \<Rightarrow> nat \<Rightarrow> int \<Rightarrow> 'w modules \<Rightarrow> 'w modules" where
  "set_percpu cpu i s st = st\<lparr>percpu_status := (percpu_status st)(cpu := (percpu_status st cpu)[i := s])\<rparr>"

text \<open>Registering an entry: writing past the array is not checked by the code.\<close>

definition add_module :: "nat \<Rightarrow> moduledata \<Rightarrow> 'w modules \<Rightarrow> 'w modules outcome" where
  "add_module i p st =
     (if i < MAX_MODULE_NR
      then Inr (set_percpu 0 i MODULE_INIT
        (st\<lparr>all_modules := (all_modules st)[i := \<lparr>m_status = 0, m_id = i, m_name = md_name p,
              m_handler = md_evhand p, m_arg = md_priv p, m_data = 0\<rparr>]\<rparr>))
      else Inl Out_of_bounds)"

text \<open>One entry of the first loop: what it does to \<open>i\<close>, \<open>found\<close> and the state.\<close>

definition load_entry :: "'w modeventhand \<Rightarrow> moduledata \<Rightarrow> nat \<times> bool \<times> 'w modules \<Rightarrow> (nat \<times> bool \<times> 'w modules) outcome" where
  "load_entry run p x = (case x of (i, found, st) \<Rightarrow>
     if md_name p = 0 \<or> md_evhand p = 0 then Inr (i, found, st)
     else andThen (add_module i p st) (\<lambda>st1.
          andThen (call_module run i MOD_BPLOAD st1) (\<lambda>(ret, st2).
          if ret = MOD_ERR_OK then Inr (Suc i, found, set_loaded i st2)
          else if ret = MOD_ERR_NEXTLOOP then Inr (Suc i, True, st2)
          else Inr (Suc i, found, st2))))"

partial_function (option) load_loop ::
  "'w modeventhand \<Rightarrow> module_section \<Rightarrow> ulong \<Rightarrow> ulong \<Rightarrow> nat \<times> bool \<times> 'w modules \<Rightarrow> (nat \<times> bool \<times> 'w modules) outcome option" where
  "load_loop run sec step p x =
     (if p < data_end sec
      then (case load_entry run (entry_at sec p) x of
              Inl e \<Rightarrow> Some (Inl e)
            | Inr y \<Rightarrow> load_loop run sec step (p + step) y)
      else Some (Inr x))"

declare load_loop.simps [code]

text \<open>One turn of the second loop; the guard is the one of line 89.\<close>

definition reload_module :: "'w modeventhand \<Rightarrow> nat \<Rightarrow> bool \<times> 'w modules \<Rightarrow> (bool \<times> 'w modules) outcome" where
  "reload_module run i x = (case x of (found, st) \<Rightarrow>
     if m_status (all_modules st ! i) = MODULE_LOADED
     then andThen (call_module run i MOD_BPLOAD st) (\<lambda>(ret, st1).
          if ret = MOD_ERR_OK then Inr (found, set_loaded i st1)
          else if ret = MOD_ERR_NEXTLOOP then Inr (True, st1)
          else Inr (found, st1))
     else Inr (found, st))"

text \<open>\<open>for (i = 0; i < total; i++)\<close>: the body on every index of the list, in order.\<close>

primrec for_each :: "(nat \<Rightarrow> 'a \<Rightarrow> 'a outcome) \<Rightarrow> nat list \<Rightarrow> 'a \<Rightarrow> 'a outcome" where
  "for_each body [] x = Inr x"
| "for_each body (i # js) x = andThen (body i x) (for_each body js)"

text \<open>\<open>while (found && --times)\<close>, for a body that makes one pass over the modules.\<close>

primrec retry_loop :: "(bool \<times> 'w modules \<Rightarrow> (bool \<times> 'w modules) outcome) \<Rightarrow> nat \<Rightarrow> bool \<times> 'w modules \<Rightarrow> (bool \<times> 'w modules) outcome" where
  "retry_loop pass 0 x = Inr x"
| "retry_loop pass (Suc n) x =
     (if fst x \<and> n \<noteq> 0
      then andThen (pass (False, snd x)) (retry_loop pass n)
      else Inr x)"

definition init_module :: "'w modeventhand \<Rightarrow> module_section \<Rightarrow> 'w modules \<Rightarrow> 'w modules outcome" where
  "init_module run sec st =
     andThen (ending (load_loop run sec (myabs (dummy1 sec) (dummy2 sec)) (data_start sec) (0, False, st))) (\<lambda>r.
     andThen r (\<lambda>(i, found, st1).
     andThen (retry_loop (for_each (reload_module run) [0..<i]) 10 (found, st1\<lparr>total_modules := i\<rparr>)) (\<lambda>(found, st2).
     Inr st2)))"

definition apload_module :: "'w modeventhand \<Rightarrow> nat \<Rightarrow> nat \<Rightarrow> bool \<times> 'w modules \<Rightarrow> (bool \<times> 'w modules) outcome" where
  "apload_module run cpu i x = (case x of (found, st) \<Rightarrow>
     if m_status (all_modules st ! i) = MODULE_LOADED \<and> percpu_status st cpu ! i = MODULE_INIT
     then andThen (call_module run i MOD_APLOAD st) (\<lambda>(ret, st1).
          if ret = MOD_ERR_OK then Inr (found, set_percpu cpu i MODULE_LOADED st1)
          else if ret = MOD_ERR_NEXTLOOP then Inr (True, st1)
          else Inr (found, st1))
     else Inr (found, st))"

definition init_module_ap :: "'w modeventhand \<Rightarrow> nat \<Rightarrow> 'w modules \<Rightarrow> 'w modules outcome" where
  "init_module_ap run cpu st =
     (let pass = for_each (apload_module run cpu) [0..<total_modules st] in
      andThen (pass (False, st)) (\<lambda>x.
      andThen (retry_loop pass 10 x) (\<lambda>(found, st1). Inr st1)))"

definition init_module_call :: "'w modeventhand \<Rightarrow> module_section \<Rightarrow> nat \<Rightarrow> bool \<Rightarrow> 'w modules \<Rightarrow> 'w modules outcome" where
  "init_module_call run sec cpu isbp st = (if isbp then init_module run sec st else init_module_ap run cpu st)"

definition step_module :: "'w modeventhand \<Rightarrow> modeventtype_t \<Rightarrow> nat \<Rightarrow> 'w modules \<Rightarrow> 'w modules outcome" where
  "step_module run step i st =
     (if m_status (all_modules st ! i) = MODULE_LOADED
      then andThen (call_module run i step st) (\<lambda>(ret, st1). Inr st1)
      else Inr st)"

definition init_module_step :: "'w modeventhand \<Rightarrow> modeventtype_t \<Rightarrow> 'w modules \<Rightarrow> 'w modules outcome" where
  "init_module_step run step st = for_each (step_module run step) [0..<total_modules st] st"

definition init_module_device :: "'w modeventhand \<Rightarrow> bool \<Rightarrow> 'w modules \<Rightarrow> 'w modules outcome" where
  "init_module_device run isbp st = init_module_step run (if isbp then MOD_BPDEVICE else MOD_APDEVICE) st"

definition init_module_subsys :: "'w modeventhand \<Rightarrow> bool \<Rightarrow> 'w modules \<Rightarrow> 'w modules outcome" where
  "init_module_subsys run isbp st = init_module_step run (if isbp then MOD_BPSUBSYS else MOD_APSUBSYS) st"

section \<open>The first loop is a pass over the entries of the section\<close>

text \<open>The entries of the section, at the distance the code computes from its two dummy entries.\<close>

definition section_holds :: "module_section \<Rightarrow> moduledata list \<Rightarrow> bool" where
  "section_holds sec ps \<longleftrightarrow>
     (let s = myabs (dummy1 sec) (dummy2 sec) in
      s \<noteq> 0 \<and> unat (data_start sec) + length ps * unat s = unat (data_end sec) \<and>
      (\<forall>k<length ps. entry_at sec (data_start sec + of_nat k * s) = ps ! k))"

definition registers :: "moduledata \<Rightarrow> bool" where
  "registers p \<longleftrightarrow> md_name p \<noteq> 0 \<and> md_evhand p \<noteq> 0"

primrec load_entries :: "'w modeventhand \<Rightarrow> moduledata list \<Rightarrow> nat \<times> bool \<times> 'w modules \<Rightarrow> (nat \<times> bool \<times> 'w modules) outcome" where
  "load_entries run [] x = Inr x"
| "load_entries run (p # ps) x = andThen (load_entry run p x) (load_entries run ps)"

lemma load_loop_eq:
  fixes p step :: ulong
  assumes "step \<noteq> 0" "unat p + length ps * unat step = unat (data_end sec)"
    and "\<forall>k<length ps. entry_at sec (p + of_nat k * step) = ps ! k"
  shows "load_loop run sec step p x = Some (load_entries run ps x)"
  using assms
proof (induction ps arbitrary: p x)
  case Nil
  then have "\<not> p < data_end sec" by (simp add: word_less_nat_alt)
  then show ?case by (subst load_loop.simps) simp
next
  case (Cons q qs)
  have "unat step > 0" using Cons.prems(1) by (simp add: unat_gt_0)
  then have less: "p < data_end sec" using Cons.prems(2) by (simp add: word_less_nat_alt)
  have "unat p + unat step < 2 ^ 64"
    using Cons.prems(2) ulong_lt_2p64 [of "data_end sec"] by simp
  then have *: "unat (p + step) = unat p + unat step" by (rule unat_add_no_wrap)
  have q: "entry_at sec p = q" using Cons.prems(3) by (auto dest: spec [of _ 0])
  have "load_loop run sec step (p + step) y = Some (load_entries run qs y)" for y
  proof (rule Cons.IH)
    show "unat (p + step) + length qs * unat step = unat (data_end sec)" using * Cons.prems(2) by simp
    show "\<forall>k<length qs. entry_at sec (p + step + of_nat k * step) = qs ! k"
    proof (intro allI impI)
      fix k assume "k < length qs"
      then show "entry_at sec (p + step + of_nat k * step) = qs ! k"
        using Cons.prems(3) [rule_format, of "Suc k"] by (simp add: algebra_simps)
    qed
  qed (fact Cons.prems(1))
  with less q show ?case
    by (subst load_loop.simps) (simp add: andThen_def split: sum.splits)
qed

lemma section_loop:
  assumes "section_holds sec ps"
  shows "ending (load_loop run sec (myabs (dummy1 sec) (dummy2 sec)) (data_start sec) x) = Inr (load_entries run ps x)"
  using assms load_loop_eq [of "myabs (dummy1 sec) (dummy2 sec)" "data_start sec" ps sec run x]
  by (simp add: section_holds_def Let_def)

section \<open>Handlers whose answer depends on how often their module was called\<close>

text \<open>The kernel is abstracted to the number of calls each module has had.\<close>

definition answering :: "(nat \<Rightarrow> nat \<Rightarrow> int) \<Rightarrow> (nat \<Rightarrow> nat) modeventhand" where
  "answering r h i ev arg w = Inr (r i (w i), w(i := Suc (w i)))"

definition registered :: "nat \<Rightarrow> moduledata \<Rightarrow> int \<Rightarrow> module_t" where
  "registered i p s = \<lparr>m_status = s, m_id = i, m_name = md_name p, m_handler = md_evhand p, m_arg = md_priv p, m_data = 0\<rparr>"

abbreviation loaded :: "'w modules \<Rightarrow> nat \<Rightarrow> bool" where
  "loaded st i \<equiv> m_status (all_modules st ! i) = MODULE_LOADED"

lemma call_answering [simp]:
  "call_module (answering r) i ev st = Inr (r i (world st i), st\<lparr>world := (world st)(i := Suc (world st i))\<rparr>)"
  by (simp add: call_module_def answering_def)

lemma load_entry_answering:
  assumes "registers p" "i < 256" "length (all_modules st) = 256"
  shows "\<exists>st'. load_entry (answering r) p (i, found, st)
           = Inr (Suc i, found \<or> r i (world st i) = -1, st')
         \<and> all_modules st' = (all_modules st)[i := registered i p (if r i (world st i) = 0 then 1 else 0)]
         \<and> world st' = (world st)(i := Suc (world st i))"
  using assms
  by (simp add: load_entry_def registers_def add_module_def set_percpu_def set_loaded_def registered_def)

lemma load_entry_skips:
  assumes "\<not> registers p"
  shows "load_entry run p x = Inr x"
  using assms by (cases x) (auto simp: load_entry_def registers_def)

lemma load_entries_answering:
  assumes "i + length (filter registers ps) \<le> 256" "length (all_modules st) = 256"
  shows "\<exists>st'. load_entries (answering r) ps (i, found, st)
           = Inr (i + length (filter registers ps),
                  found \<or> (\<exists>k<length (filter registers ps). r (i + k) (world st (i + k)) = -1), st')
         \<and> length (all_modules st') = 256
         \<and> (\<forall>j<i. all_modules st' ! j = all_modules st ! j \<and> world st' j = world st j)
         \<and> (\<forall>k<length (filter registers ps).
              all_modules st' ! (i + k) = registered (i + k) (filter registers ps ! k) (if r (i + k) (world st (i + k)) = 0 then 1 else 0)
              \<and> world st' (i + k) = Suc (world st (i + k)))"
  using assms
proof (induction ps arbitrary: i found st)
  case Nil
  then show ?case by simp
next
  case (Cons p ps)
  show ?case
  proof (cases "registers p")
    case False
    then show ?thesis using Cons.IH [of i st found] Cons.prems by (simp add: load_entry_skips)
  next
    case True
    let ?n = "length (filter registers ps)"
    have i: "i < 256" "Suc i + ?n \<le> 256" using Cons.prems(1) True by simp_all
    obtain st1 where st1: "load_entry (answering r) p (i, found, st) = Inr (Suc i, found \<or> r i (world st i) = -1, st1)"
      "all_modules st1 = (all_modules st)[i := registered i p (if r i (world st i) = 0 then 1 else 0)]"
      "world st1 = (world st)(i := Suc (world st i))"
      using load_entry_answering [OF True i(1) Cons.prems(2)] by blast
    have l1: "length (all_modules st1) = 256" using st1(2) Cons.prems(2) by simp
    have k1: "world st1 (Suc (i + k)) = world st (Suc (i + k))" for k using st1(3) by simp
    obtain st2 where st2: "load_entries (answering r) ps (Suc i, found \<or> r i (world st i) = -1, st1)
        = Inr (Suc i + ?n, (found \<or> r i (world st i) = -1) \<or> (\<exists>k<?n. r (Suc i + k) (world st1 (Suc i + k)) = -1), st2)"
      "length (all_modules st2) = 256"
      "\<forall>j<Suc i. all_modules st2 ! j = all_modules st1 ! j \<and> world st2 j = world st1 j"
      "\<forall>k<?n. all_modules st2 ! (Suc i + k) = registered (Suc i + k) (filter registers ps ! k) (if r (Suc i + k) (world st1 (Suc i + k)) = 0 then 1 else 0)
         \<and> world st2 (Suc i + k) = Suc (world st1 (Suc i + k))"
      using Cons.IH [OF i(2) l1, of "found \<or> r i (world st i) = -1"] by blast
    show ?thesis
    proof (intro exI conjI)
      show "load_entries (answering r) (p # ps) (i, found, st)
           = Inr (i + length (filter registers (p # ps)),
                  found \<or> (\<exists>k<length (filter registers (p # ps)). r (i + k) (world st (i + k)) = -1), st2)"
        using True st1(1) st2(1) by (auto simp: k1 Ex_less_Suc2)
      show "length (all_modules st2) = 256" by (fact st2(2))
      show "\<forall>j<i. all_modules st2 ! j = all_modules st ! j \<and> world st2 j = world st j"
        using st2(3) st1(2,3) by simp
      show "\<forall>k<length (filter registers (p # ps)).
              all_modules st2 ! (i + k) = registered (i + k) (filter registers (p # ps) ! k) (if r (i + k) (world st (i + k)) = 0 then 1 else 0)
              \<and> world st2 (i + k) = Suc (world st (i + k))"
        using True st2(3) [rule_format, of i] st2(4) st1(2,3) i(1) Cons.prems(2) by (simp add: k1 All_less_Suc2)
    qed
  qed
qed

section \<open>The second loop calls the loaded modules again\<close>

definition again :: "nat \<Rightarrow> nat list \<Rightarrow> (nat \<Rightarrow> nat) modules \<Rightarrow> (nat \<Rightarrow> nat) modules" where
  "again k js st = st\<lparr>world := \<lambda>i. if i \<in> set js \<and> loaded st i then world st i + k else world st i\<rparr>"

lemma again_0 [simp]: "again 0 js st = st"
  by (rule modules.equality) (auto simp: again_def)

lemma again_again [simp]: "again k js (again l js st) = again (l + k) js st"
  by (rule modules.equality) (auto simp: again_def)

lemma reload_answering:
  "\<exists>f. reload_module (answering r) i (found, st) = Inr (f, again 1 [i] st)"
proof (cases "loaded st i")
  case True
  then have "(all_modules st)[i := (all_modules st ! i)\<lparr>m_status := 1\<rparr>] = all_modules st"
    by (metis list_update_id module_t.surjective module_t.update_convs(1))
  then have "set_loaded i (again 1 [i] st) = again 1 [i] st"
    by (intro modules.equality) (simp_all add: again_def set_loaded_def)
  moreover have "st\<lparr>world := (world st)(i := Suc (world st i))\<rparr> = again 1 [i] st"
    using True by (intro modules.equality) (auto simp: again_def)
  ultimately show ?thesis using True by (auto simp: reload_module_def)
next
  case False
  then have "again 1 [i] st = st" by (intro modules.equality) (auto simp: again_def)
  with False show ?thesis by (simp add: reload_module_def)
qed

lemma reload_pass:
  assumes "distinct js"
  shows "\<exists>f. for_each (reload_module (answering r)) js (found, st) = Inr (f, again 1 js st)"
  using assms
proof (induction js arbitrary: found st)
  case Nil
  then show ?case by (simp add: again_def)
next
  case (Cons j js)
  obtain f where f: "reload_module (answering r) j (found, st) = Inr (f, again 1 [j] st)"
    using reload_answering by blast
  obtain f' where f': "for_each (reload_module (answering r)) js (f, again 1 [j] st) = Inr (f', again 1 js (again 1 [j] st))"
    using Cons.IH [of f "again 1 [j] st"] Cons.prems by auto
  have "again 1 js (again 1 [j] st) = again 1 (j # js) st"
    using Cons.prems by (intro modules.equality) (auto simp: again_def)
  then show ?case using f f' by simp
qed

lemma reload_loop:
  assumes "distinct js"
  shows "\<exists>f k. retry_loop (for_each (reload_module (answering r)) js) n (found, st) = Inr (f, again k js st)
           \<and> k \<le> n - 1 \<and> (found \<and> n \<ge> 2 \<longrightarrow> k \<ge> 1)"
proof (induction n arbitrary: found st)
  case 0
  have "retry_loop (for_each (reload_module (answering r)) js) 0 (found, st) = Inr (found, again 0 js st)" by simp
  then show ?case by auto
next
  case (Suc n)
  show ?case
  proof (cases "found \<and> n \<noteq> 0")
    case False
    then have "retry_loop (for_each (reload_module (answering r)) js) (Suc n) (found, st) = Inr (found, again 0 js st)" by auto
    with False show ?thesis by fastforce
  next
    case True
    obtain f where f: "for_each (reload_module (answering r)) js (False, st) = Inr (f, again 1 js st)"
      using reload_pass [OF assms] by blast
    obtain f' k where k: "retry_loop (for_each (reload_module (answering r)) js) n (f, again 1 js st) = Inr (f', again k js (again 1 js st))"
      "k \<le> n - 1"
      using Suc.IH by blast
    have "retry_loop (for_each (reload_module (answering r)) js) (Suc n) (found, st) = Inr (f', again (1 + k) js st)"
      using True f k(1) by simp
    then show ?thesis using k(2) True by fastforce
  qed
qed

section \<open>Loading on the other processors\<close>

definition pending :: "nat \<Rightarrow> 'w modules \<Rightarrow> nat \<Rightarrow> bool" where
  "pending cpu st i \<longleftrightarrow> loaded st i \<and> percpu_status st cpu ! i = MODULE_INIT"

text \<open>What a pass over the modules \<open>js\<close> does: every pending module is called once.\<close>

definition ap_passed :: "(nat \<Rightarrow> nat \<Rightarrow> int) \<Rightarrow> nat \<Rightarrow> nat set \<Rightarrow> (nat \<Rightarrow> nat) modules \<Rightarrow> (nat \<Rightarrow> nat) modules \<Rightarrow> bool" where
  "ap_passed r cpu J st st' \<longleftrightarrow>
     all_modules st' = all_modules st \<and> total_modules st' = total_modules st
   \<and> length (percpu_status st' cpu) = length (percpu_status st cpu)
   \<and> (\<forall>c. c \<noteq> cpu \<longrightarrow> percpu_status st' c = percpu_status st c)
   \<and> (\<forall>i. percpu_status st' cpu ! i =
          (if i \<in> J \<and> pending cpu st i \<and> r i (world st i) = 0 then 1 else percpu_status st cpu ! i))
   \<and> (\<forall>i. world st' i = (if i \<in> J \<and> pending cpu st i then Suc (world st i) else world st i))"

lemma apload_answering:
  assumes "i < length (percpu_status st cpu)"
  shows "\<exists>st'. apload_module (answering r) cpu i (found, st)
           = Inr (found \<or> (pending cpu st i \<and> r i (world st i) = -1), st') \<and> ap_passed r cpu {i} st st'"
proof (cases "pending cpu st i")
  case False
  then have "apload_module (answering r) cpu i (found, st) = Inr (found, st)"
    by (auto simp: apload_module_def pending_def)
  with False show ?thesis by (auto simp: ap_passed_def)
next
  case True
  define st1 where "st1 = st\<lparr>world := (world st)(i := Suc (world st i))\<rparr>"
  have "apload_module (answering r) cpu i (found, st) =
      (if r i (world st i) = 0 then Inr (found, set_percpu cpu i 1 st1)
       else if r i (world st i) = -1 then Inr (True, st1) else Inr (found, st1))"
    using True by (simp add: apload_module_def pending_def st1_def)
  moreover have "r i (world st i) = 0 \<longrightarrow> ap_passed r cpu {i} st (set_percpu cpu i 1 st1)"
    using True assms by (simp add: ap_passed_def set_percpu_def st1_def nth_list_update)
  moreover have "r i (world st i) \<noteq> 0 \<longrightarrow> ap_passed r cpu {i} st st1"
    using True by (simp add: ap_passed_def st1_def)
  ultimately show ?thesis using True by auto
qed

lemma ap_passed_pending:
  assumes "ap_passed r cpu J st st'" "i \<notin> J"
  shows "pending cpu st' i = pending cpu st i" "world st' i = world st i"
    "percpu_status st' cpu ! i = percpu_status st cpu ! i"
  using assms by (auto simp: ap_passed_def pending_def)

lemma ap_passed_idle:
  assumes "ap_passed r cpu J st st'" "\<not> pending cpu st i"
  shows "\<not> pending cpu st' i" "world st' i = world st i" "percpu_status st' cpu ! i = percpu_status st cpu ! i"
  using assms by (auto simp: ap_passed_def pending_def)

lemma ap_passed_called:
  assumes "ap_passed r cpu J st st'" "i \<in> J" "pending cpu st i"
  shows "pending cpu st' i \<longleftrightarrow> r i (world st i) \<noteq> 0" "world st' i = Suc (world st i)"
    "percpu_status st' cpu ! i = (if r i (world st i) = 0 then 1 else 0)"
  using assms by (auto simp: ap_passed_def pending_def)

lemma ap_passed_trans:
  assumes "ap_passed r cpu J st st1" "ap_passed r cpu K st1 st2" "J \<inter> K = {}"
  shows "ap_passed r cpu (J \<union> K) st st2"
proof -
  have "i \<in> K \<Longrightarrow> i \<notin> J" for i using assms(3) by blast
  then show ?thesis using assms(1,2) by (auto simp: ap_passed_def pending_def)
qed

lemma ap_pass:
  assumes "distinct js" "\<forall>i\<in>set js. i < length (percpu_status st cpu)"
  shows "\<exists>st'. for_each (apload_module (answering r) cpu) js (found, st)
           = Inr (found \<or> (\<exists>i\<in>set js. pending cpu st i \<and> r i (world st i) = -1), st') \<and> ap_passed r cpu (set js) st st'"
  using assms
proof (induction js arbitrary: found st)
  case Nil
  then show ?case by (simp add: ap_passed_def)
next
  case (Cons j js)
  obtain st1 where st1: "apload_module (answering r) cpu j (found, st)
      = Inr (found \<or> (pending cpu st j \<and> r j (world st j) = -1), st1)" "ap_passed r cpu {j} st st1"
    using apload_answering [of j st cpu r found] Cons.prems(2) by auto
  have "\<forall>i\<in>set js. i < length (percpu_status st1 cpu)" using Cons.prems(2) st1(2) by (simp add: ap_passed_def)
  then obtain st2 where st2: "for_each (apload_module (answering r) cpu) js (found \<or> (pending cpu st j \<and> r j (world st j) = -1), st1)
      = Inr ((found \<or> (pending cpu st j \<and> r j (world st j) = -1)) \<or> (\<exists>i\<in>set js. pending cpu st1 i \<and> r i (world st1 i) = -1), st2)"
    "ap_passed r cpu (set js) st1 st2"
    using Cons.IH [of st1] Cons.prems(1) by fastforce
  have "i \<in> set js \<Longrightarrow> i \<notin> {j}" for i using Cons.prems(1) by auto
  then have eq: "(\<exists>i\<in>set js. pending cpu st1 i \<and> r i (world st1 i) = -1) = (\<exists>i\<in>set js. pending cpu st i \<and> r i (world st i) = -1)"
    using ap_passed_pending [OF st1(2)] by metis
  have "ap_passed r cpu (set (j # js)) st st2"
    using ap_passed_trans [OF st1(2) st2(2)] Cons.prems(1) by simp
  then show ?case using st1(1) st2(1) eq by auto
qed

text \<open>The rest of the start: what \<open>m\<close> more passes do for a module that answers with 0 on its call \<open>k\<close>.\<close>

definition ap_served :: "(nat \<Rightarrow> nat \<Rightarrow> int) \<Rightarrow> nat \<Rightarrow> nat \<Rightarrow> nat \<Rightarrow> (nat \<Rightarrow> nat) modules \<Rightarrow> (nat \<Rightarrow> nat) modules \<Rightarrow> bool" where
  "ap_served r cpu n m st st' \<longleftrightarrow>
     all_modules st' = all_modules st
   \<and> (\<forall>i<n. \<not> pending cpu st i \<longrightarrow> percpu_status st' cpu ! i = percpu_status st cpu ! i \<and> world st' i = world st i)
   \<and> (\<forall>i<n. pending cpu st i \<longrightarrow>
        (\<forall>k<m. (\<forall>l<k. r i (world st i + l) = -1) \<and> r i (world st i + k) = 0 \<longrightarrow>
           percpu_status st' cpu ! i = 1 \<and> world st' i = world st i + Suc k)
      \<and> ((\<forall>l<m. r i (world st i + l) = -1) \<longrightarrow> percpu_status st' cpu ! i = 0 \<and> world st' i = world st i + m))"

lemma ap_served_none:
  assumes "m = 0 \<or> (\<forall>i<n. \<not> pending cpu st i)"
  shows "ap_served r cpu n m st st"
  using assms by (auto simp: ap_served_def pending_def)

lemma ap_served_step:
  assumes "ap_passed r cpu {0..<n} st st1" "ap_served r cpu n m st1 st2"
  shows "ap_served r cpu n (Suc m) st st2"
proof -
  have all: "all_modules st2 = all_modules st" using assms by (simp add: ap_passed_def ap_served_def)
  have idle: "percpu_status st2 cpu ! i = percpu_status st1 cpu ! i \<and> world st2 i = world st1 i"
    if "i < n" "\<not> pending cpu st1 i" for i
    using assms(2) that by (simp add: ap_served_def)
  have not: "percpu_status st2 cpu ! i = percpu_status st cpu ! i \<and> world st2 i = world st i"
    if "i < n" "\<not> pending cpu st i" for i
    using idle [OF that(1)] ap_passed_idle [OF assms(1) that(2)] by simp
  have done1: "percpu_status st2 cpu ! i = 1 \<and> world st2 i = world st i + Suc k"
    if "i < n" "pending cpu st i" "k < Suc m" "\<forall>l<k. r i (world st i + l) = -1" "r i (world st i + k) = 0" for i k
  proof (cases k)
    case 0
    then show ?thesis using idle [OF that(1)] ap_passed_called [OF assms(1) _ that(2)] that(1,5) by simp
  next
    case (Suc k')
    then have "r i (world st i) = -1" using that(4) by force
    then have p1: "pending cpu st1 i" "world st1 i = Suc (world st i)"
      using ap_passed_called [OF assms(1) _ that(2)] that(1) by simp_all
    have "\<forall>l<k'. r i (world st1 i + l) = -1" using that(4) Suc p1(2)
      by (metis Suc_less_eq add_Suc_right add_Suc_shift)
    moreover have "r i (world st1 i + k') = 0" using that(5) Suc p1(2) by simp
    ultimately have "percpu_status st2 cpu ! i = 1 \<and> world st2 i = world st1 i + Suc k'"
      using assms(2) that(1,3) p1(1) Suc by (simp add: ap_served_def)
    then show ?thesis using Suc p1(2) by simp
  qed
  have never: "percpu_status st2 cpu ! i = 0 \<and> world st2 i = world st i + Suc m"
    if "i < n" "pending cpu st i" "\<forall>l<Suc m. r i (world st i + l) = -1" for i
  proof -
    have "r i (world st i) = -1" using that(3) by force
    then have p1: "pending cpu st1 i" "world st1 i = Suc (world st i)"
      using ap_passed_called [OF assms(1) _ that(2)] that(1) by simp_all
    have "\<forall>l<m. r i (world st1 i + l) = -1" using that(3) p1(2)
      by (metis Suc_less_eq add_Suc_right add_Suc_shift)
    then have "percpu_status st2 cpu ! i = 0 \<and> world st2 i = world st1 i + m"
      using assms(2) that(1) p1(1) by (simp add: ap_served_def)
    then show ?thesis using p1(2) by simp
  qed
  show ?thesis unfolding ap_served_def using all not done1 never by blast
qed

lemma ap_round:
  assumes "\<forall>i k. r i k \<in> {0, -1}" "n \<le> length (percpu_status st cpu)"
  shows "\<exists>st1. for_each (apload_module (answering r) cpu) [0..<n] (False, st) = Inr (\<exists>i<n. pending cpu st1 i, st1)
           \<and> ap_passed r cpu {0..<n} st st1 \<and> n \<le> length (percpu_status st1 cpu)"
proof -
  obtain st1 where st1: "for_each (apload_module (answering r) cpu) [0..<n] (False, st)
      = Inr (\<exists>i<n. pending cpu st i \<and> r i (world st i) = -1, st1)" "ap_passed r cpu {0..<n} st st1"
    using ap_pass [of "[0..<n]" st cpu r False] assms(2) by (auto simp: Bex_def)
  have "pending cpu st1 i \<longleftrightarrow> pending cpu st i \<and> r i (world st i) = -1" if "i < n" for i
  proof (cases "pending cpu st i")
    case True
    moreover have "r i (world st i) \<noteq> 0 \<longleftrightarrow> r i (world st i) = -1"
      using assms(1) [rule_format, of i "world st i"] by auto
    ultimately show ?thesis using ap_passed_called(1) [OF st1(2)] that by auto
  next
    case False
    then show ?thesis using ap_passed_idle(1) [OF st1(2)] by blast
  qed
  then have "(\<exists>i<n. pending cpu st i \<and> r i (world st i) = -1) \<longleftrightarrow> (\<exists>i<n. pending cpu st1 i)" by blast
  moreover have "n \<le> length (percpu_status st1 cpu)" using st1(2) assms(2) by (simp add: ap_passed_def)
  ultimately show ?thesis using st1 by auto
qed

lemma ap_retry:
  assumes "found \<longleftrightarrow> (\<exists>i<n. pending cpu st i)" "\<forall>i k. r i k \<in> {0, -1}" "n \<le> length (percpu_status st cpu)"
  shows "\<exists>f st'. retry_loop (for_each (apload_module (answering r) cpu) [0..<n]) m (found, st) = Inr (f, st')
           \<and> ap_served r cpu n (m - 1) st st'"
  using assms(1,3)
proof (induction m arbitrary: found st)
  case 0
  then show ?case by (simp add: ap_served_none)
next
  case (Suc m)
  show ?case
  proof (cases "found \<and> m \<noteq> 0")
    case False
    then show ?thesis using Suc.prems(1) by (auto intro: ap_served_none)
  next
    case True
    obtain st1 where st1: "for_each (apload_module (answering r) cpu) [0..<n] (False, st) = Inr (\<exists>i<n. pending cpu st1 i, st1)"
      "ap_passed r cpu {0..<n} st st1" "n \<le> length (percpu_status st1 cpu)"
      using ap_round [OF assms(2) Suc.prems(2)] by blast
    obtain f st2 where st2:
      "retry_loop (for_each (apload_module (answering r) cpu) [0..<n]) m (\<exists>i<n. pending cpu st1 i, st1) = Inr (f, st2)"
      "ap_served r cpu n (m - 1) st1 st2"
      using Suc.IH [OF refl st1(3)] by blast
    have "ap_served r cpu n (Suc (m - 1)) st st2" using ap_served_step [OF st1(2) st2(2)] .
    then show ?thesis using True st1(1) st2(1) by auto
  qed
qed

section \<open>Properties\<close>

lemma init_module_run:
  assumes "section_holds sec ps" "length (filter registers ps) \<le> 256" "length (all_modules st) = 256"
  shows "\<exists>st1 k. init_module (answering r) sec st = Inr (again k [0..<length (filter registers ps)] st1)
           \<and> total_modules st1 = length (filter registers ps) \<and> k \<le> 9
           \<and> ((\<exists>i<length (filter registers ps). r i (world st i) = -1) \<longrightarrow> k \<ge> 1)
           \<and> (\<forall>i<length (filter registers ps).
                all_modules st1 ! i = registered i (filter registers ps ! i) (if r i (world st i) = 0 then 1 else 0)
                \<and> world st1 i = Suc (world st i))"
proof -
  define n where "n = length (filter registers ps)"
  obtain st1 where st1: "load_entries (answering r) ps (0, False, st) = Inr (n, \<exists>k<n. r k (world st k) = -1, st1)"
    "\<forall>i<n. all_modules st1 ! i = registered i (filter registers ps ! i) (if r i (world st i) = 0 then 1 else 0)
       \<and> world st1 i = Suc (world st i)"
    using load_entries_answering [of 0 ps st r False] assms(2,3) by (auto simp: n_def)
  let ?f = "\<exists>k<n. r k (world st k) = -1" and ?st = "st1\<lparr>total_modules := n\<rparr>"
  obtain f k where k: "retry_loop (for_each (reload_module (answering r)) [0..<n]) 10 (?f, ?st) = Inr (f, again k [0..<n] ?st)"
    "k \<le> 10 - 1" "?f \<and> (10 :: nat) \<ge> 2 \<longrightarrow> k \<ge> 1"
    using reload_loop [OF distinct_upt, of r 0 n 10 ?f ?st] by blast
  have "init_module (answering r) sec st = Inr (again k [0..<n] ?st)"
    using k(1) st1(1) section_loop [OF assms(1), of "answering r"] by (simp add: init_module_def)
  then show ?thesis using k(2,3) st1(2) unfolding n_def [symmetric]
    by (intro exI [of _ ?st] exI [of _ k]) simp
qed

text \<open>
  C31: init_module registers the entries of the module section that have a name and a handler, in the
  order of the section, whatever their handlers answer; a module is marked loaded exactly when the
  first call of its handler returns MOD_ERR_OK, and no handler is called more than ten times.\<close>

theorem init_module_registers:
  assumes "section_holds sec ps" "length (filter registers ps) \<le> 256"
    "length (all_modules st) = 256" "\<forall>i. world st i = 0"
  shows "\<exists>st'. init_module (answering r) sec st = Inr st' \<and> total_modules st' = length (filter registers ps)
           \<and> (\<forall>i<total_modules st'.
                all_modules st' ! i = registered i (filter registers ps ! i) (if r i 0 = 0 then 1 else 0)
                \<and> 1 \<le> world st' i \<and> world st' i \<le> 10)"
proof -
  obtain st1 k where "init_module (answering r) sec st = Inr (again k [0..<length (filter registers ps)] st1)"
    "total_modules st1 = length (filter registers ps)" "k \<le> 9"
    "\<forall>i<length (filter registers ps).
       all_modules st1 ! i = registered i (filter registers ps ! i) (if r i 0 = 0 then 1 else 0) \<and> world st1 i = 1"
    using init_module_run [OF assms(1-3), of r] assms(4) by auto
  then show ?thesis by (auto simp: again_def)
qed

text \<open>
  The modules init_module calls again are the wrong ones: when some module asks for another loop,
  that module is never called again and stays unloaded, and every module that is already loaded is
  loaded once more at least.\<close>

theorem next_loop_not_retried:
  assumes "section_holds sec ps" "length (filter registers ps) \<le> 256"
    "length (all_modules st) = 256" "\<forall>i. world st i = 0"
    and "i < length (filter registers ps)" "r i 0 = MOD_ERR_NEXTLOOP"
  shows "\<exists>st'. init_module (answering r) sec st = Inr st'
           \<and> world st' i = 1 \<and> m_status (all_modules st' ! i) = MODULE_INIT
           \<and> (\<forall>j<length (filter registers ps). r j 0 = MOD_ERR_OK \<longrightarrow> 2 \<le> world st' j)"
proof -
  obtain st1 k where "init_module (answering r) sec st = Inr (again k [0..<length (filter registers ps)] st1)"
    "total_modules st1 = length (filter registers ps)" "(\<exists>i<length (filter registers ps). r i 0 = -1) \<longrightarrow> k \<ge> 1"
    "\<forall>i<length (filter registers ps).
       all_modules st1 ! i = registered i (filter registers ps ! i) (if r i 0 = 0 then 1 else 0) \<and> world st1 i = 1"
    using init_module_run [OF assms(1-3), of r] assms(4) by auto
  then show ?thesis using assms(5,6) by (auto simp: again_def registered_def)
qed

text \<open>
  C32: On another processor, with modules that answer MOD_ERR_OK or MOD_ERR_NEXTLOOP, init_module_ap returns; a loaded module that is not
  yet loaded there and answers MOD_ERR_NEXTLOOP for fewer than ten calls and then MOD_ERR_OK is marked loaded
  and was called no more often than that.\<close>

theorem init_module_ap_loads:
  assumes "\<forall>i k. r i k \<in> {MOD_ERR_OK, MOD_ERR_NEXTLOOP}" "total_modules st \<le> length (percpu_status st cpu)"
    "\<forall>i. world st i = 0"
    and "i < total_modules st" "m_status (all_modules st ! i) = MODULE_LOADED" "percpu_status st cpu ! i = MODULE_INIT"
    and "\<forall>l<k. r i l = MOD_ERR_NEXTLOOP" "k < 10" "r i k = MOD_ERR_OK"
  shows "\<exists>st'. init_module_ap (answering r) cpu st = Inr st'
           \<and> percpu_status st' cpu ! i = MODULE_LOADED \<and> world st' i = Suc k"
proof -
  let ?n = "total_modules st"
  obtain st1 where st1: "for_each (apload_module (answering r) cpu) [0..<?n] (False, st) = Inr (\<exists>i<?n. pending cpu st1 i, st1)"
    "ap_passed r cpu {0..<?n} st st1" "?n \<le> length (percpu_status st1 cpu)"
    using ap_round [OF assms(1,2)] by blast
  obtain f st2 where st2:
    "retry_loop (for_each (apload_module (answering r) cpu) [0..<?n]) 10 (\<exists>i<?n. pending cpu st1 i, st1) = Inr (f, st2)"
    "ap_served r cpu ?n (10 - 1) st1 st2"
    using ap_retry [OF refl assms(1) st1(3)] by blast
  have "ap_served r cpu ?n (Suc (10 - 1)) st st2" using ap_served_step [OF st1(2) st2(2)] .
  then have "percpu_status st2 cpu ! i = 1 \<and> world st2 i = Suc k"
    using assms(3-9) by (simp add: ap_served_def pending_def)
  moreover have "init_module_ap (answering r) cpu st = Inr st2"
    using st1(1) st2(1) by (simp add: init_module_ap_def)
  ultimately show ?thesis by blast
qed

text \<open>Handlers that record their calls.\<close>

definition logging :: "(nat \<Rightarrow> modeventtype_t \<Rightarrow> int) \<Rightarrow> (nat \<times> modeventtype_t) list modeventhand" where
  "logging r h i ev arg w = Inr (r i ev, w @ [(i, ev)])"

lemma step_log:
  "for_each (step_module (logging r) ev) js st
     = Inr (st\<lparr>world := world st @ map (\<lambda>i. (i, ev)) (filter (loaded st) js)\<rparr>)"
  by (induction js arbitrary: st) (auto simp: step_module_def call_module_def logging_def)

lemma init_module_step_log:
  "init_module_step (logging r) ev st
     = Inr (st\<lparr>world := world st @ map (\<lambda>i. (i, ev)) (filter (loaded st) [0..<total_modules st])\<rparr>)"
  unfolding init_module_step_def by (rule step_log)

text \<open>
  The later start-up levels reach exactly the loaded modules: init_module_subsys and then
  init_module_device, the order of their initcall levels, send every loaded module its subsystem event
  and then its device event, each once and in the order of the table.\<close>

theorem module_levels_in_order:
  "andThen (init_module_subsys (logging r) isbp st) (init_module_device (logging r) isbp)
     = Inr (st\<lparr>world := world st
         @ map (\<lambda>i. (i, if isbp then MOD_BPSUBSYS else MOD_APSUBSYS)) (filter (loaded st) [0..<total_modules st])
         @ map (\<lambda>i. (i, if isbp then MOD_BPDEVICE else MOD_APDEVICE)) (filter (loaded st) [0..<total_modules st])\<rparr>)"
  by (simp add: init_module_subsys_def init_module_device_def init_module_step_log)

text \<open>
  A section of three entries at the distance 32, the second of them empty; the first module is loaded at
  once, the other asks for another loop once.
\<close>

definition sample_entries :: "moduledata list" where
  "sample_entries = [\<lparr>md_name = 1, md_evhand = 0x1000, md_priv = 0\<rparr>, \<lparr>md_name = 0, md_evhand = 0, md_priv = 0\<rparr>,
     \<lparr>md_name = 2, md_evhand = 0x2000, md_priv = 7\<rparr>]"

definition sample_section :: module_section where
  "sample_section = \<lparr>data_start = 0x100, data_end = 0x160, dummy1 = 0x120, dummy2 = 0x100,
     entry_at = (\<lambda>p. sample_entries ! (unat (p - 0x100) div 32))\<rparr>"

definition sample_modules :: "int \<Rightarrow> (nat \<Rightarrow> nat) modules" where
  "sample_modules s = \<lparr>all_modules = replicate 256 \<lparr>m_status = s, m_id = 0, m_name = 0, m_handler = 0, m_arg = 0, m_data = 0\<rparr>,
     percpu_status = (\<lambda>_. replicate 256 0), total_modules = 2, world = (\<lambda>_. 0)\<rparr>"

definition sample_answer :: "nat \<Rightarrow> nat \<Rightarrow> int" where
  "sample_answer i k = (if i = 1 \<and> k = 0 then MOD_ERR_NEXTLOOP else MOD_ERR_OK)"

lemma sample_section_holds: "section_holds sample_section sample_entries"
proof -
  have "entry_at sample_section (0x100 + of_nat k * 32) = sample_entries ! k" if "k < 3" for k
  proof -
    have "k = 0 \<or> k = 1 \<or> k = 2" using that by auto
    then show ?thesis by (auto simp: sample_section_def)
  qed
  then show ?thesis
    by (simp add: section_holds_def myabs_def) (simp add: sample_section_def sample_entries_def)
qed

lemma sample_filter: "filter registers sample_entries = [sample_entries ! 0, sample_entries ! 2]"
  by code_simp

theorem init_module_registers_witness:
  "\<exists>st'. init_module (answering sample_answer) sample_section (sample_modules 0) = Inr st'
     \<and> all_modules st' ! 0 = \<lparr>m_status = 1, m_id = 0, m_name = 1, m_handler = 0x1000, m_arg = 0, m_data = 0\<rparr>"
proof -
  have n: "length (filter registers sample_entries) = 2" by (simp add: sample_filter)
  have "registered 0 (filter registers sample_entries ! 0) 1
      = \<lparr>m_status = 1, m_id = 0, m_name = 1, m_handler = 0x1000, m_arg = 0, m_data = 0\<rparr>"
    by (simp add: sample_filter registered_def) (simp add: sample_entries_def)
  moreover have "length (all_modules (sample_modules 0)) = 256" "\<forall>i. world (sample_modules 0) i = 0" "sample_answer 0 0 = 0"
    by (simp_all add: sample_modules_def sample_answer_def)
  ultimately show ?thesis
    using init_module_registers [OF sample_section_holds, of "sample_modules 0" sample_answer] n by fastforce
qed

theorem next_loop_not_retried_witness:
  "sample_answer 1 0 = MOD_ERR_NEXTLOOP
   \<and> (\<exists>st'. init_module (answering sample_answer) sample_section (sample_modules 0) = Inr st'
        \<and> world st' 1 = 1 \<and> m_status (all_modules st' ! 1) = 0 \<and> 2 \<le> world st' 0)"
proof -
  have "length (filter registers sample_entries) = 2" by (simp add: sample_filter)
  then show ?thesis
    using next_loop_not_retried [OF sample_section_holds, of "sample_modules 0" 1 sample_answer]
    by (auto simp: sample_modules_def sample_answer_def)
qed

theorem init_module_ap_loads_witness:
  "\<exists>st'. init_module_ap (answering sample_answer) 3 (sample_modules 1) = Inr st'
     \<and> percpu_status st' 3 ! 1 = 1 \<and> world st' 1 = 2"
  using init_module_ap_loads [of sample_answer "sample_modules 1" 3 1 1]
  by (auto simp: sample_modules_def sample_answer_def numeral_2_eq_2)

end
