(* ===== verification/Slub.thy ===== *)
theory Slub
  imports Yaos_Page Module
begin

text \<open>
  The allocator of small objects, \<open>module/mm/slub.c\<close> and \<open>module/mm/slub.h\<close>: caches of
  objects of one size, each with a list of free objects that is threaded through the objects
  themselves, and four bits per 4K page that tell \<open>free\<close> which cache the page belongs to. This
  theory holds the model; \<open>Slub_Correct\<close> holds its invariant and its properties.
\<close>

section \<open>State\<close>

abbreviation (input) LARGE_IDX :: nat where "LARGE_IDX \<equiv> 15"
abbreviation (input) LARGE_NEXT :: nat where "LARGE_NEXT \<equiv> 14"
abbreviation (input) ZERO_SIZE_PTR :: ulong where "ZERO_SIZE_PTR \<equiv> 16"
abbreviation (input) KMALLOC_SHIFT_LOW :: nat where "KMALLOC_SHIFT_LOW \<equiv> 3"
abbreviation (input) KMALLOC_SHIFT_HIGH :: nat where "KMALLOC_SHIFT_HIGH \<equiv> 12"
abbreviation (input) KMALLOC_MAX_SIZE :: ulong where "KMALLOC_MAX_SIZE \<equiv> 0x800000"
abbreviation (input) KMALLOC_MAX_CACHE_SIZE :: ulong where "KMALLOC_MAX_CACHE_SIZE \<equiv> 0x1000"

record kmem_cache =
  kc_idx :: u8
  kc_size :: int
  kc_name :: "string option"
  kc_freehead :: ulong

text \<open>
  Of a cache the fields \<open>page\<close>, \<open>resverd\<close> and \<open>flags\<close> are left out, which nobody reads.
  The caches and the word \<open>installed\<close> are those of the processor that runs. \<open>words\<close> is
  the memory of the objects, by the address of a word: the first word of a free object is its
  link. \<open>page_bits\<close> is the array the pointer of that name points to, at \<open>page_bits_at\<close>.
\<close>

record slub = yaos +
  kmalloc_caches :: "nat \<Rightarrow> kmem_cache"
  page_bits_at :: ulong
  page_bits :: "nat \<Rightarrow> u8"
  words :: "ulong \<Rightarrow> ulong"
  slub_ok :: bool
  installed :: ulong

section \<open>Classes of sizes\<close>

definition size_index :: "nat list" where
  "size_index = [4, 4, 5, 5, 6, 6, 6, 6, 1, 1, 1, 1, 7, 7, 7, 7, 2, 2, 2, 2, 2, 2, 2, 2]"

definition kmalloc_info :: "(string option \<times> int) list" where
  "kmalloc_info =
     [(None, 0), (Some ''kmalloc-96'', 96), (Some ''kmalloc-192'', 192), (Some ''kmalloc-8'', 8),
      (Some ''kmalloc-16'', 16), (Some ''kmalloc-32'', 32), (Some ''kmalloc-64'', 64), (Some ''kmalloc-128'', 128),
      (Some ''kmalloc-256'', 256), (Some ''kmalloc-512'', 512), (Some ''kmalloc-1024'', 1024),
      (Some ''kmalloc-2048'', 2048), (Some ''kmalloc-4096'', 4096), (Some ''kmalloc-8192'', 8192),
      (Some ''kmalloc-16384'', 16384), (Some ''kmalloc-32768'', 32768), (Some ''kmalloc-65536'', 65536),
      (Some ''kmalloc-131072'', 131072), (Some ''kmalloc-262144'', 262144), (Some ''kmalloc-524288'', 524288),
      (Some ''kmalloc-1048576'', 1048576), (Some ''kmalloc-2097152'', 2097152), (Some ''kmalloc-4194304'', 4194304),
      (Some ''kmalloc-8388608'', 8388608), (Some ''kmalloc-16777216'', 16777216),
      (Some ''kmalloc-33554432'', 33554432), (Some ''kmalloc-67108864'', 67108864)]"

definition size_index_elem :: "ulong \<Rightarrow> nat" where
  "size_index_elem bytes = unat ((bytes - 1) div 8)"

text \<open>\<open>fls\<close> of \<open>asm/bitops.h\<close>: one more than the number of the highest bit that is set, 0 for 0.\<close>

fun bit_count :: "nat \<Rightarrow> nat" where
  "bit_count n = (if n = 0 then 0 else Suc (bit_count (n div 2)))"

declare bit_count.simps [simp del]

definition fls :: "u32 \<Rightarrow> nat" where
  "fls x = bit_count (unat x)"

text \<open>A result of \<open>kmalloc_slab\<close>: NULL, the mark for an empty object, or a cache by its number.\<close>

datatype slab_ref = No_slab | Zero_slab | Slab nat

definition kmalloc_slab :: "ulong \<Rightarrow> slab_ref" where
  "kmalloc_slab sz =
     (if sz > KMALLOC_MAX_SIZE then No_slab
      else if sz \<le> 192 then
        (if sz = 0 then Zero_slab else Slab (size_index ! size_index_elem sz))
      else Slab (fls (ucast (sz - 1))))"

text \<open>\<open>kmalloc_index\<close> of \<open>slub.h\<close>, a second way to the number of a cache; \<open>None\<close> is \<open>BUG()\<close>.\<close>

definition kmalloc_index :: "ulong \<Rightarrow> nat option" where
  "kmalloc_index sz =
     (if sz = 0 then Some 0
      else if sz \<le> 8 then Some KMALLOC_SHIFT_LOW
      else if sz > 64 \<and> sz \<le> 96 then Some 1
      else if sz > 128 \<and> sz \<le> 192 then Some 2
      else if sz \<le> 8 then Some 3
      else if sz \<le> 16 then Some 4
      else if sz \<le> 32 then Some 5
      else if sz \<le> 64 then Some 6
      else if sz \<le> 128 then Some 7
      else if sz \<le> 256 then Some 8
      else if sz \<le> 512 then Some 9
      else if sz \<le> 1024 then Some 10
      else if sz \<le> 2 * 1024 then Some 11
      else if sz \<le> 4 * 1024 then Some 12
      else if sz \<le> 8 * 1024 then Some 13
      else if sz \<le> 16 * 1024 then Some 14
      else if sz \<le> 32 * 1024 then Some 15
      else if sz \<le> 64 * 1024 then Some 16
      else if sz \<le> 128 * 1024 then Some 17
      else if sz \<le> 256 * 1024 then Some 18
      else if sz \<le> 512 * 1024 then Some 19
      else if sz \<le> 1024 * 1024 then Some 20
      else if sz \<le> 2 * 1024 * 1024 then Some 21
      else if sz \<le> 4 * 1024 * 1024 then Some 22
      else if sz \<le> 8 * 1024 * 1024 then Some 23
      else if sz \<le> 16 * 1024 * 1024 then Some 24
      else if sz \<le> 32 * 1024 * 1024 then Some 25
      else if sz \<le> 64 * 1024 * 1024 then Some 26
      else None)"

section \<open>Caches\<close>

definition upd_cache :: "nat \<Rightarrow> (kmem_cache \<Rightarrow> kmem_cache) \<Rightarrow> slub \<Rightarrow> slub" where
  "upd_cache i f st = st\<lparr>kmalloc_caches := (kmalloc_caches st)(i := f (kmalloc_caches st i))\<rparr>"

definition new_kmalloc_cache :: "nat \<Rightarrow> slub \<Rightarrow> slub outcome" where
  "new_kmalloc_cache idx st =
     andThen (ASSERT (idx \<le> LARGE_IDX)) (\<lambda>_.
     let st1 = upd_cache idx (\<lambda>_. \<lparr>kc_idx = of_nat idx, kc_size = snd (kmalloc_info ! idx),
                 kc_name = fst (kmalloc_info ! idx), kc_freehead = 0\<rparr>) st in
     andThen (ASSERT (idx < 2 ^ 16)) (\<lambda>_. Inr st1))"

text \<open>The loop from \<open>i\<close> up to \<open>KMALLOC_SHIFT_HIGH\<close>; \<open>KMALLOC_MIN_SIZE\<close> is 8.\<close>

function create_caches_from :: "nat \<Rightarrow> slub \<Rightarrow> slub outcome" where
  "create_caches_from i st =
     (if i > KMALLOC_SHIFT_HIGH then Inr st
      else andThen (new_kmalloc_cache i st) (\<lambda>st1.
        andThen (if i = 6 then new_kmalloc_cache 1 st1 else Inr st1) (\<lambda>st2.
        andThen (if i = 7 then new_kmalloc_cache 2 st2 else Inr st2) (\<lambda>st3.
        create_caches_from (Suc i) st3))))"
  by pat_completeness auto

termination by (relation "measure (\<lambda>(i, _). Suc KMALLOC_SHIFT_HIGH - i)") auto

declare create_caches_from.simps [simp del]

definition create_kmalloc_caches :: "slub \<Rightarrow> slub outcome" where
  "create_kmalloc_caches st =
     andThen (create_caches_from KMALLOC_SHIFT_LOW st) (\<lambda>st1.
     andThen (new_kmalloc_cache LARGE_IDX st1) (\<lambda>st2.
     new_kmalloc_cache LARGE_NEXT st2))"

section \<open>Four bits per page\<close>

definition page_nibble :: "(nat \<Rightarrow> u8) \<Rightarrow> ulong \<Rightarrow> u8" where
  "page_nibble bits k =
     (if k AND 1 \<noteq> 0 then drop_bit 4 (bits (unat (k div 2))) AND 0xf else bits (unat (k div 2)) AND 0xf)"

definition get_idx_from_addr :: "ulong \<Rightarrow> slub \<Rightarrow> u8 outcome" where
  "get_idx_from_addr addr st = andThen (V2P addr) (\<lambda>a. Inr (page_nibble (page_bits st) (drop_bit 12 a)))"

definition set_nibble :: "ulong \<Rightarrow> u8 \<Rightarrow> (nat \<Rightarrow> u8) \<Rightarrow> (nat \<Rightarrow> u8)" where
  "set_nibble k setidx bits =
     (let idx = bits (unat (k div 2)) in
      bits(unat (k div 2) := if k AND 1 \<noteq> 0 then (idx AND 0xf) OR push_bit 4 setidx else (idx AND 0xf0) OR setidx))"

definition set_idx_from_addr :: "ulong \<Rightarrow> u8 \<Rightarrow> slub \<Rightarrow> slub outcome" where
  "set_idx_from_addr addr setidx st =
     andThen (V2P addr) (\<lambda>a. Inr (st\<lparr>page_bits := set_nibble (drop_bit 12 a) setidx (page_bits st)\<rparr>))"

definition get_cache_from_addr :: "ulong \<Rightarrow> slub \<Rightarrow> nat outcome" where
  "get_cache_from_addr addr st = andThen (get_idx_from_addr addr st) (\<lambda>idx. Inr (unat idx))"

section \<open>Release\<close>

definition in_direct_map :: "ulong \<Rightarrow> bool" where
  "in_direct_map p \<longleftrightarrow> p > PHYS_VIRT_START \<and> p < PHYS_VIRT_END"

text \<open>The \<open>do\<close> loop of \<open>__kmfree\<close>: the size of a large block, from the marks of the pages behind it.\<close>

partial_function (option) large_size_loop :: "(nat \<Rightarrow> u8) \<Rightarrow> ulong \<Rightarrow> ulong \<Rightarrow> ulong option" where
  "large_size_loop bits k sz =
     (if page_nibble bits (k + 1) = of_nat LARGE_NEXT then large_size_loop bits (k + 1) (sz + 0x1000)
      else Some (sz + 0x1000))"

declare large_size_loop.simps [code]

definition kmfree :: "ulong \<Rightarrow> ulong \<Rightarrow> slub \<Rightarrow> slub outcome" where
  "kmfree junk p st =
     (if p = ZERO_SIZE_PTR then Inr st
      else
        andThen (ASSERT (in_direct_map p)) (\<lambda>_.
        andThen (get_cache_from_addr p st) (\<lambda>i.
        let s = kmalloc_caches st i in
        if kc_idx s = of_nat LARGE_IDX then
          andThen (V2P p) (\<lambda>a.
          andThen (ending (large_size_loop (page_bits st) (drop_bit 12 a) 0)) (\<lambda>sz.
          yaos_heap_free_4k junk p sz st))
        else
          andThen (ASSERT (p AND of_int (kc_size s - 1) = 0)) (\<lambda>_.
          let st1 = upd_cache i (\<lambda>c. c\<lparr>kc_freehead := p\<rparr>) (st\<lparr>words := (words st)(p := kc_freehead s)\<rparr>) in
          andThen (ASSERT (p = 0 \<or> in_direct_map p)) (\<lambda>_. Inr st1)))))"

section \<open>Allocation\<close>

text \<open>\<open>while (pnext <= pend)\<close>: each object of the new page is linked to the next one.\<close>

partial_function (option) link_loop ::
  "ulong \<Rightarrow> ulong \<Rightarrow> ulong \<Rightarrow> ulong \<Rightarrow> (ulong \<Rightarrow> ulong) \<Rightarrow> (ulong \<times> (ulong \<Rightarrow> ulong)) option" where
  "link_loop sz pend pf pn w =
     (if pn \<le> pend then link_loop sz pend pn (pn + sz) (w(pf := pn)) else Some (pf, w))"

declare link_loop.simps [code]

definition slub_add_page :: "ulong \<Rightarrow> nat \<Rightarrow> slub \<Rightarrow> (bool \<times> slub) outcome" where
  "slub_add_page junk i st =
     andThen (yaos_heap_alloc_4k junk 0x1000 st) (\<lambda>(addr, st1).
     andThen (ASSERT (in_direct_map addr)) (\<lambda>_.
     if addr = 0 then Inr (False, st1)
     else
       let s = kmalloc_caches st1 i; sz = of_int (kc_size s) in
       andThen (ending (link_loop sz (addr + 0x1000 - sz) addr (addr + sz) (words st1))) (\<lambda>(pf, w).
       let st2 = upd_cache i (\<lambda>c. c\<lparr>kc_freehead := addr\<rparr>) (st1\<lparr>words := w(pf := kc_freehead s)\<rparr>) in
       andThen (ASSERT (addr = 0 \<or> in_direct_map addr)) (\<lambda>_.
       andThen (ASSERT (kc_idx s < 16)) (\<lambda>_.
       andThen (set_idx_from_addr addr (kc_idx s) st2) (\<lambda>st3. Inr (True, st3)))))))"

text \<open>The end of \<open>__kmalloc\<close>: the first free object is taken off the list.\<close>

definition take_object :: "nat \<Rightarrow> slub \<Rightarrow> (ulong \<times> slub) outcome" where
  "take_object i st =
     (let s = kmalloc_caches st i; pf = kc_freehead s; rest = words st pf in
      andThen (ASSERT (in_direct_map pf)) (\<lambda>_.
      andThen (ASSERT (rest = 0 \<or> in_direct_map rest)) (\<lambda>_.
      andThen (ASSERT (kc_size s \<ge> 0x1000 \<or> (pf AND 0xfff) + of_int (kc_size s) \<le> 0x1000)) (\<lambda>_.
      Inr (pf, upd_cache i (\<lambda>c. c\<lparr>kc_freehead := rest\<rparr>) st)))))"

definition kmalloc :: "ulong \<Rightarrow> ulong \<Rightarrow> slub \<Rightarrow> (ulong \<times> slub) outcome" where
  "kmalloc junk sz st =
     andThen (ASSERT (installed st \<noteq> 0)) (\<lambda>_.
     case kmalloc_slab sz of
       Zero_slab \<Rightarrow> Inr (ZERO_SIZE_PTR, st)
     | No_slab \<Rightarrow> Inr (0, st)
     | Slab i \<Rightarrow>
         if kc_freehead (kmalloc_caches st i) = 0 then
           andThen (slub_add_page junk i st) (\<lambda>(ok, st1).
           if \<not> ok then Inr (0, st1)
           else andThen (ASSERT (kc_freehead (kmalloc_caches st1 i) \<noteq> 0)) (\<lambda>_. take_object i st1))
         else take_object i st)"

text \<open>\<open>while (newaddr < addr + newsize)\<close>: the pages behind the first one are marked.\<close>

partial_function (option) mark_next_loop :: "ulong \<Rightarrow> ulong \<Rightarrow> slub \<Rightarrow> slub outcome option" where
  "mark_next_loop newaddr stop st =
     (if newaddr < stop then
        (case set_idx_from_addr newaddr (of_nat LARGE_NEXT) st of
           Inl e \<Rightarrow> Some (Inl e)
         | Inr st1 \<Rightarrow> mark_next_loop (newaddr + 0x1000) stop st1)
      else Some (Inr st))"

declare mark_next_loop.simps [code]

definition kmalloc_large :: "ulong \<Rightarrow> ulong \<Rightarrow> slub \<Rightarrow> (ulong \<times> slub) outcome" where
  "kmalloc_large junk sz st =
     (let newsize = (sz + 0xfff) AND NOT 0xfff in
      andThen (yaos_heap_alloc_4k junk newsize st) (\<lambda>(addr, st1).
      if addr = 0 then Inr (0, st1)
      else
        andThen (set_idx_from_addr addr (of_nat LARGE_IDX) st1) (\<lambda>st2.
        andThen (ending (mark_next_loop (addr + 0x1000) (addr + newsize) st2)) (\<lambda>r.
        andThen r (\<lambda>st3. Inr (addr, st3))))))"

section \<open>The calls of the module\<close>

definition slub_mfree :: "ulong \<Rightarrow> ulong \<Rightarrow> slub \<Rightarrow> (ret_t \<times> slub) outcome" where
  "slub_mfree junk p st = andThen (kmfree junk p st) (\<lambda>st1. Inr (\<lparr>rv = 0, re = YAOSCALL_OK\<rparr>, st1))"

definition slub_malloc :: "ulong \<Rightarrow> ulong \<Rightarrow> slub \<Rightarrow> (ret_t \<times> slub) outcome" where
  "slub_malloc junk sz st =
     andThen (if sz > KMALLOC_MAX_CACHE_SIZE then kmalloc_large junk sz st else kmalloc junk sz st) (\<lambda>(addr, st1).
     Inr (\<lparr>rv = addr, re = (if addr = 0 then ERR_YAOSCALL_NO_MEM else YAOSCALL_OK)\<rparr>, st1))"

definition page_bits_size :: "ulong \<Rightarrow> ulong" where
  "page_bits_size maxaddr = (drop_bit 12 maxaddr div 2 + 1 + (0x1000 - 1)) AND NOT 0xfff"

definition init_slub_bp :: "ulong \<Rightarrow> slub \<Rightarrow> slub outcome" where
  "init_slub_bp junk st =
     andThen (yaos_max_physical_mem junk st) (\<lambda>(maxaddr, st1).
     let sz = page_bits_size maxaddr in
     andThen (yaos_heap_alloc_4k junk sz st1) (\<lambda>(addr, st2).
     Inr (st2\<lparr>page_bits_at := addr, page_bits := (\<lambda>k. if k < unat sz then 0 else page_bits st2 k)\<rparr>)))"

definition init_slub_ap :: "slub \<Rightarrow> slub outcome" where
  "init_slub_ap st =
     andThen (create_kmalloc_caches st) (\<lambda>st1. Inr (st1\<lparr>slub_ok := True, installed := 0xa5a5\<rparr>))"

definition slub_main :: "ulong \<Rightarrow> modeventtype_t \<Rightarrow> bool \<Rightarrow> slub \<Rightarrow> (int \<times> slub) outcome" where
  "slub_main junk env is_bp st =
     (case env of
        MOD_BPLOAD \<Rightarrow>
          andThen (init_slub_bp junk (st\<lparr>slub_ok := False\<rparr>)) (\<lambda>st1.
          andThen (init_slub_ap st1) (\<lambda>st2.
          Inr (0, regist_yaoscall YAOS_mfree f_slub_mfree (regist_yaoscall YAOS_malloc f_slub_malloc st2))))
      | MOD_APLOAD \<Rightarrow>
          if \<not> is_bp then andThen (init_slub_ap st) (\<lambda>st1. Inr (0, st1)) else Inr (0, st)
      | _ \<Rightarrow> Inr (0, st))"

text \<open>\<open>yaos_malloc\<close> and \<open>yaos_mfree\<close> of \<open>include/yaoscall/malloc.h\<close>.\<close>

definition slub_call :: "ulong \<Rightarrow> yaoscall_id \<Rightarrow> ulong list \<Rightarrow> slub \<Rightarrow> (ret_t \<times> slub) outcome" where
  "slub_call junk i args st =
     (case yaoscall_p i st of
        f_slub_malloc \<Rightarrow> slub_malloc junk (arg_reg junk args 0) st
      | f_slub_mfree \<Rightarrow> slub_mfree junk (arg_reg junk args 0) st
      | _ \<Rightarrow> yaoscall junk i args st)"

definition yaos_malloc :: "ulong \<Rightarrow> ulong \<Rightarrow> slub \<Rightarrow> (ulong \<times> slub) outcome" where
  "yaos_malloc junk sz st = andThen (slub_call junk YAOS_malloc [sz] st) (\<lambda>(r, st1). Inr (rv r, st1))"

definition yaos_mfree :: "ulong \<Rightarrow> ulong \<Rightarrow> slub \<Rightarrow> slub outcome" where
  "yaos_mfree junk p st = andThen (slub_call junk YAOS_mfree [p] st) (\<lambda>(r, st1). Inr st1)"

end
