(* ===== verification/Slub_Parts.thy ===== *)
theory Slub_Parts
  imports Slub
begin

text \<open>
  The parts of the allocator of small objects, \<open>module/mm/slub.c\<close>, that stand alone: the
  choice of the cache, the four bits per page, and the list that is threaded through a new page.
\<close>

section \<open>Classes of sizes\<close>

definition class_size :: "nat \<Rightarrow> nat" where
  "class_size k = nat (snd (kmalloc_info ! k))"

definition slab_class :: "ulong \<Rightarrow> nat" where
  "slab_class sz = (case kmalloc_slab sz of Slab i \<Rightarrow> i | _ \<Rightarrow> 0)"

text \<open>The caches that serve requests, by number.\<close>

abbreviation used_classes :: "nat list" where "used_classes \<equiv> [4, 5, 6, 1, 7, 2, 8, 9, 10, 11, 12]"

lemma bit_count_unique: "2 ^ k \<le> n \<Longrightarrow> n < 2 ^ Suc k \<Longrightarrow> bit_count n = Suc k"
proof (induction k arbitrary: n)
  case 0
  then have "n = 1" by simp
  then show ?case by (simp add: bit_count.simps)
next
  case (Suc k)
  then have "bit_count (n div 2) = Suc k" by (intro Suc.IH) simp_all
  moreover have "n \<noteq> 0" using Suc.prems(1) by (cases n) simp_all
  ultimately show ?case by (simp add: bit_count.simps [of n])
qed

lemma class_size_simps:
  "class_size 1 = 96" "class_size (Suc 0) = 96" "class_size 2 = 192" "class_size 3 = 8" "class_size 4 = 16" "class_size 5 = 32"
  "class_size 6 = 64" "class_size 7 = 128" "class_size 8 = 256" "class_size 9 = 512" "class_size 10 = 1024"
  "class_size 11 = 2048" "class_size 12 = 4096"
  by (simp_all add: class_size_def kmalloc_info_def)

text \<open>The class of a request by its size, as a table of intervals.\<close>

definition class_of :: "nat \<Rightarrow> nat" where
  "class_of n = (if n \<le> 16 then 4 else if n \<le> 32 then 5 else if n \<le> 64 then 6 else if n \<le> 96 then 1
     else if n \<le> 128 then 7 else if n \<le> 192 then 2 else if n \<le> 256 then 8 else if n \<le> 512 then 9
     else if n \<le> 1024 then 10 else if n \<le> 2048 then 11 else 12)"

lemma size_index_class: "list_all (\<lambda>n. size_index ! ((n - 1) div 8) = class_of n) [1..<193]"
  by code_simp

lemma kmalloc_slab_class:
  assumes "sz \<noteq> 0" "sz \<le> 4096" shows "kmalloc_slab sz = Slab (class_of (unat sz))"
proof -
  let ?n = "unat sz"
  have n: "0 < ?n" "?n \<le> 4096" using assms by (simp_all add: word_le_nat_alt unat_gt_0)
  have "1 \<le> sz" using assms(1) by (simp add: word_le_nat_alt unat_gt_0 Suc_leI)
  then have m: "unat (sz - 1) = ?n - 1" by (subst unat_sub_no_wrap) simp_all
  have small: "\<not> sz > KMALLOC_MAX_SIZE" using n(2) by (simp add: word_less_nat_alt)
  show ?thesis
  proof (cases "?n \<le> 192")
    case True
    then have "sz \<le> 192" by (simp add: word_le_nat_alt)
    moreover have "size_index_elem sz = (?n - 1) div 8"
      by (simp add: size_index_elem_def unat_div m)
    moreover have "size_index ! ((?n - 1) div 8) = class_of ?n"
      using size_index_class n(1) True by (simp add: list_all_iff del: upt.simps)
    ultimately show ?thesis using small assms(1) by (simp add: kmalloc_slab_def)
  next
    case False
    then have "\<not> sz \<le> 192" by (simp add: word_le_nat_alt)
    moreover have "unat (ucast (sz - 1) :: u32) = ?n - 1"
      using n(2) by (simp add: unsigned_ucast_eq m take_bit_nat_eq_self)
    moreover have "bit_count (?n - 1) = class_of ?n"
    proof -
      have b: "bit_count (?n - 1) = Suc k" if "2 ^ k < ?n" "?n \<le> 2 ^ Suc k" for k
        using that by (intro bit_count_unique) simp_all
      from False n(2) show ?thesis
        using b [of 7] b [of 8] b [of 9] b [of 10] b [of 11] by (auto simp: class_of_def)
    qed
    ultimately show ?thesis using small by (simp add: kmalloc_slab_def fls_def)
  qed
qed

lemma class_of_used: "0 < n \<Longrightarrow> n \<le> 4096 \<Longrightarrow> class_of n \<in> set used_classes \<and> n \<le> class_size (class_of n)"
  by (auto simp: class_of_def class_size_simps)

lemma class_of_least: "0 < n \<Longrightarrow> n \<le> 4096 \<Longrightarrow>
    list_all (\<lambda>j. n \<le> class_size j \<longrightarrow> class_size (class_of n) \<le> class_size j) used_classes"
  by (simp add: class_of_def class_size_simps)

lemma kmalloc_index_class:
  assumes "8 < sz" "sz \<le> 4096" shows "kmalloc_index sz = Some (class_of (unat sz))"
  using assms unfolding kmalloc_index_def class_of_def word_le_nat_alt word_less_nat_alt
  by (simp add: unat_eq_0 [symmetric])

text \<open>
  For every request of 1 to 4096 bytes \<open>kmalloc_slab\<close> finds a cache: its objects are large
  enough, and no cache in use with smaller objects would do. For more than 8 bytes the
  table and the bit scan of \<open>kmalloc_slab\<close> agree with the chain of comparisons in
  \<open>kmalloc_index\<close>.
\<close>

theorem kmalloc_slab_correct:
  assumes "sz \<noteq> 0" and "sz \<le> KMALLOC_MAX_CACHE_SIZE"
  shows "\<exists>i. kmalloc_slab sz = Slab i \<and> i \<in> set used_classes \<and> unat sz \<le> class_size i \<and>
    list_all (\<lambda>j. unat sz \<le> class_size j \<longrightarrow> class_size i \<le> class_size j) used_classes \<and>
    (8 < sz \<longrightarrow> kmalloc_index sz = Some i)"
proof -
  have n: "0 < unat sz" "unat sz \<le> 4096" using assms by (simp_all add: word_le_nat_alt unat_gt_0)
  from kmalloc_slab_class [OF assms] class_of_used [OF n] class_of_least [OF n] kmalloc_index_class [OF _ assms(2)]
  show ?thesis by blast
qed

theorem kmalloc_slab_correct_witness:
  "\<exists>i. kmalloc_slab 100 = Slab i \<and> unat (100 :: ulong) \<le> class_size i \<and> kmalloc_index 100 = Some i"
proof -
  have "(100 :: ulong) \<noteq> 0" "(100 :: ulong) \<le> KMALLOC_MAX_CACHE_SIZE" "(8 :: ulong) < 100" by simp_all
  with kmalloc_slab_correct [of 100] show ?thesis by blast
qed

section \<open>Four bits per page\<close>

lemma odd_mask: "(k::ulong) AND 1 \<noteq> 0 \<longleftrightarrow> odd k"
  by (simp add: and_one_eq odd_iff_mod_2_eq_one)

lemma u8_masks: "(0xf :: u8) = mask 4" "(0xf0 :: u8) = push_bit 4 (mask 4)"
  by (simp_all add: mask_eq_exp_minus_1 push_bit_eq_mult)

lemma nibble_parts:
  fixes x v :: u8
  assumes "v < 16"
  shows "drop_bit 4 ((x AND 0xf) OR push_bit 4 v) AND 0xf = v" "((x AND 0xf) OR push_bit 4 v) AND 0xf = x AND 0xf"
    "((x AND 0xf0) OR v) AND 0xf = v" "drop_bit 4 ((x AND 0xf0) OR v) AND 0xf = drop_bit 4 x AND 0xf"
proof -
  have "unat (take_bit 4 v) = unat v" using assms by (simp add: unsigned_take_bit_eq take_bit_nat_eq_self word_less_nat_alt)
  then have "take_bit 4 v = v" by (simp only: word_unat_eq_iff)
  then have v: "bit v n \<Longrightarrow> n < 4" for n by (metis bit_take_bit_iff)
  show "drop_bit 4 ((x AND 0xf) OR push_bit 4 v) AND 0xf = v" "((x AND 0xf) OR push_bit 4 v) AND 0xf = x AND 0xf"
    "((x AND 0xf0) OR v) AND 0xf = v" "drop_bit 4 ((x AND 0xf0) OR v) AND 0xf = drop_bit 4 x AND 0xf"
    unfolding u8_masks by (rule bit_word_eqI; auto simp: bit_simps dest: v)+
qed

lemma page_nibble_set:
  assumes "v < 16"
  shows "page_nibble (set_nibble k v bits) j = (if j = k then v else page_nibble bits j)"
proof -
  note p = nibble_parts [OF assms, of "bits (unat (k div 2))"]
  have half: "j = k" if "unat (j div 2) = unat (k div 2)" "odd j = odd k"
  proof -
    have "j div 2 = k div 2" using that(1) by (simp only: word_unat_eq_iff)
    then have "2 * (j div 2) + j mod 2 = 2 * (k div 2) + k mod 2" using that(2) by (simp add: mod_2_eq_odd)
    then show ?thesis by (simp only: mult_div_mod_eq)
  qed
  show ?thesis
    using half by (cases "odd j"; cases "odd k") (auto simp: page_nibble_def set_nibble_def odd_mask Let_def p
      simp del: drop_bit_or drop_bit_and)
qed

text \<open>
  The four bits of a page read back what was written, and writing them changes no other page: for two
  addresses of the direct map the mark of the second is the new one exactly when both are on the
  same 4K page.
\<close>

theorem set_idx_round_trip:
  assumes "V2P a = Inr x" and "V2P b = Inr y" and "v < 16" and "set_idx_from_addr a v st = Inr st'"
  shows "get_idx_from_addr b st' = (if drop_bit 12 x = drop_bit 12 y then Inr v else get_idx_from_addr b st)"
  using assms by (auto simp: get_idx_from_addr_def set_idx_from_addr_def page_nibble_set)

text \<open>The module before it is loaded, on a machine with one free 2M page and the table of calls in place.\<close>

definition boot_slub :: "slub" where
  "boot_slub = \<lparr>sysvm = full_vm,
     yaoscall_table = yaoscall_table (snd (init_yaoscall True (yaoscall_data @ page_data) boot_yaos)),
     kmalloc_caches = (\<lambda>_. \<lparr>kc_idx = 0, kc_size = 0, kc_name = None, kc_freehead = 0\<rparr>), page_bits_at = 0,
     page_bits = (\<lambda>_. 0), words = (\<lambda>_. 0), slub_ok = False, installed = 0xd5d5\<rparr>"

theorem set_idx_round_trip_witness:
  "\<exists>st'. set_idx_from_addr 0xFFFF820000003000 7 boot_slub = Inr st' \<and>
     get_idx_from_addr 0xFFFF820000003010 st' = Inr 7 \<and> get_idx_from_addr 0xFFFF820000002000 st' = Inr 0"
proof -
  have v: "V2P 0xFFFF820000003000 = Inr 0x3000" "V2P 0xFFFF820000003010 = Inr 0x3010" "V2P 0xFFFF820000002000 = Inr 0x2000"
    by (simp_all add: V2P_def layout_defs)
  then obtain st' where run: "set_idx_from_addr 0xFFFF820000003000 7 boot_slub = Inr st'"
    by (simp add: set_idx_from_addr_def)
  have "get_idx_from_addr 0xFFFF820000002000 boot_slub = Inr 0"
    by (simp add: get_idx_from_addr_def v page_nibble_def boot_slub_def)
  with set_idx_round_trip [OF v(1) v(2) _ run] set_idx_round_trip [OF v(1) v(3) _ run] run
  show ?thesis by (simp add: drop_bit_eq_div)
qed

section \<open>The list of a new page\<close>

text \<open>A list of free objects: each object holds the address of the next one, the last one holds 0.\<close>

primrec free_chain :: "(ulong \<Rightarrow> ulong) \<Rightarrow> ulong \<Rightarrow> ulong list \<Rightarrow> bool" where
  "free_chain w p [] \<longleftrightarrow> p = 0"
| "free_chain w p (x # xs) \<longleftrightarrow> p = x \<and> x \<noteq> 0 \<and> free_chain w (w x) xs"

lemma chain_cong: "(\<And>x. x \<in> set xs \<Longrightarrow> w x = w' x) \<Longrightarrow> free_chain w p xs = free_chain w' p xs"
  by (induction xs arbitrary: p) auto

text \<open>The objects of a page from \<open>p\<close> on, \<open>m\<close> behind the first, and the links between them.\<close>

primrec objects :: "ulong \<Rightarrow> ulong \<Rightarrow> nat \<Rightarrow> ulong list" where
  "objects sz p 0 = [p]"
| "objects sz p (Suc m) = p # objects sz (p + sz) m"

fun link_up :: "ulong list \<Rightarrow> (ulong \<Rightarrow> ulong) \<Rightarrow> (ulong \<Rightarrow> ulong)" where
  "link_up (x # y # xs) w = link_up (y # xs) (w(x := y))"
| "link_up [x] w = w"
| "link_up [] w = w"

lemma objects_nonempty [simp]: "objects sz p m \<noteq> []"
  by (cases m) simp_all

lemma objects_Cons: "\<exists>xs. objects sz p m = p # xs"
  by (cases m) simp_all

lemma objects_last: "last (objects sz p m) = p + of_nat m * sz"
  by (induction m arbitrary: p) (simp_all add: algebra_simps)

lemma objects_set: "set (objects sz p m) = {p + of_nat j * sz | j. j \<le> m}"
proof (induction m arbitrary: p)
  case (Suc m)
  have "{p + of_nat j * sz | j. j \<le> Suc m} = insert p {p + sz + of_nat j * sz | j. j \<le> m}"
  proof (intro set_eqI iffI)
    fix x assume "x \<in> {p + of_nat j * sz | j. j \<le> Suc m}"
    then obtain j where "x = p + of_nat j * sz" "j \<le> Suc m" by blast
    then show "x \<in> insert p {p + sz + of_nat j * sz | j. j \<le> m}"
      by (cases j) (auto simp: algebra_simps)
  next
    fix x assume "x \<in> insert p {p + sz + of_nat j * sz | j. j \<le> m}"
    then show "x \<in> {p + of_nat j * sz | j. j \<le> Suc m}"
    proof
      assume "x = p" then show ?thesis by (auto intro: exI [of _ 0])
    next
      assume "x \<in> {p + sz + of_nat j * sz | j. j \<le> m}"
      then obtain j where "x = p + sz + of_nat j * sz" "j \<le> m" by blast
      then show ?thesis by (auto intro!: exI [of _ "Suc j"] simp: algebra_simps)
    qed
  qed
  with Suc show ?case by simp
qed simp

lemma objects_unat:
  assumes "unat p + m * unat sz < 2 ^ 64"
  shows "map unat (objects sz p m) = map (\<lambda>j. unat p + j * unat sz) [0..<Suc m]"
  using assms
proof (induction m arbitrary: p)
  case (Suc m)
  then have u: "unat (p + sz) = unat p + unat sz" by (intro unat_add_no_wrap) simp
  have "map unat (objects sz (p + sz) m) = map (\<lambda>j. unat p + unat sz + j * unat sz) [0..<Suc m]"
    using Suc.IH [of "p + sz"] Suc.prems by (simp only: u) (simp add: algebra_simps)
  also have "\<dots> = map (\<lambda>j. unat p + j * unat sz) (map Suc [0..<Suc m])"
    by (simp add: comp_def algebra_simps)
  finally have tail: "map unat (objects sz (p + sz) m) = map (\<lambda>j. unat p + j * unat sz) [Suc 0..<Suc (Suc m)]"
    by (simp only: map_Suc_upt)
  have "[0..<Suc (Suc m)] = 0 # [Suc 0..<Suc (Suc m)]" by (rule upt_conv_Cons) simp
  then show ?case by (simp only: objects.simps list.map tail) simp
qed simp

lemma objects_distinct:
  assumes "unat p + m * unat sz < 2 ^ 64" "sz \<noteq> 0"
  shows "distinct (objects sz p m)"
proof -
  have "0 < unat sz" using assms(2) by (simp add: unat_gt_0)
  then have "distinct (map unat (objects sz p m))"
    unfolding objects_unat [OF assms(1)] by (simp only: distinct_map distinct_upt) (simp add: inj_on_def)
  then show ?thesis by (simp only: distinct_map)
qed

lemma link_up_other: "x \<notin> set xs \<Longrightarrow> link_up xs w x = w x"
  by (induction xs w rule: link_up.induct) auto

lemma chain_link_up:
  assumes "distinct xs" "xs \<noteq> []" "0 \<notin> set xs" "set xs \<inter> set ys = {}" "free_chain w h ys"
  shows "free_chain ((link_up xs w)(last xs := h)) (hd xs) (xs @ ys)"
  using assms
proof (induction xs w rule: link_up.induct)
  case (1 x y xs w)
  let ?w = "(link_up (y # xs) (w(x := y)))(last (y # xs) := h)"
  have "free_chain (w(x := y)) h ys = free_chain w h ys" using 1(5) by (intro chain_cong) auto
  then have "free_chain ?w y ((y # xs) @ ys)" using 1 by (simp del: fun_upd_apply append.simps)
  moreover have "?w x = y" using 1(2) link_up_other [of x "y # xs" "w(x := y)"] by auto
  moreover have "x \<noteq> 0" using 1(4) by auto
  ultimately have "free_chain ?w x (x # (y # xs) @ ys)" by (simp only: free_chain.simps simp_thms)
  then show ?case by (simp only: link_up.simps append.simps list.sel last_ConsR list.distinct simp_thms)
next
  case (2 x w)
  have "free_chain (w(x := h)) h ys = free_chain w h ys" using 2(4) by (intro chain_cong) auto
  with 2 show ?case by (simp add: fun_upd_same del: fun_upd_apply)
qed simp

lemma link_loop_objects:
  assumes "sz \<noteq> 0" "unat pend = unat p + m * unat sz + r" "r < unat sz" "unat pend + unat sz < 2 ^ 64"
  shows "link_loop sz pend p (p + sz) w = Some (last (objects sz p m), link_up (objects sz p m) w)"
  using assms(2)
proof (induction m arbitrary: p w)
  case 0
  then have "unat (p + sz) = unat p + unat sz" using assms(4) by (intro unat_add_no_wrap) simp
  then have "\<not> p + sz \<le> pend" using 0 assms(3) by (simp add: word_le_nat_alt)
  then show ?case by (simp add: link_loop.simps)
next
  case (Suc m)
  have u: "unat (p + sz) = unat p + unat sz" using assms(4) Suc.prems by (intro unat_add_no_wrap) simp
  then have "p + sz \<le> pend" using Suc.prems by (simp add: word_le_nat_alt)
  then have "link_loop sz pend p (p + sz) w = link_loop sz pend (p + sz) (p + sz + sz) (w(p := p + sz))"
    by (simp add: link_loop.simps [of sz pend p])
  moreover obtain xs where "objects sz (p + sz) m = (p + sz) # xs" using objects_Cons by blast
  moreover have "unat pend = unat (p + sz) + m * unat sz + r" using Suc.prems by (simp add: u)
  note Suc.IH [OF this]
  ultimately show ?case by (simp del: fun_upd_apply)
qed

end
