(* ===== verification/Slub_Correct.thy ===== *)
theory Slub_Correct
  imports Slub_Parts
begin

text \<open>
  The invariant of the allocator of small objects, \<open>module/mm/slub.c\<close>: which objects are free,
  which are in use, and why they never overlap although nothing but their address is known when
  they are given back. The invariant is kept by \<open>malloc\<close>, \<open>free\<close> and by what the owners
  write into their objects.
\<close>

section \<open>Objects and pages\<close>

abbreviation ph :: "'e yaos_scheme \<Rightarrow> phys" where "ph st \<equiv> physm (pg (sysvm st))"

text \<open>Free physical memory, by its addresses in the direct map.\<close>

definition free_va :: "phys \<Rightarrow> nat set" where
  "free_va p = (\<lambda>x. x + unat PHYS_VIRT_START) ` phys_bytes p"

definition page_va :: "ulong \<Rightarrow> nat set" where
  "page_va p = {unat p div 4096 * 4096 ..< unat p div 4096 * 4096 + 4096}"

definition obj_va :: "nat \<Rightarrow> ulong \<Rightarrow> nat set" where
  "obj_va k p = {unat p ..< unat p + class_size k}"

text \<open>An address at which an object of class \<open>k\<close> may start, and the index of its page.\<close>

definition slot :: "nat \<Rightarrow> ulong \<Rightarrow> bool" where
  "slot k p \<longleftrightarrow> class_size k dvd unat p mod 4096 \<and> unat p mod 4096 + class_size k \<le> 4096"

definition pgno :: "ulong \<Rightarrow> ulong" where
  "pgno p = drop_bit 12 (p - PHYS_VIRT_START)"

definition owned :: "slub \<Rightarrow> nat \<Rightarrow> ulong \<Rightarrow> bool" where
  "owned st k p \<longleftrightarrow> in_direct_map p \<and> slot k p \<and> unat (page_nibble (page_bits st) (pgno p)) = k \<and>
     page_va p \<inter> free_va (ph st) = {}"

lemma direct_map_ge: "in_direct_map p \<Longrightarrow> PHYS_VIRT_START \<le> p"
  and direct_map_nonzero: "in_direct_map p \<Longrightarrow> p \<noteq> 0"
  by (auto simp: in_direct_map_def PHYS_VIRT_START_def)

lemma V2P_direct: "in_direct_map p \<Longrightarrow> V2P p = Inr (p - PHYS_VIRT_START)"
  by (simp add: in_direct_map_def V2P_def less_imp_le)

lemma page_shift: "(n - 4096 * v) div 4096 = n div 4096 - (v::nat)"
proof (cases "4096 * v \<le> n")
  case True
  then obtain m where "n = 4096 * v + m" using le_Suc_ex by blast
  then show ?thesis by simp
next
  case False
  then have "n div 4096 < v" by (intro less_mult_imp_div_less) simp
  with False show ?thesis by simp
qed

lemma unat_pgno:
  assumes "PHYS_VIRT_START \<le> p"
  shows "unat (pgno p) = unat p div 4096 - unat PHYS_VIRT_START div 4096"
proof -
  have "unat (pgno p) = (unat p - unat PHYS_VIRT_START) div 4096"
    using assms by (simp add: pgno_def drop_bit_eq_div unat_div unat_sub_no_wrap)
  moreover obtain v where "unat PHYS_VIRT_START = 4096 * v"
    by (rule that [of "unat PHYS_VIRT_START div 4096"]) (simp add: PHYS_VIRT_START_def)
  ultimately show ?thesis by (simp add: page_shift)
qed

lemma pgno_eq:
  assumes "PHYS_VIRT_START \<le> p" "PHYS_VIRT_START \<le> q"
  shows "pgno p = pgno q \<longleftrightarrow> unat p div 4096 = unat q div 4096"
proof -
  have "unat PHYS_VIRT_START div 4096 \<le> unat p div 4096" "unat PHYS_VIRT_START div 4096 \<le> unat q div 4096"
    using assms by (simp_all only: word_le_nat_alt div_le_mono)
  then show ?thesis by (simp only: word_unat_eq_iff unat_pgno [OF assms(1)] unat_pgno [OF assms(2)]) linarith
qed

lemma div_4k_iff: "(x::nat) div 4096 = n \<longleftrightarrow> n * 4096 \<le> x \<and> x < n * 4096 + 4096"
  by linarith

lemma page_va_mem: "x \<in> page_va p \<longleftrightarrow> x div 4096 = unat p div 4096"
  unfolding page_va_def by (simp only: div_4k_iff atLeastLessThan_iff)

lemma obj_in_page: assumes "slot k p" shows "obj_va k p \<subseteq> page_va p"
proof -
  have "unat p div 4096 * 4096 \<le> unat p \<and> unat p + class_size k \<le> unat p div 4096 * 4096 + 4096"
    using assms div_mult_mod_eq [of "unat p" 4096] unfolding slot_def by linarith
  then show ?thesis by (auto simp: obj_va_def page_va_def)
qed

text \<open>Objects that belong to a class overlap only if they are the same: on one page all objects have one size.\<close>

lemma owned_disjoint:
  assumes "owned st k p" "owned st j q" "p \<noteq> q"
  shows "obj_va k p \<inter> obj_va j q = {}"
proof (cases "unat p div 4096 = unat q div 4096")
  case False
  then have "page_va p \<inter> page_va q = {}" by (auto simp: page_va_mem)
  with obj_in_page [of k p] obj_in_page [of j q] assms(1,2) show ?thesis by (auto simp: owned_def)
next
  case True
  have "PHYS_VIRT_START \<le> p" "PHYS_VIRT_START \<le> q" using assms by (auto simp: owned_def direct_map_ge)
  with True have "pgno p = pgno q" by (simp add: pgno_eq)
  with assms have jk: "j = k" by (simp add: owned_def)
  let ?c = "class_size k"
  from assms jk obtain x y where xy: "unat p mod 4096 = ?c * x" "unat q mod 4096 = ?c * y"
    by (auto simp: owned_def slot_def elim!: dvdE)
  have "unat p mod 4096 \<noteq> unat q mod 4096"
    using assms(3) True by (metis div_mult_mod_eq word_unat_eq_iff)
  with xy have "x \<noteq> y" by auto
  then have "?c * x + ?c \<le> ?c * y \<or> ?c * y + ?c \<le> ?c * x"
    by (metis linorder_neqE_nat mult_Suc_right mult_le_mono2 Suc_leI add.commute)
  then have "unat p mod 4096 + ?c \<le> unat q mod 4096 \<or> unat q mod 4096 + ?c \<le> unat p mod 4096"
    by (simp only: xy)
  then have "unat p + ?c \<le> unat q \<or> unat q + ?c \<le> unat p"
    using True div_mult_mod_eq [of "unat p" 4096] div_mult_mod_eq [of "unat q" 4096] by linarith
  then show ?thesis by (auto simp: obj_va_def jk)
qed

lemma owned_get_cache: "owned st k p \<Longrightarrow> get_cache_from_addr p st = Inr k"
  by (simp add: owned_def get_cache_from_addr_def get_idx_from_addr_def V2P_direct pgno_def)

section \<open>The invariant\<close>

text \<open>The direct map reaches up to 64T.\<close>

definition below_64t :: "nat set \<Rightarrow> bool" where
  "below_64t B \<longleftrightarrow> (\<forall>x\<in>B. x < 2 ^ 46)"

text \<open>
  \<open>F k\<close> are the free objects of class \<open>k\<close> in the order of their list, \<open>L k\<close> the objects in use.
\<close>

abbreviation classes :: "nat set" where "classes \<equiv> {1..12}"

definition cache_ok :: "slub \<Rightarrow> nat \<Rightarrow> bool" where
  "cache_ok st k \<longleftrightarrow> kc_size (kmalloc_caches st k) = int (class_size k) \<and> kc_idx (kmalloc_caches st k) = of_nat k"

definition slub_rep :: "slub \<Rightarrow> (nat \<Rightarrow> ulong list) \<Rightarrow> (nat \<Rightarrow> ulong list) \<Rightarrow> bool" where
  "slub_rep st F L \<longleftrightarrow>
     page_calls st \<and> installed st \<noteq> 0 \<and> phys_inv (ph st) \<and> below_64t (phys_bytes (ph st)) \<and>
     (\<forall>k\<in>classes. cache_ok st k \<and> free_chain (words st) (kc_freehead (kmalloc_caches st k)) (F k) \<and>
        distinct (F k @ L k) \<and> (\<forall>p \<in> set (F k @ L k). owned st k p))"

lemma slub_repD:
  assumes "slub_rep st F L"
  shows "page_calls st" "installed st \<noteq> 0" "phys_inv (ph st)" "below_64t (phys_bytes (ph st))"
    and "k \<in> classes \<Longrightarrow> cache_ok st k"
    and "k \<in> classes \<Longrightarrow> free_chain (words st) (kc_freehead (kmalloc_caches st k)) (F k)"
    and "k \<in> classes \<Longrightarrow> distinct (F k @ L k)"
    and "k \<in> classes \<Longrightarrow> p \<in> set (F k) \<union> set (L k) \<Longrightarrow> owned st k p"
  using assms by (auto simp: slub_rep_def)

lemma slub_repI:
  assumes "page_calls st" "installed st \<noteq> 0" "phys_inv (ph st)" "below_64t (phys_bytes (ph st))"
    and "\<And>k. k \<in> classes \<Longrightarrow> cache_ok st k"
    and "\<And>k. k \<in> classes \<Longrightarrow> free_chain (words st) (kc_freehead (kmalloc_caches st k)) (F k)"
    and "\<And>k. k \<in> classes \<Longrightarrow> distinct (F k @ L k)"
    and "\<And>k p. k \<in> classes \<Longrightarrow> p \<in> set (F k) \<union> set (L k) \<Longrightarrow> owned st k p"
  shows "slub_rep st F L"
  using assms by (auto simp: slub_rep_def)

lemma owned_class: "owned st k p \<Longrightarrow> owned st j p \<Longrightarrow> j = k"
  by (simp add: owned_def)

lemma upd_cache_simps [simp]:
  "sysvm (upd_cache i f st) = sysvm st" "yaoscall_table (upd_cache i f st) = yaoscall_table st"
  "page_bits (upd_cache i f st) = page_bits st" "words (upd_cache i f st) = words st"
  "installed (upd_cache i f st) = installed st"
  "kmalloc_caches (upd_cache i f st) k = (if k = i then f (kmalloc_caches st i) else kmalloc_caches st k)"
  by (simp_all add: upd_cache_def)

lemma owned_cong: "page_bits st' = page_bits st \<Longrightarrow> ph st' = ph st \<Longrightarrow> owned st' k p = owned st k p"
  by (simp add: owned_def)

lemma class_cases:
  "k \<in> classes \<longleftrightarrow> k = 1 \<or> k = 2 \<or> k = 3 \<or> k = 4 \<or> k = 5 \<or> k = 6 \<or> k = 7 \<or> k = 8 \<or> k = 9 \<or> k = 10 \<or> k = 11 \<or> k = 12"
  unfolding atLeastAtMost_iff by presburger

lemma class_size_bounds: "k \<in> classes \<Longrightarrow> 8 \<le> class_size k \<and> class_size k \<le> 4096"
  unfolding class_cases by (elim disjE) (simp_all add: class_size_simps)

lemma used_in_classes: "k \<in> set used_classes \<Longrightarrow> k \<in> classes"
  by auto

lemma unat_class_size: "k \<in> classes \<Longrightarrow> unat (of_int (int (class_size k)) :: ulong) = class_size k"
  using class_size_bounds [of k] by (simp add: unsigned_of_nat take_bit_nat_eq_self)

lemma slot_in_page:
  assumes "slot k p" "k \<in> classes" shows "(p AND 0xfff) + of_int (int (class_size k)) \<le> 0x1000"
proof -
  have fit: "unat p mod 4096 + class_size k \<le> 4096" using assms(1) by (simp add: slot_def)
  have "unat (p AND 0xfff) + unat (of_int (int (class_size k)) :: ulong) < 2 ^ 64"
    using fit by (simp only: unat_class_size [OF assms(2)] mask_4k(1)) simp
  then have "unat ((p AND 0xfff) + of_int (int (class_size k))) = unat p mod 4096 + class_size k"
    by (simp only: unat_add_no_wrap unat_class_size [OF assms(2)] mask_4k(1))
  moreover have "unat (0x1000 :: ulong) = 4096" by simp
  ultimately show ?thesis using fit by (simp only: word_le_nat_alt)
qed

section \<open>Taking an object\<close>

lemma chain_head: "free_chain w p xs \<Longrightarrow> p = (if xs = [] then 0 else hd xs)"
  by (cases xs) auto

lemma take_object_rep:
  assumes rep: "slub_rep st F L" and k: "k \<in> classes" and F: "F k = p # xs"
  defines "st' \<equiv> upd_cache k (\<lambda>c. c\<lparr>kc_freehead := words st p\<rparr>) st"
  shows "take_object k st = Inr (p, st')" "slub_rep st' (F(k := xs)) (L(k := p # L k))"
proof -
  note D = slub_repD [OF rep]
  have ch: "kc_freehead (kmalloc_caches st k) = p" "free_chain (words st) (words st p) xs"
    using D(6) [OF k] by (simp_all add: F)
  have own: "owned st k p" using D(8) [OF k, of p] by (simp add: F)
  have a1: "words st p = 0 \<or> in_direct_map (words st p)"
  proof (cases xs)
    case (Cons y ys)
    then have "owned st k y" using D(8) [OF k, of y] by (simp add: F)
    with ch(2) Cons show ?thesis by (simp add: owned_def)
  qed (use ch(2) in simp)
  have a2: "(p AND 0xfff) + of_int (kc_size (kmalloc_caches st k)) \<le> 0x1000"
    using D(5) [OF k] own slot_in_page [OF _ k] by (simp only: cache_ok_def owned_def)
  have a3: "in_direct_map p" using own by (simp add: owned_def)
  show "take_object k st = Inr (p, st')"
    unfolding take_object_def Let_def ch(1) st'_def by (simp only: a1 a2 a3 simp_thms ASSERT_True andThen_Inr)
  show "slub_rep st' (F(k := xs)) (L(k := p # L k))"
  proof (rule slub_repI)
    show "page_calls st'" using D(1) page_calls_cong [of st' st] by (simp add: st'_def)
    show "installed st' \<noteq> 0" "phys_inv (ph st')" "below_64t (phys_bytes (ph st'))" using D(2-4) by (simp_all add: st'_def)
    fix j assume j: "j \<in> classes"
    show "cache_ok st' j" using D(5) [OF j] by (cases "j = k") (simp_all add: st'_def cache_ok_def)
    show "free_chain (words st') (kc_freehead (kmalloc_caches st' j)) ((F(k := xs)) j)"
      using D(6) [OF j] ch by (simp add: st'_def)
    show "distinct ((F(k := xs)) j @ (L(k := p # L k)) j)" using D(7) [OF j] by (auto simp: F)
    show "owned st' j q" if "q \<in> set ((F(k := xs)) j) \<union> set ((L(k := p # L k)) j)" for q
    proof -
      have "q \<in> set (F j) \<union> set (L j)" using that by (auto simp: F split: if_splits)
      from D(8) [OF j this] show ?thesis using owned_cong [of st' st j q] by (simp add: st'_def)
    qed
  qed
qed

section \<open>Giving an object back, and writing into one\<close>

text \<open>The word at an address outside the free objects may change.\<close>

lemma write_rep:
  assumes rep: "slub_rep st F L" and a: "\<And>k. k \<in> classes \<Longrightarrow> a \<notin> set (F k)"
  shows "slub_rep (st\<lparr>words := (words st)(a := v)\<rparr>) F L"
proof (rule slub_repI)
  let ?st = "st\<lparr>words := (words st)(a := v)\<rparr>"
  note D = slub_repD [OF rep]
  show "page_calls ?st" using D(1) by (simp add: page_calls_def yaoscall_p_def)
  show "installed ?st \<noteq> 0" "phys_inv (ph ?st)" "below_64t (phys_bytes (ph ?st))" using D(2-4) by simp_all
  fix k assume k: "k \<in> classes"
  show "cache_ok ?st k" using D(5) [OF k] by (simp add: cache_ok_def)
  have "free_chain (words ?st) h (F k) = free_chain (words st) h (F k)" for h
    using a [OF k] by (intro chain_cong) auto
  then show "free_chain (words ?st) (kc_freehead (kmalloc_caches ?st k)) (F k)" using D(6) [OF k] by simp
  show "distinct (F k @ L k)" by (rule D(7) [OF k])
  show "owned ?st k p" if "p \<in> set (F k) \<union> set (L k)" for p
    using D(8) [OF k that] by (simp add: owned_def)
qed

lemma live_not_free:
  assumes rep: "slub_rep st F L" and k: "k \<in> classes" "p \<in> set (L k)" and j: "j \<in> classes" "q \<in> set (F j)"
  shows "obj_va k p \<inter> obj_va j q = {}"
proof (rule owned_disjoint)
  note D = slub_repD [OF rep]
  show "owned st k p" "owned st j q" using D(8) [OF k(1), of p] D(8) [OF j(1), of q] k j by simp_all
  then show "p \<noteq> q" using D(7) [OF k(1)] k(2) j(2) owned_class [of st k p j] by auto
qed

lemma write_live_rep:
  assumes rep: "slub_rep st F L" and k: "k \<in> classes" "p \<in> set (L k)" and a: "unat a \<in> obj_va k p"
  shows "slub_rep (st\<lparr>words := (words st)(a := v)\<rparr>) F L"
proof (rule write_rep [OF rep])
  fix j assume j: "j \<in> classes"
  show "a \<notin> set (F j)"
  proof
    assume "a \<in> set (F j)"
    from live_not_free [OF rep k j this] a class_size_bounds [OF j] show False by (auto simp: obj_va_def)
  qed
qed

text \<open>The state after object \<open>p\<close> has been put in front of the list of cache \<open>k\<close>.\<close>

definition pushed :: "nat \<Rightarrow> ulong \<Rightarrow> slub \<Rightarrow> slub" where
  "pushed k p st = upd_cache k (\<lambda>c. c\<lparr>kc_freehead := p\<rparr>)
     (st\<lparr>words := (words st)(p := kc_freehead (kmalloc_caches st k))\<rparr>)"

lemma kmfree_eq:
  assumes rep: "slub_rep st F L" and k: "k \<in> classes" "p \<in> set (L k)"
  shows "kmfree junk p st = andThen (ASSERT (p AND of_int (int (class_size k) - 1) = 0)) (\<lambda>_. Inr (pushed k p st))"
proof -
  note D = slub_repD [OF rep]
  have own: "owned st k p" using D(8) [OF k(1), of p] k(2) by simp
  then have dm: "in_direct_map p" by (simp add: owned_def)
  have a1: "p \<noteq> 16" using dm by (auto simp: in_direct_map_def PHYS_VIRT_START_def)
  have a2: "kc_idx (kmalloc_caches st k) \<noteq> of_nat LARGE_IDX"
    using D(5) [OF k(1)] k(1) unfolding class_cases cache_ok_def by (elim disjE) simp_all
  have a3: "kc_size (kmalloc_caches st k) = int (class_size k)" using D(5) [OF k(1)] by (simp add: cache_ok_def)
  show ?thesis
    unfolding kmfree_def owned_get_cache [OF own] pushed_def Let_def
    by (simp only: a1 a2 a3 dm if_False simp_thms ASSERT_True andThen_Inr)
qed

lemma pushed_rep:
  assumes rep: "slub_rep st F L" and k: "k \<in> classes" "p \<in> set (L k)"
  shows "slub_rep (pushed k p st) (F(k := p # F k)) (L(k := remove1 p (L k)))"
proof -
  have own: "owned st k p" using slub_repD(8) [OF rep k(1), of p] k(2) by simp
  let ?h = "kc_freehead (kmalloc_caches st k)"
  define st1 where "st1 = st\<lparr>words := (words st)(p := ?h)\<rparr>"
  define st' where "st' = upd_cache k (\<lambda>c. c\<lparr>kc_freehead := p\<rparr>) st1"
  have "unat p \<in> obj_va k p" using class_size_bounds [OF k(1)] by (simp add: obj_va_def)
  from write_live_rep [OF rep k this, of ?h] have rep1: "slub_rep st1 F L" by (simp only: st1_def)
  note E = slub_repD [OF rep1]
  have "slub_rep st' (F(k := p # F k)) (L(k := remove1 p (L k)))"
  proof (rule slub_repI)
    show "page_calls st'" using E(1) page_calls_cong [of st' st1] by (simp add: st'_def)
    show "installed st' \<noteq> 0" "phys_inv (ph st')" "below_64t (phys_bytes (ph st'))" using E(2-4) by (simp_all add: st'_def)
    fix j assume j: "j \<in> classes"
    show "cache_ok st' j" using E(5) [OF j] by (cases "j = k") (simp_all add: st'_def cache_ok_def)
    show "free_chain (words st') (kc_freehead (kmalloc_caches st' j)) ((F(k := p # F k)) j)"
      using E(6) [OF j] own direct_map_nonzero [of p]
      by (cases "j = k") (simp_all add: st'_def owned_def, simp_all add: st1_def)
    show "distinct ((F(k := p # F k)) j @ (L(k := remove1 p (L k))) j)"
      using E(7) [OF j] k(2) set_remove1_subset [of p "L k"] by (auto simp: distinct_remove1)
    show "owned st' j q" if "q \<in> set ((F(k := p # F k)) j) \<union> set ((L(k := remove1 p (L k))) j)" for q
    proof -
      have "q \<in> set (F j) \<union> set (L j)" using that k(2) set_remove1_subset [of p "L k"] by (auto split: if_splits)
      from E(8) [OF j this] show ?thesis using owned_cong [of st' st1 j q] by (simp add: st'_def)
    qed
  qed
  then show ?thesis by (simp only: st'_def st1_def pushed_def)
qed

text \<open>In a class whose size is a power of two, every object passes the assertion of \<open>__kmfree\<close>.\<close>

lemma power_class_aligned:
  assumes "k \<in> {4..12}" "slot k p" shows "p AND of_int (int (class_size k) - 1) = 0"
proof -
  have pow: "class_size k = 2 ^ k" and le: "k \<le> 12"
    using assms(1) class_cases [of k] by (auto simp: class_size_simps)
  have "(2::nat) ^ k dvd 2 ^ 12" using le by (rule le_imp_power_dvd)
  then have "(2::nat) ^ k dvd unat p div 4096 * 4096 + unat p mod 4096"
    using assms(2) unfolding slot_def pow by (intro dvd_add) simp_all
  then have "2 ^ k dvd unat p" by (simp only: div_mult_mod_eq)
  moreover have "of_int (int (2 ^ k) - 1) = (2 ^ k - 1 :: ulong)" by simp
  ultimately show ?thesis by (simp only: pow aligned_iff_dvd)
qed

section \<open>A new page\<close>

lemma yaos_heap_alloc_4k_eq:
  assumes "page_calls st" "sz AND 0xfff = 0"
  shows "yaos_heap_alloc_4k junk sz st = andThen (alloc_phy_page_small sz (ph st)) (\<lambda>(a, p).
    Inr (P2V a, st\<lparr>sysvm := put_phys p (sysvm st)\<rparr>))"
  using page_calls_heap(1) [OF assms(1)] assms(2)
  by (simp add: yaos_heap_alloc_4k_def yaoscall_def page_call_def arg_reg_def heap_alloc_4k_def andThen_assoc
      case_prod_unfold)

lemma put_phys_simps [simp]: "physm (pg (put_phys p s)) = p" "vz (put_phys p s) = vz s"
  by (simp_all add: put_phys_def)

lemma P2V_page:
  assumes "a \<noteq> 0" "al4k a" "span a 0x1000 \<subseteq> B" "below_64t B"
  shows "unat (P2V a) = unat a + unat PHYS_VIRT_START" "in_direct_map (P2V a)" "al4k (P2V a)"
    "unat (P2V a) + 0x1000 \<le> unat PHYS_VIRT_END" "page_va (P2V a) = (\<lambda>x. x + unat PHYS_VIRT_START) ` span a 0x1000"
proof -
  have "unat a \<in> span a 0x1000" by (simp add: span_def)
  then have lt: "unat a < 2 ^ 46" using assms(3,4) unfolding below_64t_def by blast
  show u: "unat (P2V a) = unat a + unat PHYS_VIRT_START" by (rule unat_P2V [OF lt])
  show end': "unat (P2V a) + 0x1000 \<le> unat PHYS_VIRT_END"
    unfolding u using lt by (simp add: layout_defs)
  show "in_direct_map (P2V a)" unfolding in_direct_map_def word_less_nat_alt
    using end' u assms(1) by (simp add: unat_gt_0)
  show al: "al4k (P2V a)" by (rule al4k_P2V [OF assms(2)])
  have "unat (P2V a) div 4096 * 4096 = unat (P2V a)" using al by (simp add: al4k_dvd dvd_div_mult_self)
  then have "page_va (P2V a) = {unat a + unat PHYS_VIRT_START ..< unat a + unat PHYS_VIRT_START + 4096}"
    by (simp only: page_va_def u)
  also have "\<dots> = (\<lambda>x. x + unat PHYS_VIRT_START) ` {unat a ..< unat a + 4096}"
    by (simp only: image_add_atLeastLessThan' add.assoc add.commute [of 4096])
  finally show "page_va (P2V a) = (\<lambda>x. x + unat PHYS_VIRT_START) ` span a 0x1000" by (simp add: span_def)
qed

text \<open>The objects of a new page of class \<open>k\<close>.\<close>

definition page_objects :: "nat \<Rightarrow> ulong \<Rightarrow> ulong list" where
  "page_objects k p = objects (of_nat (class_size k)) p (4096 div class_size k - 1)"

lemma page_objects_props:
  assumes k: "k \<in> classes" and al: "al4k p" and no: "unat p + 0x1000 < 2 ^ 64" and q: "q \<in> set (page_objects k p)"
  shows "slot k q" "unat q div 4096 = unat p div 4096" "unat p \<le> unat q"
proof -
  let ?c = "class_size k"
  have c: "8 \<le> ?c" "?c \<le> 4096" using class_size_bounds [OF k] by simp_all
  have uc: "unat (of_nat ?c :: ulong) = ?c" using unat_class_size [OF k] by simp
  from q obtain j where j: "q = p + of_nat j * of_nat ?c" "j \<le> 4096 div ?c - 1"
    by (auto simp: page_objects_def objects_set)
  have "1 \<le> 4096 div ?c" using c div_le_mono [of ?c 4096 ?c] by simp
  then have "Suc j \<le> 4096 div ?c" using j(2) by linarith
  then have "Suc j * ?c \<le> 4096 div ?c * ?c" by (rule mult_le_mono1)
  also have "\<dots> \<le> 4096" by (rule div_times_less_eq_dividend)
  finally have jc: "j * ?c + ?c \<le> 4096" by simp
  have "unat (of_nat j * of_nat ?c :: ulong) = j * ?c"
    using jc c by (simp add: of_nat_mult [symmetric] unsigned_of_nat take_bit_nat_eq_self del: of_nat_mult)
  then have uq: "unat q = unat p + j * ?c" unfolding j(1) using no jc c by (subst unat_add_no_wrap) simp_all
  obtain n where n: "unat p = 4096 * n" using al by (auto simp: al4k_dvd)
  have lt: "j * ?c < 4096" using jc c by linarith
  have md: "unat q mod 4096 = j * ?c" "unat q div 4096 = n" unfolding uq n using lt by simp_all
  show "slot k q" using jc by (simp add: slot_def md)
  show "unat q div 4096 = unat p div 4096" by (simp add: md n)
  show "unat p \<le> unat q" by (simp add: uq)
qed

lemma page_objects_linked:
  assumes k: "k \<in> classes" and al: "al4k p" and no: "unat p + 0x2000 < 2 ^ 64"
  shows "link_loop (of_nat (class_size k)) (p + 0x1000 - of_nat (class_size k)) p (p + of_nat (class_size k)) w =
      Some (last (page_objects k p), link_up (page_objects k p) w)"
    and "distinct (page_objects k p)"
proof -
  let ?c = "class_size k" let ?sz = "of_nat ?c :: ulong" let ?m = "4096 div ?c - 1"
  have c: "8 \<le> ?c" "?c \<le> 4096" using class_size_bounds [OF k] by simp_all
  have uc: "unat ?sz = ?c" using unat_class_size [OF k] by simp
  have pos: "?sz \<noteq> 0" using uc c by auto
  have one: "1 \<le> 4096 div ?c" using c div_le_mono [of ?c 4096 ?c] by simp
  have top: "unat (p + 0x1000) = unat p + 4096" using no by (subst unat_add_no_wrap) simp_all
  then have pend: "unat (p + 0x1000 - ?sz) = unat p + 4096 - ?c"
    using c by (subst unat_sub_no_wrap) (simp_all add: word_le_nat_alt uc)
  have "4096 div ?c * ?c + 4096 mod ?c = 4096" by (rule div_mult_mod_eq)
  moreover have "?m * ?c + ?c = 4096 div ?c * ?c" using one by (metis add.commute le_add_diff_inverse2 mult_Suc plus_1_eq_Suc)
  ultimately have sum: "4096 - ?c = ?m * ?c + 4096 mod ?c" by linarith
  show "link_loop ?sz (p + 0x1000 - ?sz) p (p + ?sz) w = Some (last (page_objects k p), link_up (page_objects k p) w)"
    unfolding page_objects_def
  proof (rule link_loop_objects [OF pos])
    show "unat (p + 0x1000 - ?sz) = unat p + ?m * unat ?sz + 4096 mod ?c" unfolding pend uc using sum c by linarith
    show "4096 mod ?c < unat ?sz" using c uc by simp
    show "unat (p + 0x1000 - ?sz) + unat ?sz < 2 ^ 64" unfolding pend uc using no c by simp
  qed
  have "?m * ?c \<le> 4096" using sum c by linarith
  then have "unat p + ?m * unat ?sz < 2 ^ 64" using no unfolding uc by simp
  then show "distinct (page_objects k p)" unfolding page_objects_def using pos by (rule objects_distinct)
qed

lemma page_objects_hd: "hd (page_objects k p) = p" "page_objects k p \<noteq> []"
  using objects_Cons [of "of_nat (class_size k)" p "4096 div class_size k - 1"] by (auto simp: page_objects_def)

lemma of_nat_class_lt: "k \<in> classes \<Longrightarrow> (of_nat k :: u8) < 16 \<and> unat (of_nat k :: u8) = k"
  unfolding class_cases by (elim disjE) simp_all

text \<open>What the physical allocator promises of a page it has handed out.\<close>

definition page_taken :: "ulong \<Rightarrow> phys \<Rightarrow> phys \<Rightarrow> bool" where
  "page_taken a s s' \<longleftrightarrow> a \<noteq> 0 \<and> al4k a \<and> phys_inv s' \<and> span a 0x1000 \<subseteq> phys_bytes s \<and>
     phys_bytes s' = phys_bytes s - span a 0x1000"

lemma page_takenD:
  assumes "page_taken a s s'" "below_64t (phys_bytes s)"
  shows "in_direct_map (P2V a)" "al4k (P2V a)" "unat (P2V a) + 0x2000 < 2 ^ 64" "unat (P2V a) + 0x1000 \<le> unat PHYS_VIRT_END"
    "page_va (P2V a) \<subseteq> free_va s" "page_va (P2V a) \<inter> free_va s' = {}" "free_va s' \<subseteq> free_va s" "below_64t (phys_bytes s')"
proof -
  from assms(1) have a: "a \<noteq> 0" "al4k a" "span a 0x1000 \<subseteq> phys_bytes s" "phys_bytes s' = phys_bytes s - span a 0x1000"
    by (auto simp: page_taken_def)
  note P = P2V_page [OF a(1-3) assms(2)]
  show "in_direct_map (P2V a)" "al4k (P2V a)" "unat (P2V a) + 0x1000 \<le> unat PHYS_VIRT_END" by (rule P(2), rule P(3), rule P(4))
  have "unat PHYS_VIRT_END + 0x1000 < 2 ^ 64" by (simp add: layout_defs)
  with P(4) show "unat (P2V a) + 0x2000 < 2 ^ 64" by linarith
  show "page_va (P2V a) \<subseteq> free_va s" unfolding P(5) free_va_def using a(3) by (rule image_mono)
  show "page_va (P2V a) \<inter> free_va s' = {}" unfolding P(5) free_va_def a(4) by auto
  show "free_va s' \<subseteq> free_va s" unfolding free_va_def a(4) by blast
  show "below_64t (phys_bytes s')" using assms(2) unfolding a(4) below_64t_def by blast
qed

text \<open>The state after a page has been added to cache \<open>k\<close>.\<close>

definition added :: "nat \<Rightarrow> ulong \<Rightarrow> phys \<Rightarrow> slub \<Rightarrow> slub" where
  "added k a p st =
     (upd_cache k (\<lambda>c. c\<lparr>kc_freehead := P2V a\<rparr>)
        (st\<lparr>sysvm := put_phys p (sysvm st),
            words := (link_up (page_objects k (P2V a)) (words st))
              (last (page_objects k (P2V a)) := kc_freehead (kmalloc_caches st k))\<rparr>))
     \<lparr>page_bits := set_nibble (pgno (P2V a)) (of_nat k) (page_bits st)\<rparr>"

lemma added_simps [simp]:
  "ph (added k a p st) = p" "page_calls (added k a p st) = page_calls st" "installed (added k a p st) = installed st"
  "page_bits (added k a p st) = set_nibble (pgno (P2V a)) (of_nat k) (page_bits st)"
  "words (added k a p st) = (link_up (page_objects k (P2V a)) (words st))
              (last (page_objects k (P2V a)) := kc_freehead (kmalloc_caches st k))"
  "kmalloc_caches (added k a p st) j =
     (if j = k then (kmalloc_caches st k)\<lparr>kc_freehead := P2V a\<rparr> else kmalloc_caches st j)"
  by (simp_all add: added_def page_calls_def yaoscall_p_def)

lemma slub_add_page_run:
  assumes calls: "page_calls st" and k: "k \<in> classes" "cache_ok st k" and lim: "below_64t (phys_bytes (ph st))"
    and al: "alloc_phy_page_small 0x1000 (ph st) = Inr (a, p)" "page_taken a (ph st) p"
  shows "slub_add_page junk k st = Inr (True, added k a p st)"
proof -
  note T = page_takenD [OF al(2) lim]
  let ?st1 = "st\<lparr>sysvm := put_phys p (sysvm st)\<rparr>" let ?p = "P2V a" let ?os = "page_objects k (P2V a)"
  have heap: "yaos_heap_alloc_4k junk 0x1000 st = Inr (?p, ?st1)"
    using al(1) by (simp add: yaos_heap_alloc_4k_eq [OF calls])
  have sz: "of_int (kc_size (kmalloc_caches st k)) = (of_nat (class_size k) :: ulong)"
    and idx: "kc_idx (kmalloc_caches st k) = of_nat k" using k(2) by (simp_all add: cache_ok_def)
  have "kc_idx (kmalloc_caches st k) < 16" unfolding idx using of_nat_class_lt [OF k(1)] by blast
  moreover have "set_idx_from_addr ?p (of_nat k) s = Inr (s\<lparr>page_bits := set_nibble (pgno ?p) (of_nat k) (page_bits s)\<rparr>)" for s
    using T(1) by (simp add: set_idx_from_addr_def V2P_direct pgno_def)
  ultimately show ?thesis
    using T(1) direct_map_nonzero [OF T(1)] page_objects_linked(1) [OF k(1) T(2,3), of "words st"]
    by (simp add: slub_add_page_def heap sz idx Let_def added_def upd_cache_def)
qed

lemma added_rep:
  assumes rep: "slub_rep st F L" and k: "k \<in> classes" and tk: "page_taken a (ph st) p"
  shows "slub_rep (added k a p st) (F(k := page_objects k (P2V a) @ F k)) L"
proof -
  note D = slub_repD [OF rep]
  note T = page_takenD [OF tk D(4)]
  let ?os = "page_objects k (P2V a)" let ?st = "added k a p st"
  have no: "unat (P2V a) + 0x1000 < 2 ^ 64" using T(3) by linarith
  note O = page_objects_props [OF k T(2) no]
  have old: "unat q div 4096 \<noteq> unat (P2V a) div 4096" if "owned st j q" for j q
  proof
    assume "unat q div 4096 = unat (P2V a) div 4096"
    then have "unat q \<in> page_va q \<inter> page_va (P2V a)" by (simp add: page_va_mem)
    with T(5) that show False by (auto simp: owned_def)
  qed
  have fresh: "q \<notin> set ?os" if "owned st j q" for j q using old [OF that] O(2) by metis
  have keep: "owned ?st j q" if "owned st j q" for j q
  proof -
    have "pgno q \<noteq> pgno (P2V a)" using old [OF that] that T(1) by (simp add: pgno_eq direct_map_ge owned_def)
    then have "page_nibble (page_bits ?st) (pgno q) = page_nibble (page_bits st) (pgno q)"
      using of_nat_class_lt [OF k] by (simp add: page_nibble_set)
    with that T(7) show ?thesis unfolding owned_def by (simp only: added_simps(1)) blast
  qed
  have new: "owned ?st k q" if "q \<in> set ?os" for q
  proof -
    note o = O [OF that]
    have "page_va q = page_va (P2V a)" using o(2) by (simp add: page_va_def)
    moreover have "unat q \<in> page_va (P2V a)" by (simp add: page_va_mem o(2))
    then have "unat q < unat (P2V a) div 4096 * 4096 + 4096" by (simp add: page_va_def)
    then have "unat q < unat PHYS_VIRT_END" using T(4) by linarith
    then have dm: "in_direct_map q" using T(1) o(3) by (simp add: in_direct_map_def word_less_nat_alt)
    moreover have "pgno q = pgno (P2V a)" using o(2) T(1) dm by (simp add: pgno_eq direct_map_ge)
    then have "unat (page_nibble (page_bits ?st) (pgno q)) = k"
      using of_nat_class_lt [OF k] by (simp add: page_nibble_set)
    ultimately show ?thesis using o(1) T(6) by (simp add: owned_def)
  qed
  have dist: "set ?os \<inter> set (F k) = {}" "set ?os \<inter> set (L k) = {}" using fresh D(8) [OF k] by auto
  have z: "0 \<notin> set ?os" using new direct_map_nonzero by (auto simp: owned_def)
  show ?thesis
  proof (rule slub_repI)
    show "page_calls ?st" "installed ?st \<noteq> 0" using D(1,2) by simp_all
    show "phys_inv (ph ?st)" "below_64t (phys_bytes (ph ?st))" using tk T(8) by (simp_all add: page_taken_def)
    fix j assume j: "j \<in> classes"
    show "cache_ok ?st j" using D(5) [OF j] by (cases "j = k") (simp_all add: cache_ok_def)
    show "free_chain (words ?st) (kc_freehead (kmalloc_caches ?st j)) ((F(k := ?os @ F k)) j)"
    proof (cases "j = k")
      case True
      have "free_chain (words ?st) (hd ?os) (?os @ F k)"
        unfolding added_simps
        by (rule chain_link_up [OF page_objects_linked(2) [OF k T(2,3)] page_objects_hd(2) z dist(1) D(6) [OF k]])
      then show ?thesis using True by (simp add: page_objects_hd(1) fun_upd_same del: added_simps(5) fun_upd_apply)
    next
      case False
      have "words ?st q = words st q" if "q \<in> set (F j)" for q
      proof -
        have "q \<notin> set ?os" using fresh D(8) [OF j, of q] that by blast
        then show ?thesis using link_up_other [of q ?os] page_objects_hd(2) [of k "P2V a"] by auto
      qed
      then show ?thesis using False D(6) [OF j] chain_cong [of "F j" "words ?st" "words st"] by (simp del: added_simps(5))
    qed
    show "distinct ((F(k := ?os @ F k)) j @ L j)"
      using D(7) [OF j] dist page_objects_linked(2) [OF k T(2,3)] by auto
    show "owned ?st j q" if "q \<in> set ((F(k := ?os @ F k)) j) \<union> set (L j)" for q
      using that new keep D(8) [OF j, of q] by (cases "j = k") auto
  qed
qed

section \<open>Allocation\<close>

abbreviation class_of_size :: "ulong \<Rightarrow> nat" where "class_of_size sz \<equiv> class_of (unat sz)"

lemma class_of_size_props:
  assumes "sz \<noteq> 0" "sz \<le> 4096"
  shows "class_of_size sz \<in> classes" "unat sz \<le> class_size (class_of_size sz)" "kmalloc_slab sz = Slab (class_of_size sz)"
proof -
  have n: "0 < unat sz" "unat sz \<le> 4096" using assms by (simp_all add: word_le_nat_alt unat_gt_0)
  then show "class_of_size sz \<in> classes" "unat sz \<le> class_size (class_of_size sz)"
    using class_of_used [OF n] used_in_classes by blast+
  show "kmalloc_slab sz = Slab (class_of_size sz)" by (rule kmalloc_slab_class [OF assms])
qed

text \<open>A request that the list of its class can serve.\<close>

lemma kmalloc_from_list:
  assumes rep: "slub_rep st F L" and sz: "sz \<noteq> 0" "sz \<le> 4096" and F: "F (class_of_size sz) = p # xs"
  shows "\<exists>st'. kmalloc junk sz st = Inr (p, st') \<and> ph st' = ph st \<and>
    slub_rep st' (F(class_of_size sz := xs)) (L(class_of_size sz := p # L (class_of_size sz)))"
proof -
  let ?k = "class_of_size sz"
  note C = class_of_size_props [OF sz] and T = take_object_rep [OF rep class_of_size_props(1) [OF sz] F]
  have "kc_freehead (kmalloc_caches st ?k) \<noteq> 0" using slub_repD(6) [OF rep C(1)] by (simp add: F)
  then have "kmalloc junk sz st = take_object ?k st" using slub_repD(2) [OF rep] by (simp add: kmalloc_def C(3))
  with T show ?thesis by (simp add: upd_cache_simps(1))
qed

lemma kmalloc_from_page:
  assumes rep: "slub_rep st F L" and sz: "sz \<noteq> 0" "sz \<le> 4096" and F: "F (class_of_size sz) = []"
    and al: "alloc_phy_page_small 0x1000 (ph st) = Inr (a, p)" "page_taken a (ph st) p"
  shows "\<exists>st'. kmalloc junk sz st = Inr (P2V a, st') \<and> ph st' = p \<and>
    slub_rep st' (F(class_of_size sz := tl (page_objects (class_of_size sz) (P2V a)))) (L(class_of_size sz := P2V a # L (class_of_size sz)))"
proof -
  let ?k = "class_of_size sz" let ?st = "added ?k a p st" let ?os = "page_objects ?k (P2V a)"
  note C = class_of_size_props [OF sz] and D = slub_repD [OF rep]
  have run: "slub_add_page junk ?k st = Inr (True, ?st)"
    by (rule slub_add_page_run [OF D(1) C(1) D(5) [OF C(1)] D(4) al])
  have rep1: "slub_rep ?st (F(?k := ?os @ F ?k)) L" by (rule added_rep [OF rep C(1) al(2)])
  obtain ys where os: "?os = P2V a # ys" using page_objects_hd [of ?k "P2V a"] by (cases ?os) auto
  then have "(F(?k := ?os @ F ?k)) ?k = P2V a # ys" by (simp add: F)
  note T = take_object_rep [OF rep1 C(1) this]
  have "kc_freehead (kmalloc_caches ?st ?k) \<noteq> 0" using slub_repD(6) [OF rep1 C(1)] by (simp only: fun_upd_same os append.simps free_chain.simps) simp
  moreover have "kc_freehead (kmalloc_caches st ?k) = 0" using D(6) [OF C(1)] by (simp add: F)
  ultimately have "kmalloc junk sz st = take_object ?k ?st"
    using D(2) run by (simp add: kmalloc_def C(3) del: added_simps(6))
  with T(1) have "kmalloc junk sz st = Inr (P2V a, upd_cache ?k (\<lambda>c. c\<lparr>kc_freehead := words ?st (P2V a)\<rparr>) ?st)" by simp
  moreover note T(2) [unfolded fun_upd_upd]
  moreover have "ph (upd_cache ?k (\<lambda>c. c\<lparr>kc_freehead := words ?st (P2V a)\<rparr>) ?st) = p" by simp
  moreover have "ys = tl ?os" by (simp add: os)
  ultimately show ?thesis by blast
qed

text \<open>A request for which no page is left stops at the assertion of \<open>slub_add_page\<close>.\<close>

lemma kmalloc_without_page:
  assumes rep: "slub_rep st F L" and sz: "sz \<noteq> 0" "sz \<le> 4096" and F: "F (class_of_size sz) = []"
  shows "alloc_phy_page_small 0x1000 (ph st) = Inr (0, p) \<Longrightarrow> kmalloc junk sz st = Inl Assertion_failed"
    and "alloc_phy_page_small 0x1000 (ph st) = panic \<Longrightarrow> kmalloc junk sz st = panic"
proof -
  let ?k = "class_of_size sz"
  note C = class_of_size_props [OF sz] and D = slub_repD [OF rep]
  have "kc_freehead (kmalloc_caches st ?k) = 0" using D(6) [OF C(1)] by (simp add: F)
  then have go: "kmalloc junk sz st = andThen (slub_add_page junk ?k st) (\<lambda>(ok, st1).
           if \<not> ok then Inr (0, st1)
           else andThen (ASSERT (kc_freehead (kmalloc_caches st1 ?k) \<noteq> 0)) (\<lambda>_. take_object ?k st1))"
    using D(2) by (simp add: kmalloc_def C(3))
  have low: "\<not> in_direct_map (P2V 0)" by (simp add: in_direct_map_def P2V_def)
  show "kmalloc junk sz st = Inl Assertion_failed" if "alloc_phy_page_small 0x1000 (ph st) = Inr (0, p)"
    unfolding go slub_add_page_def using that low by (simp add: yaos_heap_alloc_4k_eq [OF D(1)])
  show "kmalloc junk sz st = panic" if "alloc_phy_page_small 0x1000 (ph st) = panic"
    unfolding go slub_add_page_def using that by (simp add: yaos_heap_alloc_4k_eq [OF D(1)])
qed

lemma small_malloc:
  assumes "sz \<le> 4096"
  shows "slub_malloc junk sz st = andThen (kmalloc junk sz st) (\<lambda>(addr, st1).
     Inr (\<lparr>rv = addr, re = (if addr = 0 then ERR_YAOSCALL_NO_MEM else YAOSCALL_OK)\<rparr>, st1))"
proof -
  have "\<not> sz > KMALLOC_MAX_CACHE_SIZE" using assms by (simp only: not_less)
  then show ?thesis by (simp only: slub_malloc_def if_False)
qed

lemma page_taken_alloc:
  assumes "phys_inv s"
  shows "(\<exists>a p. alloc_phy_page_small 0x1000 s = Inr (a, p) \<and> page_taken a s p) \<or>
    (\<exists>p. alloc_phy_page_small 0x1000 s = Inr (0, p)) \<and> phys_exhausted 0x1000 s \<or>
    alloc_phy_page_small 0x1000 s = panic \<and> pfree (phy_page_holes s) = None \<and> find_fit 0x1000 (phy_page_holes s) = Some None"
proof -
  have req: "small_request 0x1000 s" by (simp add: small_request_def)
  have al: "align_4k 0x1000 = 0x1000" by (simp add: align_4k_def)
  from alloc_phy_page_small_run [OF assms req] show ?thesis unfolding al page_taken_def by blast
qed

text \<open>
  The three ways a request of 1 to 4096 bytes ends. The first one keeps the invariant, with one more object in use.
\<close>

lemma slub_malloc_cases:
  assumes rep: "slub_rep st F L" and sz: "sz \<noteq> 0" "sz \<le> 4096"
  shows "(\<exists>p xs st'. slub_malloc junk sz st = Inr (\<lparr>rv = p, re = YAOSCALL_OK\<rparr>, st') \<and> in_direct_map p \<and>
      slub_rep st' (F(class_of_size sz := xs)) (L(class_of_size sz := p # L (class_of_size sz)))) \<or>
    slub_malloc junk sz st = Inl Assertion_failed \<and> F (class_of_size sz) = [] \<and> phys_exhausted 0x1000 (ph st) \<or>
    slub_malloc junk sz st = panic \<and> F (class_of_size sz) = [] \<and> pfree (phy_page_holes (ph st)) = None \<and>
      find_fit 0x1000 (phy_page_holes (ph st)) = Some None"
proof -
  let ?k = "class_of_size sz"
  have got: ?thesis if "kmalloc junk sz st = Inr (p, st')" "slub_rep st' (F(?k := xs)) (L(?k := p # L ?k))" for p xs st'
  proof -
    have "in_direct_map p"
      using slub_repD(8) [OF that(2) class_of_size_props(1) [OF sz], of p] by (simp add: owned_def)
    moreover have "slub_malloc junk sz st = Inr (\<lparr>rv = p, re = YAOSCALL_OK\<rparr>, st')"
      using that(1) direct_map_nonzero [OF calculation] by (simp add: small_malloc [OF sz(2)])
    ultimately show ?thesis using that(2) by blast
  qed
  show ?thesis
  proof (cases "F ?k")
    case (Cons p xs)
    from kmalloc_from_list [OF rep sz Cons] got show ?thesis by blast
  next
    case Nil
    from page_taken_alloc [OF slub_repD(3) [OF rep]]
    consider (page) a p where "alloc_phy_page_small 0x1000 (ph st) = Inr (a, p)" "page_taken a (ph st) p"
      | (none) p where "alloc_phy_page_small 0x1000 (ph st) = Inr (0, p)" "phys_exhausted 0x1000 (ph st)"
      | (descr) "alloc_phy_page_small 0x1000 (ph st) = panic" "pfree (phy_page_holes (ph st)) = None"
          "find_fit 0x1000 (phy_page_holes (ph st)) = Some None"
      by (elim disjE exE conjE) (rule that, assumption+)+
    then show ?thesis
    proof cases
      case page
      from kmalloc_from_page [OF rep sz Nil this] got show ?thesis by blast
    next
      case none
      from kmalloc_without_page(1) [OF rep sz Nil none(1)] none(2) Nil show ?thesis by (simp add: small_malloc [OF sz(2)])
    next
      case descr
      from kmalloc_without_page(2) [OF rep sz Nil descr(1)] descr(2,3) Nil show ?thesis by (simp add: small_malloc [OF sz(2)])
    qed
  qed
qed

end
