(* ===== verification/Slub_Runs.thy ===== *)
theory Slub_Runs
  imports Slub_Correct
begin

text \<open>
  The allocator of small objects as its callers see it: what loading the module establishes,
  the runs of \<open>malloc\<close>, \<open>free\<close> and writes, blocks of more than a page, and what
  happens to objects of 96 and 192 bytes.
\<close>

section \<open>Loading the module\<close>

definition fresh_cache :: "nat \<Rightarrow> kmem_cache" where
  "fresh_cache k = \<lparr>kc_idx = of_nat k, kc_size = snd (kmalloc_info ! k), kc_name = fst (kmalloc_info ! k), kc_freehead = 0\<rparr>"

lemma new_kmalloc_cache_eq:
  "k \<le> 15 \<Longrightarrow> new_kmalloc_cache k st = Inr (upd_cache k (\<lambda>_. fresh_cache k) st)"
  by (simp add: new_kmalloc_cache_def fresh_cache_def)

lemma create_kmalloc_caches_eq:
  "\<exists>c. create_kmalloc_caches st = Inr (st\<lparr>kmalloc_caches := c\<rparr>) \<and> (\<forall>k \<in> insert 15 classes. c k = fresh_cache k)"
proof -
  have "create_kmalloc_caches st = Inr (foldr (\<lambda>k. upd_cache k (\<lambda>_. fresh_cache k))
      [14, 15, 12, 11, 10, 9, 8, 2, 7, 1, 6, 5, 4, 3] st)"
    by (simp add: create_kmalloc_caches_def create_caches_from.simps new_kmalloc_cache_eq)
  also have "\<dots> = Inr (st\<lparr>kmalloc_caches := (\<lambda>k. if k \<in> {14, 15, 12, 11, 10, 9, 8, 2, 7, 1, 6, 5, 4, 3}
      then fresh_cache k else kmalloc_caches st k)\<rparr>)" (is "_ = Inr (st\<lparr>kmalloc_caches := ?c\<rparr>)")
    by (simp add: upd_cache_def) (simp add: fun_eq_iff)
  finally have run: "create_kmalloc_caches st = Inr (st\<lparr>kmalloc_caches := ?c\<rparr>)" .
  have "?c k = fresh_cache k" if "k \<in> insert 15 classes" for k
  proof -
    have "k \<in> {14, 15, 12, 11, 10, 9, 8, 2, 7, 1, 6, 5, 4, 3}" using that class_cases [of k] by auto
    then show ?thesis by (simp only: if_True)
  qed
  with run show ?thesis by blast
qed

lemma fresh_cache_ok: "k \<in> classes \<Longrightarrow> kc_size (fresh_cache k) = int (class_size k)"
  unfolding class_cases by (elim disjE) (simp_all add: fresh_cache_def class_size_def kmalloc_info_def)

lemma yaos_max_physical_mem_eq:
  "page_calls st \<Longrightarrow> yaos_max_physical_mem junk st = Inr (max_phy_mem_addr (pmem (ph st)), st)"
  using page_calls_heap(3) [of st]
  by (simp add: yaos_max_physical_mem_def yaoscall_def page_call_def max_phymem_def)

text \<open>The size of \<open>page_bits\<close> is a multiple of 4K.\<close>

lemma page_bits_size_aligned: "page_bits_size m AND 0xfff = 0"
  by (simp add: page_bits_size_def and.assoc) 

lemma page_calls_regist:
  "i \<notin> fst ` set page_data \<Longrightarrow> page_calls (regist_yaoscall i f st) = page_calls st"
proof -
  assume i: "i \<notin> fst ` set page_data"
  have "yaoscall_p j (regist_yaoscall i f st) = yaoscall_p j st" if "(j, g) \<in> set page_data" for j g
    using that i by (force simp: yaoscall_p_def regist_yaoscall_def)
  then show ?thesis unfolding page_calls_def list_all_iff by auto
qed

lemma init_slub_bp_run:
  assumes calls: "page_calls st" and inv: "phys_inv (ph st)" and lim: "below_64t (phys_bytes (ph st))"
    and req: "small_request (page_bits_size (max_phy_mem_addr (pmem (ph st)))) (ph st)"
    and run: "init_slub_bp junk st = Inr st'"
  shows "page_calls st' \<and> phys_inv (ph st') \<and> below_64t (phys_bytes (ph st')) \<and> installed st' = installed st"
proof -
  let ?sz = "page_bits_size (max_phy_mem_addr (pmem (ph st)))"
  from run obtain a p where al: "alloc_phy_page_small ?sz (ph st) = Inr (a, p)"
    and st': "ph st' = p" "yaoscall_table st' = yaoscall_table st" "installed st' = installed st"
    by (auto simp: init_slub_bp_def yaos_max_physical_mem_eq [OF calls] yaos_heap_alloc_4k_eq [OF calls page_bits_size_aligned]
        Let_def outcome_simps)
  have "phys_inv p \<and> phys_bytes p \<subseteq> phys_bytes (ph st)"
    using phys.alloc_got [OF inv req al] phys.alloc_failed [OF inv req] al by (cases "a = 0") auto
  moreover have "page_calls st'" using calls page_calls_cong [of st' st] st'(2) by simp
  ultimately show ?thesis using lim st' by (auto simp: below_64t_def)
qed

lemma slub_main_rep:
  assumes calls: "page_calls st" and inv: "phys_inv (ph st)" and lim: "below_64t (phys_bytes (ph st))"
    and req: "small_request (page_bits_size (max_phy_mem_addr (pmem (ph st)))) (ph st)"
    and run: "slub_main junk MOD_BPLOAD bp st = Inr (e, st')"
  shows "e = 0 \<and> slub_rep st' (\<lambda>_. []) (\<lambda>_. []) \<and> kmalloc_caches st' 15 = fresh_cache 15 \<and>
    yaoscall_p YAOS_malloc st' = f_slub_malloc \<and> yaoscall_p YAOS_mfree st' = f_slub_mfree"
proof -
  let ?st0 = "st\<lparr>slub_ok := False\<rparr>"
  from run obtain st1 st2 where bp: "init_slub_bp junk ?st0 = Inr st1" and ap: "init_slub_ap st1 = Inr st2"
    and e: "e = 0" and st': "st' = regist_yaoscall YAOS_mfree f_slub_mfree (regist_yaoscall YAOS_malloc f_slub_malloc st2)"
    by (auto simp: slub_main_def outcome_simps)
  have "page_calls ?st0" using calls page_calls_cong [of ?st0 st] by simp
  from init_slub_bp_run [OF this _ _ _ bp] inv lim req
  have B: "page_calls st1" "phys_inv (ph st1)" "below_64t (phys_bytes (ph st1))" by simp_all
  obtain c where c: "create_kmalloc_caches st1 = Inr (st1\<lparr>kmalloc_caches := c\<rparr>)" "\<forall>k \<in> insert 15 classes. c k = fresh_cache k"
    using create_kmalloc_caches_eq by blast
  then have st2: "st2 = st1\<lparr>kmalloc_caches := c, slub_ok := True, installed := 0xa5a5\<rparr>"
    using ap by (simp add: init_slub_ap_def)
  have ph: "ph st' = ph st1" "kmalloc_caches st' = c" "installed st' = 0xa5a5" by (simp_all add: st' st2 regist_yaoscall_def)
  have "page_calls st2" using B(1) page_calls_cong [of st2 st1] by (simp add: st2)
  then have calls': "page_calls st'" unfolding st' by (simp add: page_calls_regist page_data_def)
  have "slub_rep st' (\<lambda>_. []) (\<lambda>_. [])"
  proof (rule slub_repI)
    show "installed st' \<noteq> 0" by (simp add: ph(3))
    fix k assume k: "k \<in> classes"
    then show "cache_ok st' k" "free_chain (words st') (kc_freehead (kmalloc_caches st' k)) []"
      using c(2) fresh_cache_ok [OF k] by (simp_all add: cache_ok_def ph(2)) (simp_all add: fresh_cache_def)
  qed (use calls' B in \<open>simp_all add: ph(1)\<close>)
  with e c(2) show ?thesis by (simp add: ph(2)) (simp add: st' yaoscall_p_def regist_yaoscall_def)
qed

section \<open>Runs\<close>

text \<open>
  A run of requests (of at most 4096 bytes), releases of objects in use, and writes into objects in
  use, with the objects in use and the sizes they were asked for.
\<close>

inductive slub_run :: "slub \<Rightarrow> slub \<Rightarrow> (ulong \<times> ulong) list \<Rightarrow> bool" for st0 where
  start: "slub_run st0 st0 []"
| got: "slub_run st0 st live \<Longrightarrow> sz \<noteq> 0 \<Longrightarrow> sz \<le> KMALLOC_MAX_CACHE_SIZE \<Longrightarrow>
    slub_malloc junk sz st = Inr (r, st') \<Longrightarrow> slub_run st0 st' ((rv r, sz) # live)"
| got_empty: "slub_run st0 st live \<Longrightarrow> slub_malloc junk 0 st = Inr (r, st') \<Longrightarrow> slub_run st0 st' live"
| freed: "slub_run st0 st live \<Longrightarrow> (p, sz) \<in> set live \<Longrightarrow> slub_mfree junk p st = Inr (r, st') \<Longrightarrow>
    slub_run st0 st' (remove1 (p, sz) live)"
| written: "slub_run st0 st live \<Longrightarrow> (p, sz) \<in> set live \<Longrightarrow> unat a \<in> span p sz \<Longrightarrow>
    slub_run st0 (st\<lparr>words := (words st)(a := v)\<rparr>) live"

definition live_in :: "(nat \<Rightarrow> ulong list) \<Rightarrow> (ulong \<times> ulong) list \<Rightarrow> bool" where
  "live_in L live \<longleftrightarrow> (\<forall>(p, sz) \<in> set live. sz \<noteq> 0 \<and> sz \<le> 4096 \<and> p \<in> set (L (class_of_size sz)))"

definition slub_live :: "slub \<Rightarrow> (ulong \<times> ulong) list \<Rightarrow> bool" where
  "slub_live st live \<longleftrightarrow> distinct (map fst live) \<and> (\<exists>F L. slub_rep st F L \<and> live_in L live)"

lemma live_inD: "live_in L live \<Longrightarrow> (p, sz) \<in> set live \<Longrightarrow> sz \<noteq> 0 \<and> sz \<le> 4096 \<and> p \<in> set (L (class_of_size sz))"
  by (auto simp: live_in_def)

lemma slub_liveE:
  assumes "slub_live st live"
  obtains F L where "slub_rep st F L" "distinct (map fst live)" "live_in L live"
  using assms unfolding slub_live_def by blast

lemma slub_liveI:
  assumes "slub_rep st F L" "distinct (map fst live)"
    "\<And>p sz. (p, sz) \<in> set live \<Longrightarrow> sz \<noteq> 0 \<and> sz \<le> 4096 \<and> p \<in> set (L (class_of_size sz))"
  shows "slub_live st live"
  using assms unfolding slub_live_def live_in_def by blast

lemma live_malloc:
  assumes "slub_live st live" and sz: "sz \<noteq> 0" "sz \<le> 4096" and run: "slub_malloc junk sz st = Inr (r, st')"
  shows "slub_live st' ((rv r, sz) # live) \<and> in_direct_map (rv r) \<and> re r = YAOSCALL_OK"
proof -
  obtain F L where rep: "slub_rep st F L" and d: "distinct (map fst live)" and "live_in L live"
    using assms(1) by (rule slub_liveE)
  note l = live_inD [OF this(3)]
  let ?k = "class_of_size sz"
  from slub_malloc_cases [OF rep sz, of junk] run obtain p xs where r: "r = \<lparr>rv = p, re = YAOSCALL_OK\<rparr>" "in_direct_map p"
    and rep': "slub_rep st' (F(?k := xs)) (L(?k := p # L ?k))" by auto
  note C = class_of_size_props [OF sz] and E = slub_repD [OF rep']
  have new: "p \<notin> fst ` set live"
  proof
    assume "p \<in> fst ` set live"
    then obtain n where n: "(p, n) \<in> set live" by auto
    with l have m: "n \<noteq> 0" "n \<le> 4096" "p \<in> set (L (class_of_size n))" by blast+
    have "owned st' (class_of_size n) p" using E(8) [OF class_of_size_props(1) [OF m(1,2)], of p] m(3) by (auto split: if_splits)
    moreover have "owned st' ?k p" using E(8) [OF C(1), of p] by simp
    ultimately have "class_of_size n = ?k" by (rule owned_class [rotated])
    with m(3) E(7) [OF C(1)] show False by simp
  qed
  have "slub_live st' ((p, sz) # live)"
  proof (rule slub_liveI [OF rep'])
    show "distinct (map fst ((p, sz) # live))" using d new by simp
    fix q n assume "(q, n) \<in> set ((p, sz) # live)"
    then show "n \<noteq> 0 \<and> n \<le> 4096 \<and> q \<in> set ((L(?k := p # L ?k)) (class_of_size n))" using l [of q n] sz by auto
  qed
  with r show ?thesis by simp
qed

lemma live_mfree:
  assumes "slub_live st live" and b: "(p, sz) \<in> set live" and run: "slub_mfree junk p st = Inr (r, st')"
  shows "slub_live st' (remove1 (p, sz) live)"
proof -
  obtain F L where rep: "slub_rep st F L" and d: "distinct (map fst live)" and "live_in L live"
    using assms(1) by (rule slub_liveE)
  note l = live_inD [OF this(3)]
  let ?k = "class_of_size sz"
  have k: "?k \<in> classes" "p \<in> set (L ?k)" using l [OF b] class_of_size_props(1) [of sz] by blast+
  from run have "st' = pushed ?k p st" by (auto simp: slub_mfree_def kmfree_eq [OF rep k] outcome_simps)
  with pushed_rep [OF rep k] have rep': "slub_rep st' (F(?k := p # F ?k)) (L(?k := remove1 p (L ?k)))" by simp
  show ?thesis
  proof (rule slub_liveI [OF rep'])
    show "distinct (map fst (remove1 (p, sz) live))"
      using d inj_on_subset [OF _ set_remove1_subset, of fst live] by (simp add: distinct_map distinct_remove1)
    fix q n assume q: "(q, n) \<in> set (remove1 (p, sz) live)"
    have "distinct live" using d by (simp add: distinct_map)
    then have "(q, n) \<in> set live" "(q, n) \<noteq> (p, sz)" using q by auto
    moreover have "q \<noteq> p" using d b calculation by (force simp: distinct_map inj_on_def)
    ultimately show "n \<noteq> 0 \<and> n \<le> 4096 \<and> q \<in> set ((L(?k := remove1 p (L ?k))) (class_of_size n))"
      using l [of q n] by auto
  qed
qed

lemma run_live:
  assumes "slub_live st0 []" and "slub_run st0 st live" shows "slub_live st live"
  using assms(2)
proof (induction rule: slub_run.induct)
  case start
  then show ?case by (rule assms(1))
next
  case (got st live sz junk r st')
  from live_malloc [OF got.IH got.hyps(2-4)] show ?case by blast
next
  case (got_empty st live junk r st')
  obtain F L where "slub_rep st F L" using got_empty.IH by (rule slub_liveE)
  note slub_repD(2) [OF this]
  then have "st' = st" using got_empty.hyps(2) by (auto simp: slub_malloc_def kmalloc_def kmalloc_slab_def)
  then show ?case using got_empty.IH by simp
next
  case (freed st live p sz junk r st')
  from live_mfree [OF freed.IH freed.hyps(2,3)] show ?case .
next
  case (written st live p sz a v)
  obtain F L where rep: "slub_rep st F L" and d: "distinct (map fst live)" and l: "live_in L live"
    using written.IH by (rule slub_liveE)
  from live_inD [OF l written.hyps(2)] have b: "sz \<noteq> 0" "sz \<le> 4096" "p \<in> set (L (class_of_size sz))" by blast+
  note C = class_of_size_props [OF b(1,2)]
  have "unat a \<in> obj_va (class_of_size sz) p" using written.hyps(3) C(2) by (auto simp: span_def obj_va_def)
  from write_live_rep [OF rep C(1) b(3) this] have "slub_rep (st\<lparr>words := (words st)(a := v)\<rparr>) F L" .
  then show ?case using d live_inD [OF l] by (rule slub_liveI)
qed

lemma live_apart:
  assumes "slub_live st live"
  shows "apart live" "blocks live \<inter> free_va (ph st) = {}" "\<forall>b \<in> set live. in_direct_map (fst b)"
proof -
  obtain F L where rep: "slub_rep st F L" and d: "distinct (map fst live)" and "live_in L live"
    using assms by (rule slub_liveE)
  note l = live_inD [OF this(3)]
  have own: "owned st (class_of_size n) p \<and> span p n \<subseteq> obj_va (class_of_size n) p" if "(p, n) \<in> set live" for p n
  proof -
    from l [OF that] have b: "n \<noteq> 0" "n \<le> 4096" "p \<in> set (L (class_of_size n))" by blast+
    note C = class_of_size_props [OF b(1,2)]
    show ?thesis using slub_repD(8) [OF rep C(1), of p] b(3) C(2) by (auto simp: span_def obj_va_def)
  qed
  show "apart live" using d own
  proof (induction live)
    case (Cons b bs)
    obtain p n where b: "b = (p, n)" by (cases b)
    have "span p n \<inter> span q m = {}" if "(q, m) \<in> set bs" for q m
    proof -
      have "p \<noteq> q" using Cons.prems(1) that by (force simp: b)
      with owned_disjoint [of st "class_of_size n" p "class_of_size m" q] Cons.prems(2) [of p n] Cons.prems(2) [of q m] that
      show ?thesis by (auto simp: b)
    qed
    then have "span (fst b) (snd b) \<inter> blocks bs = {}" unfolding blocks_def b by fastforce
    moreover have "apart bs" using Cons.IH Cons.prems by simp
    ultimately show ?case by simp
  qed simp
  have "span p n \<inter> free_va (ph st) = {}" if "(p, n) \<in> set live" for p n
    using own [OF that] obj_in_page [of "class_of_size n" p] by (auto simp: owned_def)
  then show "blocks live \<inter> free_va (ph st) = {}" unfolding blocks_def by fastforce
  show "\<forall>b \<in> set live. in_direct_map (fst b)" using own by (auto simp: owned_def)
qed

text \<open>
  C6: Once the module \<open>slub_mm\<close> is loaded, in every run of requests of at most 4096 bytes, releases of
  objects in use, and arbitrary writes of the owners into their objects, the objects in use are
  pairwise disjoint, lie in the direct map, and are disjoint from the memory the page
  allocator regards as free: neither what an owner writes nor the order of releases can make the
  allocator hand out memory twice.
\<close>

theorem slub_objects_never_overlap:
  assumes "page_calls st" and "phys_inv (ph st)" and "below_64t (phys_bytes (ph st))"
    and "small_request (page_bits_size (max_phy_mem_addr (pmem (ph st)))) (ph st)"
    and "slub_main junk MOD_BPLOAD bp st = Inr (e, st0)" and "slub_run st0 st' live"
  shows "apart live \<and> blocks live \<inter> free_va (ph st') = {} \<and> (\<forall>b \<in> set live. in_direct_map (fst b))"
proof -
  have "slub_rep st0 (\<lambda>_. []) (\<lambda>_. [])" using slub_main_rep [OF assms(1-5)] by blast
  then have "slub_live st0 []" by (rule slub_liveI) simp_all
  from live_apart [OF run_live [OF this assms(6)]] show ?thesis by blast
qed

text \<open>Free memory that is in holes can always serve a page.\<close>

lemma holes_serve_page:
  assumes "phys_inv s" "hl_bytes (phy_page_holes s) \<noteq> {}"
  shows "find_fit 0x1000 (phy_page_holes s) \<noteq> Some None"
proof
  let ?H = "phy_page_holes s"
  assume none: "find_fit 0x1000 ?H = Some None"
  obtain hs fs where rep: "hl_rep MAX_PHY_PAGE_HOLE ?H hs fs" using assms(1) by (rule phys_invE)
  from assms(2) obtain i where i: "i \<in> set hs" by (auto simp: hl_bytes_rep [OF rep])
  have "aligned 12 (h_size (nodes ?H i))" using assms(1) by (simp add: phys_inv_def hl_aligned_def)
  then have "4096 dvd unat (h_size (nodes ?H i))" by (simp add: al4k_dvd)
  moreover have "unat (h_size (nodes ?H i)) \<noteq> 0" using hl_repD(8) [OF rep i] by (simp add: unat_eq_0)
  ultimately have "4096 \<le> unat (h_size (nodes ?H i))" by (simp add: dvd_imp_le)
  moreover have "h_size (nodes ?H i) < 0x1000" by (rule find_fit_None [OF rep none i])
  ultimately show False by (simp add: word_less_nat_alt)
qed

lemma boot_slub_simps [simp]: "ph boot_slub = one_page_phys" "page_calls boot_slub"
proof -
  show "ph boot_slub = one_page_phys" by (simp add: boot_slub_def full_vm_def)
  show "page_calls boot_slub"
    by (simp add: page_calls_def yaoscall_p_def boot_slub_def init_yaoscall_def yaoscall_data_def page_data_def
        regist_yaoscall_def)
qed

lemma one_page_bytes: "phys_bytes one_page_phys = page_bytes 1" "below_64t (phys_bytes one_page_phys)"
  by (simp_all add: phys_bytes_def page_area_def below_64t_def page_bytes_def)

lemma boot_page_bits: "page_bits_size (max_phy_mem_addr (pmem one_page_phys)) = 0x9000"
proof -
  have "max_phy_mem_addr (pmem one_page_phys) = 0x10000000"
    by (simp add: one_page_phys_def init_phy_page_def one_page_mem_free)
  then show ?thesis by (simp add: page_bits_size_def drop_bit_eq_div)
qed

text \<open>The machine with one free 2M page loads the module and has memory left for objects.\<close>

lemma boot_slub_loaded:
  "\<exists>st0. slub_main 0 MOD_BPLOAD True boot_slub = Inr (0, st0) \<and> slub_rep st0 (\<lambda>_. []) (\<lambda>_. []) \<and>
     find_fit 0x1000 (phy_page_holes (ph st0)) \<noteq> Some None"
proof -
  have req: "small_request 0x9000 one_page_phys" by (simp add: small_request_def)
  from one_page_phys_serves [OF this] obtain a p where al: "alloc_phy_page_small 0x9000 one_page_phys = Inr (a, p)" "a \<noteq> 0" by blast
  have n: "align_4k 0x9000 = 0x9000" by (simp add: align_4k_def)
  from phys.alloc_got [OF one_page_phys_inv req al] have p: "phys_inv p" "span a 0x9000 \<subseteq> page_bytes 1"
    "phys_bytes p = page_bytes 1 - span a 0x9000" by (simp_all add: n one_page_bytes)
  have card: "card (span a 0x9000) = 0x9000" "card (page_bytes k) = 0x200000" "finite (page_bytes k)" for k
    by (simp_all add: span_def page_bytes_def)
  then have cp: "card (phys_bytes p) = 0x200000 - 0x9000"
    using card_Diff_subset [OF finite_subset [OF p(2) card(3)] p(2)] by (simp add: p(3))
  have "pm_free (pmem p) = {}"
  proof (rule ccontr)
    assume "pm_free (pmem p) \<noteq> {}"
    then obtain k where "page_bytes k \<subseteq> phys_bytes p" by (auto simp: phys_bytes_def page_area_def)
    then have "card (page_bytes k) \<le> card (phys_bytes p)" using p(3) card(3) by (intro card_mono) simp_all
    then show False by (simp add: cp card)
  qed
  then have "phys_bytes p = hl_bytes (phy_page_holes p)" by (simp add: phys_bytes_def page_area_def)
  then have ne: "hl_bytes (phy_page_holes p) \<noteq> {}" using cp by auto
  let ?st = "boot_slub\<lparr>slub_ok := False\<rparr>"
  have ps: "ph ?st = one_page_phys" "page_calls ?st" using boot_slub_simps page_calls_cong [of ?st boot_slub] by simp_all
  obtain st1 where bp: "init_slub_bp 0 ?st = Inr st1" "ph st1 = p"
    using al(1) by (simp add: init_slub_bp_def yaos_max_physical_mem_eq [OF ps(2)] yaos_heap_alloc_4k_eq [OF ps(2)] Let_def boot_page_bits)
  obtain c where "create_kmalloc_caches st1 = Inr (st1\<lparr>kmalloc_caches := c\<rparr>)" using create_kmalloc_caches_eq by blast
  then obtain st0 where run: "slub_main 0 MOD_BPLOAD True boot_slub = Inr (0, st0)" and ph: "ph st0 = p"
    using bp by (simp add: slub_main_def init_slub_ap_def regist_yaoscall_def)
  have req': "small_request (page_bits_size (max_phy_mem_addr (pmem (ph boot_slub)))) (ph boot_slub)"
    using req by (simp add: boot_page_bits)
  have "slub_rep st0 (\<lambda>_. []) (\<lambda>_. [])"
    using slub_main_rep [OF boot_slub_simps(2) _ _ req' run] one_page_phys_inv one_page_bytes(2) by simp
  with run ph holes_serve_page [OF p(1) ne] show ?thesis by blast
qed

theorem slub_objects_never_overlap_witness:
  "\<exists>st0 st' p. slub_main 0 MOD_BPLOAD True boot_slub = Inr (0, st0) \<and> slub_run st0 st' [(p, 100)] \<and>
     span p 100 \<inter> free_va (ph st') = {} \<and> in_direct_map p"
proof -
  obtain st0 where load: "slub_main 0 MOD_BPLOAD True boot_slub = Inr (0, st0)" and rep: "slub_rep st0 (\<lambda>_. []) (\<lambda>_. [])"
    and fit: "find_fit 0x1000 (phy_page_holes (ph st0)) \<noteq> Some None" using boot_slub_loaded by blast
  obtain p st' where got: "slub_malloc 0 100 st0 = Inr (\<lparr>rv = p, re = 0\<rparr>, st')"
    using slub_malloc_cases [OF rep, of 100 0] fit by (auto simp: phys_exhausted_def)
  have run: "slub_run st0 st' ((rv \<lparr>rv = p, re = 0\<rparr>, 100) # [])"
    by (rule slub_run.got [OF slub_run.start _ _ got]) simp_all
  have "small_request (page_bits_size (max_phy_mem_addr (pmem (ph boot_slub)))) (ph boot_slub)"
    by (simp add: boot_page_bits small_request_def)
  from slub_objects_never_overlap [OF boot_slub_simps(2) _ _ this load run] load run
  show ?thesis using one_page_phys_inv one_page_bytes(2) by auto
qed

text \<open>
  C7: A request of 1 to 4096 bytes, in any state the invariant describes, ends in one of three ways: it
  returns an object of its class with \<open>YAOSCALL_OK\<close> and the invariant holds with this object
  in use; or no free object and no page is left, and it stops at an assertion (never with NULL);
  or no free object is left and the page allocator panics for want of a descriptor.
\<close>

theorem slub_malloc_correct:
  assumes "slub_rep st F L" and "sz \<noteq> 0" and "sz \<le> KMALLOC_MAX_CACHE_SIZE"
  shows "(\<exists>p xs st'. slub_malloc junk sz st = Inr (\<lparr>rv = p, re = YAOSCALL_OK\<rparr>, st') \<and> unat sz \<le> class_size (class_of_size sz) \<and>
      slub_rep st' (F(class_of_size sz := xs)) (L(class_of_size sz := p # L (class_of_size sz)))) \<or>
    slub_malloc junk sz st = Inl Assertion_failed \<and> F (class_of_size sz) = [] \<and> phys_exhausted 0x1000 (ph st) \<or>
    slub_malloc junk sz st = panic \<and> F (class_of_size sz) = [] \<and> pfree (phy_page_holes (ph st)) = None \<and>
      find_fit 0x1000 (phy_page_holes (ph st)) = Some None"
  using slub_malloc_cases [OF assms, of junk] class_of_size_props(2) [OF assms(2,3)] by auto

theorem slub_malloc_correct_witness:
  "\<exists>st0 p st'. slub_rep st0 (\<lambda>_. []) (\<lambda>_. []) \<and> slub_malloc 0 50 st0 = Inr (\<lparr>rv = p, re = 0\<rparr>, st')"
proof -
  obtain st0 where rep: "slub_rep st0 (\<lambda>_. []) (\<lambda>_. [])"
    and fit: "find_fit 0x1000 (phy_page_holes (ph st0)) \<noteq> Some None" using boot_slub_loaded by blast
  from slub_malloc_correct [OF rep, of 50 0] fit rep show ?thesis by (auto simp: phys_exhausted_def)
qed

text \<open>
  C9: An object of a class whose size is a power of two (every request but those of 65 to 96 and
  129 to 192 bytes) can always be given back, and the next request of the same class gets the same
  object again, with the lists as they were before.
\<close>

theorem slub_mfree_then_malloc:
  assumes "slub_rep st F L" and "p \<in> set (L (class_of_size sz))" and "sz \<noteq> 0" and "sz \<le> KMALLOC_MAX_CACHE_SIZE"
    and "class_of_size sz \<in> {4..12}"
  shows "\<exists>st1 st2. slub_mfree junk p st = Inr (\<lparr>rv = 0, re = YAOSCALL_OK\<rparr>, st1) \<and>
    slub_rep st1 (F(class_of_size sz := p # F (class_of_size sz))) (L(class_of_size sz := remove1 p (L (class_of_size sz)))) \<and>
    slub_malloc junk sz st1 = Inr (\<lparr>rv = p, re = YAOSCALL_OK\<rparr>, st2) \<and>
    slub_rep st2 F (L(class_of_size sz := p # remove1 p (L (class_of_size sz))))"
proof -
  let ?k = "class_of_size sz"
  note C = class_of_size_props [OF assms(3,4)]
  have "owned st ?k p" using slub_repD(8) [OF assms(1) C(1), of p] assms(2) by simp
  then have dm: "in_direct_map p" and al: "p AND of_int (int (class_size ?k) - 1) = 0"
    using power_class_aligned [OF assms(5), of p] by (simp_all only: owned_def)
  have free: "slub_mfree junk p st = Inr (\<lparr>rv = 0, re = YAOSCALL_OK\<rparr>, pushed ?k p st)"
    by (simp only: slub_mfree_def kmfree_eq [OF assms(1) C(1) assms(2)] al ASSERT_True andThen_Inr simp_thms)
  note rep1 = pushed_rep [OF assms(1) C(1) assms(2)]
  have hd: "(F(?k := p # F ?k)) ?k = p # F ?k" by simp
  from kmalloc_from_list [OF rep1 assms(3,4) hd, of junk] obtain st2 where
    m: "kmalloc junk sz (pushed ?k p st) = Inr (p, st2)"
    and "slub_rep st2 ((F(?k := p # F ?k))(?k := F ?k))
      ((L(?k := remove1 p (L ?k)))(?k := p # (L(?k := remove1 p (L ?k))) ?k))" by blast
  then have rep2: "slub_rep st2 F (L(?k := p # remove1 p (L ?k)))" by (simp only: fun_upd_upd fun_upd_same fun_upd_triv)
  have "slub_malloc junk sz (pushed ?k p st) = Inr (\<lparr>rv = p, re = YAOSCALL_OK\<rparr>, st2)"
    using direct_map_nonzero [OF dm] by (simp add: small_malloc [OF assms(4)] m)
  with free rep1 rep2 show ?thesis by blast
qed

theorem slub_mfree_then_malloc_witness:
  "\<exists>st p st1 st2. slub_mfree 0 p st = Inr (\<lparr>rv = 0, re = 0\<rparr>, st1) \<and> slub_malloc 0 50 st1 = Inr (\<lparr>rv = p, re = 0\<rparr>, st2)"
proof -
  obtain st0 where rep: "slub_rep st0 (\<lambda>_. []) (\<lambda>_. [])"
    and fit: "find_fit 0x1000 (phy_page_holes (ph st0)) \<noteq> Some None" using boot_slub_loaded by blast
  have k: "class_of 50 = 6" by (simp add: class_of_def)
  from slub_malloc_cases [OF rep, of 50 0] fit obtain p xs st where
    "slub_rep st ((\<lambda>_. [])(class_of_size 50 := xs)) ((\<lambda>_. [])(class_of_size 50 := [p]))" by (auto simp: phys_exhausted_def)
  from slub_mfree_then_malloc [OF this, of p 50 0] show ?thesis by (simp add: k) blast
qed

section \<open>Objects of 96 and 192 bytes\<close>

text \<open>
  A class whose size is not a power of two has objects that cannot be given back: the second object of
  a page of 96-byte (or of 192-byte) objects, which the allocator hands out like any other, fails the
  assertion \<open>p & (size - 1)\<close> of \<open>__kmfree\<close>.
\<close>

theorem kmfree_96_fails:
  assumes "slub_rep st F L" and "k = 1 \<or> k = 2" and "al4k a" and "a + of_nat (class_size k) \<in> set (L k)"
  shows "slub_mfree junk (a + of_nat (class_size k)) st = Inl Assertion_failed"
proof -
  let ?p = "a + of_nat (class_size k)"
  have k: "k \<in> classes" using assms(2) by auto
  have c: "class_size k < 4096" "unat (of_nat (class_size k) :: ulong) = class_size k"
    using assms(2) by (auto simp: class_size_simps)
  have low: "?p AND 0xfff = of_nat (class_size k)"
  proof -
    obtain n where n: "unat a = 4096 * n" using assms(3) by (auto simp: al4k_dvd)
    have "unat ?p = (unat a + class_size k) mod 2 ^ 64" by (simp add: unat_word_ariths c(2))
    then have "unat ?p mod 4096 = (unat a + class_size k) mod 4096" by (simp add: mod_mod_cancel)
    also have "\<dots> = class_size k" using c(1) by (simp add: n)
    finally show ?thesis by (simp only: word_unat_eq_iff mask_4k(1) c(2))
  qed
  have "?p AND of_int (int (class_size k) - 1) = (?p AND 0xfff) AND of_int (int (class_size k) - 1)"
    using assms(2) by (auto simp: and.assoc class_size_simps)
  also have "\<dots> \<noteq> 0" unfolding low using assms(2) by (auto simp: class_size_simps)
  finally have "?p AND of_int (int (class_size k) - 1) \<noteq> 0" .
  then show ?thesis by (simp only: slub_mfree_def kmfree_eq [OF assms(1) k assms(4)] ASSERT_False andThen_Inl)
qed

theorem kmfree_96_fails_witness:
  "\<exists>st p st'. slub_malloc 0 80 st = Inr (\<lparr>rv = p, re = 0\<rparr>, st') \<and> slub_mfree 0 p st' = Inl Assertion_failed"
proof -
  obtain st0 where rep: "slub_rep st0 (\<lambda>_. []) (\<lambda>_. [])"
    and fit: "find_fit 0x1000 (phy_page_holes (ph st0)) \<noteq> Some None" using boot_slub_loaded by blast
  have k: "class_of 80 = 1" by (simp add: class_of_def)
  have sz: "(80::ulong) \<noteq> 0" "(80::ulong) \<le> 4096" by simp_all
  from page_taken_alloc [OF slub_repD(3) [OF rep]] fit obtain a p where
    al: "alloc_phy_page_small 0x1000 (ph st0) = Inr (a, p)" "page_taken a (ph st0) p" by (auto simp: phys_exhausted_def)
  let ?b = "P2V a + of_nat (class_size 1)"
  have "4096 div class_size 1 - 1 = Suc 40" by (simp add: class_size_simps)
  then have "tl (page_objects 1 (P2V a)) = objects (of_nat (class_size 1)) ?b 40"
    by (simp only: page_objects_def objects.simps list.sel)
  with objects_Cons [of "of_nat (class_size 1)" ?b 40] obtain xs where os: "tl (page_objects 1 (P2V a)) = ?b # xs" by auto
  from kmalloc_from_page [OF rep sz _ al] obtain st1 where
    rep1: "slub_rep st1 ((\<lambda>_. [])(1 := ?b # xs)) ((\<lambda>_. [])(1 := [P2V a]))" by (auto simp: k os [simplified])
  have "unat (80 :: ulong) = 80" by simp
  then have k': "class_of_size 80 = 1" using k by (simp only:)
  have "((\<lambda>_. [])(1 := ?b # xs)) (class_of_size 80) = ?b # xs" by (simp only: k' fun_upd_same)
  from kmalloc_from_list [OF rep1 sz this, of 0, unfolded k' fun_upd_upd fun_upd_same] obtain st2 where
    m: "kmalloc 0 80 st1 = Inr (?b, st2)" and rep2: "slub_rep st2 ((\<lambda>_. [])(1 := xs)) ((\<lambda>_. [])(1 := [?b, P2V a]))"
    by blast
  have "?b \<noteq> 0" using slub_repD(8) [OF rep2, of 1 ?b] direct_map_nonzero by (auto simp: owned_def)
  then have "slub_malloc 0 80 st1 = Inr (\<lparr>rv = ?b, re = 0\<rparr>, st2)" by (simp add: small_malloc m)
  moreover have "slub_mfree 0 ?b st2 = Inl Assertion_failed"
    using kmfree_96_fails [OF rep2, of 1 "P2V a" 0] page_takenD(2) [OF al(2) slub_repD(4) [OF rep]] by simp
  ultimately show ?thesis by blast
qed

end
