(* ===== verification/Slub_Large.thy ===== *)
theory Slub_Large
  imports Slub_Runs
begin

text \<open>
  Blocks of more than 4096 bytes in \<open>module/mm/slub.c\<close>: they are whole pages of the page
  allocator, and their size is kept only as marks on the pages behind the first one.
\<close>

section \<open>The marks\<close>

lemma pgno_P2V: "pgno (P2V y) = drop_bit 12 y"
  by (simp add: pgno_def P2V_def)

lemma unat_page: "unat (drop_bit 12 y :: ulong) = unat y div 4096"
  by (simp add: drop_bit_eq_div unat_div)

lemma unat_P2V_le: "unat a \<le> 2 ^ 46 \<Longrightarrow> unat (P2V a) = unat a + unat PHYS_VIRT_START"
  unfolding P2V_def by (rule unat_add_no_wrap) (simp add: PHYS_VIRT_START_def)

lemma mark_next_loop_run:
  assumes "al4k y" "unat y + m * 4096 \<le> 2 ^ 46"
  shows "\<exists>bits. mark_next_loop (P2V y) (P2V (y + of_nat (m * 4096))) st = Some (Inr (st\<lparr>page_bits := bits\<rparr>)) \<and>
    (\<forall>k. page_nibble bits k =
      (if unat y div 4096 \<le> unat k \<and> unat k < unat y div 4096 + m then 14 else page_nibble (page_bits st) k))"
  using assms
proof (induction m arbitrary: y st)
  case 0
  then show ?case by (intro exI [of _ "page_bits st"]) (auto simp: mark_next_loop.simps)
next
  case (Suc m)
  let ?z = "y + 0x1000" let ?stop = "P2V (y + of_nat (Suc m * 4096))"
  let ?st1 = "st\<lparr>page_bits := set_nibble (drop_bit 12 y) 14 (page_bits st)\<rparr>"
  have uz: "unat ?z = unat y + 4096" using Suc.prems(2) by (subst unat_add_no_wrap) simp_all
  have ux: "unat (y + of_nat (Suc m * 4096)) = unat y + Suc m * 4096"
  proof -
    have "unat (of_nat (Suc m * 4096) :: ulong) = Suc m * 4096" using Suc.prems(2) by (intro unat_of_nat_small) simp
    then show ?thesis using Suc.prems(2) by (subst unat_add_no_wrap) (simp_all only:, simp)
  qed
  have lt: "P2V y < ?stop"
    unfolding word_less_nat_alt using Suc.prems(2) unat_P2V_le [of y] unat_P2V_le [of "y + of_nat (Suc m * 4096)"] by (simp only: ux) simp
  have set: "set_idx_from_addr (P2V y) 14 st = Inr ?st1"
    using Suc.prems(2) by (simp add: set_idx_from_addr_def V2P_P2V)
  have z: "P2V y + 0x1000 = P2V ?z" by (simp add: P2V_def)
  have stop: "?stop = P2V (?z + of_nat (m * 4096))" by (simp add: algebra_simps)
  have step: "mark_next_loop (P2V y) ?stop st = mark_next_loop (P2V ?z) (P2V (?z + of_nat (m * 4096))) ?st1"
    unfolding mark_next_loop.simps [of "P2V y"] using lt set by (simp add: z add.assoc)
  have "al4k ?z" using Suc.prems(1) by (intro aligned_add) (simp_all add: al4k_def)
  moreover have "unat ?z + m * 4096 \<le> 2 ^ 46" using Suc.prems(2) by (simp add: uz)
  ultimately obtain bits where run: "mark_next_loop (P2V ?z) (P2V (?z + of_nat (m * 4096))) ?st1 = Some (Inr (?st1\<lparr>page_bits := bits\<rparr>))"
    and b: "\<And>k. page_nibble bits k = (if unat ?z div 4096 \<le> unat k \<and> unat k < unat ?z div 4096 + m then 14
      else page_nibble (page_bits ?st1) k)" using Suc.IH [of ?z ?st1] by blast
  have "page_nibble bits k = (if unat y div 4096 \<le> unat k \<and> unat k < unat y div 4096 + Suc m then 14 else page_nibble (page_bits st) k)" for k
  proof -
    have "k = drop_bit 12 y \<longleftrightarrow> unat k = unat y div 4096" by (simp only: word_unat_eq_iff unat_page)
    moreover have "unat ?z div 4096 = Suc (unat y div 4096)" by (simp add: uz)
    ultimately show ?thesis unfolding b by (auto simp: page_nibble_set)
  qed
  with step run show ?case by (intro exI [of _ bits]) simp
qed

lemma large_size_loop_run:
  assumes "\<And>i. i < m \<Longrightarrow> page_nibble bits (k + 1 + of_nat i) = 14" "page_nibble bits (k + 1 + of_nat m) \<noteq> 14"
  shows "large_size_loop bits k sz = Some (sz + of_nat (Suc m * 4096))"
  using assms
proof (induction m arbitrary: k sz)
  case 0
  then show ?case by (simp add: large_size_loop.simps)
next
  case (Suc m)
  have 1: "page_nibble bits (k + 1) = 14" using Suc.prems(1) [of 0] by simp
  have 2: "large_size_loop bits (k + 1) (sz + 0x1000) = Some (sz + 0x1000 + of_nat (Suc m * 4096))"
  proof (rule Suc.IH)
    show "page_nibble bits (k + 1 + 1 + of_nat i) = 14" if "i < m" for i
      using Suc.prems(1) [of "Suc i"] that by (simp add: algebra_simps)
    show "page_nibble bits (k + 1 + 1 + of_nat m) \<noteq> 14" using Suc.prems(2) by (simp add: algebra_simps)
  qed
  show ?case unfolding large_size_loop.simps [of bits k] using 1 2 by (simp add: algebra_simps)
qed

section \<open>Allocation and release\<close>

text \<open>The pages of a request.\<close>

definition large_pages :: "ulong \<Rightarrow> nat" where
  "large_pages sz = (unat sz + 4095) div 4096"

lemma large_newsize:
  assumes "unat sz + 4096 < 2 ^ 64"
  shows "(sz + 0xfff) AND NOT 0xfff = of_nat (large_pages sz * 4096)"
proof -
  have "unat (sz + 0xfff) = unat sz + 4095" using assms by (subst unat_add_no_wrap) simp_all
  then have "unat ((sz + 0xfff) AND NOT 0xfff) = unat sz + 4095 - (unat sz + 4095) mod 4096"
    using mask_4k(2) [of "sz + 0xfff"] by simp
  also have "\<dots> = large_pages sz * 4096" by (simp add: large_pages_def minus_mod_eq_div_mult)
  finally have u: "unat ((sz + 0xfff) AND NOT 0xfff) = large_pages sz * 4096" .
  have "(sz + 0xfff) AND NOT 0xfff = of_nat (unat ((sz + 0xfff) AND NOT 0xfff))" by simp
  then show ?thesis by (simp only: u)
qed

lemma large_pages_bounds:
  assumes "4096 < sz" "sz \<le> 0x200000"
  shows "2 \<le> large_pages sz" "large_pages sz \<le> 512" "unat (of_nat (large_pages sz * 4096) :: ulong) = large_pages sz * 4096"
    "unat sz + 4096 < 2 ^ 64"
proof -
  have n: "4096 < unat sz" "unat sz \<le> 0x200000" using assms by (simp_all add: word_less_nat_alt word_le_nat_alt)
  then show p: "2 \<le> large_pages sz" "large_pages sz \<le> 512" unfolding large_pages_def by simp_all
  then show "unat (of_nat (large_pages sz * 4096) :: ulong) = large_pages sz * 4096"
    by (intro unat_of_nat_small) simp
  show "unat sz + 4096 < 2 ^ 64" using n by simp
qed

text \<open>What a block of \<open>n\<close> pages at physical address \<open>a\<close> looks like in \<open>page_bits\<close>.\<close>

definition large_marked :: "(nat \<Rightarrow> u8) \<Rightarrow> ulong \<Rightarrow> nat \<Rightarrow> bool" where
  "large_marked bits a n \<longleftrightarrow> page_nibble bits (drop_bit 12 a) = 15 \<and>
     (\<forall>i. i < n - 1 \<longrightarrow> page_nibble bits (drop_bit 12 a + 1 + of_nat i) = 14)"

lemma kmalloc_large_run:
  assumes calls: "page_calls st" and sz: "4096 < sz" "sz \<le> 0x200000"
    and al: "alloc_phy_page_small (of_nat (large_pages sz * 4096)) (ph st) = Inr (a, p)"
    and a: "al4k a" "unat a + large_pages sz * 4096 \<le> 2 ^ 46"
  shows "\<exists>bits. kmalloc_large junk sz st = Inr (P2V a, st\<lparr>sysvm := put_phys p (sysvm st), page_bits := bits\<rparr>) \<and>
    large_marked bits a (large_pages sz) \<and>
    (\<forall>k. unat a div 4096 + large_pages sz \<le> unat k \<longrightarrow> page_nibble bits k = page_nibble (page_bits st) k)"
proof -
  let ?n = "large_pages sz"
  note B = large_pages_bounds [OF sz]
  let ?st1 = "st\<lparr>sysvm := put_phys p (sysvm st)\<rparr>"
  let ?st2 = "?st1\<lparr>page_bits := set_nibble (drop_bit 12 a) 15 (page_bits st)\<rparr>"
  have lt: "unat a < 2 ^ 46" using a(2) B(1) by linarith
  have u1: "unat (a + 0x1000) = unat a + 4096" using lt by (subst unat_add_no_wrap) simp_all
  have "al4k (a + 0x1000)" using a(1) by (intro aligned_add) (simp_all add: al4k_def)
  moreover have "unat (a + 0x1000) + (?n - 1) * 4096 \<le> 2 ^ 46" using a(2) B(1) unfolding u1 by (simp add: diff_mult_distrib)
  ultimately obtain bits where
    run: "mark_next_loop (P2V (a + 0x1000)) (P2V (a + 0x1000 + of_nat ((?n - 1) * 4096))) ?st2 = Some (Inr (?st2\<lparr>page_bits := bits\<rparr>))"
    and b: "\<And>k. page_nibble bits k = (if unat (a + 0x1000) div 4096 \<le> unat k \<and> unat k < unat (a + 0x1000) div 4096 + (?n - 1) then 14
       else page_nibble (page_bits ?st2) k)" using mark_next_loop_run [of "a + 0x1000" "?n - 1" ?st2] by blast
  have up: "unat (a + 0x1000) div 4096 = Suc (unat a div 4096)" by (simp add: u1)
  have nib: "page_nibble bits k = (if unat k = unat a div 4096 then 15
      else if unat a div 4096 < unat k \<and> unat k < unat a div 4096 + ?n then 14 else page_nibble (page_bits st) k)" for k
  proof -
    have "k = drop_bit 12 a \<longleftrightarrow> unat k = unat a div 4096" by (simp only: word_unat_eq_iff unat_page)
    then show ?thesis unfolding b up using B(1) by (auto simp: page_nibble_set)
  qed
  have stop: "P2V a + of_nat (?n * 4096) = P2V (a + 0x1000 + of_nat ((?n - 1) * 4096))"
  proof -
    have "?n * 4096 = 4096 + (?n - 1) * 4096" using B(1) by (simp add: diff_mult_distrib)
    then have "(of_nat (?n * 4096) :: ulong) = 0x1000 + of_nat ((?n - 1) * 4096)" by (metis of_nat_add of_nat_numeral)
    then show ?thesis by (simp only: P2V_def add.assoc add.left_commute add.commute)
  qed
  have "(of_nat (?n * 4096) :: ulong) AND 0xfff = 0" by (simp only: aligned_4k B(3) dvd_triv_right)
  then have heap: "yaos_heap_alloc_4k junk (of_nat (?n * 4096)) st = Inr (P2V a, ?st1)"
    using al by (simp add: yaos_heap_alloc_4k_eq [OF calls] del: of_nat_mult)
  have set: "set_idx_from_addr (P2V a) (of_nat LARGE_IDX) ?st1 = Inr ?st2"
    using lt by (simp add: set_idx_from_addr_def V2P_P2V)
  have "P2V a + 0x1000 = P2V (a + 0x1000)" by (simp add: P2V_def)
  then have "kmalloc_large junk sz st = Inr (P2V a, ?st2\<lparr>page_bits := bits\<rparr>)"
    unfolding kmalloc_large_def large_newsize [OF B(4)] Let_def heap
    by (simp only: andThen_Inr prod.case P2V_nonzero [OF lt] if_False set stop run ending_Some)
  moreover have "large_marked bits a ?n"
  proof -
    have "unat (drop_bit 12 a + 1 + of_nat i) = unat a div 4096 + 1 + i" if "i < ?n - 1" for i
    proof -
      have i: "unat (of_nat i :: ulong) = i" using that B(2) by (intro unat_of_nat_small) simp
      have q: "unat a div 4096 \<le> 2 ^ 46" using lt div_le_dividend [of "unat a" 4096] by linarith
      have 1: "unat (drop_bit 12 a + 1) = unat a div 4096 + 1" using q by (subst unat_add_no_wrap) (simp_all add: unat_page)
      show ?thesis using q that B(2) by (subst unat_add_no_wrap) (simp_all only: 1 i, simp_all)
    qed
    then show ?thesis using B(1) unfolding large_marked_def nib by (auto simp: unat_page)
  qed
  moreover have "page_nibble bits k = page_nibble (page_bits st) k" if "unat a div 4096 + ?n \<le> unat k" for k
    using that B(1) by (simp add: nib)
  ultimately show ?thesis by (intro exI [of _ bits]) simp
qed

text \<open>
  \<open>__kmfree\<close> of a block with marks: the size is the first page and all marked pages behind it, also those
  behind the block. The marks stay as they are.
\<close>

lemma kmfree_large_counts:
  assumes a: "unat a < 2 ^ 46" "a \<noteq> 0" and mk: "page_nibble (page_bits st) (drop_bit 12 a) = 15"
    and idx: "kc_idx (kmalloc_caches st 15) = 15"
    and run: "\<And>i. i < m \<Longrightarrow> page_nibble (page_bits st) (drop_bit 12 a + 1 + of_nat i) = 14"
    and stop: "page_nibble (page_bits st) (drop_bit 12 a + 1 + of_nat m) \<noteq> 14"
  shows "kmfree junk (P2V a) st = yaos_heap_free_4k junk (P2V a) (of_nat (Suc m * 4096)) st"
proof -
  have "P2V a \<noteq> 16 \<and> in_direct_map (P2V a)"
    using a unat_P2V [OF a(1)] unfolding in_direct_map_def word_less_nat_alt word_unat_eq_iff
    by (simp add: layout_defs unat_gt_0)
  moreover have "get_cache_from_addr (P2V a) st = Inr 15"
    using mk by (simp add: get_cache_from_addr_def get_idx_from_addr_def V2P_P2V [OF a(1)])
  ultimately show ?thesis
    using idx large_size_loop_run [of m "page_bits st" "drop_bit 12 a" 0, OF run stop]
    by (simp add: kmfree_def V2P_P2V [OF a(1)] del: of_nat_mult of_nat_Suc)
qed

lemma yaos_heap_free_4k_eq:
  assumes "page_calls st" "sz AND 0xfff = 0" "unat a < 2 ^ 46" "al4k a"
  shows "yaos_heap_free_4k junk (P2V a) sz st = andThen (free_phy_page_small a sz (ph st)) (\<lambda>p.
    Inr (st\<lparr>sysvm := put_phys p (sysvm st)\<rparr>))"
  using page_calls_heap(2) [OF assms(1)] assms(2) V2P_P2V [OF assms(3)] al4k_P2V [OF assms(4)]
  by (simp add: yaos_heap_free_4k_def yaoscall_def page_call_def arg_reg_def heap_free_4k_def andThen_assoc
      al4k_def)

section \<open>Properties\<close>

lemma slub_malloc_large:
  "4096 < sz \<Longrightarrow> slub_malloc junk sz st = andThen (kmalloc_large junk sz st) (\<lambda>(addr, st1).
     Inr (\<lparr>rv = addr, re = (if addr = 0 then ERR_YAOSCALL_NO_MEM else YAOSCALL_OK)\<rparr>, st1))"
  by (simp only: slub_malloc_def if_True)

lemma large_request:
  assumes sz: "4096 < sz" "sz \<le> 0x200000"
  shows "small_request (of_nat (large_pages sz * 4096)) s" "align_4k (of_nat (large_pages sz * 4096)) = of_nat (large_pages sz * 4096)"
proof -
  note B = large_pages_bounds [OF sz]
  have "(of_nat (large_pages sz * 4096) :: ulong) \<noteq> 0" using B(1,3) by (metis mult_is_0 not_numeral_le_zero unat_0 zero_neq_numeral)
  moreover have "of_nat (large_pages sz * 4096) \<le> PAGE_SIZE_LARGE" unfolding word_le_nat_alt B(3) using B(2) by simp
  ultimately show "small_request (of_nat (large_pages sz * 4096)) s" by (simp add: small_request_def del: of_nat_mult)
  have "al4k (of_nat (large_pages sz * 4096))" by (simp only: al4k_dvd B(3) dvd_triv_right)
  then show "align_4k (of_nat (large_pages sz * 4096)) = of_nat (large_pages sz * 4096)" by (rule align_4k_id)
qed

lemma large_block_below:
  assumes "below_64t B" "span a (of_nat (large_pages sz * 4096)) \<subseteq> B" "4096 < sz" "sz \<le> 0x200000"
  shows "unat a + large_pages sz * 4096 \<le> 2 ^ 46"
proof -
  note B = large_pages_bounds [OF assms(3,4)]
  have "unat a + large_pages sz * 4096 - 1 \<in> span a (of_nat (large_pages sz * 4096))" unfolding span_def B(3) using B(1) by simp
  then show ?thesis using assms(1,2) unfolding below_64t_def by fastforce
qed

text \<open>The block a request gets, when the page allocator has one.\<close>

lemma large_block_taken:
  assumes calls: "page_calls st" and inv: "phys_inv (ph st)" and lim: "below_64t (phys_bytes (ph st))"
    and sz: "4096 < sz" "sz \<le> 0x200000" and run: "slub_malloc junk sz st = Inr (r, st1)"
    and r: "V2P (rv r) = Inr a" "a \<noteq> 0"
  defines "n \<equiv> large_pages sz" and "blk \<equiv> span a (of_nat (large_pages sz * 4096))"
  shows "rv r = P2V a" "re r = 0" "al4k a" "unat a + n * 4096 \<le> 2 ^ 46" "page_calls st1" "phys_inv (ph st1)"
    "blk \<subseteq> phys_bytes (ph st)" "phys_bytes (ph st1) = phys_bytes (ph st) - blk"
    "large_marked (page_bits st1) a n" "kmalloc_caches st1 = kmalloc_caches st"
    "\<And>k. unat a div 4096 + n \<le> unat k \<Longrightarrow> page_nibble (page_bits st1) k = page_nibble (page_bits st) k"
proof -
  note B = large_pages_bounds [OF sz] and req = large_request [OF sz]
  let ?N = "of_nat (large_pages sz * 4096) :: ulong"
  have al0: "?N AND 0xfff = 0" by (simp only: aligned_4k B(3) dvd_triv_right)
  obtain b p where al: "alloc_phy_page_small ?N (ph st) = Inr (b, p)"
    using run unfolding slub_malloc_large [OF sz(1)] kmalloc_large_def large_newsize [OF B(4)] Let_def
      yaos_heap_alloc_4k_eq [OF calls al0] by (auto simp: outcome_simps simp del: of_nat_mult)
  note cases = alloc_phy_page_small_run [OF inv req(1), unfolded req(2)]
  have b: "al4k b \<and> unat b + n * 4096 \<le> 2 ^ 46 \<and> (b \<noteq> 0 \<longrightarrow> phys_inv p \<and> span b ?N \<subseteq> phys_bytes (ph st) \<and>
      phys_bytes p = phys_bytes (ph st) - span b ?N)"
  proof (cases "b = 0")
    case True
    then show ?thesis using B(2) by (simp add: n_def)
  next
    case False
    with cases al have P: "al4k b" "phys_inv p" "span b ?N \<subseteq> phys_bytes (ph st)" "phys_bytes p = phys_bytes (ph st) - span b ?N"
      by auto
    then show ?thesis using large_block_below [OF lim P(3) sz] by (simp add: n_def)
  qed
  from kmalloc_large_run [OF calls sz al, of junk] b obtain bits where
    k: "kmalloc_large junk sz st = Inr (P2V b, st\<lparr>sysvm := put_phys p (sysvm st), page_bits := bits\<rparr>)"
    and m: "large_marked bits b n" and rest: "\<And>k. unat b div 4096 + n \<le> unat k \<Longrightarrow> page_nibble bits k = page_nibble (page_bits st) k"
    unfolding n_def by blast
  have lt: "unat b < 2 ^ 46" using b B(1) by (simp add: n_def)
  have st1: "st1 = st\<lparr>sysvm := put_phys p (sysvm st), page_bits := bits\<rparr>"
    and rr: "r = \<lparr>rv = P2V b, re = 0\<rparr>" using run k P2V_nonzero [OF lt] by (auto simp: slub_malloc_large [OF sz(1)])
  have ab: "a = b" using r(1) V2P_P2V [OF lt] by (simp add: rr)
  show "rv r = P2V a" "re r = 0" "al4k a" "unat a + n * 4096 \<le> 2 ^ 46" "phys_inv (ph st1)" "blk \<subseteq> phys_bytes (ph st)"
    "phys_bytes (ph st1) = phys_bytes (ph st) - blk"
    using b r(2) by (simp_all add: rr ab st1 blk_def del: of_nat_mult)
  show "page_calls st1" using calls page_calls_cong [of st1 st] by (simp add: st1)
  show "large_marked (page_bits st1) a n" "kmalloc_caches st1 = kmalloc_caches st" using m by (simp_all add: st1 ab)
  show "page_nibble (page_bits st1) k = page_nibble (page_bits st) k" if "unat a div 4096 + n \<le> unat k" for k
    using rest that by (simp add: st1 ab)
qed

text \<open>
  Giving a block back, when the marks go on for \<open>m\<close> pages in all and stop there: \<open>m\<close> pages are
  freed, and the marks stay.
\<close>

lemma large_block_freed:
  assumes calls: "page_calls st" and a: "unat a < 2 ^ 46" "a \<noteq> 0" "al4k a" and idx: "kc_idx (kmalloc_caches st 15) = 15"
    and m: "0 < m" "m \<le> 512" "large_marked (page_bits st) a m"
    and stop: "page_nibble (page_bits st) (drop_bit 12 a + of_nat m) \<noteq> 14"
  shows "kmfree junk (P2V a) st = andThen (free_phy_page_small a (of_nat (m * 4096)) (ph st)) (\<lambda>p.
    Inr (st\<lparr>sysvm := put_phys p (sysvm st)\<rparr>))"
proof -
  have n: "m = Suc (m - 1)" using m(1) by simp
  have eq: "drop_bit 12 a + of_nat m = drop_bit 12 a + 1 + of_nat (m - 1)" by (subst n) (simp add: algebra_simps)
  then have stop': "page_nibble (page_bits st) (drop_bit 12 a + 1 + of_nat (m - 1)) \<noteq> 14" using stop by (simp only: eq not_False_eq_True)
  have "kmfree junk (P2V a) st = yaos_heap_free_4k junk (P2V a) (of_nat (Suc (m - 1) * 4096)) st"
    by (rule kmfree_large_counts [OF a(1,2) _ idx _ stop']) (use m(3) in \<open>simp_all add: large_marked_def\<close>)
  then have "kmfree junk (P2V a) st = yaos_heap_free_4k junk (P2V a) (of_nat (m * 4096)) st" by (simp only: n [symmetric])
  moreover have "unat (of_nat (m * 4096) :: ulong) = m * 4096" using m(2) by (intro unat_of_nat_small) simp
  then have "(of_nat (m * 4096) :: ulong) AND 0xfff = 0" by (simp only: aligned_4k dvd_triv_right)
  ultimately show ?thesis by (simp only: yaos_heap_free_4k_eq [OF calls _ a(1,3)])
qed

lemma page_after:
  assumes "unat a < 2 ^ 46" "i \<le> 512"
  shows "unat (drop_bit 12 a + of_nat i :: ulong) = unat a div 4096 + i"
proof -
  have "unat (of_nat i :: ulong) = i" using assms(2) by (intro unat_of_nat_small) simp
  moreover have "unat a div 4096 + i < 2 ^ 64" using assms div_le_dividend [of "unat a" 4096] by simp
  ultimately show ?thesis by (subst unat_add_no_wrap) (simp_all add: unat_page)
qed

text \<open>
  When the page allocator can serve a request for \<open>n\<close> bytes: a hole fits, or a 2M page is free and a descriptor is left for it.
\<close>

definition can_serve_pages :: "ulong \<Rightarrow> phys \<Rightarrow> bool" where
  "can_serve_pages n s \<longleftrightarrow> \<not> phys_exhausted n s \<and> (find_fit n (phy_page_holes s) = Some None \<longrightarrow> pfree (phy_page_holes s) \<noteq> None)"

lemma large_block_served:
  assumes calls: "page_calls st" and inv: "phys_inv (ph st)" and lim: "below_64t (phys_bytes (ph st))"
    and sz: "4096 < sz" "sz \<le> 0x200000" and serve: "can_serve_pages (of_nat (large_pages sz * 4096)) (ph st)"
  shows "\<exists>a st1. slub_malloc junk sz st = Inr (\<lparr>rv = P2V a, re = YAOSCALL_OK\<rparr>, st1) \<and> a \<noteq> 0 \<and> unat a < 2 ^ 46"
proof -
  let ?N = "of_nat (large_pages sz * 4096) :: ulong"
  note req = large_request [OF sz]
  obtain a p where a: "alloc_phy_page_small ?N (ph st) = Inr (a, p)" "a \<noteq> 0" "al4k a" "span a ?N \<subseteq> phys_bytes (ph st)"
    using alloc_phy_page_small_run [OF inv req(1), unfolded req(2)] serve by (auto simp: can_serve_pages_def)
  note le = large_block_below [OF lim a(4) sz]
  have lt: "unat a < 2 ^ 46" using le large_pages_bounds(1) [OF sz] by linarith
  obtain bits where "kmalloc_large junk sz st = Inr (P2V a, st\<lparr>sysvm := put_phys p (sysvm st), page_bits := bits\<rparr>)"
    using kmalloc_large_run [OF calls sz a(1,3) le, of junk] by blast
  then show ?thesis using a(2) lt P2V_nonzero [OF lt] by (auto simp: slub_malloc_large [OF sz(1)])
qed

text \<open>Giving back a block that is not free: it returns when a descriptor is unused, and panics otherwise.\<close>

lemma free_phy_page_small_ends:
  assumes inv: "phys_inv s" and al: "al4k a" "al4k n" and blk: "a \<noteq> 0" "n \<noteq> 0" "unat a + unat n < 2 ^ 64" "span a n \<inter> phys_bytes s = {}"
  shows "if pfree (phy_page_holes s) = None then free_phy_page_small a n s = panic
    else \<exists>s'. free_phy_page_small a n s = Inr s' \<and> phys_inv s' \<and> phys_bytes s' = phys_bytes s \<union> span a n"
proof -
  obtain hs fs where rep: "hl_rep MAX_PHY_PAGE_HOLE (phy_page_holes s) hs fs" "hl_sorted (phy_page_holes s) hs"
    using inv by (rule phys_invE)
  have "fs = [] \<longleftrightarrow> pfree (phy_page_holes s) = None" using hl_repD(2) [OF rep(1)] by (cases fs) auto
  moreover have "\<not> spin_page s" "hl_al (phy_page_holes s)" "span a n \<inter> hl_bytes (phy_page_holes s) = {}"
    using inv blk(4) by (auto simp: phys_inv_def phys_bytes_def)
  ultimately show ?thesis
    using free_phy_page_small_run [OF rep _ al _ blk(2,3)] free_phy_page_small_release [OF inv blk] by (auto split: if_splits)
qed

text \<open>
  C11: A request of more than 4096 bytes and at most 2M, which the page allocator can serve, returns a block of as many free pages
  as it needs, and exactly these stop being free. If the page behind the block is not marked as part of a large block,
  giving the block back frees exactly its pages, so that the page allocator has the same free memory as before the request; only if no descriptor of the page
  allocator is unused by then, giving it back panics.
\<close>

theorem large_block_round_trip:
  assumes "page_calls st" and "phys_inv (ph st)" and "below_64t (phys_bytes (ph st))"
    and "kc_idx (kmalloc_caches st 15) = 15" and "4096 < sz" and "sz \<le> 0x200000"
    and "can_serve_pages (of_nat (large_pages sz * 4096)) (ph st)"
  shows "\<exists>a st1. slub_malloc junk sz st = Inr (\<lparr>rv = P2V a, re = YAOSCALL_OK\<rparr>, st1) \<and> unat sz \<le> large_pages sz * 4096 \<and>
    span a (of_nat (large_pages sz * 4096)) \<subseteq> phys_bytes (ph st) \<and>
    phys_bytes (ph st1) = phys_bytes (ph st) - span a (of_nat (large_pages sz * 4096)) \<and>
    (page_nibble (page_bits st) (drop_bit 12 a + of_nat (large_pages sz)) \<noteq> 14 \<longrightarrow>
      (if pfree (phy_page_holes (ph st1)) = None then slub_mfree junk (P2V a) st1 = panic
       else \<exists>st2. slub_mfree junk (P2V a) st1 = Inr (\<lparr>rv = 0, re = YAOSCALL_OK\<rparr>, st2) \<and> phys_inv (ph st2) \<and>
         phys_bytes (ph st2) = phys_bytes (ph st)))"
proof -
  let ?n = "large_pages sz" let ?N = "of_nat (?n * 4096) :: ulong"
  obtain a st1 where run: "slub_malloc junk sz st = Inr (\<lparr>rv = P2V a, re = YAOSCALL_OK\<rparr>, st1)" and a: "a \<noteq> 0" and lt: "unat a < 2 ^ 46"
    using large_block_served [OF assms(1-3,5-7)] by blast
  have v: "V2P (rv \<lparr>rv = P2V a, re = YAOSCALL_OK\<rparr>) = Inr a" using V2P_P2V [OF lt] by simp
  note T = large_block_taken [OF assms(1-3,5,6) run v a] and B = large_pages_bounds [OF assms(5,6)]
  have pos: "0 < ?n" using B(1) by simp
  have sp: "?N \<noteq> 0" "unat a + unat ?N < 2 ^ 64" "span a ?N \<inter> phys_bytes (ph st1) = {}"
    using large_request(1) [OF assms(5,6)] T(4,8) by (auto simp: small_request_def B(3) simp del: of_nat_mult)
  have al: "al4k ?N" by (simp only: al4k_dvd B(3) dvd_triv_right)
  note E = free_phy_page_small_ends [OF T(6,3) al a sp]
  have given: "if pfree (phy_page_holes (ph st1)) = None then slub_mfree junk (P2V a) st1 = panic
       else \<exists>st2. slub_mfree junk (P2V a) st1 = Inr (\<lparr>rv = 0, re = YAOSCALL_OK\<rparr>, st2) \<and> phys_inv (ph st2) \<and> phys_bytes (ph st2) = phys_bytes (ph st)"
    if "page_nibble (page_bits st) (drop_bit 12 a + of_nat ?n) \<noteq> 14"
  proof -
    have stop: "page_nibble (page_bits st1) (drop_bit 12 a + of_nat ?n) \<noteq> 14"
      using that T(11) [of "drop_bit 12 a + of_nat ?n"] page_after [OF lt B(2)] by simp
    have "kc_idx (kmalloc_caches st1 15) = 15" using assms(4) T(10) by simp
    note K = large_block_freed [OF T(5) lt a T(3) this pos B(2) T(9) stop]
    have "phys_bytes (ph st1) \<union> span a ?N = phys_bytes (ph st)" using T(7,8) by blast
    then show ?thesis using E unfolding slub_mfree_def K by (auto simp: andThen_assoc split: if_splits)
  qed
  have "unat sz \<le> ?n * 4096" using round_up_ge [of 4096 "unat sz"] by (simp add: large_pages_def)
  then show ?thesis using run T(7,8) given by blast
qed

text \<open>
  The marks of a large block are never cleared. When a block of \<open>n\<close> pages has been given back and a smaller
  one is allocated at the same address, giving the smaller one back frees \<open>n\<close> pages: pages behind
  it that are not part of it are freed with it, in whatever use they are.
\<close>

theorem large_block_stale_marks:
  assumes "page_calls st" and "phys_inv (ph st)" and "below_64t (phys_bytes (ph st))"
    and "kc_idx (kmalloc_caches st 15) = 15" and "4096 < sz" and "sz \<le> 0x200000" and "4096 < sz'" and "sz' \<le> sz"
    and "slub_malloc junk sz st = Inr (r, st1)" and "V2P (rv r) = Inr a" and "a \<noteq> 0"
    and "page_nibble (page_bits st) (drop_bit 12 a + of_nat (large_pages sz)) \<noteq> 14"
    and "slub_mfree junk (rv r) st1 = Inr (r1, st2)"
    and "slub_malloc junk sz' st2 = Inr (r2, st3)" and "rv r2 = rv r"
  shows "kmfree junk (rv r2) st3 = andThen (free_phy_page_small a (of_nat (large_pages sz * 4096)) (ph st3)) (\<lambda>p.
    Inr (st3\<lparr>sysvm := put_phys p (sysvm st3)\<rparr>))"
proof -
  note T = large_block_taken [OF assms(1-3,5,6,9-11)] and B = large_pages_bounds [OF assms(5,6)]
  let ?n = "large_pages sz" let ?m = "large_pages sz'"
  have sz': "sz' \<le> 0x200000" using assms(6,8) by simp
  note B' = large_pages_bounds [OF assms(7) sz']
  have mn: "?m \<le> ?n" using assms(8) unfolding large_pages_def word_le_nat_alt by (intro div_le_mono) simp
  have lt: "unat a < 2 ^ 46" using T(4) B(1) by linarith
  have pos: "0 < ?n" using B(1) by simp
  have stop: "page_nibble (page_bits st1) (drop_bit 12 a + of_nat ?n) \<noteq> 14"
    using assms(12) T(11) [of "drop_bit 12 a + of_nat ?n"] page_after [OF lt B(2)] by simp
  have idx: "kc_idx (kmalloc_caches st1 15) = 15" using assms(4) T(10) by simp
  obtain p where fr: "free_phy_page_small a (of_nat (?n * 4096)) (ph st1) = Inr p" and st2: "st2 = st1\<lparr>sysvm := put_phys p (sysvm st1)\<rparr>"
    using assms(13) unfolding slub_mfree_def T(1) large_block_freed [OF T(5) lt assms(11) T(3) idx pos B(2) T(9) stop]
    by (auto simp: outcome_simps)
  have "?n * 4096 \<noteq> 0" using pos by simp
  then have "(of_nat (?n * 4096) :: ulong) \<noteq> 0" using B(3) by (metis unat_0)
  moreover have "unat a + unat (of_nat (?n * 4096) :: ulong) < 2 ^ 64" unfolding B(3) using T(4) by simp
  moreover have "span a (of_nat (?n * 4096)) \<inter> phys_bytes (ph st1) = {}" using T(8) by blast
  ultimately have P: "phys_inv p" "phys_bytes p = phys_bytes (ph st)"
    using free_phy_page_small_release [OF T(6) assms(11) _ _ _ fr] T(7,8) by blast+
  have s2: "page_calls st2" "phys_inv (ph st2)" "below_64t (phys_bytes (ph st2))"
    using T(5) P assms(3) page_calls_cong [of st2 st1] by (simp_all add: st2)
  note U = large_block_taken [OF s2 assms(7) sz' assms(14) assms(10) [folded assms(15)] assms(11)]
  have later: "page_nibble (page_bits st3) (drop_bit 12 a + of_nat i) = page_nibble (page_bits st1) (drop_bit 12 a + of_nat i)"
    if "?m \<le> i" "i \<le> ?n" for i
    using U(11) [of "drop_bit 12 a + of_nat i"] page_after [OF lt, of i] that B(2) by (simp add: st2)
  have "large_marked (page_bits st3) a ?n" unfolding large_marked_def
  proof (intro conjI allI impI)
    show "page_nibble (page_bits st3) (drop_bit 12 a) = 15" using U(9) by (simp add: large_marked_def)
    fix i assume i: "i < ?n - 1"
    have s: "drop_bit 12 a + 1 + of_nat i = drop_bit 12 a + of_nat (Suc i)" by (simp add: algebra_simps)
    show "page_nibble (page_bits st3) (drop_bit 12 a + 1 + of_nat i) = 14"
    proof (cases "i < ?m - 1")
      case True
      then show ?thesis using U(9) by (simp add: large_marked_def)
    next
      case False
      then have "page_nibble (page_bits st3) (drop_bit 12 a + of_nat (Suc i)) = page_nibble (page_bits st1) (drop_bit 12 a + of_nat (Suc i))"
        using i by (intro later) simp_all
      then show ?thesis using T(9) i unfolding large_marked_def s [symmetric] by simp
    qed
  qed
  moreover have "page_nibble (page_bits st3) (drop_bit 12 a + of_nat ?n) \<noteq> 14" using later [of ?n] mn stop by simp
  moreover have "kc_idx (kmalloc_caches st3 15) = 15" using idx U(10) by (simp add: st2)
  ultimately show ?thesis using large_block_freed [OF U(5) lt assms(11) T(3) _ pos B(2)] U(1) by simp
qed

text \<open>
  Out of memory is not reported for a large block: the page allocator returns 0, its address in the direct map is not
  NULL, and the request succeeds with the address of physical page 0, which gets marked.
\<close>

lemma large_block_exhausted:
  assumes "page_calls st" and "4096 < sz" "sz \<le> 0x200000"
    and "alloc_phy_page_small (of_nat (large_pages sz * 4096)) (ph st) = Inr (0, p)"
  shows "\<exists>st'. slub_malloc junk sz st = Inr (\<lparr>rv = PHYS_VIRT_START, re = YAOSCALL_OK\<rparr>, st')"
proof -
  have "unat (0 :: ulong) + large_pages sz * 4096 \<le> 2 ^ 46" using large_pages_bounds(2) [OF assms(2,3)] by simp
  from kmalloc_large_run [OF assms(1-3) assms(4) aligned_0 this, of junk]
  obtain bits where "kmalloc_large junk sz st = Inr (P2V 0, st\<lparr>sysvm := put_phys p (sysvm st), page_bits := bits\<rparr>)" by blast
  moreover have "P2V 0 = PHYS_VIRT_START" "PHYS_VIRT_START \<noteq> 0" by (simp_all add: P2V_def PHYS_VIRT_START_def)
  ultimately show ?thesis by (simp add: slub_malloc_large [OF assms(2)])
qed

section \<open>A machine with one free 2M page\<close>

definition large_slub :: "slub" where
  "large_slub = boot_slub\<lparr>kmalloc_caches := fresh_cache\<rparr>"

lemma large_slub_props:
  "page_calls large_slub" "phys_inv (ph large_slub)" "below_64t (phys_bytes (ph large_slub))"
  "kc_idx (kmalloc_caches large_slub 15) = 15" "page_nibble (page_bits large_slub) k \<noteq> 14"
proof -
  have "ph large_slub = ph boot_slub" by (simp add: large_slub_def)
  then show "phys_inv (ph large_slub)" "below_64t (phys_bytes (ph large_slub))"
    using one_page_phys_inv one_page_bytes(2) by simp_all
  show "page_calls large_slub" using boot_slub_simps(2) page_calls_cong [of large_slub boot_slub] by (simp add: large_slub_def)
  show "kc_idx (kmalloc_caches large_slub 15) = 15" by (simp add: large_slub_def fresh_cache_def)
  show "page_nibble (page_bits large_slub) k \<noteq> 14" by (simp add: page_nibble_def large_slub_def boot_slub_def)
qed

text \<open>A block of three pages, given back, and a block of two pages after it.\<close>

definition large_run :: "(ulong \<times> ulong) outcome" where
  "large_run =
     andThen (slub_malloc 0 9000 large_slub) (\<lambda>(r, st1).
     andThen (slub_mfree 0 (rv r) st1) (\<lambda>(r1, st2).
     andThen (slub_malloc 0 5000 st2) (\<lambda>(r2, st3). Inr (rv r, rv r2))))"

lemma large_run_eval: "large_run = Inr (0xFFFF820000200000, 0xFFFF820000200000)"
  by code_simp

lemma large_run_steps:
  "\<exists>r st1 r1 st2 r2 st3. slub_malloc 0 9000 large_slub = Inr (r, st1) \<and> V2P (rv r) = Inr 0x200000 \<and>
     slub_mfree 0 (rv r) st1 = Inr (r1, st2) \<and> slub_malloc 0 5000 st2 = Inr (r2, st3) \<and> rv r2 = rv r"
proof -
  from large_run_eval obtain r st1 r1 st2 r2 st3 where "slub_malloc 0 9000 large_slub = Inr (r, st1)"
    "slub_mfree 0 (rv r) st1 = Inr (r1, st2)" "slub_malloc 0 5000 st2 = Inr (r2, st3)"
    "rv r = 0xFFFF820000200000" "rv r2 = 0xFFFF820000200000"
    unfolding large_run_def andThen_eq_Inr case_prod_unfold by auto
  moreover have "V2P 0xFFFF820000200000 = Inr 0x200000" by (simp add: V2P_def layout_defs)
  ultimately show ?thesis by auto
qed

theorem large_block_round_trip_witness:
  "\<exists>a st1 st2. slub_malloc 0 9000 large_slub = Inr (\<lparr>rv = P2V a, re = YAOSCALL_OK\<rparr>, st1) \<and>
     slub_mfree 0 (P2V a) st1 = Inr (\<lparr>rv = 0, re = YAOSCALL_OK\<rparr>, st2) \<and> phys_bytes (ph st2) = phys_bytes (ph large_slub)"
proof -
  have "can_serve_pages (of_nat (large_pages 9000 * 4096)) (ph large_slub)"
    by (simp add: can_serve_pages_def phys_exhausted_def large_slub_def)
  then obtain a st1 where a: "slub_malloc 0 9000 large_slub = Inr (\<lparr>rv = P2V a, re = YAOSCALL_OK\<rparr>, st1)"
    "if pfree (phy_page_holes (ph st1)) = None then slub_mfree 0 (P2V a) st1 = panic
     else \<exists>st2. slub_mfree 0 (P2V a) st1 = Inr (\<lparr>rv = 0, re = YAOSCALL_OK\<rparr>, st2) \<and> phys_inv (ph st2) \<and>
         phys_bytes (ph st2) = phys_bytes (ph large_slub)"
    using large_block_round_trip [OF large_slub_props(1-4), of 9000 0] large_slub_props(5) by auto
  moreover have "slub_mfree 0 (P2V a) st1 \<noteq> panic" using large_run_steps a(1) by auto
  ultimately show ?thesis by (auto split: if_splits)
qed

theorem large_block_stale_marks_witness:
  "\<exists>st2 r2 st3. slub_malloc 0 5000 st2 = Inr (r2, st3) \<and> large_pages 5000 = 2 \<and>
    kmfree 0 (rv r2) st3 = andThen (free_phy_page_small 0x200000 (of_nat (3 * 4096)) (ph st3)) (\<lambda>p.
    Inr (st3\<lparr>sysvm := put_phys p (sysvm st3)\<rparr>))"
proof -
  obtain r st1 r1 st2 r2 st3 where run: "slub_malloc 0 9000 large_slub = Inr (r, st1)" "V2P (rv r) = Inr 0x200000"
    "slub_mfree 0 (rv r) st1 = Inr (r1, st2)" "slub_malloc 0 5000 st2 = Inr (r2, st3)" "rv r2 = rv r"
    using large_run_steps by blast
  have n: "large_pages 9000 = 3" "large_pages 5000 = 2" by (simp_all add: large_pages_def)
  have "kmfree 0 (rv r2) st3 = andThen (free_phy_page_small 0x200000 (of_nat (large_pages 9000 * 4096)) (ph st3)) (\<lambda>p.
    Inr (st3\<lparr>sysvm := put_phys p (sysvm st3)\<rparr>))"
    by (rule large_block_stale_marks [OF large_slub_props(1-4) _ _ _ _ run(1,2) _ large_slub_props(5) run(3-5)]) simp_all
  then have "kmfree 0 (rv r2) st3 = andThen (free_phy_page_small 0x200000 (of_nat (3 * 4096)) (ph st3)) (\<lambda>p.
    Inr (st3\<lparr>sysvm := put_phys p (sysvm st3)\<rparr>))" by (simp only: n(1))
  with n(2) run(4) show ?thesis by blast
qed

end
