(* ===== verification/Start_Kernel.thy ===== *)
theory Start_Kernel
  imports Module
begin

text \<open>
  The start of the processors, \<open>kernel/main.c\<close>: the boot processor and the others run the same levels of
  initcalls, the boot processor waits until all others are past the last level before
  \<open>MAIN_LVL\<close>, gives the memory of the init sections back, and all of them go on to the main level. The
  functions of this file branch only on \<open>isbp\<close>, so each is the sequence of operations it performs;
  the sequences of the processors are interleaved by a step relation.
\<close>

section \<open>Model\<close>

abbreviation (input) PRE_SMP_ENDLVL :: nat where "PRE_SMP_ENDLVL \<equiv> 2"
abbreviation (input) MAIN_LVL :: nat where "MAIN_LVL \<equiv> 8"

text \<open>The tables the linker collects: setup functions, early initcalls, and the initcalls of each level.\<close>

record kernel_image =
  setup_calls :: "ulong list"
  early_calls :: "ulong list"
  initcall_levels :: "nat \<Rightarrow> ulong list"

text \<open>
  What the functions do, in the order of the code: a function of a table is called with \<open>isbp\<close>; the
  architecture sets itself up; an AP notes that it started; the boot processor starts the APs; the
  stack is switched; an AP counts itself in \<open>ap_done_nr\<close>; the boot processor waits for \<open>ap_done_nr\<close>,
  frees the init sections and stores its thread.
\<close>

datatype boot_op = Setup ulong | Initcall ulong | Arch_setup | Smp_ap_init | Smp_init | Switch_stack
  | Ap_done | Wait_aps | Free_init | Set_main_thread

definition do_early_setup :: "kernel_image \<Rightarrow> boot_op list" where
  "do_early_setup img = map Setup (setup_calls img)"

definition do_one_initcall :: "ulong \<Rightarrow> boot_op" where
  "do_one_initcall fn = Initcall fn"

definition do_initcall_level :: "kernel_image \<Rightarrow> nat \<Rightarrow> boot_op list" where
  "do_initcall_level img level = map do_one_initcall (initcall_levels img level)"

definition do_initcalls :: "kernel_image \<Rightarrow> boot_op list" where
  "do_initcalls img = concat (map (do_initcall_level img) [PRE_SMP_ENDLVL..<MAIN_LVL])"

definition do_basic_setup :: "kernel_image \<Rightarrow> boot_op list" where
  "do_basic_setup img = do_initcalls img"

definition do_pre_smp_initcalls :: "kernel_image \<Rightarrow> boot_op list" where
  "do_pre_smp_initcalls img =
     map do_one_initcall (early_calls img) @ concat (map (do_initcall_level img) [0..<PRE_SMP_ENDLVL])"

definition kernel_init_freeable :: "boot_op list" where
  "kernel_init_freeable = [Wait_aps, Free_init]"

definition kernel_init :: "boot_op list" where
  "kernel_init = kernel_init_freeable"

definition rest_init :: "boot_op list" where
  "rest_init = kernel_init"

text \<open>Up to the endless loop over \<open>can_main_run\<close>, where every processor ends.\<close>

definition after_switch_stack :: "kernel_image \<Rightarrow> bool \<Rightarrow> boot_op list" where
  "after_switch_stack img isbp =
     (if isbp then [Smp_init] else [])
   @ do_basic_setup img
   @ (if \<not> isbp then [Ap_done] else [])
   @ (if isbp then rest_init else [])
   @ (if isbp then [Set_main_thread] else [])
   @ do_initcall_level img MAIN_LVL"

definition start_kernel_ap :: "kernel_image \<Rightarrow> boot_op list" where
  "start_kernel_ap img =
     [Smp_ap_init] @ do_early_setup img @ do_pre_smp_initcalls img @ [Switch_stack] @ after_switch_stack img False"

definition start_kernel :: "kernel_image \<Rightarrow> boot_op list" where
  "start_kernel img =
     [Arch_setup] @ do_early_setup img @ do_pre_smp_initcalls img @ [Switch_stack] @ after_switch_stack img True"

text \<open>
  All processors: what each still has to do, the initcalls it has made, and the shared variables. CPU 0
  is the boot processor; the others run once it has started them.
\<close>

record boot =
  todo :: "nat \<Rightarrow> boot_op list"
  made :: "nat \<Rightarrow> ulong list"
  ap_done_nr :: nat
  aps_started :: bool
  init_freed :: bool

definition boot_init :: "kernel_image \<Rightarrow> boot" where
  "boot_init img =
     \<lparr>todo = (\<lambda>c. if c = 0 then start_kernel img else start_kernel_ap img), made = (\<lambda>_. []),
      ap_done_nr = 0, aps_started = False, init_freed = False\<rparr>"

text \<open>One operation on CPU \<open>c\<close> of \<open>nr_cpu\<close>; \<open>None\<close> is one more turn of the waiting loop.\<close>

fun boot_exec :: "nat \<Rightarrow> nat \<Rightarrow> boot_op \<Rightarrow> boot \<Rightarrow> boot option" where
  "boot_exec nr_cpu c (Initcall fn) b = Some (b\<lparr>made := (made b)(c := made b c @ [fn])\<rparr>)"
| "boot_exec nr_cpu c Smp_init b = Some (b\<lparr>aps_started := True\<rparr>)"
| "boot_exec nr_cpu c Ap_done b = Some (b\<lparr>ap_done_nr := ap_done_nr b + 1\<rparr>)"
| "boot_exec nr_cpu c Wait_aps b = (if ap_done_nr b = nr_cpu - 1 then Some b else None)"
| "boot_exec nr_cpu c Free_init b = Some (b\<lparr>init_freed := True\<rparr>)"
| "boot_exec nr_cpu c _ b = Some b"

inductive boot_step :: "nat \<Rightarrow> boot \<Rightarrow> boot \<Rightarrow> bool" for nr_cpu where
  boot_step: "c < nr_cpu \<Longrightarrow> c = 0 \<or> aps_started b \<Longrightarrow> todo b c = x # xs \<Longrightarrow>
     boot_exec nr_cpu c x (b\<lparr>todo := (todo b)(c := xs)\<rparr>) = Some b' \<Longrightarrow> boot_step nr_cpu b b'"

inductive boot_reach :: "nat \<Rightarrow> kernel_image \<Rightarrow> boot \<Rightarrow> bool" for nr_cpu img where
  reach_init: "boot_reach nr_cpu img (boot_init img)"
| reach_step: "boot_reach nr_cpu img b \<Longrightarrow> boot_step nr_cpu b b' \<Longrightarrow> boot_reach nr_cpu img b'"

definition boot_final :: "nat \<Rightarrow> boot \<Rightarrow> bool" where
  "boot_final nr_cpu b \<longleftrightarrow> (\<forall>c<nr_cpu. todo b c = [])"

section \<open>The initcalls of a processor\<close>

fun initcall_of :: "boot_op \<Rightarrow> ulong option" where
  "initcall_of (Initcall fn) = Some fn"
| "initcall_of _ = None"

abbreviation calls_in :: "boot_op list \<Rightarrow> ulong list" where
  "calls_in xs \<equiv> List.map_filter initcall_of xs"

text \<open>The initcalls before the main level, in the order of the levels.\<close>

definition init_calls :: "kernel_image \<Rightarrow> ulong list" where
  "init_calls img = early_calls img @ concat (map (initcall_levels img) [0..<MAIN_LVL])"

lemma calls_in_level [simp]: "calls_in (map do_one_initcall fs) = fs"
  by (induction fs) (simp_all add: do_one_initcall_def List.map_filter_simps)

lemma calls_in_setup [simp]: "calls_in (map Setup fs) = []"
  by (induction fs) (simp_all add: List.map_filter_simps)

lemmas boot_defs = start_kernel_def start_kernel_ap_def after_switch_stack_def rest_init_def kernel_init_def
  kernel_init_freeable_def do_pre_smp_initcalls_def do_basic_setup_def do_initcalls_def do_initcall_level_def
  do_early_setup_def

lemma calls_in_todo [simp]:
  "calls_in (start_kernel img) = init_calls img @ initcall_levels img MAIN_LVL"
  "calls_in (start_kernel_ap img) = init_calls img @ initcall_levels img MAIN_LVL"
  by (simp_all add: boot_defs init_calls_def upt_rec numeral_eq_Suc List.map_filter_simps)

section \<open>The invariant of the interleaving\<close>

definition boot_prog :: "kernel_image \<Rightarrow> nat \<Rightarrow> boot_op list" where
  "boot_prog img c = (if c = 0 then start_kernel img else start_kernel_ap img)"

definition aps_past :: "nat \<Rightarrow> boot \<Rightarrow> nat set" where
  "aps_past nr_cpu b = {c. 0 < c \<and> c < nr_cpu \<and> Ap_done \<notin> set (todo b c)}"

definition boot_inv :: "nat \<Rightarrow> kernel_image \<Rightarrow> boot \<Rightarrow> bool" where
  "boot_inv nr_cpu img b \<longleftrightarrow>
     (\<forall>c<nr_cpu. \<exists>xs. boot_prog img c = xs @ todo b c \<and> made b c = calls_in xs)
   \<and> ap_done_nr b = card (aps_past nr_cpu b)
   \<and> (aps_started b \<longleftrightarrow> Smp_init \<notin> set (todo b 0))
   \<and> (Wait_aps \<notin> set (todo b 0) \<longrightarrow> aps_past nr_cpu b = {0<..<nr_cpu})
   \<and> (init_freed b \<longleftrightarrow> Free_init \<notin> set (todo b 0))"

text \<open>The operations that occur once in a program, and what stands around them.\<close>

definition before_smp :: "kernel_image \<Rightarrow> boot_op list" where
  "before_smp img = do_early_setup img @ do_pre_smp_initcalls img @ [Switch_stack]"

lemma bp_prog:
  "boot_prog img 0 = (Arch_setup # before_smp img) @ Smp_init # do_initcalls img @ Wait_aps # Free_init # Set_main_thread # do_initcall_level img 8"
  by (simp add: boot_prog_def start_kernel_def before_smp_def after_switch_stack_def do_basic_setup_def rest_init_def
      kernel_init_def kernel_init_freeable_def)

lemma ap_prog:
  "c \<noteq> 0 \<Longrightarrow> boot_prog img c = (Smp_ap_init # before_smp img @ do_initcalls img) @ Ap_done # do_initcall_level img 8"
  by (simp add: boot_prog_def start_kernel_ap_def before_smp_def after_switch_stack_def do_basic_setup_def)

definition plain :: "boot_op \<Rightarrow> bool" where
  "plain x \<longleftrightarrow> x \<notin> {Smp_init, Ap_done, Wait_aps, Free_init}"

lemma plain_parts:
  "x \<in> set (before_smp img) \<Longrightarrow> plain x" "x \<in> set (do_initcalls img) \<Longrightarrow> plain x" "x \<in> set (do_initcall_level img l) \<Longrightarrow> plain x"
  by (auto simp: before_smp_def boot_defs plain_def do_one_initcall_def)

lemma not_plain [simp]: "\<not> plain Smp_init" "\<not> plain Ap_done" "\<not> plain Wait_aps" "\<not> plain Free_init"
  by (simp_all add: plain_def)

lemma parts_free [simp]:
  "\<not> plain x \<Longrightarrow> x \<notin> set (before_smp img)" "\<not> plain x \<Longrightarrow> x \<notin> set (do_initcalls img)"
  "\<not> plain x \<Longrightarrow> x \<notin> set (do_initcall_level img l)"
  using plain_parts by blast+

text \<open>What is left behind an operation that occurs once.\<close>

lemma split_past:
  assumes "us @ x # vs = xs @ ys" "x \<notin> set ys"
  shows "\<exists>zs. xs = us @ x # zs \<and> vs = zs @ ys"
  using assms by (auto simp: append_eq_append_conv2 append_eq_Cons_conv Cons_eq_append_conv)

lemma split_at:
  assumes "us @ x # vs = xs @ x # ys" "x \<notin> set us" "x \<notin> set vs"
  shows "us = xs \<and> vs = ys"
  using assms append_Cons_eq_iff by metis

lemma bp_at:
  assumes "boot_prog img 0 = xs @ x # ys"
  shows "x = Smp_init \<longrightarrow> ys = do_initcalls img @ Wait_aps # Free_init # Set_main_thread # do_initcall_level img 8"
    and "x = Wait_aps \<longrightarrow> ys = Free_init # Set_main_thread # do_initcall_level img 8"
    and "x = Free_init \<longrightarrow> ys = Set_main_thread # do_initcall_level img 8"
    and "x \<noteq> Ap_done"
proof -
  show "x = Smp_init \<longrightarrow> ys = do_initcalls img @ Wait_aps # Free_init # Set_main_thread # do_initcall_level img 8"
    using split_at [of "Arch_setup # before_smp img" Smp_init
      "do_initcalls img @ Wait_aps # Free_init # Set_main_thread # do_initcall_level img 8" xs ys] assms bp_prog [of img] by auto
  show "x = Wait_aps \<longrightarrow> ys = Free_init # Set_main_thread # do_initcall_level img 8"
    using split_at [of "(Arch_setup # before_smp img) @ Smp_init # do_initcalls img" Wait_aps
      "Free_init # Set_main_thread # do_initcall_level img 8" xs ys] assms bp_prog [of img] by auto
  show "x = Free_init \<longrightarrow> ys = Set_main_thread # do_initcall_level img 8"
    using split_at [of "(Arch_setup # before_smp img) @ Smp_init # do_initcalls img @ [Wait_aps]" Free_init
      "Set_main_thread # do_initcall_level img 8" xs ys] assms bp_prog [of img] by auto
  have "Ap_done \<notin> set (boot_prog img 0)" using bp_prog [of img] by simp
  then show "x \<noteq> Ap_done" using assms by auto
qed

lemma ap_at:
  assumes "boot_prog img c = xs @ x # ys" "c \<noteq> 0"
  shows "x = Ap_done \<longrightarrow> ys = do_initcall_level img 8" and "x \<notin> {Smp_init, Wait_aps, Free_init}"
proof -
  show "x = Ap_done \<longrightarrow> ys = do_initcall_level img 8"
    using split_at [of "Smp_ap_init # before_smp img @ do_initcalls img" Ap_done "do_initcall_level img 8" xs ys] assms ap_prog [of c img] by auto
  have "set (boot_prog img c) \<inter> {Smp_init, Wait_aps, Free_init} = {}" using ap_prog [of c img] assms(2) by auto
  then show "x \<notin> {Smp_init, Wait_aps, Free_init}" using assms(1) by auto
qed

lemma boot_inv_init: "boot_inv nr_cpu img (boot_init img)"
proof -
  have "todo (boot_init img) c = boot_prog img c" for c by (simp add: boot_init_def boot_prog_def)
  moreover have "aps_past nr_cpu (boot_init img) = {}"
    using calculation ap_prog [of _ img] by (fastforce simp: aps_past_def)
  ultimately show ?thesis
    by (simp add: boot_inv_def bp_prog) (simp add: boot_init_def List.map_filter_simps)
qed

lemma boot_exec_fields:
  assumes "boot_exec nr_cpu c x b = Some b'"
  shows "todo b' = todo b" "made b' = (made b)(c := made b c @ calls_in [x])"
    "aps_started b' \<longleftrightarrow> aps_started b \<or> x = Smp_init" "init_freed b' \<longleftrightarrow> init_freed b \<or> x = Free_init"
    "ap_done_nr b' = ap_done_nr b + (if x = Ap_done then 1 else 0)" "x = Wait_aps \<longrightarrow> ap_done_nr b = nr_cpu - 1"
  using assms by (cases x; simp add: List.map_filter_simps split: if_splits; auto)+

lemma aps_past_finite [simp]: "finite (aps_past nr_cpu b)"
  by (simp add: aps_past_def)

lemma aps_past_all:
  assumes "card (aps_past nr_cpu b) = nr_cpu - 1"
  shows "aps_past nr_cpu b = {0<..<nr_cpu}"
proof (rule card_subset_eq)
  show "aps_past nr_cpu b \<subseteq> {0<..<nr_cpu}" by (auto simp: aps_past_def)
  show "card (aps_past nr_cpu b) = card {0<..<nr_cpu}" using assms by simp
qed simp

lemma boot_inv_step:
  assumes "boot_inv nr_cpu img b" "boot_step nr_cpu b b'"
  shows "boot_inv nr_cpu img b'"
  using assms(2)
proof cases
  case (boot_step c x xs)
  note F = boot_exec_fields [OF boot_step(4)]
  obtain us where us: "boot_prog img c = us @ x # xs" "made b c = calls_in us"
    using assms(1) boot_step(1,3) by (auto simp: boot_inv_def)
  have todo': "todo b' = (todo b)(c := xs)" using F(1) by simp
  have "\<exists>ys. boot_prog img d = ys @ todo b' d \<and> made b' d = calls_in ys" if "d < nr_cpu" for d
  proof (cases "d = c")
    case True
    then show ?thesis using us F(1,2) by (intro exI [of _ "us @ [x]"]) (simp add: List.map_filter_simps)
  next
    case False
    then show ?thesis using assms(1) that F(1,2) by (simp add: boot_inv_def)
  qed
  moreover have "ap_done_nr b' = card (aps_past nr_cpu b') \<and> (Wait_aps \<notin> set (todo b' 0) \<longrightarrow> aps_past nr_cpu b' = {0<..<nr_cpu})
      \<and> (aps_started b' \<longleftrightarrow> Smp_init \<notin> set (todo b' 0)) \<and> (init_freed b' \<longleftrightarrow> Free_init \<notin> set (todo b' 0))"
  proof (cases "c = 0")
    case True
    have past: "aps_past nr_cpu b' = aps_past nr_cpu b" using True todo' by (auto simp: aps_past_def)
    have at: "boot_prog img 0 = us @ x # xs" using us True by simp
    have "x = Wait_aps \<longrightarrow> aps_past nr_cpu b = {0<..<nr_cpu}"
      using F(6) assms(1) aps_past_all by (simp add: boot_inv_def)
    moreover have "x = Smp_init \<longrightarrow> Smp_init \<notin> set xs" "x = Free_init \<longrightarrow> Free_init \<notin> set xs"
      using bp_at(1,3) [OF at] by auto
    ultimately show ?thesis
      using assms(1) boot_step(3) True F(3-5) todo' bp_at(4) [OF at] past by (auto simp: boot_inv_def)
  next
    case False
    note at = ap_at [OF us(1) False]
    have same: "todo b' 0 = todo b 0" using False todo' by simp
    have "aps_past nr_cpu b' = (if x = Ap_done then insert c (aps_past nr_cpu b) else aps_past nr_cpu b)"
      using False todo' boot_step(1,3) at(1) by (auto simp: aps_past_def)
    moreover have "x = Ap_done \<longrightarrow> c \<notin> aps_past nr_cpu b" using boot_step(3) by (auto simp: aps_past_def)
    moreover have "c \<in> {0<..<nr_cpu}" using False boot_step(1) by simp
    ultimately show ?thesis using assms(1) F(3-5) at(2) same by (auto simp: boot_inv_def)
  qed
  ultimately show ?thesis unfolding boot_inv_def by blast
qed

lemma boot_inv_reach: "boot_reach nr_cpu img b \<Longrightarrow> boot_inv nr_cpu img b"
  by (induction rule: boot_reach.induct) (auto intro: boot_inv_init boot_inv_step)

section \<open>Properties\<close>

lemma calls_in_parts [simp]:
  "calls_in (before_smp img @ do_initcalls img) = init_calls img"
  "calls_in (do_initcall_level img l) = initcall_levels img l"
  by (simp_all add: boot_defs before_smp_def init_calls_def upt_rec numeral_eq_Suc List.map_filter_simps)

definition bp_until_free :: "kernel_image \<Rightarrow> boot_op list" where
  "bp_until_free img = Arch_setup # before_smp img @ Smp_init # do_initcalls img @ [Wait_aps]"

definition ap_until_done :: "kernel_image \<Rightarrow> boot_op list" where
  "ap_until_done img = Smp_ap_init # before_smp img @ do_initcalls img"

lemma bp_free: "boot_prog img 0 = bp_until_free img @ Free_init # Set_main_thread # do_initcall_level img 8"
  by (simp add: bp_prog bp_until_free_def)

lemma ap_done: "c \<noteq> 0 \<Longrightarrow> boot_prog img c = ap_until_done img @ Ap_done # do_initcall_level img 8"
  by (simp add: ap_prog ap_until_done_def)

lemma calls_in_until [simp]:
  "calls_in (bp_until_free img) = init_calls img" "calls_in (ap_until_done img) = init_calls img"
  "calls_in (Set_main_thread # xs) = calls_in xs"
  using calls_in_parts(1) [of img] by (simp_all add: bp_until_free_def ap_until_done_def List.map_filter_simps)

lemma calls_past:
  assumes "us @ x # vs = xs @ ys" "x \<notin> set ys" "initcall_of x = None"
  shows "\<exists>k. calls_in xs = calls_in us @ take k (calls_in vs)"
proof -
  obtain zs where "xs = us @ x # zs" "vs = zs @ ys" using split_past [OF assms(1,2)] by blast
  then show ?thesis using assms(3) by (intro exI [of _ "length (calls_in zs)"]) (simp add: List.map_filter_simps)
qed

lemma freed_past_wait:
  assumes "boot_inv nr_cpu img b" "Free_init \<notin> set (todo b 0)" "0 < nr_cpu"
  shows "Wait_aps \<notin> set (todo b 0)"
proof -
  obtain xs where "boot_prog img 0 = xs @ todo b 0" using assms(1,3) by (auto simp: boot_inv_def)
  then have "bp_until_free img @ Free_init # Set_main_thread # do_initcall_level img 8 = xs @ todo b 0"
    using bp_free [of img] by simp
  from split_past [OF this assms(2)] obtain zs where "Set_main_thread # do_initcall_level img 8 = zs @ todo b 0" by blast
  moreover have "Wait_aps \<notin> set (Set_main_thread # do_initcall_level img 8)" by simp
  ultimately show ?thesis by (metis Un_iff set_append)
qed

text \<open>
  C33: In every interleaving of the processors, once the boot processor has given the init sections back,
  every processor has made all its initcalls of the levels before the main one, in the order of the
  levels, and has nothing left but initcalls of the main level.\<close>

theorem init_freed_after_levels:
  assumes "boot_reach nr_cpu img b" "init_freed b" "c < nr_cpu"
  shows "\<exists>k. made b c = init_calls img @ take k (initcall_levels img MAIN_LVL)"
proof -
  have inv: "boot_inv nr_cpu img b" using assms(1) by (rule boot_inv_reach)
  then obtain xs where xs: "boot_prog img c = xs @ todo b c" "made b c = calls_in xs"
    using assms(3) by (auto simp: boot_inv_def)
  have bp: "Free_init \<notin> set (todo b 0)" using inv assms(2) by (simp add: boot_inv_def)
  show ?thesis
  proof (cases "c = 0")
    case True
    have "bp_until_free img @ Free_init # Set_main_thread # do_initcall_level img 8 = xs @ todo b 0"
      using xs(1) True bp_free [of img] by simp
    from calls_past [OF this bp] show ?thesis using xs(2) by simp
  next
    case False
    have "0 < nr_cpu" using assms(3) by simp
    then have "Wait_aps \<notin> set (todo b 0)" using freed_past_wait [OF inv bp] by blast
    then have "aps_past nr_cpu b = {0<..<nr_cpu}" using inv unfolding boot_inv_def by blast
    then have "c \<in> aps_past nr_cpu b" using assms(3) False by simp
    then have past: "Ap_done \<notin> set (todo b c)" by (simp add: aps_past_def)
    have "ap_until_done img @ Ap_done # do_initcall_level img 8 = xs @ todo b c"
      using xs(1) ap_done [OF False, of img] by simp
    from calls_past [OF this past] show ?thesis using xs(2) by simp
  qed
qed

text \<open>A state in which no processor can go on is the end of the start.\<close>

lemma boot_exec_enabled:
  assumes "x \<noteq> Wait_aps \<or> ap_done_nr b = nr_cpu - 1"
  shows "\<exists>b'. boot_exec nr_cpu c x b = Some b'"
  using assms by (cases x) auto

lemma boot_step_enabled:
  assumes "c < nr_cpu" "c = 0 \<or> aps_started b" "todo b c = x # xs" "x \<noteq> Wait_aps \<or> ap_done_nr b = nr_cpu - 1"
  shows "\<exists>b'. boot_step nr_cpu b b'"
  using boot_exec_enabled [of x "b\<lparr>todo := (todo b)(c := xs)\<rparr>" nr_cpu c] boot_step [OF assms(1-3)] assms(4) by auto

lemma ap_step_enabled:
  assumes "boot_inv nr_cpu img b" "Smp_init \<notin> set (todo b 0)" "0 < c" "c < nr_cpu" "todo b c \<noteq> []"
  shows "\<exists>b'. boot_step nr_cpu b b'"
proof -
  obtain x xs where x: "todo b c = x # xs" using assms(5) by (cases "todo b c") auto
  obtain us where "boot_prog img c = us @ x # xs" using assms(1,4) x by (auto simp: boot_inv_def)
  then have "x \<noteq> Wait_aps" using ap_at(2) assms(3) by blast
  moreover have "aps_started b" using assms(1,2) by (simp add: boot_inv_def)
  ultimately show ?thesis using boot_step_enabled [OF assms(4) _ x] by blast
qed

lemma boot_stuck_final:
  assumes "boot_inv nr_cpu img b" "\<nexists>b'. boot_step nr_cpu b b'" "0 < nr_cpu"
  shows "boot_final nr_cpu b"
proof -
  have bp: "todo b 0 = []"
  proof (rule ccontr)
    assume "todo b 0 \<noteq> []"
    then obtain x xs where x: "todo b 0 = x # xs" by (cases "todo b 0") auto
    then have wait: "x = Wait_aps" "ap_done_nr b \<noteq> nr_cpu - 1"
      using boot_step_enabled [OF assms(3), of b x xs] assms(2) by blast+
    obtain us where "boot_prog img 0 = us @ Wait_aps # xs" using assms(1,3) x wait(1) by (auto simp: boot_inv_def)
    then have "Smp_init \<notin> set (todo b 0)" using bp_at(2) x wait(1) by force
    moreover have "aps_past nr_cpu b \<noteq> {0<..<nr_cpu}" using wait(2) assms(1) by (auto simp: boot_inv_def)
    then obtain c where c: "0 < c" "c < nr_cpu" "Ap_done \<in> set (todo b c)" by (auto simp: aps_past_def)
    then have "todo b c \<noteq> []" by auto
    ultimately show False using ap_step_enabled [OF assms(1) _ c(1,2)] assms(2) by blast
  qed
  then have "todo b c = []" if "c < nr_cpu" for c
    using ap_step_enabled [OF assms(1), of c] assms(2) that by (cases "c = 0") auto
  then show ?thesis by (simp add: boot_final_def)
qed

definition boot_left :: "nat \<Rightarrow> boot \<Rightarrow> nat" where
  "boot_left nr_cpu b = (\<Sum>c<nr_cpu. length (todo b c))"

lemma boot_step_left:
  assumes "boot_step nr_cpu b b'"
  shows "boot_left nr_cpu b = Suc (boot_left nr_cpu b')"
  using assms
proof cases
  case (boot_step c x xs)
  have "todo b' = (todo b)(c := xs)" using boot_exec_fields(1) [OF boot_step(4)] by simp
  then have "boot_left nr_cpu b' = (\<Sum>d\<in>{..<nr_cpu} - {c}. length (todo b d)) + length xs"
    using boot_step(1) by (simp add: boot_left_def sum.remove [of "{..<nr_cpu}" c])
  then show ?thesis using boot_step(1,3) by (simp add: boot_left_def sum.remove [of "{..<nr_cpu}" c])
qed

lemma boot_runs_to_end:
  assumes "boot_inv nr_cpu img b" "0 < nr_cpu"
  shows "\<exists>b'. (boot_step nr_cpu)\<^sup>*\<^sup>* b b' \<and> boot_inv nr_cpu img b' \<and> boot_final nr_cpu b'"
  using assms(1)
proof (induction "boot_left nr_cpu b" arbitrary: b rule: less_induct)
  case less
  show ?case
  proof (cases "\<exists>b1. boot_step nr_cpu b b1")
    case False
    then show ?thesis using boot_stuck_final [OF less.prems _ assms(2)] less.prems by blast
  next
    case True
    then obtain b1 where b1: "boot_step nr_cpu b b1" by blast
    obtain b' where "(boot_step nr_cpu)\<^sup>*\<^sup>* b1 b'" "boot_inv nr_cpu img b'" "boot_final nr_cpu b'"
      using less.hyps [of b1] boot_step_left [OF b1] boot_inv_step [OF less.prems b1] by auto
    then show ?thesis using b1 by (meson converse_rtranclp_into_rtranclp)
  qed
qed

lemma boot_final_made:
  assumes "boot_inv nr_cpu img b" "boot_final nr_cpu b" "0 < nr_cpu"
  shows "init_freed b \<and> (\<forall>c<nr_cpu. made b c = init_calls img @ initcall_levels img 8)"
  using assms by (auto simp: boot_inv_def boot_final_def boot_prog_def)

lemma boot_reach_steps:
  assumes "(boot_step nr_cpu)\<^sup>*\<^sup>* b b'" "boot_reach nr_cpu img b"
  shows "boot_reach nr_cpu img b'"
  using assms by (induction rule: rtranclp_induct) (auto intro: reach_step)

text \<open>An image with one function in each table and two processors.\<close>

definition sample_image :: kernel_image where
  "sample_image = \<lparr>setup_calls = [100], early_calls = [200], initcall_levels = (\<lambda>l. [of_nat l])\<rparr>"

theorem init_freed_after_levels_witness:
  "\<exists>b k. boot_reach 2 sample_image b \<and> init_freed b \<and> made b 1 = [200, 0, 1, 2, 3, 4, 5, 6, 7] @ take k [8]"
proof -
  obtain b where b: "(boot_step 2)\<^sup>*\<^sup>* (boot_init sample_image) b" "boot_inv 2 sample_image b" "boot_final 2 b"
    using boot_runs_to_end [OF boot_inv_init, of 2 sample_image] by auto
  have r: "boot_reach 2 sample_image b" using boot_reach_steps [OF b(1) reach_init] .
  have f: "init_freed b" using boot_final_made [OF b(2,3)] by simp
  from init_freed_after_levels [OF r f, of 1] obtain k where "made b 1 = init_calls sample_image @ take k (initcall_levels sample_image 8)"
    by auto
  then have "made b 1 = [200, 0, 1, 2, 3, 4, 5, 6, 7] @ take k [8]"
    by (simp add: init_calls_def sample_image_def upt_rec)
  then show ?thesis using r f by blast
qed

text \<open>
  C34: The start never blocks for good: from every state the processors can reach they can go on until
  each of them stands in its endless loop, the init sections are freed and every processor has made
  every initcall exactly once in the order of the levels; a state in which none of them
  can make a step is such an end, and a run makes a bounded number of steps. Each initcall and the release of the
  init sections are taken to return; what is shown is that waiting for one another does not stop them.\<close>

theorem boot_completes:
  assumes "boot_reach nr_cpu img b" "0 < nr_cpu"
  shows "(\<exists>b'. (boot_step nr_cpu)\<^sup>*\<^sup>* b b' \<and> boot_final nr_cpu b' \<and> init_freed b'
            \<and> (\<forall>c<nr_cpu. made b' c = init_calls img @ initcall_levels img MAIN_LVL))
       \<and> ((\<nexists>b'. boot_step nr_cpu b b') \<longrightarrow> boot_final nr_cpu b)
       \<and> (\<forall>b'. boot_step nr_cpu b b' \<longrightarrow> boot_left nr_cpu b' < boot_left nr_cpu b)"
proof -
  have inv: "boot_inv nr_cpu img b" using assms(1) by (rule boot_inv_reach)
  show ?thesis
    using boot_runs_to_end [OF inv assms(2)] boot_final_made [OF _ _ assms(2)] boot_stuck_final [OF inv _ assms(2)]
      boot_step_left by fastforce
qed

theorem boot_completes_witness:
  "boot_reach 2 sample_image (boot_init sample_image)
   \<and> (\<exists>b'. (boot_step 2)\<^sup>*\<^sup>* (boot_init sample_image) b' \<and> boot_final 2 b' \<and> init_freed b')"
  using boot_completes [OF reach_init, of 2 sample_image] reach_init by auto

end
