(* ===== verification/Virtio.thy ===== *)
theory Virtio
  imports Slub
begin

text \<open>
  The virtio library, \<open>libs/libvirtio/virtio.c\<close> and \<open>libs/libvirtio/virtio_ring.h\<close>: the ring of descriptors
  a driver shares with a device, how a driver posts buffers and takes them back, and how the rings of a
  device are set up. The registers of the device are reached through a history of accesses and a
  function that gives what the device answers to a read after a history; that function and the
  callbacks of the drivers are parameters.
\<close>

section \<open>The ring\<close>

abbreviation (input) VRING_DESC_F_NEXT :: u16 where "VRING_DESC_F_NEXT \<equiv> 1"
abbreviation (input) VRING_DESC_F_WRITE :: u16 where "VRING_DESC_F_WRITE \<equiv> 2"
abbreviation (input) VRING_DESC_F_INDIRECT :: u16 where "VRING_DESC_F_INDIRECT \<equiv> 4"
abbreviation (input) VRING_AVAIL_F_NO_INTERRUPT :: u16 where "VRING_AVAIL_F_NO_INTERRUPT \<equiv> 1"
abbreviation (input) VIRTIO_RING_F_INDIRECT_DESC :: nat where "VIRTIO_RING_F_INDIRECT_DESC \<equiv> 28"
abbreviation (input) VIRTIO_RING_F_EVENT_IDX :: nat where "VIRTIO_RING_F_EVENT_IDX \<equiv> 29"

record vring_desc =
  vd_addr :: ulong
  vd_len :: u32
  vd_flags :: u16
  vd_next :: u16

record vring_used_elem =
  ue_id :: u32
  ue_len :: u32

record addr_size =
  vp_addr :: ulong
  vp_size :: u32
  vp_flags :: u32

text \<open>
  A queue, with the memory its ring points to: the descriptors, the ring the driver fills
  (\<open>vq_avail\<close>, with \<open>vq_used_event\<close> behind its last entry) and the ring the device fills (\<open>vq_used\<close>).
\<close>

record virtio_queue =
  vq_vaddr :: ulong
  vq_paddr :: ulong
  vq_page :: u32
  vq_num :: u16
  vq_index :: u16
  vq_ring_size :: u32
  vq_last_used_idx :: u32
  vq_desc :: "u16 \<Rightarrow> vring_desc"
  vq_avail_flags :: u16
  vq_avail_idx :: u16
  vq_avail :: "u16 \<Rightarrow> u16"
  vq_used_event :: u16
  vq_used_flags :: u16
  vq_used_idx :: u16
  vq_used :: "u16 \<Rightarrow> vring_used_elem"
  vq_free_num :: u16
  vq_free_head :: u16
  vq_free_tail :: u16
  vq_last_used :: u16
  vq_callback :: ulong
  vq_data_at :: ulong
  vq_data :: "u32 \<Rightarrow> ulong"

text \<open>A table of indirect descriptors; its memory is one page, 256 descriptors.\<close>

record indirect_desc_table =
  in_use :: bool
  id_descs :: "nat \<Rightarrow> vring_desc"
  id_descs_at :: ulong
  id_paddr :: ulong
  id_len :: ulong

datatype conf_op = Readb u32 | Readw u32 | Readl u32 | Writeb u32 u8 | Writew u32 u16 | Writel u32 u32

record 'w virtio_dev =
  queues :: "virtio_queue list"
  queues_at :: ulong
  num_queues :: u16
  indirect :: "indirect_desc_table list"
  num_indirect :: int
  threads :: int
  driver_features :: ulong
  enabled_features :: ulong
  cap_indirect_buf :: bool
  cap_event_idx :: bool
  msix :: bool
  showTcp :: bool
  conf :: "conf_op list"
  driver :: 'w

text \<open>
  \<open>vring_init\<close> and \<open>vring_size\<close>: where the three parts of a ring of \<open>n\<close> descriptors at \<open>p\<close> are, and how
  many bytes they take.
\<close>

definition vring_desc_at :: "u32 \<Rightarrow> ulong \<Rightarrow> ulong" where
  "vring_desc_at n p = p"

definition vring_avail_at :: "u32 \<Rightarrow> ulong \<Rightarrow> ulong" where
  "vring_avail_at n p = p + ucast n * 16"

definition vring_used_at :: "u32 \<Rightarrow> ulong \<Rightarrow> ulong \<Rightarrow> ulong" where
  "vring_used_at n p align = (vring_avail_at n p + 4 + 2 * ucast n + 2 + align - 1) AND NOT (align - 1)"

definition vring_used_event :: "u32 \<Rightarrow> ulong \<Rightarrow> ulong" where
  "vring_used_event n p = vring_avail_at n p + 4 + 2 * ucast n"

definition vring_avail_event :: "u32 \<Rightarrow> ulong \<Rightarrow> ulong \<Rightarrow> ulong" where
  "vring_avail_event n p align = vring_used_at n p align + 4 + 8 * ucast n"

definition vring_size :: "u32 \<Rightarrow> ulong \<Rightarrow> u32" where
  "vring_size n align =
     ucast (((16 * ucast n + 2 * (3 + ucast n) + align - 1) AND NOT (align - 1)) + 2 * 3 + 8 * ucast n)"

section \<open>Registers\<close>

type_synonym host = "conf_op list \<Rightarrow> u32 \<Rightarrow> u32"

definition virtio_conf_readb :: "host \<Rightarrow> u32 \<Rightarrow> 'w virtio_dev \<Rightarrow> u8 \<times> 'w virtio_dev" where
  "virtio_conf_readb h off p = (ucast (h (conf p) off), p\<lparr>conf := conf p @ [Readb off]\<rparr>)"

definition virtio_conf_readw :: "host \<Rightarrow> u32 \<Rightarrow> 'w virtio_dev \<Rightarrow> u16 \<times> 'w virtio_dev" where
  "virtio_conf_readw h off p = (ucast (h (conf p) off), p\<lparr>conf := conf p @ [Readw off]\<rparr>)"

definition virtio_conf_readl :: "host \<Rightarrow> u32 \<Rightarrow> 'w virtio_dev \<Rightarrow> u32 \<times> 'w virtio_dev" where
  "virtio_conf_readl h off p = (h (conf p) off, p\<lparr>conf := conf p @ [Readl off]\<rparr>)"

definition virtio_conf_writeb :: "u32 \<Rightarrow> u8 \<Rightarrow> 'w virtio_dev \<Rightarrow> 'w virtio_dev" where
  "virtio_conf_writeb off v p = p\<lparr>conf := conf p @ [Writeb off v]\<rparr>"

definition virtio_conf_writew :: "u32 \<Rightarrow> u16 \<Rightarrow> 'w virtio_dev \<Rightarrow> 'w virtio_dev" where
  "virtio_conf_writew off v p = p\<lparr>conf := conf p @ [Writew off v]\<rparr>"

definition virtio_conf_writel :: "u32 \<Rightarrow> u32 \<Rightarrow> 'w virtio_dev \<Rightarrow> 'w virtio_dev" where
  "virtio_conf_writel off v p = p\<lparr>conf := conf p @ [Writel off v]\<rparr>"

primrec virtio_conf_read :: "host \<Rightarrow> u32 \<Rightarrow> nat \<Rightarrow> 'w virtio_dev \<Rightarrow> u8 list \<times> 'w virtio_dev" where
  "virtio_conf_read h off 0 p = ([], p)"
| "virtio_conf_read h off (Suc n) p =
     (case virtio_conf_readb h off p of (b, p1) \<Rightarrow>
      case virtio_conf_read h (off + 1) n p1 of (bs, p2) \<Rightarrow> (b # bs, p2))"

primrec virtio_conf_write :: "u32 \<Rightarrow> u8 list \<Rightarrow> 'w virtio_dev \<Rightarrow> 'w virtio_dev" where
  "virtio_conf_write off [] p = p"
| "virtio_conf_write off (b # bs) p = virtio_conf_write (off + 1) bs (virtio_conf_writeb off b p)"

definition virtio_had_irq :: "host \<Rightarrow> 'w virtio_dev \<Rightarrow> bool \<times> 'w virtio_dev" where
  "virtio_had_irq h p = (case virtio_conf_readb h 19 p of (b, p1) \<Rightarrow> (b AND 1 \<noteq> 0, p1))"

definition virtio_get_config_bit :: "host \<Rightarrow> u32 \<Rightarrow> nat \<Rightarrow> 'w virtio_dev \<Rightarrow> bool \<times> 'w virtio_dev" where
  "virtio_get_config_bit h off b p = (case virtio_conf_readl h (off AND push_bit b 1) p of (v, p1) \<Rightarrow> (v \<noteq> 0, p1))"

definition virtio_get_guest_feature_bit :: "host \<Rightarrow> nat \<Rightarrow> 'w virtio_dev \<Rightarrow> bool \<times> 'w virtio_dev" where
  "virtio_get_guest_feature_bit h b p = virtio_get_config_bit h 4 b p"

definition virtio_get_driver_features :: u32 where
  "virtio_get_driver_features = push_bit VIRTIO_RING_F_INDIRECT_DESC 1 OR push_bit VIRTIO_RING_F_EVENT_IDX 1"

definition get_dev_status :: "host \<Rightarrow> 'w virtio_dev \<Rightarrow> u8 \<times> 'w virtio_dev" where
  "get_dev_status h p = virtio_conf_readb h 18 p"

definition set_dev_status :: "u8 \<Rightarrow> 'w virtio_dev \<Rightarrow> 'w virtio_dev" where
  "set_dev_status s p = virtio_conf_writeb 18 s p"

definition add_dev_status :: "host \<Rightarrow> u8 \<Rightarrow> 'w virtio_dev \<Rightarrow> 'w virtio_dev" where
  "add_dev_status h s p = (case get_dev_status h p of (v, p1) \<Rightarrow> set_dev_status (v OR s) p1)"

definition del_dev_status :: "host \<Rightarrow> u8 \<Rightarrow> 'w virtio_dev \<Rightarrow> 'w virtio_dev" where
  "del_dev_status h s p = (case get_dev_status h p of (v, p1) \<Rightarrow> set_dev_status (v AND NOT s) p1)"

definition virtio_reset_host_side :: "'w virtio_dev \<Rightarrow> 'w virtio_dev" where
  "virtio_reset_host_side p = set_dev_status 0 p"

definition virtio_get_device_features :: "host \<Rightarrow> 'w virtio_dev \<Rightarrow> ulong \<times> 'w virtio_dev" where
  "virtio_get_device_features h p = (case virtio_conf_readl h 0 p of (v, p1) \<Rightarrow> (ucast v, p1))"

definition virtio_set_guest_features :: "ulong \<Rightarrow> 'w virtio_dev \<Rightarrow> 'w virtio_dev" where
  "virtio_set_guest_features f p = (virtio_conf_writel 4 (ucast f) p)\<lparr>enabled_features := f\<rparr>"

definition virtio_setup_features :: "host \<Rightarrow> 'w virtio_dev \<Rightarrow> 'w virtio_dev" where
  "virtio_setup_features h p =
     (case virtio_get_device_features h p of (dev_features, p1) \<Rightarrow>
      let subset = dev_features AND driver_features p1;
          p2 = (if subset AND push_bit VIRTIO_RING_F_INDIRECT_DESC 1 \<noteq> 0 then p1\<lparr>cap_indirect_buf := True\<rparr> else p1);
          p3 = (if subset AND push_bit VIRTIO_RING_F_EVENT_IDX 1 \<noteq> 0 then p2\<lparr>cap_event_idx := True\<rparr> else p2)
      in virtio_set_guest_features subset p3)"

definition virtio_device_ready :: "host \<Rightarrow> 'w virtio_dev \<Rightarrow> 'w virtio_dev" where
  "virtio_device_ready h p = add_dev_status h 4 p"

section \<open>Posting buffers\<close>

text \<open>\<open>&dev->queues[qidx]\<close>, where it is used: past the array there is no queue.\<close>

definition get_queue :: "int \<Rightarrow> 'w virtio_dev \<Rightarrow> virtio_queue outcome" where
  "get_queue qidx dev = (if 0 \<le> qidx \<and> qidx < int (length (queues dev)) then Inr (queues dev ! nat qidx) else Inl Out_of_bounds)"

definition put_queue :: "int \<Rightarrow> virtio_queue \<Rightarrow> 'w virtio_dev \<Rightarrow> 'w virtio_dev" where
  "put_queue qidx q dev = dev\<lparr>queues := (queues dev)[nat qidx := q]\<rparr>"

definition put_desc :: "u16 \<Rightarrow> vring_desc \<Rightarrow> virtio_queue \<Rightarrow> virtio_queue" where
  "put_desc i vd q = q\<lparr>vq_desc := (vq_desc q)(i := vd)\<rparr>"

definition virtio_set_queue_callback :: "int \<Rightarrow> ulong \<Rightarrow> 'w virtio_dev \<Rightarrow> 'w virtio_dev outcome" where
  "virtio_set_queue_callback qidx cb dev =
     andThen (get_queue qidx dev) (\<lambda>q. Inr (put_queue qidx (q\<lparr>vq_callback := cb\<rparr>) dev))"

definition use_vring_desc :: "vring_desc \<Rightarrow> addr_size \<Rightarrow> vring_desc" where
  "use_vring_desc vd vp = vd\<lparr>vd_addr := vp_addr vp, vd_len := vp_size vp,
     vd_flags := (if vp_flags vp AND 2 \<noteq> 0 then VRING_DESC_F_NEXT OR VRING_DESC_F_WRITE else VRING_DESC_F_NEXT)\<rparr>"

text \<open>The loop over the buffers: \<open>i\<close> is the next free descriptor, \<open>l\<close> the one used last.\<close>

primrec direct_loop :: "addr_size list \<Rightarrow> u16 \<Rightarrow> u16 \<Rightarrow> virtio_queue \<Rightarrow> (u16 \<times> u16 \<times> virtio_queue) outcome" where
  "direct_loop [] i l q = Inr (i, l, q)"
| "direct_loop (b # bs) i l q =
     andThen (ASSERT (vd_flags (vq_desc q i) AND VRING_DESC_F_NEXT \<noteq> 0)) (\<lambda>_.
     direct_loop bs (vd_next (vq_desc q i)) i (put_desc i (use_vring_desc (vq_desc q i) b) q))"

definition set_direct_descriptors :: "addr_size list \<Rightarrow> virtio_queue \<Rightarrow> virtio_queue outcome" where
  "set_direct_descriptors bufs q =
     andThen (ASSERT (bufs \<noteq> [])) (\<lambda>_.
     andThen (direct_loop bufs (vq_free_head q) 0 q) (\<lambda>(i, l, q1).
     let vd = vq_desc q1 l;
         q2 = put_desc l (vd\<lparr>vd_flags := vd_flags vd AND NOT VRING_DESC_F_NEXT\<rparr>) q1
     in Inr (q2\<lparr>vq_free_num := vq_free_num q2 - of_nat (length bufs), vq_free_head := i\<rparr>)))"

text \<open>The first table that is not in use; without tables \<open>desc\<close> stays NULL.\<close>

primrec find_unused :: "indirect_desc_table list \<Rightarrow> nat \<Rightarrow> nat option" where
  "find_unused [] i = None"
| "find_unused (t # ts) i = (if \<not> in_use t then Some i else find_unused ts (Suc i))"

primrec fill_indirect :: "addr_size list \<Rightarrow> nat \<Rightarrow> (nat \<Rightarrow> vring_desc) \<Rightarrow> (nat \<Rightarrow> vring_desc)" where
  "fill_indirect [] i d = d"
| "fill_indirect (b # bs) i d = fill_indirect bs (Suc i) (d(i := (use_vring_desc (d i) b)\<lparr>vd_next := of_nat (Suc i)\<rparr>))"

definition set_indirect_descriptors :: "addr_size list \<Rightarrow> virtio_queue \<Rightarrow> 'w virtio_dev \<Rightarrow> (virtio_queue \<times> 'w virtio_dev) outcome" where
  "set_indirect_descriptors bufs q dev =
     andThen (ASSERT (indirect dev \<noteq> [])) (\<lambda>_.
     case find_unused (indirect dev) 0 of
       None \<Rightarrow> panic
     | Some i \<Rightarrow>
         let tab = indirect dev ! i;
             hd_i = vq_free_head q;
             vd = (vq_desc q hd_i)\<lparr>vd_flags := VRING_DESC_F_INDIRECT, vd_addr := id_paddr tab, vd_len := of_nat (length bufs * 16)\<rparr>
         in andThen (ASSERT (bufs \<noteq> [])) (\<lambda>_.
            if length bufs > 256 then Inl Out_of_bounds
            else
              let d = fill_indirect bufs 0 (id_descs tab);
                  l = length bufs - 1;
                  d' = d(l := (d l)\<lparr>vd_flags := vd_flags (d l) AND NOT VRING_DESC_F_NEXT\<rparr>);
                  q1 = put_desc hd_i vd q
              in Inr (q1\<lparr>vq_free_num := vq_free_num q1 - 1, vq_free_head := vd_next vd\<rparr>,
                      dev\<lparr>indirect := (indirect dev)[i := tab\<lparr>in_use := True, id_descs := d'\<rparr>]\<rparr>)))"

definition wants_kick :: "virtio_queue \<Rightarrow> 'w virtio_dev \<Rightarrow> bool \<times> 'w virtio_dev" where
  "wants_kick q dev = (True, dev\<lparr>showTcp := uint (vq_avail_idx q) > uint (vq_used_idx q) + 5\<rparr>)"

definition kick_queue :: "int \<Rightarrow> 'w virtio_dev \<Rightarrow> 'w virtio_dev outcome" where
  "kick_queue qidx dev =
     andThen (ASSERT (0 \<le> qidx \<and> qidx < uint (num_queues dev))) (\<lambda>_.
     andThen (get_queue qidx dev) (\<lambda>q.
     case wants_kick q dev of (k, dev1) \<Rightarrow>
     Inr (if k then virtio_conf_writew 16 (of_int qidx) dev1 else dev1)))"

section \<open>Taking buffers back\<close>

definition virtio_queue_disable_intr :: "virtio_queue \<Rightarrow> virtio_queue" where
  "virtio_queue_disable_intr q = q\<lparr>vq_avail_flags := VRING_AVAIL_F_NO_INTERRUPT\<rparr>"

definition virtio_queue_enable_intr :: "virtio_queue \<Rightarrow> virtio_queue" where
  "virtio_queue_enable_intr q = q\<lparr>vq_avail_flags := 0\<rparr>"

primrec release_table :: "ulong \<Rightarrow> indirect_desc_table list \<Rightarrow> indirect_desc_table list outcome" where
  "release_table a [] = panic"
| "release_table a (t # ts) =
     (if id_paddr t = a then andThen (ASSERT (in_use t)) (\<lambda>_. Inr (t\<lparr>in_use := False\<rparr> # ts))
      else andThen (release_table a ts) (\<lambda>ts'. Inr (t # ts')))"

definition clear_indirect_table :: "vring_desc \<Rightarrow> indirect_desc_table list \<Rightarrow> (vring_desc \<times> indirect_desc_table list) outcome" where
  "clear_indirect_table vd tabs =
     andThen (ASSERT (vd_len vd > 0)) (\<lambda>_.
     andThen (ASSERT (vd_flags vd AND VRING_DESC_F_INDIRECT \<noteq> 0)) (\<lambda>_.
     andThen (release_table (vd_addr vd) tabs) (\<lambda>tabs'.
     Inr (vd\<lparr>vd_flags := vd_flags vd AND NOT VRING_DESC_F_INDIRECT, vd_len := 0\<rparr>, tabs'))))"

text \<open>What the loop and the lines behind it do with a descriptor that may be an indirect one.\<close>

definition clear_if_indirect :: "u16 \<Rightarrow> virtio_queue \<Rightarrow> indirect_desc_table list \<Rightarrow> (virtio_queue \<times> indirect_desc_table list) outcome" where
  "clear_if_indirect i q tabs =
     (if vd_flags (vq_desc q i) AND VRING_DESC_F_INDIRECT \<noteq> 0
      then andThen (clear_indirect_table (vq_desc q i) tabs) (\<lambda>(vd, tabs'). Inr (put_desc i vd q, tabs'))
      else Inr (q, tabs))"

text \<open>The loop to the end of a chain; on a chain without end it does not return.\<close>

partial_function (option) chain_loop ::
  "u16 \<Rightarrow> int \<Rightarrow> virtio_queue \<Rightarrow> indirect_desc_table list \<Rightarrow> (u16 \<times> int \<times> virtio_queue \<times> indirect_desc_table list) outcome option" where
  "chain_loop i count q tabs =
     (if vd_flags (vq_desc q i) AND VRING_DESC_F_NEXT \<noteq> 0
      then (case clear_if_indirect i q tabs of
              Inl e \<Rightarrow> Some (Inl e)
            | Inr (q1, tabs1) \<Rightarrow> chain_loop (vd_next (vq_desc q1 i)) (count + 1) q1 tabs1)
      else Some (Inr (i, count, q, tabs)))"

declare chain_loop.simps [code]

text \<open>
  The parts of \<open>virtio_from_queue\<close>: advancing \<open>last_used\<close>, linking the tail of the free list to the chain,
  making the end of the chain the new tail, and handing out the data.
\<close>

definition next_used :: "virtio_queue \<Rightarrow> virtio_queue" where
  "next_used q = q\<lparr>vq_last_used := ucast ((ucast (vq_last_used q) + 1) mod ucast (vq_num q) :: u32)\<rparr>"

definition link_tail :: "u16 \<Rightarrow> virtio_queue \<Rightarrow> virtio_queue" where
  "link_tail idx q = put_desc (vq_free_tail q) ((vq_desc q (vq_free_tail q))\<lparr>vd_next := idx\<rparr>) q"

definition join_free :: "u16 \<Rightarrow> int \<Rightarrow> virtio_queue \<Rightarrow> virtio_queue" where
  "join_free l count q =
     (put_desc l ((vq_desc q l)\<lparr>vd_next := vq_free_head q, vd_flags := VRING_DESC_F_NEXT\<rparr>) q)
       \<lparr>vq_free_tail := l, vq_free_num := vq_free_num q + of_int count\<rparr>"

definition finish_used :: "u32 \<Rightarrow> virtio_queue \<Rightarrow> virtio_queue" where
  "finish_used i q =
     (let q1 = virtio_queue_enable_intr (q\<lparr>vq_data := (vq_data q)(i := 0), vq_last_used_idx := vq_last_used_idx q + 1\<rparr>)
      in if vq_avail_flags q1 AND VRING_AVAIL_F_NO_INTERRUPT = 0
         then q1\<lparr>vq_used_event := ucast (vq_last_used_idx q1)\<rparr> else q1)"

text \<open>The result is \<open>None\<close> for the return value -1, and the data and the length for 0.\<close>

definition virtio_from_queue :: "int \<Rightarrow> 'w virtio_dev \<Rightarrow> ((ulong \<times> ulong) option \<times> 'w virtio_dev) outcome" where
  "virtio_from_queue qidx dev =
     andThen (ASSERT (0 \<le> qidx \<and> qidx < uint (num_queues dev))) (\<lambda>_.
     andThen (get_queue qidx dev) (\<lambda>q.
     if vq_last_used q = vq_used_idx q mod vq_num q then Inr (None, dev)
     else
       let uel = vq_used q (vq_last_used q);
           q1 = next_used q;
           idx = ucast (ue_id uel mod ucast (vq_num q1)) :: u16
       in andThen (ASSERT (vq_data q1 (ucast idx) \<noteq> 0)) (\<lambda>_.
          andThen (ASSERT (vd_flags (vq_desc q1 (vq_free_tail q1)) AND VRING_DESC_F_NEXT \<noteq> 0)) (\<lambda>_.
          andThen (ending (chain_loop idx 0 (link_tail idx q1) (indirect dev))) (\<lambda>r.
          andThen r (\<lambda>(l, count, q3, tabs3).
          andThen (clear_if_indirect l q3 tabs3) (\<lambda>(q4, tabs4).
          andThen (ASSERT (vd_flags (vq_desc q4 l) AND VRING_DESC_F_NEXT = 0)) (\<lambda>_.
          let q7 = join_free l (count + 1) q4
          in andThen (ASSERT (vq_free_num q7 \<le> vq_num q7)) (\<lambda>_.
             Inr (Some (vq_data q7 (ue_id uel), ucast (ue_len uel)),
                  put_queue qidx (finish_used (ue_id uel) q7) (dev\<lparr>indirect := tabs4\<rparr>)))))))))))"

text \<open>The callbacks of the drivers, called by address with the data and the length.\<close>

type_synonym 'w callbacks = "ulong \<Rightarrow> ulong \<Rightarrow> ulong \<Rightarrow> 'w virtio_dev \<Rightarrow> 'w virtio_dev outcome"

definition call_back :: "'w callbacks \<Rightarrow> int \<Rightarrow> ulong \<Rightarrow> ulong \<Rightarrow> 'w virtio_dev \<Rightarrow> 'w virtio_dev outcome" where
  "call_back cb qidx data len dev =
     andThen (get_queue qidx dev) (\<lambda>q.
     if vq_callback q = 0 then Inl Null_dereference else cb (vq_callback q) data len dev)"

partial_function (option) read_loop :: "'w callbacks \<Rightarrow> int \<Rightarrow> 'w virtio_dev \<Rightarrow> 'w virtio_dev outcome option" where
  "read_loop cb qidx dev =
     (case virtio_from_queue qidx dev of
        Inl e \<Rightarrow> Some (Inl e)
      | Inr (None, dev1) \<Rightarrow> Some (Inr dev1)
      | Inr (Some (data, len), dev1) \<Rightarrow>
          (case call_back cb qidx data len dev1 of
             Inl e \<Rightarrow> Some (Inl e)
           | Inr dev2 \<Rightarrow> read_loop cb qidx dev2))"

declare read_loop.simps [code]

definition virtio_read_queue :: "'w callbacks \<Rightarrow> int \<Rightarrow> 'w virtio_dev \<Rightarrow> 'w virtio_dev outcome" where
  "virtio_read_queue cb qidx dev =
     andThen (ASSERT (0 \<le> qidx \<and> qidx < uint (num_queues dev))) (\<lambda>_.
     andThen (ending (read_loop cb qidx dev)) (\<lambda>r. r))"

text \<open>
  \<open>virtio_to_queue\<close>: the array \<open>bufs\<close> of \<open>num\<close> entries is a list. \<open>left\<close> is computed in \<open>int\<close>; the result is 0 or
  \<open>EAGAIN\<close>.
\<close>

abbreviation (input) EAGAIN :: int where "EAGAIN \<equiv> 11"

definition post :: "int \<Rightarrow> addr_size list \<Rightarrow> ulong \<Rightarrow> 'w virtio_dev \<Rightarrow> (int \<times> 'w virtio_dev) outcome" where
  "post qidx bufs data dev =
     andThen (get_queue qidx dev) (\<lambda>q.
     let free_first = vq_free_head q;
         left = uint (vq_free_num q) - sint (of_nat (length bufs) :: u32)
     in if left \<le> 0 then Inr (EAGAIN, dev)
        else
          andThen (if length bufs > 1 \<and> left < threads dev then set_indirect_descriptors bufs q dev
                   else andThen (set_direct_descriptors bufs q) (\<lambda>q1. Inr (q1, dev))) (\<lambda>(q1, dev1).
          let q2 = q1\<lparr>vq_avail := (vq_avail q1)(vq_avail_idx q1 mod vq_num q1 := free_first),
                      vq_data := (vq_data q1)(ucast free_first := data),
                      vq_avail_idx := vq_avail_idx q1 + 1\<rparr>
          in andThen (kick_queue qidx (put_queue qidx q2 dev1)) (\<lambda>dev2. Inr (0, dev2))))"

definition virtio_to_queue :: "'w callbacks \<Rightarrow> int \<Rightarrow> addr_size list \<Rightarrow> ulong \<Rightarrow> 'w virtio_dev \<Rightarrow> (int \<times> 'w virtio_dev) outcome" where
  "virtio_to_queue cb qidx bufs data dev =
     andThen (ASSERT (0 \<le> qidx \<and> qidx \<le> uint (num_queues dev))) (\<lambda>_.
     if data = 0 then panic
     else andThen (get_queue qidx dev) (\<lambda>q.
          andThen (if uint (vq_free_num q) + 4 < uint (vq_num q) then virtio_read_queue cb qidx dev else Inr dev)
            (post qidx bufs data)))"

end
