(* ===== verification/Virtio_Queue.thy ===== *)
theory Virtio_Queue
  imports Virtio
begin

text \<open>
  What a virtio queue promises: the descriptors are at every moment divided between the free list and
  the chains the device owns, a chain describes the buffers it was posted with, and the device gets and
  returns the chains in the order of the rings. The abstraction of a queue is the record \<open>aqueue\<close>; every
  operation of the library is shown to act on it.
\<close>

section \<open>Chains of descriptors\<close>

fun chained :: "(u16 \<Rightarrow> vring_desc) \<Rightarrow> u16 list \<Rightarrow> bool" where
  "chained d (x # y # ys) \<longleftrightarrow> vd_next (d x) = y \<and> chained d (y # ys)"
| "chained d _ \<longleftrightarrow> True"

lemma chained_Cons: "chained d (x # xs) \<longleftrightarrow> (xs = [] \<or> vd_next (d x) = hd xs) \<and> chained d xs"
  by (cases xs) auto

lemma chained_append:
  "chained d (xs @ ys) \<longleftrightarrow> chained d xs \<and> chained d ys \<and> (xs = [] \<or> ys = [] \<or> vd_next (d (last xs)) = hd ys)"
  by (induction xs) (auto simp: chained_Cons)

lemma chained_cong:
  assumes "\<And>x. x \<in> set (butlast xs) \<Longrightarrow> vd_next (d' x) = vd_next (d x)"
  shows "chained d' xs = chained d xs"
  using assms
proof (induction xs)
  case (Cons x xs)
  then show ?case by (cases "xs = []") (simp_all add: chained_Cons)
qed simp

lemma chained_frame:
  assumes "\<And>x. x \<in> set xs \<Longrightarrow> vd_next (d' x) = vd_next (d x)"
  shows "chained d' xs = chained d xs"
  by (rule chained_cong) (meson assms in_set_butlastD)

text \<open>A descriptor that describes a buffer, followed by another one or not.\<close>

definition desc_is :: "vring_desc \<Rightarrow> addr_size \<Rightarrow> bool \<Rightarrow> bool" where
  "desc_is vd b cont \<longleftrightarrow> vd_addr vd = vp_addr b \<and> vd_len vd = vp_size b
     \<and> vd_flags vd = (if cont then 1 else 0) OR (if vp_flags b AND 2 \<noteq> 0 then 2 else 0)"

lemma flag_bits [simp]:
  "(1 :: u16) OR 2 = 3" "(3 :: u16) AND 1 = 1" "(3 :: u16) AND 4 = 0" "(2 :: u16) AND 1 = 0" "(2 :: u16) AND 4 = 0"
  "(1 :: u16) AND 4 = 0" "(3 :: u16) AND NOT 1 = 2" "(1 :: u16) AND NOT 1 = 0" "(4 :: u16) AND 1 = 0" "(4 :: u16) AND NOT 4 = 0"
  "(4 :: u16) AND 4 = 4"
  by simp_all


lemma desc_is_flags:
  assumes "desc_is vd b cont"
  shows "vd_flags vd AND 1 \<noteq> 0 \<longleftrightarrow> cont" "vd_flags vd AND 4 = 0"
  using assms by (auto simp: desc_is_def)

lemma use_vring_desc_is: "desc_is (use_vring_desc vd b) b True"
  by (simp add: desc_is_def use_vring_desc_def)

lemma use_vring_desc_last:
  "desc_is ((use_vring_desc vd b)\<lparr>vd_flags := vd_flags (use_vring_desc vd b) AND NOT 1\<rparr>) b False"
  by (simp add: desc_is_def use_vring_desc_def)

lemma use_vring_desc_next [simp]: "vd_next (use_vring_desc vd b) = vd_next vd"
  by (simp add: use_vring_desc_def)

text \<open>The chain \<open>c\<close> describes the buffers \<open>bs\<close>.\<close>

definition describes :: "(u16 \<Rightarrow> vring_desc) \<Rightarrow> u16 list \<Rightarrow> addr_size list \<Rightarrow> bool" where
  "describes d c bs \<longleftrightarrow> c \<noteq> [] \<and> length c = length bs \<and> chained d c
     \<and> (\<forall>k<length c. desc_is (d (c ! k)) (bs ! k) (Suc k < length c))"

lemma describes_frame:
  assumes "describes d c bs" "\<And>x. x \<in> set c \<Longrightarrow> d' x = d x"
  shows "describes d' c bs"
proof -
  have "chained d' c" using assms chained_frame [of c d' d] by (simp add: describes_def)
  then show ?thesis using assms by (auto simp: describes_def)
qed

lemma describes_Cons:
  assumes "describes d (x # c) (b # bs)" "c \<noteq> []"
  shows "desc_is (d x) b True" "vd_next (d x) = hd c" "describes d c bs"
proof -
  show "desc_is (d x) b True" using assms(1) [unfolded describes_def] assms(2) by (cases bs) (auto dest!: spec [of _ 0])
  show "vd_next (d x) = hd c" using assms by (simp add: describes_def chained_Cons)
  have "desc_is (d (c ! k)) (bs ! k) (Suc k < length c)" if "k < length c" for k
    using assms(1) that by (auto simp: describes_def dest!: spec [of _ "Suc k"])
  then show "describes d c bs" using assms by (simp add: describes_def chained_Cons)
qed

section \<open>The loops over chains\<close>

text \<open>The descriptors after the loop of \<open>set_direct_descriptors\<close> over the free descriptors \<open>xs\<close>.\<close>

definition apply_bufs :: "(u16 \<Rightarrow> vring_desc) \<Rightarrow> u16 list \<Rightarrow> addr_size list \<Rightarrow> u16 \<Rightarrow> vring_desc" where
  "apply_bufs d xs bs i = (case map_of (zip xs bs) i of None \<Rightarrow> d i | Some b \<Rightarrow> use_vring_desc (d i) b)"

lemma apply_bufs_out: "i \<notin> set xs \<Longrightarrow> apply_bufs d xs bs i = d i"
  by (auto simp: apply_bufs_def split: option.splits dest!: map_of_SomeD set_zip_leftD)

lemma apply_bufs_in:
  assumes "distinct xs" "length xs = length bs" "k < length xs"
  shows "apply_bufs d xs bs (xs ! k) = use_vring_desc (d (xs ! k)) (bs ! k)"
  using assms by (simp add: apply_bufs_def map_of_zip_nth)

lemma apply_bufs_step:
  assumes "x \<notin> set xs"
  shows "apply_bufs (d(x := use_vring_desc (d x) b)) xs bs = apply_bufs d (x # xs) (b # bs)"
  using assms apply_bufs_out [of x xs "d(x := use_vring_desc (d x) b)" bs]
  by (auto simp: apply_bufs_def fun_eq_iff split: option.splits)

lemma apply_bufs_next [simp]: "vd_next (apply_bufs d xs bs i) = vd_next (d i)"
  by (simp add: apply_bufs_def split: option.splits)

lemma direct_loop_eq:
  assumes "length xs = length bs" "distinct xs" "chained (vq_desc q) (xs @ r # rs)"
    "\<forall>x\<in>set xs. vd_flags (vq_desc q x) AND 1 \<noteq> 0" "i = hd (xs @ [r])"
  shows "direct_loop bs i l q = Inr (r, last (l # xs), q\<lparr>vq_desc := apply_bufs (vq_desc q) xs bs\<rparr>)"
  using assms
proof (induction bs arbitrary: xs i l q)
  case Nil
  then show ?case by (simp add: apply_bufs_def [abs_def])
next
  case (Cons b bs)
  then obtain x ys where xs: "xs = x # ys" by (cases xs) auto
  define q1 where "q1 = put_desc x (use_vring_desc (vq_desc q x) b) q"
  have d1: "vq_desc q1 = (vq_desc q)(x := use_vring_desc (vq_desc q x) b)" by (simp add: q1_def put_desc_def)
  have nx: "vd_next (vq_desc q x) = hd (ys @ [r])" using Cons.prems(3) xs by (cases ys) auto
  have "chained (vq_desc q1) (ys @ r # rs)"
    using Cons.prems(3) xs chained_frame [of "ys @ r # rs" "vq_desc q1" "vq_desc q"] by (auto simp: d1 chained_Cons)
  moreover have "\<forall>y\<in>set ys. vd_flags (vq_desc q1 y) AND 1 \<noteq> 0" using Cons.prems(2,4) xs by (auto simp: d1)
  ultimately have "direct_loop bs (hd (ys @ [r])) x q1 = Inr (r, last (x # ys), q1\<lparr>vq_desc := apply_bufs (vq_desc q1) ys bs\<rparr>)"
    using Cons.prems xs by (intro Cons.IH) simp_all
  moreover have "q1\<lparr>vq_desc := apply_bufs (vq_desc q1) ys bs\<rparr> = q\<lparr>vq_desc := apply_bufs (vq_desc q) xs (b # bs)\<rparr>"
    using Cons.prems(2) xs apply_bufs_step [of x ys "vq_desc q" b bs] by (simp add: d1) (simp add: q1_def put_desc_def)
  ultimately show ?case using Cons.prems(4,5) xs nx by (simp add: q1_def)
qed

lemma clear_if_direct:
  assumes "vd_flags (vq_desc q i) AND 4 = 0"
  shows "clear_if_indirect i q tabs = Inr (q, tabs)"
  using assms by (simp add: clear_if_indirect_def)

lemma chain_loop_direct:
  assumes "describes (vq_desc q) c bs"
  shows "chain_loop (hd c) n q tabs = Some (Inr (last c, n + int (length c) - 1, q, tabs))"
  using assms
proof (induction c arbitrary: bs n)
  case Nil
  then show ?case by (simp add: describes_def)
next
  case (Cons x c)
  then obtain b bs' where bs: "bs = b # bs'" by (cases bs) (auto simp: describes_def)
  show ?case
  proof (cases "c = []")
    case True
    then have "desc_is (vq_desc q x) b False" using Cons.prems bs by (auto simp: describes_def)
    then show ?thesis using True desc_is_flags(1) by (subst chain_loop.simps) auto
  next
    case False
    note D = describes_Cons [OF Cons.prems [unfolded bs] False]
    have "chain_loop (hd c) (n + 1) q tabs = Some (Inr (last c, n + 1 + int (length c) - 1, q, tabs))"
      using Cons.IH D(3) by blast
    then show ?thesis
      using False D(2) desc_is_flags [OF D(1)] clear_if_direct by (subst chain_loop.simps) simp
  qed
qed

section \<open>The abstraction of a queue\<close>

text \<open>
  A chain the device owns: its descriptors, the buffers and the data it was posted with, and the table of
  indirect descriptors it uses. A queue: the free descriptors from head to tail, the chains, how
  many entries of the avail ring the device has fetched, the heads it has not fetched yet, and the heads
  (with lengths) it has returned and the driver has not taken.
\<close>

record inflight =
  fl_chain :: "u16 list"
  fl_bufs :: "addr_size list"
  fl_data :: ulong
  fl_tab :: "nat option"

record aqueue =
  aq_free :: "u16 list"
  aq_flight :: "inflight list"
  aq_seen :: nat
  aq_posted :: "u16 list"
  aq_done :: "(u16 \<times> u32) list"

definition fl_head :: "inflight \<Rightarrow> u16" where
  "fl_head f = hd (fl_chain f)"

definition parts :: "aqueue \<Rightarrow> u16 list" where
  "parts a = aq_free a @ concat (map fl_chain (aq_flight a))"

definition pow2_num :: "virtio_queue \<Rightarrow> bool" where
  "pow2_num q \<longleftrightarrow> (\<exists>k<16. unat (vq_num q) = 2 ^ k)"

definition split_ok :: "virtio_queue \<Rightarrow> aqueue \<Rightarrow> bool" where
  "split_ok q a \<longleftrightarrow> distinct (parts a) \<and> set (parts a) = {i. i < vq_num q}"

definition free_ok :: "virtio_queue \<Rightarrow> aqueue \<Rightarrow> bool" where
  "free_ok q a \<longleftrightarrow> aq_free a \<noteq> [] \<and> vq_free_head q = hd (aq_free a) \<and> vq_free_tail q = last (aq_free a)
     \<and> unat (vq_free_num q) = length (aq_free a) \<and> chained (vq_desc q) (aq_free a)
     \<and> (\<forall>i\<in>set (aq_free a). vd_flags (vq_desc q i) AND 1 \<noteq> 0)"

definition indirect_is :: "vring_desc \<Rightarrow> nat \<Rightarrow> indirect_desc_table list \<Rightarrow> addr_size list \<Rightarrow> bool" where
  "indirect_is vd k tabs bs \<longleftrightarrow> k < length tabs \<and> in_use (tabs ! k) \<and> vd_flags vd = 4
     \<and> vd_addr vd = id_paddr (tabs ! k) \<and> vd_len vd = of_nat (length bs * 16) \<and> bs \<noteq> [] \<and> length bs \<le> 256
     \<and> (\<forall>i<length bs. desc_is (id_descs (tabs ! k) i) (bs ! i) (Suc i < length bs)
            \<and> vd_next (id_descs (tabs ! k) i) = of_nat (Suc i))"

definition flight_ok :: "virtio_queue \<Rightarrow> indirect_desc_table list \<Rightarrow> inflight \<Rightarrow> bool" where
  "flight_ok q tabs f \<longleftrightarrow> fl_data f \<noteq> 0 \<and> vq_data q (ucast (fl_head f)) = fl_data f
     \<and> (case fl_tab f of
          None \<Rightarrow> describes (vq_desc q) (fl_chain f) (fl_bufs f)
        | Some k \<Rightarrow> fl_chain f = [fl_head f] \<and> indirect_is (vq_desc q (fl_head f)) k tabs (fl_bufs f))"

definition avail_ok :: "virtio_queue \<Rightarrow> aqueue \<Rightarrow> bool" where
  "avail_ok q a \<longleftrightarrow>
     unat (vq_avail_idx q) mod unat (vq_num q) = (aq_seen a + length (aq_posted a)) mod unat (vq_num q)
   \<and> (\<forall>k<length (aq_posted a). vq_avail q (of_nat ((aq_seen a + k) mod unat (vq_num q))) = aq_posted a ! k)"

definition used_ok :: "virtio_queue \<Rightarrow> aqueue \<Rightarrow> bool" where
  "used_ok q a \<longleftrightarrow> vq_last_used q < vq_num q
   \<and> unat (vq_used_idx q) mod unat (vq_num q) = (unat (vq_last_used q) + length (aq_done a)) mod unat (vq_num q)
   \<and> (\<forall>k<length (aq_done a). vq_used q (of_nat ((unat (vq_last_used q) + k) mod unat (vq_num q)))
          = \<lparr>ue_id = ucast (fst (aq_done a ! k)), ue_len = snd (aq_done a ! k)\<rparr>)"

definition heads_ok :: "aqueue \<Rightarrow> bool" where
  "heads_ok a \<longleftrightarrow> distinct (aq_posted a @ map fst (aq_done a))
     \<and> set (aq_posted a @ map fst (aq_done a)) \<subseteq> fl_head ` set (aq_flight a)"

definition vq_rep :: "virtio_queue \<Rightarrow> indirect_desc_table list \<Rightarrow> aqueue \<Rightarrow> bool" where
  "vq_rep q tabs a \<longleftrightarrow> pow2_num q \<and> split_ok q a \<and> free_ok q a \<and> (\<forall>f\<in>set (aq_flight a). flight_ok q tabs f)
     \<and> heads_ok a \<and> avail_ok q a \<and> used_ok q a"

section \<open>Counting and ring positions\<close>

lemma unat_16: "unat (w :: u16) < 65536"
  using unsigned_less [of w] by simp

lemma pos_unat: "n < unat (w :: u16) \<Longrightarrow> unat (of_nat n :: u16) = n"
  using unat_16 [of w] by (simp add: unat_of_nat)

lemma card_below: "card {i :: u16. i < n} = unat n"
proof -
  have "{i :: u16. i < n} = of_nat ` {..<unat n}"
  proof (intro set_eqI iffI)
    fix i assume "i \<in> {i. i < n}"
    then have "i = of_nat (unat i)" "unat i < unat n" by (simp_all add: word_less_nat_alt)
    then show "i \<in> of_nat ` {..<unat n}" by blast
  next
    fix i :: u16 assume "i \<in> of_nat ` {..<unat n}"
    then obtain k where "k < unat n" "i = of_nat k" by blast
    moreover have "k < 65536" using \<open>k < unat n\<close> unat_16 [of n] by linarith
    ultimately show "i \<in> {i. i < n}" by (simp add: word_less_nat_alt unat_of_nat)
  qed
  moreover have "inj_on (of_nat :: nat \<Rightarrow> u16) {..<unat n}"
    by (rule inj_on_inverseI [where g = unat]) (simp add: pos_unat)
  ultimately show ?thesis by (simp add: card_image)
qed

lemma parts_length: "split_ok q a \<Longrightarrow> length (parts a) = unat (vq_num q)"
  using distinct_card [of "parts a"] by (simp add: split_ok_def card_below)

lemma flight_nonempty: "flight_ok q tabs f \<Longrightarrow> fl_chain f \<noteq> []"
  by (auto simp: flight_ok_def describes_def split: option.splits)

lemma length_le_concat: "(\<forall>x\<in>set xs. x \<noteq> []) \<Longrightarrow> length xs \<le> length (concat xs)"
proof (induction xs)
  case (Cons x xs)
  then show ?case by (cases x) auto
qed simp

lemma flights_bound:
  assumes "vq_rep q tabs a"
  shows "length (aq_flight a) < unat (vq_num q)"
proof -
  have "length (parts a) = unat (vq_num q)" "aq_free a \<noteq> []" using assms parts_length by (auto simp: vq_rep_def free_ok_def)
  moreover have "length (map fl_chain (aq_flight a)) \<le> length (concat (map fl_chain (aq_flight a)))"
    using assms flight_nonempty by (intro length_le_concat) (auto simp: vq_rep_def)
  ultimately show ?thesis by (cases "aq_free a") (auto simp: parts_def)
qed

lemma pending_bound:
  assumes "vq_rep q tabs a"
  shows "length (aq_posted a) + length (aq_done a) \<le> length (aq_flight a)"
proof -
  have "length (aq_posted a @ map fst (aq_done a)) = card (set (aq_posted a @ map fst (aq_done a)))"
    using assms distinct_card [of "aq_posted a @ map fst (aq_done a)"] by (simp add: vq_rep_def heads_ok_def)
  also have "\<dots> \<le> card (fl_head ` set (aq_flight a))"
    using assms by (intro card_mono) (auto simp: vq_rep_def heads_ok_def)
  also have "\<dots> \<le> length (aq_flight a)" by (meson card_image_le card_length finite_set le_trans)
  finally show ?thesis by simp
qed

lemma num_dvd: "pow2_num q \<Longrightarrow> unat (vq_num q) dvd 65536"
proof -
  assume "pow2_num q"
  then obtain k where "k < 16" "unat (vq_num q) = 2 ^ k" by (auto simp: pow2_num_def)
  moreover have "(2 :: nat) ^ k dvd 2 ^ 16" using \<open>k < 16\<close> by (intro le_imp_power_dvd) simp
  ultimately show ?thesis by simp
qed

lemma num_pos: "pow2_num q \<Longrightarrow> 0 < unat (vq_num q)"
  by (auto simp: pow2_num_def)

lemma idx_suc_mod:
  assumes "pow2_num q"
  shows "unat (i + 1 :: u16) mod unat (vq_num q) = Suc (unat i) mod unat (vq_num q)"
proof -
  have "unat (i + 1) = Suc (unat i) mod 65536" by (simp add: unat_word_ariths)
  then show ?thesis using mod_mod_cancel [OF num_dvd [OF assms]] by simp
qed

lemma pos_inj:
  assumes "pow2_num q" "k < unat (vq_num q)" "l < unat (vq_num q)" "k \<noteq> l"
  shows "(of_nat ((s + k) mod unat (vq_num q)) :: u16) \<noteq> of_nat ((s + l) mod unat (vq_num q))"
proof
  assume "(of_nat ((s + k) mod unat (vq_num q)) :: u16) = of_nat ((s + l) mod unat (vq_num q))"
  then have "(s + k) mod unat (vq_num q) = (s + l) mod unat (vq_num q)"
    using pos_unat num_pos [OF assms(1)] by (metis mod_less_divisor)
  then show False using assms(2-4) mod_eq_dvd_iff_nat [of "s + k" "s + l" "unat (vq_num q)"]
      mod_eq_dvd_iff_nat [of "s + l" "s + k" "unat (vq_num q)"] by (cases "k < l") (auto dest!: dvd_imp_le)
qed

section \<open>Posting\<close>

definition apost :: "u16 list \<Rightarrow> addr_size list \<Rightarrow> ulong \<Rightarrow> nat option \<Rightarrow> aqueue \<Rightarrow> aqueue" where
  "apost c bs data tab a = a\<lparr>aq_free := drop (length c) (aq_free a),
     aq_flight := \<lparr>fl_chain = c, fl_bufs = bs, fl_data = data, fl_tab = tab\<rparr> # aq_flight a,
     aq_posted := aq_posted a @ [hd c]\<rparr>"

definition posted_queue :: "u16 \<Rightarrow> ulong \<Rightarrow> virtio_queue \<Rightarrow> virtio_queue" where
  "posted_queue h data q = q\<lparr>vq_avail := (vq_avail q)(vq_avail_idx q mod vq_num q := h),
     vq_data := (vq_data q)(ucast h := data), vq_avail_idx := vq_avail_idx q + 1\<rparr>"

lemma head_in_chain: "flight_ok q tabs f \<Longrightarrow> fl_head f \<in> set (fl_chain f)"
  using flight_nonempty by (auto simp: fl_head_def)

lemma free_not_flight:
  assumes "split_ok q a" "x \<in> set (aq_free a)" "f \<in> set (aq_flight a)"
  shows "x \<notin> set (fl_chain f)"
  using assms by (auto simp: split_ok_def parts_def)

lemma parts_apost:
  assumes "aq_free a = c @ ds"
  shows "set (parts (apost c bs data tab a)) = set (parts a)" "distinct (parts (apost c bs data tab a)) \<longleftrightarrow> distinct (parts a)"
  using assms by (auto simp: parts_def apost_def)

lemma u16_of_unat: "unat i = n \<Longrightarrow> (i :: u16) = of_nat n"
  by auto

lemma u16_u32 [simp]: "(ucast (ucast (x :: u16) :: u32) :: u16) = x"
  by (rule bit_word_eqI) (simp add: bit_simps)

lemma u16_u32_inj [simp]: "(ucast (x :: u16) :: u32) = ucast y \<longleftrightarrow> x = y"
  by (metis u16_u32)

lemma avail_post:
  assumes "vq_rep q tabs a" "vq_avail q1 = vq_avail q" "vq_avail_idx q1 = vq_avail_idx q" "vq_num q1 = vq_num q"
    "c \<noteq> []"
  shows "avail_ok (posted_queue (hd c) data q1) (apost c bs data tab a)"
proof -
  let ?N = "unat (vq_num q)" and ?n = "length (aq_posted a)"
  have p2: "pow2_num q" and av: "avail_ok q a" using assms(1) by (auto simp: vq_rep_def)
  have n: "?n < ?N" using flights_bound [OF assms(1)] pending_bound [OF assms(1)] by simp
  have pos: "vq_avail_idx q mod vq_num q = of_nat ((aq_seen a + ?n) mod ?N)"
    using av by (intro u16_of_unat) (simp add: avail_ok_def unat_mod)
  have "of_nat ((aq_seen a + k) mod ?N) \<noteq> (of_nat ((aq_seen a + ?n) mod ?N) :: u16)" if "k < ?n" for k
    using pos_inj [OF p2, of k ?n] that n by simp
  then have "vq_avail (posted_queue (hd c) data q1) (of_nat ((aq_seen a + k) mod ?N)) = aq_posted (apost c bs data tab a) ! k"
    if "k < Suc ?n" for k
    using av that assms(2-4) by (cases "k = ?n") (auto simp: posted_queue_def apost_def avail_ok_def nth_append pos)
  moreover have "unat (vq_avail_idx q + 1) mod ?N = (aq_seen a + Suc ?n) mod ?N"
    using av idx_suc_mod [OF p2, of "vq_avail_idx q"] by (metis add_Suc_right avail_ok_def mod_Suc_eq)
  ultimately show ?thesis using assms(3,4) by (simp add: avail_ok_def) (simp add: posted_queue_def apost_def)
qed

lemma flight_post:
  assumes "flight_ok q tabs f" "h \<notin> set (fl_chain f)"
    "\<And>x. x \<in> set (fl_chain f) \<Longrightarrow> vq_desc q1 x = vq_desc q x" "vq_data q1 = vq_data q"
    "\<And>k. fl_tab f = Some k \<Longrightarrow> k < length tabs1 \<and> tabs1 ! k = tabs ! k"
  shows "flight_ok (posted_queue h data q1) tabs1 f"
proof -
  have hd: "fl_head f \<in> set (fl_chain f)" using head_in_chain [OF assms(1)] .
  then have "fl_head f \<noteq> h" using assms(2) by blast
  then have "vq_data (posted_queue h data q1) (ucast (fl_head f)) = fl_data f"
    using assms(1,4) by (simp add: posted_queue_def flight_ok_def)
  moreover have "describes (vq_desc q) (fl_chain f) (fl_bufs f) \<Longrightarrow> describes (vq_desc q1) (fl_chain f) (fl_bufs f)"
    using describes_frame assms(3) by blast
  ultimately show ?thesis using assms(1,3,5) hd
    by (auto simp: flight_ok_def posted_queue_def indirect_is_def split: option.splits)
qed

lemma post_rep:
  fixes q :: virtio_queue
  defines "q1 \<equiv> \<lambda>d1 fn r. q\<lparr>vq_desc := d1, vq_free_num := fn, vq_free_head := r\<rparr>"
  assumes rep: "vq_rep q tabs a" and free: "aq_free a = c @ ds" "c \<noteq> []" "ds \<noteq> []" and data: "data \<noteq> 0"
    and out: "\<And>x. x \<notin> set c \<Longrightarrow> d1 x = vq_desc q x" and num: "unat fn = length ds"
    and new: "case tab of None \<Rightarrow> describes d1 c bs | Some k \<Rightarrow> c = [hd c] \<and> indirect_is (d1 (hd c)) k tabs1 bs"
    and tabs: "\<And>f k. f \<in> set (aq_flight a) \<Longrightarrow> fl_tab f = Some k \<Longrightarrow> k < length tabs1 \<and> tabs1 ! k = tabs ! k"
  shows "vq_rep (posted_queue (hd c) data (q1 d1 fn (hd ds))) tabs1 (apost c bs data tab a)"
proof -
  let ?q = "q1 d1 fn (hd ds)"
  let ?a = "apost c bs data tab a" and ?q' = "posted_queue (hd c) data ?q"
  have sp: "split_ok q a" and fo: "free_ok q a" and ho: "heads_ok a" and uo: "used_ok q a" and p2: "pow2_num q"
    and fl: "\<And>f. f \<in> set (aq_flight a) \<Longrightarrow> flight_ok q tabs f"
    using rep by (auto simp: vq_rep_def)
  have dist: "set c \<inter> set ds = {}" using sp free(1) by (auto simp: split_ok_def parts_def)
  have hc: "hd c \<in> set (aq_free a)" using free by simp
  have "pow2_num ?q'" using p2 by (simp add: pow2_num_def posted_queue_def q1_def)
  moreover have "split_ok ?q' ?a"
    using sp parts_apost [OF free(1)] by (simp add: split_ok_def posted_queue_def q1_def)
  moreover have "free_ok ?q' ?a"
  proof -
    have same: "d1 x = vq_desc q x" if "x \<in> set ds" for x using dist out that by (metis disjoint_iff)
    have "chained d1 ds = chained (vq_desc q) ds" using same by (intro chained_frame) simp
    then have "chained d1 ds" using fo free by (simp add: free_ok_def chained_append)
    moreover have "\<forall>i\<in>set ds. vd_flags (d1 i) AND 1 \<noteq> 0" using fo free(1) same by (simp add: free_ok_def)
    ultimately show ?thesis using fo free num by (simp add: free_ok_def posted_queue_def apost_def q1_def)
  qed
  moreover have "flight_ok ?q' tabs1 f" if "f \<in> set (aq_flight ?a)" for f
  proof (cases "f \<in> set (aq_flight a)")
    case True
    have "\<And>x. x \<in> set (fl_chain f) \<Longrightarrow> x \<notin> set c" using free_not_flight [OF sp _ True] free(1) by auto
    then have "vq_desc ?q x = vq_desc q x" if "x \<in> set (fl_chain f)" for x using out that by (simp add: q1_def)
    moreover have "hd c \<notin> set (fl_chain f)" using free_not_flight [OF sp hc True] .
    ultimately show ?thesis using flight_post [OF fl [OF True]] tabs [OF True] by (simp add: q1_def)
  next
    case False
    then have f: "f = \<lparr>fl_chain = c, fl_bufs = bs, fl_data = data, fl_tab = tab\<rparr>" using that by (simp add: apost_def)
    show ?thesis using new data f by (simp add: flight_ok_def fl_head_def posted_queue_def q1_def split: option.splits)
  qed
  moreover have "heads_ok ?a"
  proof -
    have "hd c \<notin> fl_head ` set (aq_flight a)" using free_not_flight [OF sp hc] fl head_in_chain by (metis imageE)
    then show ?thesis using ho by (auto simp: heads_ok_def apost_def fl_head_def)
  qed
  moreover have "avail_ok ?q' ?a" by (rule avail_post [OF rep _ _ _ free(2)]) (simp_all add: q1_def)
  moreover have "used_ok ?q' ?a" using uo by (simp add: used_ok_def posted_queue_def apost_def q1_def)
  ultimately show ?thesis by (simp add: vq_rep_def)
qed

lemma describes_apply:
  assumes "distinct c" "length c = length bs" "c \<noteq> []" "chained d c"
  shows "describes ((apply_bufs d c bs)(last c := (apply_bufs d c bs (last c))\<lparr>vd_flags := vd_flags (apply_bufs d c bs (last c)) AND NOT 1\<rparr>)) c bs"
    (is "describes ?d c bs")
proof -
  have "chained ?d c = chained d c" by (rule chained_frame) simp
  moreover have "desc_is (?d (c ! k)) (bs ! k) (Suc k < length c)" if k: "k < length c" for k
  proof (cases "Suc k < length c")
    case True
    have "last c = c ! (length c - 1)" using assms(3) by (simp add: last_conv_nth)
    then have "c ! k \<noteq> last c" using assms(1) True k by (simp add: nth_eq_iff_index_eq)
    then show ?thesis using True apply_bufs_in [OF assms(1,2) k] use_vring_desc_is by simp
  next
    case False
    then have "k = length c - 1" using k by simp
    then have "c ! k = last c" using assms(3) by (simp add: last_conv_nth)
    then show ?thesis using False apply_bufs_in [OF assms(1,2) k, of d] use_vring_desc_last [of "d (c ! k)" "bs ! k"] by simp
  qed
  ultimately show ?thesis using assms(2-4) by (simp add: describes_def)
qed

lemma set_direct_eq:
  assumes "vq_rep q tabs a" "aq_free a = c @ ds" "length c = length bs" "bs \<noteq> []" "ds \<noteq> []"
  shows "\<exists>d1 fn. set_direct_descriptors bs q = Inr (q\<lparr>vq_desc := d1, vq_free_num := fn, vq_free_head := hd ds\<rparr>)
           \<and> (\<forall>x. x \<notin> set c \<longrightarrow> d1 x = vq_desc q x) \<and> unat fn = length ds \<and> describes d1 c bs"
proof -
  have fo: "free_ok q a" and "split_ok q a" using assms(1) by (simp_all add: vq_rep_def)
  then have dist: "distinct c" using assms(2) by (simp add: split_ok_def parts_def)
  have c: "c \<noteq> []" using assms(3,4) by auto
  obtain r rs where ds: "ds = r # rs" using assms(5) by (cases ds) auto
  define d0 where "d0 = apply_bufs (vq_desc q) c bs"
  define d1 where "d1 = d0(last c := (d0 (last c))\<lparr>vd_flags := vd_flags (d0 (last c)) AND NOT 1\<rparr>)"
  define fn where "fn = vq_free_num q - of_nat (length bs)"
  have "direct_loop bs (hd c) 0 q = Inr (r, last (0 # c), q\<lparr>vq_desc := d0\<rparr>)"
    unfolding d0_def using fo assms(2,3) ds dist c by (intro direct_loop_eq [where rs = rs]) (auto simp: free_ok_def)
  then have "set_direct_descriptors bs q = Inr (q\<lparr>vq_desc := d1, vq_free_num := fn, vq_free_head := r\<rparr>)"
    using fo assms(2,4) c by (simp add: set_direct_descriptors_def free_ok_def put_desc_def d1_def fn_def Let_def)
  moreover have "\<forall>x. x \<notin> set c \<longrightarrow> d1 x = vq_desc q x"
    using c by (auto simp: d1_def d0_def apply_bufs_out)
  moreover have "unat fn = length ds"
  proof -
    have len: "unat (vq_free_num q) = length bs + length ds" using fo assms(2,3) by (simp add: free_ok_def)
    then have "unat (of_nat (length bs) :: u16) = length bs"
      using unat_16 [of "vq_free_num q"] by (simp add: unat_of_nat)
    then show ?thesis using len unfolding fn_def by (subst unat_sub) (simp_all add: word_le_nat_alt)
  qed
  moreover have "describes d1 c bs"
    unfolding d1_def d0_def using describes_apply dist assms(3) c fo assms(2) by (simp add: free_ok_def chained_append)
  ultimately show ?thesis using ds by auto
qed

text \<open>The table of indirect descriptors.\<close>

lemma find_unused_Some:
  assumes "find_unused tabs n = Some i"
  shows "n \<le> i \<and> i < n + length tabs \<and> \<not> in_use (tabs ! (i - n))"
  using assms
proof (induction tabs arbitrary: n)
  case (Cons x tabs)
  show ?case
  proof (cases "in_use x")
    case True
    then have "Suc n \<le> i \<and> i < Suc n + length tabs \<and> \<not> in_use (tabs ! (i - Suc n))" using Cons.IH [of "Suc n"] Cons.prems by simp
    moreover have "i - n = Suc (i - Suc n)" using calculation by (metis Suc_diff_Suc Suc_le_lessD)
    ultimately show ?thesis by simp
  next
    case False
    then show ?thesis using Cons by simp
  qed
qed simp

lemma find_unused_None: "find_unused tabs n = None \<longleftrightarrow> (\<forall>x\<in>set tabs. in_use x)"
  by (induction tabs arbitrary: n) auto

lemma fill_indirect_eq:
  "fill_indirect bs n d k = (if n \<le> k \<and> k < n + length bs then (use_vring_desc (d k) (bs ! (k - n)))\<lparr>vd_next := of_nat (Suc k)\<rparr> else d k)"
proof (induction bs arbitrary: n d)
  case (Cons b bs)
  then show ?case by (auto simp: nth_Cons' Suc_diff_le)
qed auto

lemma filled_table:
  assumes "bs \<noteq> []" "i < length bs" and d_def: "d = fill_indirect bs 0 d0"
  shows "desc_is ((d(length bs - 1 := (d (length bs - 1))\<lparr>vd_flags := vd_flags (d (length bs - 1)) AND NOT 1\<rparr>)) i) (bs ! i) (Suc i < length bs)
       \<and> vd_next ((d(length bs - 1 := (d (length bs - 1))\<lparr>vd_flags := vd_flags (d (length bs - 1)) AND NOT 1\<rparr>)) i) = of_nat (Suc i)"
proof -
  have di: "d i = (use_vring_desc (d0 i) (bs ! i))\<lparr>vd_next := of_nat (Suc i)\<rparr>"
    using assms(2) by (simp add: d_def fill_indirect_eq)
  show ?thesis
  proof (cases "Suc i < length bs")
    case True
    then have "i \<noteq> length bs - 1" by simp
    then show ?thesis using True di use_vring_desc_is [of "d0 i" "bs ! i"] by (simp add: desc_is_def)
  next
    case False
    then have i: "length bs - 1 = i" using assms(2) by simp
    show ?thesis unfolding i using False di use_vring_desc_last [of "d0 i" "bs ! i"] by (simp add: desc_is_def)
  qed
qed

lemma set_indirect_eq:
  assumes "vq_rep q tabs a" "aq_free a = h # ds" "ds \<noteq> []" "bs \<noteq> []" "length bs \<le> 256"
    "find_unused (indirect dev) 0 = Some i"
  shows "\<exists>d1 fn tabs1. set_indirect_descriptors bs q dev = Inr (q\<lparr>vq_desc := d1, vq_free_num := fn, vq_free_head := hd ds\<rparr>, dev\<lparr>indirect := tabs1\<rparr>)
           \<and> (\<forall>x. x \<noteq> h \<longrightarrow> d1 x = vq_desc q x) \<and> unat fn = length ds \<and> indirect_is (d1 h) i tabs1 bs
           \<and> length tabs1 = length (indirect dev) \<and> (\<forall>k. k \<noteq> i \<longrightarrow> tabs1 ! k = indirect dev ! k)
           \<and> map id_paddr tabs1 = map id_paddr (indirect dev)"
proof -
  let ?T = "indirect dev" and ?l = "length bs - 1"
  have fo: "free_ok q a" using assms(1) by (simp add: vq_rep_def)
  have i: "i < length ?T" using find_unused_Some [OF assms(6)] by simp
  define vd where "vd = (vq_desc q h)\<lparr>vd_flags := 4, vd_addr := id_paddr (?T ! i), vd_len := of_nat (length bs * 16)\<rparr>"
  define d where "d = fill_indirect bs 0 (id_descs (?T ! i))"
  define tab where "tab = (?T ! i)\<lparr>in_use := True, id_descs := d(?l := (d ?l)\<lparr>vd_flags := vd_flags (d ?l) AND NOT 1\<rparr>)\<rparr>"
  have nx: "vd_next (vq_desc q h) = hd ds" and h: "vq_free_head q = h"
    using fo assms(2,3) by (cases ds; simp add: free_ok_def vd_def)+
  have "set_indirect_descriptors bs q dev
      = Inr (q\<lparr>vq_desc := (vq_desc q)(h := vd), vq_free_num := vq_free_num q - 1, vq_free_head := hd ds\<rparr>, dev\<lparr>indirect := ?T[i := tab]\<rparr>)"
    using assms(4,5,6) i nx h
    by (cases "?T = []") (simp_all add: set_indirect_descriptors_def Let_def put_desc_def vd_def tab_def d_def)
  moreover have "unat (vq_free_num q - 1) = length ds"
  proof -
    have "unat (vq_free_num q) = Suc (length ds)" using fo assms(2) by (simp add: free_ok_def)
    then show ?thesis by (subst unat_sub) (simp_all add: word_le_nat_alt)
  qed
  moreover have "indirect_is vd i (?T[i := tab]) bs"
    using i assms(4,5) filled_table [OF assms(4) _ d_def] by (simp add: indirect_is_def vd_def tab_def d_def)
  moreover have "map id_paddr (?T[i := tab]) = map id_paddr ?T"
    using i by (simp add: map_update tab_def) (metis list_update_id map_update)
  ultimately show ?thesis
    by (intro exI [of _ "(vq_desc q)(h := vd)"] exI [of _ "vq_free_num q - 1"] exI [of _ "?T[i := tab]"]) simp
qed

section \<open>The device\<close>

definition tabs_of :: "aqueue \<Rightarrow> nat list" where
  "tabs_of a = List.map_filter fl_tab (aq_flight a)"

definition dev_rep :: "'w virtio_dev \<Rightarrow> aqueue list \<Rightarrow> bool" where
  "dev_rep dev qs \<longleftrightarrow> length (queues dev) = length qs \<and> uint (num_queues dev) = int (length qs)
     \<and> (\<forall>j<length qs. vq_rep (queues dev ! j) (indirect dev) (qs ! j))
     \<and> distinct (map id_paddr (indirect dev)) \<and> distinct (concat (map tabs_of qs))"

lemma distinct_concat_update:
  assumes "distinct (concat xs)" "j < length xs" "distinct ys" "set ys \<subseteq> set (xs ! j) \<union> A" "A \<inter> set (concat xs) = {}"
  shows "distinct (concat (xs[j := ys]))"
proof -
  have xs: "xs = take j xs @ xs ! j # drop (Suc j) xs" using assms(2) by (rule id_take_nth_drop)
  have up: "xs[j := ys] = take j xs @ ys # drop (Suc j) xs" using assms(2) by (rule upd_conv_take_nth_drop)
  define L R where "L = concat (take j xs)" and "R = concat (drop (Suc j) xs)"
  have c: "concat xs = L @ xs ! j @ R" using xs by (metis L_def R_def concat.simps(2) concat_append)
  have "distinct (L @ ys @ R)" using assms(1,3-5) unfolding c by (simp add: disjoint_iff) blast
  then show ?thesis by (simp add: up L_def R_def)
qed

lemma distinct_concat_disjoint:
  assumes "distinct (concat xs)" "i < length xs" "j < length xs" "i \<noteq> j"
  shows "set (xs ! i) \<inter> set (xs ! j) = {}"
  using assms
proof (induction xs arbitrary: i j)
  case (Cons x xs)
  have "set x \<inter> set (xs ! k) = {}" if "k < length xs" for k
    using Cons.prems(1) nth_mem [OF that] by auto
  then show ?case using Cons by (cases i; cases j) auto
qed simp

lemma tabs_in_use:
  assumes "dev_rep dev qs" "k \<in> set (concat (map tabs_of qs))"
  shows "k < length (indirect dev) \<and> in_use (indirect dev ! k)"
proof -
  obtain j where j: "j < length qs" "k \<in> set (tabs_of (qs ! j))" using assms(2) by (auto simp: in_set_conv_nth [of _ qs])
  then obtain f where f: "f \<in> set (aq_flight (qs ! j))" "fl_tab f = Some k"
    by (auto simp: tabs_of_def List.map_filter_def)
  have "flight_ok (queues dev ! j) (indirect dev) f" using assms(1) j(1) f(1) by (simp add: dev_rep_def vq_rep_def)
  then show ?thesis using f(2) by (simp add: flight_ok_def indirect_is_def)
qed

lemma vq_rep_tabs:
  assumes "vq_rep q tabs a" "\<And>k. k \<in> set (tabs_of a) \<Longrightarrow> k < length tabs1 \<and> tabs1 ! k = tabs ! k"
  shows "vq_rep q tabs1 a"
proof -
  have "flight_ok q tabs1 f" if f: "f \<in> set (aq_flight a)" for f
  proof -
    have "flight_ok q tabs f" using assms(1) f by (simp add: vq_rep_def)
    moreover have "fl_tab f = Some k \<Longrightarrow> k \<in> set (tabs_of a)" for k using f by (force simp: tabs_of_def List.map_filter_def)
    ultimately show ?thesis using assms(2) by (auto simp: flight_ok_def indirect_is_def split: option.splits)
  qed
  then show ?thesis using assms(1) by (simp add: vq_rep_def)
qed

text \<open>Replacing one queue and the tables.\<close>

lemma dev_rep_update:
  assumes "dev_rep dev qs" "j < length qs" "vq_rep q' tabs1 a'"
    and "queues dev' = (queues dev)[j := q']" "num_queues dev' = num_queues dev" "indirect dev' = tabs1"
    and "map id_paddr tabs1 = map id_paddr (indirect dev)"
    and "\<And>k. k \<in> set (concat (map tabs_of qs)) - set (tabs_of (qs ! j)) \<Longrightarrow> k < length tabs1 \<and> tabs1 ! k = indirect dev ! k"
    and "distinct (tabs_of a')" "set (tabs_of a') \<subseteq> set (tabs_of (qs ! j)) \<union> A" "A \<inter> set (concat (map tabs_of qs)) = {}"
  shows "dev_rep dev' (qs[j := a'])"
proof -
  have dist: "distinct (concat (map tabs_of qs))" using assms(1) by (simp add: dev_rep_def)
  have "vq_rep (queues dev' ! i) (indirect dev') (qs[j := a'] ! i)" if i: "i < length qs" for i
  proof (cases "i = j")
    case True
    then show ?thesis using assms(1-4,6) by (simp add: dev_rep_def)
  next
    case False
    have mine: "k \<in> set (concat (map tabs_of qs)) - set (tabs_of (qs ! j))" if k: "k \<in> set (tabs_of (qs ! i))" for k
      using k i distinct_concat_disjoint [OF dist, of i j] False assms(2) by (auto simp: disjoint_iff)
    have "vq_rep (queues dev ! i) (indirect dev) (qs ! i)" using assms(1) i by (simp add: dev_rep_def)
    then have "vq_rep (queues dev ! i) tabs1 (qs ! i)" by (rule vq_rep_tabs) (rule assms(8) [OF mine])
    then show ?thesis using False assms(4,6) by simp
  qed
  moreover have "distinct (concat (map tabs_of (qs[j := a'])))"
    unfolding map_update using dist assms(2,9-11) by (intro distinct_concat_update) simp_all
  ultimately show ?thesis using assms(1,4-7) by (simp add: dev_rep_def)
qed

definition uses_indirect :: "'w virtio_dev \<Rightarrow> aqueue \<Rightarrow> addr_size list \<Rightarrow> bool" where
  "uses_indirect dev a bs \<longleftrightarrow> length bs > 1 \<and> int (length (aq_free a)) - int (length bs) < threads dev"

lemma sint_length: "n < 2147483648 \<Longrightarrow> sint (of_nat n :: u32) = int n"
  by (simp add: signed_of_nat signed_take_bit_int_eq_self)

lemma get_queue_rep: "dev_rep dev qs \<Longrightarrow> j < length qs \<Longrightarrow> get_queue (int j) dev = Inr (queues dev ! j)"
  by (simp add: get_queue_def dev_rep_def)

lemma kick_queue_rep:
  assumes "length (queues dev) = n" "uint (num_queues dev) = int n" "j < n"
  shows "\<exists>dev'. kick_queue (int j) dev = Inr dev' \<and> queues dev' = queues dev \<and> num_queues dev' = num_queues dev
           \<and> indirect dev' = indirect dev \<and> threads dev' = threads dev \<and> driver dev' = driver dev
           \<and> conf dev' = conf dev @ [Writew 16 (of_nat j)]"
  using assms by (simp add: kick_queue_def get_queue_def wants_kick_def virtio_conf_writew_def)

lemma length_free_u16: "vq_rep q tabs a \<Longrightarrow> uint (vq_free_num q) = int (length (aq_free a))"
  by (simp add: vq_rep_def free_ok_def uint_nat)

lemma post_full:
  assumes "dev_rep dev qs" "j < length qs" "length bs < 2147483648" "length (aq_free (qs ! j)) \<le> length bs"
  shows "post (int j) bs data dev = Inr (EAGAIN, dev)"
proof -
  have "vq_rep (queues dev ! j) (indirect dev) (qs ! j)" using assms(1,2) by (simp add: dev_rep_def)
  then show ?thesis
    using get_queue_rep [OF assms(1,2)] sint_length [OF assms(3)] length_free_u16 assms(4)
    by (simp add: post_def Let_def)
qed

definition same_device :: "'w virtio_dev \<Rightarrow> 'w virtio_dev \<Rightarrow> bool" where
  "same_device dev dev' \<longleftrightarrow> num_queues dev' = num_queues dev \<and> threads dev' = threads dev \<and> driver dev' = driver dev"

text \<open>Once the descriptors are set, the chain is posted and the device is notified.\<close>

lemma post_set:
  fixes dev :: "'w virtio_dev"
  assumes rep: "dev_rep dev qs" "j < length qs" and len: "length bs < 2147483648" "length bs < length (aq_free (qs ! j))"
    and set: "(if uses_indirect dev (qs ! j) bs then set_indirect_descriptors bs (queues dev ! j) dev
       else andThen (set_direct_descriptors bs (queues dev ! j)) (\<lambda>q1. Inr (q1, dev))) = Inr (q1, dev\<lparr>indirect := tabs1\<rparr>)"
  shows "\<exists>dev'. post (int j) bs data dev = Inr (0, dev')
           \<and> queues dev' = (queues dev)[j := posted_queue (vq_free_head (queues dev ! j)) data q1]
           \<and> indirect dev' = tabs1 \<and> same_device dev dev' \<and> conf dev' = conf dev @ [Writew 16 (of_nat j)]"
proof -
  have vr: "vq_rep (queues dev ! j) (indirect dev) (qs ! j)" using rep by (simp add: dev_rep_def)
  define dev1 where "dev1 = put_queue (int j) (posted_queue (vq_free_head (queues dev ! j)) data q1) (dev\<lparr>indirect := tabs1\<rparr>)"
  have "length (queues dev1) = length qs" "uint (num_queues dev1) = int (length qs)"
    using rep by (simp_all add: dev1_def put_queue_def dev_rep_def)
  then obtain dev' where dev': "kick_queue (int j) dev1 = Inr dev'" "queues dev' = queues dev1" "num_queues dev' = num_queues dev1"
    "indirect dev' = indirect dev1" "threads dev' = threads dev1" "driver dev' = driver dev1" "conf dev' = conf dev1 @ [Writew 16 (of_nat j)]"
    using kick_queue_rep rep(2) by blast
  have "uint (vq_free_num (queues dev ! j)) - sint (of_nat (length bs) :: u32) = int (length (aq_free (qs ! j))) - int (length bs)"
    using length_free_u16 [OF vr] sint_length [OF len(1)] by simp
  then have "post (int j) bs data dev = Inr (0, dev')"
    using get_queue_rep [OF rep] len(2) set dev'(1)
    by (simp add: post_def Let_def uses_indirect_def dev1_def posted_queue_def)
  then show ?thesis using dev' by (simp add: dev1_def put_queue_def same_device_def)
qed

lemma tabs_of_apost: "tabs_of (apost c bs data tab a) = (case tab of None \<Rightarrow> tabs_of a | Some k \<Rightarrow> k # tabs_of a)"
  by (simp add: tabs_of_def apost_def List.map_filter_simps split: option.splits)

lemma tabs_of_distinct:
  assumes "dev_rep dev qs" "j < length qs"
  shows "distinct (tabs_of (qs ! j))" "set (tabs_of (qs ! j)) \<subseteq> set (concat (map tabs_of qs))"
proof -
  have "tabs_of (qs ! j) \<in> set (map tabs_of qs)" using assms(2) by simp
  then show "distinct (tabs_of (qs ! j))" "set (tabs_of (qs ! j)) \<subseteq> set (concat (map tabs_of qs))"
    using assms(1) by (auto simp: dev_rep_def distinct_concat_iff)
qed

lemma flight_tab_in: "f \<in> set (aq_flight a) \<Longrightarrow> fl_tab f = Some k \<Longrightarrow> k \<in> set (tabs_of a)"
  by (force simp: tabs_of_def List.map_filter_def)

lemma post_direct:
  assumes rep: "dev_rep dev qs" "j < length qs" and len: "length bs < 2147483648" "length bs < length (aq_free (qs ! j))"
    and "bs \<noteq> []" "data \<noteq> 0" "\<not> uses_indirect dev (qs ! j) bs"
  shows "\<exists>dev'. post (int j) bs data dev = Inr (0, dev') \<and> same_device dev dev' \<and> conf dev' = conf dev @ [Writew 16 (of_nat j)]
           \<and> vq_avail_idx (queues dev' ! j) = vq_avail_idx (queues dev ! j) + 1 \<and> vq_num (queues dev' ! j) = vq_num (queues dev ! j)
           \<and> dev_rep dev' (qs[j := apost (take (length bs) (aq_free (qs ! j))) bs data None (qs ! j)])"
proof -
  let ?q = "queues dev ! j" and ?a = "qs ! j"
  define c ds where "c = take (length bs) (aq_free ?a)" and "ds = drop (length bs) (aq_free ?a)"
  have vr: "vq_rep ?q (indirect dev) ?a" using rep by (simp add: dev_rep_def)
  have free: "aq_free ?a = c @ ds" "length c = length bs" "ds \<noteq> []" "c \<noteq> []"
    using len(2) \<open>bs \<noteq> []\<close> by (auto simp: c_def ds_def)
  then obtain d1 fn where d1: "set_direct_descriptors bs ?q = Inr (?q\<lparr>vq_desc := d1, vq_free_num := fn, vq_free_head := hd ds\<rparr>)"
    "\<forall>x. x \<notin> set c \<longrightarrow> d1 x = vq_desc ?q x" "unat fn = length ds" "describes d1 c bs"
    using set_direct_eq [OF vr free(1,2) \<open>bs \<noteq> []\<close>] by blast
  define q1 where "q1 = ?q\<lparr>vq_desc := d1, vq_free_num := fn, vq_free_head := hd ds\<rparr>"
  have head: "vq_free_head ?q = hd c" using vr free by (simp add: vq_rep_def free_ok_def)
  have nr: "vq_rep (posted_queue (hd c) data q1) (indirect dev) (apost c bs data None ?a)"
    unfolding q1_def
  proof (rule post_rep [OF vr free(1,4,3)])
    show "k < length (indirect dev) \<and> indirect dev ! k = indirect dev ! k" if "f \<in> set (aq_flight ?a)" "fl_tab f = Some k" for f k
      using tabs_in_use [OF rep(1)] flight_tab_in [OF that] tabs_of_distinct(2) [OF rep] by blast
  qed (use d1 \<open>data \<noteq> 0\<close> in auto)
  have "(if uses_indirect dev ?a bs then set_indirect_descriptors bs ?q dev
       else andThen (set_direct_descriptors bs ?q) (\<lambda>q1. Inr (q1, dev))) = Inr (q1, dev\<lparr>indirect := indirect dev\<rparr>)"
    using d1(1) assms(7) by (simp add: q1_def)
  from post_set [OF rep len this] obtain dev' where dev': "post (int j) bs data dev = Inr (0, dev')"
    "queues dev' = (queues dev)[j := posted_queue (vq_free_head ?q) data q1]" "indirect dev' = indirect dev" "same_device dev dev'"
    "conf dev' = conf dev @ [Writew 16 (of_nat j)]"
    by blast
  have "dev_rep dev' (qs[j := apost c bs data None ?a])"
    using dev'(2-4) tabs_in_use [OF rep(1)] tabs_of_distinct(1) [OF rep]
    by (intro dev_rep_update [OF rep nr, where A = "{}"]) (auto simp: head same_device_def tabs_of_apost)
  moreover have "vq_avail_idx (queues dev' ! j) = vq_avail_idx ?q + 1 \<and> vq_num (queues dev' ! j) = vq_num ?q"
    using dev'(2) rep by (simp add: dev_rep_def posted_queue_def q1_def)
  ultimately show ?thesis using dev' c_def by blast
qed

lemma post_indirect:
  assumes rep: "dev_rep dev qs" "j < length qs" and len: "length bs < 2147483648" "length bs < length (aq_free (qs ! j))"
    and bs: "bs \<noteq> []" "length bs \<le> 256" and "data \<noteq> 0" "uses_indirect dev (qs ! j) bs" "find_unused (indirect dev) 0 = Some i"
  shows "\<exists>dev'. post (int j) bs data dev = Inr (0, dev') \<and> same_device dev dev' \<and> conf dev' = conf dev @ [Writew 16 (of_nat j)]
           \<and> vq_avail_idx (queues dev' ! j) = vq_avail_idx (queues dev ! j) + 1 \<and> vq_num (queues dev' ! j) = vq_num (queues dev ! j)
           \<and> dev_rep dev' (qs[j := apost [hd (aq_free (qs ! j))] bs data (Some i) (qs ! j)])"
proof -
  let ?q = "queues dev ! j" and ?a = "qs ! j"
  define h ds where "h = hd (aq_free ?a)" and "ds = tl (aq_free ?a)"
  have vr: "vq_rep ?q (indirect dev) ?a" using rep by (simp add: dev_rep_def)
  have l2: "2 \<le> length (aq_free ?a)" using len(2) bs(1) by (cases bs) auto
  then have free: "aq_free ?a = h # ds" "ds \<noteq> []" by (cases "aq_free ?a"; auto simp: h_def ds_def)+
  then obtain d1 fn tabs1 where d1: "set_indirect_descriptors bs ?q dev = Inr (?q\<lparr>vq_desc := d1, vq_free_num := fn, vq_free_head := hd ds\<rparr>, dev\<lparr>indirect := tabs1\<rparr>)"
    "\<forall>x. x \<noteq> h \<longrightarrow> d1 x = vq_desc ?q x" "unat fn = length ds" "indirect_is (d1 h) i tabs1 bs"
    and tabs: "length tabs1 = length (indirect dev)" "\<forall>k. k \<noteq> i \<longrightarrow> tabs1 ! k = indirect dev ! k"
    "map id_paddr tabs1 = map id_paddr (indirect dev)"
    using set_indirect_eq [OF vr free bs assms(9)] by blast
  define q1 where "q1 = ?q\<lparr>vq_desc := d1, vq_free_num := fn, vq_free_head := hd ds\<rparr>"
  have head: "vq_free_head ?q = h" using vr free by (simp add: vq_rep_def free_ok_def)
  have fresh: "i \<notin> set (concat (map tabs_of qs))"
    using tabs_in_use [OF rep(1), of i] find_unused_Some [OF assms(9)] by auto
  then have keep: "k < length tabs1 \<and> tabs1 ! k = indirect dev ! k" if "k \<in> set (concat (map tabs_of qs))" for k
    using that tabs_in_use [OF rep(1) that] tabs(1,2) by metis
  have "vq_rep (posted_queue (hd [h]) data q1) tabs1 (apost [h] bs data (Some i) ?a)"
    unfolding q1_def
  proof (rule post_rep [OF vr, where ds = ds])
    show "k < length tabs1 \<and> tabs1 ! k = indirect dev ! k" if "f \<in> set (aq_flight ?a)" "fl_tab f = Some k" for f k
      using keep flight_tab_in [OF that] tabs_of_distinct(2) [OF rep] by blast
  qed (use d1 free \<open>data \<noteq> 0\<close> in auto)
  then have nr: "vq_rep (posted_queue h data q1) tabs1 (apost [h] bs data (Some i) ?a)" by simp
  have "(if uses_indirect dev ?a bs then set_indirect_descriptors bs ?q dev
       else andThen (set_direct_descriptors bs ?q) (\<lambda>q1. Inr (q1, dev))) = Inr (q1, dev\<lparr>indirect := tabs1\<rparr>)"
    using d1(1) assms(8) by (simp add: q1_def)
  from post_set [OF rep len this] obtain dev' where dev': "post (int j) bs data dev = Inr (0, dev')"
    "queues dev' = (queues dev)[j := posted_queue (vq_free_head ?q) data q1]" "indirect dev' = tabs1" "same_device dev dev'"
    "conf dev' = conf dev @ [Writew 16 (of_nat j)]"
    by blast
  have "dev_rep dev' (qs[j := apost [h] bs data (Some i) ?a])"
  proof (rule dev_rep_update [OF rep nr _ _ dev'(3) tabs(3), where A = "{i}"])
    show "queues dev' = (queues dev)[j := posted_queue h data q1]" "num_queues dev' = num_queues dev"
      using dev'(2,4) head by (simp_all add: same_device_def)
    show "distinct (tabs_of (apost [h] bs data (Some i) ?a))"
      using tabs_of_distinct [OF rep] fresh by (auto simp: tabs_of_apost)
  qed (use keep fresh in \<open>auto simp: tabs_of_apost\<close>)
  moreover have "vq_avail_idx (queues dev' ! j) = vq_avail_idx ?q + 1 \<and> vq_num (queues dev' ! j) = vq_num ?q"
    using dev'(2) rep by (simp add: dev_rep_def posted_queue_def q1_def)
  ultimately show ?thesis using dev' h_def by blast
qed

text \<open>Both kinds of chain: a chain that needs indirect descriptors finds a free table and fits in it.\<close>

lemma post_ok:
  assumes rep: "dev_rep dev qs" "j < length qs" and len: "length bs < 2147483648" "length bs < length (aq_free (qs ! j))"
    and bs: "bs \<noteq> []" "data \<noteq> 0"
    and ind: "uses_indirect dev (qs ! j) bs \<Longrightarrow> length bs \<le> 256 \<and> find_unused (indirect dev) 0 \<noteq> None"
  shows "\<exists>dev' c tab. post (int j) bs data dev = Inr (0, dev') \<and> same_device dev dev' \<and> conf dev' = conf dev @ [Writew 16 (of_nat j)]
           \<and> vq_avail_idx (queues dev' ! j) = vq_avail_idx (queues dev ! j) + 1 \<and> vq_num (queues dev' ! j) = vq_num (queues dev ! j)
           \<and> dev_rep dev' (qs[j := apost c bs data tab (qs ! j)]) \<and> hd c = hd (aq_free (qs ! j)) \<and> c \<noteq> []"
proof (cases "uses_indirect dev (qs ! j) bs")
  case True
  then obtain i where "length bs \<le> 256" "find_unused (indirect dev) 0 = Some i" using ind by auto
  then show ?thesis using post_indirect [OF rep len bs(1) _ bs(2) True]
    by (metis list.sel(1) list.distinct(1))
next
  case False
  obtain b bs' where "bs = b # bs'" using bs(1) by (cases bs) auto
  then obtain x xs where "aq_free (qs ! j) = x # xs" using len(2) by (cases "aq_free (qs ! j)") auto
  then have "hd (take (length bs) (aq_free (qs ! j))) = hd (aq_free (qs ! j))" "take (length bs) (aq_free (qs ! j)) \<noteq> []"
    using \<open>bs = b # bs'\<close> by simp_all
  then show ?thesis using post_direct [OF rep len bs False] by metis
qed

end
