(* ===== verification/Virtio_Return.thy ===== *)
theory Virtio_Return
  imports Virtio_Queue
begin

text \<open>
  The way back of a chain: the device returns it through the used ring, \<open>virtio_from_queue\<close> takes it and
  puts its descriptors behind the free list, \<open>virtio_read_queue\<close> takes all of them. Together with
  posting this gives the behaviour of a queue over any interleaving of driver and device.
\<close>

section \<open>What the device does\<close>

text \<open>
  The device fetches the next head from the avail ring, which changes nothing in the memory it shares with
  the driver, and returns a chain it has fetched through the used ring.
\<close>

definition afetch :: "aqueue \<Rightarrow> aqueue" where
  "afetch a = a\<lparr>aq_seen := Suc (aq_seen a), aq_posted := tl (aq_posted a)\<rparr>"

definition host_complete :: "u16 \<Rightarrow> u32 \<Rightarrow> virtio_queue \<Rightarrow> virtio_queue" where
  "host_complete h len q = q\<lparr>vq_used := (vq_used q)(vq_used_idx q mod vq_num q := \<lparr>ue_id = ucast h, ue_len = len\<rparr>),
     vq_used_idx := vq_used_idx q + 1\<rparr>"

definition acomplete :: "u16 \<Rightarrow> u32 \<Rightarrow> aqueue \<Rightarrow> aqueue" where
  "acomplete h len a = a\<lparr>aq_done := aq_done a @ [(h, len)]\<rparr>"

lemma fetch_head:
  assumes "vq_rep q tabs a" "aq_posted a \<noteq> []"
  shows "vq_avail q (of_nat (aq_seen a mod unat (vq_num q))) = hd (aq_posted a)"
proof -
  have "0 < length (aq_posted a)" using assms(2) by simp
  then have "vq_avail q (of_nat ((aq_seen a + 0) mod unat (vq_num q))) = aq_posted a ! 0"
    using assms(1) unfolding vq_rep_def avail_ok_def by blast
  then show ?thesis using assms(2) by (simp add: hd_conv_nth)
qed

lemma fetch_rep:
  assumes "vq_rep q tabs a" "aq_posted a \<noteq> []"
  shows "vq_rep q tabs (afetch a)"
proof -
  obtain h hs where hs: "aq_posted a = h # hs" using assms(2) by (cases "aq_posted a") auto
  have av: "avail_ok q a" and ho: "heads_ok a" using assms(1) by (simp_all add: vq_rep_def)
  have "avail_ok q (afetch a)"
    using av hs by (auto simp: avail_ok_def afetch_def dest: spec [of _ "Suc _"])
  moreover have "heads_ok (afetch a)" using ho hs by (auto simp: heads_ok_def afetch_def)
  ultimately show ?thesis using assms(1)
    by (simp add: vq_rep_def) (simp add: split_ok_def parts_def free_ok_def used_ok_def afetch_def)
qed

lemma flight_ok_same:
  assumes "vq_desc q' = vq_desc q" "vq_data q' = vq_data q"
  shows "flight_ok q' tabs f = flight_ok q tabs f"
  using assms by (simp add: flight_ok_def split: option.split)

lemma complete_rep:
  assumes "vq_rep q tabs a" "h \<in> fl_head ` set (aq_flight a)" "h \<notin> set (aq_posted a)" "h \<notin> fst ` set (aq_done a)"
  shows "vq_rep (host_complete h len q) tabs (acomplete h len a)"
proof -
  let ?N = "unat (vq_num q)" and ?n = "length (aq_done a)" and ?s = "unat (vq_last_used q)"
  have p2: "pow2_num q" and us: "used_ok q a" and ho: "heads_ok a" using assms(1) by (simp_all add: vq_rep_def)
  have n: "?n < ?N" using flights_bound [OF assms(1)] pending_bound [OF assms(1)] by simp
  have pos: "vq_used_idx q mod vq_num q = of_nat ((?s + ?n) mod ?N)"
    using us by (intro u16_of_unat) (simp add: used_ok_def unat_mod)
  have "of_nat ((?s + k) mod ?N) \<noteq> (of_nat ((?s + ?n) mod ?N) :: u16)" if "k < ?n" for k
    using pos_inj [OF p2, of k ?n] that n by simp
  then have "vq_used (host_complete h len q) (of_nat ((?s + k) mod ?N))
      = \<lparr>ue_id = ucast (fst (aq_done (acomplete h len a) ! k)), ue_len = snd (aq_done (acomplete h len a) ! k)\<rparr>"
    if "k < Suc ?n" for k
    using us that by (cases "k = ?n") (auto simp: host_complete_def acomplete_def used_ok_def nth_append pos)
  moreover have "unat (vq_used_idx q + 1) mod ?N = (?s + Suc ?n) mod ?N"
    using us idx_suc_mod [OF p2, of "vq_used_idx q"] by (metis add_Suc_right used_ok_def mod_Suc_eq)
  ultimately have "used_ok (host_complete h len q) (acomplete h len a)"
    using us by (simp add: used_ok_def) (simp add: host_complete_def acomplete_def)
  moreover have "heads_ok (acomplete h len a)" using ho assms(2-4) by (auto simp: heads_ok_def acomplete_def)
  moreover have "flight_ok (host_complete h len q) tabs f = flight_ok q tabs f" for f
    by (rule flight_ok_same) (simp_all add: host_complete_def)
  ultimately show ?thesis using assms(1)
    by (simp add: vq_rep_def) (simp add: pow2_num_def split_ok_def parts_def free_ok_def avail_ok_def host_complete_def acomplete_def)
qed

section \<open>Taking a chain back\<close>

definition flight_of :: "u16 \<Rightarrow> aqueue \<Rightarrow> inflight" where
  "flight_of h a = the (List.find (\<lambda>f. fl_head f = h) (aq_flight a))"

definition atake :: "aqueue \<Rightarrow> aqueue" where
  "atake a = a\<lparr>aq_free := aq_free a @ fl_chain (flight_of (fst (hd (aq_done a))) a),
     aq_flight := filter (\<lambda>f. fl_head f \<noteq> fst (hd (aq_done a))) (aq_flight a), aq_done := tl (aq_done a)\<rparr>"

lemma find_split:
  assumes "\<forall>x\<in>set pre. \<not> P x" "P y"
  shows "List.find P (pre @ y # suf) = Some y"
  using assms by (induction pre) auto

lemma flight_split:
  assumes "vq_rep q tabs a" "h \<in> fl_head ` set (aq_flight a)"
  obtains pre suf where "aq_flight a = pre @ flight_of h a # suf" "fl_head (flight_of h a) = h"
    "filter (\<lambda>f. fl_head f \<noteq> h) (aq_flight a) = pre @ suf" "flight_ok q tabs (flight_of h a)"
proof -
  obtain f where f: "f \<in> set (aq_flight a)" "fl_head f = h" using assms(2) by blast
  then obtain pre suf where pp: "aq_flight a = pre @ f # suf" by (meson split_list)
  have ok: "flight_ok q tabs g" if "g \<in> set (aq_flight a)" for g using assms(1) that by (simp add: vq_rep_def)
  have dist: "distinct (concat (map fl_chain (pre @ f # suf)))"
    using assms(1) pp by (simp add: vq_rep_def split_ok_def parts_def)
  have other: "fl_head g \<noteq> h" if "g \<in> set pre \<union> set suf" for g
  proof -
    have "fl_head g \<in> set (fl_chain g)" "fl_head f \<in> set (fl_chain f)"
      using head_in_chain ok f(1) that pp by auto
    moreover have "set (fl_chain g) \<inter> set (fl_chain f) = {}" using dist that by auto
    ultimately show ?thesis using f(2) by auto
  qed
  have "flight_of h a = f"
    using find_split [of pre "\<lambda>f. fl_head f = h" f suf] other f(2) pp by (simp add: flight_of_def)
  moreover have "filter (\<lambda>f. fl_head f \<noteq> h) (aq_flight a) = pre @ suf"
    using other f(2) pp by (simp add: filter_id_conv)
  ultimately show ?thesis using that pp f ok by blast
qed

lemma release_table_eq:
  assumes "distinct (map id_paddr tabs)" "k < length tabs" "in_use (tabs ! k)"
  shows "release_table (id_paddr (tabs ! k)) tabs = Inr (tabs[k := (tabs ! k)\<lparr>in_use := False\<rparr>])"
  using assms
proof (induction tabs arbitrary: k)
  case (Cons x tabs)
  show ?case
  proof (cases k)
    case (Suc n)
    then have "id_paddr (tabs ! n) \<in> set (map id_paddr tabs)" using Cons.prems(2) by simp
    then have "id_paddr x \<noteq> id_paddr (tabs ! n)" using Cons.prems(1) by auto
    then show ?thesis using Cons Suc by simp
  qed (use Cons.prems in simp)
qed simp

text \<open>The loop over a chain and the clearing of its last descriptor, for both kinds of chain.\<close>

definition cleared :: "inflight \<Rightarrow> virtio_queue \<Rightarrow> indirect_desc_table list \<Rightarrow> (u16 \<Rightarrow> vring_desc) \<Rightarrow> indirect_desc_table list \<Rightarrow> bool" where
  "cleared f q tabs d4 tabs4 \<longleftrightarrow>
     chain_loop (fl_head f) 0 q tabs = Some (Inr (last (fl_chain f), int (length (fl_chain f)) - 1, q, tabs))
   \<and> clear_if_indirect (last (fl_chain f)) q tabs = Inr (q\<lparr>vq_desc := d4\<rparr>, tabs4)
   \<and> (\<forall>x. x \<noteq> last (fl_chain f) \<longrightarrow> d4 x = vq_desc q x) \<and> vd_flags (d4 (last (fl_chain f))) AND 1 = 0
   \<and> map id_paddr tabs4 = map id_paddr tabs \<and> (\<forall>k. fl_tab f \<noteq> Some k \<longrightarrow> tabs4 ! k = tabs ! k)
   \<and> (\<forall>x\<in>set (butlast (fl_chain f)). vd_flags (vq_desc q x) AND 1 \<noteq> 0) \<and> chained (vq_desc q) (fl_chain f)"

lemma clear_direct:
  assumes "flight_ok q tabs f" "fl_tab f = None"
  shows "cleared f q tabs (vq_desc q) tabs"
proof -
  define c where "c = fl_chain f"
  have d: "describes (vq_desc q) c (fl_bufs f)" using assms by (simp add: flight_ok_def c_def)
  have flags: "vd_flags (vq_desc q (c ! k)) AND 1 \<noteq> 0 \<longleftrightarrow> Suc k < length c" "vd_flags (vq_desc q (c ! k)) AND 4 = 0"
    if "k < length c" for k
  proof -
    have "desc_is (vq_desc q (c ! k)) (fl_bufs f ! k) (Suc k < length c)" using d that unfolding describes_def by blast
    from desc_is_flags [OF this]
    show "vd_flags (vq_desc q (c ! k)) AND 1 \<noteq> 0 \<longleftrightarrow> Suc k < length c" "vd_flags (vq_desc q (c ! k)) AND 4 = 0" by blast+
  qed
  have c: "c \<noteq> []" using d by (simp add: describes_def)
  then have l: "last c = c ! (length c - 1)" "length c - 1 < length c" by (simp_all add: last_conv_nth)
  have "\<forall>x\<in>set (butlast c). vd_flags (vq_desc q x) AND 1 \<noteq> 0"
  proof
    fix x assume "x \<in> set (butlast c)"
    then obtain k where "Suc k < length c" "x = c ! k" by (auto simp: in_set_conv_nth nth_butlast less_diff_conv)
    then show "vd_flags (vq_desc q x) AND 1 \<noteq> 0" using flags(1) [of k] by simp
  qed
  moreover have "clear_if_indirect (last c) q tabs = Inr (q, tabs)" using flags(2) [OF l(2)] l(1) clear_if_direct by simp
  moreover have "vd_flags (vq_desc q (last c)) AND 1 = 0" using flags(1) [OF l(2)] l c by (cases c) auto
  moreover have "chain_loop (hd c) 0 q tabs = Some (Inr (last c, int (length c) - 1, q, tabs))"
    using chain_loop_direct [OF d, of 0] by simp
  moreover have "chained (vq_desc q) c" using d by (simp add: describes_def)
  ultimately show ?thesis by (simp add: cleared_def fl_head_def c_def)
qed

lemma clear_indirect:
  assumes "flight_ok q tabs f" "fl_tab f = Some k" "distinct (map id_paddr tabs)"
  shows "\<exists>d4. cleared f q tabs d4 (tabs[k := (tabs ! k)\<lparr>in_use := False\<rparr>])"
proof -
  define h where "h = fl_head f"
  have c: "fl_chain f = [h]" and i: "indirect_is (vq_desc q h) k tabs (fl_bufs f)"
    using assms(1,2) by (simp_all add: flight_ok_def h_def)
  define vd where "vd = (vq_desc q h)\<lparr>vd_flags := vd_flags (vq_desc q h) AND NOT 4, vd_len := 0\<rparr>"
  have k: "k < length tabs" "in_use (tabs ! k)" "vd_flags (vq_desc q h) = 4" "vd_addr (vq_desc q h) = id_paddr (tabs ! k)"
    using i by (simp_all add: indirect_is_def)
  have "vd_len (vq_desc q h) > 0"
  proof -
    define n where "n = length (fl_bufs f) * 16"
    have n: "0 < n" "n \<le> 4096" "vd_len (vq_desc q h) = of_nat n" using i by (auto simp: indirect_is_def n_def)
    then have "unat (of_nat n :: u32) = n" by (simp add: unat_of_nat)
    then show ?thesis using n by (simp add: word_less_nat_alt)
  qed
  then have "clear_if_indirect h q tabs = Inr (q\<lparr>vq_desc := (vq_desc q)(h := vd)\<rparr>, tabs[k := (tabs ! k)\<lparr>in_use := False\<rparr>])"
    using k release_table_eq [OF assms(3) k(1,2)]
    by (simp add: clear_if_indirect_def clear_indirect_table_def put_desc_def vd_def)
  moreover have "chain_loop h 0 q tabs = Some (Inr (h, 0, q, tabs))" using k(3) by (subst chain_loop.simps) simp
  moreover have "map id_paddr (tabs[k := (tabs ! k)\<lparr>in_use := False\<rparr>]) = map id_paddr tabs"
    using k(1) by (simp add: map_update) (metis list_update_id map_update)
  moreover have "vd_flags vd AND 1 = 0" using k(3) by (simp add: vd_def)
  ultimately show ?thesis
    using assms(2) c by (intro exI [of _ "(vq_desc q)(h := vd)"]) (simp add: cleared_def h_def [symmetric])
qed

lemma clear_chain:
  assumes "flight_ok q tabs f" "distinct (map id_paddr tabs)"
  shows "\<exists>d4 tabs4. cleared f q tabs d4 tabs4"
  using assms clear_direct clear_indirect by (cases "fl_tab f") blast+

lemma flight_frame:
  assumes "flight_ok q tabs f" "\<And>x. x \<in> set (fl_chain f) \<Longrightarrow> vq_desc q' x = vq_desc q x"
    "vq_data q' (ucast (fl_head f)) = vq_data q (ucast (fl_head f))"
    "\<And>k. fl_tab f = Some k \<Longrightarrow> k < length tabs' \<and> tabs' ! k = tabs ! k"
  shows "flight_ok q' tabs' f"
proof -
  have "describes (vq_desc q) (fl_chain f) (fl_bufs f) \<Longrightarrow> describes (vq_desc q') (fl_chain f) (fl_bufs f)"
    using describes_frame assms(2) by blast
  then show ?thesis using assms head_in_chain [OF assms(1)]
    by (auto simp: flight_ok_def indirect_is_def split: option.splits)
qed

lemma butlast_not_last: "distinct xs \<Longrightarrow> x \<in> set (butlast xs) \<Longrightarrow> x \<noteq> last xs"
  by (cases xs rule: rev_cases) auto

lemma take_rep:
  fixes q :: virtio_queue
  defines "q9 \<equiv> \<lambda>lu d6 l fn h i e. q\<lparr>vq_last_used := lu, vq_desc := d6, vq_free_tail := l, vq_free_num := fn,
      vq_data := (vq_data q)(ucast h := 0), vq_last_used_idx := i, vq_avail_flags := 0, vq_used_event := e\<rparr>"
  assumes rep: "vq_rep q tabs a" and don: "aq_done a = (h, len) # rest" and c: "c = fl_chain (flight_of h a)"
    and d6: "\<And>x. x \<notin> set c \<Longrightarrow> x \<noteq> last (aq_free a) \<Longrightarrow> d6 x = vq_desc q x"
      "d6 (last (aq_free a)) = (vq_desc q (last (aq_free a)))\<lparr>vd_next := h\<rparr>"
      "chained d6 c" "\<And>x. x \<in> set c \<Longrightarrow> vd_flags (d6 x) AND 1 \<noteq> 0"
    and fn: "unat fn = length (aq_free a) + length c" and lu: "unat lu = Suc (unat (vq_last_used q)) mod unat (vq_num q)"
    and tabs: "\<And>g k. g \<in> set (aq_flight a) \<Longrightarrow> fl_head g \<noteq> h \<Longrightarrow> fl_tab g = Some k \<Longrightarrow> k < length tabs4 \<and> tabs4 ! k = tabs ! k"
  shows "vq_rep (q9 lu d6 (last c) fn h i e) tabs4 (atake a)"
proof -
  let ?q = "q9 lu d6 (last c) fn h i e" and ?N = "unat (vq_num q)"
  have p2: "pow2_num q" and sp: "split_ok q a" and fo: "free_ok q a" and ho: "heads_ok a" and av: "avail_ok q a" and us: "used_ok q a"
    and fl: "\<And>f. f \<in> set (aq_flight a) \<Longrightarrow> flight_ok q tabs f"
    using rep by (simp_all add: vq_rep_def)
  have "h \<in> fl_head ` set (aq_flight a)" using ho don by (simp add: heads_ok_def)
  then obtain pre suf where pp: "aq_flight a = pre @ flight_of h a # suf" "fl_head (flight_of h a) = h"
    "filter (\<lambda>f. fl_head f \<noteq> h) (aq_flight a) = pre @ suf" "flight_ok q tabs (flight_of h a)"
    using flight_split [OF rep] by blast
  have cn: "c \<noteq> []" "hd c = h" using flight_nonempty [OF pp(4)] pp(2) c by (simp_all add: fl_head_def)
  have tk: "aq_free (atake a) = aq_free a @ c" "aq_flight (atake a) = pre @ suf" "aq_done (atake a) = rest"
    "aq_posted (atake a) = aq_posted a" "aq_seen (atake a) = aq_seen a"
    using don pp(3) c by (simp_all add: atake_def)
  have qs: "vq_num ?q = vq_num q" "vq_desc ?q = d6" "vq_free_head ?q = vq_free_head q" "vq_free_tail ?q = last c" "vq_free_num ?q = fn"
    "vq_avail ?q = vq_avail q" "vq_avail_idx ?q = vq_avail_idx q" "vq_used ?q = vq_used q" "vq_used_idx ?q = vq_used_idx q"
    "vq_last_used ?q = lu" "vq_data ?q = (vq_data q)(ucast h := 0)"
    by (simp_all add: q9_def)
  have pa: "parts a = aq_free a @ concat (map fl_chain pre) @ c @ concat (map fl_chain suf)"
    and pt: "parts (atake a) = aq_free a @ c @ concat (map fl_chain pre) @ concat (map fl_chain suf)"
    using pp(1) c by (simp_all add: parts_def tk)
  have dist: "distinct (aq_free a @ c @ concat (map fl_chain pre) @ concat (map fl_chain suf))"
    using sp unfolding split_ok_def pa by auto
  have "set (parts (atake a)) = set (parts a)" by (auto simp: pa pt)
  then have "split_ok ?q (atake a)" using sp dist by (simp add: split_ok_def qs pt)
  moreover have "free_ok ?q (atake a)"
  proof -
    have "chained d6 (aq_free a) = chained (vq_desc q) (aq_free a)"
    proof (rule chained_cong)
      fix x assume "x \<in> set (butlast (aq_free a))"
      moreover have "distinct (aq_free a)" using dist by simp
      ultimately have "x \<noteq> last (aq_free a)" "x \<in> set (aq_free a)"
        by (simp add: butlast_not_last, simp add: in_set_butlastD)
      then show "vd_next (d6 x) = vd_next (vq_desc q x)" using d6(1) [of x] dist by auto
    qed
    then have "chained d6 (aq_free a @ c)" using fo d6(2,3) cn by (simp add: free_ok_def chained_append)
    moreover have "vd_flags (d6 x) AND 1 \<noteq> 0" if "x \<in> set (aq_free a @ c)" for x
      using that d6 fo by (cases "x \<in> set c"; cases "x = last (aq_free a)") (auto simp: free_ok_def)
    ultimately show ?thesis using fo fn cn by (simp add: free_ok_def tk qs)
  qed
  moreover have "flight_ok ?q tabs4 g" if "g \<in> set (aq_flight (atake a))" for g
  proof (rule flight_frame)
    have g: "g \<in> set pre \<union> set suf" using that by (simp add: tk)
    then have ga: "g \<in> set (aq_flight a)" using pp(1) by auto
    show "flight_ok q tabs g" using fl [OF ga] .
    have "g \<in> set (filter (\<lambda>f. fl_head f \<noteq> h) (aq_flight a))" using g pp(3) by simp
    then have hg: "fl_head g \<noteq> h" by simp
    have "last (aq_free a) \<in> set (aq_free a)" using fo by (simp add: free_ok_def)
    then show "vq_desc ?q x = vq_desc q x" if "x \<in> set (fl_chain g)" for x
      using that g dist unfolding qs by (intro d6(1)) auto
    show "vq_data ?q (ucast (fl_head g)) = vq_data q (ucast (fl_head g))" using hg by (simp add: qs)
    show "k < length tabs4 \<and> tabs4 ! k = tabs ! k" if "fl_tab g = Some k" for k using tabs [OF ga hg that] .
  qed
  moreover have "heads_ok (atake a)"
  proof -
    have "distinct (h # aq_posted a @ map fst rest)" "set (h # aq_posted a @ map fst rest) \<subseteq> fl_head ` set (aq_flight a)"
      using ho don by (auto simp: heads_ok_def)
    then have "set (aq_posted a @ map fst rest) \<subseteq> fl_head ` set (aq_flight a) - {h}" "distinct (aq_posted a @ map fst rest)"
      unfolding distinct.simps(2) list.set(2) by blast+
    moreover have "fl_head ` set (aq_flight a) - {h} \<subseteq> fl_head ` set (pre @ suf)" using pp(1,2) by auto
    ultimately show ?thesis unfolding heads_ok_def tk by blast
  qed
  moreover have "used_ok ?q (atake a)"
  proof -
    let ?s = "unat (vq_last_used q)"
    have *: "(unat lu + k) mod ?N = (?s + Suc k) mod ?N" for k
      unfolding lu by (simp add: mod_simps)
    have "lu < vq_num q" using lu num_pos [OF p2] by (simp add: word_less_nat_alt)
    moreover have "unat (vq_used_idx q) mod ?N = (unat lu + length rest) mod ?N" using us don * by (simp add: used_ok_def)
    moreover have "vq_used q (of_nat ((unat lu + k) mod ?N)) = \<lparr>ue_id = ucast (fst (rest ! k)), ue_len = snd (rest ! k)\<rparr>"
      if k: "k < length rest" for k
      using us don k unfolding * used_ok_def by (auto dest!: spec [of _ "Suc k"])
    ultimately show ?thesis unfolding used_ok_def tk qs by blast
  qed
  moreover have "avail_ok ?q (atake a)" using av by (simp add: avail_ok_def tk qs)
  moreover have "pow2_num ?q" using p2 by (simp add: pow2_num_def qs)
  ultimately show ?thesis by (simp add: vq_rep_def)
qed

section \<open>\<open>virtio_from_queue\<close>\<close>

lemma used_empty:
  assumes "vq_rep q tabs a"
  shows "vq_last_used q = vq_used_idx q mod vq_num q \<longleftrightarrow> aq_done a = []"
proof -
  let ?N = "unat (vq_num q)" and ?s = "unat (vq_last_used q)"
  have us: "used_ok q a" using assms by (simp add: vq_rep_def)
  have s: "?s < ?N" using us by (simp add: used_ok_def word_less_nat_alt)
  have n: "length (aq_done a) < ?N" using flights_bound [OF assms] pending_bound [OF assms] by simp
  have "vq_last_used q = vq_used_idx q mod vq_num q \<longleftrightarrow> ?s = (?s + length (aq_done a)) mod ?N"
    using us by (simp add: word_unat_eq_iff unat_mod used_ok_def)
  also have "\<dots> \<longleftrightarrow> aq_done a = []"
    using s n by (cases "?s + length (aq_done a) < ?N") (auto simp: mod_if)
  finally show ?thesis .
qed

lemma from_queue_empty:
  assumes "dev_rep dev qs" "j < length qs" "aq_done (qs ! j) = []"
  shows "virtio_from_queue (int j) dev = Inr (None, dev)"
proof -
  have "vq_rep (queues dev ! j) (indirect dev) (qs ! j)" using assms(1,2) by (simp add: dev_rep_def)
  moreover have "uint (num_queues dev) = int (length qs)" using assms(1) by (simp add: dev_rep_def)
  ultimately show ?thesis
    using get_queue_rep [OF assms(1,2)] used_empty assms(2,3) by (simp add: virtio_from_queue_def)
qed

lemma unat_u32 [simp]: "unat (ucast (w :: u16) :: u32) = unat w"
  using unat_16 [of w] by (simp add: unsigned_ucast_eq take_bit_nat_eq_self)

lemma unat_u16: "unat (w :: u32) < 65536 \<Longrightarrow> unat (ucast w :: u16) = unat w"
  by (simp add: unsigned_ucast_eq take_bit_nat_eq_self)

lemma next_used_unat:
  assumes "vq_rep q tabs a"
  shows "unat (vq_last_used (next_used q)) = Suc (unat (vq_last_used q)) mod unat (vq_num q)"
proof -
  have "unat (ucast (vq_last_used q) + 1 :: u32) = Suc (unat (vq_last_used q))"
    using unat_16 [of "vq_last_used q"] by (simp add: unat_word_ariths)
  then have *: "unat ((ucast (vq_last_used q) + 1) mod ucast (vq_num q) :: u32) = Suc (unat (vq_last_used q)) mod unat (vq_num q)"
    by (simp add: unat_mod)
  have "Suc (unat (vq_last_used q)) mod unat (vq_num q) < 65536"
    using assms num_pos [of q] unat_16 [of "vq_num q"] mod_less_divisor [of "unat (vq_num q)"]
    by (meson order.strict_trans vq_rep_def)
  then show ?thesis using * unat_u16 by (simp add: next_used_def)
qed

lemma next_used_same [simp]:
  "vq_num (next_used q) = vq_num q" "vq_desc (next_used q) = vq_desc q" "vq_data (next_used q) = vq_data q"
  "vq_free_tail (next_used q) = vq_free_tail q"
  by (simp_all add: next_used_def)

lemma used_id_idx:
  assumes "h < vq_num q"
  shows "(ucast (ucast h mod ucast (vq_num q) :: u32) :: u16) = h"
proof -
  have "unat h < unat (vq_num q)" using assms by (simp add: word_less_nat_alt)
  then have "unat (ucast h mod ucast (vq_num q) :: u32) = unat h" by (simp add: unat_mod)
  then have "(ucast h mod ucast (vq_num q) :: u32) = ucast h" by (simp add: word_unat_eq_iff)
  then show ?thesis by simp
qed

lemma finish_used_eq:
  "finish_used i q = q\<lparr>vq_data := (vq_data q)(i := 0), vq_last_used_idx := vq_last_used_idx q + 1,
     vq_avail_flags := 0, vq_used_event := ucast (vq_last_used_idx q + 1)\<rparr>"
  by (simp add: finish_used_def virtio_queue_enable_intr_def Let_def)

text \<open>The queue after the chain of \<open>f\<close> was taken, when clearing the chain gave the descriptors \<open>d4\<close>.\<close>

lemma join_finish_eq:
  "finish_used i (join_free l n ((link_tail h (next_used q))\<lparr>vq_desc := d4\<rparr>))
     = q\<lparr>vq_last_used := vq_last_used (next_used q), vq_desc := d4(l := (d4 l)\<lparr>vd_next := vq_free_head q, vd_flags := 1\<rparr>),
         vq_free_tail := l, vq_free_num := vq_free_num q + of_int n, vq_data := (vq_data q)(i := 0),
         vq_last_used_idx := vq_last_used_idx q + 1, vq_avail_flags := 0, vq_used_event := ucast (vq_last_used_idx q + 1)\<rparr>"
  by (simp add: finish_used_eq join_free_def link_tail_def put_desc_def next_used_def)

lemma done_head:
  assumes "vq_rep q tabs a" "aq_done a = (h, len) # rest"
  shows "h \<in> fl_head ` set (aq_flight a)" "vq_used q (vq_last_used q) = \<lparr>ue_id = ucast h, ue_len = len\<rparr>"
    "flight_ok q tabs (flight_of h a)" "fl_head (flight_of h a) = h" "flight_of h a \<in> set (aq_flight a)" "h < vq_num q"
proof -
  show hh: "h \<in> fl_head ` set (aq_flight a)" using assms by (simp add: vq_rep_def heads_ok_def)
  have us: "used_ok q a" using assms by (simp add: vq_rep_def)
  have "(unat (vq_last_used q) + 0) mod unat (vq_num q) = unat (vq_last_used q)"
    using us by (simp add: used_ok_def word_less_nat_alt)
  moreover have "vq_used q (of_nat ((unat (vq_last_used q) + 0) mod unat (vq_num q))) = \<lparr>ue_id = ucast h, ue_len = len\<rparr>"
    using us assms(2) by (auto simp: used_ok_def dest!: spec [of _ 0])
  ultimately show "vq_used q (vq_last_used q) = \<lparr>ue_id = ucast h, ue_len = len\<rparr>" by simp
  show fo: "flight_ok q tabs (flight_of h a)" and fh: "fl_head (flight_of h a) = h" and fi: "flight_of h a \<in> set (aq_flight a)"
    using flight_split [OF assms(1) hh] by (metis, metis, metis in_set_conv_decomp)
  have "h \<in> set (parts a)" using fi head_in_chain [OF fo] fh by (auto simp: parts_def)
  then show "h < vq_num q" using assms(1) by (simp add: vq_rep_def split_ok_def)
qed

lemma take_queue:
  assumes rep: "vq_rep q tabs a" and don: "aq_done a = (h, len) # rest" and pd: "distinct (map id_paddr tabs)"
    and tabs: "\<forall>g\<in>set (aq_flight a). \<forall>k. fl_head g \<noteq> h \<longrightarrow> fl_tab g = Some k \<longrightarrow> fl_tab (flight_of h a) \<noteq> Some k"
  defines "c \<equiv> fl_chain (flight_of h a)" and "q2 \<equiv> link_tail h (next_used q)"
  shows "\<exists>d4 tabs4. cleared (flight_of h a) q2 tabs d4 tabs4
           \<and> vq_rep (finish_used (ucast h) (join_free (last c) (int (length c)) (q2\<lparr>vq_desc := d4\<rparr>))) tabs4 (atake a)
           \<and> vq_free_num (join_free (last c) (int (length c)) (q2\<lparr>vq_desc := d4\<rparr>)) \<le> vq_num q"
proof -
  let ?f = "flight_of h a" and ?t = "last (aq_free a)"
  note D = done_head [OF rep don]
  have fo: "free_ok q a" and sp: "split_ok q a" using rep by (simp_all add: vq_rep_def)
  have ft: "vq_free_tail q = ?t" and tf: "?t \<in> set (aq_free a)" using fo by (simp_all add: free_ok_def)
  have tc: "?t \<notin> set c" using free_not_flight [OF sp tf D(5)] by (simp add: c_def)
  have d2: "vq_desc q2 = (vq_desc q)(?t := (vq_desc q ?t)\<lparr>vd_next := h\<rparr>)" "vq_data q2 = vq_data q"
    by (simp_all add: q2_def link_tail_def put_desc_def ft)
  have f2: "flight_ok q2 tabs ?f"
    using D(3) tc d2 by (intro flight_frame [OF D(3)]) (auto simp: c_def flight_ok_def indirect_is_def)
  obtain d4 tabs4 where cl: "cleared ?f q2 tabs d4 tabs4" using clear_chain [OF f2 pd] by blast
  have cn: "c \<noteq> []" using flight_nonempty [OF D(3)] by (simp add: c_def)
  define d6 where "d6 = d4(last c := (d4 (last c))\<lparr>vd_next := vq_free_head q, vd_flags := 1\<rparr>)"
  define fn where "fn = vq_free_num q + of_int (int (length c))"
  have d4: "d4 x = vq_desc q2 x" if "x \<noteq> last c" for x using cl that by (simp add: cleared_def c_def)
  have lc: "last c \<in> set c" using cn by simp
  have len: "length (aq_free a) + length c \<le> unat (vq_num q)"
  proof -
    obtain pre suf where "aq_flight a = pre @ ?f # suf" using D(5) by (meson split_list)
    then show ?thesis using parts_length [OF sp] by (simp add: parts_def c_def)
  qed
  have ufn: "unat fn = length (aq_free a) + length c"
  proof -
    have "unat (vq_free_num q) = length (aq_free a)" "unat (of_nat (length c) :: u16) = length c"
      using fo len unat_16 [of "vq_num q"] by (simp_all add: free_ok_def unat_of_nat)
    then show ?thesis unfolding fn_def using len unat_16 [of "vq_num q"] by (simp add: unat_word_ariths)
  qed
  have "vq_rep (q\<lparr>vq_last_used := vq_last_used (next_used q), vq_desc := d6, vq_free_tail := last c, vq_free_num := fn,
      vq_data := (vq_data q)(ucast h := 0), vq_last_used_idx := vq_last_used_idx q + 1, vq_avail_flags := 0,
      vq_used_event := ucast (vq_last_used_idx q + 1)\<rparr>) tabs4 (atake a)"
  proof (rule take_rep [OF rep don c_def [THEN meta_eq_to_obj_eq]])
    show "d6 x = vq_desc q x" if "x \<notin> set c" "x \<noteq> ?t" for x
      using that lc d4 [of x] by (auto simp: d6_def d2)
    show "d6 ?t = (vq_desc q ?t)\<lparr>vd_next := h\<rparr>" using tc lc d4 [of ?t] by (auto simp: d6_def d2)
    have "distinct c" using sp D(5) by (auto simp: split_ok_def parts_def c_def distinct_concat_iff)
    then have bl: "x \<noteq> last c" if "x \<in> set (butlast c)" for x using butlast_not_last [OF _ that] by simp
    have "chained d6 c = chained (vq_desc q2) c"
      by (rule chained_cong) (simp add: bl d6_def d4)
    then show "chained d6 c" using cl by (simp add: cleared_def c_def)
    show "vd_flags (d6 x) AND 1 \<noteq> 0" if "x \<in> set c" for x
    proof (cases "x = last c")
      case False
      then have "x \<in> set (butlast c)" using that cn by (metis append_butlast_last_id in_set_conv_decomp set_ConsD rotate1.simps(2) set_rotate1)
      then show ?thesis using cl False d4 by (simp add: cleared_def c_def d6_def)
    qed (simp add: d6_def)
    show "k < length tabs4 \<and> tabs4 ! k = tabs ! k" if "g \<in> set (aq_flight a)" "fl_head g \<noteq> h" "fl_tab g = Some k" for g k
    proof -
      have "flight_ok q tabs g" using rep that(1) by (simp add: vq_rep_def)
      then have "k < length tabs" using that(3) by (simp add: flight_ok_def indirect_is_def)
      moreover have "length tabs4 = length tabs" using cl by (metis cleared_def length_map)
      ultimately show ?thesis using tabs that cl by (simp add: cleared_def)
    qed
  qed (fact ufn next_used_unat [OF rep])+
  then have "vq_rep (finish_used (ucast h) (join_free (last c) (int (length c)) (q2\<lparr>vq_desc := d4\<rparr>))) tabs4 (atake a)"
    unfolding q2_def join_finish_eq d6_def fn_def .
  moreover have "vq_free_num (join_free (last c) (int (length c)) (q2\<lparr>vq_desc := d4\<rparr>)) = fn"
    by (simp add: join_free_def put_desc_def fn_def q2_def link_tail_def next_used_def)
  moreover have "fn \<le> vq_num q" using ufn len by (simp add: word_le_nat_alt)
  ultimately show ?thesis using cl by (intro exI [of _ d4] exI [of _ tabs4] conjI) simp_all
qed

lemma tabs_of_inj:
  assumes "distinct (tabs_of a)" "f \<in> set (aq_flight a)" "g \<in> set (aq_flight a)" "fl_tab f = Some k" "fl_tab g = Some k"
    "distinct (aq_flight a)"
  shows "f = g"
proof (rule ccontr)
  assume "f \<noteq> g"
  obtain pre suf where s: "aq_flight a = pre @ f # suf" using assms(2) by (meson split_list)
  then have "g \<in> set (pre @ suf)" using assms(3) \<open>f \<noteq> g\<close> by auto
  then have "k \<in> set (List.map_filter fl_tab (pre @ suf))" using assms(5) by (force simp: List.map_filter_def)
  moreover have "tabs_of a = List.map_filter fl_tab pre @ k # List.map_filter fl_tab suf"
    using s assms(4) by (simp add: tabs_of_def List.map_filter_simps)
  ultimately show False using assms(1) by auto
qed

lemma flights_distinct:
  assumes "vq_rep q tabs a"
  shows "distinct (aq_flight a)"
proof -
  have "distinct (concat (map fl_chain (aq_flight a)))" using assms by (simp add: vq_rep_def split_ok_def parts_def)
  moreover have "\<forall>f\<in>set (aq_flight a). fl_chain f \<noteq> []" using assms flight_nonempty unfolding vq_rep_def by blast
  then have "[] \<notin> set (map fl_chain (aq_flight a))" by force
  then have "removeAll [] (map fl_chain (aq_flight a)) = map fl_chain (aq_flight a)" by (rule removeAll_id)
  ultimately have "distinct (map fl_chain (aq_flight a))" by (simp add: distinct_concat_iff)
  then show ?thesis by (simp add: distinct_map)
qed

lemma tabs_of_atake:
  assumes "aq_done a = (h, len) # rest"
  shows "tabs_of (atake a) = List.map_filter fl_tab (filter (\<lambda>f. fl_head f \<noteq> h) (aq_flight a))"
  using assms by (simp add: tabs_of_def atake_def)

lemma map_filter_sub:
  "distinct (List.map_filter g xs) \<Longrightarrow> distinct (List.map_filter g (filter P xs))"
  "set (List.map_filter g (filter P xs)) \<subseteq> set (List.map_filter g xs)"
proof -
  have "filter (\<lambda>x. g x \<noteq> None) (filter P xs) = filter P (filter (\<lambda>x. g x \<noteq> None) xs)" by (simp add: conj_commute)
  then have "List.map_filter g (filter P xs) = map (the \<circ> g) (filter P (filter (\<lambda>x. g x \<noteq> None) xs))"
    by (simp only: List.map_filter_def)
  then show "distinct (List.map_filter g xs) \<Longrightarrow> distinct (List.map_filter g (filter P xs))"
    by (simp add: List.map_filter_def distinct_map_filter del: filter_filter)
  show "set (List.map_filter g (filter P xs)) \<subseteq> set (List.map_filter g xs)"
    by (auto simp: List.map_filter_def)
qed

lemma from_queue_take:
  fixes dev :: "'w virtio_dev"
  assumes rep: "dev_rep dev qs" "j < length qs" and don: "aq_done (qs ! j) = (h, len) # rest"
  shows "\<exists>dev'. virtio_from_queue (int j) dev = Inr (Some (fl_data (flight_of h (qs ! j)), ucast len), dev')
           \<and> dev_rep dev' (qs[j := atake (qs ! j)]) \<and> same_device dev dev' \<and> conf dev' = conf dev
           \<and> (\<forall>i. vq_callback (queues dev' ! i) = vq_callback (queues dev ! i) \<and> vq_avail_idx (queues dev' ! i) = vq_avail_idx (queues dev ! i))"
proof -
  let ?q = "queues dev ! j" and ?a = "qs ! j" and ?f = "flight_of h (qs ! j)"
  let ?c = "fl_chain ?f" and ?q2 = "link_tail h (next_used ?q)"
  have vr: "vq_rep ?q (indirect dev) ?a" and nq: "uint (num_queues dev) = int (length qs)" "length (queues dev) = length qs"
    and pd: "distinct (map id_paddr (indirect dev))"
    using rep by (simp_all add: dev_rep_def)
  note D = done_head [OF vr don]
  have "fl_tab ?f \<noteq> Some k" if "g \<in> set (aq_flight ?a)" "fl_head g \<noteq> h" "fl_tab g = Some k" for g k
    using tabs_of_inj [OF tabs_of_distinct(1) [OF rep] that(1) D(5) that(3) _ flights_distinct [OF vr]] that(2) D(4) by auto
  then have tabs: "\<forall>g\<in>set (aq_flight ?a). \<forall>k. fl_head g \<noteq> h \<longrightarrow> fl_tab g = Some k \<longrightarrow> fl_tab ?f \<noteq> Some k" by blast
  obtain d4 tabs4 where cl: "cleared ?f ?q2 (indirect dev) d4 tabs4"
    and nr: "vq_rep (finish_used (ucast h) (join_free (last ?c) (int (length ?c)) (?q2\<lparr>vq_desc := d4\<rparr>))) tabs4 (atake ?a)"
    and le: "vq_free_num (join_free (last ?c) (int (length ?c)) (?q2\<lparr>vq_desc := d4\<rparr>)) \<le> vq_num ?q"
    using take_queue [OF vr don pd tabs] by blast
  define q7 where "q7 = join_free (last ?c) (int (length ?c)) (?q2\<lparr>vq_desc := d4\<rparr>)"
  define dev' where "dev' = put_queue (int j) (finish_used (ucast h) q7) (dev\<lparr>indirect := tabs4\<rparr>)"
  have q7: "vq_num q7 = vq_num ?q" "vq_data q7 = vq_data ?q" "vq_callback q7 = vq_callback ?q" "vq_avail_idx q7 = vq_avail_idx ?q"
    by (simp_all add: q7_def join_free_def put_desc_def link_tail_def next_used_def)
  have fo: "free_ok ?q ?a" using vr by (simp add: vq_rep_def)
  have data: "vq_data ?q (ucast h) = fl_data ?f" "fl_data ?f \<noteq> 0" using D(3,4) by (simp_all add: flight_ok_def)
  have loop: "chain_loop h 0 ?q2 (indirect dev) = Some (Inr (last ?c, int (length ?c) - 1, ?q2, indirect dev))"
    and clr: "clear_if_indirect (last ?c) ?q2 (indirect dev) = Inr (?q2\<lparr>vq_desc := d4\<rparr>, tabs4)"
    and flg: "vd_flags (d4 (last ?c)) AND 1 = 0"
    and pad: "map id_paddr tabs4 = map id_paddr (indirect dev)" and oth: "\<forall>k. fl_tab ?f \<noteq> Some k \<longrightarrow> tabs4 ! k = indirect dev ! k"
    using cl D(4) by (simp_all add: cleared_def)
  have tail: "vd_flags (vq_desc ?q (vq_free_tail ?q)) AND 1 \<noteq> 0" using fo by (simp add: free_ok_def)
  have ne: "vq_last_used ?q \<noteq> vq_used_idx ?q mod vq_num ?q" using used_empty [OF vr] don by simp
  have "virtio_from_queue (int j) dev = Inr (Some (fl_data ?f, ucast len), dev')"
    using get_queue_rep [OF rep] rep(2) nq(1) ne D(2) used_id_idx [OF D(6)] data loop clr flg tail le q7(1,2)
    by (simp add: virtio_from_queue_def Let_def dev'_def q7_def [symmetric])
  moreover have "dev_rep dev' (qs[j := atake ?a])"
  proof (rule dev_rep_update [OF rep nr, where A = "{}"])
    show "queues dev' = (queues dev)[j := finish_used (ucast h) (join_free (last ?c) (int (length ?c)) (?q2\<lparr>vq_desc := d4\<rparr>))]"
      "num_queues dev' = num_queues dev" "indirect dev' = tabs4"
      by (simp_all add: dev'_def put_queue_def q7_def)
    show "map id_paddr tabs4 = map id_paddr (indirect dev)" by (fact pad)
    show "k < length tabs4 \<and> tabs4 ! k = indirect dev ! k" if k: "k \<in> set (concat (map tabs_of qs)) - set (tabs_of ?a)" for k
    proof -
      have "fl_tab ?f \<noteq> Some k" using k flight_tab_in [OF D(5)] by blast
      moreover have "length tabs4 = length (indirect dev)" using pad by (metis length_map)
      ultimately show ?thesis using oth tabs_in_use [OF rep(1), of k] k by simp
    qed
    show "distinct (tabs_of (atake ?a))" "set (tabs_of (atake ?a)) \<subseteq> set (tabs_of ?a) \<union> {}"
      unfolding tabs_of_atake [OF don] using map_filter_sub(1) tabs_of_distinct(1) [OF rep]
        map_filter_sub(2) [of fl_tab "\<lambda>f. fl_head f \<noteq> h" "aq_flight ?a"] by (simp_all add: tabs_of_def)
  qed simp
  moreover have "vq_callback (queues dev' ! i) = vq_callback (queues dev ! i) \<and> vq_avail_idx (queues dev' ! i) = vq_avail_idx (queues dev ! i)" for i
    using rep(2) nq(2) q7(3,4) by (cases "i = j") (simp_all add: dev'_def put_queue_def finish_used_eq)
  ultimately show ?thesis by (auto simp: dev'_def put_queue_def same_device_def)
qed

end
