(* ===== verification/Virtio_Setup.thy ===== *)
theory Virtio_Setup
  imports Virtio_Return Slub_Parts
begin

text \<open>
  Setting up the queues of a virtio device, \<open>libs/libvirtio/virtio.c\<close>: how many queues the device has, the
  memory of their rings and of the tables of indirect descriptors, which comes from the page calls and
  from the allocator of small objects, and the first state of a ring.
\<close>

section \<open>Model\<close>

abbreviation (input) PAGE_SIZE_4K :: ulong where "PAGE_SIZE_4K \<equiv> 0x1000"
abbreviation (input) max_virtqueues_nr :: u16 where "max_virtqueues_nr \<equiv> 64"
abbreviation (input) MAPVEC_NR :: nat where "MAPVEC_NR \<equiv> 64"

definition zero_desc :: vring_desc where
  "zero_desc = \<lparr>vd_addr = 0, vd_len = 0, vd_flags = 0, vd_next = 0\<rparr>"

text \<open>The ring is cleared, then every descriptor is linked to the next one.\<close>

definition init_phys_queue :: "virtio_queue \<Rightarrow> virtio_queue" where
  "init_phys_queue q = q\<lparr>
     vq_page := ucast (vq_paddr q div PAGE_SIZE_4K),
     vq_desc := (\<lambda>i. if i < vq_num q
        then zero_desc\<lparr>vd_flags := VRING_DESC_F_NEXT, vd_next := (i + 1) AND (vq_num q - 1)\<rparr> else vq_desc q i),
     vq_avail_flags := 0, vq_avail_idx := 0, vq_avail := (\<lambda>i. if i < vq_num q then 0 else vq_avail q i), vq_used_event := 0,
     vq_used_flags := 0, vq_used_idx := 0, vq_used := (\<lambda>i. if i < vq_num q then \<lparr>ue_id = 0, ue_len = 0\<rparr> else vq_used q i),
     vq_data := (\<lambda>i. if i < ucast (vq_num q) then 0 else vq_data q i),
     vq_free_num := vq_num q, vq_free_head := 0, vq_free_tail := vq_num q - 1, vq_last_used := 0, vq_last_used_idx := 0\<rparr>"

definition setup_queue :: "host \<Rightarrow> virtio_queue \<Rightarrow> 'w virtio_dev \<Rightarrow> 'w virtio_dev outcome" where
  "setup_queue h q dev =
     andThen
       (if msix dev
        then (case virtio_conf_readw h 22 (virtio_conf_writew 22 (vq_index q) dev) of (v, dev1) \<Rightarrow>
              if v \<noteq> vq_index q then panic else Inr dev1)
        else Inr dev)
       (\<lambda>dev1. Inr (virtio_conf_writel 8 (ucast (drop_bit 12 (vq_paddr q))) dev1))"

definition alloc_phys_queue :: "ulong \<Rightarrow> virtio_queue \<Rightarrow> slub \<Rightarrow> (int \<times> virtio_queue \<times> slub) outcome" where
  "alloc_phys_queue junk q st =
     (let rs = vring_size (ucast (vq_num q)) PAGE_SIZE_4K;
          q1 = q\<lparr>vq_ring_size := rs\<rparr>
      in andThen (yaos_heap_alloc_4k junk (ucast ((rs + 0x1000 - 1) AND NOT (0x1000 - 1))) st) (\<lambda>(a, st1).
         let q2 = q1\<lparr>vq_vaddr := a\<rparr>
         in if a = 0 then Inr (ENOMEM, q2, st1)
            else andThen (yaos_v2p junk a st1) (\<lambda>(p, st2).
                 andThen (yaos_heap_alloc_4k junk PAGE_SIZE_4K st2) (\<lambda>(d, st3).
                 andThen (ASSERT (8 * unat (vq_num q) < 0x1000)) (\<lambda>_.
                 if d = 0 then panic
                 else Inr (0, q2\<lparr>vq_paddr := p, vq_data_at := d\<rparr>, st3))))))"

definition free_phys_queue :: "virtio_queue \<Rightarrow> virtio_queue outcome" where
  "free_phys_queue q =
     andThen (ASSERT (vq_vaddr q \<noteq> 0)) (\<lambda>_. Inr (q\<lparr>vq_vaddr := 0, vq_paddr := 0, vq_num := 0, vq_data_at := 0\<rparr>))"

primrec free_all :: "nat list \<Rightarrow> 'w virtio_dev \<Rightarrow> 'w virtio_dev outcome" where
  "free_all [] dev = Inr dev"
| "free_all (i # js) dev =
     andThen (get_queue (int i) dev) (\<lambda>q.
     andThen (free_phys_queue q) (\<lambda>q1. free_all js (put_queue (int i) q1 dev)))"

definition virtio_free_queues :: "'w virtio_dev \<Rightarrow> 'w virtio_dev outcome" where
  "virtio_free_queues dev =
     andThen (ASSERT (queues_at dev \<noteq> 0)) (\<lambda>_.
     andThen (ASSERT (num_queues dev > 0)) (\<lambda>_.
     andThen (free_all [0..<unat (num_queues dev)] dev) (\<lambda>dev1.
     Inr (dev1\<lparr>num_queues := 0, queues_at := 0, queues := []\<rparr>))))"

text \<open>The error path of line 667: for every \<open>j < i\<close> it frees queue \<open>i\<close>.\<close>

definition free_failed :: "nat \<Rightarrow> 'w virtio_dev \<Rightarrow> 'w virtio_dev outcome" where
  "free_failed i dev = free_all (replicate i i) dev"

definition init_one_queue :: "host \<Rightarrow> ulong \<Rightarrow> nat \<Rightarrow> 'w virtio_dev \<Rightarrow> slub \<Rightarrow> (int \<times> 'w virtio_dev \<times> slub) outcome" where
  "init_one_queue h junk i dev st =
     andThen (get_queue (int i) dev) (\<lambda>q.
     case virtio_conf_readw h 12 (virtio_conf_writew 14 (of_nat i) dev) of (n, dev1) \<Rightarrow>
     let q1 = q\<lparr>vq_num := n, vq_index := of_nat i\<rparr>;
         dev2 = put_queue (int i) q1 dev1
     in if (ucast n AND (ucast n - 1) :: u32) \<noteq> 0 then Inr (EINVAL, dev2, st)
        else andThen (alloc_phys_queue junk q1 st) (\<lambda>(r, q2, st1).
             let dev3 = put_queue (int i) q2 dev2
             in if r \<noteq> 0 then Inr (r, dev3, st1)
                else let q3 = init_phys_queue q2
                     in andThen (setup_queue h q3 (put_queue (int i) q3 dev3)) (\<lambda>dev4. Inr (0, dev4, st1))))"

primrec init_queues_loop :: "host \<Rightarrow> ulong \<Rightarrow> nat list \<Rightarrow> 'w virtio_dev \<Rightarrow> slub \<Rightarrow> (int \<times> 'w virtio_dev \<times> slub) outcome" where
  "init_queues_loop h junk [] dev st = Inr (0, dev, st)"
| "init_queues_loop h junk (i # js) dev st =
     andThen (init_one_queue h junk i dev st) (\<lambda>(r, dev1, st1).
     if r \<noteq> 0 then andThen (free_failed i dev1) (\<lambda>dev2. Inr (r, dev2, st1))
     else init_queues_loop h junk js dev1 st1)"

definition init_phys_queues :: "host \<Rightarrow> ulong \<Rightarrow> 'w virtio_dev \<Rightarrow> slub \<Rightarrow> (int \<times> 'w virtio_dev \<times> slub) outcome" where
  "init_phys_queues h junk dev st = init_queues_loop h junk [0..<unat (num_queues dev)] dev st"

definition zero_queue :: virtio_queue where
  "zero_queue = \<lparr>vq_vaddr = 0, vq_paddr = 0, vq_page = 0, vq_num = 0, vq_index = 0, vq_ring_size = 0, vq_last_used_idx = 0,
     vq_desc = (\<lambda>_. zero_desc), vq_avail_flags = 0, vq_avail_idx = 0, vq_avail = (\<lambda>_. 0), vq_used_event = 0, vq_used_flags = 0,
     vq_used_idx = 0, vq_used = (\<lambda>_. \<lparr>ue_id = 0, ue_len = 0\<rparr>), vq_free_num = 0, vq_free_head = 0, vq_free_tail = 0, vq_last_used = 0,
     vq_callback = 0, vq_data_at = 0, vq_data = (\<lambda>_. 0)\<rparr>"

text \<open>
  \<open>sizeof(struct virtio_queue)\<close> is 144. The result of \<open>init_phys_queues\<close> is compared before it is
  assigned, so \<open>r\<close> is 0 or 1.
\<close>

definition virtio_alloc_queues :: "host \<Rightarrow> ulong \<Rightarrow> int \<Rightarrow> 'w virtio_dev \<Rightarrow> slub \<Rightarrow> (int \<times> 'w virtio_dev \<times> slub) outcome" where
  "virtio_alloc_queues h junk n dev st =
     (if n < 0 \<or> n > 256 then Inr (EINVAL, dev, st)
      else andThen (yaos_malloc junk (of_int n * 144) st) (\<lambda>(a, st1).
           let dev1 = dev\<lparr>num_queues := of_int n, queues_at := a\<rparr>
           in if a = 0 then Inr (ENOMEM, dev1, st1)
              else andThen (init_phys_queues h junk (dev1\<lparr>queues := replicate (nat n) zero_queue\<rparr>) st1) (\<lambda>(r0, dev2, st2).
                   let r = (if r0 \<noteq> 0 then 1 else 0)
                   in if r \<noteq> 0
                      then andThen (yaos_mfree junk (queues_at dev2) st2) (\<lambda>st3.
                           Inr (r, dev2\<lparr>queues_at := 0, queues := []\<rparr>, st3))
                      else Inr (r, dev2, st2))))"

definition init_indirect_desc_table :: "ulong \<Rightarrow> indirect_desc_table \<Rightarrow> slub \<Rightarrow> (int \<times> indirect_desc_table \<times> slub) outcome" where
  "init_indirect_desc_table junk tab st =
     (let len = of_nat ((MAPVEC_NR + MAPVEC_NR div 2) * 16) :: ulong
      in andThen (ASSERT (len < PAGE_SIZE_4K)) (\<lambda>_.
         andThen (yaos_heap_alloc_4k junk PAGE_SIZE_4K st) (\<lambda>(a, st1).
         let t1 = tab\<lparr>in_use := False, id_len := len, id_descs_at := a\<rparr>
         in if a = 0 then Inr (ENOMEM, t1, st1)
            else andThen (yaos_v2p junk a st1) (\<lambda>(p, st2).
                 Inr (0, t1\<lparr>id_paddr := p, id_descs := (\<lambda>k. if k < unat len div 16 then zero_desc else id_descs t1 k)\<rparr>, st2)))))"

primrec init_tables_loop :: "ulong \<Rightarrow> indirect_desc_table list \<Rightarrow> slub \<Rightarrow> (indirect_desc_table list \<times> slub) outcome" where
  "init_tables_loop junk [] st = Inr ([], st)"
| "init_tables_loop junk (tab # tabs) st =
     andThen (init_indirect_desc_table junk tab st) (\<lambda>(r, t1, st1).
     if r \<noteq> 0 then panic
     else andThen (init_tables_loop junk tabs st1) (\<lambda>(ts, st2). Inr (t1 # ts, st2)))"

text \<open>\<open>sizeof(struct indirect_desc_table)\<close> is 32.\<close>

definition init_indirect_desc_tables :: "ulong \<Rightarrow> 'w virtio_dev \<Rightarrow> slub \<Rightarrow> (int \<times> 'w virtio_dev \<times> slub) outcome" where
  "init_indirect_desc_tables junk dev st =
     andThen (yaos_malloc junk (of_int (num_indirect dev) * 32) st) (\<lambda>(a, st1).
     if a = 0 then panic
     else andThen (init_tables_loop junk
            (replicate (nat (num_indirect dev))
              \<lparr>in_use = False, id_descs = (\<lambda>_. zero_desc), id_descs_at = 0, id_paddr = 0, id_len = 0\<rparr>) st1)
            (\<lambda>(ts, st2). Inr (0, dev\<lparr>indirect := ts\<rparr>, st2)))"

lemma unat_suc_64: "\<not> (64 :: u16) \<le> n \<Longrightarrow> unat (n + 1) = Suc (unat n)"
  by (simp add: word_le_nat_alt unat_word_ariths)

text \<open>The loop over the queues the device has, at most 64 of them.\<close>

function probe_loop :: "host \<Rightarrow> 'w virtio_dev \<Rightarrow> 'w virtio_dev" where
  "probe_loop h p =
     (if num_queues p \<ge> max_virtqueues_nr then p
      else case virtio_conf_readw h 12 (virtio_conf_writew 14 (num_queues p) p) of (qsize, p1) \<Rightarrow>
           if qsize = 0 then p1 else probe_loop h (p1\<lparr>num_queues := num_queues p1 + 1\<rparr>))"
  by pat_completeness auto

termination
  by (relation "measure (\<lambda>(h, p). 64 - unat (num_queues p))")
    (auto simp: virtio_conf_readw_def virtio_conf_writew_def unat_suc_64 word_le_nat_alt)

definition virtio_probe_queues :: "host \<Rightarrow> 'w virtio_dev \<Rightarrow> 'w virtio_dev" where
  "virtio_probe_queues h p = probe_loop h (p\<lparr>num_queues := 0\<rparr>)"

section \<open>The first state of a ring\<close>

definition fresh_queue :: "u16 \<Rightarrow> aqueue" where
  "fresh_queue n = \<lparr>aq_free = map of_nat [0..<unat n], aq_flight = [], aq_seen = 0, aq_posted = [], aq_done = []\<rparr>"

lemma mask_next:
  fixes n i :: u16
  assumes "unat n = 2 ^ k" "k < 16" "unat i < 2 ^ k"
  shows "i AND (n - 1) = i"
proof -
  have "n = 2 ^ k" using u16_of_unat [OF assms(1)] by simp
  then have "n - 1 = mask k" by (simp add: mask_eq_exp_minus_1)
  then have "i AND (n - 1) = take_bit k i" by (simp add: take_bit_eq_mask)
  also have "\<dots> = i" using assms(3) by (simp add: word_unat_eq_iff unsigned_take_bit_eq take_bit_nat_eq_self)
  finally show ?thesis .
qed

lemma chained_upt:
  assumes "\<And>i. Suc i < n \<Longrightarrow> m \<le> i \<Longrightarrow> vd_next (d (of_nat i)) = of_nat (Suc i)"
  shows "chained d (map of_nat [m..<n])"
  using assms
proof (induction "n - m" arbitrary: m)
  case (Suc l)
  then have up: "[m..<n] = m # [Suc m..<n]" by (simp add: upt_rec)
  have "chained d (map of_nat [Suc m..<n])" using Suc by (intro Suc(1)) simp_all
  then show ?case using Suc(3) [of m] unfolding up by (cases "Suc m < n") (simp_all add: chained_Cons upt_rec)
qed simp

lemma init_phys_queue_rep:
  assumes "unat (vq_num q) = 2 ^ k" "k < 16"
  shows "vq_rep (init_phys_queue q) tabs (fresh_queue (vq_num q))"
proof -
  let ?q = "init_phys_queue q" and ?a = "fresh_queue (vq_num q)" and ?N = "unat (vq_num q)"
  have n0: "0 < ?N" using assms(1) by simp
  have u: "unat (of_nat i :: u16) = i" if "i < ?N" for i using pos_unat that by blast
  have lt: "(of_nat i :: u16) < vq_num q" if "i < ?N" for i using u [OF that] that by (simp add: word_less_nat_alt)
  have "pow2_num ?q" using assms by (auto simp: pow2_num_def init_phys_queue_def)
  moreover have "split_ok ?q ?a"
  proof -
    have "inj_on (of_nat :: nat \<Rightarrow> u16) {0..<?N}" by (rule inj_on_inverseI [where g = unat]) (simp add: u)
    moreover have "(of_nat :: nat \<Rightarrow> u16) ` {0..<?N} = {i. i < vq_num q}"
    proof (intro set_eqI iffI)
      fix i assume "i \<in> {i. i < vq_num q}"
      then have "i = of_nat (unat i)" "unat i \<in> {0..<?N}" by (simp_all add: word_less_nat_alt)
      then show "i \<in> of_nat ` {0..<?N}" by blast
    qed (use lt in auto)
    ultimately show ?thesis by (simp add: split_ok_def parts_def fresh_queue_def init_phys_queue_def distinct_map)
  qed
  moreover have "free_ok ?q ?a"
  proof -
    have "vd_next (vq_desc ?q (of_nat i)) = of_nat (Suc i)" if "Suc i < ?N" for i
    proof -
      have "(of_nat i + 1 :: u16) AND (vq_num q - 1) = of_nat i + 1"
        using mask_next [OF assms, of "of_nat (Suc i)"] u [OF that] that assms(1) by (simp add: add.commute)
      then show ?thesis using lt [of i] that by (simp add: init_phys_queue_def add.commute)
    qed
    then have "chained (vq_desc ?q) (map of_nat [0..<?N])" by (intro chained_upt) simp
    moreover have "last (map of_nat [0..<?N]) = vq_num q - 1"
      using n0 by (simp add: last_map of_nat_diff)
    moreover have "hd (map of_nat [0..<?N]) = (0 :: u16)" using n0 by (simp add: hd_map)
    ultimately show ?thesis
      using n0 lt by (simp add: free_ok_def fresh_queue_def) (auto simp: init_phys_queue_def)
  qed
  moreover have "used_ok ?q ?a" using n0 by (simp add: used_ok_def fresh_queue_def init_phys_queue_def word_less_nat_alt)
  moreover have "avail_ok ?q ?a" by (simp add: avail_ok_def fresh_queue_def init_phys_queue_def)
  ultimately show ?thesis by (simp add: vq_rep_def heads_ok_def fresh_queue_def)
qed

section \<open>The layout of a ring\<close>

lemma unat_u16_ulong: "unat (ucast (ucast (n :: u16) :: u32) :: ulong) = unat n"
proof -
  have "unat (ucast w :: ulong) = unat w" for w :: u32
  proof -
    have "unat w < 4294967296" using unsigned_less [of w] by simp
    then show ?thesis by (simp add: unsigned_ucast_eq take_bit_nat_eq_self)
  qed
  then show ?thesis by (simp only: unat_u32)
qed

lemma round_4k_aligned:
  fixes p :: nat
  assumes "4096 dvd p"
  shows "(p + x) - (p + x) mod 4096 = p + (x - x mod 4096)"
proof -
  have "(p + x) mod 4096 = x mod 4096" using assms by (metis dvd_eq_mod_eq_0 mod_add_left_eq add_0)
  moreover have "x mod 4096 \<le> x" by simp
  ultimately show ?thesis by simp
qed

lemma vring_avail_at_eq:
  assumes "unat p + 2 ^ 22 < 2 ^ 64"
  shows "unat (vring_avail_at (ucast (n :: u16)) p) = unat p + 16 * unat n"
proof -
  define N where "N = unat n"
  have N: "N < 65536" "unat (ucast (ucast n :: u32) :: ulong) = N" using unat_16 [of n] unat_u16_ulong by (simp_all add: N_def)
  then show ?thesis using assms unfolding vring_avail_at_def N_def [symmetric] by (simp add: unat_word_ariths)
qed

lemma vring_used_at_eq:
  assumes "4096 dvd unat p" "unat p + 2 ^ 22 < 2 ^ 64"
  defines "x \<equiv> \<lambda>n :: u16. 18 * unat n + 4101"
  shows "unat (vring_used_at (ucast n) p 0x1000) = unat p + (x n - x n mod 4096)"
proof -
  define N where "N = unat n"
  have N: "N < 65536" "unat (ucast (ucast n :: u32) :: ulong) = N" using unat_16 [of n] unat_u16_ulong by (simp_all add: N_def)
  have "unat (vring_avail_at (ucast n) p + 4 + 2 * ucast (ucast n :: u32) + 2 + 0x1000 - 1) = unat p + x n"
    using vring_avail_at_eq [OF assms(2), of n] N assms(2) unfolding x_def N_def [symmetric] by (simp add: unat_word_ariths)
  then show ?thesis
    unfolding vring_used_at_def using round_4k_aligned [OF assms(1)] mask_4k(2) by simp
qed

text \<open>
  The parts of a ring do not overlap and fill the memory vring_size asks for: at a page boundary the
  descriptors take 16 bytes each, the avail ring with its event word ends before the page of the used ring,
  and the event word behind the used ring is the last of vring_size bytes.\<close>

theorem vring_layout:
  assumes "4096 dvd unat p" "unat p + 2 ^ 22 < 2 ^ 64"
  shows "unat (vring_avail_at (ucast (n :: u16)) p) = unat p + 16 * unat n
       \<and> unat (vring_used_event (ucast n) p) + 2 \<le> unat (vring_used_at (ucast n) p 0x1000)
       \<and> 4096 dvd unat (vring_used_at (ucast n) p 0x1000)
       \<and> unat (vring_avail_event (ucast n) p 0x1000) + 2 = unat p + unat (vring_size (ucast n) 0x1000)"
proof -
  define N where "N = unat n"
  define x where "x = 18 * N + 4101"
  have N: "N < 65536" "unat (ucast (ucast n :: u32) :: ulong) = N" using unat_16 [of n] unat_u16_ulong by (simp_all add: N_def)
  have av: "unat (vring_avail_at (ucast n) p) = unat p + 16 * N" using vring_avail_at_eq [OF assms(2)] by (simp add: N_def)
  define r where "r = x - x mod 4096"
  have us: "unat (vring_used_at (ucast n) p 0x1000) = unat p + r"
    using vring_used_at_eq [OF assms] by (simp add: N_def x_def r_def)
  have r: "r < 2 ^ 21" "18 * N + 6 \<le> r" "4096 dvd r"
    using N(1) mod_less_divisor [of 4096 x] by (simp_all add: x_def r_def minus_mod_eq_mult_div)
  have ev: "unat (vring_used_event (ucast n) p) = unat p + 18 * N + 4"
    unfolding vring_used_event_def using av N assms(2) by (simp add: unat_word_ariths)
  have ae: "unat (vring_avail_event (ucast n) p 0x1000) = unat p + r + 4 + 8 * N"
    unfolding vring_avail_event_def using us N r assms(2) by (simp add: unat_word_ariths)
  define y where "y = 16 * ucast (ucast n :: u32) + 2 * (3 + ucast (ucast n :: u32)) + 0x1000 - (1 :: ulong)"
  have "unat y = x" unfolding y_def x_def using N by (simp add: unat_word_ariths)
  then have "unat (y AND NOT 0xfff) = r" using mask_4k(2) [of y] by (simp add: r_def)
  then have "unat ((y AND NOT 0xfff) + 2 * 3 + 8 * ucast (ucast n :: u32)) = r + 6 + 8 * N"
    using N r by (simp add: unat_word_ariths)
  then have "unat (vring_size (ucast n) 0x1000) = r + 6 + 8 * N"
    unfolding vring_size_def using N r y_def by (simp add: unsigned_ucast_eq take_bit_nat_eq_self)
  then show ?thesis using av us ev ae r assms(1) by (simp add: N_def)
qed

theorem vring_layout_witness:
  "unat (vring_avail_at (ucast (256 :: u16)) 0x100000) = 0x101000 \<and> unat (vring_used_at (ucast (256 :: u16)) 0x100000 0x1000) mod 4096 = 0"
  using vring_layout [of "0x100000" "256"] by simp

section \<open>Probing\<close>

text \<open>A device whose queues have the sizes \<open>sizes\<close>: the size it answers is the one of the queue selected last.\<close>

fun selected :: "conf_op list \<Rightarrow> u16" where
  "selected [] = 0"
| "selected (Writew off v # ops) = (if off = 14 then v else selected ops)"
| "selected (_ # ops) = selected ops"

definition sized_host :: "(nat \<Rightarrow> u16) \<Rightarrow> host" where
  "sized_host sizes ops off = (if off = 12 then ucast (sizes (unat (selected (rev ops)))) else 0)"

lemma probe_loop_eq:
  fixes p :: "'w virtio_dev"
  assumes "unat (num_queues p) \<le> 64"
  shows "unat (num_queues (probe_loop (sized_host sizes) p))
           = unat (num_queues p) + length (takeWhile (\<lambda>i. sizes i \<noteq> 0) [unat (num_queues p)..<64])"
  using assms
proof (induction "64 - unat (num_queues p)" arbitrary: p)
  case 0
  then have "num_queues p \<ge> 64" by (simp add: word_le_nat_alt)
  then show ?case using 0 by (subst probe_loop.simps) simp
next
  case (Suc n)
  let ?i = "num_queues p"
  have lt: "\<not> 64 \<le> ?i" "unat ?i < 64" using Suc(2) by (auto simp: word_le_nat_alt)
  define p1 where "p1 = p\<lparr>conf := conf p @ [Writew 14 ?i, Readw 12]\<rparr>"
  have read: "virtio_conf_readw (sized_host sizes) 12 (virtio_conf_writew 14 ?i p) = (sizes (unat ?i), p1)"
    by (simp add: virtio_conf_readw_def virtio_conf_writew_def sized_host_def p1_def)
  have up: "[unat ?i..<64] = unat ?i # [Suc (unat ?i)..<64]" using lt(2) by (simp add: upt_rec)
  show ?case
  proof (cases "sizes (unat ?i) = 0")
    case True
    then show ?thesis using lt read up by (subst probe_loop.simps) (simp add: p1_def)
  next
    case False
    define p2 where "p2 = p1\<lparr>num_queues := num_queues p1 + 1\<rparr>"
    have n2: "unat (num_queues p2) = Suc (unat ?i)" using unat_suc_64 lt(1) by (simp add: p2_def p1_def)
    have "unat (num_queues (probe_loop (sized_host sizes) p2))
        = unat (num_queues p2) + length (takeWhile (\<lambda>i. sizes i \<noteq> 0) [unat (num_queues p2)..<64])"
      using Suc(2) lt(2) n2 by (intro Suc(1)) simp_all
    moreover have "probe_loop (sized_host sizes) p = probe_loop (sized_host sizes) p2"
      using lt(1) read False by (subst probe_loop.simps) (simp add: p2_def)
    ultimately show ?thesis using False n2 up by simp
  qed
qed

text \<open>
  virtio_probe_queues counts the queues of the device up to the first one of size 0, and never more
  than 64 of them.\<close>

theorem probe_queues_counts:
  "unat (num_queues (virtio_probe_queues (sized_host sizes) p)) = length (takeWhile (\<lambda>i. sizes i \<noteq> 0) [0..<64])"
  using probe_loop_eq [of "p\<lparr>num_queues := 0\<rparr>" sizes] by (simp add: virtio_probe_queues_def)

section \<open>The error path of \<open>init_phys_queues\<close>\<close>

lemma free_failed_fails:
  assumes "0 < i" "i < length (queues dev)" "vq_vaddr (queues dev ! i) = 0"
  shows "free_failed i dev = Inl Assertion_failed"
proof -
  obtain n where "replicate i i = i # replicate n i" using assms(1) by (cases i) auto
  then show ?thesis using assms by (simp add: free_failed_def get_queue_def free_phys_queue_def)
qed

text \<open>
  When a queue other than the first has a size that is not a power of two, init_phys_queues does not
  return EINVAL: its error path frees the queue that failed, which has no ring yet, instead of the ones
  before it, and the assertion in free_phys_queue stops the kernel.\<close>

theorem init_phys_queues_error_path:
  assumes "0 < i" "i < length (queues dev)" "vq_vaddr (queues dev ! i) = 0"
    and "(ucast (sizes i) AND (ucast (sizes i) - 1) :: u32) \<noteq> 0" "i < 65536"
  shows "init_queues_loop (sized_host sizes) junk (i # js) dev st = Inl Assertion_failed"
proof -
  have i: "unat (of_nat i :: u16) = i" using assms(5) by (simp add: unat_of_nat)
  define dev1 where "dev1 = put_queue (int i) ((queues dev ! i)\<lparr>vq_num := sizes i, vq_index := of_nat i\<rparr>)
      (dev\<lparr>conf := conf dev @ [Writew 14 (of_nat i), Readw 12]\<rparr>)"
  have "init_one_queue (sized_host sizes) junk i dev st = Inr (EINVAL, dev1, st)"
    using assms(2,4) i
    by (simp add: init_one_queue_def get_queue_def virtio_conf_readw_def virtio_conf_writew_def sized_host_def Let_def dev1_def)
  moreover have "free_failed i dev1 = Inl Assertion_failed"
    using assms(1-3) by (intro free_failed_fails) (simp_all add: dev1_def put_queue_def)
  ultimately show ?thesis by simp
qed

definition sample_dev :: "unit virtio_dev" where
  "sample_dev = \<lparr>queues = [zero_queue, zero_queue], queues_at = 0x1000, num_queues = 2, indirect = [], num_indirect = 0, threads = 0,
     driver_features = 0, enabled_features = 0, cap_indirect_buf = False, cap_event_idx = False, msix = False, showTcp = False,
     conf = [], driver = ()\<rparr>"

theorem init_phys_queues_error_path_witness:
  "init_queues_loop (sized_host (\<lambda>i. if i = 1 then 3 else 4)) 0 [1] sample_dev boot_slub = Inl Assertion_failed"
  using init_phys_queues_error_path [of 1 sample_dev "\<lambda>i. if i = 1 then 3 else 4" 0 "[]" boot_slub]
  by (simp add: sample_dev_def zero_queue_def)

lemma alloc_queues_error_code:
  assumes "1 \<le> n" "n \<le> 256" "yaos_malloc junk (of_int n * 144) st = Inr (a, st1)" "a \<noteq> 0" "yaos_mfree junk a st1 = Inr st2"
    and "(ucast (sizes 0) AND (ucast (sizes 0) - 1) :: u32) \<noteq> 0"
  shows "\<exists>dev'. virtio_alloc_queues (sized_host sizes) junk n dev st = Inr (1, dev', st2)"
proof -
  define dev1 where "dev1 = dev\<lparr>num_queues := of_int n, queues_at := a, queues := replicate (nat n) zero_queue\<rparr>"
  have "uint (of_int n :: u16) = n" using assms(1,2) by (simp add: unsigned_of_int take_bit_int_eq_self)
  then have "unat (of_int n :: u16) = nat n" by (metis nat_uint_eq)
  then have up: "[0..<unat (num_queues dev1)] = 0 # [1..<nat n]" using assms(1) by (simp add: dev1_def upt_rec)
  define dev2 where "dev2 = put_queue 0 (zero_queue\<lparr>vq_num := sizes 0, vq_index := 0\<rparr>) (dev1\<lparr>conf := conf dev1 @ [Writew 14 0, Readw 12]\<rparr>)"
  have q0: "get_queue 0 dev1 = Inr zero_queue" using assms(1) by (simp add: get_queue_def dev1_def)
  then have "init_one_queue (sized_host sizes) junk 0 dev1 st1 = Inr (EINVAL, dev2, st1)"
    using assms(6)
    by (simp add: init_one_queue_def virtio_conf_readw_def virtio_conf_writew_def sized_host_def Let_def dev2_def)
  then have "init_phys_queues (sized_host sizes) junk dev1 st1 = Inr (EINVAL, dev2, st1)"
    unfolding init_phys_queues_def up by (simp add: free_failed_def)
  moreover have "queues_at dev2 = a" by (simp add: dev2_def dev1_def put_queue_def)
  ultimately show ?thesis
    using assms(1-5) by (simp add: virtio_alloc_queues_def Let_def dev1_def)
qed

end
