(* ===== verification/Virtio_Runs.thy ===== *)
theory Virtio_Runs
  imports Virtio_Setup "HOL-Library.Multiset"
begin

text \<open>
  A queue over time: the driver posts and takes chains, the device fetches heads from the avail ring and
  returns chains it has fetched through the used ring, in any interleaving. Every buffer the driver
  posts comes back at most once, with its own data, and comes back exactly once when the device has
  returned everything.
\<close>

section \<open>Driver and device\<close>

text \<open>The device: how many heads it has fetched, and the chains it holds.\<close>

record host_state =
  h_seen :: nat
  h_owned :: "u16 list"

text \<open>
  The states a queue \<open>j\<close> can reach from a device, with the data posted and the results taken so far. A chain the
  driver posts is not empty, and one that needs indirect descriptors finds a table and fits in it.
\<close>

definition postable :: "nat \<Rightarrow> addr_size list \<Rightarrow> ulong \<Rightarrow> 'w virtio_dev \<Rightarrow> bool" where
  "postable j bs data dev \<longleftrightarrow> bs \<noteq> [] \<and> length bs < 2147483648 \<and> data \<noteq> 0
     \<and> (length bs > 1 \<and> uint (vq_free_num (queues dev ! j)) - int (length bs) < threads dev \<longrightarrow>
          length bs \<le> 256 \<and> find_unused (indirect dev) 0 \<noteq> None)"

inductive vrun :: "nat \<Rightarrow> 'w virtio_dev \<Rightarrow> 'w virtio_dev \<Rightarrow> host_state \<Rightarrow> ulong list \<Rightarrow> (ulong \<times> ulong) list \<Rightarrow> bool" for j dev0 where
  run_start: "vrun j dev0 dev0 \<lparr>h_seen = 0, h_owned = []\<rparr> [] []"
| run_post: "vrun j dev0 dev hs P T \<Longrightarrow> postable j bs data dev \<Longrightarrow> post (int j) bs data dev = Inr (0, dev') \<Longrightarrow>
     vrun j dev0 dev' hs (P @ [data]) T"
| run_full: "vrun j dev0 dev hs P T \<Longrightarrow> postable j bs data dev \<Longrightarrow> post (int j) bs data dev = Inr (EAGAIN, dev') \<Longrightarrow>
     vrun j dev0 dev' hs P T"
| run_take: "vrun j dev0 dev hs P T \<Longrightarrow> virtio_from_queue (int j) dev = Inr (Some (data, len), dev') \<Longrightarrow>
     vrun j dev0 dev' hs P (T @ [(data, len)])"
| run_fetch: "vrun j dev0 dev hs P T \<Longrightarrow> of_nat (h_seen hs) \<noteq> vq_avail_idx (queues dev ! j) \<Longrightarrow>
     vrun j dev0 dev \<lparr>h_seen = Suc (h_seen hs),
        h_owned = h_owned hs @ [vq_avail (queues dev ! j) (of_nat (h_seen hs) mod vq_num (queues dev ! j))]\<rparr> P T"
| run_complete: "vrun j dev0 dev hs P T \<Longrightarrow> h \<in> set (h_owned hs) \<Longrightarrow>
     vrun j dev0 (put_queue (int j) (host_complete h len (queues dev ! j)) dev) (hs\<lparr>h_owned := remove1 h (h_owned hs)\<rparr>) P T"

section \<open>The invariant\<close>

definition run_inv :: "nat \<Rightarrow> 'w virtio_dev \<Rightarrow> host_state \<Rightarrow> ulong list \<Rightarrow> (ulong \<times> ulong) list \<Rightarrow> aqueue list \<Rightarrow> bool" where
  "run_inv j dev hs P T qs \<longleftrightarrow> dev_rep dev qs \<and> j < length qs
     \<and> h_seen hs = aq_seen (qs ! j)
     \<and> vq_avail_idx (queues dev ! j) = of_nat (aq_seen (qs ! j) + length (aq_posted (qs ! j)))
     \<and> distinct (h_owned hs @ aq_posted (qs ! j) @ map fst (aq_done (qs ! j)))
     \<and> set (h_owned hs @ aq_posted (qs ! j) @ map fst (aq_done (qs ! j))) = fl_head ` set (aq_flight (qs ! j))
     \<and> mset P = mset (map fst T) + image_mset fl_data (mset (aq_flight (qs ! j)))"

lemma fetch_pos:
  assumes "pow2_num q"
  shows "(of_nat s mod vq_num q :: u16) = of_nat (s mod unat (vq_num q))"
proof -
  have "unat (of_nat s :: u16) = s mod 65536" by (simp add: unat_of_nat)
  then have "unat (of_nat s mod vq_num q) = s mod unat (vq_num q)"
    using mod_mod_cancel [OF num_dvd [OF assms]] by (simp add: unat_mod)
  then show ?thesis by (rule u16_of_unat)
qed

lemma inv_head_fresh:
  assumes "vq_rep q tabs a" "x \<in> set (aq_free a)"
  shows "x \<notin> fl_head ` set (aq_flight a)"
proof
  assume "x \<in> fl_head ` set (aq_flight a)"
  then obtain f where f: "f \<in> set (aq_flight a)" "x = fl_head f" by blast
  have "fl_head f \<in> set (fl_chain f)" using assms(1) f(1) by (intro head_in_chain [of q tabs]) (simp add: vq_rep_def)
  moreover have "split_ok q a" using assms(1) by (simp add: vq_rep_def)
  ultimately show False using free_not_flight [OF _ assms(2) f(1)] f(2) by blast
qed

lemma postable_rep:
  assumes "postable j bs data dev" "dev_rep dev qs" "j < length qs"
  shows "bs \<noteq> []" "length bs < 2147483648" "data \<noteq> 0"
    "uses_indirect dev (qs ! j) bs \<Longrightarrow> length bs \<le> 256 \<and> find_unused (indirect dev) 0 \<noteq> None"
proof -
  have "vq_rep (queues dev ! j) (indirect dev) (qs ! j)" using assms(2,3) by (simp add: dev_rep_def)
  from length_free_u16 [OF this] show "bs \<noteq> []" "length bs < 2147483648" "data \<noteq> 0"
    "uses_indirect dev (qs ! j) bs \<Longrightarrow> length bs \<le> 256 \<and> find_unused (indirect dev) 0 \<noteq> None"
    using assms(1) by (simp_all add: postable_def uses_indirect_def)
qed

text \<open>A post never faults: it is refused when the queue is too full, or adds a chain.\<close>

lemma inv_post:
  assumes "run_inv j dev hs P T qs" "postable j bs data dev"
  shows "post (int j) bs data dev = Inr (EAGAIN, dev)
       \<or> (\<exists>dev' c tab. post (int j) bs data dev = Inr (0, dev') \<and> run_inv j dev' hs (P @ [data]) T (qs[j := apost c bs data tab (qs ! j)]))"
proof -
  let ?a = "qs ! j"
  have rep: "dev_rep dev qs" "j < length qs" using assms(1) by (simp_all add: run_inv_def)
  note B = postable_rep [OF assms(2) rep]
  have vr: "vq_rep (queues dev ! j) (indirect dev) ?a" using rep by (simp add: dev_rep_def)
  show ?thesis
  proof (cases "length (aq_free ?a) \<le> length bs")
    case True
    then show ?thesis using post_full [OF rep B(2)] by simp
  next
    case False
    then obtain dev' c tab where c: "post (int j) bs data dev = Inr (0, dev')"
      "vq_avail_idx (queues dev' ! j) = vq_avail_idx (queues dev ! j) + 1"
      "dev_rep dev' (qs[j := apost c bs data tab ?a])" "hd c = hd (aq_free ?a)" "c \<noteq> []"
      using post_ok [OF rep B(2) _ B(1,3,4)] by (metis not_le)
    have "hd c \<in> set (aq_free ?a)" using c(4) vr by (simp add: vq_rep_def free_ok_def)
    then have "hd c \<notin> fl_head ` set (aq_flight ?a)" using inv_head_fresh [OF vr] by blast
    then have "run_inv j dev' hs (P @ [data]) T (qs[j := apost c bs data tab ?a])"
      using assms(1) c(2,3) rep(2) by (auto simp: run_inv_def apost_def fl_head_def)
    then show ?thesis using c(1) by blast
  qed
qed

lemma inv_fetch:
  assumes "run_inv j dev hs P T qs" "of_nat (h_seen hs) \<noteq> vq_avail_idx (queues dev ! j)"
  shows "run_inv j dev \<lparr>h_seen = Suc (h_seen hs),
      h_owned = h_owned hs @ [vq_avail (queues dev ! j) (of_nat (h_seen hs) mod vq_num (queues dev ! j))]\<rparr> P T (qs[j := afetch (qs ! j)])"
proof -
  let ?a = "qs ! j" and ?q = "queues dev ! j"
  have rep: "dev_rep dev qs" "j < length qs" "h_seen hs = aq_seen ?a" using assms(1) by (simp_all add: run_inv_def)
  have vr: "vq_rep ?q (indirect dev) ?a" using rep by (simp add: dev_rep_def)
  have "aq_posted ?a \<noteq> []" using assms by (auto simp: run_inv_def)
  then obtain x xs where x: "aq_posted ?a = x # xs" by (cases "aq_posted ?a") auto
  have "pow2_num ?q" using vr by (simp add: vq_rep_def)
  then have h: "vq_avail ?q (of_nat (h_seen hs) mod vq_num ?q) = x"
    using fetch_head [OF vr] x fetch_pos rep(3) by simp
  have "dev_rep dev (qs[j := afetch ?a])"
  proof (rule dev_rep_update [OF rep(1,2) fetch_rep [OF vr], where A = "{}"])
    show "distinct (tabs_of (afetch ?a))" "set (tabs_of (afetch ?a)) \<subseteq> set (tabs_of ?a) \<union> {}"
      using tabs_of_distinct [OF rep(1,2)] by (simp_all add: afetch_def tabs_of_def)
  qed (use x tabs_in_use [OF rep(1)] in auto)
  then show ?thesis using assms(1) rep(2,3) x h by (auto simp: run_inv_def afetch_def)
qed

lemma inv_complete:
  assumes "run_inv j dev hs P T qs" "h \<in> set (h_owned hs)"
  shows "run_inv j (put_queue (int j) (host_complete h len (queues dev ! j)) dev) (hs\<lparr>h_owned := remove1 h (h_owned hs)\<rparr>) P T
      (qs[j := acomplete h len (qs ! j)])"
proof -
  let ?a = "qs ! j" and ?q = "queues dev ! j"
  let ?dev = "put_queue (int j) (host_complete h len ?q) dev"
  have rep: "dev_rep dev qs" "j < length qs" using assms(1) by (simp_all add: run_inv_def)
  have vr: "vq_rep ?q (indirect dev) ?a" using rep by (simp add: dev_rep_def)
  have dist: "distinct (h_owned hs @ aq_posted ?a @ map fst (aq_done ?a))"
    and all: "set (h_owned hs @ aq_posted ?a @ map fst (aq_done ?a)) = fl_head ` set (aq_flight ?a)"
    using assms(1) by (simp_all add: run_inv_def)
  have "h \<in> fl_head ` set (aq_flight ?a)" using all assms(2) by (metis UnCI set_append)
  moreover have "h \<notin> set (aq_posted ?a)" "h \<notin> fst ` set (aq_done ?a)" using dist assms(2) by auto
  ultimately have nr: "vq_rep (host_complete h len ?q) (indirect dev) (acomplete h len ?a)" by (rule complete_rep [OF vr])
  have len: "length (queues dev) = length qs" using rep by (simp add: dev_rep_def)
  have "dev_rep ?dev (qs[j := acomplete h len ?a])"
  proof (rule dev_rep_update [OF rep nr, where A = "{}"])
    show "distinct (tabs_of (acomplete h len ?a))" "set (tabs_of (acomplete h len ?a)) \<subseteq> set (tabs_of ?a) \<union> {}"
      using tabs_of_distinct [OF rep] by (simp_all add: acomplete_def tabs_of_def)
  qed (use tabs_in_use [OF rep(1)] in \<open>auto simp: put_queue_def\<close>)
  moreover have "vq_avail_idx (queues ?dev ! j) = vq_avail_idx ?q" using rep(2) len by (simp add: put_queue_def host_complete_def)
  moreover have "distinct (remove1 h (h_owned hs) @ aq_posted ?a @ map fst (aq_done ?a) @ [h])"
    using dist assms(2) by (auto simp: set_remove1_eq distinct_remove1)
  moreover have "set (remove1 h (h_owned hs) @ aq_posted ?a @ map fst (aq_done ?a) @ [h]) = fl_head ` set (aq_flight ?a)"
    using dist all [symmetric] assms(2) by (auto simp: set_remove1_eq)
  ultimately show ?thesis using assms(1) rep(2) by (simp add: run_inv_def acomplete_def)
qed

text \<open>Taking never faults either: there is nothing to take, or the oldest returned chain is taken.\<close>

lemma inv_take:
  assumes "run_inv j dev hs P T qs"
  shows "(aq_done (qs ! j) = [] \<and> virtio_from_queue (int j) dev = Inr (None, dev))
       \<or> (\<exists>h len rest dev'. aq_done (qs ! j) = (h, len) # rest
            \<and> virtio_from_queue (int j) dev = Inr (Some (fl_data (flight_of h (qs ! j)), ucast len), dev')
            \<and> run_inv j dev' hs P (T @ [(fl_data (flight_of h (qs ! j)), ucast len)]) (qs[j := atake (qs ! j)]))"
proof (cases "aq_done (qs ! j)")
  case Nil
  then show ?thesis using assms from_queue_empty by (auto simp: run_inv_def)
next
  case (Cons d rest)
  let ?a = "qs ! j" and ?q = "queues dev ! j"
  obtain h len where d: "aq_done ?a = (h, len) # rest" using Cons by (cases d) auto
  have rep: "dev_rep dev qs" "j < length qs" using assms by (simp_all add: run_inv_def)
  have vr: "vq_rep ?q (indirect dev) ?a" using rep by (simp add: dev_rep_def)
  obtain dev' where dev': "virtio_from_queue (int j) dev = Inr (Some (fl_data (flight_of h ?a), ucast len), dev')"
    "dev_rep dev' (qs[j := atake ?a])" "vq_avail_idx (queues dev' ! j) = vq_avail_idx ?q"
    using from_queue_take [OF rep d] by blast
  obtain pre suf where pp: "aq_flight ?a = pre @ flight_of h ?a # suf" "fl_head (flight_of h ?a) = h"
    "filter (\<lambda>f. fl_head f \<noteq> h) (aq_flight ?a) = pre @ suf"
    using flight_split [OF vr done_head(1) [OF vr d]] by blast
  have tk: "aq_flight (atake ?a) = pre @ suf" "aq_done (atake ?a) = rest" "aq_posted (atake ?a) = aq_posted ?a" "aq_seen (atake ?a) = aq_seen ?a"
    using d pp(3) by (simp_all add: atake_def)
  have dist: "distinct (h_owned hs @ aq_posted ?a @ h # map fst rest)"
    and all: "set (h_owned hs @ aq_posted ?a @ h # map fst rest) = fl_head ` set (aq_flight ?a)"
    and ms: "mset P = mset (map fst T) + image_mset fl_data (mset (aq_flight ?a))"
    using assms d by (simp_all add: run_inv_def)
  have "fl_head ` set (pre @ suf) = fl_head ` set (aq_flight ?a) - {h}"
    unfolding pp(3) [symmetric] by auto
  then have "set (h_owned hs @ aq_posted ?a @ map fst rest) = fl_head ` set (pre @ suf)" using dist all by auto
  moreover have "distinct (h_owned hs @ aq_posted ?a @ map fst rest)" using dist by auto
  moreover have "mset P = mset (map fst (T @ [(fl_data (flight_of h ?a), ucast len :: ulong)])) + image_mset fl_data (mset (pre @ suf))"
    using ms unfolding pp(1) by simp
  ultimately have "run_inv j dev' hs P (T @ [(fl_data (flight_of h ?a), ucast len)]) (qs[j := atake ?a])"
    using assms dev'(2,3) rep(2) tk by (simp add: run_inv_def)
  then show ?thesis using dev'(1) d by blast
qed

lemma vrun_inv:
  assumes "vrun j dev0 dev hs P T" "run_inv j dev0 \<lparr>h_seen = 0, h_owned = []\<rparr> [] [] qs0"
  shows "\<exists>qs. run_inv j dev hs P T qs"
  using assms
proof (induction rule: vrun.induct)
  case run_start
  then show ?case by blast
next
  case (run_post dev hs P T bs data dev')
  then obtain qs where "run_inv j dev hs P T qs" by blast
  then show ?case using inv_post [OF _ run_post(2)] run_post(3) by fastforce
next
  case (run_full dev hs P T bs data dev')
  then obtain qs where "run_inv j dev hs P T qs" by blast
  then show ?case using inv_post [OF _ run_full(2)] run_full(3) by fastforce
next
  case (run_take dev hs P T data len dev')
  then obtain qs where "run_inv j dev hs P T qs" by blast
  then show ?case using inv_take [of j dev hs P T qs] run_take(2) by auto
next
  case (run_fetch dev hs P T)
  then show ?case using inv_fetch by blast
next
  case (run_complete dev hs P T h len)
  then show ?case using inv_complete by blast
qed

section \<open>Properties\<close>

text \<open>A device whose queues were just initialised.\<close>

definition fresh_device :: "'w virtio_dev \<Rightarrow> bool" where
  "fresh_device dev \<longleftrightarrow> uint (num_queues dev) = int (length (queues dev)) \<and> distinct (map id_paddr (indirect dev))
     \<and> (\<forall>q\<in>set (queues dev). \<exists>q0 k. q = init_phys_queue q0 \<and> k < 16 \<and> unat (vq_num q0) = 2 ^ k)"

lemma fresh_device_inv:
  assumes "fresh_device dev" "j < length (queues dev)"
  shows "run_inv j dev \<lparr>h_seen = 0, h_owned = []\<rparr> [] [] (map (fresh_queue \<circ> vq_num) (queues dev))"
proof -
  have q: "vq_rep (queues dev ! i) (indirect dev) (fresh_queue (vq_num (queues dev ! i))) \<and> vq_avail_idx (queues dev ! i) = 0"
    if i: "i < length (queues dev)" for i
  proof -
    obtain q0 k where "queues dev ! i = init_phys_queue q0" "k < 16" "unat (vq_num q0) = 2 ^ k"
      using assms(1) nth_mem [OF i] unfolding fresh_device_def by blast
    then show ?thesis using init_phys_queue_rep [of q0 k "indirect dev"] by (simp add: init_phys_queue_def)
  qed
  have no_tabs: "concat (map tabs_of (map (fresh_queue \<circ> vq_num) (queues dev))) = []"
    by (auto simp: tabs_of_def fresh_queue_def List.map_filter_simps)
  have "distinct (concat (map tabs_of (map (fresh_queue \<circ> vq_num) (queues dev))))" unfolding no_tabs by simp
  then have "dev_rep dev (map (fresh_queue \<circ> vq_num) (queues dev))"
    using assms(1) q by (simp add: dev_rep_def fresh_device_def)
  then show ?thesis using q [OF assms(2)] assms(2) by (simp add: run_inv_def fresh_queue_def)
qed

text \<open>
  C15: In every interleaving of the driver and the device on a queue, every buffer that comes back from
  virtio_from_queue was posted before, no buffer comes back twice, fewer than the number of descriptors
  are under way, and neither posting nor taking faults.\<close>

theorem virtio_queue_safe:
  assumes "fresh_device dev0" "j < length (queues dev0)" "vrun j dev0 dev hs P T"
  shows "(\<exists>way. mset P = mset (map fst T) + way \<and> size way < unat (vq_num (queues dev ! j)))
       \<and> (\<exists>r dev'. virtio_from_queue (int j) dev = Inr (r, dev'))
       \<and> (postable j bs data dev \<longrightarrow> (\<exists>r dev'. post (int j) bs data dev = Inr (r, dev') \<and> r \<in> {0, EAGAIN}))"
proof -
  obtain qs where inv: "run_inv j dev hs P T qs"
    using vrun_inv [OF assms(3) fresh_device_inv [OF assms(1,2)]] by blast
  then have "vq_rep (queues dev ! j) (indirect dev) (qs ! j)" by (auto simp: run_inv_def dev_rep_def)
  from flights_bound [OF this] have "size (image_mset fl_data (mset (aq_flight (qs ! j)))) < unat (vq_num (queues dev ! j))" by simp
  moreover have "mset P = mset (map fst T) + image_mset fl_data (mset (aq_flight (qs ! j)))" using inv by (simp add: run_inv_def)
  moreover have "\<exists>r dev'. virtio_from_queue (int j) dev = Inr (r, dev')" using inv_take [OF inv] by auto
  moreover have "postable j bs data dev \<longrightarrow> (\<exists>r dev'. post (int j) bs data dev = Inr (r, dev') \<and> r \<in> {0, EAGAIN})"
    using inv_post [OF inv, of bs data] by auto
  ultimately show ?thesis by blast
qed

text \<open>
  C16: Nothing is lost: when the device has fetched everything, holds no chain, and virtio_from_queue finds
  no more returned chain, the data taken are exactly the data posted.\<close>

theorem virtio_queue_returns_all:
  assumes "fresh_device dev0" "j < length (queues dev0)" "vrun j dev0 dev hs P T"
    and "h_owned hs = []" "of_nat (h_seen hs) = vq_avail_idx (queues dev ! j)" "virtio_from_queue (int j) dev = Inr (None, dev)"
  shows "mset P = mset (map fst T)"
proof -
  obtain qs where inv: "run_inv j dev hs P T qs"
    using vrun_inv [OF assms(3) fresh_device_inv [OF assms(1,2)]] by blast
  let ?a = "qs ! j" and ?q = "queues dev ! j"
  have vr: "vq_rep ?q (indirect dev) ?a" using inv by (auto simp: run_inv_def dev_rep_def)
  have "aq_done ?a = []" using inv_take [OF inv] assms(6) by auto
  moreover have "aq_posted ?a = []"
  proof -
    have "of_nat (aq_seen ?a) = (of_nat (aq_seen ?a + length (aq_posted ?a)) :: u16)" using inv assms(5) by (simp add: run_inv_def)
    then have "(of_nat (length (aq_posted ?a)) :: u16) = 0" by simp
    moreover have "length (aq_posted ?a) < unat (vq_num ?q)" using flights_bound [OF vr] pending_bound [OF vr] by simp
    ultimately show ?thesis using pos_unat by (metis length_0_conv unat_0)
  qed
  ultimately have "fl_head ` set (aq_flight ?a) = {}" using inv assms(4) by (auto simp: run_inv_def)
  then show ?thesis using inv by (simp add: run_inv_def)
qed

section \<open>Reading a queue\<close>

text \<open>What the driver gets for the chains that the device has returned, in the order of the used ring.\<close>

definition returned :: "aqueue \<Rightarrow> (ulong \<times> ulong) list" where
  "returned a = map (\<lambda>(h, len). (fl_data (flight_of h a), ucast len)) (aq_done a)"

lemma flight_of_atake:
  assumes "vq_rep q tabs a" "aq_done a = (h, len) # rest" "g \<in> fst ` set rest"
  shows "flight_of g (atake a) = flight_of g a"
proof -
  have "distinct (h # map fst rest)" using assms(1,2) by (simp add: vq_rep_def heads_ok_def)
  then have "g \<noteq> h" using assms(3) by (metis distinct.simps(2) set_map)
  have "List.find (\<lambda>f. fl_head f = g) (filter (\<lambda>f. fl_head f \<noteq> h) fs) = List.find (\<lambda>f. fl_head f = g) fs" for fs
    using \<open>g \<noteq> h\<close> by (induction fs) auto
  then show ?thesis using assms(2) by (simp add: flight_of_def atake_def)
qed

lemma returned_atake:
  assumes "vq_rep q tabs a" "aq_done a = (h, len) # rest"
  shows "returned a = (fl_data (flight_of h a), ucast len) # returned (atake a)"
proof -
  have "aq_done (atake a) = rest" using assms(2) by (simp add: atake_def)
  moreover have "map (\<lambda>(h, len). (fl_data (flight_of h a), ucast len :: ulong)) rest
      = map (\<lambda>(h, len). (fl_data (flight_of h (atake a)), ucast len)) rest"
    using flight_of_atake [OF assms] by (intro map_cong) (auto, metis fst_conv imageI)
  ultimately show ?thesis using assms(2) by (simp add: returned_def)
qed

lemma dev_rep_driver: "dev_rep (dev\<lparr>driver := w\<rparr>) qs = dev_rep dev qs"
  by (simp add: dev_rep_def)

text \<open>
  What is expected of the callbacks of a driver for queue \<open>j\<close>, from a state of the driver that is \<open>ok\<close> and a device in order: a
  callback returns to such a state. It may also use the device, for instance to post buffers again, but takes no chain from the queue
  and leaves its callback registered. \<open>log\<close> is an auxiliary record of the calls.
\<close>

definition queue_callbacks :: "('w \<Rightarrow> bool) \<Rightarrow> nat \<Rightarrow> 'w callbacks \<Rightarrow> ('w \<Rightarrow> (ulong \<times> ulong) list) \<Rightarrow> bool" where
  "queue_callbacks ok j cb log \<longleftrightarrow> (\<forall>c data len dev qs. ok (driver dev) \<longrightarrow> dev_rep dev qs \<longrightarrow> j < length qs \<longrightarrow>
     (\<exists>dev' qs'. cb c data len dev = Inr dev' \<and> ok (driver dev') \<and> dev_rep dev' qs' \<and> length qs' = length qs \<and>
       returned (qs' ! j) = returned (qs ! j) \<and> vq_callback (queues dev' ! j) = vq_callback (queues dev ! j) \<and> threads dev' = threads dev \<and>
       log (driver dev') = log (driver dev) @ [(data, len)]))"

lemma queue_callbacksE:
  assumes "queue_callbacks ok j cb log" "ok (driver dev)" "dev_rep dev qs" "j < length qs"
  obtains dev' qs' where "cb c data len dev = Inr dev'" "ok (driver dev')" "dev_rep dev' qs'" "length qs' = length qs"
    "returned (qs' ! j) = returned (qs ! j)" "vq_callback (queues dev' ! j) = vq_callback (queues dev ! j)" "threads dev' = threads dev"
    "log (driver dev') = log (driver dev) @ [(data, len)]"
  using assms(1) [unfolded queue_callbacks_def, rule_format, OF assms(2-4), of c data len] by blast

lemma read_loop_returns:
  assumes cb: "queue_callbacks ok j cb log"
    and "dev_rep dev qs" "j < length qs" "vq_callback (queues dev ! j) \<noteq> 0" "ok (driver dev)"
  shows "\<exists>dev' qs'. read_loop cb (int j) dev = Some (Inr dev') \<and> log (driver dev') = log (driver dev) @ returned (qs ! j)
           \<and> dev_rep dev' qs' \<and> length qs' = length qs \<and> aq_done (qs' ! j) = [] \<and> ok (driver dev') \<and> threads dev' = threads dev"
  using assms(2-5)
proof (induction "returned (qs ! j)" arbitrary: dev qs)
  case Nil
  then have "aq_done (qs ! j) = []" by (simp add: returned_def)
  moreover from this have "virtio_from_queue (int j) dev = Inr (None, dev)" using from_queue_empty Nil(2,3) by metis
  ultimately show ?case using Nil by (intro exI [of _ dev] exI [of _ qs]) (simp add: read_loop.simps)
next
  case (Cons y ys)
  then have "aq_done (qs ! j) \<noteq> []" by (auto simp: returned_def)
  then obtain h len rest where d: "aq_done (qs ! j) = (h, len) # rest" by (metis neq_Nil_conv surj_pair)
  have vr: "vq_rep (queues dev ! j) (indirect dev) (qs ! j)" using Cons(3,4) by (simp add: dev_rep_def)
  let ?x = "(fl_data (flight_of h (qs ! j)), ucast len :: ulong)"
  have y: "y = ?x" "ys = returned (atake (qs ! j))" using Cons(2) returned_atake [OF vr d] by simp_all
  obtain dev1 where dev1: "virtio_from_queue (int j) dev = Inr (Some ?x, dev1)" "dev_rep dev1 (qs[j := atake (qs ! j)])"
    "same_device dev dev1" "vq_callback (queues dev1 ! j) = vq_callback (queues dev ! j)"
    using from_queue_take [OF Cons(3,4) d] by blast
  have ok1: "ok (driver dev1)" using dev1(3) Cons(6) by (simp add: same_device_def)
  have j1: "j < length (qs[j := atake (qs ! j)])" using Cons(4) by simp
  obtain dev2 qs2 where c: "cb (vq_callback (queues dev1 ! j)) (fst ?x) (snd ?x) dev1 = Inr dev2" "ok (driver dev2)" "dev_rep dev2 qs2"
      "length qs2 = length (qs[j := atake (qs ! j)])" "returned (qs2 ! j) = returned (qs[j := atake (qs ! j)] ! j)"
      "vq_callback (queues dev2 ! j) = vq_callback (queues dev1 ! j)" "threads dev2 = threads dev1"
      "log (driver dev2) = log (driver dev1) @ [(fst ?x, snd ?x)]"
    using cb ok1 dev1(2) j1 by (rule queue_callbacksE)
  have "ys = returned (qs2 ! j)" "j < length qs2" "vq_callback (queues dev2 ! j) \<noteq> 0" using c(4-6) y(2) Cons(4,5) dev1(4) by simp_all
  then obtain dev' qs' where IH: "read_loop cb (int j) dev2 = Some (Inr dev')" "log (driver dev') = log (driver dev2) @ returned (qs2 ! j)"
    "dev_rep dev' qs'" "length qs' = length qs2" "aq_done (qs' ! j) = []" "ok (driver dev')" "threads dev' = threads dev2"
    using Cons(1) c(2,3) by blast
  have "get_queue (int j) dev1 = Inr (queues dev1 ! j)" using get_queue_rep [OF dev1(2)] Cons(4) by simp
  then have "call_back cb (int j) (fst ?x) (snd ?x) dev1 = Inr dev2"
    using c(1) dev1(4) Cons(5) by (simp add: call_back_def)
  then have "read_loop cb (int j) dev = Some (Inr dev')" using dev1(1) IH(1) by (subst read_loop.simps) simp
  moreover have "log (driver dev') = log (driver dev) @ returned (qs ! j)"
    using IH(2) c(8) dev1(3) \<open>ys = returned (qs2 ! j)\<close> Cons(2) y(1) by (simp add: same_device_def)
  ultimately show ?case using IH(3-7) c(4,7) dev1(3) by (auto simp: same_device_def)
qed

text \<open>
  C18: virtio_read_queue, for callbacks that return with the device in order, which may post buffers again but take no chain from
  the queue: it ends and hands every chain the device has returned to the callback, each exactly once and in the order
  in which the device returned them, with the data it was posted with and the length the device
  wrote; afterwards the device is in order and nothing is left to take.\<close>

theorem virtio_read_queue_delivers:
  assumes "queue_callbacks ok j cb log" and "dev_rep dev qs" and "j < length qs" and "vq_callback (queues dev ! j) \<noteq> 0" and "ok (driver dev)"
  shows "\<exists>dev' qs'. virtio_read_queue cb (int j) dev = Inr dev' \<and> log (driver dev') = log (driver dev) @ returned (qs ! j)
           \<and> dev_rep dev' qs' \<and> virtio_from_queue (int j) dev' = Inr (None, dev')"
proof -
  obtain dev' qs' where r: "read_loop cb (int j) dev = Some (Inr dev')" "log (driver dev') = log (driver dev) @ returned (qs ! j)"
    "dev_rep dev' qs'" "length qs' = length qs" "aq_done (qs' ! j) = []"
    using read_loop_returns [OF assms] by blast
  have "virtio_from_queue (int j) dev' = Inr (None, dev')" using from_queue_empty [OF r(3), of j] assms(3) r(4,5) by simp
  moreover have "uint (num_queues dev) = int (length qs)" using assms(2) by (simp add: dev_rep_def)
  ultimately show ?thesis using r(1-3) assms(3) by (auto simp: virtio_read_queue_def)
qed

section \<open>The callback of the network driver\<close>

text \<open>
  The state of \<open>virtio_net.c\<close> that the callback of its receive queue changes: packets are known by their addresses, \<open>added_polls\<close>
  records the levels at which \<open>vn_poll\<close> was added with \<open>thread_add_poll\<close>.
\<close>

record vnet =
  recv_list :: "ulong list"
  packet_len :: "ulong \<Rightarrow> ulong"
  in_rx :: u32
  ets_packetR :: ulong
  spin_recv :: spinlock_t
  added_polls :: "nat list"

abbreviation (input) POLL_LVL_NET_RX :: nat where "POLL_LVL_NET_RX \<equiv> 3"

definition rx_queue_callback :: "ulong \<Rightarrow> ulong \<Rightarrow> 'e vnet_scheme virtio_dev \<Rightarrow> 'e vnet_scheme virtio_dev outcome" where
  "rx_queue_callback data len dev =
     (let w = (driver dev)\<lparr>packet_len := (packet_len (driver dev))(data := len)\<rparr> in
      andThen (spin_lock (spin_recv w)) (\<lambda>l.
      let w1 = w\<lparr>recv_list := recv_list w @ [data], spin_recv := spin_unlock l\<rparr> in
      Inr (dev\<lparr>driver := w1\<lparr>added_polls := added_polls w1 @ [POLL_LVL_NET_RX], in_rx := in_rx w1 - 1, ets_packetR := ets_packetR w1 + 1\<rparr>\<rparr>)))"

text \<open>The same callback, with its calls entered in a log.\<close>

definition logged_rx :: "(ulong \<times> ulong) list vnet_scheme callbacks" where
  "logged_rx c data len dev = andThen (rx_queue_callback data len dev) (\<lambda>dev1.
     Inr (dev1\<lparr>driver := vnet.more_update (\<lambda>l. l @ [(data, len)]) (driver dev1)\<rparr>))"

lemma rx_callbacks: "queue_callbacks (\<lambda>w. \<not> spin_recv w) j logged_rx vnet.more"
  unfolding queue_callbacks_def
proof (intro allI impI)
  fix c data len :: ulong and dev :: "(ulong \<times> ulong) list vnet_scheme virtio_dev" and qs
  assume "\<not> spin_recv (driver dev)" and rep: "dev_rep dev qs"
  then obtain w where "logged_rx c data len dev = Inr (dev\<lparr>driver := w\<rparr>)" "\<not> spin_recv w" "vnet.more w = vnet.more (driver dev) @ [(data, len)]"
    by (simp add: logged_rx_def rx_queue_callback_def spin_lock_def spin_unlock_def)
  with rep show "\<exists>dev' qs'. logged_rx c data len dev = Inr dev' \<and> \<not> spin_recv (driver dev') \<and> dev_rep dev' qs' \<and> length qs' = length qs \<and>
       returned (qs' ! j) = returned (qs ! j) \<and> vq_callback (queues dev' ! j) = vq_callback (queues dev ! j) \<and> threads dev' = threads dev \<and>
       vnet.more (driver dev') = vnet.more (driver dev) @ [(data, len)]"
    by (intro exI [of _ "dev\<lparr>driver := w\<rparr>"] exI [of _ qs]) (simp add: dev_rep_driver)
qed

section \<open>What the device sees\<close>

text \<open>
  C17: A successful post leaves the caller's buffers where the device looks for them: the new entry of the
  avail ring is the head of a chain of descriptors, or of a table of indirect descriptors, that lists
  the addresses, lengths and directions of exactly these buffers, and the device is notified of the queue.\<close>

theorem virtio_post_describes:
  assumes "dev_rep dev qs" "j < length qs" "postable j bs data dev" "length bs < length (aq_free (qs ! j))"
  shows "\<exists>dev' f. post (int j) bs data dev = Inr (0, dev')
           \<and> vq_avail (queues dev' ! j) (vq_avail_idx (queues dev ! j) mod vq_num (queues dev ! j)) = fl_head f
           \<and> flight_ok (queues dev' ! j) (indirect dev') f \<and> fl_bufs f = bs \<and> fl_data f = data
           \<and> conf dev' = conf dev @ [Writew 16 (of_nat j)]"
proof -
  let ?a = "qs ! j" and ?q = "queues dev ! j"
  note B = postable_rep [OF assms(3,1,2)]
  obtain dev' c tab where d: "post (int j) bs data dev = Inr (0, dev')" "dev_rep dev' (qs[j := apost c bs data tab ?a])"
    "conf dev' = conf dev @ [Writew 16 (of_nat j)]" and num: "vq_num (queues dev' ! j) = vq_num ?q"
    using post_ok [OF assms(1,2) B(2) assms(4) B(1,3,4)] by blast
  define f where "f = \<lparr>fl_chain = c, fl_bufs = bs, fl_data = data, fl_tab = tab\<rparr>"
  have vr: "vq_rep ?q (indirect dev) ?a" using assms(1,2) by (simp add: dev_rep_def)
  have vr': "vq_rep (queues dev' ! j) (indirect dev') (apost c bs data tab ?a)" using d(2) assms(2) by (auto simp: dev_rep_def)
  then have "flight_ok (queues dev' ! j) (indirect dev') f" by (simp add: vq_rep_def apost_def f_def)
  moreover have "vq_avail (queues dev' ! j) (vq_avail_idx ?q mod vq_num ?q) = fl_head f"
  proof -
    let ?n = "length (aq_posted ?a)" and ?N = "unat (vq_num ?q)"
    have "avail_ok (queues dev' ! j) (apost c bs data tab ?a)" using vr' by (simp add: vq_rep_def)
    then have "vq_avail (queues dev' ! j) (of_nat ((aq_seen ?a + ?n) mod ?N)) = hd c"
      using num by (auto simp: avail_ok_def apost_def dest!: spec [of _ ?n])
    moreover have "vq_avail_idx ?q mod vq_num ?q = of_nat ((aq_seen ?a + ?n) mod ?N)"
      using vr by (intro u16_of_unat) (simp add: vq_rep_def avail_ok_def unat_mod)
    ultimately show ?thesis by (simp add: f_def fl_head_def)
  qed
  ultimately show ?thesis using d by (auto simp: f_def)
qed

text \<open>
  virtio_to_queue never faults on a queue in order: when the queue is running short it first hands the
  chains the device has returned to the callback, and then posts the buffers or answers EAGAIN, with
  the queue in order again.\<close>

theorem virtio_to_queue_recycles:
  assumes "queue_callbacks ok j cb log" and "dev_rep dev qs" and "j < length qs" and "vq_callback (queues dev ! j) \<noteq> 0" and "ok (driver dev)"
    and "bs \<noteq> []" and "length bs < 2147483648" and "data \<noteq> 0" and "threads dev \<le> 1"
  shows "\<exists>r dev' qs'. virtio_to_queue cb (int j) bs data dev = Inr (r, dev') \<and> r \<in> {0, EAGAIN} \<and> dev_rep dev' qs'
           \<and> log (driver dev') = log (driver dev) @ (if length (aq_free (qs ! j)) + 4 < unat (vq_num (queues dev ! j)) then returned (qs ! j) else [])"
proof -
  let ?q = "queues dev ! j"
  have nq: "uint (num_queues dev) = int (length qs)" using assms(2) by (simp add: dev_rep_def)
  have vr: "vq_rep ?q (indirect dev) (qs ! j)" using assms(2,3) by (simp add: dev_rep_def)
  have short: "uint (vq_free_num ?q) + 4 < uint (vq_num ?q) \<longleftrightarrow> length (aq_free (qs ! j)) + 4 < unat (vq_num ?q)"
    unfolding length_free_u16 [OF vr] uint_nat [of "vq_num ?q"] by linarith
  define rest where "rest = (if length (aq_free (qs ! j)) + 4 < unat (vq_num ?q) then returned (qs ! j) else [])"
  have "\<exists>dev1 qs1. (if uint (vq_free_num ?q) + 4 < uint (vq_num ?q) then virtio_read_queue cb (int j) dev else Inr dev) = Inr dev1
      \<and> dev_rep dev1 qs1 \<and> length qs1 = length qs \<and> threads dev1 \<le> 1 \<and> log (driver dev1) = log (driver dev) @ rest"
  proof (cases "uint (vq_free_num ?q) + 4 < uint (vq_num ?q)")
    case True
    then show ?thesis using read_loop_returns [OF assms(1-5)] short nq assms(3,9) by (auto simp: rest_def virtio_read_queue_def)
  next
    case False
    then show ?thesis using short assms(2,9) by (auto simp: rest_def)
  qed
  then obtain dev1 qs1 where dev1: "(if uint (vq_free_num ?q) + 4 < uint (vq_num ?q) then virtio_read_queue cb (int j) dev else Inr dev) = Inr dev1"
    "dev_rep dev1 qs1" "length qs1 = length qs" "threads dev1 \<le> 1" "log (driver dev1) = log (driver dev) @ rest"
    by blast
  have to: "virtio_to_queue cb (int j) bs data dev = post (int j) bs data dev1"
    using get_queue_rep [OF assms(2,3)] dev1(1) nq assms(3,8) by (simp add: virtio_to_queue_def)
  have j: "j < length qs1" using assms(3) dev1(3) by simp
  show ?thesis
  proof (cases "length (aq_free (qs1 ! j)) \<le> length bs")
    case True
    then have "post (int j) bs data dev1 = Inr (EAGAIN, dev1)" using post_full [OF dev1(2) j assms(7)] by simp
    then show ?thesis using to dev1(2,5) rest_def by auto
  next
    case False
    then have "\<not> uses_indirect dev1 (qs1 ! j) bs" using dev1(4) by (simp add: uses_indirect_def)
    then obtain dev' c tab where "post (int j) bs data dev1 = Inr (0, dev')" "same_device dev1 dev'"
      "dev_rep dev' (qs1[j := apost c bs data tab (qs1 ! j)])"
      using post_ok [OF dev1(2) j assms(7) _ assms(6,8)] False by auto
    then show ?thesis using to dev1(5) rest_def by (auto simp: same_device_def)
  qed
qed

section \<open>A device with one queue of four descriptors\<close>

definition ring_dev :: "'w \<Rightarrow> 'w virtio_dev" where
  "ring_dev w = \<lparr>queues = [init_phys_queue (zero_queue\<lparr>vq_num := 4, vq_callback := 0x5000\<rparr>)], queues_at = 0x1000, num_queues = 1,
     indirect = [], num_indirect = 0, threads = 0, driver_features = 0, enabled_features = 0, cap_indirect_buf = False,
     cap_event_idx = False, msix = False, showTcp = False, conf = [], driver = w\<rparr>"

definition one_buf :: "addr_size list" where
  "one_buf = [\<lparr>vp_addr = 0x200000, vp_size = 1514, vp_flags = 2\<rparr>]"

lemma ring_dev_fresh: "fresh_device (ring_dev w)" "length (queues (ring_dev w)) = 1"
proof -
  have "unat (vq_num (zero_queue\<lparr>vq_num := 4, vq_callback := 0x5000\<rparr>)) = 2 ^ 2" by (simp add: zero_queue_def)
  then show "fresh_device (ring_dev w)" unfolding fresh_device_def ring_dev_def
    by (auto intro!: exI [of _ "2 :: nat"])
qed (simp add: ring_dev_def)

lemma ring_dev_inv: "run_inv 0 (ring_dev w) \<lparr>h_seen = 0, h_owned = []\<rparr> [] [] [fresh_queue 4]"
  using fresh_device_inv [OF ring_dev_fresh(1), of 0 w]
  by (simp add: ring_dev_fresh(2)) (simp add: ring_dev_def init_phys_queue_def)

lemma ring_dev_postable: "data \<noteq> 0 \<Longrightarrow> postable 0 one_buf data (ring_dev w)"
  by (simp add: postable_def one_buf_def ring_dev_def)

theorem virtio_post_describes_witness:
  "\<exists>dev' f. post 0 one_buf 7 (ring_dev ()) = Inr (0, dev') \<and> flight_ok (queues dev' ! 0) (indirect dev') f \<and> fl_bufs f = one_buf \<and> fl_data f = 7"
proof -
  have "dev_rep (ring_dev ()) [fresh_queue 4]" using ring_dev_inv [of "()"] by (simp add: run_inv_def)
  then show ?thesis
    using virtio_post_describes [of "ring_dev ()" "[fresh_queue 4]" 0 one_buf 7] ring_dev_postable [of 7 "()"]
    by (auto simp: fresh_queue_def one_buf_def)
qed

text \<open>One buffer posted, fetched and returned.\<close>

lemma ring_posted:
  "\<exists>d x a c tab. post 0 one_buf 7 (ring_dev w) = Inr (0, d) \<and> same_device (ring_dev w) d \<and> x = vq_avail (queues d ! 0) 0 \<and>
     run_inv 0 (put_queue 0 (host_complete x 100 (queues d ! 0)) d) \<lparr>h_seen = 1, h_owned = []\<rparr> [7] [] [a] \<and>
     vrun 0 (ring_dev w) (put_queue 0 (host_complete x 100 (queues d ! 0)) d) \<lparr>h_seen = 1, h_owned = []\<rparr> [7] [] \<and>
     a = acomplete x 100 (afetch (apost c one_buf 7 tab (fresh_queue 4)))"
proof -
  let ?hs0 = "\<lparr>h_seen = 0, h_owned = []\<rparr>" and ?d0 = "ring_dev w" and ?a0 = "fresh_queue 4"
  obtain d where d: "post 0 one_buf 7 ?d0 = Inr (0, d)" "same_device ?d0 d"
    using post_ok [of ?d0 "[?a0]" 0 one_buf 7] ring_dev_inv [of w] postable_rep [OF ring_dev_postable [of 7 w], of "[?a0]"]
    by (auto simp: run_inv_def fresh_queue_def one_buf_def)
  then obtain c tab where d1: "run_inv 0 d ?hs0 [7] [] [apost c one_buf 7 tab ?a0]"
    using inv_post [OF ring_dev_inv ring_dev_postable [of 7 w]] by auto
  have v1: "vrun 0 ?d0 d ?hs0 [7] []"
    using run_post [OF run_start ring_dev_postable [of 7 w], of d] d(1) by simp
  let ?a1 = "apost c one_buf 7 tab ?a0"
  define x where "x = vq_avail (queues d ! 0) 0"
  define hs1 where "hs1 = \<lparr>h_seen = Suc 0, h_owned = [x]\<rparr>"
  have ne: "of_nat (h_seen ?hs0) \<noteq> vq_avail_idx (queues d ! 0)" using d1 by (simp add: run_inv_def apost_def fresh_queue_def)
  have r2: "run_inv 0 d hs1 [7] [] [afetch ?a1]" using inv_fetch [OF d1 ne] by (simp add: hs1_def x_def)
  have v2: "vrun 0 ?d0 d hs1 [7] []" using run_fetch [OF v1 ne] by (simp add: hs1_def x_def)
  have "run_inv 0 (put_queue 0 (host_complete x 100 (queues d ! 0)) d) \<lparr>h_seen = 1, h_owned = []\<rparr> [7] [] [acomplete x 100 (afetch ?a1)]"
    "vrun 0 ?d0 (put_queue 0 (host_complete x 100 (queues d ! 0)) d) \<lparr>h_seen = 1, h_owned = []\<rparr> [7] []"
    using inv_complete [OF r2, of x 100] run_complete [OF v2, of x 100] by (simp_all add: hs1_def)
  then show ?thesis using d x_def by blast
qed

text \<open>And taken.\<close>

lemma ring_round:
  "\<exists>dev hs. vrun 0 (ring_dev w) dev hs [7] [(7, 100)] \<and> h_owned hs = []
     \<and> of_nat (h_seen hs) = vq_avail_idx (queues dev ! 0) \<and> virtio_from_queue 0 dev = Inr (None, dev)"
proof -
  let ?hs = "\<lparr>h_seen = 1, h_owned = []\<rparr>"
  obtain d x a c tab where r: "run_inv 0 (put_queue 0 (host_complete x 100 (queues d ! 0)) d) ?hs [7] [] [a]"
    and v: "vrun 0 (ring_dev w) (put_queue 0 (host_complete x 100 (queues d ! 0)) d) ?hs [7] []"
    and a: "a = acomplete x 100 (afetch (apost c one_buf 7 tab (fresh_queue 4)))"
    using ring_posted [of w] by blast
  let ?d = "put_queue 0 (host_complete x 100 (queues d ! 0)) d"
  have "aq_done a = [(x, 100)]" by (simp add: a acomplete_def afetch_def apost_def fresh_queue_def)
  then obtain d4 where d4: "virtio_from_queue 0 ?d = Inr (Some (fl_data (flight_of x a), 100), d4)"
    "run_inv 0 d4 ?hs [7] [(fl_data (flight_of x a), 100)] [atake a]"
    using inv_take [OF r] by auto
  have seven: "fl_data (flight_of x a) = 7"
    using d4(2) by (auto simp: run_inv_def)
  have v4: "vrun 0 (ring_dev w) d4 ?hs [7] [(7, 100)]" using run_take [OF v] d4(1) seven by fastforce
  have "aq_done (atake a) = []" "aq_posted (atake a) = []"
    by (simp_all add: a atake_def acomplete_def afetch_def apost_def fresh_queue_def)
  then have "virtio_from_queue 0 d4 = Inr (None, d4)" "of_nat (h_seen ?hs) = vq_avail_idx (queues d4 ! 0)"
    using inv_take [OF d4(2)] d4(2) by (simp_all add: run_inv_def)
  then show ?thesis using v4 by (intro exI [of _ d4] exI [of _ ?hs]) simp
qed

theorem virtio_queue_safe_witness:
  "\<exists>dev hs. vrun 0 (ring_dev ()) dev hs [7] [(7, 100)] \<and> (\<exists>r dev'. virtio_from_queue 0 dev = Inr (r, dev'))"
proof -
  obtain dev hs where v: "vrun 0 (ring_dev ()) dev hs [7] [(7, 100)]" using ring_round [of "()"] by blast
  show ?thesis using virtio_queue_safe [OF ring_dev_fresh(1) _ v, of one_buf 9] v ring_dev_fresh(2) [of "()"] by auto
qed

theorem virtio_queue_returns_all_witness:
  "\<exists>dev hs. vrun 0 (ring_dev ()) dev hs [7] [(7, 100)] \<and> h_owned hs = [] \<and> mset [7 :: ulong] = mset (map fst [(7 :: ulong, 100 :: ulong)])"
proof -
  obtain dev hs where v: "vrun 0 (ring_dev ()) dev hs [7] [(7, 100)]" "h_owned hs = []"
    "of_nat (h_seen hs) = vq_avail_idx (queues dev ! 0)" "virtio_from_queue (int 0) dev = Inr (None, dev)"
    using ring_round [of "()"] by auto
  have "0 < length (queues (ring_dev ()))" using ring_dev_fresh(2) [of "()"] by simp
  from virtio_queue_returns_all [OF ring_dev_fresh(1) this v] v(1,2) show ?thesis by blast
qed

text \<open>The network driver with one buffer posted, which the device has returned with 100 bytes.\<close>

definition net_driver :: "(ulong \<times> ulong) list vnet_scheme" where
  "net_driver = \<lparr>recv_list = [], packet_len = (\<lambda>_. 0), in_rx = 1, ets_packetR = 0, spin_recv = False, added_polls = [], \<dots> = []\<rparr>"

definition net_returned :: "(ulong \<times> ulong) list vnet_scheme virtio_dev" where
  "net_returned = (case post 0 one_buf 7 (ring_dev net_driver) of
     Inl _ \<Rightarrow> ring_dev net_driver | Inr (_, d) \<Rightarrow> put_queue 0 (host_complete (vq_avail (queues d ! 0) 0) 100 (queues d ! 0)) d)"

lemma net_returned_callback: "vq_callback (queues net_returned ! 0) = 0x5000"
  by code_simp

lemma net_returned_rep:
  "\<exists>a. dev_rep net_returned [a] \<and> returned a = [(7, 100)] \<and> driver net_returned = net_driver"
proof -
  obtain d x a c tab where d: "post 0 one_buf 7 (ring_dev net_driver) = Inr (0, d)" "same_device (ring_dev net_driver) d"
    and x: "x = vq_avail (queues d ! 0) 0" and r: "run_inv 0 (put_queue 0 (host_complete x 100 (queues d ! 0)) d) \<lparr>h_seen = 1, h_owned = []\<rparr> [7] [] [a]"
    and a: "a = acomplete x 100 (afetch (apost c one_buf 7 tab (fresh_queue 4)))"
    using ring_posted [of net_driver] by blast
  let ?d = "put_queue 0 (host_complete x 100 (queues d ! 0)) d"
  have eq: "net_returned = ?d" using d(1) by (simp add: net_returned_def x)
  have done': "aq_done a = [(x, 100)]" by (simp add: a acomplete_def afetch_def apost_def fresh_queue_def)
  obtain d4 :: "(ulong \<times> ulong) list vnet_scheme virtio_dev" where
    "run_inv 0 d4 \<lparr>h_seen = 1, h_owned = []\<rparr> [7] [(fl_data (flight_of x a), 100)] [atake a]"
    using inv_take [OF r] done' by auto
  then have "fl_data (flight_of x a) = 7" by (auto simp: run_inv_def)
  then have "returned a = [(7, 100)]" using done' by (simp add: returned_def)
  moreover have "dev_rep ?d [a]" using r by (simp add: run_inv_def)
  moreover have "driver ?d = net_driver" using d(2) by (simp add: same_device_def put_queue_def ring_dev_def)
  ultimately show ?thesis unfolding eq by blast
qed

theorem virtio_read_queue_delivers_witness:
  "\<exists>dev'. virtio_read_queue logged_rx 0 net_returned = Inr dev' \<and> vnet.more (driver dev') = [(7, 100)] \<and>
     virtio_from_queue 0 dev' = Inr (None, dev')"
proof -
  obtain a where a: "dev_rep net_returned [a]" "returned a = [(7, 100)]" "driver net_returned = net_driver"
    using net_returned_rep by blast
  have "\<not> spin_recv (driver net_returned)" "vnet.more (driver net_returned) = []" by (simp_all add: a(3) net_driver_def)
  then show ?thesis
    using virtio_read_queue_delivers [OF rx_callbacks a(1), of 0] net_returned_callback a(2) by auto
qed

theorem virtio_to_queue_recycles_witness:
  "\<exists>r dev'. virtio_to_queue logged_rx 0 one_buf 7 net_returned = Inr (r, dev') \<and> r \<in> {0, EAGAIN}"
proof -
  obtain a where a: "dev_rep net_returned [a]" "driver net_returned = net_driver" using net_returned_rep by blast
  have "\<not> spin_recv (driver net_returned)" by (simp add: a(2) net_driver_def)
  moreover have "threads net_returned \<le> 1" by code_simp
  ultimately show ?thesis
    using virtio_to_queue_recycles [OF rx_callbacks a(1), of 0 one_buf 7] net_returned_callback by (auto simp: one_buf_def)
qed

end
