(* ===== verification/C_String.thy ===== *)
theory C_String
  imports Yaos_Prelude "HOL-Library.Sublist" "HOL-Library.Char_ord" "HOL-Library.List_Lexorder"
begin

text \<open>
  Strings of C: \<open>arch/x86_64/string64.c\<close>. Memory is a function from addresses to bytes; a string is the
  address of its first byte, and ends at the first NUL. A loop that looks for the end of a string does not
  stop in a memory without NUL, so the functions return an option, \<open>None\<close> when they do not return.
\<close>

section \<open>Memory and the functions\<close>

type_synonym bytes = "ulong \<Rightarrow> char"
type_synonym i32 = "32 word"

abbreviation (input) NUL :: char where "NUL \<equiv> CHR 0x00"

text \<open>A load of \<open>n\<close> bytes as a number, the low byte first.\<close>

primrec load_le :: "nat \<Rightarrow> ulong \<Rightarrow> bytes \<Rightarrow> ulong" where
  "load_le 0 p m = 0"
| "load_le (Suc n) p m = of_char (m p) OR push_bit 8 (load_le n (p + 1) m)"

text \<open>
  A copy of \<open>n\<close> bytes that are read before any is written, as one move instruction or an assignment does it.
\<close>

definition copy_bytes :: "ulong \<Rightarrow> ulong \<Rightarrow> ulong \<Rightarrow> bytes \<Rightarrow> bytes" where
  "copy_bytes d s n m = (\<lambda>a. if a - d < n then m (s + (a - d)) else m a)"

text \<open>
  \<open>memcpy\<close>, the macro for \<open>__inline_memcpy\<close> of \<open>asm/string.h\<close>: \<open>rep movsl\<close> moves four bytes at a time from low to high addresses, then \<open>movsw\<close> and
  \<open>movsb\<close> the rest. The registers hold the two addresses.
\<close>

primrec movsl :: "nat \<Rightarrow> ulong \<Rightarrow> ulong \<Rightarrow> bytes \<Rightarrow> ulong \<times> ulong \<times> bytes" where
  "movsl 0 di si m = (di, si, m)"
| "movsl (Suc k) di si m = movsl k (di + 4) (si + 4) (copy_bytes di si 4 m)"

definition inline_memcpy :: "ulong \<Rightarrow> ulong \<Rightarrow> ulong \<Rightarrow> bytes \<Rightarrow> bytes" where
  "inline_memcpy to from n m =
     (let (di, si, m) = movsl (unat (n div 4)) to from m;
          (di, si, m) = (if n AND 2 \<noteq> 0 then (di + 2, si + 2, copy_bytes di si 2 m) else (di, si, m)) in
      if n AND 1 \<noteq> 0 then copy_bytes di si 1 m else m)"

text \<open>A \<open>char\<close> is signed and is promoted to \<open>int\<close> before a comparison.\<close>

definition schar :: "char \<Rightarrow> int" where
  "schar c = sint (of_char c :: u8)"

definition isdigit :: "int \<Rightarrow> bool" where
  "isdigit ch \<longleftrightarrow> ch \<ge> 48 \<and> ch \<le> 57"

text \<open>
  The instruction \<open>repe cmpsb\<close>: it stops when the counter is 0 or two bytes differ, and leaves the zero flag of the last
  comparison; with a counter of 0 there is none, and the flag is what it was before.
\<close>

primrec repe_cmpsb :: "bytes \<Rightarrow> ulong \<Rightarrow> ulong \<Rightarrow> bool \<Rightarrow> nat \<Rightarrow> bool" where
  "repe_cmpsb m s1 s2 zf 0 = zf"
| "repe_cmpsb m s1 s2 zf (Suc n) =
     (let zf = (m s1 = m s2) in if \<not> zf then zf else repe_cmpsb m (s1 + 1) (s2 + 1) zf n)"

definition memcmp :: "bool \<Rightarrow> bytes \<Rightarrow> ulong \<Rightarrow> ulong \<Rightarrow> ulong \<Rightarrow> int" where
  "memcmp zf m s1 s2 len = (if repe_cmpsb m s1 s2 zf (unat len) then 0 else 1)"

partial_function (option) strcmp :: "bytes \<Rightarrow> ulong \<Rightarrow> ulong \<Rightarrow> int option" where
  "strcmp m s1 s2 =
     (if m s1 \<noteq> NUL \<or> m s2 \<noteq> NUL
      then let delta = of_char (m s1) - of_char (m s2) in
           if delta \<noteq> 0 then Some delta else strcmp m (s1 + 1) (s2 + 1)
      else Some 0)"

declare strcmp.simps [code]

primrec strncmp_loop :: "bytes \<Rightarrow> ulong \<Rightarrow> ulong \<Rightarrow> nat \<Rightarrow> int" where
  "strncmp_loop m cs ct 0 = 0"
| "strncmp_loop m cs ct (Suc n) =
     (let c1 = m cs; c2 = m ct in
      if c1 \<noteq> c2 then (if (of_char c1 :: u8) < of_char c2 then -1 else 1)
      else if c1 = NUL then 0
      else strncmp_loop m (cs + 1) (ct + 1) n)"

definition strncmp :: "bytes \<Rightarrow> ulong \<Rightarrow> ulong \<Rightarrow> ulong \<Rightarrow> int" where
  "strncmp m cs ct count = strncmp_loop m cs ct (unat count)"

function strnlen_loop :: "bytes \<Rightarrow> ulong \<Rightarrow> 'a::len word \<Rightarrow> ulong" where
  "strnlen_loop m es maxlen = (if m es \<noteq> NUL \<and> maxlen \<noteq> 0 then strnlen_loop m (es + 1) (maxlen - 1) else es)"
  by pat_completeness auto
termination
  by (relation "measure (\<lambda>(m, es, n). unat n)") (auto simp: unat_minus_one unat_gt_0)

declare strnlen_loop.simps [simp del]

definition strnlen :: "bytes \<Rightarrow> ulong \<Rightarrow> ulong \<Rightarrow> ulong" where
  "strnlen m s maxlen = strnlen_loop m s maxlen - s"

partial_function (option) atou_loop :: "bytes \<Rightarrow> ulong \<Rightarrow> u32 \<Rightarrow> u32 option" where
  "atou_loop m s i =
     (if isdigit (schar (m s)) then atou_loop m (s + 1) (i * 10 + (of_int (schar (m s)) - 48)) else Some i)"

declare atou_loop.simps [code]

definition atou :: "bytes \<Rightarrow> ulong \<Rightarrow> u32 option" where
  "atou m s = atou_loop m s 0"

partial_function (option) strlen_loop :: "bytes \<Rightarrow> ulong \<Rightarrow> ulong option" where
  "strlen_loop m sc = (if m sc \<noteq> NUL then strlen_loop m (sc + 1) else Some sc)"

declare strlen_loop.simps [code]

definition strlen :: "bytes \<Rightarrow> ulong \<Rightarrow> ulong option" where
  "strlen m s = map_option (\<lambda>sc. sc - s) (strlen_loop m s)"

text \<open>The result of \<open>strstr\<close> is an address; NULL is 0. The flag before each comparison is that of the previous instructions.\<close>

partial_function (option) strstr_loop :: "bool \<Rightarrow> bytes \<Rightarrow> ulong \<Rightarrow> ulong \<Rightarrow> ulong \<Rightarrow> ulong \<Rightarrow> ulong option" where
  "strstr_loop zf m s1 s2 l1 l2 =
     (if l1 \<ge> l2
      then if memcmp zf m s1 s2 l2 = 0 then Some s1 else strstr_loop zf m (s1 + 1) s2 (l1 - 1) l2
      else Some 0)"

declare strstr_loop.simps [code]

definition strstr :: "bool \<Rightarrow> bytes \<Rightarrow> ulong \<Rightarrow> ulong \<Rightarrow> ulong option" where
  "strstr zf m s1 s2 =
     Option.bind (strlen m s2) (\<lambda>l2.
     if l2 = 0 then Some s1
     else Option.bind (strlen m s1) (\<lambda>l1. strstr_loop zf m s1 s2 l1 l2))"

text \<open>\<open>strstarts\<close> of \<open>include/yaos/string.h\<close>.\<close>

definition strstarts :: "bytes \<Rightarrow> ulong \<Rightarrow> ulong \<Rightarrow> bool option" where
  "strstarts m str prfx = map_option (\<lambda>n. strncmp m str prfx n = 0) (strlen m prfx)"

section \<open>Strings in memory\<close>

text \<open>The bytes from an address on, and a string with its NUL.\<close>

primrec holds :: "bytes \<Rightarrow> ulong \<Rightarrow> string \<Rightarrow> bool" where
  "holds m p [] \<longleftrightarrow> True"
| "holds m p (c # cs) \<longleftrightarrow> m p = c \<and> holds m (p + 1) cs"

definition cstr :: "bytes \<Rightarrow> ulong \<Rightarrow> string \<Rightarrow> bool" where
  "cstr m p cs \<longleftrightarrow> holds m p cs \<and> m (p + of_nat (length cs)) = NUL \<and> NUL \<notin> set cs"

lemma holds_append: "holds m p (xs @ ys) \<longleftrightarrow> holds m p xs \<and> holds m (p + of_nat (length xs)) ys"
  by (induction xs arbitrary: p) (auto simp: add.assoc add.commute add.left_commute)

lemma holds_nth: "holds m p cs \<longleftrightarrow> (\<forall>i<length cs. m (p + of_nat i) = cs ! i)"
proof (induction cs arbitrary: p)
  case (Cons c cs)
  have "(\<forall>i<length (c # cs). m (p + of_nat i) = (c # cs) ! i) \<longleftrightarrow>
      m p = c \<and> (\<forall>i<length cs. m (p + of_nat (Suc i)) = cs ! i)"
    by (simp only: length_Cons All_less_Suc2) simp
  then show ?case using Cons by (simp add: add.assoc)
qed simp

lemma cstr_Nil [simp]: "cstr m p [] \<longleftrightarrow> m p = NUL"
  by (simp add: cstr_def)

lemma cstr_Cons [simp]: "cstr m p (c # cs) \<longleftrightarrow> c \<noteq> NUL \<and> m p = c \<and> cstr m (p + 1) cs"
  by (auto simp: cstr_def add.assoc)

lemma cstr_drop: "cstr m p cs \<Longrightarrow> i \<le> length cs \<Longrightarrow> cstr m (p + of_nat i) (drop i cs)"
proof (induction cs arbitrary: p i)
  case (Cons c cs)
  show ?case
  proof (cases i)
    case (Suc j)
    then show ?thesis using Cons.prems Cons.IH [of "p + 1" j] by (simp add: add.assoc)
  qed (use Cons in simp)
qed simp

lemma cstr_byte: "cstr m p cs \<Longrightarrow> i \<le> length cs \<Longrightarrow> m (p + of_nat i) = (cs @ [NUL]) ! i"
  by (auto simp: cstr_def holds_nth nth_append)

text \<open>A string is shorter than the address space, since its NUL is not one of its characters.\<close>

lemma cstr_length: assumes "cstr m p cs" shows "length cs < 2 ^ 64"
proof (rule ccontr)
  assume "\<not> ?thesis"
  then have le: "2 ^ 64 \<le> length cs" by simp
  let ?i = "length cs - 2 ^ 64"
  have "of_nat (length cs) = (of_nat ?i + 2 ^ 64 :: ulong)" using le by (simp add: of_nat_diff)
  then have eq: "p + of_nat (length cs) = p + of_nat ?i" by simp
  have "?i < length cs" using le by simp
  then have "m (p + of_nat ?i) = cs ! ?i" "cs ! ?i \<noteq> NUL"
    using assms by (auto simp: cstr_def holds_nth in_set_conv_nth)
  then show False using assms eq by (simp add: cstr_def)
qed

lemma cstr_unat: "cstr m p cs \<Longrightarrow> unat (of_nat (length cs) :: ulong) = length cs"
  using cstr_length [of m p cs] by (simp add: unat_of_nat)

text \<open>A string at an address is determined by the memory.\<close>

lemma cstr_unique: "cstr m p cs \<Longrightarrow> cstr m p ds \<Longrightarrow> cs = ds"
proof (induction cs arbitrary: p ds)
  case Nil then show ?case by (cases ds) auto
next
  case (Cons c cs) then show ?case by (cases ds) auto
qed

section \<open>Lengths\<close>

lemma strlen_loop_cstr: "cstr m p cs \<Longrightarrow> strlen_loop m p = Some (p + of_nat (length cs))"
proof (induction cs arbitrary: p)
  case (Cons c cs)
  then show ?case by (subst strlen_loop.simps) (simp add: add.assoc)
qed (simp add: strlen_loop.simps)

lemma strlen_cstr: "cstr m p cs \<Longrightarrow> strlen m p = Some (of_nat (length cs))"
  by (simp add: strlen_def strlen_loop_cstr)

text \<open>Conversely, \<open>strlen\<close> returns only when there is a string: its result is the length of that string.\<close>

lemma strlen_loop_SomeD:
  assumes "strlen_loop m p = Some e" shows "\<exists>cs. cstr m p cs \<and> e = p + of_nat (length cs)"
proof (rule strlen_loop.raw_induct [where P = "\<lambda>m p e. \<exists>cs. cstr m p cs \<and> e = p + of_nat (length cs)", OF _ assms])
  fix f and m :: bytes and p e
  assume IH: "\<And>m p e. f m p = Some e \<Longrightarrow> \<exists>cs. cstr m p cs \<and> e = p + of_nat (length cs)"
    and step: "(if m p \<noteq> NUL then f m (p + 1) else Some p) = Some e"
  show "\<exists>cs. cstr m p cs \<and> e = p + of_nat (length cs)"
  proof (cases "m p = NUL")
    case True
    with step have "cstr m p []" "e = p" by auto
    then show ?thesis by (intro exI [of _ "[]"]) simp
  next
    case False
    with step have "f m (p + 1) = Some e" by simp
    from IH [OF this] obtain cs where "cstr m (p + 1) cs" "e = p + 1 + of_nat (length cs)" by blast
    with False show ?thesis by (intro exI [of _ "m p # cs"]) (simp add: add.assoc)
  qed
qed

lemma strlen_returns_iff: "(\<exists>n. strlen m p = Some n) \<longleftrightarrow> (\<exists>cs. cstr m p cs)"
proof
  assume "\<exists>n. strlen m p = Some n"
  then obtain e where "strlen_loop m p = Some e" by (auto simp: strlen_def)
  then show "\<exists>cs. cstr m p cs" using strlen_loop_SomeD by blast
next
  assume "\<exists>cs. cstr m p cs"
  then show "\<exists>n. strlen m p = Some n" using strlen_cstr by blast
qed

lemma strnlen_loop_cstr: "cstr m p cs \<Longrightarrow> strnlen_loop m p n = p + of_nat (min (length cs) (unat n))"
proof (induction cs arbitrary: p n)
  case Nil then show ?case by (simp add: strnlen_loop.simps)
next
  case (Cons c cs)
  show ?case
  proof (cases "n = 0")
    case False
    then have "unat n = Suc (unat (n - 1))" by (simp add: unat_minus_one unat_gt_0)
    then have "min (length (c # cs)) (unat n) = Suc (min (length cs) (unat (n - 1)))" by simp
    moreover have "strnlen_loop m p n = strnlen_loop m (p + 1) (n - 1)"
      using False Cons.prems by (subst strnlen_loop.simps) simp
    ultimately show ?thesis using Cons by (simp add: add.assoc)
  qed (simp add: strnlen_loop.simps)
qed

lemma strnlen_cstr: "cstr m p cs \<Longrightarrow> strnlen m p n = of_nat (min (length cs) (unat n))"
  by (simp add: strnlen_def strnlen_loop_cstr)

section \<open>Comparisons\<close>

lemma repe_cmpsb_iff:
  "repe_cmpsb m s1 s2 zf n \<longleftrightarrow> (if n = 0 then zf else \<forall>i<n. m (s1 + of_nat i) = m (s2 + of_nat i))"
proof (induction n arbitrary: s1 s2 zf)
  case (Suc n)
  have "(\<forall>i<Suc n. m (s1 + of_nat i) = m (s2 + of_nat i)) \<longleftrightarrow>
      m s1 = m s2 \<and> (\<forall>i<n. m (s1 + 1 + of_nat i) = m (s2 + 1 + of_nat i))"
    by (simp only: All_less_Suc2) (simp add: add.assoc)
  then show ?case by (simp add: Suc.IH Let_def)
qed simp

lemma memcmp_eq_0:
  "memcmp zf m s1 s2 len = 0 \<longleftrightarrow>
     (if len = 0 then zf else \<forall>i<unat len. m (s1 + of_nat i) = m (s2 + of_nat i))"
  by (simp add: memcmp_def repe_cmpsb_iff unat_eq_0)

lemma of_char_inj [simp]: "(of_char c :: int) = of_char d \<longleftrightarrow> c = d"
  by (metis of_char_eq_iff)

lemma of_char_NUL_le: "(0 :: int) \<le> of_char c" "(of_char c :: int) = 0 \<longleftrightarrow> c = NUL"
proof -
  show "(0 :: int) \<le> of_char c" by (metis of_nat_0_le_iff of_nat_of_char)
  have "(of_char NUL :: int) = 0" by simp
  then show "(of_char c :: int) = 0 \<longleftrightarrow> c = NUL" using of_char_inj [of c NUL] by simp
qed

lemma of_char_less: "(of_char a :: int) < of_char b \<longleftrightarrow> (of_char a :: nat) < of_char b"
  by (simp only: of_nat_of_char [symmetric, where 'a = int] of_nat_less_iff)

lemma strcmp_cstr:
  "cstr m p as \<Longrightarrow> cstr m q bs \<Longrightarrow> \<exists>d. strcmp m p q = Some d \<and> (d = 0 \<longleftrightarrow> as = bs) \<and> (d < 0 \<longleftrightarrow> as < bs)"
proof (induction as arbitrary: p q bs)
  case Nil
  show ?case
  proof (cases bs)
    case (Cons b bs')
    with Nil have "m p = NUL" "m q = b" "b \<noteq> NUL" by auto
    moreover have "(0::int) < of_char b" using of_char_NUL_le [of b] \<open>b \<noteq> NUL\<close> by linarith
    ultimately show ?thesis by (subst strcmp.simps) (simp add: Let_def Cons)
  qed (use Nil in \<open>simp add: strcmp.simps\<close>)
next
  case (Cons a as)
  show ?case
  proof (cases bs)
    case Nil
    with Cons have "m p = a" "m q = NUL" "a \<noteq> NUL" by auto
    moreover have "(0::int) < of_char a" using of_char_NUL_le [of a] \<open>a \<noteq> NUL\<close> by linarith
    ultimately show ?thesis by (subst strcmp.simps) (simp add: Let_def Nil)
  next
    case (Cons b bs')
    show ?thesis
    proof (cases "a = b")
      case True
      with Cons Cons.prems have "m p = b" "m q = b" "b \<noteq> NUL" by auto
      then have "strcmp m p q = strcmp m (p + 1) (q + 1)" by (subst strcmp.simps) simp
      with True Cons Cons.prems Cons.IH [of "p + 1" "q + 1" bs'] show ?thesis by simp
    next
      case False
      have "(of_char a :: int) < of_char b \<longleftrightarrow> a < b"
        by (simp only: less_char_def of_char_less)
      moreover have "strcmp m p q = Some (of_char a - of_char b)"
        using False Cons Cons.prems by (subst strcmp.simps) (simp add: Let_def)
      ultimately show ?thesis using False Cons by simp
    qed
  qed
qed

lemma unat_of_char: "unat (of_char c :: u8) = of_char c"
proof -
  have "(of_char c :: nat) < 2 ^ 8" by simp
  moreover have "(of_char c :: u8) = of_nat (of_char c)" by (simp only: of_nat_of_char)
  ultimately show ?thesis by (simp add: unat_of_nat del: of_nat_of_char)
qed

lemma u8_char_less: "(of_char a :: u8) < of_char b \<longleftrightarrow> a < b"
  by (simp only: word_less_nat_alt less_char_def unat_of_char)

lemma of_char_pos:
  assumes "c \<noteq> NUL" shows "(0::nat) < of_char c" "(0::u8) < of_char c"
proof -
  have "of_nat (of_char c) \<noteq> (0::int)" unfolding of_nat_of_char using of_char_NUL_le(2) assms by blast
  then show n: "(0::nat) < of_char c" by (simp only: of_nat_eq_0_iff neq0_conv)
  then have "(of_char c :: u8) \<noteq> 0" using unat_of_char [of c] by (metis less_irrefl unat_0)
  then show "(0::u8) < of_char c" by (simp add: word_neq_0_conv)
qed

lemma strncmp_loop_cstr:
  "cstr m p as \<Longrightarrow> cstr m q bs \<Longrightarrow>
     strncmp_loop m p q n = (if take n as = take n bs then 0 else if take n as < take n bs then -1 else 1)"
proof (induction n arbitrary: p q as bs)
  case (Suc n)
  show ?case
  proof (cases as)
    case Nil
    with Suc.prems show ?thesis by (cases bs) (auto simp: Let_def u8_char_less less_char_def of_char_pos)
  next
    case (Cons a as')
    show ?thesis
    proof (cases bs)
      case Nil
      with Cons Suc.prems show ?thesis by (auto simp: Let_def u8_char_less less_char_def)
    next
      case (Cons b bs')
      with \<open>as = a # as'\<close> Suc show ?thesis by (auto simp: Let_def u8_char_less)
    qed
  qed
qed simp

lemma strncmp_cstr:
  "cstr m p as \<Longrightarrow> cstr m q bs \<Longrightarrow>
     strncmp m p q n = (if take (unat n) as = take (unat n) bs then 0
                        else if take (unat n) as < take (unat n) bs then -1 else 1)"
  by (simp add: strncmp_def strncmp_loop_cstr)

lemma strstarts_cstr: 
  assumes "cstr m p as" "cstr m q bs" shows "strstarts m p q = Some (prefix bs as)"
proof -
  have "take (length bs) as = bs \<longleftrightarrow> prefix bs as"
    by (metis append_eq_conv_conj prefix_def take_is_prefix)
  then show ?thesis
    using assms by (simp add: strstarts_def strlen_cstr strncmp_cstr cstr_unat)
qed

section \<open>Searching\<close>

text \<open>The first place where one string occurs in another.\<close>

definition first_at :: "string \<Rightarrow> string \<Rightarrow> nat option" where
  "first_at bs as = find (\<lambda>i. prefix bs (drop i as)) [0..<Suc (length as)]"

lemma first_at_Cons:
  "first_at bs (a # as) = (if prefix bs (a # as) then Some 0 else map_option Suc (first_at bs as))"
proof -
  have "find (\<lambda>i. prefix bs (drop i (a # as))) (map Suc xs) = map_option Suc (find (\<lambda>i. prefix bs (drop i as)) xs)" for xs
    by (induction xs) auto
  moreover have "[0..<Suc (length (a # as))] = 0 # map Suc [0..<Suc (length as)]"
    by (simp only: length_Cons map_Suc_upt) (rule upt_conv_Cons, simp)
  ultimately show ?thesis by (simp only: first_at_def find.simps) simp
qed

lemma first_at_short: "length as < length bs \<Longrightarrow> first_at bs as = None"
  by (auto simp: first_at_def find_None_iff dest!: prefix_length_le)

lemma memcmp_prefix:
  assumes "cstr m p as" "cstr m q bs" "bs \<noteq> []" "length bs \<le> length as"
  shows "memcmp zf m p q (of_nat (length bs)) = 0 \<longleftrightarrow> prefix bs as"
proof -
  have n: "unat (of_nat (length bs) :: ulong) = length bs" using assms(2) by (rule cstr_unat)
  then have nz: "(of_nat (length bs) :: ulong) \<noteq> 0" using assms(3) by (metis length_0_conv unat_0)
  have "memcmp zf m p q (of_nat (length bs)) = 0 \<longleftrightarrow> (\<forall>i<length bs. as ! i = bs ! i)"
    using assms by (auto simp: memcmp_eq_0 nz n cstr_def holds_nth)
  also have "\<dots> \<longleftrightarrow> take (length bs) as = bs" using assms(4) by (auto simp: list_eq_iff_nth_eq)
  also have "\<dots> \<longleftrightarrow> prefix bs as" by (metis append_eq_conv_conj prefix_def take_is_prefix)
  finally show ?thesis .
qed

lemma strstr_loop_cstr:
  assumes "cstr m q bs" "bs \<noteq> []"
  shows "cstr m p as \<Longrightarrow> strstr_loop zf m p q (of_nat (length as)) (of_nat (length bs)) =
     Some (case first_at bs as of None \<Rightarrow> 0 | Some i \<Rightarrow> p + of_nat i)"
proof (induction as arbitrary: p)
  case Nil
  have "\<not> (of_nat (length bs) :: ulong) \<le> 0" using assms cstr_unat [OF assms(1)]
    by (metis length_0_conv unat_0 word_le_0_iff)
  then show ?case using assms(2) by (subst strstr_loop.simps) (simp add: first_at_short)
next
  case (Cons a as)
  have len: "(of_nat (length bs) :: ulong) \<le> of_nat (length (a # as)) \<longleftrightarrow> length bs \<le> length (a # as)"
    by (simp only: word_le_nat_alt cstr_unat [OF assms(1)] cstr_unat [OF Cons.prems])
  show ?case
  proof (cases "length bs \<le> length (a # as)")
    case False
    then show ?thesis by (subst strstr_loop.simps) (simp only: len if_False, simp add: first_at_short)
  next
    case True
    note mc = memcmp_prefix [OF Cons.prems assms True]
    show ?thesis
    proof (cases "prefix bs (a # as)")
      case pre: True
      then show ?thesis
        by (subst strstr_loop.simps) (simp only: len True if_True mc, simp add: first_at_Cons)
    next
      case False
      have "strstr_loop zf m p q (of_nat (length (a # as))) (of_nat (length bs)) =
          strstr_loop zf m (p + 1) q (of_nat (length as)) (of_nat (length bs))"
        using False by (subst strstr_loop.simps) (simp only: len True if_True mc if_False, simp)
      also have "\<dots> = Some (case first_at bs as of None \<Rightarrow> 0 | Some i \<Rightarrow> p + 1 + of_nat i)"
        using Cons.prems by (intro Cons.IH) simp
      finally show ?thesis using False
        by (simp add: first_at_Cons add.assoc split: option.split)
    qed
  qed
qed

lemma strstr_run:
  assumes "cstr m p as" "cstr m q bs"
  shows "strstr zf m p q = Some (case first_at bs as of None \<Rightarrow> 0 | Some i \<Rightarrow> p + of_nat i)"
proof (cases "bs = []")
  case True
  then have "first_at bs as = Some 0" by (cases as) (simp_all add: first_at_Cons, simp add: first_at_def)
  moreover have "strlen m q = Some 0" using strlen_cstr [OF assms(2)] True by simp
  ultimately show ?thesis by (simp add: strstr_def)
next
  case False
  then have "(of_nat (length bs) :: ulong) \<noteq> 0" using cstr_unat [OF assms(2)]
    by (metis length_0_conv unat_0)
  then show ?thesis using assms False by (simp add: strstr_def strlen_cstr strstr_loop_cstr)
qed

text \<open>
  \<open>strstr\<close> returns for every two strings, with the address of the first place
  where the second occurs in the first, or NULL when it does not occur.\<close>

theorem strstr_correct:
  assumes "cstr m p as" "cstr m q bs"
  shows "\<exists>r. strstr zf m p q = Some r \<and>
     (if sublist bs as
      then \<exists>i. r = p + of_nat i \<and> prefix bs (drop i as) \<and> (\<forall>j<i. \<not> prefix bs (drop j as))
      else r = 0)"
proof (cases "first_at bs as")
  case None
  then have no: "\<not> prefix bs (drop i as)" if "i \<le> length as" for i
    using that by (simp add: first_at_def find_None_iff del: upt_Suc)
  have "\<not> sublist bs as"
  proof
    assume "sublist bs as"
    then obtain ps ss where "as = ps @ bs @ ss" by (auto simp: sublist_def)
    then show False using no [of "length ps"] by simp
  qed
  then show ?thesis using None strstr_run [OF assms] by simp
next
  case (Some i)
  then have i: "prefix bs (drop i as)" "\<forall>j<i. \<not> prefix bs (drop j as)"
    by (auto simp: first_at_def find_Some_iff simp del: upt_Suc)
  have "sublist bs as"
    using i(1) by (metis append_take_drop_id prefix_def sublist_appendI)
  then show ?thesis using Some i strstr_run [OF assms] by auto
qed

text \<open>A memory that begins with the given bytes.\<close>

definition mem_of :: "string \<Rightarrow> bytes" where
  "mem_of cs a = (if unat a < length cs then cs ! unat a else NUL)"

lemma strstr_correct_witness:
  "\<exists>r. strstr True (mem_of (''hello'' @ NUL # ''lo'')) 0 6 = Some r \<and>
     (if sublist ''lo'' ''hello''
      then \<exists>i. r = 0 + of_nat i \<and> prefix ''lo'' (drop i ''hello'') \<and> (\<forall>j<i. \<not> prefix ''lo'' (drop j ''hello''))
      else r = 0)"
  by (rule strstr_correct) (simp_all add: mem_of_def)

section \<open>Numbers\<close>

text \<open>The value of a string of decimal digits.\<close>

definition digit_val :: "char \<Rightarrow> nat" where
  "digit_val c = of_char c - 48"

definition dec_val :: "string \<Rightarrow> nat" where
  "dec_val ds = foldl (\<lambda>n d. n * 10 + digit_val d) 0 ds"

definition decimal :: "char \<Rightarrow> bool" where
  "decimal c \<longleftrightarrow> 48 \<le> (of_char c :: nat) \<and> (of_char c :: nat) \<le> 57"

lemma schar_eq: "schar c = (if (of_char c :: nat) < 128 then of_char c else of_char c - 256)"
proof -
  have u: "uint (of_char c :: u8) = int (of_char c)" by (simp only: uint_nat unat_of_char)
  have "(of_char c :: nat) < 256" by simp
  then have lt: "int (of_char c) < 256" by linarith
  then have "\<not> (of_char c :: nat) < 128 \<Longrightarrow> int (of_char c) div 128 = 1"
    by (intro int_div_pos_eq [where r = "int (of_char c) - 128"]) auto
  then have "signed_take_bit 7 (int (of_char c)) =
      (if (of_char c :: nat) < 128 then int (of_char c) else int (of_char c) - 256)"
    using lt by (auto simp: signed_take_bit_eq_take_bit_minus take_bit_int_eq_self bit_iff_odd)
  then show ?thesis
    by (simp only: schar_def sint_uint u of_nat_of_char) simp
qed

lemma isdigit_schar [simp]: "isdigit (schar c) \<longleftrightarrow> decimal c"
proof -
  have "(of_char c :: int) = int (of_char c)" by (simp only: of_nat_of_char)
  moreover have "(of_char c :: nat) < 256" by simp
  ultimately show ?thesis by (simp only: isdigit_def schar_eq decimal_def split: if_split) linarith
qed

lemma schar_digit: "decimal c \<Longrightarrow> schar c - 48 = int (digit_val c)"
proof -
  have "(of_char c :: int) = int (of_char c)" by (simp only: of_nat_of_char)
  then show "decimal c \<Longrightarrow> ?thesis" by (auto simp: schar_eq decimal_def digit_val_def of_nat_diff simp del: of_nat_of_char)
qed

lemma not_decimal_NUL [simp]: "\<not> decimal NUL"
  by (simp add: decimal_def)

lemma atou_loop_digits:
  assumes "\<forall>d \<in> set ds. decimal d" "holds m p ds" "\<not> decimal (m (p + of_nat (length ds)))"
  shows "atou_loop m p (of_nat n) = Some (of_nat (foldl (\<lambda>n d. n * 10 + digit_val d) n ds))"
  using assms
proof (induction ds arbitrary: p n)
  case Nil then show ?case by (simp add: atou_loop.simps)
next
  case (Cons d ds)
  then have d: "m p = d" "decimal d" by auto
  have "(of_int (schar d) - 48 :: u32) = of_nat (digit_val d)"
    using schar_digit [OF d(2)] by (metis of_int_diff of_int_numeral of_int_of_nat_eq)
  then have "atou_loop m p (of_nat n) = atou_loop m (p + 1) (of_nat (n * 10 + digit_val d))"
    using d by (subst atou_loop.simps) simp
  also have "\<dots> = Some (of_nat (foldl (\<lambda>n d. n * 10 + digit_val d) (n * 10 + digit_val d) ds))"
    using Cons.prems by (intro Cons.IH) (simp_all add: add.assoc)
  finally show ?case by simp
qed

lemma atou_digits:
  assumes "\<forall>d \<in> set ds. decimal d" "holds m p ds" "\<not> decimal (m (p + of_nat (length ds)))"
  shows "atou m p = Some (of_nat (dec_val ds))"
  using atou_loop_digits [OF assms, of 0] by (simp add: atou_def dec_val_def)

lemma atou_cstr: "cstr m p ds \<Longrightarrow> \<forall>d \<in> set ds. decimal d \<Longrightarrow> atou m p = Some (of_nat (dec_val ds))"
  by (rule atou_digits) (auto simp: cstr_def)

section \<open>Copying memory\<close>

text \<open>The \<open>n\<close> bytes at \<open>d\<close> and the \<open>n\<close> bytes at \<open>s\<close> do not overlap.\<close>

definition areas_apart :: "ulong \<Rightarrow> ulong \<Rightarrow> ulong \<Rightarrow> bool" where
  "areas_apart d s n \<longleftrightarrow> (\<forall>x. x < n \<longrightarrow> \<not> s + x - d < n)"

lemma word_pieces:
  fixes x k n :: ulong
  assumes "unat k + unat n < 2 ^ 64"
  shows "x < k + n \<longleftrightarrow> x < k \<or> x - k < n" "x - k < n \<Longrightarrow> \<not> x < k"
  using assms ulong_lt_2p64 [of x] unat_add_no_wrap [OF assms] unfolding word_less_nat_alt by (auto simp: unat_sub_if')

lemma copy_pieces:
  assumes "unat k + unat n < 2 ^ 64" "areas_apart d s (k + n)"
  shows "copy_bytes (d + k) (s + k) n (copy_bytes d s k m) = copy_bytes d s (k + n) m"
proof
  fix a
  note W = word_pieces [OF assms(1)]
  have e: "a - (d + k) = a - d - k" "s + k + (a - d - k) = s + (a - d)" by simp_all
  have "\<not> s + (a - d) - d < k" if "a - d - k < n"
    using assms(2) that W(1) [of "a - d"] W(1) [of "s + (a - d) - d"] unfolding areas_apart_def by blast
  then show "copy_bytes (d + k) (s + k) n (copy_bytes d s k m) a = copy_bytes d s (k + n) m a"
    using W [of "a - d"] unfolding copy_bytes_def e by auto
qed

lemma areas_apart_less:
  assumes "areas_apart d s n" "k \<le> n" shows "areas_apart d s k"
  using assms unfolding areas_apart_def by (meson order_less_le_trans)

lemma areas_apart_rest:
  assumes "areas_apart d s (k + n)" "unat k + unat n < 2 ^ 64"
  shows "areas_apart (d + k) (s + k) n"
  unfolding areas_apart_def
proof (intro allI impI notI)
  fix x assume x: "x < n" "s + k + x - (d + k) < n"
  have n: "n \<le> k + n" using assms(2) unat_add_no_wrap [OF assms(2)] by (simp add: word_le_nat_alt)
  have "k + x < k + n" using word_pieces(1) [OF assms(2), of "k + x"] x(1) by simp
  moreover have "s + (k + x) - d < k + n" using word_pieces(1) [OF assms(2), of "s + (k + x) - d"] x(2) by (simp add: algebra_simps)
  ultimately show False using assms(1) unfolding areas_apart_def by blast
qed

lemma movsl_regs: "fst (movsl k d s m) = d + of_nat (4 * k)" "fst (snd (movsl k d s m)) = s + of_nat (4 * k)"
  by (induction k arbitrary: d s m) (simp_all add: algebra_simps)

lemma unat_4: "4 + 4 * k < 2 ^ 64 \<Longrightarrow> unat (4 :: ulong) + unat (of_nat (4 * k) :: ulong) < 2 ^ 64"
  using unat_of_nat_small [of "4 * k"] by simp

lemma movsl_apart:
  "4 * k < 2 ^ 64 \<Longrightarrow> areas_apart d s (of_nat (4 * k)) \<Longrightarrow> snd (snd (movsl k d s m)) = copy_bytes d s (of_nat (4 * k)) m"
proof (induction k arbitrary: d s m)
  case 0
  then show ?case by (simp add: copy_bytes_def)
next
  case (Suc k)
  have w: "unat (4 :: ulong) + unat (of_nat (4 * k) :: ulong) < 2 ^ 64" using Suc.prems(1) by (intro unat_4) simp
  have n: "of_nat (4 * Suc k) = 4 + (of_nat (4 * k) :: ulong)" by simp
  have "areas_apart (d + 4) (s + 4) (of_nat (4 * k))" using areas_apart_rest [OF _ w] Suc.prems(2) unfolding n by blast
  then have "snd (snd (movsl (Suc k) d s m)) = copy_bytes (d + 4) (s + 4) (of_nat (4 * k)) (copy_bytes d s 4 m)"
    using Suc.IH Suc.prems(1) by simp
  also have "\<dots> = copy_bytes d s (of_nat (4 * Suc k)) m" using copy_pieces [OF w] Suc.prems(2) unfolding n by blast
  finally show ?case .
qed

lemma movsl_other: "4 * k < 2 ^ 64 \<Longrightarrow> \<not> a - d < of_nat (4 * k) \<Longrightarrow> snd (snd (movsl k d s m)) a = m a"
proof (induction k arbitrary: d s m)
  case (Suc k)
  have w: "unat (4 :: ulong) + unat (of_nat (4 * k) :: ulong) < 2 ^ 64" using Suc.prems(1) by (intro unat_4) simp
  have n: "of_nat (4 * Suc k) = 4 + (of_nat (4 * k) :: ulong)" by simp
  have "\<not> a - d < 4" "\<not> a - (d + 4) < of_nat (4 * k)"
    using word_pieces(1) [OF w, of "a - d"] Suc.prems(2) unfolding n by (simp_all add: algebra_simps)
  then show ?case using Suc.IH [of "d + 4"] Suc.prems(1) by (simp add: copy_bytes_def)
qed simp

text \<open>The three parts of \<open>n\<close>.\<close>

lemma memcpy_parts:
  fixes n :: ulong
  defines "q \<equiv> of_nat (4 * unat (n div 4)) :: ulong" and "h \<equiv> (if n AND 2 \<noteq> 0 then 2 else 0) :: ulong"
    and "l \<equiv> (if n AND 1 \<noteq> 0 then 1 else 0) :: ulong"
  shows "n = q + h + l" "4 * unat (n div 4) < 2 ^ 64" "unat q + unat h < 2 ^ 64" "unat (q + h) + unat l < 2 ^ 64"
proof -
  let ?N = "unat n"
  have b: "n AND 2 \<noteq> 0 \<longleftrightarrow> odd (?N div 2)" "n AND 1 \<noteq> 0 \<longleftrightarrow> odd ?N"
  proof -
    have e: "bit n i \<longleftrightarrow> bit (unat n) i" for i by (simp add: bit_unsigned_iff)
    show "n AND 2 \<noteq> 0 \<longleftrightarrow> odd (?N div 2)" using and_exp_eq_0_iff_not_bit [of n 1] e [of 1] by (simp add: bit_iff_odd [of ?N])
    show "n AND 1 \<noteq> 0 \<longleftrightarrow> odd ?N" using and_exp_eq_0_iff_not_bit [of n 0] e [of 0] by (simp add: bit_iff_odd [of ?N])
  qed
  have N: "?N = 4 * (?N div 4) + (if odd (?N div 2) then 2 else 0) + (if odd ?N then 1 else 0)" by presburger
  have lt: "?N < 2 ^ 64" by (rule ulong_lt_2p64)
  have d: "unat (n div 4) = ?N div 4" by (simp add: unat_div)
  then show "4 * unat (n div 4) < 2 ^ 64" using lt by simp
  then have q: "unat q = 4 * (?N div 4)" unfolding q_def using unat_of_nat_small d by metis
  have u: "unat h = (if odd (?N div 2) then 2 else 0)" "unat l = (if odd ?N then 1 else 0)" by (simp_all add: h_def l_def b)
  show s: "unat q + unat h < 2 ^ 64" using q u N lt by simp
  then have qh: "unat (q + h) = unat q + unat h" by (rule unat_add_no_wrap)
  then show t: "unat (q + h) + unat l < 2 ^ 64" using q u N lt by simp
  then have "unat (q + h + l) = ?N" using unat_add_no_wrap [OF t] qh q u N by simp
  then show "n = q + h + l" by (metis word_unat_eq_iff)
qed

lemma inline_memcpy_steps:
  fixes n :: ulong
  defines "q \<equiv> of_nat (4 * unat (n div 4)) :: ulong" and "h \<equiv> (if n AND 2 \<noteq> 0 then 2 else 0) :: ulong"
    and "l \<equiv> (if n AND 1 \<noteq> 0 then 1 else 0) :: ulong"
  shows "inline_memcpy d s n m = copy_bytes (d + (q + h)) (s + (q + h)) l (copy_bytes (d + q) (s + q) h (snd (snd (movsl (unat (n div 4)) d s m))))"
proof -
  obtain di si m1 where r: "movsl (unat (n div 4)) d s m = (di, si, m1)" by (metis prod_cases3)
  then have "di = d + q" "si = s + q" "snd (snd (movsl (unat (n div 4)) d s m)) = m1"
    using movsl_regs [of "unat (n div 4)" d s m] by (simp_all add: q_def)
  moreover have "copy_bytes a b 0 m' = m'" for a b m' by (simp add: copy_bytes_def)
  ultimately show ?thesis by (simp add: inline_memcpy_def r h_def l_def add.assoc)
qed

text \<open>For areas that do not overlap the order of the moves does not matter; in any case only the target changes.\<close>

lemma inline_memcpy_apart:
  assumes "areas_apart d s n" shows "inline_memcpy d s n m = copy_bytes d s n m"
proof -
  let ?q = "of_nat (4 * unat (n div 4)) :: ulong" and ?h = "(if n AND 2 \<noteq> 0 then 2 else 0) :: ulong"
  let ?l = "(if n AND 1 \<noteq> 0 then 1 else 0) :: ulong"
  note P = memcpy_parts [of n]
  have "?q + ?h \<le> n" using P(1,4) by (metis unat_add_no_wrap le_add1 word_le_nat_alt)
  then have a2: "areas_apart d s (?q + ?h)" using areas_apart_less [OF assms] by blast
  have "?q \<le> ?q + ?h" using P(3) by (metis unat_add_no_wrap le_add1 word_le_nat_alt)
  then have "areas_apart d s ?q" using areas_apart_less [OF a2] by blast
  then have "inline_memcpy d s n m = copy_bytes (d + (?q + ?h)) (s + (?q + ?h)) ?l (copy_bytes (d + ?q) (s + ?q) ?h (copy_bytes d s ?q m))"
    unfolding inline_memcpy_steps using movsl_apart [OF P(2)] by simp
  also have "\<dots> = copy_bytes (d + (?q + ?h)) (s + (?q + ?h)) ?l (copy_bytes d s (?q + ?h) m)"
    by (simp only: copy_pieces [OF P(3) a2])
  also have "\<dots> = copy_bytes d s (?q + ?h + ?l) m" using assms P(1) by (intro copy_pieces [OF P(4)]) metis
  finally show ?thesis using P(1) by metis
qed

lemma inline_memcpy_other:
  assumes "\<not> a - d < n" shows "inline_memcpy d s n m a = m a"
proof -
  let ?q = "of_nat (4 * unat (n div 4)) :: ulong" and ?h = "(if n AND 2 \<noteq> 0 then 2 else 0) :: ulong"
  let ?l = "(if n AND 1 \<noteq> 0 then 1 else 0) :: ulong"
  note P = memcpy_parts [of n]
  have e: "a - (d + x) = a - d - x" for x by simp
  have "\<not> a - d < ?q + ?h \<and> \<not> a - d - (?q + ?h) < ?l" using word_pieces(1) [OF P(4), of "a - d"] assms P(1) by metis
  moreover from this have "\<not> a - d < ?q \<and> \<not> a - d - ?q < ?h" using word_pieces(1) [OF P(3), of "a - d"] by metis
  ultimately show ?thesis
    using movsl_other [OF P(2), of a d s m] unfolding inline_memcpy_steps copy_bytes_def e by simp
qed

end
