(* ===== verification/Printk.thy ===== *)
theory Printk
  imports C_String
begin

text \<open>
  Formatted output: \<open>kernel/printk.c\<close>, \<open>skip_atoi\<close>, \<open>number\<close> and \<open>vsprintf\<close>. The buffer, the format and the strings
  that are printed lie in one memory, so a call that prints a string into itself is a case of the model.
  The kernel is compiled with \<open>-fno-strict-overflow\<close>: an \<open>int\<close> is a word of 32 bits that is compared as a signed number and wraps.
\<close>

section \<open>Signed numbers\<close>

lemma sint_i32_bounds: "- (2 ^ 31) \<le> sint (n :: i32)" "sint (n :: i32) < 2 ^ 31"
  using sint_greater_eq [of n] sint_less [of n] by auto

lemma sint_i32_of_int: "- (2 ^ 31) \<le> k \<Longrightarrow> k < 2 ^ 31 \<Longrightarrow> sint (of_int k :: i32) = k"
  by (simp add: signed_of_int signed_take_bit_int_eq_self)

lemma sint_i32_eq:
  assumes "- (2 ^ 31) \<le> sint (a :: i32) + k" "sint a + k < 2 ^ 31"
  shows "sint (a + of_int k) = sint a + k"
proof -
  have "a + of_int k = of_int (sint a + k)" by simp
  then show ?thesis using assms sint_i32_of_int by metis
qed

lemma sint_i32_pred: "- (2 ^ 31) < sint (n :: i32) \<Longrightarrow> sint (n - 1) = sint n - 1"
  using sint_i32_eq [of n "- 1"] sint_i32_bounds [of n] by simp

lemma i32_above: "(a :: i32) <s n \<Longrightarrow> - (2 ^ 31) < sint n"
  using sint_i32_bounds(1) [of a] by (simp add: word_sless_alt)

section \<open>Arguments and output\<close>

text \<open>
  The variable arguments: one slot of 64 bits each, and reading one more than were passed
  gives whatever the next slot holds.
\<close>

type_synonym va_list = "nat \<Rightarrow> ulong"

definition va_arg :: "va_list \<Rightarrow> ulong \<times> va_list" where
  "va_arg args = (args 0, \<lambda>i. args (Suc i))"

text \<open>The output so far: the memory and the place of the next character, as \<open>*str++ = c\<close> changes them.\<close>

text \<open>The low byte of an integer, stored as a \<open>char\<close>.\<close>

definition to_char :: "i32 \<Rightarrow> char" where
  "to_char w = char_of (uint w)"

type_synonym out = "bytes \<times> ulong"

definition put :: "char \<Rightarrow> out \<Rightarrow> out" where
  "put c st = (case st of (m, str) \<Rightarrow> (m(str := c), str + 1))"

text \<open>The loop \<open>while (n-- > 0) *str++ = c;\<close>, with the value of \<open>n\<close> after it.\<close>

function pad_loop :: "char \<Rightarrow> i32 \<Rightarrow> out \<Rightarrow> i32 \<times> out" where
  "pad_loop c n st = (if 0 <s n then pad_loop c (n - 1) (put c st) else (n - 1, st))"
  by pat_completeness auto
termination
  by (relation "measure (\<lambda>(c, n, st). nat (sint n))") (auto simp: word_sless_alt sint_i32_pred)

declare pad_loop.simps [simp del]

text \<open>The loop \<open>while (a < n--) *str++ = c;\<close>.\<close>

function above_loop :: "char \<Rightarrow> i32 \<Rightarrow> i32 \<Rightarrow> out \<Rightarrow> i32 \<times> out" where
  "above_loop c a n st = (if a <s n then above_loop c a (n - 1) (put c st) else (n - 1, st))"
  by pat_completeness auto
termination
  by (relation "measure (\<lambda>(c, a, n, st). nat (sint n + 2 ^ 31))")
    (auto dest!: i32_above simp: sint_i32_pred)

declare above_loop.simps [simp del]

text \<open>The loop \<open>while (--n > 0) *str++ = c;\<close>.\<close>

function less_loop :: "char \<Rightarrow> i32 \<Rightarrow> out \<Rightarrow> i32 \<times> out" where
  "less_loop c n st = (let n1 = n - 1 in if 0 <s n1 then less_loop c n1 (put c st) else (n1, st))"
  by pat_completeness auto
termination
  by (relation "measure (\<lambda>(c, n, st). nat (sint (n - 1)))") (auto simp: word_sless_alt sint_i32_pred [of "_ - 1", simplified])

declare less_loop.simps [simp del]

section \<open>Numbers\<close>

abbreviation (input) ZEROPAD :: i32 where "ZEROPAD \<equiv> 1"
abbreviation (input) SIGN :: i32 where "SIGN \<equiv> 2"
abbreviation (input) PLUS :: i32 where "PLUS \<equiv> 4"
abbreviation (input) SPACE :: i32 where "SPACE \<equiv> 8"
abbreviation (input) LEFT :: i32 where "LEFT \<equiv> 16"
abbreviation (input) SMALL :: i32 where "SMALL \<equiv> 32"
abbreviation (input) SPECIAL :: i32 where "SPECIAL \<equiv> 64"

partial_function (option) skip_atoi_loop :: "bytes \<Rightarrow> ulong \<Rightarrow> i32 \<Rightarrow> (i32 \<times> ulong) option" where
  "skip_atoi_loop m s i =
     (if isdigit (schar (m s)) then skip_atoi_loop m (s + 1) (i * 10 + of_int (schar (m s)) - 48) else Some (i, s))"

declare skip_atoi_loop.simps [code]

definition skip_atoi :: "bytes \<Rightarrow> ulong \<Rightarrow> (i32 \<times> ulong) option" where
  "skip_atoi m s = skip_atoi_loop m s 0"

text \<open>The digits of a number, the last one first, as they are put into \<open>tmp\<close>; \<open>__do_div\<close> divides unsigned.\<close>

definition digit_char :: "i32 \<Rightarrow> nat \<Rightarrow> char" where
  "digit_char locase d = to_char (of_char (''0123456789ABCDEF'' ! d) OR locase)"

partial_function (option) tmp_loop :: "i32 \<Rightarrow> i32 \<Rightarrow> ulong \<Rightarrow> string \<Rightarrow> string option" where
  "tmp_loop locase base num tmp =
     (if num \<noteq> 0 then tmp_loop locase base (num div ucast base) (tmp @ [digit_char locase (unat (num mod ucast base))])
      else Some tmp)"

declare tmp_loop.simps [code]

primrec copy_back :: "string \<Rightarrow> nat \<Rightarrow> out \<Rightarrow> out" where
  "copy_back tmp 0 st = st"
| "copy_back tmp (Suc i) st = copy_back tmp i (put (tmp ! i) st)"

text \<open>The sign character (0 for none), the number without its sign, and the width that is left.\<close>

definition take_sign :: "ulong \<Rightarrow> i32 \<Rightarrow> i32 \<Rightarrow> char \<times> ulong \<times> i32" where
  "take_sign num sz type =
     (if type AND SIGN \<noteq> 0
      then if num <s 0 then (CHR ''-'', - num, sz - 1)
           else if type AND PLUS \<noteq> 0 then (CHR ''+'', num, sz - 1)
           else if type AND SPACE \<noteq> 0 then (CHR '' '', num, sz - 1)
           else (NUL, num, sz)
      else (NUL, num, sz))"

text \<open>The second half of \<open>number\<close>: the digits are in \<open>tmp\<close>, and the field is written.\<close>

definition number_out :: "out \<Rightarrow> string \<Rightarrow> char \<Rightarrow> i32 \<Rightarrow> i32 \<Rightarrow> i32 \<Rightarrow> i32 \<Rightarrow> out" where
  "number_out st tmp sign base sz precision type =
     (let locase = type AND SMALL;
          c = (if type AND ZEROPAD \<noteq> 0 then CHR ''0'' else CHR '' '');
          i = of_nat (length tmp);
          precision = (if precision <s i then i else precision);
          sz = sz - precision;
          (sz, st) = (if type AND (ZEROPAD + LEFT) = 0 then pad_loop CHR '' '' sz st else (sz, st));
          st = (if sign \<noteq> NUL then put sign st else st);
          st = (if type AND SPECIAL \<noteq> 0
                then if base = 8 then put CHR ''0'' st
                     else if base = 16 then put (to_char (of_char CHR ''X'' OR locase)) (put CHR ''0'' st)
                     else st
                else st);
          (sz, st) = (if type AND LEFT = 0 then pad_loop c sz st else (sz, st));
          (precision, st) = above_loop CHR ''0'' i precision st;
          st = copy_back tmp (length tmp) st;
          (sz, st) = pad_loop CHR '' '' sz st in
      st)"

text \<open>\<open>number\<close> drops \<open>ZEROPAD\<close> when \<open>LEFT\<close> is set; \<open>locase\<close> is taken from a flag that this does not change.\<close>

definition number :: "out \<Rightarrow> ulong \<Rightarrow> i32 \<Rightarrow> i32 \<Rightarrow> i32 \<Rightarrow> i32 \<Rightarrow> out option" where
  "number st num base sz precision type =
     (let locase = type AND SMALL;
          type = (if type AND LEFT \<noteq> 0 then type AND NOT ZEROPAD else type) in
      if base <s 2 \<or> 16 <s base then Some (fst st, 0)
      else case take_sign num sz type of (sign, num, sz) \<Rightarrow>
        let sz = (if type AND SPECIAL \<noteq> 0
                  then if base = 16 then sz - 2 else if base = 8 then sz - 1 else sz else sz) in
        map_option (\<lambda>tmp. number_out st tmp sign base sz precision type)
          (if num = 0 then Some ''0'' else tmp_loop locase base num []))"

section \<open>The format\<close>

text \<open>The flags: \<open>++fmt\<close>, then a flag is noted and the next character looked at.\<close>

definition flag_of :: "char \<Rightarrow> i32 option" where
  "flag_of c = (if c = CHR ''-'' then Some LEFT else if c = CHR ''+'' then Some PLUS
                else if c = CHR '' '' then Some SPACE else if c = CHR ''#'' then Some SPECIAL
                else if c = CHR ''0'' then Some ZEROPAD else None)"

partial_function (option) repeat_flags :: "bytes \<Rightarrow> ulong \<Rightarrow> i32 \<Rightarrow> (ulong \<times> i32) option" where
  "repeat_flags m fmt flags =
     (case flag_of (m (fmt + 1)) of
        Some f \<Rightarrow> repeat_flags m (fmt + 1) (flags OR f)
      | None \<Rightarrow> Some (fmt + 1, flags))"

declare repeat_flags.simps [code]

definition field_width_of :: "bytes \<Rightarrow> ulong \<Rightarrow> i32 \<Rightarrow> va_list \<Rightarrow> (ulong \<times> i32 \<times> i32 \<times> va_list) option" where
  "field_width_of m fmt flags args =
     (if isdigit (schar (m fmt)) then map_option (\<lambda>(w, fmt). (fmt, w, flags, args)) (skip_atoi m fmt)
      else if m fmt = CHR ''*''
      then case va_arg args of (a, args) \<Rightarrow>
           let field_width = ucast a in
           Some (if field_width <s 0 then (fmt + 1, - field_width, flags OR LEFT, args)
                 else (fmt + 1, field_width, flags, args))
      else Some (fmt, - 1, flags, args))"

definition precision_of :: "bytes \<Rightarrow> ulong \<Rightarrow> va_list \<Rightarrow> (ulong \<times> i32 \<times> va_list) option" where
  "precision_of m fmt args =
     (if m fmt = CHR ''.''
      then let fmt = fmt + 1 in
           map_option (\<lambda>(fmt, precision, args). (fmt, if precision <s 0 then 0 else precision, args))
             (if isdigit (schar (m fmt)) then map_option (\<lambda>(p, fmt). (fmt, p, args)) (skip_atoi m fmt)
              else if m fmt = CHR ''*'' then case va_arg args of (a, args) \<Rightarrow> Some (fmt + 1, ucast a, args)
              else Some (fmt, - 1, args))
      else Some (fmt, - 1, args))"

text \<open>The qualifier is a character, or NUL for the \<open>-1\<close> of the code.\<close>

definition qualifier_of :: "bytes \<Rightarrow> ulong \<Rightarrow> ulong \<times> char" where
  "qualifier_of m fmt =
     (if m fmt = CHR ''h'' \<or> m fmt = CHR ''l'' \<or> m fmt = CHR ''L'' then (fmt + 1, m fmt) else (fmt, NUL))"

section \<open>The conversions\<close>

text \<open>\<open>strnlen\<close> of this file takes and returns an \<open>int\<close>; with \<open>-1\<close> it stops after 4G characters.\<close>

definition printk_strnlen :: "bytes \<Rightarrow> ulong \<Rightarrow> i32 \<Rightarrow> i32" where
  "printk_strnlen m s maxlen = ucast (strnlen_loop m s maxlen - s)"

text \<open>The loop \<open>for (i = 0; i < len; ++i) *str++ = *s++;\<close>, which reads the memory it writes.\<close>

primrec copy_str :: "nat \<Rightarrow> ulong \<Rightarrow> out \<Rightarrow> out" where
  "copy_str 0 s st = st"
| "copy_str (Suc n) s st = copy_str n (s + 1) (put (fst st s) st)"

definition conv_c :: "i32 \<Rightarrow> i32 \<Rightarrow> va_list \<Rightarrow> out \<Rightarrow> out \<times> va_list" where
  "conv_c flags field_width args st =
     (let (field_width, st) = (if flags AND LEFT = 0 then less_loop CHR '' '' field_width st else (field_width, st));
          (a, args) = va_arg args;
          st = put (to_char (ucast a)) st in
      (snd (less_loop CHR '' '' field_width st), args))"

definition conv_s :: "i32 \<Rightarrow> i32 \<Rightarrow> i32 \<Rightarrow> va_list \<Rightarrow> out \<Rightarrow> out \<times> va_list" where
  "conv_s flags field_width precision args st =
     (let (s, args) = va_arg args;
          len = printk_strnlen (fst st) s precision;
          (field_width, st) = (if flags AND LEFT = 0 then above_loop CHR '' '' len field_width st else (field_width, st));
          st = copy_str (nat (sint len)) s st in
      (snd (above_loop CHR '' '' len field_width st), args))"

definition conv_p :: "i32 \<Rightarrow> i32 \<Rightarrow> i32 \<Rightarrow> va_list \<Rightarrow> out \<Rightarrow> (out \<times> va_list) option" where
  "conv_p flags field_width precision args st =
     (let (field_width, flags) = (if field_width = - 1 then (16, flags OR ZEROPAD) else (field_width, flags));
          (a, args) = va_arg args in
      map_option (\<lambda>st. (st, args)) (number st a 16 field_width precision flags))"

text \<open>A store of \<open>n\<close> bytes, the low one first.\<close>

primrec store_le :: "nat \<Rightarrow> ulong \<Rightarrow> ulong \<Rightarrow> bytes \<Rightarrow> bytes" where
  "store_le 0 p v m = m"
| "store_le (Suc n) p v m = store_le n (p + 1) (drop_bit 8 v) (m(p := char_of (uint v)))"

definition conv_n :: "char \<Rightarrow> ulong \<Rightarrow> va_list \<Rightarrow> out \<Rightarrow> out \<times> va_list" where
  "conv_n qualifier buf args st =
     (case va_arg args of (ip, args) \<Rightarrow> case st of (m, str) \<Rightarrow>
      ((store_le (if qualifier = CHR ''l'' then 8 else 4) ip (str - buf) m, str), args))"

definition conv_num :: "i32 \<Rightarrow> i32 \<Rightarrow> i32 \<Rightarrow> i32 \<Rightarrow> char \<Rightarrow> va_list \<Rightarrow> out \<Rightarrow> (out \<times> va_list) option" where
  "conv_num base flags field_width precision qualifier args st =
     (let (a, args) = va_arg args;
          num = (if qualifier = CHR ''l'' then a
                 else if qualifier = CHR ''h''
                 then if flags AND SIGN \<noteq> 0 then scast (ucast a :: u16) else ucast (ucast a :: u16)
                 else if flags AND SIGN \<noteq> 0 then scast (ucast a :: u32)
                 else ucast (ucast a :: u32)) in
      map_option (\<lambda>st. (st, args)) (number st num base field_width precision flags))"

text \<open>The second \<open>switch\<close>: base and flags of the integer conversions.\<close>

definition base_of :: "char \<Rightarrow> i32 \<Rightarrow> (i32 \<times> i32) option" where
  "base_of c flags =
     (if c = CHR ''o'' then Some (8, flags)
      else if c = CHR ''x'' then Some (16, flags OR SMALL)
      else if c = CHR ''X'' then Some (16, flags)
      else if c = CHR ''d'' \<or> c = CHR ''i'' then Some (10, flags OR SIGN)
      else if c = CHR ''u'' then Some (10, flags)
      else None)"

definition conv_other :: "ulong \<Rightarrow> out \<Rightarrow> out \<times> ulong" where
  "conv_other fmt st =
     (let st = put CHR ''%'' st in
      if fst st fmt \<noteq> NUL then (put (fst st fmt) st, fmt) else (st, fmt - 1))"

text \<open>One directive: from the percent sign to the character that ends it, with the place of that character.\<close>

definition directive :: "ulong \<Rightarrow> ulong \<Rightarrow> va_list \<Rightarrow> out \<Rightarrow> (out \<times> ulong \<times> va_list) option" where
  "directive buf fmt args st =
     Option.bind (repeat_flags (fst st) fmt 0) (\<lambda>(fmt, flags).
     Option.bind (field_width_of (fst st) fmt flags args) (\<lambda>(fmt, field_width, flags, args).
     Option.bind (precision_of (fst st) fmt args) (\<lambda>(fmt, precision, args).
     case qualifier_of (fst st) fmt of (fmt, qualifier) \<Rightarrow>
     let c = fst st fmt in
     if c = CHR ''c'' then case conv_c flags field_width args st of (st, args) \<Rightarrow> Some (st, fmt, args)
     else if c = CHR ''s'' then case conv_s flags field_width precision args st of (st, args) \<Rightarrow> Some (st, fmt, args)
     else if c = CHR ''p''
     then map_option (\<lambda>(st, args). (st, fmt, args)) (conv_p flags field_width precision args st)
     else if c = CHR ''n'' then case conv_n qualifier buf args st of (st, args) \<Rightarrow> Some (st, fmt, args)
     else if c = CHR ''%'' then Some (put CHR ''%'' st, fmt, args)
     else case base_of c flags of
         Some (base, flags) \<Rightarrow>
           map_option (\<lambda>(st, args). (st, fmt, args)) (conv_num base flags field_width precision qualifier args st)
       | None \<Rightarrow> case conv_other fmt st of (st, fmt) \<Rightarrow> Some (st, fmt, args))))"

partial_function (option) vsprintf_loop :: "ulong \<Rightarrow> ulong \<Rightarrow> va_list \<Rightarrow> out \<Rightarrow> out option" where
  "vsprintf_loop buf fmt args st =
     (if fst st fmt = NUL then Some st
      else if fst st fmt \<noteq> CHR ''%'' then vsprintf_loop buf (fmt + 1) args (put (fst st fmt) st)
      else Option.bind (directive buf fmt args st) (\<lambda>(st, fmt, args). vsprintf_loop buf (fmt + 1) args st))"

declare vsprintf_loop.simps [code]

definition vsprintf :: "ulong \<Rightarrow> ulong \<Rightarrow> va_list \<Rightarrow> bytes \<Rightarrow> (i32 \<times> bytes) option" where
  "vsprintf buf fmt args m =
     map_option (\<lambda>(m, str). (ucast (str - buf), m(str := NUL))) (vsprintf_loop buf fmt args (m, buf))"

definition sprintf :: "ulong \<Rightarrow> ulong \<Rightarrow> va_list \<Rightarrow> bytes \<Rightarrow> (i32 \<times> bytes) option" where
  "sprintf buf fmt args m = vsprintf buf fmt args m"

end
