(* ===== verification/Printk_Number.thy ===== *)
theory Printk_Number
  imports Printk
begin

text \<open>
  What \<open>number\<close> of \<open>kernel/printk.c\<close> writes: the loops append runs of one character, the digits are those of the
  number in its base, and the whole is the padded text of the number.
\<close>

section \<open>Text that is appended\<close>

definition puts :: "string \<Rightarrow> out \<Rightarrow> out" where
  "puts cs st = fold put cs st"

lemma puts_simps [simp]: "puts [] st = st" "puts (c # cs) st = puts cs (put c st)"
  by (simp_all add: puts_def)

lemma puts_append: "puts (xs @ ys) st = puts ys (puts xs st)"
  by (simp add: puts_def)

lemma put_eq [simp]: "put c (m, p) = (m(p := c), p + 1)"
  by (simp add: put_def)

lemma snd_puts [simp]: "snd (puts cs st) = snd st + of_nat (length cs)"
  by (induction cs arbitrary: st) (auto simp: put_def add.assoc split: prod.splits)

text \<open>The addresses of a run of bytes, and that only those are written.\<close>

definition region :: "ulong \<Rightarrow> nat \<Rightarrow> ulong set" where
  "region p n = {p + of_nat i | i. i < n}"

lemma region_0 [simp]: "region p 0 = {}"
  by (simp add: region_def)

lemma region_Suc: "region p (Suc n) = insert p (region (p + 1) n)"
proof (intro set_eqI iffI)
  fix a assume "a \<in> region p (Suc n)"
  then obtain i where i: "a = p + of_nat i" "i < Suc n" by (auto simp: region_def)
  show "a \<in> insert p (region (p + 1) n)"
  proof (cases i)
    case (Suc j)
    then have "a = p + 1 + of_nat j" "j < n" using i by (simp_all add: add.assoc)
    then show ?thesis by (auto simp: region_def)
  qed (use i in simp)
next
  fix a assume "a \<in> insert p (region (p + 1) n)"
  then consider "a = p + of_nat 0" | i where "a = p + of_nat (Suc i)" "i < n"
    by (auto simp: region_def add.assoc)
  then show "a \<in> region p (Suc n)" by (cases) (auto simp: region_def intro: exI [of _ 0] exI [of _ "Suc _"])
qed

lemma region_mono: "n \<le> k \<Longrightarrow> region p n \<subseteq> region p k"
  by (auto simp: region_def)

lemma region_add: "region p (n + k) = region p n \<union> region (p + of_nat n) k"
  by (induction n arbitrary: p) (auto simp: region_Suc add.assoc)

lemma puts_outside: "a \<notin> region (snd st) (length cs) \<Longrightarrow> fst (puts cs st) a = fst st a"
proof (induction cs arbitrary: st)
  case (Cons c cs)
  then show ?case by (cases st) (simp add: region_Suc)
qed simp

lemma holds_cong: "(\<And>a. a \<in> region p (length cs) \<Longrightarrow> m a = m' a) \<Longrightarrow> holds m p cs = holds m' p cs"
  by (induction cs arbitrary: p) (auto simp: region_Suc)

lemma region_distinct: "n < 2 ^ 64 \<Longrightarrow> p \<notin> region (p + 1) n"
proof
  assume n: "n < 2 ^ 64" and "p \<in> region (p + 1) n"
  then obtain i where "p = p + 1 + of_nat i" and i: "i < n" by (auto simp: region_def)
  then have "(of_nat (Suc i) :: ulong) = 0" by (simp add: add.assoc)
  then have "unat (of_nat (Suc i) :: ulong) = 0" by simp
  moreover have "unat (of_nat (Suc i) :: ulong) = Suc i mod 2 ^ 64" by (simp only: unat_of_nat) simp
  moreover have "Suc i < 2 ^ 64 \<or> Suc i = 2 ^ 64" using i n by linarith
  ultimately show False using i n by auto
qed

lemma holds_puts: "length cs < 2 ^ 64 \<Longrightarrow> holds (fst (puts cs (m, p))) p cs"
proof (induction cs arbitrary: m p)
  case (Cons c cs)
  have "fst (puts cs (m(p := c), p + 1)) p = c"
    using puts_outside [of p "(m(p := c), p + 1)" cs] region_distinct [of "length cs" p] Cons.prems by simp
  then show ?case using Cons by simp
qed simp

section \<open>The loops\<close>

lemma sless_sint: "(a :: 'a::len word) <s b \<longleftrightarrow> sint a < sint b"
  by (rule word_sless_alt)

lemma pad_loop_eq: "pad_loop c n st = (if 0 <s n then - 1 else n - 1, puts (replicate (nat (sint n)) c) st)"
proof (induction c n st rule: pad_loop.induct)
  case (1 c n st)
  show ?case
  proof (cases "0 <s n")
    case True
    have s: "sint (n - 1) = sint n - 1" using True i32_above sint_i32_pred by blast
    have r: "nat (sint n) = Suc (nat (sint (n - 1)))" using True s by (simp add: sless_sint)
    have "n - 1 = 0" if "\<not> 0 <s n - 1"
    proof -
      have "sint (n - 1) = 0" using that True s by (simp add: sless_sint)
      then show ?thesis by (metis signed_0 signed_word_eqI)
    qed
    then show ?thesis using 1 [OF True] True r by (subst pad_loop.simps) auto
  next
    case False
    then show ?thesis by (subst pad_loop.simps) (simp add: sless_sint)
  qed
qed

lemma above_loop_eq:
  "above_loop c a n st = (if a <s n then a - 1 else n - 1, puts (replicate (nat (sint n - sint a)) c) st)"
proof (induction c a n st rule: above_loop.induct)
  case (1 c a n st)
  show ?case
  proof (cases "a <s n")
    case True
    have s: "sint (n - 1) = sint n - 1" using True i32_above sint_i32_pred by blast
    have r: "nat (sint n - sint a) = Suc (nat (sint (n - 1) - sint a))" using True s by (simp add: sless_sint)
    have "n - 1 = a" if "\<not> a <s n - 1"
    proof -
      have "sint (n - 1) = sint a" using that True s by (simp add: sless_sint)
      then show ?thesis by (rule signed_word_eqI)
    qed
    then show ?thesis using 1 [OF True] True r by (subst above_loop.simps) auto
  next
    case False
    then show ?thesis by (subst above_loop.simps) (simp add: sless_sint)
  qed
qed

lemma less_loop_eq:
  "less_loop c n st = (if 0 <s n - 1 then 0 else n - 1, puts (replicate (nat (sint (n - 1))) c) st)"
proof (induction c n st rule: less_loop.induct)
  case (1 c n st)
  show ?case
  proof (cases "0 <s n - 1")
    case True
    have s: "sint (n - 1 - 1) = sint (n - 1) - 1" using True i32_above sint_i32_pred by blast
    have r: "nat (sint (n - 1)) = Suc (nat (sint (n - 1 - 1)))" using True s by (simp add: sless_sint)
    have "n - 1 - 1 = 0" if "\<not> 0 <s n - 1 - 1"
    proof -
      have "sint (n - 1 - 1) = 0" using that True s by (simp add: sless_sint)
      then show ?thesis by (metis signed_0 signed_word_eqI)
    qed
    then show ?thesis using 1 [OF refl True] True r by (subst less_loop.simps) (auto simp: Let_def)
  next
    case False
    then show ?thesis by (subst less_loop.simps) (simp add: sless_sint)
  qed
qed

lemma copy_back_eq: "n \<le> length tmp \<Longrightarrow> copy_back tmp n st = puts (rev (take n tmp)) st"
  by (induction n arbitrary: st) (auto simp: take_Suc_conv_app_nth)

section \<open>Digits\<close>

text \<open>The digits of a number in a base, the most significant one first; 0 has one digit.\<close>

fun digits_of :: "nat \<Rightarrow> nat \<Rightarrow> nat list" where
  "digits_of b n = (if n < b \<or> b < 2 then [n] else digits_of b (n div b) @ [n mod b])"

declare digits_of.simps [simp del]

lemma digits_of_value: "foldl (\<lambda>v d. v * b + d) 0 (digits_of b n) = n"
  by (induction b n rule: digits_of.induct) (subst digits_of.simps, simp)

lemma digits_of_less: "1 < b \<Longrightarrow> d \<in> set (digits_of b n) \<Longrightarrow> d < b"
proof (induction b n rule: digits_of.induct)
  case (1 b n)
  from 1(3) have "d \<in> set (if n < b \<or> b < 2 then [n] else digits_of b (n div b) @ [n mod b])"
    by (simp only: digits_of.simps [of b n])
  then show ?case using 1 by (auto split: if_splits)
qed

lemma digits_of_nonempty [simp]: "digits_of b n \<noteq> []"
  by (subst digits_of.simps) simp

lemma digits_of_hd: "1 < b \<Longrightarrow> 0 < n \<Longrightarrow> 0 < hd (digits_of b n)"
proof (induction b n rule: digits_of.induct)
  case (1 b n)
  then show ?case by (subst digits_of.simps) (auto simp: div_greater_zero_iff)
qed

text \<open>The number of digits is bounded, so \<open>tmp\<close> with its 66 places never overflows.\<close>

lemma digits_of_length: "1 < b \<Longrightarrow> n < 2 ^ k \<Longrightarrow> 0 < k \<Longrightarrow> length (digits_of b n) \<le> k"
proof (induction b n arbitrary: k rule: digits_of.induct)
  case (1 b n)
  show ?case
  proof (cases "n < b")
    case False
    then have "2 \<le> n" using 1 by linarith
    then obtain j where k: "k = Suc j" "0 < j" using 1(3,4) by (cases k; cases "k - 1") auto
    have "n div b \<le> n div 2" using 1(2) by (intro div_le_mono2) auto
    also have "\<dots> < 2 ^ j" using 1(3) k by simp
    finally show ?thesis using 1(1) [of j] 1(2) False k by (subst digits_of.simps) simp
  qed (use 1 in \<open>simp add: digits_of.simps\<close>)
qed

lemma tmp_loop_digits:
  assumes b: "1 < unat base"
  shows "num \<noteq> 0 \<Longrightarrow> tmp_loop locase base num tmp =
     Some (tmp @ rev (map (digit_char locase) (digits_of (unat base) (unat num))))"
proof (induction "unat num" arbitrary: num tmp rule: less_induct)
  case less
  let ?b = "ucast base :: ulong"
  have ub: "unat ?b = unat base" 
  proof -
    have "unat base < 2 ^ LENGTH(32)" by (rule unsigned_less)
    then show ?thesis by (simp add: unsigned_ucast_eq take_bit_nat_eq_self)
  qed
  have dv: "unat (num div ?b) = unat num div unat base" "unat (num mod ?b) = unat num mod unat base"
    by (simp_all add: unat_div unat_mod ub)
  have pos: "0 < unat num" using less.prems by (simp add: unat_gt_0)
  have step: "tmp_loop locase base num tmp =
      tmp_loop locase base (num div ?b) (tmp @ [digit_char locase (unat num mod unat base)])"
    using less.prems by (subst tmp_loop.simps) (simp add: dv)
  show ?case
  proof (cases "unat num < unat base")
    case True
    then have "unat (num div ?b) = 0" by (simp only: dv div_less)
    then have z: "num div ?b = 0" by (simp only: unat_eq_0)
    have "tmp_loop locase base 0 x = Some x" for x by (subst tmp_loop.simps) simp
    then show ?thesis using True by (subst step) (simp add: z digits_of.simps)
  next
    case False
    then have "unat (num div ?b) \<noteq> 0" using b by (simp add: dv div_eq_0_iff)
    then have nz: "num div ?b \<noteq> 0" by (metis unat_0)
    have "unat (num div ?b) < unat num" using b pos by (simp add: dv)
    from less.hyps [OF this nz] show ?thesis
      using False b by (simp add: step dv) (subst (2) digits_of.simps, simp)
  qed
qed

section \<open>The text of a number\<close>

lemma flag_bits_i32 [simp]:
  "(x :: i32) AND 1 = 0 \<longleftrightarrow> \<not> bit x 0" "x AND 2 = 0 \<longleftrightarrow> \<not> bit x 1" "x AND 4 = 0 \<longleftrightarrow> \<not> bit x 2"
  "x AND 8 = 0 \<longleftrightarrow> \<not> bit x 3" "x AND 16 = 0 \<longleftrightarrow> \<not> bit x 4" "x AND 64 = 0 \<longleftrightarrow> \<not> bit x 6"
  using and_exp_eq_0_iff_not_bit [of x 0] and_exp_eq_0_iff_not_bit [of x 1] and_exp_eq_0_iff_not_bit [of x 2]
    and_exp_eq_0_iff_not_bit [of x 3] and_exp_eq_0_iff_not_bit [of x 4] and_exp_eq_0_iff_not_bit [of x 6]
  by simp_all

text \<open>A field of a given width: the prefix (sign and base) and the body, filled on the left, between them, or on the right.\<close>

definition field :: "bool \<Rightarrow> bool \<Rightarrow> nat \<Rightarrow> string \<Rightarrow> string \<Rightarrow> string" where
  "field left zero width pre body =
     (let n = width - (length pre + length body) in
      if left then pre @ body @ replicate n CHR '' ''
      else if zero then pre @ replicate n CHR ''0'' @ body
      else replicate n CHR '' '' @ pre @ body)"

definition sign_text :: "i32 \<Rightarrow> bool \<Rightarrow> string" where
  "sign_text type neg = (if neg then ''-'' else if \<not> bit type 1 then [] else if bit type 2 then ''+''
                         else if bit type 3 then '' '' else [])"

definition base_text :: "i32 \<Rightarrow> nat \<Rightarrow> string" where
  "base_text type b = (if \<not> bit type 6 then [] else if b = 8 then ''0''
                       else if b = 16 then [CHR ''0'', if bit type 5 then CHR ''x'' else CHR ''X''] else [])"

text \<open>The digits, in lower case when \<open>SMALL\<close> is set, filled with zeros up to the precision.\<close>

definition digit_text :: "bool \<Rightarrow> nat \<Rightarrow> char" where
  "digit_text small d = (if small then ''0123456789abcdef'' else ''0123456789ABCDEF'') ! d"

definition digits_text :: "bool \<Rightarrow> nat \<Rightarrow> nat \<Rightarrow> nat \<Rightarrow> string" where
  "digits_text small b precision n =
     (let ds = map (digit_text small) (digits_of b n) in replicate (precision - length ds) CHR ''0'' @ ds)"

definition number_text :: "i32 \<Rightarrow> nat \<Rightarrow> nat \<Rightarrow> nat \<Rightarrow> int \<Rightarrow> string" where
  "number_text type b width precision v =
     field (bit type 4) (bit type 0) width (sign_text type (v < 0) @ base_text type b)
       (digits_text (bit type 5) b precision (nat \<bar>v\<bar>))"

lemma and_exp_cases: "(x :: i32) AND 2 ^ k = (if bit x k then 2 ^ k else 0)"
  by (rule bit_word_eqI) (auto simp: bit_simps)

lemmas locase_cases = and_exp_cases [of _ 5, simplified]

lemma digit_char_text:
  assumes "d < 16" shows "digit_char (type AND 32) d = digit_text (bit type 5) d"
proof -
  have "\<forall>d\<in>set [0..<16]. digit_char 32 d = digit_text True d \<and> digit_char 0 d = digit_text False d"
    by code_simp
  then show ?thesis using assms by (simp add: locase_cases)
qed

lemma sint_i32_diff:
  assumes "- (2 ^ 31) \<le> sint (a :: i32) - sint (b :: i32)" "sint a - sint b < 2 ^ 31"
  shows "sint (a - b) = sint a - sint b"
proof -
  have "a - b = of_int (sint a - sint b)" by simp
  then show ?thesis using assms sint_i32_of_int by metis
qed

text \<open>A width that has been used up is negative, and no further padding is written.\<close>

lemma pad_left_over:
  assumes "- (2 ^ 31) < sint (n :: i32)"
  shows "nat (sint (if 0 <s n then - 1 else n - 1)) = 0"
  using sint_i32_pred [OF assms] by (simp add: sless_sint)

lemma number_out_eq:
  fixes sz precision type base :: i32
  assumes tmp: "length tmp \<le> 64" and sz: "- (2 ^ 29) \<le> sint sz" and pr: "sint precision < 2 ^ 30"
    and lz: "\<not> (bit type 0 \<and> bit type 4)"
  defines "n \<equiv> nat (sint sz - max (int (length tmp)) (sint precision))"
  shows "number_out st tmp sign base sz precision type =
     puts ((if bit type 0 \<or> bit type 4 then [] else replicate n CHR '' '') @ (if sign = NUL then [] else [sign]) @
           base_text type (unat base) @
           (if bit type 0 then replicate n CHR ''0'' else []) @
           replicate (nat (sint precision) - length tmp) CHR ''0'' @ rev tmp @
           (if bit type 4 then replicate n CHR '' '' else [])) st"
proof -
  define i :: i32 where "i = of_nat (length tmp)"
  define pr' where "pr' = (if precision <s i then i else precision)"
  define k where "k = sz - pr'"
  have si: "sint i = int (length tmp)"
    using tmp sint_i32_of_int [of "int (length tmp)"] by (simp add: i_def)
  then have sp: "sint pr' = max (int (length tmp)) (sint precision)" by (auto simp: pr'_def sless_sint)
  have "sint sz < 2 ^ 31" by (rule sint_i32_bounds)
  then have sk: "sint k = sint sz - sint pr'" unfolding k_def
    using sp sz pr tmp by (intro sint_i32_diff) auto
  have n: "nat (sint k) = n" by (simp add: n_def sk sp)
  have k2: "- (2 ^ 31) < sint k" using sk sp sz pr tmp by auto
  have k3: "sint (k - 2) \<le> 0" if "\<not> 0 <s k"
  proof -
    have "- (2 ^ 31) \<le> sint k + - 2" using sk sp sz pr tmp by (auto simp: max_def split: if_splits)
    then have "sint (k + of_int (- 2)) = sint k + - 2" using that by (intro sint_i32_eq) (auto simp: sless_sint)
    then show ?thesis using that by (simp add: sless_sint)
  qed
  have z: "nat (sint pr' - sint i) = nat (sint precision) - length tmp" by (auto simp: sp si)
  have f17: "type AND 17 = 0 \<longleftrightarrow> \<not> bit type 0 \<and> \<not> bit type 4"
  proof -
    have "(17 :: i32) = 1 OR 16" by simp
    then have "type AND 17 = (type AND 1) OR (type AND 16)" by (simp only: bit.conj_disj_distrib)
    then show ?thesis by (simp add: or_eq_0_iff)
  qed
  have X: "to_char (88 OR type AND 32) = (if bit type 5 then CHR ''x'' else CHR ''X'')"
  proof -
    have "to_char 120 = CHR ''x'' \<and> to_char 88 = CHR ''X''" by code_simp
    then show ?thesis by (simp add: locase_cases)
  qed
  have b: "base = 8 \<longleftrightarrow> unat base = 8" "base = 16 \<longleftrightarrow> unat base = 16"
    by (simp_all add: word_unat_eq_iff)
  show ?thesis
    using lz pad_left_over [OF k2] k3
    by (simp add: number_out_def Let_def i_def [symmetric] pr'_def [symmetric] k_def [symmetric] f17 X
        pad_loop_eq above_loop_eq copy_back_eq n z base_text_def b puts_append)
qed

text \<open>The value of an argument: signed when \<open>SIGN\<close> is set.\<close>

definition arg_value :: "i32 \<Rightarrow> ulong \<Rightarrow> int" where
  "arg_value type num = (if bit type 1 then sint num else uint num)"

lemma sint_neg_uint: "sint (num :: ulong) < 0 \<Longrightarrow> unat (- num) = nat (- sint num)"
proof -
  assume neg: "sint num < 0"
  have "- (2 ^ 63) \<le> sint num" using sint_greater_eq [of num] by simp
  then have "uint (of_int (- sint num) :: ulong) = - sint num"
    using neg by (simp add: uint_word_of_int del: of_int_minus)
  then have "uint (- num) = - sint num" by simp
  then show ?thesis by (simp only: unat_eq_nat_uint)
qed

lemma sint_pos_uint: "0 \<le> sint (num :: ulong) \<Longrightarrow> uint num = sint num"
proof -
  assume pos: "0 \<le> sint num"
  have "sint num < 2 ^ 63" using sint_less [of num] by simp
  then have "uint (of_int (sint num) :: ulong) = sint num"
    using pos by (simp add: uint_word_of_int del: of_int_sint)
  then show ?thesis by simp
qed

lemma take_sign_eq:
  "take_sign num sz type =
     (let s = sign_text type (arg_value type num < 0) in
      (if s = [] then NUL else hd s, of_nat (nat \<bar>arg_value type num\<bar>), sz - of_nat (length s)))"
proof (cases "bit type 1 \<and> sint num < 0")
  case True
  then have "- num = of_nat (nat (- sint num))" using sint_neg_uint [of num] by (metis of_nat_unat ucast_id)
  then show ?thesis using True by (simp add: take_sign_def sign_text_def arg_value_def sless_sint)
next
  case False
  have "arg_value type num = uint num" using False sint_pos_uint [of num] by (auto simp: arg_value_def)
  then have "num = of_nat (nat \<bar>arg_value type num\<bar>)" "\<not> arg_value type num < 0"
    by simp_all
  then show ?thesis using False
    by (simp add: take_sign_def sign_text_def sless_sint)
qed

lemma sint_i32_unat: "unat (x :: i32) < 2 ^ 31 \<Longrightarrow> sint x = int (unat x)"
proof -
  assume "unat x < 2 ^ 31"
  then have "int (unat x) < int (2 ^ 31)" by (simp only: of_nat_less_iff)
  then have "int (unat x) < 2 ^ 31" by simp
  then have "sint (of_int (int (unat x)) :: i32) = int (unat x)" by (intro sint_i32_of_int) linarith+
  then show ?thesis by simp
qed

lemma arg_value_abs: "\<bar>arg_value type num\<bar> < 2 ^ 64"
proof -
  have "uint num < 2 ^ LENGTH(64)" by (rule unsigned_less)
  then show ?thesis using sint_greater_eq [of num] sint_less [of num] by (auto simp: arg_value_def)
qed

lemma sign_text_length: "length (sign_text type neg) \<le> 1" 
  by (simp add: sign_text_def)

lemma base_text_length: "length (base_text type b) = (if \<not> bit type 6 then 0 else if b = 16 then 2 else if b = 8 then 1 else 0)"
  by (simp add: base_text_def)

lemma digits_length_64: "1 < b \<Longrightarrow> length (digits_of b (nat \<bar>arg_value type num\<bar>)) \<le> 64"
proof -
  have "nat \<bar>arg_value type num\<bar> < 2 ^ 64" using arg_value_abs [of type num] by (simp add: nat_less_iff)
  then show "1 < b \<Longrightarrow> ?thesis" by (intro digits_of_length) auto
qed

lemma number_tmp:
  assumes "unat base \<in> {8, 10, 16}" "n < 2 ^ 64"
  shows "(if (of_nat n :: ulong) = 0 then Some ''0'' else tmp_loop (type AND 32) base (of_nat n) []) =
     Some (rev (map (digit_text (bit type 5)) (digits_of (unat base) n)))"
proof -
  let ?b = "unat base"
  have un: "unat (of_nat n :: ulong) = n" using assms(2) by (simp add: unat_of_nat)
  have b: "1 < ?b" "?b \<le> 16" using assms(1) by auto
  have dg: "map (digit_char (type AND 32)) (digits_of ?b n) = map (digit_text (bit type 5)) (digits_of ?b n)"
    using digits_of_less [OF b(1)] b(2) by (intro map_cong refl digit_char_text) (meson less_le_trans)
  show ?thesis
  proof (cases "n = 0")
    case True
    then show ?thesis using b by (simp add: digits_of.simps digit_text_def)
  next
    case False
    then have "(of_nat n :: ulong) \<noteq> 0" using un by (metis unat_0)
    then show ?thesis using tmp_loop_digits [OF b(1), of "of_nat n" "type AND 32" "[]"] by (simp add: dg un)
  qed
qed

lemma number_run:
  assumes b: "unat base \<in> {8, 10, 16}"
    and sz: "- (2 ^ 28) \<le> sint sz" "sint sz < 2 ^ 30" and pr: "sint precision < 2 ^ 30"
  shows "number st num base sz precision type =
     Some (puts (number_text type (unat base) (nat (sint sz)) (nat (sint precision)) (arg_value type num)) st)"
proof -
  define v where "v = arg_value type num"
  define type' where "type' = (if bit type 4 then type AND NOT 1 else type)"
  have bits: "bit type' 0 \<longleftrightarrow> bit type 0 \<and> \<not> bit type 4" "\<And>k. 0 < k \<Longrightarrow> bit type' k = bit type k"
    by (auto simp: type'_def bit_simps dest: bit_imp_le_length)
  have loc: "type' AND 32 = type AND 32" by (simp add: locase_cases bits)
  define s where "s = sign_text type (v < 0)"
  define x where "x = base_text type (unat base)"
  define ds where "ds = map (digit_text (bit type 5)) (digits_of (unat base) (nat \<bar>v\<bar>))"
  have v': "arg_value type' num = v" by (simp add: v_def arg_value_def bits)
  have s': "sign_text type' (v < 0) = s" and x': "base_text type' (unat base) = x"
    by (simp_all add: s_def x_def sign_text_def base_text_def bits)
  have v64: "nat \<bar>v\<bar> < 2 ^ 64" using arg_value_abs [of type num] by (simp add: v_def nat_less_iff)
  have len: "length ds \<le> 64" using b digits_length_64 [of "unat base" type num] by (auto simp: ds_def v_def)
  have sl: "length s \<le> 1" "length x \<le> 2" unfolding s_def by (rule sign_text_length) (simp add: x_def base_text_length)
  define sz' where "sz' = sz - of_nat (length s) - of_nat (length x)"
  have ss: "sint sz' = sint sz - int (length s) - int (length x)"
  proof -
    have "sint (sz + of_int (- int (length s) - int (length x))) = sint sz + (- int (length s) - int (length x))"
      using sl sz by (intro sint_i32_eq) auto
    then show ?thesis by (simp add: sz'_def algebra_simps)
  qed
  have sb: "sint base = int (unat base)" using b by (intro sint_i32_unat) auto
  then have nb: "\<not> (base <s 2 \<or> 16 <s base)" using b by (auto simp: sless_sint simp del: of_nat_unat)
  have eb: "base = 8 \<longleftrightarrow> unat base = 8" "base = 16 \<longleftrightarrow> unat base = 16" by (simp_all add: word_unat_eq_iff)
  have szx: "(if type' AND 64 \<noteq> 0 then if base = 16 then sz - of_nat (length s) - 2
      else if base = 8 then sz - of_nat (length s) - 1 else sz - of_nat (length s) else sz - of_nat (length s)) = sz'"
    by (simp add: sz'_def x_def base_text_length bits eb)
  have t16: "(if type AND 16 \<noteq> 0 then type AND NOT 1 else type) = type'" by (simp add: type'_def)
  have "number st num base sz precision type =
      Some (number_out st (rev ds) (if s = [] then NUL else hd s) base sz' precision type')"
    unfolding number_def Let_def
    by (simp only: t16 take_sign_eq Let_def v' s' prod.case szx nb if_False number_tmp [OF b v64, of type]
        ds_def [symmetric] option.map)
  also have "number_out st (rev ds) (if s = [] then NUL else hd s) base sz' precision type' =
      puts (number_text type (unat base) (nat (sint sz)) (nat (sint precision)) v) st"
  proof -
    have sg: "(if (if s = [] then NUL else hd s) = NUL then [] else [if s = [] then NUL else hd s]) = s"
      by (auto simp: s_def sign_text_def)
    have n: "nat (sint sz' - max (int (length ds)) (sint precision)) =
        nat (sint sz) - (length (s @ x) + length (replicate (nat (sint precision) - length ds) CHR ''0'' @ ds))"
      unfolding ss by simp
    have "\<not> (bit type' 0 \<and> bit type' 4)" by (simp add: bits)
    moreover have "- (2 ^ 29) \<le> sint sz'" using ss sl sz by simp
    ultimately show ?thesis using len pr
      by (subst number_out_eq)
        (simp_all only: length_rev rev_rev_ident sg x' n bits number_text_def field_def digits_text_def Let_def
          ds_def [symmetric] s_def [symmetric] x_def [symmetric] v_def [symmetric], auto)
  qed
  finally show ?thesis by (simp add: v_def)
qed

end
