(* ===== verification/Printk_Format.thy ===== *)
theory Printk_Format
  imports Printk_Number
begin

text \<open>
  What \<open>vsprintf\<close> of \<open>kernel/printk.c\<close> promises: a format is the written form of a list of items, and the text of the items with
  their arguments is what the call leaves in the buffer. The items, their written form and their text are the specification; the
  code that scans the format and writes the buffer refines it.
\<close>

section \<open>Formats as lists of items\<close>

datatype width = No_width | Width nat | Width_star
datatype prec = No_prec | Dot | Prec nat | Prec_star
datatype item =
    Lit char
  | Percent
  | Other char
  | Conv string width prec "char option" char

definition dec_text :: "nat \<Rightarrow> string" where
  "dec_text n = map (digit_text False) (digits_of 10 n)"

primrec show_width :: "width \<Rightarrow> string" where
  "show_width No_width = []"
| "show_width (Width n) = dec_text n"
| "show_width Width_star = ''*''"

primrec show_prec :: "prec \<Rightarrow> string" where
  "show_prec No_prec = []"
| "show_prec Dot = ''.''"
| "show_prec (Prec n) = CHR ''.'' # dec_text n"
| "show_prec Prec_star = ''.*''"

definition show_qual :: "char option \<Rightarrow> string" where
  "show_qual q = (case q of None \<Rightarrow> [] | Some c \<Rightarrow> [c])"

primrec show_item :: "item \<Rightarrow> string" where
  "show_item (Lit c) = [c]"
| "show_item Percent = ''%%''"
| "show_item (Other c) = [CHR ''%'', c]"
| "show_item (Conv fl w p q c) = CHR ''%'' # fl @ show_width w @ show_prec p @ show_qual q @ [c]"

definition show_format :: "item list \<Rightarrow> string" where
  "show_format its = concat (map show_item its)"

text \<open>Which items can be written: a literal is not a percent sign, a width does not begin with 0, and so on.\<close>

definition flag_chars :: "char set" where "flag_chars = {CHR ''-'', CHR ''+'', CHR '' '', CHR ''#'', CHR ''0''}"
definition qual_chars :: "char set" where "qual_chars = {CHR ''h'', CHR ''l'', CHR ''L''}"
definition conv_chars :: "char set" where
  "conv_chars = {CHR ''c'', CHR ''s'', CHR ''p'', CHR ''o'', CHR ''x'', CHR ''X'', CHR ''d'', CHR ''i'', CHR ''u''}"

primrec ok_item :: "item \<Rightarrow> bool" where
  "ok_item (Lit c) \<longleftrightarrow> c \<noteq> CHR ''%'' \<and> c \<noteq> NUL"
| "ok_item Percent \<longleftrightarrow> True"
| "ok_item (Other c) \<longleftrightarrow> c \<notin> flag_chars \<union> qual_chars \<union> conv_chars \<union> {CHR ''%'', CHR ''n'', CHR ''.'', CHR ''*'', NUL} \<and> \<not> decimal c"
| "ok_item (Conv fl w p q c) \<longleftrightarrow> set fl \<subseteq> flag_chars \<and> (\<forall>n. w = Width n \<longrightarrow> 0 < n \<and> n < 2 ^ 28) \<and>
     (\<forall>n. p = Prec n \<longrightarrow> n < 2 ^ 28) \<and> set_option q \<subseteq> qual_chars \<and> c \<in> conv_chars"

section \<open>The text of an item\<close>

text \<open>Flags in the format, as a word of flags.\<close>

definition flags_of :: "string \<Rightarrow> i32" where
  "flags_of fl = fold (\<lambda>c f. f OR (case flag_of c of None \<Rightarrow> 0 | Some b \<Rightarrow> b)) fl 0"

text \<open>The width, a negative one in the arguments asking for the left side; and the precision, at least 0.\<close>

definition width_value :: "width \<Rightarrow> i32 \<Rightarrow> va_list \<Rightarrow> nat option \<times> i32 \<times> va_list" where
  "width_value w flags args =
     (case w of No_width \<Rightarrow> (None, flags, args) | Width n \<Rightarrow> (Some n, flags, args)
      | Width_star \<Rightarrow> (let v = sint (ucast (args 0) :: i32) in
          (Some (nat \<bar>v\<bar>), if v < 0 then flags OR LEFT else flags, \<lambda>i. args (Suc i))))"

definition prec_value :: "prec \<Rightarrow> va_list \<Rightarrow> nat option \<times> va_list" where
  "prec_value p args =
     (case p of No_prec \<Rightarrow> (None, args) | Dot \<Rightarrow> (Some 0, args) | Prec n \<Rightarrow> (Some n, args)
      | Prec_star \<Rightarrow> (Some (nat (sint (ucast (args 0) :: i32))), \<lambda>i. args (Suc i)))"

text \<open>The number an argument stands for: of 64 bits, 16 bits or 32 bits, signed or not.\<close>

definition int_value :: "char option \<Rightarrow> bool \<Rightarrow> ulong \<Rightarrow> int" where
  "int_value q signd a =
     (if q = Some CHR ''l'' then if signd then sint a else uint a
      else if q = Some CHR ''h'' then if signd then sint (ucast a :: u16) else uint (ucast a :: u16)
      else if signd then sint (ucast a :: u32) else uint (ucast a :: u32))"

text \<open>The text of a conversion; a string argument is read by a given function from addresses to strings.\<close>

definition conv_text :: "(ulong \<Rightarrow> string) \<Rightarrow> char \<Rightarrow> i32 \<Rightarrow> nat option \<Rightarrow> nat option \<Rightarrow> char option \<Rightarrow> ulong \<Rightarrow> string" where
  "conv_text sof c flags width prec q a =
     (let w = (case width of None \<Rightarrow> 0 | Some n \<Rightarrow> n); p = (case prec of None \<Rightarrow> 0 | Some n \<Rightarrow> n) in
      if c = CHR ''c'' then field (bit flags 4) False w [] [char_of (uint a)]
      else if c = CHR ''s''
      then field (bit flags 4) False w [] (case prec of None \<Rightarrow> sof a | Some n \<Rightarrow> take n (sof a))
      else if c = CHR ''p''
      then (case width of None \<Rightarrow> number_text (flags OR ZEROPAD) 16 16 p (uint a)
            | Some n \<Rightarrow> number_text flags 16 n p (uint a))
      else if c = CHR ''o'' then number_text flags 8 w p (int_value q False a)
      else if c = CHR ''x'' then number_text (flags OR SMALL) 16 w p (int_value q False a)
      else if c = CHR ''X'' then number_text flags 16 w p (int_value q False a)
      else if c = CHR ''u'' then number_text flags 10 w p (int_value q False a)
      else number_text (flags OR SIGN) 10 w p (int_value q True a))"

definition render_item :: "(ulong \<Rightarrow> string) \<Rightarrow> item \<Rightarrow> va_list \<Rightarrow> string \<times> va_list" where
  "render_item sof it args =
     (case it of Lit c \<Rightarrow> ([c], args) | Percent \<Rightarrow> (''%'', args) | Other c \<Rightarrow> ([CHR ''%'', c], args)
      | Conv fl w p q c \<Rightarrow>
          (case width_value w (flags_of fl) args of (width, flags, args) \<Rightarrow>
           case prec_value p args of (prec, args) \<Rightarrow>
           (conv_text sof c flags width prec q (args 0), \<lambda>i. args (Suc i))))"

primrec render :: "(ulong \<Rightarrow> string) \<Rightarrow> item list \<Rightarrow> va_list \<Rightarrow> string" where
  "render sof [] args = []"
| "render sof (it # its) args = (case render_item sof it args of (t, args) \<Rightarrow> t @ render sof its args)"

text \<open>
  Arguments that an item can take: widths and precisions are moderate numbers, and a string argument is a
  string in memory that lies away from the output.
\<close>

definition good_args :: "(ulong \<Rightarrow> bool) \<Rightarrow> item \<Rightarrow> va_list \<Rightarrow> bool" where
  "good_args good it args \<longleftrightarrow>
     (case it of Conv fl w p q c \<Rightarrow>
        (w = Width_star \<longrightarrow> \<bar>sint (ucast (args 0) :: i32)\<bar> < 2 ^ 28) \<and>
        (case width_value w (flags_of fl) args of (_, _, args) \<Rightarrow>
          (p = Prec_star \<longrightarrow> sint (ucast (args 0) :: i32) < 2 ^ 28) \<and>
          (case prec_value p args of (_, args) \<Rightarrow> c = CHR ''s'' \<longrightarrow> good (args 0)))
      | _ \<Rightarrow> True)"

primrec good_call :: "(ulong \<Rightarrow> string) \<Rightarrow> (ulong \<Rightarrow> bool) \<Rightarrow> item list \<Rightarrow> va_list \<Rightarrow> bool" where
  "good_call sof good [] args \<longleftrightarrow> True"
| "good_call sof good (it # its) args \<longleftrightarrow>
     ok_item it \<and> good_args good it args \<and> good_call sof good its (snd (render_item sof it args))"

end
