(* ===== verification/Printk_Correct.thy ===== *)
theory Printk_Correct
  imports Printk_Format
begin

text \<open>
  The code of \<open>vsprintf\<close> reads what the items of a format write, and writes their text: one lemma per part of a
  directive, one per conversion, and the loop over the format.
\<close>

section \<open>Reading a directive\<close>

lemma flag_of_simps [simp]:
  "flag_of CHR ''-'' = Some 16" "flag_of CHR ''+'' = Some 4" "flag_of CHR '' '' = Some 8"
  "flag_of CHR ''#'' = Some 64" "flag_of CHR ''0'' = Some 1"
  by (simp_all add: flag_of_def)

lemma flag_of_None: "flag_of c = None \<longleftrightarrow> c \<notin> flag_chars"
  by (auto simp: flag_of_def flag_chars_def)

lemma repeat_flags_run:
  "holds m (p + 1) fl \<Longrightarrow> set fl \<subseteq> flag_chars \<Longrightarrow> m (p + 1 + of_nat (length fl)) \<notin> flag_chars \<Longrightarrow>
     repeat_flags m p f = Some (p + 1 + of_nat (length fl), fold (\<lambda>c f. f OR (case flag_of c of None \<Rightarrow> 0 | Some b \<Rightarrow> b)) fl f)"
proof (induction fl arbitrary: p f)
  case Nil
  then have "flag_of (m (p + 1)) = None" by (simp add: flag_of_None)
  then show ?case by (subst repeat_flags.simps) simp
next
  case (Cons c fl)
  then obtain b where b: "flag_of c = Some b" by (cases "flag_of c") (auto simp: flag_of_None)
  then have "repeat_flags m p f = repeat_flags m (p + 1) (f OR b)"
    using Cons.prems(1) by (subst repeat_flags.simps) simp
  then show ?case using Cons b by (simp add: add.assoc)
qed

lemma digit_text_decimal: "d < 10 \<Longrightarrow> decimal (digit_text s d) \<and> digit_val (digit_text s d) = d"
proof -
  have "\<forall>d\<in>set [0..<10]. \<forall>s\<in>set [True, False]. decimal (digit_text s d) \<and> digit_val (digit_text s d) = d"
    by code_simp
  then show "d < 10 \<Longrightarrow> ?thesis" by (cases s) auto
qed

lemma dec_text_decimal: "c \<in> set (dec_text n) \<Longrightarrow> decimal c"
  using digits_of_less [of 10] digit_text_decimal by (fastforce simp: dec_text_def)

lemma dec_val_dec_text: "dec_val (dec_text n) = n"
proof -
  have "foldl (\<lambda>n d. n * 10 + digit_val d) v (map (digit_text False) ds) = foldl (\<lambda>n d. n * 10 + d) v ds"
    if "\<forall>d\<in>set ds. d < 10" for v ds
    using that by (induction ds arbitrary: v) (auto simp: digit_text_decimal)
  then show ?thesis using digits_of_less [of 10] digits_of_value [of 10 n]
    by (simp add: dec_val_def dec_text_def mult.commute)
qed

lemma dec_text_nonempty [simp]: "dec_text n \<noteq> []"
  by (simp add: dec_text_def)

lemma dec_text_hd: "0 < n \<Longrightarrow> hd (dec_text n) \<notin> flag_chars"
proof -
  assume "0 < n"
  then have "0 < hd (digits_of 10 n)" by (intro digits_of_hd) auto
  moreover have "hd (digits_of 10 n) < 10" by (rule digits_of_less [where n = n]) auto
  moreover have "\<forall>d\<in>set [1..<10]. digit_text False d \<notin> flag_chars" by code_simp
  ultimately show ?thesis by (simp add: dec_text_def hd_map Suc_le_eq)
qed

lemma skip_atoi_loop_digits:
  "\<forall>d \<in> set ds. decimal d \<Longrightarrow> holds m p ds \<Longrightarrow> \<not> decimal (m (p + of_nat (length ds))) \<Longrightarrow>
     skip_atoi_loop m p (of_nat n) = Some (of_nat (foldl (\<lambda>n d. n * 10 + digit_val d) n ds), p + of_nat (length ds))"
proof (induction ds arbitrary: p n)
  case Nil then show ?case by (subst skip_atoi_loop.simps) simp
next
  case (Cons d ds)
  then have d: "m p = d" "decimal d" by auto
  have "(of_int (schar d) :: i32) - 48 = of_nat (digit_val d)"
    using schar_digit [OF d(2)] by (metis of_int_diff of_int_numeral of_int_of_nat_eq)
  then have "skip_atoi_loop m p (of_nat n) = skip_atoi_loop m (p + 1) (of_nat (n * 10 + digit_val d))"
    using d by (subst skip_atoi_loop.simps) (simp add: add_diff_eq [symmetric])
  also have "\<dots> = Some (of_nat (foldl (\<lambda>n d. n * 10 + digit_val d) (n * 10 + digit_val d) ds), p + 1 + of_nat (length ds))"
    using Cons.prems by (intro Cons.IH) (simp_all add: add.assoc)
  finally show ?case by (simp add: add.assoc)
qed

lemma skip_atoi_dec:
  assumes "holds m p (dec_text n)" "\<not> decimal (m (p + of_nat (length (dec_text n))))"
  shows "skip_atoi m p = Some (of_nat n, p + of_nat (length (dec_text n)))"
  using skip_atoi_loop_digits [of "dec_text n" m p 0] assms dec_text_decimal dec_val_dec_text [of n]
  by (simp add: skip_atoi_def dec_val_def)

lemma dec_text_first: "holds m p (dec_text n) \<Longrightarrow> decimal (m p)"
  using dec_text_decimal [of "hd (dec_text n)" n] by (cases "dec_text n") auto

text \<open>A width and a precision as the code holds them: \<open>-1\<close> when there is none.\<close>

definition opt_i32 :: "nat option \<Rightarrow> i32" where
  "opt_i32 w = (case w of None \<Rightarrow> - 1 | Some n \<Rightarrow> of_nat n)"

lemma opt_i32_simps [simp]: "opt_i32 None = - 1" "opt_i32 (Some n) = of_nat n"
  by (simp_all add: opt_i32_def)

lemma i32_abs:
  assumes "\<bar>sint (x :: i32)\<bar> < 2 ^ 28"
  shows "(if x <s 0 then - x else x) = of_nat (nat \<bar>sint x\<bar>)"
proof -
  have "x = of_int (sint x)" by simp
  then show ?thesis by (auto simp: sless_sint)
qed

lemma field_width_run:
  assumes "holds m p (show_width w)" and nx: "\<not> decimal (m (p + of_nat (length (show_width w))))"
    and "w = No_width \<Longrightarrow> m p \<noteq> CHR ''*''"
    and "w = Width_star \<Longrightarrow> \<bar>sint (ucast (args 0) :: i32)\<bar> < 2 ^ 28"
  shows "field_width_of m p flags args =
     (case width_value w flags args of (width, flags, args) \<Rightarrow>
        Some (p + of_nat (length (show_width w)), opt_i32 width, flags, args))"
proof (cases w)
  case No_width
  then show ?thesis using assms by (simp add: field_width_of_def width_value_def)
next
  case (Width n)
  then show ?thesis using assms dec_text_first skip_atoi_dec by (simp add: field_width_of_def width_value_def)
next
  case Width_star
  have "\<not> decimal CHR ''*''" by (simp add: decimal_def)
  then show ?thesis using assms Width_star i32_abs [of "ucast (args 0)"]
    by (auto simp: field_width_of_def width_value_def va_arg_def Let_def sless_sint)
qed

lemma precision_run:
  assumes "holds m p (show_prec pr)" and nx: "\<not> decimal (m (p + of_nat (length (show_prec pr))))"
    "m (p + of_nat (length (show_prec pr))) \<noteq> CHR ''*''"
    and "pr = No_prec \<Longrightarrow> m p \<noteq> CHR ''.''"
    and "\<And>n. pr = Prec n \<Longrightarrow> n < 2 ^ 28"
  shows "precision_of m p args =
     (case prec_value pr args of (prec, args) \<Rightarrow>
        Some (p + of_nat (length (show_prec pr)), opt_i32 prec, args))"
proof (cases pr)
  case No_prec
  then show ?thesis using assms by (simp add: precision_of_def prec_value_def)
next
  case Dot
  then show ?thesis using assms by (simp add: precision_of_def prec_value_def sless_sint)
next
  case (Prec n)
  then have "\<not> (of_nat n :: i32) <s 0" using assms(5) sint_i32_of_int [of "int n"] by (simp add: sless_sint)
  moreover have "decimal (m (p + 1))" "skip_atoi m (p + 1) = Some (of_nat n, p + 1 + of_nat (length (dec_text n)))"
    using assms(1,2) Prec dec_text_first [of m "p + 1" n] skip_atoi_dec [of m "p + 1" n] by (simp_all add: add.assoc)
  ultimately show ?thesis using assms Prec
    by (simp add: precision_of_def prec_value_def add.assoc)
next
  case Prec_star
  have "\<not> decimal CHR ''*''" by (simp add: decimal_def)
  moreover have "(if (x :: i32) <s 0 then 0 else x) = of_nat (nat (sint x))" for x
  proof -
    have "x = of_int (sint x)" by simp
    then show ?thesis by (auto simp: sless_sint)
  qed
  ultimately show ?thesis using assms Prec_star
    by (simp add: precision_of_def prec_value_def va_arg_def add.assoc)
qed

lemma qualifier_run:
  assumes "holds m p (show_qual q)" "set_option q \<subseteq> qual_chars" "q = None \<Longrightarrow> m p \<notin> qual_chars"
  shows "qualifier_of m p = (p + of_nat (length (show_qual q)), case q of None \<Rightarrow> NUL | Some c \<Rightarrow> c)"
  using assms by (auto simp: qualifier_of_def show_qual_def qual_chars_def split: option.splits)

section \<open>The conversions\<close>

text \<open>A moderate width or precision.\<close>

definition moderate :: "nat option \<Rightarrow> bool" where
  "moderate w \<longleftrightarrow> (\<forall>n. w = Some n \<longrightarrow> n < 2 ^ 28)"

definition opt_nat :: "nat option \<Rightarrow> nat" where
  "opt_nat w = (case w of None \<Rightarrow> 0 | Some n \<Rightarrow> n)"

lemma sint_opt_i32: "moderate w \<Longrightarrow> sint (opt_i32 w) = (case w of None \<Rightarrow> - 1 | Some n \<Rightarrow> int n)"
proof -
  have "n < 2 ^ 28 \<Longrightarrow> sint (of_nat n :: i32) = int n" for n using sint_i32_of_int [of "int n"] by simp
  then show "moderate w \<Longrightarrow> ?thesis" by (cases w) (simp_all add: moderate_def)
qed

lemma nat_opt_i32: "moderate w \<Longrightarrow> nat (sint (opt_i32 w)) = opt_nat w"
  by (simp add: sint_opt_i32 opt_nat_def split: option.split)

lemma opt_i32_bounds: "moderate w \<Longrightarrow> - (2 ^ 28) \<le> sint (opt_i32 w)" "moderate w \<Longrightarrow> sint (opt_i32 w) < 2 ^ 30"
  by (auto simp: sint_opt_i32 moderate_def split: option.split)

lemma to_char_ucast: "to_char (ucast (a :: ulong)) = char_of (uint a)"
  by (simp add: to_char_def unsigned_ucast_eq char_of_take_bit_eq)

lemma conv_c_run:
  assumes "moderate width"
  shows "conv_c flags (opt_i32 width) args st =
     (puts (field (bit flags 4) False (opt_nat width) [] [char_of (uint (args 0))]) st, \<lambda>i. args (Suc i))"
proof -
  let ?w = "opt_i32 width"
  have s1: "sint (?w - 1) = sint ?w - 1"
    using opt_i32_bounds(1) [OF assms] by (intro sint_i32_pred) simp
  have n: "nat (sint (?w - 1)) = opt_nat width - 1" unfolding s1 using nat_opt_i32 [OF assms] by simp
  have s2: "sint (?w - 2) = sint ?w - 2"
    using sint_i32_eq [of ?w "- 2"] opt_i32_bounds [OF assms] by simp
  have z: "nat (sint (?w - 2)) = 0" if "\<not> 0 <s ?w - 1" using that by (simp add: s1 s2 sless_sint)
  show ?thesis
    by (simp add: conv_c_def va_arg_def Let_def less_loop_eq n z field_def to_char_ucast puts_append)
qed

lemma copy_str_run:
  assumes "holds m s cs" "region s (length cs) \<inter> region p (length cs) = {}"
  shows "copy_str (length cs) s (m, p) = puts cs (m, p)"
  using assms
proof (induction cs arbitrary: m s p)
  case (Cons c cs)
  have d: "p \<notin> region (s + 1) (length cs)" "region (s + 1) (length cs) \<inter> region (p + 1) (length cs) = {}"
    using Cons.prems(2) by (auto simp: region_Suc)
  then have "holds (m(p := c)) (s + 1) cs"
    using Cons.prems(1) holds_cong [of "s + 1" cs m "m(p := c)"] by (metis fun_upd_other holds.simps(2))
  then have "copy_str (length cs) (s + 1) (m(p := c), p + 1) = puts cs (m(p := c), p + 1)"
    using Cons.IH d(2) by blast
  then show ?case using Cons.prems(1) by simp
qed simp

lemma ucast_i32_of_nat: "(ucast (of_nat n :: ulong) :: i32) = of_nat n"
  by (rule bit_word_eqI) (auto simp: bit_simps)

lemma printk_strnlen_run:
  assumes "cstr m s cs" "length cs < 2 ^ 28" "moderate prec"
  shows "printk_strnlen m s (opt_i32 prec) = of_nat (length (case prec of None \<Rightarrow> cs | Some n \<Rightarrow> take n cs))"
proof -
  have "min (length cs) (unat (opt_i32 prec)) = length (case prec of None \<Rightarrow> cs | Some n \<Rightarrow> take n cs)"
  proof (cases prec)
    case None
    then show ?thesis using assms(2) by (simp add: unsigned_minus_1_eq_mask mask_eq_exp_minus_1)
  next
    case (Some n)
    then have "unat (of_nat n :: i32) = n" using assms(3) by (simp add: moderate_def unat_of_nat)
    then show ?thesis using Some by (simp add: min.commute)
  qed
  then show ?thesis using assms(1) by (simp add: printk_strnlen_def strnlen_loop_cstr ucast_i32_of_nat)
qed

lemma conv_s_run:
  fixes flags :: i32 and m :: bytes
  assumes "moderate width" "moderate prec" and s: "cstr m (args 0) cs" "length cs < 2 ^ 28"
  defines "body \<equiv> (case prec of None \<Rightarrow> cs | Some n \<Rightarrow> take n cs)"
  defines "text \<equiv> field (bit flags 4) False (opt_nat width) [] body"
  assumes away: "region (args 0) (length cs) \<inter> region p (length text) = {}"
  shows "conv_s flags (opt_i32 width) (opt_i32 prec) args (m, p) = (puts text (m, p), \<lambda>i. args (Suc i))"
proof -
  let ?w = "opt_i32 width" and ?len = "of_nat (length body) :: i32"
  define k where "k = opt_nat width - length body"
  define st where "st = (if bit flags 4 then (m, p) else puts (replicate k CHR '' '') (m, p))"
  have lb: "length body \<le> length cs" by (simp add: body_def split: option.split)
  then have sl: "sint ?len = int (length body)" using s(2) sint_i32_of_int [of "int (length body)"] by simp
  have len: "printk_strnlen m (args 0) (opt_i32 prec) = ?len"
    using printk_strnlen_run [OF s assms(2)] by (simp add: body_def)
  have k: "nat (sint ?w - sint ?len) = k"
    using sint_opt_i32 [OF assms(1)] by (auto simp: sl k_def opt_nat_def nat_diff_distrib split: option.split)
  have tl: "length text = length body + k" by (simp add: text_def field_def k_def Let_def)
  have hb: "holds m (args 0) body"
    using s(1) by (auto simp: cstr_def body_def holds_nth split: option.split)
  have st: "snd st = p + of_nat (if bit flags 4 then 0 else k)" by (simp add: st_def)
  have sub: "region (snd st) (length body) \<subseteq> region p (length text)"
    unfolding st tl using region_add [of p k "length body"] region_mono [of "length body" "length body + k" p]
    by (auto simp: add.commute)
  have rb: "region (args 0) (length body) \<subseteq> region (args 0) (length cs)" using lb by (rule region_mono)
  have "holds (fst st) (args 0) body"
  proof (cases "bit flags 4")
    case False
    have "region p k \<subseteq> region p (length text)" unfolding tl by (rule region_mono) simp
    then have "a \<in> region (args 0) (length body) \<Longrightarrow> fst st a = m a" for a
      using away rb False puts_outside [of a "(m, p)" "replicate k CHR '' ''"] by (auto simp: st_def)
    then show ?thesis using hb holds_cong by metis
  qed (simp add: st_def hb)
  then have cp: "copy_str (length body) (args 0) st = puts body st"
    using copy_str_run [of "fst st" "args 0" body "snd st"] away sub rb by fastforce
  have z: "nat (sint (if ?len <s ?w then ?len - 1 else ?w - 1) - sint ?len) = 0"
  proof -
    have "- (2 ^ 31) < sint ?len" "- (2 ^ 31) < sint ?w" using opt_i32_bounds(1) [OF assms(1)] by (simp_all add: sl)
    then show ?thesis by (simp add: sint_i32_pred sless_sint)
  qed
  have "conv_s flags ?w (opt_i32 prec) args (m, p) =
      (if bit flags 4 then puts (replicate k CHR '' '') (puts body st) else puts body st, \<lambda>i. args (Suc i))"
    using cp k [unfolded sl] z [unfolded sl]
    by (cases "bit flags 4") (simp_all add: conv_s_def Let_def va_arg_def len above_loop_eq sl st_def split: if_splits)
  then show ?thesis by (simp add: text_def field_def st_def k_def Let_def puts_append)
qed

text \<open>No character of the format sets \<open>SIGN\<close>.\<close>

lemma flag_sign_bits [simp]:
  "\<not> bit (16 :: i32) 1" "\<not> bit (4 :: i32) 1" "\<not> bit (8 :: i32) 1" "\<not> bit (64 :: i32) 1" "\<not> bit (1 :: i32) 1"
  "\<not> bit (32 :: i32) 1" "bit (2 :: i32) 1"
  by (simp_all add: bit_iff_odd)

lemma flag_of_sign: "flag_of c = Some b \<Longrightarrow> \<not> bit b 1"
  unfolding flag_of_def using flag_sign_bits by (metis option.distinct(1) option.inject)

lemma flags_of_sign: "\<not> bit (flags_of fl) 1"
proof -
  have "\<not> bit f 1 \<Longrightarrow> \<not> bit (fold (\<lambda>c f. f OR (case flag_of c of None \<Rightarrow> 0 | Some b \<Rightarrow> b)) fl f) 1" for f :: i32
  proof (induction fl arbitrary: f)
    case (Cons c fl)
    have "\<not> bit (f OR (case flag_of c of None \<Rightarrow> 0 | Some b \<Rightarrow> b)) 1"
      using Cons.prems flag_of_sign [of c] by (simp only: bit_or_iff) (simp split: option.split)
    then show ?case using Cons.IH by simp
  qed simp
  then show ?thesis by (simp add: flags_of_def)
qed

lemma width_value_sign:
  assumes "width_value w (flags_of fl) args = (width, flags, args')" shows "\<not> bit flags 1"
proof -
  have "\<not> bit (flags_of fl OR 16) 1"
    using flags_of_sign [of fl] flag_sign_bits(1) by (simp only: bit_or_iff not_False_eq_True de_Morgan_disj)
  then show ?thesis using assms flags_of_sign [of fl]
    by (auto simp: width_value_def Let_def split: width.splits if_splits)
qed

lemma conv_p_run:
  assumes "moderate width" "moderate prec" "\<not> bit flags 1"
  shows "conv_p flags (opt_i32 width) (opt_i32 prec) args st =
     Some (puts (case width of None \<Rightarrow> number_text (flags OR 1) 16 16 (opt_nat prec) (uint (args 0))
                 | Some n \<Rightarrow> number_text flags 16 n (opt_nat prec) (uint (args 0))) st, \<lambda>i. args (Suc i))"
proof -
  have pr: "sint (opt_i32 prec) < 2 ^ 30" using assms(2) by (rule opt_i32_bounds)
  show ?thesis
  proof (cases width)
    case None
    have "arg_value (flags OR 1) (args 0) = uint (args 0)"
      using assms(3) by (simp add: arg_value_def bit_or_iff)
    moreover have "number st (args 0) 16 16 (opt_i32 prec) (flags OR 1) =
        Some (puts (number_text (flags OR 1) 16 16 (opt_nat prec) (arg_value (flags OR 1) (args 0))) st)"
      using number_run [of 16 16 "opt_i32 prec" st "args 0" "flags OR 1"] pr nat_opt_i32 [OF assms(2)] by simp
    ultimately show ?thesis using None by (simp add: conv_p_def va_arg_def)
  next
    case (Some n)
    then have n: "n < 2 ^ 28" using assms(1) by (simp add: moderate_def)
    then have sn: "sint (of_nat n :: i32) = int n" using sint_i32_of_int [of "int n"] by simp
    then have ne: "(of_nat n :: i32) \<noteq> - 1" by (metis of_nat_0_le_iff signed_minus_1 neg_0_le_iff_le not_one_le_zero)
    have "number st (args 0) 16 (of_nat n) (opt_i32 prec) flags =
        Some (puts (number_text flags 16 n (opt_nat prec) (arg_value flags (args 0))) st)"
      using number_run [of 16 "of_nat n" "opt_i32 prec" st "args 0" flags] pr nat_opt_i32 [OF assms(2)] sn n by simp
    moreover have "arg_value flags (args 0) = uint (args 0)" using assms(3) by (simp add: arg_value_def)
    ultimately show ?thesis using Some ne by (simp add: conv_p_def va_arg_def)
  qed
qed

lemma cast_values:
  "sint (scast (x :: u16) :: ulong) = sint x" "sint (scast (y :: u32) :: ulong) = sint y"
  "uint (ucast x :: ulong) = uint x" "uint (ucast y :: ulong) = uint y"
proof -
  have "uint x < 2 ^ LENGTH(16)" "uint y < 2 ^ LENGTH(32)" by (rule unsigned_less)+
  then show "uint (ucast x :: ulong) = uint x" "uint (ucast y :: ulong) = uint y"
    by (simp_all add: unsigned_ucast_eq take_bit_int_eq_self)
  show "sint (scast x :: ulong) = sint x" "sint (scast y :: ulong) = sint y"
    using sint_greater_eq [of x] sint_less [of x] sint_greater_eq [of y] sint_less [of y]
    by (simp_all add: signed_scast_eq signed_take_bit_int_eq_self)
qed

lemma conv_num_run:
  assumes "moderate width" "moderate prec" "unat base \<in> {8, 10, 16}" "q = None \<or> q = Some CHR ''h'' \<or> q = Some CHR ''l'' \<or> q = Some CHR ''L''"
  shows "conv_num base flags (opt_i32 width) (opt_i32 prec) (case q of None \<Rightarrow> NUL | Some c \<Rightarrow> c) args st =
     Some (puts (number_text flags (unat base) (opt_nat width) (opt_nat prec) (int_value q (bit flags 1) (args 0))) st,
       \<lambda>i. args (Suc i))"
proof -
  define num where "num = (if q = Some CHR ''l'' then args 0
      else if q = Some CHR ''h'' then if bit flags 1 then scast (ucast (args 0) :: u16) else ucast (ucast (args 0) :: u16)
      else if bit flags 1 then scast (ucast (args 0) :: u32) else ucast (ucast (args 0) :: u32))"
  have v: "arg_value flags num = int_value q (bit flags 1) (args 0)"
    by (simp add: num_def arg_value_def int_value_def cast_values)
  have "conv_num base flags (opt_i32 width) (opt_i32 prec) (case q of None \<Rightarrow> NUL | Some c \<Rightarrow> c) args st =
      map_option (\<lambda>st. (st, \<lambda>i. args (Suc i))) (number st num base (opt_i32 width) (opt_i32 prec) flags)"
    using assms(4) by (auto simp: conv_num_def va_arg_def num_def Let_def)
  then show ?thesis
    using number_run [OF assms(3) opt_i32_bounds [OF assms(1)] opt_i32_bounds(2) [OF assms(2)], of st num flags]
    by (simp add: v nat_opt_i32 assms(1,2))
qed

section \<open>Directives\<close>

lemma holds_hd: "holds m p cs \<Longrightarrow> cs \<noteq> [] \<Longrightarrow> m p = hd cs"
  by (cases cs) auto

lemma end_chars:
  assumes "x \<in> qual_chars \<union> conv_chars"
  shows "x \<notin> flag_chars" "\<not> decimal x" "x \<noteq> CHR ''*''" "x \<noteq> CHR ''.''"
  using assms by (auto simp: qual_chars_def conv_chars_def flag_chars_def decimal_def)

lemma conv_not_qual: "c \<in> conv_chars \<Longrightarrow> c \<notin> qual_chars"
  by (auto simp: conv_chars_def qual_chars_def)

text \<open>The four parts of a directive are read one after the other.\<close>

lemma directive_parts:
  assumes h: "holds m fmt (show_item (Conv fl w p q c))" and ok: "ok_item (Conv fl w p q c)"
    and ga: "good_args good (Conv fl w p q c) args"
    and wv: "width_value w (flags_of fl) args = (width, flags, args1)"
    and pv: "prec_value p args1 = (prec, args2)"
  shows "\<exists>p1 p2 p3 p4. repeat_flags m fmt 0 = Some (p1, flags_of fl) \<and>
     field_width_of m p1 (flags_of fl) args = Some (p2, opt_i32 width, flags, args1) \<and>
     precision_of m p2 args1 = Some (p3, opt_i32 prec, args2) \<and>
     qualifier_of m p3 = (p4, case q of None \<Rightarrow> NUL | Some c \<Rightarrow> c) \<and> m p4 = c \<and>
     p4 = fmt + of_nat (length (show_item (Conv fl w p q c)) - 1)"
proof -
  define p1 where "p1 = fmt + 1 + of_nat (length fl)"
  define p2 where "p2 = p1 + of_nat (length (show_width w))"
  define p3 where "p3 = p2 + of_nat (length (show_prec p))"
  define p4 where "p4 = p3 + of_nat (length (show_qual q))"
  have hs: "holds m (fmt + 1) fl" "holds m p1 (show_width w @ show_prec p @ show_qual q @ [c])"
    "holds m p2 (show_prec p @ show_qual q @ [c])" "holds m p3 (show_qual q @ [c])" "m p4 = c"
    using h by (auto simp: holds_append p1_def p2_def p3_def p4_def)
  have q: "hd (show_qual q @ [c]) \<in> qual_chars \<union> conv_chars"
    using ok by (auto simp: show_qual_def split: option.split)
  then have m3: "m p3 \<in> qual_chars \<union> conv_chars" using holds_hd [OF hs(4)] by simp
  have m2: "m p2 \<in> insert CHR ''.'' (qual_chars \<union> conv_chars)"
    using holds_hd [OF hs(3)] q by (cases p) auto
  have d2: "\<not> decimal (m p2)" "m p2 \<noteq> CHR ''*''" "m p2 \<notin> flag_chars"
    using m2 end_chars [of "m p2"] by (auto simp: decimal_def flag_chars_def)
  have m1: "m p1 \<notin> flag_chars"
  proof (cases w)
    case No_width
    then show ?thesis using d2(3) by (simp add: p2_def)
  next
    case (Width n)
    then have "m p1 = hd (dec_text n)" using holds_hd [OF hs(2)] by simp
    then show ?thesis using ok Width dec_text_hd by simp
  next
    case Width_star
    then show ?thesis using holds_hd [OF hs(2)] by (simp add: flag_chars_def)
  qed
  have "repeat_flags m fmt 0 = Some (p1, flags_of fl)"
    using repeat_flags_run [OF hs(1), of 0] ok m1 by (simp add: p1_def flags_of_def)
  moreover have "field_width_of m p1 (flags_of fl) args = Some (p2, opt_i32 width, flags, args1)"
  proof -
    have "holds m p1 (show_width w)" using hs(2) by (simp add: holds_append)
    moreover have "w = No_width \<Longrightarrow> m p1 \<noteq> CHR ''*''" using d2(2) by (simp add: p2_def)
    moreover have "w = Width_star \<Longrightarrow> \<bar>sint (ucast (args 0) :: i32)\<bar> < 2 ^ 28" using ga by (simp add: good_args_def)
    ultimately show ?thesis
      using field_width_run [of m p1 w args "flags_of fl"] d2(1) wv unfolding p2_def by simp
  qed
  moreover have "precision_of m p2 args1 = Some (p3, opt_i32 prec, args2)"
  proof -
    have "holds m p2 (show_prec p)" using hs(3) by (simp add: holds_append)
    moreover have "p = No_prec \<Longrightarrow> m p2 \<noteq> CHR ''.''" using end_chars(4) [OF m3] by (simp add: p3_def)
    ultimately show ?thesis
      using precision_run [of m p2 p args1] end_chars(2,3) [OF m3] ok pv unfolding p3_def by simp
  qed
  moreover have "qualifier_of m p3 = (p4, case q of None \<Rightarrow> NUL | Some c \<Rightarrow> c)"
    using qualifier_run [of m p3 q] hs(4,5) ok conv_not_qual
    by (auto simp: holds_append p4_def show_qual_def split: option.splits)
  moreover have "p4 = fmt + of_nat (length (show_item (Conv fl w p q c)) - 1)"
    by (simp add: p4_def p3_def p2_def p1_def algebra_simps)
  ultimately show ?thesis using hs(5) by blast
qed

lemma values_moderate:
  assumes "ok_item (Conv fl w p q c)" "good_args good (Conv fl w p q c) args"
    "width_value w (flags_of fl) args = (width, flags, args1)" "prec_value p args1 = (prec, args2)"
  shows "moderate width" "moderate prec" "c = CHR ''s'' \<Longrightarrow> good (args2 0)"
  using assms
  by (auto simp: moderate_def good_args_def width_value_def prec_value_def Let_def split: width.splits prec.splits)

lemma base_of_simps:
  "base_of CHR ''o'' f = Some (8, f)" "base_of CHR ''x'' f = Some (16, f OR 32)" "base_of CHR ''X'' f = Some (16, f)"
  "base_of CHR ''d'' f = Some (10, f OR 2)" "base_of CHR ''i'' f = Some (10, f OR 2)" "base_of CHR ''u'' f = Some (10, f)"
  by (simp_all add: base_of_def)

lemma conv_num_char:
  assumes "moderate width" "moderate prec" "\<not> bit flags 1" "set_option q \<subseteq> qual_chars"
    and c: "c \<in> {CHR ''o'', CHR ''x'', CHR ''X'', CHR ''d'', CHR ''i'', CHR ''u''}"
  shows "\<exists>base flags'. base_of c flags = Some (base, flags') \<and>
     conv_num base flags' (opt_i32 width) (opt_i32 prec) (case q of None \<Rightarrow> NUL | Some c \<Rightarrow> c) args st =
     Some (puts (conv_text sof c flags width prec q (args 0)) st, \<lambda>i. args (Suc i))"
proof -
  have q: "q = None \<or> q = Some CHR ''h'' \<or> q = Some CHR ''l'' \<or> q = Some CHR ''L''"
    using assms(4) by (cases q) (auto simp: qual_chars_def)
  have b: "\<not> bit (flags OR 32) 1" "bit (flags OR 2) 1"
    using assms(3) flag_sign_bits(6,7) by (auto simp only: bit_or_iff)
  note run = conv_num_run [OF assms(1,2) _ q, of _ _ args st]
  from c consider "c = CHR ''o''" | "c = CHR ''x''" | "c = CHR ''X''" | "c = CHR ''u''" | "c = CHR ''d'' \<or> c = CHR ''i''"
    by blast
  then show ?thesis
  proof cases
    case 1 then show ?thesis using run [of 8 flags] assms(3) by (simp add: base_of_simps conv_text_def opt_nat_def)
  next
    case 2 then show ?thesis using run [of 16 "flags OR 32"] b by (simp add: base_of_simps conv_text_def opt_nat_def)
  next
    case 3 then show ?thesis using run [of 16 flags] assms(3) by (simp add: base_of_simps conv_text_def opt_nat_def)
  next
    case 4 then show ?thesis using run [of 10 flags] assms(3) by (simp add: base_of_simps conv_text_def opt_nat_def)
  next
    case 5 then show ?thesis using run [of 10 "flags OR 2"] b by (auto simp: base_of_simps conv_text_def opt_nat_def)
  qed
qed

lemma directive_conv:
  assumes h: "holds m fmt (show_item (Conv fl w p q c))" and ok: "ok_item (Conv fl w p q c)"
    and ga: "good_args (\<lambda>a. cstr m a (sof a) \<and> length (sof a) < 2 ^ 28 \<and> region a (length (sof a)) \<inter> region str N = {})
      (Conv fl w p q c) args"
    and rd: "render_item sof (Conv fl w p q c) args = (text, args')" and N: "length text \<le> N"
  shows "directive buf fmt args (m, str) =
     Some (puts text (m, str), fmt + of_nat (length (show_item (Conv fl w p q c)) - 1), args')"
proof -
  obtain width flags args1 where wv: "width_value w (flags_of fl) args = (width, flags, args1)" by (metis prod_cases3)
  obtain prec args2 where pv: "prec_value p args1 = (prec, args2)" by (metis surj_pair)
  have tx: "text = conv_text sof c flags width prec q (args2 0)" "args' = (\<lambda>i. args2 (Suc i))"
    using rd by (simp_all add: render_item_def wv pv)
  obtain p1 p2 p3 p4 where parts: "repeat_flags m fmt 0 = Some (p1, flags_of fl)"
    "field_width_of m p1 (flags_of fl) args = Some (p2, opt_i32 width, flags, args1)"
    "precision_of m p2 args1 = Some (p3, opt_i32 prec, args2)"
    "qualifier_of m p3 = (p4, case q of None \<Rightarrow> NUL | Some c \<Rightarrow> c)" "m p4 = c"
    "p4 = fmt + of_nat (length (show_item (Conv fl w p q c)) - 1)"
    using directive_parts [OF h ok ga wv pv] by blast
  note mod = values_moderate [OF ok ga wv pv]
  have sg: "\<not> bit flags 1" using wv by (rule width_value_sign)
  have q: "set_option q \<subseteq> qual_chars" and c: "c \<in> conv_chars" using ok by auto
  note dir = directive_def [of buf fmt args "(m, str)"]
  from c consider "c = CHR ''c''" | "c = CHR ''s''" | "c = CHR ''p''"
    | "c \<in> {CHR ''o'', CHR ''x'', CHR ''X'', CHR ''d'', CHR ''i'', CHR ''u''}" by (auto simp: conv_chars_def)
  then have "directive buf fmt args (m, str) = Some (puts text (m, str), p4, args')"
  proof cases
    case 1
    then show ?thesis using mod(1)
      by (simp add: dir parts(1-5) tx conv_text_def conv_c_run opt_nat_def [symmetric])
  next
    case 2
    have "text = field (bit flags 4) False (opt_nat width) [] (case prec of None \<Rightarrow> sof (args2 0) | Some n \<Rightarrow> take n (sof (args2 0)))"
      using 2 by (simp add: tx conv_text_def opt_nat_def)
    moreover have "region (args2 0) (length (sof (args2 0))) \<inter> region str (length text) = {}"
      using mod(3) [OF 2] region_mono [OF N, of str] by blast
    ultimately have "conv_s flags (opt_i32 width) (opt_i32 prec) args2 (m, str) = (puts text (m, str), args')"
      using conv_s_run [OF mod(1,2), where m = m and args = args2 and cs = "sof (args2 0)" and flags = flags and p = str] mod(3) [OF 2] tx(2) by simp
    then show ?thesis using 2 by (simp add: dir parts(1-5))
  next
    case 3
    then show ?thesis using conv_p_run [OF mod(1,2) sg, of args2 "(m, str)"]
      by (simp add: dir parts(1-5) tx conv_text_def opt_nat_def split: option.splits)
  next
    case 4
    obtain base flags' where "base_of c flags = Some (base, flags')"
      "conv_num base flags' (opt_i32 width) (opt_i32 prec) (case q of None \<Rightarrow> NUL | Some c \<Rightarrow> c) args2 (m, str) =
        Some (puts (conv_text sof c flags width prec q (args2 0)) (m, str), \<lambda>i. args2 (Suc i))"
      using conv_num_char [OF mod(1,2) sg q 4] by blast
    moreover have "c \<noteq> CHR ''c''" "c \<noteq> CHR ''s''" "c \<noteq> CHR ''p''" "c \<noteq> CHR ''n''" "c \<noteq> CHR ''%''" using 4 by auto
    ultimately show ?thesis by (simp add: dir parts(1-5) tx)
  qed
  then show ?thesis by (simp only: parts(6))
qed

lemma directive_plain:
  assumes "m (fmt + 1) \<notin> flag_chars \<union> qual_chars \<union> {CHR ''.'', CHR ''*''}" "\<not> decimal (m (fmt + 1))"
  shows "repeat_flags m fmt 0 = Some (fmt + 1, 0)" "field_width_of m (fmt + 1) f args = Some (fmt + 1, - 1, f, args)"
    "precision_of m (fmt + 1) args = Some (fmt + 1, - 1, args)" "qualifier_of m (fmt + 1) = (fmt + 1, NUL)"
  using repeat_flags_run [of m fmt "[]" 0] assms
  by (auto simp: field_width_of_def precision_of_def qualifier_of_def qual_chars_def)

lemma directive_percent:
  assumes "m (fmt + 1) = CHR ''%''"
  shows "directive buf fmt args (m, str) = Some (put CHR ''%'' (m, str), fmt + 1, args)"
proof -
  have "CHR ''%'' \<notin> flag_chars \<union> qual_chars \<union> {CHR ''.'', CHR ''*''}" "\<not> decimal CHR ''%''"
    by (auto simp: flag_chars_def qual_chars_def decimal_def)
  then show ?thesis using directive_plain [of m fmt] assms by (simp add: directive_def)
qed

lemma directive_other:
  assumes "m (fmt + 1) = c" "ok_item (Other c)" "fmt + 1 \<noteq> str"
  shows "directive buf fmt args (m, str) = Some (puts [CHR ''%'', c] (m, str), fmt + 1, args)"
proof -
  have c: "c \<notin> flag_chars \<union> qual_chars \<union> {CHR ''.'', CHR ''*''}" "\<not> decimal c" "c \<noteq> NUL" "c \<noteq> CHR ''%''" "c \<noteq> CHR ''n''"
    "c \<notin> conv_chars" using assms(2) by auto
  then have "base_of c f = None" for f by (auto simp: base_of_def conv_chars_def)
  moreover have "c \<noteq> CHR ''c''" "c \<noteq> CHR ''s''" "c \<noteq> CHR ''p''" using c(6) by (auto simp: conv_chars_def)
  ultimately show ?thesis using directive_plain [of m fmt] assms c
    by (simp add: directive_def conv_other_def Let_def)
qed

section \<open>The loop over the format\<close>

text \<open>Strings a call may print: they are in memory, are not huge, and lie away from the output.\<close>

definition printable :: "bytes \<Rightarrow> (ulong \<Rightarrow> string) \<Rightarrow> ulong set \<Rightarrow> ulong \<Rightarrow> bool" where
  "printable m sof R a \<longleftrightarrow> cstr m a (sof a) \<and> length (sof a) < 2 ^ 28 \<and> region a (Suc (length (sof a))) \<inter> R = {}"

lemma cstr_cong: "(\<And>a. a \<in> region p (Suc (length cs)) \<Longrightarrow> m a = m' a) \<Longrightarrow> cstr m p cs = cstr m' p cs"
proof -
  assume eq: "\<And>a. a \<in> region p (Suc (length cs)) \<Longrightarrow> m a = m' a"
  then have "holds m p cs = holds m' p cs"
    using region_mono [of "length cs" "Suc (length cs)" p] by (intro holds_cong) auto
  moreover have "m (p + of_nat (length cs)) = m' (p + of_nat (length cs))" by (rule eq) (auto simp: region_def)
  ultimately show ?thesis by (simp add: cstr_def)
qed

lemma good_args_mono: "good_args good it args \<Longrightarrow> (\<And>a. good a \<Longrightarrow> good' a) \<Longrightarrow> good_args good' it args"
  by (auto simp: good_args_def split: item.splits prod.splits)

lemma show_item_nonempty: "ok_item it \<Longrightarrow> 0 < length (show_item it)"
  by (cases it) auto

text \<open>One item: the loop passes its written form and appends its text.\<close>

lemma vsprintf_step:
  assumes ok: "ok_item it" and h: "holds m fmt (show_item it)"
    and ga: "good_args (printable m sof (region str N)) it args"
    and rd: "render_item sof it args = (text, args')" and N: "length text \<le> N"
    and away: "region fmt (length (show_item it)) \<inter> region str N = {}"
  shows "vsprintf_loop buf fmt args (m, str) =
     vsprintf_loop buf (fmt + of_nat (length (show_item it))) args' (puts text (m, str))"
proof -
  have nx: "fmt + of_nat (length (show_item it) - 1) + 1 = fmt + of_nat (length (show_item it))"
    using show_item_nonempty [OF ok] by (cases "length (show_item it)") (auto simp: add.assoc add.commute)
  have dir: "vsprintf_loop buf fmt args (m, str) =
      vsprintf_loop buf (fmt + of_nat (length (show_item it))) args' (puts text (m, str))"
    if "m fmt = CHR ''%''"
      "directive buf fmt args (m, str) = Some (puts text (m, str), fmt + of_nat (length (show_item it) - 1), args')"
    using that by (subst vsprintf_loop.simps) (simp add: nx [simplified] add.assoc)
  show ?thesis
  proof (cases it)
    case (Lit c)
    then show ?thesis using ok h rd by (subst vsprintf_loop.simps) (auto simp: render_item_def)
  next
    case Percent
    then show ?thesis using h rd directive_percent [of m fmt buf args str] by (intro dir) (auto simp: render_item_def)
  next
    case (Other c)
    have "0 < N" using N rd Other by (auto simp: render_item_def)
    then have "str \<in> region str N" by (auto simp: region_def intro: exI [of _ 0])
    moreover have "fmt + 1 \<in> region fmt (length (show_item it))"
      using Other by (auto simp: region_def intro: exI [of _ "Suc 0"])
    ultimately have "fmt + 1 \<noteq> str" using away by auto
    then show ?thesis using Other ok h rd directive_other [of m fmt c str buf args]
      by (intro dir) (auto simp: render_item_def)
  next
    case (Conv fl w p q c)
    have "good_args (\<lambda>a. cstr m a (sof a) \<and> length (sof a) < 2 ^ 28 \<and> region a (length (sof a)) \<inter> region str N = {}) it args"
      using ga
    proof (rule good_args_mono)
      fix a assume "printable m sof (region str N) a"
      then show "cstr m a (sof a) \<and> length (sof a) < 2 ^ 28 \<and> region a (length (sof a)) \<inter> region str N = {}"
        using region_mono [of "length (sof a)" "Suc (length (sof a))" a] by (auto simp: printable_def)
    qed
    then show ?thesis using Conv h ok rd N directive_conv [of m fmt fl w p q c sof str N args "text" args' buf]
      by (intro dir) auto
  qed
qed

lemma good_call_mono:
  "good_call sof good its args \<Longrightarrow> (\<And>a. good a \<Longrightarrow> good' a) \<Longrightarrow> good_call sof good' its args"
  by (induction its arbitrary: args) (auto intro: good_args_mono)

lemma printable_puts:
  assumes "printable m sof (region p (length cs + N)) a"
  shows "printable (fst (puts cs (m, p))) sof (region (p + of_nat (length cs)) N) a"
proof -
  have R: "region p (length cs + N) = region p (length cs) \<union> region (p + of_nat (length cs)) N" by (rule region_add)
  then have "x \<in> region a (Suc (length (sof a))) \<Longrightarrow> fst (puts cs (m, p)) x = m x" for x
    using assms puts_outside [of x "(m, p)" cs] by (auto simp: printable_def)
  then have "cstr (fst (puts cs (m, p))) a (sof a)"
    using assms cstr_cong [of a "sof a" "fst (puts cs (m, p))" m] by (auto simp: printable_def)
  then show ?thesis using assms R by (auto simp: printable_def)
qed

lemma vsprintf_loop_run:
  "cstr m fmt (show_format its) \<Longrightarrow> good_call sof (printable m sof (region str N)) its args \<Longrightarrow>
     length (render sof its args) \<le> N \<Longrightarrow> region fmt (Suc (length (show_format its))) \<inter> region str N = {} \<Longrightarrow>
     vsprintf_loop buf fmt args (m, str) = Some (puts (render sof its args) (m, str))"
proof (induction its arbitrary: fmt args m str N)
  case Nil
  then show ?case by (subst vsprintf_loop.simps) (simp add: show_format_def)
next
  case (Cons it its)
  obtain tx args' where rd: "render_item sof it args = (tx, args')" by (metis surj_pair)
  let ?n = "length (show_item it)" and ?k = "length tx"
  let ?fmt = "fmt + of_nat ?n" and ?m = "fst (puts tx (m, str))" and ?str = "str + of_nat ?k"
  have fm: "show_format (it # its) = show_item it @ show_format its" by (simp add: show_format_def)
  have N: "N = ?k + (N - ?k)" using Cons.prems(3) rd by simp
  have R: "region str N = region str ?k \<union> region ?str (N - ?k)" using N region_add by metis
  have F: "region fmt (Suc (length (show_format (it # its)))) = region fmt ?n \<union> region ?fmt (Suc (length (show_format its)))"
    unfolding fm using region_add [of fmt ?n "Suc (length (show_format its))"] by simp
  have ok: "ok_item it" "good_args (printable m sof (region str N)) it args"
    "good_call sof (printable m sof (region str N)) its args'" using Cons.prems(2) rd by auto
  have h: "holds m fmt (show_item it)" "cstr m ?fmt (show_format its)"
    using Cons.prems(1) by (auto simp: fm cstr_def holds_append add.assoc)
  have st: "puts tx (m, str) = (?m, ?str)" by (metis prod.collapse snd_conv snd_puts)
  have "vsprintf_loop buf fmt args (m, str) = vsprintf_loop buf ?fmt args' (puts tx (m, str))"
    using Cons.prems(3,4) F rd by (intro vsprintf_step [OF ok(1) h(1) ok(2) rd]) auto
  also have "\<dots> = vsprintf_loop buf ?fmt args' (?m, ?str)" by (simp only: st [symmetric])
  also have "\<dots> = Some (puts (render sof its args') (?m, ?str))"
  proof (rule Cons.IH)
    have "x \<in> region ?fmt (Suc (length (show_format its))) \<Longrightarrow> ?m x = m x" for x
      using Cons.prems(4) F R puts_outside [of x "(m, str)" tx] by auto
    then show "cstr ?m ?fmt (show_format its)" using h(2) cstr_cong [of ?fmt "show_format its" ?m m] by blast
    show "good_call sof (printable ?m sof (region ?str (N - ?k))) its args'"
      using ok(3) by (rule good_call_mono) (metis N printable_puts)
    show "length (render sof its args') \<le> N - ?k" using Cons.prems(3) rd by simp
    show "region ?fmt (Suc (length (show_format its))) \<inter> region ?str (N - ?k) = {}" using Cons.prems(4) F R by auto
  qed
  also have "puts (render sof its args') (?m, ?str) = puts (render sof (it # its) args) (m, str)"
    by (simp only: render.simps rd prod.case puts_append st [symmetric])
  finally show ?case .
qed

section \<open>What the calls leave in the buffer\<close>

lemma printed_run:
  assumes run: "vsprintf_loop buf fmt args (m, buf) = Some (puts t (m, buf))" and len: "length t < 2 ^ 31"
  shows "\<exists>m'. vsprintf buf fmt args m = Some (of_nat (length t), m') \<and>
     holds m' buf t \<and> m' (buf + of_nat (length t)) = NUL \<and> (\<forall>a. a \<notin> region buf (Suc (length t)) \<longrightarrow> m' a = m a)"
proof -
  let ?e = "buf + of_nat (length t)"
  obtain M where st: "puts t (m, buf) = (M, ?e)" by (metis prod.collapse snd_conv snd_puts)
  have v: "vsprintf buf fmt args m = Some (of_nat (length t), M(?e := NUL))"
    unfolding vsprintf_def run option.map st prod.case by (simp add: ucast_i32_of_nat)
  have two: "puts (t @ [NUL]) (m, buf) = (M(?e := NUL), ?e + 1)" unfolding puts_append st by simp
  have "holds (fst (puts (t @ [NUL]) (m, buf))) buf (t @ [NUL])" using len by (intro holds_puts) simp
  then have "holds (M(?e := NUL)) buf (t @ [NUL])" by (simp only: two fst_conv)
  moreover have "a \<notin> region buf (Suc (length t)) \<Longrightarrow> (M(?e := NUL)) a = m a" for a
    using puts_outside [of a "(m, buf)" "t @ [NUL]"] by (simp only: two fst_conv snd_conv length_append_singleton) simp
  ultimately show ?thesis using v by (auto simp: holds_append)
qed

lemma vsprintf_run:
  assumes "cstr m fmt (show_format its)"
    and "good_call sof (printable m sof (region buf (Suc (length (render sof its args))))) its args"
    and "region fmt (Suc (length (show_format its))) \<inter> region buf (Suc (length (render sof its args))) = {}"
    and "length (render sof its args) < 2 ^ 31"
  shows "\<exists>m'. vsprintf buf fmt args m = Some (of_nat (length (render sof its args)), m') \<and>
     holds m' buf (render sof its args) \<and> m' (buf + of_nat (length (render sof its args))) = NUL \<and>
     (\<forall>a. a \<notin> region buf (Suc (length (render sof its args))) \<longrightarrow> m' a = m a)"
proof -
  have "vsprintf_loop buf fmt args (m, buf) = Some (puts (render sof its args) (m, buf))"
    using assms by (intro vsprintf_loop_run) auto
  then show ?thesis using assms(4) by (rule printed_run)
qed

text \<open>
  C35: \<open>vsprintf\<close> returns for every format of known items and leaves exactly the text of the items in the buffer, with a NUL
  behind it and its length as the result, provided the format and the strings it prints lie outside
  the buffer and widths and precisions are below \<open>2^28\<close>; no other byte of memory changes.\<close>

theorem vsprintf_renders:
  assumes "cstr m fmt (show_format its)"
    and "good_call sof (printable m sof (region buf (Suc (length (render sof its args))))) its args"
    and "region fmt (Suc (length (show_format its))) \<inter> region buf (Suc (length (render sof its args))) = {}"
    and "length (render sof its args) < 2 ^ 31"
  shows "\<exists>m'. vsprintf buf fmt args m = Some (of_nat (length (render sof its args)), m') \<and>
     holds m' buf (render sof its args) \<and> m' (buf + of_nat (length (render sof its args))) = NUL \<and>
     (\<forall>a. a \<notin> region buf (Suc (length (render sof its args))) \<longrightarrow> m' a = m a)"
  using assms by (rule vsprintf_run)

lemma region_apart:
  assumes "unat a + n \<le> unat b" "unat b + k \<le> 2 ^ 64" shows "region a n \<inter> region b k = {}"
proof -
  have u: "unat (x + of_nat i) = unat x + i" if "unat x + i < 2 ^ 64" for x :: ulong and i
    using that by (simp add: unat_word_ariths unat_of_nat)
  have "a + of_nat i \<noteq> b + of_nat j" if "i < n" "j < k" for i j
  proof -
    have "unat (a + of_nat i) = unat a + i" "unat (b + of_nat j) = unat b + j"
      by (rule u; use that assms in linarith)+
    then have "unat (a + of_nat i) \<noteq> unat (b + of_nat j)" using that assms by linarith
    then show ?thesis by auto
  qed
  then show ?thesis by (auto simp: region_def)
qed

definition sample_items :: "item list" where
  "sample_items = [Lit CHR ''x'', Lit CHR ''='', Conv ''0'' (Width 4) No_prec None CHR ''x'', Lit CHR '' '',
     Conv ''-'' Width_star No_prec None CHR ''s'']"

definition sample_mem :: bytes where
  "sample_mem a = (if a = 0x100 then CHR ''o'' else if a = 0x101 then CHR ''k'' else mem_of ''x=%04x %-*s'' a)"

definition sample_args :: va_list where
  "sample_args i = [255, 5, 0x100, 0] ! i"

lemma sample_text: "render (\<lambda>a. ''ok'') sample_items sample_args = ''x=00ff ok   ''"
  by code_simp

lemma sample_format: "show_format sample_items = ''x=%04x %-*s''"
  by code_simp

lemma sample_good_call: "good 0x100 \<Longrightarrow> good_call (\<lambda>a. ''ok'') good sample_items sample_args"
  by (simp add: sample_items_def sample_args_def good_args_def render_item_def width_value_def prec_value_def Let_def
      flag_chars_def conv_chars_def)

lemma sample_good:
  "good_call (\<lambda>a. ''ok'') (printable sample_mem (\<lambda>a. ''ok'') (region 0x1000 (Suc (length ''x=00ff ok   '')))) sample_items sample_args"
proof (rule sample_good_call)
  have "region 0x100 (Suc (length ''ok'')) \<inter> region 0x1000 (Suc (length ''x=00ff ok   '')) = {}" by (rule region_apart) simp_all
  then show "printable sample_mem (\<lambda>a. ''ok'') (region 0x1000 (Suc (length ''x=00ff ok   ''))) 0x100"
    unfolding printable_def by (simp add: sample_mem_def mem_of_def)
qed

lemma vsprintf_renders_witness:
  "\<exists>m'. vsprintf 0x1000 0 sample_args sample_mem = Some (of_nat (length ''x=00ff ok   ''), m') \<and>
     holds m' 0x1000 ''x=00ff ok   '' \<and> m' (0x1000 + of_nat (length ''x=00ff ok   '')) = NUL \<and>
     (\<forall>a. a \<notin> region 0x1000 (Suc (length ''x=00ff ok   '')) \<longrightarrow> m' a = sample_mem a)"
proof (rule vsprintf_renders [of sample_mem 0 sample_items "\<lambda>a. ''ok''" "0x1000" sample_args,
      unfolded sample_text sample_format, OF _ sample_good])
  show "cstr sample_mem 0 ''x=%04x %-*s''" by (simp add: sample_mem_def mem_of_def)
  show "region 0 (Suc (length ''x=%04x %-*s'')) \<inter> region 0x1000 (Suc (length ''x=00ff ok   '')) = {}"
    by (rule region_apart) simp_all
qed simp

text \<open>
  C37: a number printed with \<open>%u\<close> is read back by \<open>atou\<close>, whatever 32 bits it has: \<open>sprintf\<close> returns and \<open>atou\<close>
  of the buffer is the argument.\<close>

theorem sprintf_atou_round_trip:
  assumes "cstr m fmt ''%u''" "region fmt 3 \<inter> region buf 33 = {}"
  shows "\<exists>n m'. sprintf buf fmt args m = Some (n, m') \<and> atou m' buf = Some (ucast (args 0))"
proof -
  let ?its = "[Conv [] No_width No_prec None CHR ''u'']" and ?v = "unat (ucast (args 0) :: u32)"
  have t: "render (\<lambda>_. []) ?its args = dec_text ?v"
    by (simp add: render_item_def width_value_def prec_value_def conv_text_def number_text_def flags_of_def field_def
        sign_text_def base_text_def digits_text_def int_value_def dec_text_def Let_def)
  have "?v < 2 ^ LENGTH(32)" by (rule unsigned_less)
  then have len: "length (dec_text ?v) \<le> 32" by (simp add: dec_text_def digits_of_length)
  have fm: "show_format ?its = ''%u''" by (simp add: show_format_def show_qual_def)
  have "region buf (Suc (length (dec_text ?v))) \<subseteq> region buf 33" using len by (intro region_mono) simp
  moreover have "Suc (length ''%u'') = 3" by simp
  ultimately have away: "region fmt (Suc (length ''%u'')) \<inter> region buf (Suc (length (dec_text ?v))) = {}"
    using assms(2) by (simp only:) blast
  have good: "good_call (\<lambda>_. []) (printable m (\<lambda>_. []) (region buf (Suc (length (dec_text ?v))))) ?its args"
    by (simp add: good_args_def conv_chars_def width_value_def prec_value_def)
  obtain m' where m': "vsprintf buf fmt args m = Some (of_nat (length (dec_text ?v)), m')"
    "holds m' buf (dec_text ?v)" "m' (buf + of_nat (length (dec_text ?v))) = NUL"
    using vsprintf_run [of m fmt ?its "\<lambda>_. []" buf args, unfolded t fm, OF assms(1) good away] len by auto
  have "atou m' buf = Some (of_nat (dec_val (dec_text ?v)))"
    using m'(2,3) dec_text_decimal by (intro atou_digits) auto
  then show ?thesis using m'(1) by (simp add: sprintf_def dec_val_dec_text)
qed

lemma sprintf_atou_round_trip_witness:
  "\<exists>n m'. sprintf 0x1000 0 (\<lambda>i. 4294967295) (mem_of ''%u'') = Some (n, m') \<and> atou m' 0x1000 = Some 4294967295"
  using sprintf_atou_round_trip [of "mem_of ''%u''" 0 "0x1000" "\<lambda>i. 4294967295"] region_apart [of 0 3 "0x1000" 33]
  by (simp add: mem_of_def)

end
