(* ===== verification/Console.thy ===== *)
theory Console
  imports C_String
begin

text \<open>
  The console: text on the VGA screen (\<open>arch/x86_64/vgaoutput.c\<close>) and on the serial line (\<open>arch/x86_64/uart.c\<close>). The ports are
  the device's: reading one gives what the device answers, and what is written to them is recorded in order.
\<close>

section \<open>State\<close>

record console =
  answer :: "nat \<Rightarrow> u16 \<Rightarrow> u8"
  nreads :: nat
  outs :: "(u16 \<times> u8) list"
  uart :: bool
  cells :: "nat \<Rightarrow> u16"
  current_ypos :: nat
  current_xpos :: nat
  spin_vga :: spinlock_t
  irqs_on :: bool

definition inb :: "u16 \<Rightarrow> console \<Rightarrow> u8 \<times> console" where
  "inb port s = (answer s (nreads s) port, s\<lparr>nreads := nreads s + 1\<rparr>)"

definition outb :: "u8 \<Rightarrow> u16 \<Rightarrow> console \<Rightarrow> console" where
  "outb v port s = s\<lparr>outs := outs s @ [(port, v)]\<rparr>"

section \<open>The serial line\<close>

abbreviation (input) COM1 :: u16 where "COM1 \<equiv> 0x3f8"

text \<open>The wait for an empty transmitter, at most 128 reads.\<close>

primrec uart_wait :: "nat \<Rightarrow> console \<Rightarrow> console" where
  "uart_wait 0 s = s"
| "uart_wait (Suc n) s = (case inb (COM1 + 5) s of (v, s) \<Rightarrow> if v AND 0x20 \<noteq> 0 then s else uart_wait n s)"

definition uart_putc :: "char \<Rightarrow> console \<Rightarrow> console" where
  "uart_putc c s = (if \<not> uart s then s else outb (of_char c) (COM1 + 0) (uart_wait 128 s))"

definition uart_early_init :: "console \<Rightarrow> console" where
  "uart_early_init s =
     (let s = outb 0 (COM1 + 2) s;
          s = outb 0x80 (COM1 + 3) s;
          s = outb (115200 div 9600) (COM1 + 0) s;
          s = outb 0 (COM1 + 1) s;
          s = outb 0x03 (COM1 + 3) s;
          s = outb 0 (COM1 + 4) s;
          s = outb 0x01 (COM1 + 1) s;
          (v, s) = inb (COM1 + 5) s in
      if v = 0xFF then s
      else fold uart_putc (''yaos...'' @ [CHR 0x0a]) (s\<lparr>uart := True\<rparr>))"

definition uart_init :: "console \<Rightarrow> console" where
  "uart_init s = (if \<not> uart s then s else snd (inb (COM1 + 0) (snd (inb (COM1 + 2) s))))"

text \<open>The character that was received, or \<open>-1\<close>.\<close>

definition uart_getc :: "console \<Rightarrow> int \<times> console" where
  "uart_getc s =
     (if \<not> uart s then (- 1, s)
      else case inb (COM1 + 5) s of (v, s) \<Rightarrow>
        if v AND 0x01 = 0 then (- 1, s)
        else case inb (COM1 + 0) s of (v, s) \<Rightarrow> (uint v, s))"

section \<open>The screen\<close>

text \<open>
  The text memory at \<open>VGABASE\<close> is an array of cells of 16 bits, a row has 80 of them and the screen shows 25 rows.
\<close>

abbreviation (input) max_ypos :: nat where "max_ypos \<equiv> 25"
abbreviation (input) max_xpos :: nat where "max_xpos \<equiv> 80"

definition writew :: "u16 \<Rightarrow> nat \<Rightarrow> console \<Rightarrow> console" where
  "writew c i s = s\<lparr>cells := (cells s)(i := c)\<rparr>"

definition readw :: "nat \<Rightarrow> console \<Rightarrow> u16" where
  "readw i s = cells s i"

definition scroll_row :: "nat \<Rightarrow> console \<Rightarrow> console" where
  "scroll_row k s = fold (\<lambda>i s. writew (readw (max_xpos * k + i) s) (max_xpos * (k - 1) + i) s) [0..<max_xpos] s"

definition scroll :: "console \<Rightarrow> console" where
  "scroll s =
     (let s = fold scroll_row [1..<max_ypos] s;
          s = fold (\<lambda>i. writew 0x720 (max_xpos * (max_ypos - 1) + i)) [0..<max_xpos] s in
      s\<lparr>current_ypos := max_ypos - 1\<rparr>)"

text \<open>The cell of a character: its attribute in the high byte; the \<open>char\<close> is signed and is widened first.\<close>

definition cell_of :: "u8 \<Rightarrow> char \<Rightarrow> u16" where
  "cell_of attribute_byte c = push_bit 8 (ucast attribute_byte) OR of_int (schar c)"

definition vga_char :: "u8 \<Rightarrow> char \<Rightarrow> console \<Rightarrow> console" where
  "vga_char attribute_byte c s =
     (let s = (if current_ypos s > max_ypos then scroll s else s) in
      if c = CHR 0x0a then s\<lparr>current_xpos := 0, current_ypos := current_ypos s + 1\<rparr>
      else if c \<noteq> CHR 0x0d
      then let s = writew (cell_of attribute_byte c) (max_xpos * current_ypos s + current_xpos s) s;
               s = s\<lparr>current_xpos := current_xpos s + 1\<rparr> in
           if current_xpos s \<ge> max_xpos then s\<lparr>current_xpos := 0, current_ypos := current_ypos s + 1\<rparr> else s
      else s)"

partial_function (option) vga_loop :: "bytes \<Rightarrow> u8 \<Rightarrow> ulong \<Rightarrow> ulong \<Rightarrow> ulong \<Rightarrow> console \<Rightarrow> console option" where
  "vga_loop m attribute_byte sz cnt str s =
     (let c = m str in
      if c \<noteq> NUL
      then let s = vga_char attribute_byte c (uart_putc c s) in
           if sz \<noteq> 0 \<and> cnt + 1 \<ge> sz then Some s
           else vga_loop m attribute_byte sz (if sz \<noteq> 0 then cnt + 1 else cnt) (str + 1) s
      else Some s)"

declare vga_loop.simps [code]

definition local_irq_save :: "console \<Rightarrow> bool \<times> console" where
  "local_irq_save s = (irqs_on s, s\<lparr>irqs_on := False\<rparr>)"

definition local_irq_restore :: "bool \<Rightarrow> console \<Rightarrow> console" where
  "local_irq_restore flag s = s\<lparr>irqs_on := flag\<rparr>"

definition vga_puts_color :: "bytes \<Rightarrow> u8 \<Rightarrow> u8 \<Rightarrow> ulong \<Rightarrow> ulong \<Rightarrow> console \<Rightarrow> console outcome" where
  "vga_puts_color m back_color fore_color str sz s =
     (let attribute_byte = push_bit 4 back_color OR (fore_color AND 0x0F);
          (flag, s) = local_irq_save s in
      andThen (spin_lock (spin_vga s)) (\<lambda>l.
      andThen (ending (vga_loop m attribute_byte sz 0 str (s\<lparr>spin_vga := l\<rparr>))) (\<lambda>s.
      Inr (local_irq_restore flag (s\<lparr>spin_vga := spin_unlock (spin_vga s)\<rparr>)))))"

definition vga_puts :: "bytes \<Rightarrow> ulong \<Rightarrow> console \<Rightarrow> console outcome" where
  "vga_puts m str s = vga_puts_color m 0 7 str 0 s"

definition vga_write :: "bytes \<Rightarrow> ulong \<Rightarrow> ulong \<Rightarrow> console \<Rightarrow> (ulong \<times> console) outcome" where
  "vga_write m str sz s =
     (if sz = 0 then Inr (0, s) else andThen (vga_puts_color m 0 7 str sz s) (\<lambda>s. Inr (sz, s)))"

section \<open>Text as a sequence of characters\<close>

definition console_char :: "u8 \<Rightarrow> char \<Rightarrow> console \<Rightarrow> console" where
  "console_char a c s = vga_char a c (uart_putc c s)"

lemma vga_loop_all:
  "cstr m p cs \<Longrightarrow> vga_loop m a 0 cnt p s = Some (fold (console_char a) cs s)"
proof (induction cs arbitrary: p s)
  case Nil
  then show ?case by (subst vga_loop.simps) simp
next
  case (Cons c cs)
  then have "vga_loop m a 0 cnt p s = vga_loop m a 0 cnt (p + 1) (console_char a c s)"
    by (subst vga_loop.simps) (simp add: console_char_def)
  then show ?case using Cons by simp
qed

text \<open>With a limit at most that many characters are written.\<close>

lemma vga_loop_limit:
  "cstr m p cs \<Longrightarrow> unat cnt < unat sz \<Longrightarrow>
     vga_loop m a sz cnt p s = Some (fold (console_char a) (take (unat sz - unat cnt) cs) s)"
proof (induction cs arbitrary: p s cnt)
  case Nil
  then show ?case by (subst vga_loop.simps) simp
next
  case (Cons c cs)
  have sz: "sz \<noteq> 0" using Cons.prems(2) by auto
  have "unat cnt + 1 < 2 ^ 64" using Cons.prems(2) ulong_lt_2p64 [of sz] by linarith
  then have u: "unat (cnt + 1) = unat cnt + 1" using unat_add_no_wrap [of cnt 1] by simp
  obtain k where k: "unat sz - unat cnt = Suc k" using Cons.prems(2) by (metis Suc_diff_Suc)
  show ?case
  proof (cases "sz \<le> cnt + 1")
    case True
    then have "k = 0" using k u by (simp add: word_le_nat_alt)
    then show ?thesis using Cons.prems(1) True sz k by (subst vga_loop.simps) (simp add: console_char_def)
  next
    case False
    then have "unat (cnt + 1) < unat sz" by (simp add: word_le_nat_alt)
    then have "vga_loop m a sz (cnt + 1) (p + 1) (console_char a c s) =
        Some (fold (console_char a) (take (unat sz - unat (cnt + 1)) cs) (console_char a c s))"
      using Cons.prems(1) by (intro Cons.IH) simp_all
    moreover have "unat sz - unat (cnt + 1) = k" using k u by simp
    ultimately show ?thesis using Cons.prems(1) False sz k
      by (subst vga_loop.simps) (simp add: console_char_def)
  qed
qed

section \<open>What the devices see\<close>

lemma writew_sel [simp]:
  "answer (writew v i s) = answer s" "nreads (writew v i s) = nreads s" "outs (writew v i s) = outs s"
  "uart (writew v i s) = uart s" "cells (writew v i s) = (cells s)(i := v)" "current_ypos (writew v i s) = current_ypos s"
  "current_xpos (writew v i s) = current_xpos s" "spin_vga (writew v i s) = spin_vga s" "irqs_on (writew v i s) = irqs_on s"
  by (simp_all add: writew_def)

text \<open>A fold of cell writes changes cells only.\<close>

definition same_but_cells :: "console \<Rightarrow> console \<Rightarrow> bool" where
  "same_but_cells s s' \<longleftrightarrow> s' = s\<lparr>cells := cells s'\<rparr>"

lemma same_but_cells_trans: "same_but_cells s s' \<Longrightarrow> same_but_cells s' s'' \<Longrightarrow> same_but_cells s s''"
  by (cases s; cases s'; cases s'') (simp add: same_but_cells_def)

lemma same_but_cells_fold: "(\<And>x s. same_but_cells s (f x s)) \<Longrightarrow> same_but_cells s (fold f xs s)"
proof (induction xs arbitrary: s)
  case Nil
  show ?case by (simp add: same_but_cells_def)
next
  case (Cons x xs)
  then show ?case using same_but_cells_trans [of s "f x s"] by simp
qed

lemma same_but_cells_sel:
  assumes "same_but_cells s s'"
  shows "answer s' = answer s" "nreads s' = nreads s" "outs s' = outs s" "uart s' = uart s"
    "current_ypos s' = current_ypos s" "current_xpos s' = current_xpos s" "spin_vga s' = spin_vga s" "irqs_on s' = irqs_on s"
  using assms by (cases s; cases s'; simp add: same_but_cells_def)+

lemma same_writew: "same_but_cells s (writew v i s)"
  by (simp add: same_but_cells_def writew_def)

lemma same_scroll_row: "same_but_cells s (scroll_row k s)"
  unfolding scroll_row_def by (rule same_but_cells_fold) (rule same_writew)

text \<open>Scrolling: every row takes what was below it, the last one is blank, and the rows behind the screen stay.\<close>

lemma fold_writew_cells:
  assumes "\<And>i s. i < n \<Longrightarrow> (\<forall>c. c \<notin> {b..<b + n} \<longrightarrow> cells s c = C c) \<Longrightarrow> v i s = V i" "\<forall>c. c \<notin> {b..<b + n} \<longrightarrow> cells s0 c = C c"
  shows "k \<le> n \<Longrightarrow> cells (fold (\<lambda>i s. writew (v i s) (b + i) s) [0..<k] s0) =
     (\<lambda>c. if b \<le> c \<and> c < b + k then V (c - b) else cells s0 c)"
proof (induction k)
  case (Suc k)
  let ?s = "fold (\<lambda>i s. writew (v i s) (b + i) s) [0..<k] s0"
  have "\<forall>c. c \<notin> {b..<b + n} \<longrightarrow> cells ?s c = C c" using Suc assms(2) by auto
  then have "v k ?s = V k" using Suc.prems by (intro assms(1)) auto
  then show ?case using Suc by (auto simp: fun_eq_iff)
qed (auto simp: fun_eq_iff)

lemma scroll_row_cells:
  assumes "0 < k"
  shows "cells (scroll_row k s) = (\<lambda>c. if 80 * (k - 1) \<le> c \<and> c < 80 * k then cells s (c + 80) else cells s c)"
proof -
  let ?b = "80 * (k - 1)"
  have b: "80 * k = ?b + 80" using assms by (cases k) auto
  have "cells (scroll_row k s) = (\<lambda>c. if ?b \<le> c \<and> c < ?b + 80 then (\<lambda>i. cells s (80 * k + i)) (c - ?b) else cells s c)"
    unfolding scroll_row_def
    by (rule fold_writew_cells [where n = 80 and C = "cells s"]) (auto simp: readw_def b)
  then show ?thesis by (simp only: b) (auto simp: fun_eq_iff add.commute)
qed

lemma scroll_cells:
  "cells (scroll s) = (\<lambda>c. if c < 1920 then cells s (c + 80) else if c < 2000 then 0x720 else cells s c)"
proof -
  have rows: "cells (fold scroll_row [1..<Suc k] s) = (\<lambda>c. if c < 80 * k then cells s (c + 80) else cells s c)" for k
  proof (induction k)
    case (Suc k)
    have "cells (fold scroll_row [1..<Suc (Suc k)] s) = cells (scroll_row (Suc k) (fold scroll_row [1..<Suc k] s))" by simp
    then show ?case by (simp only: scroll_row_cells zero_less_Suc Suc) (auto simp: fun_eq_iff)
  qed simp
  have "cells (fold (\<lambda>i. writew 0x720 (1920 + i)) [0..<80] s') =
      (\<lambda>c. if 1920 \<le> c \<and> c < 1920 + 80 then 0x720 else cells s' c)" for s'
    using fold_writew_cells [where n = 80 and b = 1920 and v = "\<lambda>i s. 0x720" and V = "\<lambda>i. 0x720" and C = "cells s'" and k = 80 and ?s0.0 = s']
    by simp
  then show ?thesis using rows [of 24] by (auto simp: scroll_def Let_def fun_eq_iff)
qed

lemma scroll_sel [simp]:
  "outs (scroll s) = outs s" "uart (scroll s) = uart s" "current_ypos (scroll s) = 24" "current_xpos (scroll s) = current_xpos s"
  "spin_vga (scroll s) = spin_vga s" "irqs_on (scroll s) = irqs_on s"
proof -
  define s1 where "s1 = fold scroll_row [1..<25] s"
  define s2 where "s2 = fold (\<lambda>i. writew 0x720 (80 * (25 - 1) + i)) [0..<80] s1"
  have "same_but_cells s s1" unfolding s1_def by (rule same_but_cells_fold) (rule same_scroll_row)
  moreover have "same_but_cells s1 s2" unfolding s2_def by (rule same_but_cells_fold) (rule same_writew)
  ultimately have "same_but_cells s s2" by (rule same_but_cells_trans)
  moreover have "scroll s = s2\<lparr>current_ypos := 24\<rparr>" unfolding scroll_def Let_def s1_def s2_def by simp
  ultimately show "outs (scroll s) = outs s" "uart (scroll s) = uart s" "current_ypos (scroll s) = 24"
    "current_xpos (scroll s) = current_xpos s" "spin_vga (scroll s) = spin_vga s" "irqs_on (scroll s) = irqs_on s"
    using same_but_cells_sel [of s s2] by simp_all
qed

lemma vga_char_sel [simp]:
  "outs (vga_char a c s) = outs s" "uart (vga_char a c s) = uart s" "spin_vga (vga_char a c s) = spin_vga s"
  "irqs_on (vga_char a c s) = irqs_on s"
  by (simp_all add: vga_char_def Let_def)

lemma uart_wait_sel [simp]:
  "outs (uart_wait n s) = outs s" "uart (uart_wait n s) = uart s" "cells (uart_wait n s) = cells s"
  "current_ypos (uart_wait n s) = current_ypos s" "current_xpos (uart_wait n s) = current_xpos s"
  "spin_vga (uart_wait n s) = spin_vga s" "irqs_on (uart_wait n s) = irqs_on s"
  by (induction n arbitrary: s) (auto simp: inb_def)

text \<open>A character waits for the transmitter at most 128 times.\<close>

lemma uart_wait_bounded: "nreads (uart_wait n s) \<le> nreads s + n"
proof (induction n arbitrary: s)
  case (Suc n)
  show ?case using Suc [of "s\<lparr>nreads := nreads s + 1\<rparr>"] by (auto simp: inb_def)
qed simp

lemma uart_putc_sel [simp]:
  "outs (uart_putc c s) = outs s @ (if uart s then [(0x3f8, of_char c)] else [])" "uart (uart_putc c s) = uart s"
  "cells (uart_putc c s) = cells s" "current_ypos (uart_putc c s) = current_ypos s"
  "current_xpos (uart_putc c s) = current_xpos s" "spin_vga (uart_putc c s) = spin_vga s" "irqs_on (uart_putc c s) = irqs_on s"
  by (simp_all add: uart_putc_def outb_def)

lemma console_text_sel:
  "outs (fold (console_char a) cs s) = outs s @ (if uart s then map (\<lambda>c. (0x3f8, of_char c)) cs else [])"
  "uart (fold (console_char a) cs s) = uart s" "spin_vga (fold (console_char a) cs s) = spin_vga s"
  "irqs_on (fold (console_char a) cs s) = irqs_on s"
  by (induction cs arbitrary: s) (auto simp: console_char_def)

section \<open>The cursor\<close>

text \<open>The cursor stays in the rows 0 to 26, and no cell behind row 25 is written.\<close>

definition cursor_ok :: "console \<Rightarrow> bool" where
  "cursor_ok s \<longleftrightarrow> current_xpos s < 80 \<and> current_ypos s \<le> 26"

lemma vga_char_cursor:
  assumes "cursor_ok s"
  shows "cursor_ok (vga_char a c s) \<and> (\<forall>i\<ge>2080. cells (vga_char a c s) i = cells s i)"
proof -
  define s1 where "s1 = (if current_ypos s > 25 then scroll s else s)"
  have y: "current_ypos s1 \<le> 25" "current_xpos s1 < 80" using assms by (auto simp: s1_def cursor_ok_def)
  have c: "\<forall>i\<ge>2080. cells s1 i = cells s i" by (auto simp: s1_def scroll_cells)
  have "80 * current_ypos s1 + current_xpos s1 < 2080" using y by linarith
  then show ?thesis using y c
    by (auto simp: vga_char_def Let_def s1_def [symmetric] cursor_ok_def)
qed

lemma console_text_cursor:
  "cursor_ok s \<Longrightarrow> cursor_ok (fold (console_char a) cs s) \<and> (\<forall>i\<ge>2080. cells (fold (console_char a) cs s) i = cells s i)"
proof (induction cs arbitrary: s)
  case (Cons c cs)
  have "cursor_ok (uart_putc c s)" using Cons.prems by (simp add: cursor_ok_def)
  from vga_char_cursor [OF this, of a c]
  have "cursor_ok (console_char a c s)" "\<forall>i\<ge>2080. cells (console_char a c s) i = cells s i"
    by (simp_all add: console_char_def)
  then show ?case using Cons.IH [of "console_char a c s"] by simp
qed simp

lemma vga_puts_color_run:
  assumes "cstr m p cs" "spin_vga s = False"
  shows "\<exists>s'. vga_puts_color m back fore p sz s = Inr s' \<and> spin_vga s' = False \<and> irqs_on s' = irqs_on s \<and> uart s' = uart s \<and>
     (let text = (if sz = 0 then cs else take (unat sz) cs);
          s1 = fold (console_char (push_bit 4 back OR (fore AND 0x0F))) text (s\<lparr>irqs_on := False, spin_vga := True\<rparr>) in
      s' = s1\<lparr>spin_vga := False, irqs_on := irqs_on s\<rparr>)"
proof (cases "sz = 0")
  case True
  then show ?thesis using assms
    by (simp add: vga_puts_color_def local_irq_save_def local_irq_restore_def vga_loop_all console_text_sel Let_def)
next
  case False
  then have "0 < unat sz" by (simp add: unat_gt_0)
  then show ?thesis using assms False
    by (simp add: vga_puts_color_def local_irq_save_def local_irq_restore_def vga_loop_limit console_text_sel Let_def)
qed

section \<open>The line behind the screen\<close>

text \<open>
  The screen shows the cells below 2000. A full screen is scrolled only when the cursor is behind row 25, one row too
  late: the text of that row is written behind the screen and is not among the rows that move up.
\<close>

definition plain :: "char \<Rightarrow> bool" where
  "plain c \<longleftrightarrow> c \<noteq> NUL \<and> c \<noteq> CHR 0x0a \<and> c \<noteq> CHR 0x0d"

lemma hidden_row:
  "\<forall>c\<in>set cs. plain c \<Longrightarrow> current_ypos s = 25 \<Longrightarrow> current_xpos s + length cs < 80 \<Longrightarrow>
     current_ypos (fold (console_char a) cs s) = 25 \<and> (\<forall>i<2000. cells (fold (console_char a) cs s) i = cells s i)"
proof (induction cs arbitrary: s)
  case (Cons c cs)
  let ?s = "console_char a c s"
  have "current_ypos ?s = 25" "current_xpos ?s = current_xpos s + 1" "\<forall>i<2000. cells ?s i = cells s i"
    using Cons.prems by (auto simp: console_char_def vga_char_def Let_def plain_def)
  then show ?case using Cons.IH [of ?s] Cons.prems by simp
qed simp

lemma console_newline:
  assumes "current_ypos s \<le> 25"
  shows "current_ypos (console_char a CHR 0x0a s) = current_ypos s + 1" "current_xpos (console_char a CHR 0x0a s) = 0"
    "cells (console_char a CHR 0x0a s) = cells s"
  using assms by (simp_all add: console_char_def vga_char_def Let_def)

lemma scrolled_char:
  assumes "current_ypos s = 26" "current_xpos s = 0" "current_ypos s' = 26" "current_xpos s' = 0"
    "\<forall>i<2000. cells s i = cells s' i" "i < 2000"
  shows "cells (console_char a c s) i = cells (console_char a c s') i"
  using assms by (auto simp: console_char_def vga_char_def Let_def scroll_cells)

text \<open>
  once the screen is full (the cursor is in its last row), every second line is lost: after a newline, a line of fewer than 80
  printable characters, another newline and one more character, the screen shows what it would
  show if the line had been empty.\<close>

theorem vga_line_lost:
  assumes "spin_vga s = False" "current_ypos s = 24"
    and "cstr m p (CHR 0x0a # line @ [CHR 0x0a, c])" "cstr m q [CHR 0x0a, CHR 0x0a, c]"
    and "\<forall>x\<in>set line. plain x" "length line < 80"
  shows "\<exists>s1 s2. vga_puts m p s = Inr s1 \<and> vga_puts m q s = Inr s2 \<and> (\<forall>i<2000. cells s1 i = cells s2 i)"
proof -
  let ?a = "push_bit 4 0 OR (7 AND 0x0F) :: u8" and ?s = "s\<lparr>irqs_on := False, spin_vga := True\<rparr>"
  define t where "t = console_char ?a CHR 0x0a ?s"
  define u where "u = fold (console_char ?a) line t"
  have t: "current_ypos t = 25" "current_xpos t = 0"
    using console_newline [of ?s ?a] assms(2) by (simp_all add: t_def)
  have u: "current_ypos u = 25" "\<forall>i<2000. cells u i = cells t i"
    using hidden_row [OF assms(5) t(1), of ?a] t(2) assms(6) by (simp_all add: u_def)
  have eq: "cells (console_char ?a c (console_char ?a CHR 0x0a u)) i =
      cells (console_char ?a c (console_char ?a CHR 0x0a t)) i" if "i < 2000" for i
    by (rule scrolled_char) (use console_newline [of u ?a] console_newline [of t ?a] t u that in simp_all)
  obtain s1 where s1: "vga_puts m p s = Inr s1"
    "s1 = (fold (console_char ?a) (CHR 0x0a # line @ [CHR 0x0a, c]) ?s)\<lparr>spin_vga := False, irqs_on := irqs_on s\<rparr>"
    using vga_puts_color_run [OF assms(3,1), of 0 7 0] by (auto simp: vga_puts_def Let_def)
  obtain s2 where s2: "vga_puts m q s = Inr s2"
    "s2 = (fold (console_char ?a) [CHR 0x0a, CHR 0x0a, c] ?s)\<lparr>spin_vga := False, irqs_on := irqs_on s\<rparr>"
    using vga_puts_color_run [OF assms(4,1), of 0 7 0] by (auto simp: vga_puts_def Let_def)
  have "cells s1 i = cells s2 i" if "i < 2000" for i
    using eq [OF that] by (simp add: s1(2) s2(2) t_def u_def)
  then show ?thesis using s1(1) s2(1) by blast
qed

definition full_screen :: console where
  "full_screen = \<lparr>answer = (\<lambda>n p. 0x20), nreads = 0, outs = [], uart = True, cells = (\<lambda>i. 0x720), current_ypos = 24,
     current_xpos = 3, spin_vga = False, irqs_on = True\<rparr>"

lemma vga_line_lost_witness:
  "\<exists>s1 s2. vga_puts (mem_of (CHR 0x0a # ''lost'' @ [CHR 0x0a, CHR ''x'', NUL, CHR 0x0a, CHR 0x0a, CHR ''x''])) 0 full_screen = Inr s1 \<and>
     vga_puts (mem_of (CHR 0x0a # ''lost'' @ [CHR 0x0a, CHR ''x'', NUL, CHR 0x0a, CHR 0x0a, CHR ''x''])) 8 full_screen = Inr s2 \<and>
     (\<forall>i<2000. cells s1 i = cells s2 i)"
  by (rule vga_line_lost [where line = "''lost''" and c = "CHR ''x''"]) (simp_all add: full_screen_def mem_of_def plain_def)

end
