(* ===== verification/Printk_Calls.thy ===== *)
theory Printk_Calls
  imports Printk_Correct Console
begin

text \<open>
  The calls of \<open>kernel/printk.c\<close> that print: they format into a buffer of 1024 bytes on the stack, whose address is an argument here, and
  hand it to the console. The memory and the console are one state.
\<close>

section \<open>The calls\<close>

type_synonym printing = "bytes \<times> console"

definition printf :: "ulong \<Rightarrow> ulong \<Rightarrow> va_list \<Rightarrow> printing \<Rightarrow> (i32 \<times> printing) outcome" where
  "printf printf_buf fmt args st =
     (case st of (m, s) \<Rightarrow>
      andThen (ending (vsprintf printf_buf fmt args m)) (\<lambda>(printed, m).
      andThen (vga_puts m printf_buf s) (\<lambda>s. Inr (printed, m, s))))"

definition printk :: "ulong \<Rightarrow> ulong \<Rightarrow> va_list \<Rightarrow> printing \<Rightarrow> (i32 \<times> printing) outcome" where
  "printk printf_buf fmt args st =
     (case st of (m, s) \<Rightarrow>
      andThen (ending (vsprintf printf_buf fmt args m)) (\<lambda>(printed, m).
      andThen (vga_puts m printf_buf s) (\<lambda>s. Inr (printed, m, s))))"

text \<open>
  The file declares \<open>vga_puts_color\<close> with three parameters, the function has four: its \<open>size\<close> is what
  the fourth argument register holds.
\<close>

definition printk_color :: "ulong \<Rightarrow> ulong \<Rightarrow> u8 \<Rightarrow> u8 \<Rightarrow> ulong \<Rightarrow> va_list \<Rightarrow> printing \<Rightarrow> (i32 \<times> printing) outcome" where
  "printk_color rcx printf_buf back_color fore_color fmt args st =
     (case st of (m, s) \<Rightarrow>
      andThen (ending (vsprintf printf_buf fmt args m)) (\<lambda>(printed, m).
      andThen (vga_puts_color m back_color fore_color printf_buf rcx s) (\<lambda>s. Inr (printed, m, s))))"

section \<open>Dumps of memory\<close>

text \<open>
  Literals lie where the linker put them: a function from strings to addresses. The arguments of a call are
  a list, with nothing known of the slots behind it.
\<close>

definition slots :: "(nat \<Rightarrow> ulong) \<Rightarrow> ulong list \<Rightarrow> va_list" where
  "slots junk as i = (if i < length as then as ! i else junk i)"

text \<open>The character of a byte in a dump; \<open>dump_mem64\<close> tests \<open>ptr[j]\<close> but stores \<open>buf[j]\<close>, the low byte of a word.\<close>

definition visible :: "char \<Rightarrow> bool" where
  "visible c \<longleftrightarrow> 33 < schar c \<and> schar c \<le> 126"

primrec temp_loop :: "ulong \<Rightarrow> ulong \<Rightarrow> nat \<Rightarrow> bytes \<Rightarrow> bytes" where
  "temp_loop temp buf 0 m = m"
| "temp_loop temp buf (Suc j) m =
     (let m = temp_loop temp buf j m; jj = of_nat j in
      m(temp + jj := (if visible (m (buf + jj)) then char_of (uint (load_le 8 (buf + 8 * jj) m)) else CHR ''.'')))"

text \<open>The lengths are below \<open>2^31\<close>, so the counters do not wrap and are numbers here.\<close>

function dump64_loop :: "(string \<Rightarrow> ulong) \<Rightarrow> va_list \<Rightarrow> ulong \<Rightarrow> ulong \<Rightarrow> nat \<Rightarrow> nat \<Rightarrow> ulong \<Rightarrow> printing \<Rightarrow> printing outcome" where
  "dump64_loop lit junk temp printf_buf i n buf st =
     (if i < n
      then case st of (m, s) \<Rightarrow>
        let m = temp_loop temp buf 16 (m(temp + 16 := NUL)) in
        andThen (printf printf_buf (lit (''%016lx - %016lx %016lx %s'' @ [CHR 0x0a]))
                   (slots junk [buf, load_le 8 buf m, load_le 8 (buf + 8) m, temp]) (m, s)) (\<lambda>(_, st).
        dump64_loop lit junk temp printf_buf (i + 2) n (buf + 16) st)
      else Inr st)"
  by pat_completeness auto
termination
  by (relation "measure (\<lambda>(lit, junk, temp, pb, i, n, buf, st). n - i)") auto

definition dump_mem64 :: "(string \<Rightarrow> ulong) \<Rightarrow> va_list \<Rightarrow> ulong \<Rightarrow> ulong \<Rightarrow> ulong \<Rightarrow> u32 \<Rightarrow> printing \<Rightarrow> printing outcome" where
  "dump_mem64 lit junk temp printf_buf p len st = dump64_loop lit junk temp printf_buf 0 (unat (len div 8)) p st"

text \<open>A \<open>sprintf\<close> of \<open>dump_mem\<close> into \<open>binstr\<close>; most of them print \<open>binstr\<close> into itself.\<close>

definition to_binstr :: "(string \<Rightarrow> ulong) \<Rightarrow> va_list \<Rightarrow> ulong \<Rightarrow> string \<Rightarrow> ulong list \<Rightarrow> bytes \<Rightarrow> bytes outcome" where
  "to_binstr lit junk binstr fmt as m =
     andThen (ending (sprintf binstr (lit fmt) (slots junk as) m)) (\<lambda>(_, m). Inr m)"

definition add_hex :: "(string \<Rightarrow> ulong) \<Rightarrow> va_list \<Rightarrow> ulong \<Rightarrow> ulong \<Rightarrow> bytes \<Rightarrow> bytes outcome" where
  "add_hex lit junk binstr a m = to_binstr lit junk binstr ''%s %02x'' [binstr, of_char (m a)] m"

definition add_blank :: "(string \<Rightarrow> ulong) \<Rightarrow> va_list \<Rightarrow> ulong \<Rightarrow> bytes \<Rightarrow> bytes outcome" where
  "add_blank lit junk binstr m = to_binstr lit junk binstr ''%s '' [binstr] m"

definition add_char :: "(string \<Rightarrow> ulong) \<Rightarrow> va_list \<Rightarrow> ulong \<Rightarrow> ulong \<Rightarrow> bytes \<Rightarrow> bytes outcome" where
  "add_char lit junk binstr a m =
     to_binstr lit junk binstr ''%s%c'' [binstr, if visible (m a) then of_int (schar (m a)) else 46] m"

primrec repeat_add :: "(nat \<Rightarrow> bytes \<Rightarrow> bytes outcome) \<Rightarrow> nat \<Rightarrow> bytes \<Rightarrow> bytes outcome" where
  "repeat_add f 0 m = Inr m"
| "repeat_add f (Suc n) m = andThen (repeat_add f n m) (f n)"

definition dump_byte :: "(string \<Rightarrow> ulong) \<Rightarrow> va_list \<Rightarrow> ulong \<Rightarrow> ulong \<Rightarrow> ulong \<Rightarrow> nat \<Rightarrow> printing \<Rightarrow> printing outcome" where
  "dump_byte lit junk binstr printf_buf addr i st =
     (case st of (m, s) \<Rightarrow>
      if i mod 16 = 0
      then andThen (to_binstr lit junk binstr ''~%08x -'' [(of_nat i + addr) AND 0xffffffff] m) (\<lambda>m.
           andThen (add_hex lit junk binstr (addr + of_nat i) m) (\<lambda>m. Inr (m, s)))
      else if i mod 16 = 15
      then andThen (add_hex lit junk binstr (addr + of_nat i) m) (\<lambda>m.
           andThen (add_blank lit junk binstr m) (\<lambda>m.
           andThen (repeat_add (\<lambda>j. add_char lit junk binstr (addr + of_nat (i - 15 + j))) 16 m) (\<lambda>m.
           andThen (printf printf_buf (lit (''%s'' @ [CHR 0x0a])) (slots junk [binstr]) (m, s)) (\<lambda>(_, st). Inr st))))
      else andThen (add_hex lit junk binstr (addr + of_nat i) m) (\<lambda>m. Inr (m, s)))"

primrec dump_bytes :: "(string \<Rightarrow> ulong) \<Rightarrow> va_list \<Rightarrow> ulong \<Rightarrow> ulong \<Rightarrow> ulong \<Rightarrow> nat \<Rightarrow> printing \<Rightarrow> printing outcome" where
  "dump_bytes lit junk binstr printf_buf addr 0 st = Inr st"
| "dump_bytes lit junk binstr printf_buf addr (Suc i) st =
     andThen (dump_bytes lit junk binstr printf_buf addr i st) (dump_byte lit junk binstr printf_buf addr i)"

definition dump_mem :: "(string \<Rightarrow> ulong) \<Rightarrow> va_list \<Rightarrow> ulong \<Rightarrow> ulong \<Rightarrow> ulong \<Rightarrow> u32 \<Rightarrow> printing \<Rightarrow> printing outcome" where
  "dump_mem lit junk binstr printf_buf addr len st =
     (let i = unat len in
      andThen (if 0xffffffff < addr
               then andThen (printk printf_buf (lit (''addr:%016lx:'' @ [CHR 0x0a])) (slots junk [addr]) st) (\<lambda>(_, st). Inr st)
               else Inr st) (\<lambda>st.
      andThen (dump_bytes lit junk binstr printf_buf addr i st) (\<lambda>st.
      if i mod 16 \<noteq> 0
      then case st of (m, s) \<Rightarrow>
        let k = 16 - i mod 16 in
        andThen (repeat_add (\<lambda>j. add_blank lit junk binstr) k m) (\<lambda>m.
        andThen (add_blank lit junk binstr m) (\<lambda>m.
        andThen (repeat_add (\<lambda>j. add_char lit junk binstr (addr + of_nat (i - (16 - k) + j))) (16 - k) m) (\<lambda>m.
        andThen (printf printf_buf (lit (''%s'' @ [CHR 0x0a])) (slots junk [binstr]) (m, s)) (\<lambda>(_, st). Inr st))))
      else Inr st)))"

section \<open>Printing a buffer into itself\<close>

lemma puts_same: "holds m p cs \<Longrightarrow> puts cs (m, p) = (m, p + of_nat (length cs))"
proof (induction cs arbitrary: p)
  case (Cons c cs)
  then have "m(p := c) = m" by auto
  then show ?case using Cons by (simp add: add.assoc)
qed simp

lemma copy_str_same: "copy_str n p (m, p) = (m, p + of_nat n)"
  by (induction n arbitrary: p) (simp_all add: add.assoc fun_upd_idem)

lemma conv_s_self:
  assumes "cstr m p cs" "length cs < 2 ^ 28"
  shows "conv_s 0 (- 1) (- 1) args (m, p) = (if args 0 = p then (puts cs (m, p), \<lambda>i. args (Suc i)) else conv_s 0 (- 1) (- 1) args (m, p))"
proof -
  have len: "printk_strnlen m p (- 1) = of_nat (length cs)"
    using printk_strnlen_run [OF assms, of None] by (simp add: moderate_def)
  have sl: "sint (of_nat (length cs) :: i32) = int (length cs)"
    using assms(2) sint_i32_of_int [of "int (length cs)"] by simp
  then have "\<not> (of_nat (length cs) :: i32) <s - 1" by (simp add: sless_sint)
  moreover have "puts cs (m, p) = (m, p + of_nat (length cs))" using assms(1) by (simp add: cstr_def puts_same)
  moreover have "nat (- 1 - int (length cs)) = 0" "nat (- 2 - int (length cs)) = 0" by simp_all
  ultimately show ?thesis
    by (simp add: conv_s_def va_arg_def len above_loop_eq sl copy_str_same)
qed

text \<open>
  a call that prints a buffer into itself appends: when the format begins with \<open>%s\<close> and its first argument is the
  buffer, \<open>sprintf\<close> leaves the old text followed by the text of the rest of the format. The dumps of memory
  build their lines this way.\<close>

theorem sprintf_appends:
  assumes old: "cstr m buf old" "length old < 2 ^ 28" and arg: "args 0 = buf"
    and fmt: "cstr m fmt (''%s'' @ show_format its)"
    and good: "good_call sof (printable m sof (region (buf + of_nat (length old)) (Suc (length (render sof its (\<lambda>i. args (Suc i)))))))
      its (\<lambda>i. args (Suc i))"
    and away: "region fmt (Suc (length (''%s'' @ show_format its))) \<inter>
      region buf (Suc (length old + length (render sof its (\<lambda>i. args (Suc i))))) = {}"
    and small: "length old + length (render sof its (\<lambda>i. args (Suc i))) < 2 ^ 31"
  shows "\<exists>m'. sprintf buf fmt args m = Some (of_nat (length old + length (render sof its (\<lambda>i. args (Suc i)))), m') \<and>
     holds m' buf (old @ render sof its (\<lambda>i. args (Suc i))) \<and>
     m' (buf + of_nat (length old + length (render sof its (\<lambda>i. args (Suc i))))) = NUL \<and>
     (\<forall>a. a \<notin> region buf (Suc (length old + length (render sof its (\<lambda>i. args (Suc i))))) \<longrightarrow> m' a = m a)"
proof -
  let ?args = "\<lambda>i. args (Suc i)"
  let ?t = "render sof its ?args" and ?str = "buf + of_nat (length old)"
  let ?all = "old @ ?t"
  have st: "puts old (m, buf) = (m, ?str)" using old(1) by (simp add: cstr_def puts_same)
  have f: "m fmt = CHR ''%''" "m (fmt + 1) = CHR ''s''" "cstr m (fmt + 2) (show_format its)"
    using fmt by (simp_all add: add.assoc)
  have "directive buf fmt args (m, buf) = Some (puts old (m, buf), fmt + 1, ?args)"
  proof -
    have "CHR ''s'' \<notin> flag_chars \<union> qual_chars \<union> {CHR ''.'', CHR ''*''}" "\<not> decimal CHR ''s''"
      by (auto simp: flag_chars_def qual_chars_def decimal_def)
    then show ?thesis using directive_plain [of m fmt] f conv_s_self [OF old, of args] arg by (simp add: directive_def)
  qed
  then have "vsprintf_loop buf fmt args (m, buf) = vsprintf_loop buf (fmt + 2) ?args (m, ?str)"
    using f st by (subst vsprintf_loop.simps) (simp add: add.assoc)
  also have "\<dots> = Some (puts ?t (m, ?str))"
  proof (rule vsprintf_loop_run [OF f(3) good])
    have "region fmt (Suc (length (''%s'' @ show_format its))) = region fmt 2 \<union> region (fmt + 2) (Suc (length (show_format its)))"
      using region_add [of fmt 2 "Suc (length (show_format its))"] by simp
    moreover have "region buf (Suc (length old + length ?t)) = region buf (length old) \<union> region ?str (Suc (length ?t))"
      using region_add [of buf "length old" "Suc (length ?t)"] by simp
    ultimately show "region (fmt + 2) (Suc (length (show_format its))) \<inter> region ?str (Suc (length ?t)) = {}"
      using away by blast
  qed simp
  also have "puts ?t (m, ?str) = puts ?all (m, buf)" by (simp add: puts_append st)
  finally have run: "vsprintf_loop buf fmt args (m, buf) = Some (puts ?all (m, buf))" .
  show ?thesis using printed_run [OF run] small by (simp add: sprintf_def)
qed

definition append_mem :: bytes where
  "append_mem a = (if a = 0x200 then CHR ''a'' else if a = 0x201 then CHR ''b'' else mem_of ''%s %02x'' a)"

definition append_items :: "item list" where
  "append_items = [Lit CHR '' '', Conv ''0'' (Width 2) No_prec None CHR ''x'']"

lemma append_text: "render (\<lambda>_. []) append_items (\<lambda>i. slots (\<lambda>_. 0) [0x200, 7] (Suc i)) = '' 07''"
  by code_simp

lemma append_format: "show_format append_items = '' %02x''"
  by code_simp

lemma sprintf_appends_witness:
  "\<exists>m'. sprintf 0x200 0 (slots (\<lambda>_. 0) [0x200, 7]) append_mem = Some (of_nat (length ''ab'' + length '' 07''), m') \<and>
     holds m' 0x200 (''ab'' @ '' 07'') \<and> m' (0x200 + of_nat (length ''ab'' + length '' 07'')) = NUL \<and>
     (\<forall>a. a \<notin> region 0x200 (Suc (length ''ab'' + length '' 07'')) \<longrightarrow> m' a = append_mem a)"
proof (rule sprintf_appends [where its = append_items and sof = "\<lambda>_. []" and args = "slots (\<lambda>_. 0) [0x200, 7]", unfolded append_text append_format])
  show "cstr append_mem 0x200 ''ab''" "cstr append_mem 0 (''%s'' @ '' %02x'')"
    by (simp_all add: append_mem_def mem_of_def)
  show "region 0 (Suc (length (''%s'' @ '' %02x''))) \<inter> region 0x200 (Suc (length ''ab'' + length '' 07'')) = {}"
    by (rule region_apart) simp_all
  show "good_call (\<lambda>_. []) (printable append_mem (\<lambda>_. []) (region (0x200 + of_nat (length ''ab'')) (Suc (length '' 07''))))
      append_items (\<lambda>i. slots (\<lambda>_. 0) [0x200, 7] (Suc i))"
    by (simp add: append_items_def good_args_def width_value_def prec_value_def flag_chars_def conv_chars_def)
qed (simp_all add: slots_def)

section \<open>Printing on the console\<close>

lemma cstr_of_holds: "holds m p cs \<Longrightarrow> m (p + of_nat (length cs)) = NUL \<Longrightarrow> NUL \<notin> set cs \<Longrightarrow> cstr m p cs"
  by (simp add: cstr_def)

lemma vga_puts_run:
  assumes "cstr m p cs" "spin_vga s = False" "cursor_ok s"
  shows "\<exists>s'. vga_puts m p s = Inr s' \<and> outs s' = outs s @ (if uart s then map (\<lambda>c. (0x3f8, of_char c)) cs else []) \<and>
     cursor_ok s' \<and> (\<forall>i\<ge>2080. cells s' i = cells s i) \<and> spin_vga s' = False \<and> irqs_on s' = irqs_on s \<and> uart s' = uart s"
proof -
  let ?s = "s\<lparr>irqs_on := False, spin_vga := True\<rparr>" and ?a = "push_bit 4 0 OR (7 AND 0x0F) :: u8"
  have "cursor_ok ?s" using assms(3) by (simp add: cursor_ok_def)
  from console_text_cursor [OF this, of ?a cs] show ?thesis
    using vga_puts_color_run [OF assms(1,2), of 0 7 0]
    by (auto simp: vga_puts_def Let_def console_text_sel cursor_ok_def)
qed

text \<open>
  C36: \<open>printk\<close> formats and prints: for a format of known items whose text has fewer than 1024 characters and no NUL,
  it returns the length of the text, sends the text over the serial line character by character, leaves the cursor and the cells
  written inside the text memory, releases the lock of the screen and restores interrupts, and
  changes no memory outside its buffer.\<close>

theorem printk_prints:
  assumes "cstr m fmt (show_format its)"
    and "good_call sof (printable m sof (region buf 1024)) its args" and "region fmt (Suc (length (show_format its))) \<inter> region buf 1024 = {}"
    and "length (render sof its args) < 1024" and "NUL \<notin> set (render sof its args)"
    and "spin_vga s = False" and "cursor_ok s"
  shows "\<exists>m' s'. printk buf fmt args (m, s) = Inr (of_nat (length (render sof its args)), m', s') \<and>
     outs s' = outs s @ (if uart s then map (\<lambda>c. (0x3f8, of_char c)) (render sof its args) else []) \<and>
     cursor_ok s' \<and> (\<forall>i\<ge>2080. cells s' i = cells s i) \<and> spin_vga s' = False \<and> irqs_on s' = irqs_on s \<and>
     (\<forall>a. a \<notin> region buf 1024 \<longrightarrow> m' a = m a)"
proof -
  let ?t = "render sof its args"
  have R: "region buf (Suc (length ?t)) \<subseteq> region buf 1024" using assms(4) by (intro region_mono) simp
  have "good_call sof (printable m sof (region buf (Suc (length ?t)))) its args"
    using assms(2) by (rule good_call_mono) (use R in \<open>auto simp: printable_def\<close>)
  moreover have "region fmt (Suc (length (show_format its))) \<inter> region buf (Suc (length ?t)) = {}" using assms(3) R by blast
  ultimately obtain m' where m': "vsprintf buf fmt args m = Some (of_nat (length ?t), m')" "holds m' buf ?t"
    "m' (buf + of_nat (length ?t)) = NUL" "\<forall>a. a \<notin> region buf (Suc (length ?t)) \<longrightarrow> m' a = m a"
    using vsprintf_run [of m fmt its sof buf args] assms(1,4) by auto
  obtain s' where "vga_puts m' buf s = Inr s'" "outs s' = outs s @ (if uart s then map (\<lambda>c. (0x3f8, of_char c)) ?t else [])"
    "cursor_ok s'" "\<forall>i\<ge>2080. cells s' i = cells s i" "spin_vga s' = False" "irqs_on s' = irqs_on s"
    using vga_puts_run [OF cstr_of_holds [OF m'(2,3) assms(5)] assms(6,7)] by blast
  then show ?thesis using m'(1,4) R by (auto simp: printk_def)
qed

lemma printk_prints_witness:
  "\<exists>m' s'. printk 0x1000 0 sample_args (sample_mem, full_screen) = Inr (of_nat (length ''x=00ff ok   ''), m', s') \<and>
     outs s' = outs full_screen @ (if uart full_screen then map (\<lambda>c. (0x3f8, of_char c)) ''x=00ff ok   '' else []) \<and>
     cursor_ok s' \<and> (\<forall>i\<ge>2080. cells s' i = cells full_screen i) \<and> spin_vga s' = False \<and> irqs_on s' = irqs_on full_screen \<and>
     (\<forall>a. a \<notin> region 0x1000 1024 \<longrightarrow> m' a = sample_mem a)"
proof (rule printk_prints [where its = sample_items and sof = "\<lambda>a. ''ok''" and args = sample_args, unfolded sample_text sample_format])
  show "cstr sample_mem 0 ''x=%04x %-*s''" by (simp add: sample_mem_def mem_of_def)
  show "region 0 (Suc (length ''x=%04x %-*s'')) \<inter> region 0x1000 1024 = {}" by (rule region_apart) simp_all
  have "region 0x100 (Suc (length ''ok'')) \<inter> region 0x1000 1024 = {}" by (rule region_apart) simp_all
  then show "good_call (\<lambda>a. ''ok'') (printable sample_mem (\<lambda>a. ''ok'') (region 0x1000 1024)) sample_items sample_args"
    by (intro sample_good_call) (simp add: printable_def sample_mem_def mem_of_def)
qed (simp_all add: full_screen_def cursor_ok_def)

text \<open>
  \<open>printk_color\<close> sends only as many characters as the register that stands for the missing argument says,
  unless it is 0.
\<close>

theorem printk_color_cut:
  assumes "vsprintf buf fmt args m = Some (n, m')" "cstr m' buf t" "spin_vga s = False" "uart s"
  shows "\<exists>s'. printk_color rcx buf bc fc fmt args (m, s) = Inr (n, m', s') \<and>
     outs s' = outs s @ map (\<lambda>c. (0x3f8, of_char c)) (if rcx = 0 then t else take (unat rcx) t)"
proof -
  let ?a = "push_bit 4 bc OR (fc AND 0x0F)"
  obtain s' where "vga_puts_color m' bc fc buf rcx s = Inr s'"
    "s' = (fold (console_char ?a) (if rcx = 0 then t else take (unat rcx) t) (s\<lparr>irqs_on := False, spin_vga := True\<rparr>))
      \<lparr>spin_vga := False, irqs_on := irqs_on s\<rparr>"
    using vga_puts_color_run [OF assms(2,3), of bc fc rcx] by (auto simp: Let_def)
  then show ?thesis using assms(1,4) by (auto simp: printk_color_def console_text_sel)
qed

text \<open>\<open>dump_mem64\<close> shows the wrong characters: of the words 8, 16 and so on bytes further on, not of the bytes it dumps.\<close>

lemma dump64_wrong_char:
  "map (temp_loop 0x1000 0 4 (mem_of ''Hello, world! this is a dump of memory'')) (map (\<lambda>j. 0x1000 + of_nat j) [0..<4]) = ''Hoid''"
  by code_simp

end
