(* ===== verification/Boot_Memory.thy ===== *)
theory Boot_Memory
  imports Kheap Pgtable C_String
begin

text \<open>
  The memory map at the start of the kernel, \<open>arch/x86_64/multiboot.c\<close>: the ranges the boot loader
  reports are cut around the reserved ones and handed to the allocators, and the memory of devices is
  mapped. The state joins the page tables (which hold the state of physical memory), the kernel heap and the variables of the file.
\<close>

section \<open>State\<close>

record boot_mem =
  bpg :: pgt
  bheap :: kheap
  io_remap_pages :: "ulong list"
  revmem :: "(ulong \<times> ulong) list"
  max_reserve_addr :: ulong
  kernel_start :: ulong
  kernel_end :: ulong

abbreviation (input) MAX_IO_REMAPS :: nat where "MAX_IO_REMAPS \<equiv> 2000"
abbreviation (input) MAX_REVERSE :: nat where "MAX_REVERSE \<equiv> 10"

definition max_mem :: "boot_mem \<Rightarrow> ulong" where
  "max_mem st = max_phy_mem_addr (pmem (physm (bpg st)))"

definition with_phys :: "(phys \<Rightarrow> phys outcome) \<Rightarrow> boot_mem \<Rightarrow> boot_mem outcome" where
  "with_phys f st = andThen (f (physm (bpg st))) (\<lambda>p. Inr (st\<lparr>bpg := (bpg st)\<lparr>physm := p\<rparr>\<rparr>))"

text \<open>The heap works on the 2M pages of the same machine.\<close>

definition heap_of :: "boot_mem \<Rightarrow> kheap" where
  "heap_of st = (bheap st)\<lparr>kmem := pmem (physm (bpg st))\<rparr>"

definition set_heap :: "kheap \<Rightarrow> boot_mem \<Rightarrow> boot_mem" where
  "set_heap h st = st\<lparr>bheap := h, bpg := (bpg st)\<lparr>physm := (physm (bpg st))\<lparr>pmem := kmem h\<rparr>\<rparr>\<rparr>"

definition with_heap :: "(kheap \<Rightarrow> kheap outcome) \<Rightarrow> boot_mem \<Rightarrow> boot_mem outcome" where
  "with_heap f st = andThen (f (heap_of st)) (\<lambda>h. Inr (set_heap h st))"

text \<open>\<open>init_bss\<close>: the first 64K behind the kernel become the heap; the bounds are symbols of the linker.\<close>

definition init_bss :: "ulong \<Rightarrow> ulong \<Rightarrow> boot_mem \<Rightarrow> boot_mem outcome" where
  "init_bss ld_start ld_end st =
     (let init_heap_size = 0x10000 in
      andThen (with_heap (free_kheap_4k ld_end init_heap_size) st) (\<lambda>st.
      Inr (st\<lparr>kernel_end := ld_end + init_heap_size, kernel_start := ld_start\<rparr>)))"

section \<open>Memory of devices\<close>

text \<open>\<open>add_map\<close> takes an \<open>int\<close>; the pages with their number plus one are kept once each.\<close>

definition add_map :: "ulong \<Rightarrow> boot_mem \<Rightarrow> boot_mem outcome" where
  "add_map pg0 st =
     (let pg = scast (ucast pg0 :: i32) in
      if pg \<in> set (io_remap_pages st) then Inr st
      else if length (io_remap_pages st) \<ge> MAX_IO_REMAPS then panic
      else Inr (st\<lparr>io_remap_pages := io_remap_pages st @ [pg]\<rparr>))"

partial_function (option) iomem_loop :: "ulong \<Rightarrow> ulong \<Rightarrow> boot_mem \<Rightarrow> boot_mem outcome option" where
  "iomem_loop addr sz st =
     (if sz \<ge> PAGE_SIZE_LARGE
      then case add_map (addr div PAGE_SIZE_LARGE + 1) st of
          Inl e \<Rightarrow> Some (Inl e)
        | Inr st \<Rightarrow> iomem_loop (addr + PAGE_SIZE_LARGE) (sz - PAGE_SIZE_LARGE) st
      else if sz = 0 then Some (Inr st)
      else Some (add_map (addr div PAGE_SIZE_LARGE + 1) st))"

declare iomem_loop.simps [code]

partial_function (option) on_iomem :: "ulong \<Rightarrow> ulong \<Rightarrow> boot_mem \<Rightarrow> boot_mem outcome option" where
  "on_iomem addr sz st =
     (let low = addr AND (PAGE_SIZE_LARGE - 1) in
      if addr = 0 then Some (Inr st)
      else if low \<noteq> 0
      then let lowsize = PAGE_SIZE_LARGE - low; pg = (addr + PAGE_SIZE_LARGE - 1) div PAGE_SIZE_LARGE in
           if lowsize \<ge> sz then Some (add_map pg st)
           else (case add_map pg st of
               Inl e \<Rightarrow> Some (Inl e)
             | Inr st \<Rightarrow> on_iomem (addr + lowsize) (sz - lowsize) st)
      else iomem_loop addr sz st)"

declare on_iomem.simps [code]

section \<open>Free memory\<close>

text \<open>Blocks that end below the highest memory are freed, others are not.\<close>

definition mem_small :: "ulong \<Rightarrow> ulong \<Rightarrow> boot_mem \<Rightarrow> boot_mem outcome" where
  "mem_small addr sz st =
     (if addr + sz < max_mem st then with_phys (free_phy_page_small addr sz) st else Inr st)"

definition mem_pages :: "ulong \<Rightarrow> ulong \<Rightarrow> boot_mem \<Rightarrow> boot_mem outcome" where
  "mem_pages addr sz = with_phys (\<lambda>p. andThen (free_phy_pages addr sz (pmem p)) (\<lambda>m. Inr (p\<lparr>pmem := m\<rparr>)))"

definition mem_unaligned :: "ulong \<Rightarrow> ulong \<Rightarrow> ulong \<Rightarrow> boot_mem \<Rightarrow> boot_mem outcome" where
  "mem_unaligned addr sz low4ksize st =
     andThen (if low4ksize \<ge> sz \<and> addr + sz < max_mem st then with_heap (free_kheap_small (P2K addr) sz) st else Inr st)
       (with_heap (free_kheap_small (P2K addr) low4ksize))"

partial_function (option) on_mem :: "ulong \<Rightarrow> ulong \<Rightarrow> boot_mem \<Rightarrow> boot_mem outcome option" where
  "on_mem addr sz0 st =
     (let low4k = addr AND 0xfff in
      if low4k \<noteq> 0
      then let low4ksize = 0x1000 - low4k in
           (case mem_unaligned addr sz0 low4ksize st of
              Inl e \<Rightarrow> Some (Inl e)
            | Inr st \<Rightarrow> on_mem (addr + low4ksize) (sz0 - low4ksize) st)
      else
        let sz = sz0 AND NOT 0xfff in
        if sz = 0 then Some (Inr st)
        else if sz < PAGE_SIZE_LARGE then Some (mem_small addr sz st)
        else
          let low = addr AND (PAGE_SIZE_LARGE - 1) in
          if low \<noteq> 0
          then let lowsize = PAGE_SIZE_LARGE - low in
               if lowsize \<ge> sz then Some (mem_small addr sz st)
               else let sz = sz - lowsize in
                    (case mem_small addr sz st of
                       Inl e \<Rightarrow> Some (Inl e)
                     | Inr st \<Rightarrow> on_mem (addr + lowsize) sz st)
          else
            let npg = sz div PAGE_SIZE_LARGE in
            (case mem_pages addr (npg * PAGE_SIZE_LARGE) st of
               Inl e \<Rightarrow> Some (Inl e)
             | Inr st \<Rightarrow>
                 let sz = sz AND (PAGE_SIZE_LARGE - 1); addr = addr + npg * PAGE_SIZE_LARGE in
                 if sz = 0 then Some (Inr st) else Some (mem_small addr sz st)))"

declare on_mem.simps [code]

section \<open>Reserved ranges\<close>

definition add_reserve :: "ulong \<Rightarrow> ulong \<Rightarrow> boot_mem \<Rightarrow> boot_mem outcome" where
  "add_reserve addr sz st =
     (if length (revmem st) \<ge> MAX_REVERSE then panic
      else Inr (st\<lparr>revmem := revmem st @ [(addr, sz)],
                   max_reserve_addr := (if P2K addr + sz > max_reserve_addr st then addr + sz else max_reserve_addr st)\<rparr>))"

definition on_range :: "bool \<Rightarrow> ulong \<Rightarrow> ulong \<Rightarrow> boot_mem \<Rightarrow> boot_mem outcome option" where
  "on_range ismem addr sz st = (if ismem then on_mem addr sz st else on_iomem addr sz st)"

text \<open>The loop over the reserved ranges stops at the first that meets the block.\<close>

definition meets :: "ulong \<Rightarrow> ulong \<Rightarrow> ulong \<times> ulong \<Rightarrow> bool" where
  "meets addr sz r \<longleftrightarrow> \<not> addr \<ge> fst r + snd r \<and> \<not> addr + sz \<le> fst r"

partial_function (option) deal_reserve :: "ulong \<Rightarrow> ulong \<Rightarrow> bool \<Rightarrow> boot_mem \<Rightarrow> boot_mem outcome option" where
  "deal_reserve addr sz ismem st =
     (if addr > max_reserve_addr st then on_range ismem addr sz st
      else case find (meets addr sz) (revmem st) of
        None \<Rightarrow> on_range ismem addr sz st
      | Some (rev_start, rev_size) \<Rightarrow>
          let newaddr = rev_start + rev_size in
          if addr \<ge> rev_start \<and> addr + sz \<le> newaddr then Some (Inr st)
          else if addr \<ge> rev_start then deal_reserve newaddr (sz + addr - newaddr) ismem st
          else if \<not> addr \<le> rev_start then Some (Inl Assertion_failed)
          else Option.bind (deal_reserve addr (rev_start - addr) ismem st) (\<lambda>r.
               case r of
                 Inl e \<Rightarrow> Some (Inl e)
               | Inr st \<Rightarrow>
                   if sz + addr > newaddr then deal_reserve newaddr (sz + addr - newaddr) ismem st
                   else Some (Inr st)))"

declare deal_reserve.simps [code]

section \<open>The memory map\<close>

text \<open>
  An entry of the map: its size without the size field, base address, length and type. The loops go from entry to entry
  by the sizes in them.
\<close>

record memory_map =
  mm_size :: ulong
  mm_addr :: ulong
  mm_length :: ulong
  mm_type :: ulong

definition mmap_at :: "bytes \<Rightarrow> ulong \<Rightarrow> memory_map" where
  "mmap_at m p =
     \<lparr>mm_size = load_le 4 p m,
      mm_addr = push_bit 32 (load_le 4 (p + 8) m) + load_le 4 (p + 4) m,
      mm_length = push_bit 32 (load_le 4 (p + 16) m) + load_le 4 (p + 12) m,
      mm_type = load_le 4 (p + 20) m\<rparr>"

partial_function (option) e820_loop :: "bytes \<Rightarrow> ulong \<Rightarrow> ulong \<Rightarrow> ulong \<Rightarrow> boot_mem \<Rightarrow> boot_mem outcome option" where
  "e820_loop m lim mmap minaddr0 st =
     (if mmap < lim
      then let e = mmap_at m mmap; maxaddr = 0;
               minaddr = (if mm_addr e < minaddr0 then mm_addr e else minaddr0);
               addr = (if mm_addr e > minaddr \<and> mm_addr e + mm_length e < maxaddr then maxaddr else mm_addr e) in
           Option.bind (deal_reserve addr (mm_length e) (mm_type e = 1) st) (\<lambda>r.
           case r of
             Inl f \<Rightarrow> Some (Inl f)
           | Inr st \<Rightarrow> e820_loop m lim (mmap + mm_size e + 4) minaddr st)
      else Some (Inr st))"

declare e820_loop.simps [code]

definition init_e820 :: "bytes \<Rightarrow> ulong \<Rightarrow> ulong \<Rightarrow> boot_mem \<Rightarrow> boot_mem outcome" where
  "init_e820 m pe820 e820map_size st =
     andThen (add_reserve 0 0x10000 st) (\<lambda>st.
     andThen (add_reserve (K2P (kernel_start st)) (kernel_end st - kernel_start st) st) (\<lambda>st.
     andThen (add_map (0xFEC00000 div PAGE_SIZE_LARGE + 1) st) (\<lambda>st.
     andThen (ending (e820_loop m (pe820 + e820map_size) pe820 (- 1) st)) (\<lambda>r. r))))"

abbreviation (input) IO_FLAGS :: ulong where "IO_FLAGS \<equiv> PTE_P OR PTE_W OR PTE_PWT OR PTE_PCD OR PTE_PS"

definition map_io_page :: "ulong \<Rightarrow> boot_mem \<Rightarrow> boot_mem outcome" where
  "map_io_page paddr st =
     andThen (map_page_p2v paddr (paddr + IO_MEM_BASE) IO_FLAGS (bpg st)) (\<lambda>(ret, g).
     if ret \<noteq> OK then panic else Inr (st\<lparr>bpg := g\<rparr>))"

definition remap_iomem :: "boot_mem \<Rightarrow> boot_mem outcome" where
  "remap_iomem st =
     fold (\<lambda>pg r. andThen r (\<lambda>st. if pg > 0 then map_io_page ((pg - 1) * PAGE_SIZE_LARGE) st else Inr st))
       (io_remap_pages st) (Inr st)"

partial_function (option) hole_loop :: "ulong \<Rightarrow> ulong \<Rightarrow> boot_mem \<Rightarrow> boot_mem outcome option" where
  "hole_loop addr haddr st =
     (if haddr + PAGE_SIZE_LARGE < addr
      then case map_io_page haddr st of
          Inl e \<Rightarrow> Some (Inl e)
        | Inr st \<Rightarrow> hole_loop addr (haddr + PAGE_SIZE_LARGE) st
      else Some (Inr st))"

declare hole_loop.simps [code]

text \<open>A hole between two entries of the map belongs to devices.\<close>

definition map_hole :: "ulong \<Rightarrow> ulong \<Rightarrow> boot_mem \<Rightarrow> boot_mem outcome" where
  "map_hole lastend addr st =
     (if addr - lastend < PAGE_SIZE_LARGE
      then andThen (ending (deal_reserve lastend (addr - lastend) False st)) (\<lambda>r. r)
      else let low = lastend AND (PAGE_SIZE_LARGE - 1) in
        andThen (if low \<noteq> 0 then andThen (ending (deal_reserve lastend (PAGE_SIZE_LARGE - low) False st)) (\<lambda>r. r) else Inr st) (\<lambda>st.
        let lastend = (if low \<noteq> 0 then (lastend + PAGE_SIZE_LARGE) AND NOT (PAGE_SIZE_LARGE - 1) else lastend) in
        andThen (ending (hole_loop addr lastend st)) (\<lambda>r. r)))"

partial_function (option) page_map_loop :: "bytes \<Rightarrow> ulong \<Rightarrow> ulong \<Rightarrow> ulong \<Rightarrow> boot_mem \<Rightarrow> boot_mem outcome option" where
  "page_map_loop m lim mmap lastend st =
     (if mmap < lim
      then let e = mmap_at m mmap in
           case (if mm_addr e > lastend \<and> lastend < max_mem st then map_hole lastend (mm_addr e) st else Inr st) of
             Inl f \<Rightarrow> Some (Inl f)
           | Inr st \<Rightarrow> page_map_loop m lim (mmap + mm_size e + 4) (mm_addr e + mm_length e) st
      else Some (Inr st))"

declare page_map_loop.simps [code]

text \<open>The constants of the kernel are mapped read-only, twice; the results of the calls are not looked at.\<close>

partial_function (option) ro_loop :: "ulong \<Rightarrow> ulong \<Rightarrow> pgt \<Rightarrow> pgt outcome option" where
  "ro_loop ro_end vaddr g =
     (if vaddr < ro_end
      then case andThen (map_4k_page_p2v (K2P vaddr) vaddr map_flags_readonly g) (\<lambda>(_, g).
                map_4k_page_p2v (K2P vaddr) (P2V (K2P vaddr)) map_flags_readonly g) of
          Inl e \<Rightarrow> Some (Inl e)
        | Inr (_, g) \<Rightarrow> ro_loop ro_end (vaddr + 0x1000) g
      else Some (Inr g))"

declare ro_loop.simps [code]

definition init_page_map :: "bytes \<Rightarrow> ulong \<Rightarrow> ulong \<Rightarrow> ulong \<Rightarrow> ulong \<Rightarrow> boot_mem \<Rightarrow> boot_mem outcome" where
  "init_page_map m pe820 e820map_size ro_start ro_end st =
     andThen (ending (page_map_loop m (pe820 + e820map_size) pe820 0 st)) (\<lambda>r.
     andThen r (\<lambda>st.
     andThen (remap_iomem st) (\<lambda>st.
     andThen (ending (ro_loop ro_end ro_start (bpg st))) (\<lambda>r.
     andThen r (\<lambda>g. Inr (st\<lparr>bpg := g\<rparr>))))))"

text \<open>
  \<open>init_bootload\<close>: the map is copied to the heap, and the highest address and the highest memory address are computed. The result is
  the copy's address and length with the two limits, or nothing when the flags contradict each other. A wrong magic
  number or a missing map halts the processor.
\<close>

partial_function (option) limits_loop :: "bytes \<Rightarrow> ulong \<Rightarrow> ulong \<Rightarrow> ulong \<Rightarrow> ulong \<Rightarrow> (ulong \<times> ulong) option" where
  "limits_loop m lim mmap maxaddr maxmemaddr =
     (if mmap < lim
      then let e = mmap_at m mmap; fin = mm_addr e + mm_length e in
           limits_loop m lim (mmap + mm_size e + 4)
             (if fin > maxaddr then fin else maxaddr)
             (if mm_type e = 1 \<and> fin > maxmemaddr then fin else maxmemaddr)
      else Some (maxaddr, maxmemaddr))"

declare limits_loop.simps [code]

definition init_bootload :: "ulong \<Rightarrow> u32 \<Rightarrow> bytes \<Rightarrow> boot_mem \<Rightarrow> ((ulong \<times> ulong \<times> ulong \<times> ulong) option \<times> bytes \<times> boot_mem) outcome" where
  "init_bootload info_addr magic m st =
     (if magic \<noteq> 0x2BADB002 then Inl Loops_forever
      else
        let st = st\<lparr>io_remap_pages := []\<rparr>; flags = load_le 4 info_addr m in
        if bit flags 4 \<and> bit flags 5 then Inr (None, m, st)
        else if bit flags 6
        then let e820map_addr = P2K (load_le 4 (info_addr + 48) m); e820map_size = load_le 4 (info_addr + 44) m in
             andThen (kalloc e820map_size (heap_of st)) (\<lambda>(pe820, h).
             if pe820 = 0 then panic
             else let m = inline_memcpy pe820 e820map_addr e820map_size m in
               andThen (ending (limits_loop m (e820map_addr + e820map_size) e820map_addr 0 0)) (\<lambda>(maxaddr, maxmemaddr).
               Inr (Some (pe820, e820map_size, maxaddr, maxmemaddr), m, set_heap h st)))
        else Inl Loops_forever)"

end
