(* ===== verification/Boot_Free.thy ===== *)
theory Boot_Free
  imports Boot_Memory
begin

text \<open>
  \<open>on_mem\<close> of \<open>arch/x86_64/multiboot.c\<close> over the allocators of physical memory: a piece that begins on a 2M page or fits below
  the next one becomes free memory and nothing else changes; a larger piece that begins inside a 2M page is freed twice.
\<close>

section \<open>The calls of the allocators\<close>

text \<open>Pages that lie next to each other.\<close>

lemma page_bytes_range: "(\<Union>k \<in> {i ..< i + n}. page_bytes k) = {i * 2 ^ 21 ..< (i + n) * 2 ^ 21}"
proof (induction n)
  case (Suc n)
  have "{i ..< i + Suc n} = insert (i + n) {i ..< i + n}" by auto
  then have "(\<Union>k \<in> {i ..< i + Suc n}. page_bytes k) = page_bytes (i + n) \<union> {i * 2 ^ 21 ..< (i + n) * 2 ^ 21}"
    using Suc by simp
  then show ?case by (auto simp: page_bytes_def)
qed simp

lemma free_pages_area:
  assumes "pm_inv s" and a: "a \<noteq> 0" "al2m a" and sz: "al2m sz" "sz \<noteq> 0"
    and hi: "unat a + unat sz \<le> unat (max_phy_addr s)" "a < max_phy_mem_addr s"
  shows "\<exists>m. free_phy_pages a sz s = Inr m \<and> pm_inv m \<and> max_phy_mem_addr m = max_phy_mem_addr s \<and>
    page_area m = page_area s \<union> span a sz"
proof -
  obtain i n where i: "unat a = i * 2 ^ 21" and n: "unat sz = n * 2 ^ 21"
    using a(2) sz(1) by (auto simp: al2m_dvd dvd_def mult.commute)
  have "0 < n" using n sz(2) by (cases n) (auto simp: unat_eq_0)
  with free_phy_pages_run [OF assms(1) a(1) i n _ hi] obtain m where
    m: "free_phy_pages a sz s = Inr m" "pm_inv m" "pm_free m = pm_free s \<union> {i ..< i + n}" by auto
  have "{i * 2 ^ 21 ..< (i + n) * 2 ^ 21} = span a sz" using i n by (simp add: span_def distrib_right)
  with m(3) have "page_area m = page_area s \<union> span a sz" by (simp add: page_area_def page_bytes_range UN_Un)
  with m show ?thesis using free_phy_pages_keeps [OF m(1)] by blast
qed

text \<open>A state with other physical memory; what a release of a block must lead to.\<close>

abbreviation phys_of :: "boot_mem \<Rightarrow> phys" where "phys_of st \<equiv> physm (bpg st)"

definition set_phys :: "phys \<Rightarrow> boot_mem \<Rightarrow> boot_mem" where
  "set_phys p st = st\<lparr>bpg := (bpg st)\<lparr>physm := p\<rparr>\<rparr>"

lemma phys_of_set [simp]: "phys_of (set_phys p st) = p" "set_phys q (set_phys p st) = set_phys q st"
  by (simp_all add: set_phys_def)

lemma mem_small_frees:
  assumes inv: "phys_inv (phys_of st)" and room: "pfree (phy_page_holes (phys_of st)) \<noteq> None"
    and al: "al4k a" "al4k sz" and blk: "a \<noteq> 0" "sz \<noteq> 0" "unat a + unat sz < 2 ^ 64" "a + sz < max_mem st"
    and disj: "span a sz \<inter> phys_bytes (phys_of st) = {}"
  shows "\<exists>p. mem_small a sz st = Inr (set_phys p st) \<and> phys_inv p \<and> pmem p = pmem (phys_of st) \<and>
    hl_bytes (phy_page_holes p) = hl_bytes (phy_page_holes (phys_of st)) \<union> span a sz \<and>
    phys_bytes p = phys_bytes (phys_of st) \<union> span a sz"
proof -
  obtain hs fs where rep: "hl_rep MAX_PHY_PAGE_HOLE (phy_page_holes (phys_of st)) hs fs" "hl_sorted (phy_page_holes (phys_of st)) hs"
    using inv by (rule phys_invE)
  have "fs \<noteq> []" using hl_repD(2) [OF rep(1)] room by auto
  moreover have "\<not> spin_page (phys_of st)" "hl_al (phy_page_holes (phys_of st))"
    "span a sz \<inter> hl_bytes (phy_page_holes (phys_of st)) = {}"
    using inv disj by (auto simp: phys_inv_def phys_bytes_def)
  ultimately obtain p where p: "free_phy_page_small a sz (phys_of st) = Inr p" "pmem p = pmem (phys_of st)"
    "hl_bytes (phy_page_holes p) = hl_bytes (phy_page_holes (phys_of st)) \<union> span a sz"
    using free_phy_page_small_run [OF rep _ al _ blk(2,3)] by auto
  have "mem_small a sz st = Inr (set_phys p st)"
    using blk(4) p(1) by (simp add: mem_small_def set_phys_def with_phys_def)
  then show ?thesis using p free_phy_page_small_release [OF inv blk(1-3) disj p(1)] by blast
qed

lemma mem_pages_frees:
  assumes "pm_inv (pmem (phys_of st))" "a \<noteq> 0" "al2m a" "al2m sz" "sz \<noteq> 0"
    and "unat a + unat sz \<le> unat (max_phy_addr (pmem (phys_of st)))" "a < max_mem st"
  shows "\<exists>p. mem_pages a sz st = Inr (set_phys p st) \<and> max_mem (set_phys p st) = max_mem st \<and> pm_inv (pmem p) \<and>
    phy_page_holes p = phy_page_holes (phys_of st) \<and> spin_page p = spin_page (phys_of st) \<and>
    page_area (pmem p) = page_area (pmem (phys_of st)) \<union> span a sz"
proof -
  obtain m where m: "free_phy_pages a sz (pmem (phys_of st)) = Inr m" "pm_inv m"
    "max_phy_mem_addr m = max_phy_mem_addr (pmem (phys_of st))" "page_area m = page_area (pmem (phys_of st)) \<union> span a sz"
    using free_pages_area [OF assms(1-6)] assms(7) by (auto simp: max_mem_def)
  have "mem_pages a sz st = Inr (set_phys ((phys_of st)\<lparr>pmem := m\<rparr>) st)"
    using m(1) by (simp add: mem_pages_def set_phys_def with_phys_def)
  then show ?thesis using m by (intro exI [of _ "(phys_of st)\<lparr>pmem := m\<rparr>"]) (simp add: max_mem_def)
qed

section \<open>The cases of on_mem\<close>

lemma on_mem_small:
  assumes "al4k a" "sz0 AND NOT 0xfff = sz" "sz \<noteq> 0" "sz < PAGE_SIZE_LARGE \<or> \<not> al2m a \<and> sz \<le> PAGE_SIZE_LARGE - (a AND (PAGE_SIZE_LARGE - 1))"
  shows "on_mem a sz0 st = Some (mem_small a sz st)"
  using assms by (subst on_mem.simps) (auto simp: al4k_def al2m_def Let_def)

lemma on_mem_pages:
  assumes "al4k a" "al2m a" "sz0 AND NOT 0xfff = sz" "PAGE_SIZE_LARGE \<le> sz"
    and "mem_pages a (sz div PAGE_SIZE_LARGE * PAGE_SIZE_LARGE) st = Inr st1"
  shows "on_mem a sz0 st =
    (if sz AND (PAGE_SIZE_LARGE - 1) = 0 then Some (Inr st1)
     else Some (mem_small (a + sz div PAGE_SIZE_LARGE * PAGE_SIZE_LARGE) (sz AND (PAGE_SIZE_LARGE - 1)) st1))"
proof -
  have "sz \<noteq> 0" "\<not> sz < PAGE_SIZE_LARGE" using assms(4) by auto
  then show ?thesis using assms by (subst on_mem.simps) (simp add: al4k_def al2m_def Let_def)
qed

lemma on_mem_inside:
  assumes "al4k a" "\<not> al2m a" "sz0 AND NOT 0xfff = sz" "PAGE_SIZE_LARGE \<le> sz"
    and "lowsize = PAGE_SIZE_LARGE - (a AND (PAGE_SIZE_LARGE - 1))" "lowsize < sz"
  shows "on_mem a sz0 st = (case mem_small a (sz - lowsize) st of
      Inl e \<Rightarrow> Some (Inl e) | Inr st \<Rightarrow> on_mem (a + lowsize) (sz - lowsize) st)"
proof -
  have "sz \<noteq> 0" "\<not> sz < PAGE_SIZE_LARGE" "\<not> sz \<le> lowsize" using assms(4,6) by auto
  then show ?thesis
    using assms(1-4) unfolding assms(5) by (subst on_mem.simps) (simp add: al4k_def al2m_def Let_def split: sum.split)
qed

text \<open>A size rounded down to 4K, and its parts at 2M.\<close>

lemma al2m_al4k: "al2m a \<Longrightarrow> al4k a"
  by (auto simp: al2m_dvd al4k_dvd elim: dvd_trans [rotated])

lemma al4k_rounded: "al4k (sz AND NOT 0xfff)"
  by (simp add: al4k_dvd mask_4k dvd_minus_mod)

lemma al4k_round_id: "al4k sz \<Longrightarrow> sz AND NOT 0xfff = sz"
  by (rule word_unat_eq_iff [THEN iffD2]) (simp add: al4k_dvd mask_4k dvd_eq_mod_eq_0)

lemma al2m_times: "al2m sz \<Longrightarrow> sz div PAGE_SIZE_LARGE * PAGE_SIZE_LARGE = sz \<and> sz AND (PAGE_SIZE_LARGE - 1) = 0"
proof -
  assume "al2m sz"
  then have d: "0x200000 dvd unat sz" "sz AND (PAGE_SIZE_LARGE - 1) = 0" by (simp add: al2m_dvd, simp add: al2m_def)
  have "unat sz div 0x200000 < 2 ^ 64" using ulong_lt_2p64 [of sz] by (rule order_le_less_trans [OF div_le_dividend])
  with d show ?thesis using ulong_lt_2p64 [of sz] by (simp add: word_unat_eq_iff unat_word_ariths unat_div)
qed

lemma span_mono: "unat n \<le> unat m \<Longrightarrow> span a n \<subseteq> span a m"
  by (auto simp: span_def)

lemma split_2m:
  fixes sz :: ulong
  assumes "al4k sz" "PAGE_SIZE_LARGE \<le> sz"
  defines "q \<equiv> sz div PAGE_SIZE_LARGE * PAGE_SIZE_LARGE" and "r \<equiv> sz AND (PAGE_SIZE_LARGE - 1)"
  shows "unat q + unat r = unat sz" "al2m q" "q \<noteq> 0" "al4k r" "unat q \<le> unat sz"
proof -
  have q: "unat q = unat sz div 2 ^ 21 * 2 ^ 21"
    using ulong_lt_2p64 [of sz] div_times_less_eq_dividend [of "unat sz" "2 ^ 21"]
    by (simp add: q_def unat_word_ariths unat_div)
  have r: "unat r = unat sz mod 2 ^ 21" by (simp add: r_def mask_2m)
  show "unat q + unat r = unat sz" by (simp add: q r)
  then show "unat q \<le> unat sz" by simp
  show "al2m q" by (simp add: al2m_dvd q)
  have "2 ^ 21 \<le> unat sz" using assms(2) by (simp add: word_le_nat_alt)
  then have "unat q \<noteq> 0" by (simp add: q)
  then show "q \<noteq> 0" by auto
  show "al4k r" using assms(1) by (simp add: al4k_dvd r dvd_mod_iff)
qed

lemma on_mem_from_2m:
  assumes inv: "phys_inv (phys_of st)" and room: "pfree (phy_page_holes (phys_of st)) \<noteq> None"
    and a: "a \<noteq> 0" "al2m a" "al4k a" and sz: "sz0 AND NOT 0xfff = sz" "PAGE_SIZE_LARGE \<le> sz"
    and hi: "unat a + unat sz < unat (max_mem st)" "max_mem st \<le> max_phy_addr (pmem (phys_of st))"
    and disj: "span a sz \<inter> phys_bytes (phys_of st) = {}"
  shows "\<exists>p. on_mem a sz0 st = Some (Inr (set_phys p st)) \<and> phys_inv p \<and>
    phys_bytes p = phys_bytes (phys_of st) \<union> span a sz"
proof -
  let ?q = "sz div PAGE_SIZE_LARGE * PAGE_SIZE_LARGE" and ?r = "sz AND (PAGE_SIZE_LARGE - 1)"
  have q: "unat ?q + unat ?r = unat sz" "al2m ?q" "?q \<noteq> 0" "al4k ?r" "unat ?q \<le> unat sz"
    using split_2m [OF _ sz(2)] al4k_rounded [of sz0] sz(1) by simp_all
  have big: "unat a + unat sz < 2 ^ 64" using hi(1) ulong_lt_2p64 [of "max_mem st"] by simp
  then have aq: "unat (a + ?q) = unat a + unat ?q" using q(5) by (intro unat_add_no_wrap) simp
  have sp: "span a sz = span a ?q \<union> span (a + ?q) ?r" using aq q(1) by (auto simp: span_def)
  have "unat a + unat ?q \<le> unat (max_phy_addr (pmem (phys_of st)))" "a < max_mem st" "pm_inv (pmem (phys_of st))"
    using hi q(5) inv by (simp_all add: word_le_nat_alt word_less_nat_alt phys_inv_def)
  with mem_pages_frees [OF _ a(1,2) q(2,3)] obtain p where p: "mem_pages a ?q st = Inr (set_phys p st)"
    "max_mem (set_phys p st) = max_mem st" "phy_page_holes p = phy_page_holes (phys_of st)"
    "page_area (pmem p) = page_area (pmem (phys_of st)) \<union> span a ?q" "pm_inv (pmem p)" "spin_page p = spin_page (phys_of st)"
    by blast
  have pinv: "phys_inv p" using inv disj sp unfolding phys_inv_def phys_bytes_def p(3-4,6) using p(5) by blast
  have bytes: "phys_bytes p = phys_bytes (phys_of st) \<union> span a ?q" by (auto simp: phys_bytes_def p(3,4))
  note run = on_mem_pages [OF a(3,2) sz p(1)]
  show ?thesis
  proof (cases "?r = 0")
    case True
    then show ?thesis using run pinv bytes sp by auto
  next
    case False
    have "unat (a + ?q + ?r) = unat a + unat sz"
      using unat_add_no_wrap [of "a + ?q" ?r] aq q(1) big by simp
    moreover have "span (a + ?q) ?r \<inter> phys_bytes p = {}" using disj sp aq by (auto simp: bytes span_def)
    moreover have "a + ?q \<noteq> 0" "al4k (a + ?q)" using a(1,3) aq al2m_al4k [OF q(2)] by (auto simp: unat_eq_0)
    ultimately obtain p' where p': "mem_small (a + ?q) ?r (set_phys p st) = Inr (set_phys p' st)" "phys_inv p'"
      "phys_bytes p' = phys_bytes p \<union> span (a + ?q) ?r"
      using mem_small_frees [of "set_phys p st" "a + ?q" ?r] pinv p(2,3) room q(1,4) False aq big hi(1)
      by (auto simp: word_less_nat_alt)
    then show ?thesis using run False bytes sp by auto
  qed
qed

lemma up_to_2m:
  assumes "al4k a" "\<not> al2m a" "unat low = 2 ^ 21 - unat a mod 2 ^ 21"
  shows "low = PAGE_SIZE_LARGE - (a AND (PAGE_SIZE_LARGE - 1))" and "unat low < 2 ^ 21" and "al4k low"
    and "unat a + unat low < 2 ^ 64 \<Longrightarrow> al2m (a + low) \<and> a + low \<noteq> 0"
proof -
  have m: "0 < unat a mod 2 ^ 21" "unat a mod 2 ^ 21 < 2 ^ 21" using assms(2) by (auto simp: al2m_dvd dvd_eq_mod_eq_0)
  then show "unat low < 2 ^ 21" using assms(3) by simp
  have "unat (a AND (PAGE_SIZE_LARGE - 1)) = unat a mod 2 ^ 21" by (simp add: mask_2m)
  then show low: "low = PAGE_SIZE_LARGE - (a AND (PAGE_SIZE_LARGE - 1))"
    using assms(3) m unat_sub_no_wrap [of "a AND (PAGE_SIZE_LARGE - 1)" PAGE_SIZE_LARGE]
    by (intro word_unat_eq_iff [THEN iffD2]) (simp add: word_le_nat_alt)
  have "al4k (a AND (PAGE_SIZE_LARGE - 1))" using assms(1) by (simp add: al4k_dvd mask_2m dvd_mod_iff)
  moreover have "al4k PAGE_SIZE_LARGE" by (simp add: al4k_dvd)
  ultimately show "al4k low" unfolding low by (rule aligned_diff [rotated])
  assume "unat a + unat low < 2 ^ 64"
  then have "unat (a + low) = (unat a div 2 ^ 21 + 1) * 2 ^ 21"
    using unat_add_no_wrap [of a low] assms(3) m mod_less_eq_dividend [of "unat a" "2 ^ 21"]
    by (simp add: distrib_right minus_mod_eq_div_mult [symmetric] add.commute [of "unat a"])
  then show "al2m (a + low) \<and> a + low \<noteq> 0" by (simp only: al2m_dvd) auto
qed

section \<open>Properties\<close>

text \<open>
  C12: \<open>on_mem\<close> on a 4K-aligned piece below the highest memory that begins on a 2M page, or is smaller than one, or ends in the 2M page it begins in,
  with memory that no allocator holds and room for one more hole: it ends without error, keeps the invariant of physical memory, and
  adds to the free memory exactly the piece, its size rounded down to 4K.
\<close>

theorem on_mem_correct:
  assumes "phys_inv (phys_of st)" "pfree (phy_page_holes (phys_of st)) \<noteq> None" and "a \<noteq> 0" "al4k a"
    and "al2m a \<or> sz < PAGE_SIZE_LARGE \<or> sz AND NOT 0xfff \<le> PAGE_SIZE_LARGE - (a AND (PAGE_SIZE_LARGE - 1))"
    and "unat a + unat sz < unat (max_mem st)" "max_mem st \<le> max_phy_addr (pmem (phys_of st))"
    and "span a sz \<inter> phys_bytes (phys_of st) = {}"
  shows "\<exists>p. on_mem a sz st = Some (Inr (set_phys p st)) \<and> phys_inv p \<and>
    phys_bytes p = phys_bytes (phys_of st) \<union> span a (sz AND NOT 0xfff)"
proof -
  let ?s = "sz AND NOT 0xfff"
  have s: "unat ?s \<le> unat sz" "al4k ?s" by (simp add: mask_4k, rule al4k_rounded)
  then have disj: "span a ?s \<inter> phys_bytes (phys_of st) = {}" and hi: "unat a + unat ?s < unat (max_mem st)"
    using assms(6,8) span_mono [OF s(1), of a] by auto
  consider (none) "?s = 0" | (pages) "?s \<noteq> 0" "al2m a" "PAGE_SIZE_LARGE \<le> ?s"
    | (small) "?s \<noteq> 0" "?s < PAGE_SIZE_LARGE \<or> \<not> al2m a \<and> ?s \<le> PAGE_SIZE_LARGE - (a AND (PAGE_SIZE_LARGE - 1))"
    using assms(5) s(1) by (fastforce simp: word_le_nat_alt word_less_nat_alt)
  then show ?thesis
  proof cases
    case none
    then show ?thesis using assms(1,4) by (intro exI [of _ "phys_of st"]) (simp add: on_mem.simps al4k_def set_phys_def)
  next
    case pages
    then show ?thesis using on_mem_from_2m [OF assms(1,2,3) _ assms(4) refl _ hi assms(7) disj] by blast
  next
    case small
    have big: "unat a + unat ?s < 2 ^ 64" using hi ulong_lt_2p64 [of "max_mem st"] by simp
    then have "a + ?s < max_mem st" using hi unat_add_no_wrap [OF big] by (simp add: word_less_nat_alt)
    from mem_small_frees [OF assms(1,2,4) s(2) assms(3) small(1) big this disj] show ?thesis
      using on_mem_small [OF assms(4) refl small] by auto
  qed
qed

text \<open>
  C40: \<open>on_mem\<close> on a larger piece that begins inside a 2M page and ends at the end of one frees memory twice: of the bytes up to the first 2M
  page it frees not these but as many as follow it (\<open>size\<close> instead of \<open>lowsize\<close>), so that everything from the first 2M page up to that length
  is afterwards owned by the 4K allocator and by the 2M allocator. The run ends without an error.
\<close>

theorem on_mem_frees_twice:
  assumes "phys_inv (phys_of st)" "pfree (phy_page_holes (phys_of st)) \<noteq> None" and "a \<noteq> 0" "al4k a" "\<not> al2m a"
    and "unat low = 2 ^ 21 - unat a mod 2 ^ 21" "al2m rest" "PAGE_SIZE_LARGE \<le> rest"
    and "unat a + unat low + unat rest < unat (max_mem st)" "max_mem st \<le> max_phy_addr (pmem (phys_of st))"
    and "span a (low + rest) \<inter> phys_bytes (phys_of st) = {}"
  shows "\<exists>p. on_mem a (low + rest) st = Some (Inr (set_phys p st)) \<and>
    unat a + unat low < unat a + unat rest \<and>
    {unat a + unat low ..< unat a + unat rest} \<subseteq> hl_bytes (phy_page_holes p) \<inter> page_area (pmem p)"
proof -
  have big: "unat a + unat low + unat rest < 2 ^ 64" using assms(9) ulong_lt_2p64 [of "max_mem st"] by simp
  then have lo: "low = PAGE_SIZE_LARGE - (a AND (PAGE_SIZE_LARGE - 1))" "unat low < 2 ^ 21" "al4k low"
      "al2m (a + low)" "a + low \<noteq> 0"
    using up_to_2m [OF assms(4-6)] by auto
  have u: "unat (low + rest) = unat low + unat rest" "unat (a + low) = unat a + unat low"
    using big by (auto intro: unat_add_no_wrap)
  have lt: "unat low < unat rest" "rest \<noteq> 0" using assms(8) lo(2) by (auto simp: word_le_nat_alt)
  have sz: "(low + rest) AND NOT 0xfff = low + rest"
    using lo(3) al2m_al4k [OF assms(7)] by (intro al4k_round_id aligned_add)
  have "span a rest \<inter> phys_bytes (phys_of st) = {}" using assms(11) span_mono [of rest "low + rest" a] u by auto
  moreover have "a + rest < max_mem st"
    using assms(9) unat_add_no_wrap [of a rest] big by (simp add: word_less_nat_alt)
  ultimately obtain p1 where p1: "mem_small a rest st = Inr (set_phys p1 st)" "pmem p1 = pmem (phys_of st)"
    "hl_bytes (phy_page_holes p1) = hl_bytes (phy_page_holes (phys_of st)) \<union> span a rest"
    using mem_small_frees [OF assms(1,2,4) al2m_al4k [OF assms(7)] assms(3) lt(2)] big by auto
  have "unat (a + low) + unat rest \<le> unat (max_phy_addr (pmem (phys_of st)))" "a + low < max_mem st"
    using assms(9,10) by (simp_all add: u word_le_nat_alt word_less_nat_alt)
  then obtain p where p: "mem_pages (a + low) rest (set_phys p1 st) = Inr (set_phys p st)"
    "phy_page_holes p = phy_page_holes p1" "page_area (pmem p) = page_area (pmem p1) \<union> span (a + low) rest"
    using mem_pages_frees [of "set_phys p1 st", OF _ lo(5,4) assms(7) lt(2)] p1(2) assms(1)
    by (auto simp: max_mem_def phys_inv_def)
  have "on_mem (a + low) rest (set_phys p1 st) = Some (Inr (set_phys p st))"
    using on_mem_pages [OF al2m_al4k [OF lo(4)] lo(4) al4k_round_id [OF al2m_al4k [OF assms(7)]] assms(8), of "set_phys p1 st"]
      al2m_times [OF assms(7)] p(1) by simp
  then have "on_mem a (low + rest) st = Some (Inr (set_phys p st))"
    using on_mem_inside [OF assms(4,5) sz _ lo(1), of st] lt u assms(8) p1(1) by (simp add: word_le_nat_alt word_less_nat_alt)
  moreover have "{unat a + unat low ..< unat a + unat rest} \<subseteq> span a rest \<inter> span (a + low) rest"
    by (auto simp: span_def u)
  ultimately show ?thesis using lt p(2,3) p1(3) by (intro exI [of _ p]) auto
qed

text \<open>The machine with 256M on which the second 2M page is free; the heap and the tables are not looked at.\<close>

definition boot_example :: boot_mem where
  "boot_example = \<lparr>bpg = \<lparr>physm = one_page_phys, pml4_pa = 0, mem = (\<lambda>_ _. 0), tlb_flushed = []\<rparr>,
     bheap = init_kheap (\<lambda>_. \<lparr>h_addr = 0, h_size = 0, pnext = None, h_origin_size = 0\<rparr>)
       (\<lambda>_. \<lparr>h_addr = 0, h_size = 0, pnext = None, h_origin_size = 0\<rparr>) one_page_mem,
     io_remap_pages = [], revmem = [], max_reserve_addr = 0,
     kernel_start = KERNEL_BASE + 0x100000, kernel_end = KERNEL_BASE + 0x200000\<rparr>"

lemma boot_example_phys:
  "phys_of boot_example = one_page_phys" "max_mem boot_example = max_phy_mem_addr one_page_mem"
  "pmem one_page_phys = one_page_mem"
  by (simp_all add: boot_example_def max_mem_def one_page_phys_def init_phy_page_def)

lemma boot_example_free: "phys_bytes one_page_phys = {0x200000 ..< 0x400000}"
  by (simp add: phys_bytes_def page_area_def page_bytes_def)

lemma boot_example_limits: "max_phy_mem_addr one_page_mem = 0x10000000" "max_phy_addr one_page_mem = 0x10000000"
  by (simp_all add: one_page_mem_def init_phy_mem_def Let_def)

lemmas boot_example_facts = boot_example_phys boot_example_free boot_example_limits one_page_phys_inv

theorem on_mem_correct_witness:
  "\<exists>p. on_mem 0x400000 0x203456 boot_example = Some (Inr (set_phys p boot_example)) \<and> phys_inv p \<and>
    phys_bytes p = {0x200000 ..< 0x603000}"
proof -
  have "{0x200000 ..< 0x603000} = {0x200000 ..< 0x400000} \<union> span 0x400000 (0x203456 AND NOT 0xfff)"
    by (auto simp: span_def)
  then show ?thesis
    using on_mem_correct [of boot_example "0x400000" "0x203456"] by (simp add: boot_example_facts al4k_dvd al2m_dvd span_def)
qed

theorem on_mem_frees_twice_witness:
  "\<exists>p. on_mem 0x500000 0x500000 boot_example = Some (Inr (set_phys p boot_example)) \<and>
    {0x600000 ..< 0x900000} \<subseteq> hl_bytes (phy_page_holes p) \<inter> page_area (pmem p)"
  using on_mem_frees_twice [of boot_example "0x500000" "0x100000" "0x400000"]
  by (auto simp: boot_example_facts al4k_dvd al2m_dvd span_def)

end
