(* ===== verification/Boot_Regions.thy ===== *)
theory Boot_Regions
  imports Boot_Free
begin

text \<open>
  What the cutting of \<open>arch/x86_64/multiboot.c\<close> comes to: \<open>deal_reserve\<close> hands to the allocators exactly the part of a
  range that no reserved range covers, in increasing pieces, and \<open>init_e820\<close> does so for every entry of the memory map.
\<close>

section \<open>The calls leave the reserved ranges alone\<close>

definition reserves :: "boot_mem \<Rightarrow> (ulong \<times> ulong) list \<times> ulong" where
  "reserves st = (revmem st, max_reserve_addr st)"

lemma reserves_upd [simp]:
  "reserves (st\<lparr>bpg := g\<rparr>) = reserves st" "reserves (st\<lparr>bheap := h\<rparr>) = reserves st"
  "reserves (st\<lparr>io_remap_pages := ps\<rparr>) = reserves st"
  by (simp_all add: reserves_def)

lemma with_keeps:
  "with_phys f st = Inr st' \<Longrightarrow> reserves st' = reserves st" "with_heap k st = Inr st' \<Longrightarrow> reserves st' = reserves st"
  by (auto simp: with_phys_def with_heap_def set_heap_def andThen_def split: sum.splits)

lemma add_map_keeps: "add_map pg st = Inr st' \<Longrightarrow> reserves st' = reserves st"
  by (auto simp: add_map_def Let_def panic_def split: if_splits)

lemma mem_keeps:
  "mem_small a sz st = Inr st' \<Longrightarrow> reserves st' = reserves st" "mem_pages a sz st = Inr st' \<Longrightarrow> reserves st' = reserves st"
  by (auto simp: mem_small_def mem_pages_def dest: with_keeps split: if_splits)

lemma mem_unaligned_keeps: "mem_unaligned a sz n st = Inr st' \<Longrightarrow> reserves st' = reserves st"
  by (auto simp: mem_unaligned_def andThen_def dest!: with_keeps split: if_splits sum.splits)

lemma iomem_loop_keeps: "iomem_loop a sz st = Some r \<Longrightarrow> \<forall>st'. r = Inr st' \<longrightarrow> reserves st' = reserves st"
  by (rule iomem_loop.raw_induct [where P = "\<lambda>a sz st r. \<forall>st'. r = Inr st' \<longrightarrow> reserves st' = reserves st"])
    (auto split: if_splits sum.splits dest: add_map_keeps)

lemma on_iomem_keeps: "on_iomem a sz st = Some r \<Longrightarrow> \<forall>st'. r = Inr st' \<longrightarrow> reserves st' = reserves st"
  by (rule on_iomem.raw_induct [where P = "\<lambda>a sz st r. \<forall>st'. r = Inr st' \<longrightarrow> reserves st' = reserves st"])
    (auto simp: Let_def split: if_splits sum.splits dest: add_map_keeps iomem_loop_keeps)

lemma on_mem_keeps: "on_mem a sz st = Some r \<Longrightarrow> \<forall>st'. r = Inr st' \<longrightarrow> reserves st' = reserves st"
  by (rule on_mem.raw_induct [where P = "\<lambda>a sz st r. \<forall>st'. r = Inr st' \<longrightarrow> reserves st' = reserves st"])
    (auto simp: Let_def split: if_splits sum.splits dest!: mem_keeps mem_unaligned_keeps)

lemma on_range_keeps: "on_range b a sz st = Some (Inr st') \<Longrightarrow> reserves st' = reserves st"
  by (auto simp: on_range_def split: if_splits dest: on_mem_keeps on_iomem_keeps)

section \<open>Cutting a range around the reserved ones\<close>

text \<open>The pieces in their order, each given to \<open>on_mem\<close> or \<open>on_iomem\<close>.\<close>

primrec visits :: "bool \<Rightarrow> (ulong \<times> ulong) list \<Rightarrow> boot_mem \<Rightarrow> boot_mem outcome option" where
  "visits b [] st = Some (Inr st)"
| "visits b (p # ps) st = Option.bind (on_range b (fst p) (snd p) st) (\<lambda>r.
     case r of Inl e \<Rightarrow> Some (Inl e) | Inr st \<Rightarrow> visits b ps st)"

lemma visits_keeps: "visits b ps st = Some (Inr st') \<Longrightarrow> reserves st' = reserves st"
proof (induction ps arbitrary: st)
  case (Cons p ps)
  then obtain s1 where "on_range b (fst p) (snd p) st = Some (Inr s1)" "visits b ps s1 = Some (Inr st')"
    by (auto simp: bind_eq_Some_conv split: sum.splits) (metis sum.exhaust)
  then show ?case using Cons.IH on_range_keeps by metis
qed simp

lemma visits_one: "visits b [(a, sz)] st = on_range b a sz st"
  by (cases "on_range b a sz st") (auto split: sum.splits)

lemma visits_append:
  "visits b (ps @ qs) st = Option.bind (visits b ps st) (\<lambda>r. case r of Inl e \<Rightarrow> Some (Inl e) | Inr st \<Rightarrow> visits b qs st)"
proof (induction ps arbitrary: st)
  case (Cons p ps)
  show ?case
    by (cases "on_range b (fst p) (snd p) st") (auto simp: Cons split: sum.splits)
qed simp

text \<open>The reserved ranges do not wrap, and none ends above the mark.\<close>

definition reserves_ok :: "(ulong \<times> ulong) list \<times> ulong \<Rightarrow> bool" where
  "reserves_ok R \<longleftrightarrow> (\<forall>r \<in> set (fst R). unat (fst r) + unat (snd r) < 2 ^ 64 \<and> fst r + snd r \<le> snd R)"

text \<open>Pieces that are in increasing order, and together make up what lies in a range and outside a set.\<close>

definition cut_of :: "nat \<Rightarrow> nat \<Rightarrow> nat set \<Rightarrow> (ulong \<times> ulong) list \<Rightarrow> bool" where
  "cut_of lo hi R ps \<longleftrightarrow>
     sorted_wrt (\<lambda>p q. unat (fst p) + unat (snd p) \<le> unat (fst q)) ps \<and> blocks ps = {lo ..< hi} - R \<and>
     (\<forall>p \<in> set ps. lo \<le> unat (fst p) \<and> unat (fst p) + unat (snd p) \<le> hi)"

lemma cut_of_whole: "span a sz \<inter> R = {} \<Longrightarrow> cut_of (unat a) (unat a + unat sz) R [(a, sz)]"
  by (auto simp: cut_of_def span_def)

lemma cut_of_none: "{lo ..< hi} \<subseteq> R \<Longrightarrow> cut_of lo hi R []"
  by (auto simp: cut_of_def)

lemma cut_of_join:
  assumes "cut_of lo m R ps" "cut_of m' hi R qs" "{m ..< m'} \<subseteq> R" "lo \<le> m" "m \<le> m'" "m' \<le> hi"
  shows "cut_of lo hi R (ps @ qs)"
proof -
  have b: "blocks (ps @ qs) = blocks ps \<union> blocks qs" by (simp add: blocks_def)
  have "{lo ..< hi} = {lo ..< m} \<union> {m ..< m'} \<union> {m' ..< hi}" using assms(4-6) by auto
  then have "{lo ..< hi} - R = ({lo ..< m} - R) \<union> ({m' ..< hi} - R)" using assms(3) by blast
  then have "blocks (ps @ qs) = {lo ..< hi} - R" using assms(1,2) by (simp add: b cut_of_def)
  moreover have "unat (fst p) + unat (snd p) \<le> unat (fst q)" if "p \<in> set ps" "q \<in> set qs" for p q
    using assms(1,2,5) that by (meson cut_of_def order_trans)
  ultimately show ?thesis
    using assms(1,2,4-6) unfolding cut_of_def sorted_wrt_append by (auto intro: order_trans)
qed

lemma cut_of_skip: "cut_of m hi R ps \<Longrightarrow> {lo ..< m} \<subseteq> R \<Longrightarrow> lo \<le> m \<Longrightarrow> m \<le> hi \<Longrightarrow> cut_of lo hi R ps"
  using cut_of_join [of lo lo R "[]" m hi ps] cut_of_none [of lo lo R] by simp

lemma cut_of_drop: "cut_of lo m R ps \<Longrightarrow> {m ..< hi} \<subseteq> R \<Longrightarrow> lo \<le> m \<Longrightarrow> m \<le> hi \<Longrightarrow> cut_of lo hi R ps"
  using cut_of_join [of lo m R ps hi hi "[]"] cut_of_none [of hi hi R] by simp

lemma not_meets_apart:
  assumes "unat a + unat sz < 2 ^ 64" "unat (fst r) + unat (snd r) < 2 ^ 64" "\<not> meets a sz r"
  shows "span a sz \<inter> span (fst r) (snd r) = {}"
  using assms by (auto simp: meets_def span_def word_le_nat_alt unat_add_no_wrap)

lemma above_mark_apart:
  assumes "reserves_ok R" "snd R < a"
  shows "span a sz \<inter> blocks (fst R) = {}"
proof -
  { fix r assume "r \<in> set (fst R)"
    then have "unat (fst r) + unat (snd r) < 2 ^ 64" "fst r + snd r < a"
      using assms by (auto simp: reserves_ok_def)
    then have "span a sz \<inter> span (fst r) (snd r) = {}"
      by (auto simp: span_def word_less_nat_alt unat_add_no_wrap) }
  then show ?thesis by (auto simp: blocks_def)
qed

text \<open>\<open>deal_reserve\<close> on a range is the visit of pieces that cut it.\<close>

definition dealt :: "bool \<Rightarrow> (ulong \<times> ulong) list \<times> ulong \<Rightarrow> ulong \<Rightarrow> ulong \<Rightarrow> (ulong \<times> ulong) list \<Rightarrow> bool" where
  "dealt b R a sz ps \<longleftrightarrow> cut_of (unat a) (unat a + unat sz) (blocks (fst R)) ps \<and>
     (\<forall>st. reserves st = R \<longrightarrow> deal_reserve a sz b st = visits b ps st)"

lemma dealtI:
  "cut_of (unat a) (unat a + unat sz) (blocks (fst R)) ps \<Longrightarrow>
    (\<And>st. reserves st = R \<Longrightarrow> deal_reserve a sz b st = visits b ps st) \<Longrightarrow> dealt b R a sz ps"
  by (simp add: dealt_def)

lemma reserves_fields: "reserves st = R \<Longrightarrow> revmem st = fst R \<and> max_reserve_addr st = snd R"
  by (auto simp: reserves_def)

lemma dealt_free:
  assumes "reserves_ok R" "unat a + unat sz < 2 ^ 64" "snd R < a \<or> find (meets a sz) (fst R) = None"
  shows "dealt b R a sz [(a, sz)]"
proof (rule dealtI)
  have "span a sz \<inter> blocks (fst R) = {}"
    using above_mark_apart [OF assms(1), of a sz] not_meets_apart [OF assms(2)] assms(1,3)
    by (fastforce simp: find_None_iff blocks_def reserves_ok_def)
  then show "cut_of (unat a) (unat a + unat sz) (blocks (fst R)) [(a, sz)]" by (rule cut_of_whole)
qed (use assms(3) reserves_fields in \<open>fastforce simp: deal_reserve.simps [of a sz] visits_one simp del: visits.simps\<close>)

lemma deal_reserve_met:
  assumes "\<not> snd R < a" "find (meets a sz) (fst R) = Some (s, n)" "reserves st = R"
  shows "deal_reserve a sz b st =
    (if s \<le> a \<and> a + sz \<le> s + n then Some (Inr st)
     else if s \<le> a then deal_reserve (s + n) (a + sz - (s + n)) b st
     else Option.bind (deal_reserve a (s - a) b st) (\<lambda>r. case r of Inl e \<Rightarrow> Some (Inl e)
       | Inr st \<Rightarrow> if s + n < a + sz then deal_reserve (s + n) (a + sz - (s + n)) b st else Some (Inr st)))"
  unfolding deal_reserve.simps [of a sz] Let_def add.commute [of sz a]
  using assms(1,2) reserves_fields [OF assms(3)] by auto

text \<open>The two ways in which a reserved range meets the block: from its start on, or after some free bytes.\<close>

lemma dealt_from_start:
  assumes met: "\<not> snd R < a" "find (meets a sz) (fst R) = Some (s, n)" and sa: "s \<le> a"
    and u: "unat (s + n) = unat s + unat n" "unat (a + sz) = unat a + unat sz" "unat a < unat s + unat n"
    and cover: "{unat s ..< unat s + unat n} \<subseteq> blocks (fst R)"
    and rest: "s + n < a + sz \<Longrightarrow> \<exists>ps. dealt b R (s + n) (a + sz - (s + n)) ps"
  shows "\<exists>ps. dealt b R a sz ps"
proof (cases "s + n < a + sz")
  case True
  then have w: "unat (a + sz - (s + n)) = unat a + unat sz - (unat s + unat n)" "unat s + unat n < unat a + unat sz"
    using unat_sub_no_wrap [of "s + n" "a + sz"] by (simp_all add: u word_less_nat_alt word_le_nat_alt)
  obtain ps where ps: "dealt b R (s + n) (a + sz - (s + n)) ps" using rest True by blast
  have "{unat a ..< unat (s + n)} \<subseteq> blocks (fst R)" using sa cover by (auto simp: word_le_nat_alt u)
  then have "cut_of (unat a) (unat a + unat sz) (blocks (fst R)) ps"
    using ps w u(3) by - (rule cut_of_skip [of "unat (s + n)"], simp_all add: dealt_def u(1))
  with ps True sa have "dealt b R a sz ps" by (auto simp: dealt_def deal_reserve_met [OF met])
  then show ?thesis ..
next
  case False
  then have "{unat a ..< unat a + unat sz} \<subseteq> blocks (fst R)"
    using sa cover by (auto simp: word_le_nat_alt word_less_nat_alt u)
  with False sa have "dealt b R a sz []" by (simp add: dealt_def cut_of_none deal_reserve_met [OF met] not_less)
  then show ?thesis ..
qed

lemma dealt_from_below:
  assumes met: "\<not> snd R < a" "find (meets a sz) (fst R) = Some (s, n)" and as: "a < s"
    and u: "unat (s + n) = unat s + unat n" "unat (a + sz) = unat a + unat sz" "unat s < unat a + unat sz"
    and cover: "{unat s ..< unat s + unat n} \<subseteq> blocks (fst R)"
    and low: "dealt b R a (s - a) ps"
    and rest: "s + n < a + sz \<Longrightarrow> \<exists>ps. dealt b R (s + n) (a + sz - (s + n)) ps"
  shows "\<exists>ps. dealt b R a sz ps"
proof -
  have below: "unat a < unat s" using as by (simp add: word_less_nat_alt)
  have "unat (s - a) = unat s - unat a" using as by (simp add: unat_sub_no_wrap)
  then have ps: "cut_of (unat a) (unat s) (blocks (fst R)) ps"
    "\<And>st. reserves st = R \<Longrightarrow> deal_reserve a (s - a) b st = visits b ps st"
    using low below by (simp_all add: dealt_def)
  show ?thesis
  proof (cases "s + n < a + sz")
    case True
    then have w: "unat (a + sz - (s + n)) = unat a + unat sz - (unat s + unat n)" "unat s + unat n < unat a + unat sz"
      using unat_sub_no_wrap [of "s + n" "a + sz"] by (simp_all add: u word_less_nat_alt word_le_nat_alt)
    obtain qs where qs: "dealt b R (s + n) (a + sz - (s + n)) qs" using rest True by blast
    have "dealt b R a sz (ps @ qs)"
    proof (rule dealtI)
      show "cut_of (unat a) (unat a + unat sz) (blocks (fst R)) (ps @ qs)"
        using qs w below cover u by - (rule cut_of_join [OF ps(1), of "unat (s + n)"], simp_all add: dealt_def)
    qed (use ps(2) qs as True in \<open>auto simp: deal_reserve_met [OF met] visits_append dealt_def
        split: Option.bind_split sum.splits dest: visits_keeps\<close>)
    then show ?thesis ..
  next
    case False
    then have "{unat s ..< unat a + unat sz} \<subseteq> blocks (fst R)" using cover by (auto simp: word_less_nat_alt u)
    with ps below u(3) have "cut_of (unat a) (unat a + unat sz) (blocks (fst R)) ps" by (auto intro: cut_of_drop)
    then have "dealt b R a sz ps"
      by (rule dealtI) (use ps(2) as False in \<open>auto simp: deal_reserve_met [OF met] split: Option.bind_split sum.splits\<close>)
    then show ?thesis ..
  qed
qed

lemma deal_reserve_dealt:
  assumes ok: "reserves_ok R" and "unat a + unat sz < 2 ^ 64"
  shows "\<exists>ps. dealt b R a sz ps"
  using assms(2)
proof (induction "unat sz" arbitrary: a sz rule: less_induct)
  case less
  show ?case
  proof (cases "snd R < a \<or> find (meets a sz) (fst R) = None")
    case True
    then show ?thesis using dealt_free [OF ok less.prems] by blast
  next
    case False
    then obtain s n where f: "find (meets a sz) (fst R) = Some (s, n)" and mark: "\<not> snd R < a" by auto
    then have r: "(s, n) \<in> set (fst R)" and mt: "meets a sz (s, n)" by (auto simp: find_Some_iff)
    have sn: "unat (s + n) = unat s + unat n" using r ok by (auto simp: reserves_ok_def intro!: unat_add_no_wrap)
    have asz: "unat (a + sz) = unat a + unat sz" using less.prems by (rule unat_add_no_wrap)
    have cover: "{unat s ..< unat s + unat n} \<subseteq> blocks (fst R)" using r by (force simp: blocks_def span_def)
    have lt: "unat a < unat s + unat n" "unat s < unat a + unat sz"
      using mt by (auto simp: meets_def word_le_nat_alt sn asz)
    have rest: "\<exists>ps. dealt b R (s + n) (a + sz - (s + n)) ps" if "s + n < a + sz"
    proof (rule less.hyps)
      have u: "unat (a + sz - (s + n)) = unat a + unat sz - (unat s + unat n)"
        using that by (simp add: unat_sub_no_wrap asz sn)
      show "unat (a + sz - (s + n)) < unat sz" "unat (s + n) + unat (a + sz - (s + n)) < 2 ^ 64"
        using u that lt less.prems by (auto simp: sn asz word_less_nat_alt)
    qed
    show ?thesis
    proof (cases "s \<le> a")
      case True
      then show ?thesis using dealt_from_start [OF mark f _ sn asz lt(1) cover] rest by blast
    next
      case sa: False
      then have "unat (s - a) = unat s - unat a" "unat a < unat s" by (simp_all add: unat_sub_no_wrap word_le_nat_alt)
      with lt(2) less.prems have "\<exists>ps. dealt b R a (s - a) ps" by (intro less.hyps) auto
      with sa show ?thesis using dealt_from_below [OF mark f _ sn asz lt(2) cover] rest by (meson not_le)
    qed
  qed
qed

section \<open>All entries of the memory map\<close>

text \<open>Ranges that go to \<open>on_mem\<close> and ranges that go to \<open>on_iomem\<close>, in the order of the calls.\<close>

primrec hand_out :: "(bool \<times> ulong \<times> ulong) list \<Rightarrow> boot_mem \<Rightarrow> boot_mem outcome option" where
  "hand_out [] st = Some (Inr st)"
| "hand_out (p # ps) st = Option.bind (on_range (fst p) (fst (snd p)) (snd (snd p)) st) (\<lambda>r.
     case r of Inl e \<Rightarrow> Some (Inl e) | Inr st \<Rightarrow> hand_out ps st)"

lemma hand_out_visits:
  "hand_out (map (Pair b) ps @ qs) st = Option.bind (visits b ps st) (\<lambda>r. case r of Inl e \<Rightarrow> Some (Inl e) | Inr st \<Rightarrow> hand_out qs st)"
proof (induction ps arbitrary: st)
  case (Cons p ps)
  show ?case by (cases "on_range b (fst p) (snd p) st") (auto simp: Cons split: sum.splits)
qed simp

text \<open>The entries from an address on, and that the map ends after them.\<close>

primrec map_entries :: "bytes \<Rightarrow> nat \<Rightarrow> ulong \<Rightarrow> memory_map list" where
  "map_entries m 0 p = []"
| "map_entries m (Suc n) p = mmap_at m p # map_entries m n (p + mm_size (mmap_at m p) + 4)"

primrec map_ends :: "bytes \<Rightarrow> ulong \<Rightarrow> nat \<Rightarrow> ulong \<Rightarrow> bool" where
  "map_ends m lim 0 p \<longleftrightarrow> \<not> p < lim"
| "map_ends m lim (Suc n) p \<longleftrightarrow> p < lim \<and> map_ends m lim n (p + mm_size (mmap_at m p) + 4)"

definition entry_ok :: "memory_map \<Rightarrow> bool" where
  "entry_ok e \<longleftrightarrow> unat (mm_addr e) + unat (mm_length e) < 2 ^ 64"

definition entry_bytes :: "bool \<Rightarrow> memory_map list \<Rightarrow> nat set" where
  "entry_bytes b es = (\<Union>e \<in> {e \<in> set es. (mm_type e = 1) = b}. span (mm_addr e) (mm_length e))"

definition range_bytes :: "bool \<Rightarrow> (bool \<times> ulong \<times> ulong) list \<Rightarrow> nat set" where
  "range_bytes b ps = blocks (map snd (filter (\<lambda>p. fst p = b) ps))"

lemma range_bytes_append: "range_bytes b (map (Pair c) ps @ qs) = (if b = c then blocks ps else {}) \<union> range_bytes b qs"
proof -
  have "filter (\<lambda>p. fst p = b) (map (Pair c) ps) = (if b = c then map (Pair c) ps else [])"
    by (auto simp: filter_map comp_def)
  then show ?thesis by (auto simp: range_bytes_def blocks_def)
qed

lemma entry_bytes_Cons:
  "entry_bytes b (e # es) = (if (mm_type e = 1) = b then span (mm_addr e) (mm_length e) else {}) \<union> entry_bytes b es"
  by (auto simp: entry_bytes_def)

lemma e820_loop_step:
  assumes "p < lim"
  shows "\<exists>mn. e820_loop m lim p minaddr st =
    Option.bind (deal_reserve (mm_addr (mmap_at m p)) (mm_length (mmap_at m p)) (mm_type (mmap_at m p) = 1) st) (\<lambda>r.
      case r of Inl f \<Rightarrow> Some (Inl f) | Inr st \<Rightarrow> e820_loop m lim (p + mm_size (mmap_at m p) + 4) mn st)"
  using assms by (subst e820_loop.simps) (auto simp: Let_def)

lemma e820_loop_hand_out:
  assumes ok: "reserves_ok R"
  shows "map_ends m lim n p \<Longrightarrow> list_all entry_ok (map_entries m n p) \<Longrightarrow>
    \<exists>ps. (\<forall>minaddr st. reserves st = R \<longrightarrow> e820_loop m lim p minaddr st = hand_out ps st) \<and>
      (\<forall>b. range_bytes b ps = entry_bytes b (map_entries m n p) - blocks (fst R))"
proof (induction n arbitrary: p)
  case 0
  then show ?case by (intro exI [of _ "[]"]) (simp add: e820_loop.simps range_bytes_def entry_bytes_def)
next
  case (Suc n)
  let ?e = "mmap_at m p" and ?p = "p + mm_size (mmap_at m p) + 4"
  let ?b = "mm_type ?e = 1"
  obtain qs where qs: "\<And>minaddr st. reserves st = R \<Longrightarrow> e820_loop m lim ?p minaddr st = hand_out qs st"
    "\<And>b. range_bytes b qs = entry_bytes b (map_entries m n ?p) - blocks (fst R)"
    using Suc.IH [of ?p] Suc.prems by auto
  obtain ps where ps: "dealt ?b R (mm_addr ?e) (mm_length ?e) ps"
    using deal_reserve_dealt [OF ok, of "mm_addr ?e" "mm_length ?e"] Suc.prems by (auto simp: entry_ok_def)
  have "e820_loop m lim p minaddr st = hand_out (map (Pair ?b) ps @ qs) st" if "reserves st = R" for minaddr st
  proof -
    have "e820_loop m lim ?p mn s = hand_out qs s" if "visits ?b ps st = Some (Inr s)" for mn s
      using visits_keeps [OF that] \<open>reserves st = R\<close> by (simp add: qs(1))
    with e820_loop_step [of p lim m minaddr st] Suc.prems ps that show ?thesis
      by (auto simp: hand_out_visits dealt_def split: Option.bind_split sum.splits)
  qed
  moreover have "range_bytes b (map (Pair ?b) ps @ qs) = entry_bytes b (map_entries m (Suc n) p) - blocks (fst R)" for b
    using ps by (auto simp: range_bytes_append entry_bytes_Cons qs(2) dealt_def cut_of_def span_def)
  ultimately show ?case by blast
qed

text \<open>The two ranges \<open>init_e820\<close> reserves: the first 64K and the kernel with its first heap.\<close>

lemma kernel_reserve:
  assumes "KERNEL_BASE + 0x10000 \<le> ks" "ks \<le> ke"
  shows "K2P ks + (ke - ks) = K2P ke" "0x10000 \<le> K2P ke" "unat (K2P ks) + unat (ke - ks) = unat (K2P ke)"
    "0x10000 < P2K (K2P ks) + (ke - ks)"
proof -
  have k: "unat KERNEL_BASE = 0xffffffff80000000" by (simp add: KERNEL_BASE_def)
  have "unat (KERNEL_BASE + 0x10000) = 0xffffffff80010000" by (simp add: KERNEL_BASE_def)
  then have le: "0xffffffff80010000 \<le> unat ks" "unat ks \<le> unat ke" using assms by (simp_all add: word_le_nat_alt)
  have u: "unat (K2P x) = unat x - 0xffffffff80000000" if "0xffffffff80010000 \<le> unat x" for x
    using that unat_sub_no_wrap [of KERNEL_BASE x] by (simp add: K2P_def k word_le_nat_alt)
  show "K2P ks + (ke - ks) = K2P ke" by (simp add: K2P_def)
  show "0x10000 \<le> K2P ke" using le u [of ke] by (simp add: word_le_nat_alt)
  show "unat (K2P ks) + unat (ke - ks) = unat (K2P ke)"
    using le u [of ks] u [of ke] unat_sub_no_wrap [OF assms(2)] by simp
  show "0x10000 < P2K (K2P ks) + (ke - ks)" using le by (simp add: P2K_def K2P_def word_less_nat_alt)
qed

lemma add_map_runs:
  assumes "length (io_remap_pages st) < MAX_IO_REMAPS"
  shows "\<exists>ps. add_map pg st = Inr (st\<lparr>io_remap_pages := ps\<rparr>)"
proof (cases "scast (ucast pg :: i32) \<in> set (io_remap_pages st)")
  case True
  then show ?thesis by (intro exI [of _ "io_remap_pages st"]) (simp add: add_map_def)
qed (use assms in \<open>auto simp: add_map_def\<close>)

lemma init_e820_reserves:
  assumes "revmem st = []" "max_reserve_addr st = 0" "length (io_remap_pages st) < MAX_IO_REMAPS"
    "KERNEL_BASE + 0x10000 \<le> kernel_start st" "kernel_start st \<le> kernel_end st"
  shows "\<exists>st1. init_e820 m p sz st = andThen (ending (e820_loop m (p + sz) p (- 1) st1)) (\<lambda>r. r) \<and>
    bpg st1 = bpg st \<and> bheap st1 = bheap st \<and>
    reserves st1 = ([(0, 0x10000), (K2P (kernel_start st), kernel_end st - kernel_start st)], K2P (kernel_end st))"
proof -
  let ?st = "st\<lparr>revmem := [(0, 0x10000), (K2P (kernel_start st), kernel_end st - kernel_start st)],
    max_reserve_addr := K2P (kernel_end st)\<rparr>"
  note k = kernel_reserve [OF assms(4,5)]
  obtain ps where ps: "add_map (0xFEC00000 div PAGE_SIZE_LARGE + 1) ?st = Inr (?st\<lparr>io_remap_pages := ps\<rparr>)"
    using add_map_runs [of ?st] assms(3) by auto
  have a1: "add_reserve 0 0x10000 st = Inr (st\<lparr>revmem := [(0, 0x10000)], max_reserve_addr := 0x10000\<rparr>)"
    using assms(1,2) by (simp add: add_reserve_def P2K_def KERNEL_BASE_def)
  have a2: "add_reserve (K2P (kernel_start st)) (kernel_end st - kernel_start st)
      (st\<lparr>revmem := [(0, 0x10000)], max_reserve_addr := 0x10000\<rparr>) = Inr ?st"
    using k by (simp add: add_reserve_def)
  have "init_e820 m p sz st =
      andThen (ending (e820_loop m (p + sz) p (- 1) (?st\<lparr>io_remap_pages := ps\<rparr>))) (\<lambda>r. r)"
    unfolding init_e820_def a1 using a2 ps by simp
  then show ?thesis by (intro exI [of _ "?st\<lparr>io_remap_pages := ps\<rparr>"]) (simp add: reserves_def)
qed

text \<open>
  C10: \<open>init_e820\<close>, on a memory map whose entries do not wrap and a kernel loaded above the first 64K, hands exactly
  the bytes of the entries of type 1 outside the first 64K and outside the kernel to \<open>on_mem\<close>, and exactly the bytes
  of the other entries outside these to \<open>on_iomem\<close>, whatever the order and the overlaps of entries and reserved ranges:
  the cutting and the loop end, and the page tables and the heap change by these calls only.
\<close>

theorem init_e820_hands_out:
  assumes "revmem st = []" "max_reserve_addr st = 0" "length (io_remap_pages st) < MAX_IO_REMAPS"
    and "KERNEL_BASE + 0x10000 \<le> kernel_start st" "kernel_start st \<le> kernel_end st"
    and "map_ends m (pe820 + sz) n pe820" "list_all entry_ok (map_entries m n pe820)"
  shows "\<exists>ps st1. init_e820 m pe820 sz st = andThen (ending (hand_out ps st1)) (\<lambda>r. r) \<and>
    bpg st1 = bpg st \<and> bheap st1 = bheap st \<and>
    (\<forall>b. range_bytes b ps = entry_bytes b (map_entries m n pe820) -
      ({0 ..< 0x10000} \<union> {unat (K2P (kernel_start st)) ..< unat (K2P (kernel_end st))}))"
proof -
  let ?R = "([(0, 0x10000), (K2P (kernel_start st), kernel_end st - kernel_start st)], K2P (kernel_end st))"
  note k = kernel_reserve [OF assms(4,5)]
  obtain st1 where st1: "init_e820 m pe820 sz st = andThen (ending (e820_loop m (pe820 + sz) pe820 (- 1) st1)) (\<lambda>r. r)"
    "bpg st1 = bpg st" "bheap st1 = bheap st" "reserves st1 = ?R"
    using init_e820_reserves [OF assms(1-5)] by blast
  have "reserves_ok ?R" using k ulong_lt_2p64 [of "K2P (kernel_end st)"] by (simp add: reserves_ok_def)
  from e820_loop_hand_out [OF this assms(6,7)] obtain ps where
    ps: "\<And>mn st. reserves st = ?R \<Longrightarrow> e820_loop m (pe820 + sz) pe820 mn st = hand_out ps st"
      "\<And>b. range_bytes b ps = entry_bytes b (map_entries m n pe820) - blocks (fst ?R)" by blast
  have "blocks (fst ?R) = {0 ..< 0x10000} \<union> {unat (K2P (kernel_start st)) ..< unat (K2P (kernel_end st))}"
    using k(3) by (simp add: span_def)
  with st1 ps show ?thesis by metis
qed

text \<open>A map of one entry: 636K of memory from address 0.\<close>

definition map_example :: bytes where
  "map_example = (\<lambda>_. CHR 0x00)(0x1000 := CHR 0x14, 0x100D := CHR 0xF0, 0x100E := CHR 0x09, 0x1014 := CHR 0x01)"

lemma map_example_entry:
  "mmap_at map_example 0x1000 = \<lparr>mm_size = 20, mm_addr = 0, mm_length = 0x9F000, mm_type = 1\<rparr>"
  by code_simp

theorem init_e820_hands_out_witness:
  "\<exists>ps st1. init_e820 map_example 0x1000 24 boot_example = andThen (ending (hand_out ps st1)) (\<lambda>r. r) \<and>
    range_bytes True ps = {0x10000 ..< 0x9F000} \<and> range_bytes False ps = {}"
proof -
  have k: "unat (K2P (kernel_start boot_example)) = 0x100000" "unat (K2P (kernel_end boot_example)) = 0x200000"
    by (simp_all add: boot_example_def K2P_def)
  have e: "entry_bytes b (map_entries map_example 1 0x1000) = (if b then {0 ..< 0x9F000} else {})" for b
    by (auto simp: map_example_entry entry_bytes_def span_def)
  have d: "{0 ..< 0x9F000} - ({0 ..< 0x10000} \<union> {0x100000 ..< 0x200000}) = {0x10000 ..< 0x9F000::nat}" by auto
  show ?thesis
    using init_e820_hands_out [of boot_example map_example "0x1000" 24 1] unfolding k e
    by (auto simp: boot_example_def KERNEL_BASE_def map_example_entry entry_ok_def d)
qed

end
