(* ===== verification/Udp_Ip.thy ===== *)
theory Udp_Ip
  imports C_String
begin

text \<open>
  Packets of UDP over IP, \<open>libs/net/ip.c\<close>, \<open>libs/net/udp.c\<close> and the headers \<open>include/net/inet/ip.h\<close>, \<open>include/net/inet6/ip.h\<close>,
  \<open>include/net/ether.h\<close>. A packet lies in a memory of bytes; the fields of the headers are at the offsets of the packed structures. What a
  receiver computes over the finished packet is the same checksum, which has to be 0.
\<close>

section \<open>Model\<close>

definition swab16 :: "u16 \<Rightarrow> u16" where
  "swab16 x = push_bit 8 (x AND 0x00ff) OR drop_bit 8 (x AND 0xff00)"

abbreviation (input) ntohs :: "u16 \<Rightarrow> u16" where "ntohs \<equiv> swab16"
abbreviation (input) htons :: "u16 \<Rightarrow> u16" where "htons \<equiv> swab16"

definition get16 :: "ulong \<Rightarrow> bytes \<Rightarrow> u16" where
  "get16 a m = of_char (m a) OR push_bit 8 (of_char (m (a + 1)))"

definition put16 :: "ulong \<Rightarrow> u16 \<Rightarrow> bytes \<Rightarrow> bytes" where
  "put16 a v m = m(a := char_of (uint (v AND 0xff)), a + 1 := char_of (uint (drop_bit 8 v)))"

text \<open>The loops of \<open>checksum\<close>.\<close>

function sum_words :: "bytes \<Rightarrow> u32 \<Rightarrow> ulong \<Rightarrow> ulong \<Rightarrow> u32" where
  "sum_words m cks addr count =
     (if count > 1 then sum_words m (cks + ucast (ntohs (get16 addr m))) (addr + 2) (count - 2)
      else if count > 0 then cks + ucast (ntohs (of_char (m addr)))
      else cks)"
  by pat_completeness auto
termination
proof (relation "measure (\<lambda>(m, cks, addr, count). unat count)")
  fix m :: bytes and cks :: u32 and addr count :: ulong
  assume "1 < count"
  then have "unat (count - 2) = unat count - 2" "1 < unat count"
    by (simp_all add: unat_sub word_less_nat_alt word_le_nat_alt)
  then show "((m, cks + ucast (ntohs (get16 addr m)), addr + 2, count - 2), (m, cks, addr, count))
      \<in> measure (\<lambda>(m, cks, addr, count). unat count)" by simp
qed simp

declare sum_words.simps [simp del]

lemma fold_step: "unat (((s :: u32) AND 0xffff) + drop_bit 16 s) = unat s mod 65536 + unat s div 65536"
proof -
  have "s AND 0xffff = take_bit 16 s" by (simp add: take_bit_eq_mask mask_eq_decr_exp)
  then have m: "unat (s AND 0xffff) = unat s mod 65536" by (simp add: take_bit_eq_mod unat_mod)
  have d: "unat (drop_bit 16 s) = unat s div 65536" by (simp add: drop_bit_eq_div unat_div)
  have "unat s < 4294967296" using unsigned_less [of s] by simp
  then have "unat s mod 65536 + unat s div 65536 < 4294967296"
    using div_mult_mod_eq [of "unat s" 65536] by linarith
  then show ?thesis using m d by (simp add: unat_word_ariths)
qed

function fold_sum :: "u32 \<Rightarrow> u32" where
  "fold_sum cks = (if drop_bit 16 cks \<noteq> 0 then fold_sum ((cks AND 0xffff) + drop_bit 16 cks) else cks)"
  by pat_completeness auto
termination
proof (relation "measure unat")
  fix cks :: u32
  assume "drop_bit 16 cks \<noteq> 0"
  then have "unat (drop_bit 16 cks) \<noteq> 0" by (simp only: unat_eq_0 not_False_eq_True)
  then have "unat cks div 65536 \<noteq> 0" by (simp add: drop_bit_eq_div unat_div)
  then have "unat cks mod 65536 + unat cks div 65536 < unat cks"
    using div_mult_mod_eq [of "unat cks" 65536] by linarith
  then show "((cks AND 0xffff) + drop_bit 16 cks, cks) \<in> measure unat" using fold_step [of cks] by simp
qed simp

declare fold_sum.simps [simp del]

definition checksum :: "u32 \<Rightarrow> ulong \<Rightarrow> ulong \<Rightarrow> bytes \<Rightarrow> u16" where
  "checksum ini addr count m = ucast (NOT (fold_sum (sum_words m ini addr count)))"

definition ip_hl :: "ulong \<Rightarrow> bytes \<Rightarrow> ulong" where
  "ip_hl iphdrp m = of_char (m iphdrp) AND 0xf"

definition ip_set_checksum :: "ulong \<Rightarrow> bytes \<Rightarrow> bytes" where
  "ip_set_checksum iphdrp m0 =
     (let m = put16 (iphdrp + 10) 0 m0 in
      put16 (iphdrp + 10) (htons (checksum 0 iphdrp (push_bit 2 (ip_hl iphdrp m)) m)) m)"

text \<open>The fields in front of the UDP header that its checksum covers.\<close>

definition pseudo_sum :: "ulong \<Rightarrow> ulong \<Rightarrow> bytes \<Rightarrow> u32" where
  "pseudo_sum iphdrp udplen m =
     ucast (ntohs (get16 (iphdrp + 12) m)) + ucast (ntohs (get16 (iphdrp + 14) m)) +
     ucast (ntohs (get16 (iphdrp + 16) m)) + ucast (ntohs (get16 (iphdrp + 18) m)) +
     (of_char (m (iphdrp + 9)) AND 0x00ff) + ucast udplen"

definition ip_set_udp_checksum :: "ulong \<Rightarrow> bytes \<Rightarrow> bytes" where
  "ip_set_udp_checksum iphdrp m0 =
     (let udphdrp = iphdrp + push_bit 2 (ip_hl iphdrp m0);
          m = put16 (udphdrp + 6) 0 m0;
          udplen = ucast (ntohs (get16 (iphdrp + 2) m)) - push_bit 2 (ip_hl iphdrp m) in
      put16 (udphdrp + 6) (htons (checksum (pseudo_sum iphdrp udplen m) udphdrp udplen m)) m)"

primrec add_words :: "nat \<Rightarrow> ulong \<Rightarrow> u32 \<Rightarrow> bytes \<Rightarrow> u32" where
  "add_words 0 p16 cksum m = cksum"
| "add_words (Suc n) p16 cksum m = add_words n (p16 + 2) (cksum + ucast (ntohs (get16 p16 m))) m"

definition pseudo_sum6 :: "ulong \<Rightarrow> ulong \<Rightarrow> bytes \<Rightarrow> u32" where
  "pseudo_sum6 iphdrp udplen m =
     add_words 16 (iphdrp + 8) 0 m + (of_char (m (iphdrp + 6)) AND 0x00ff) + ucast udplen"

definition ip_set_udp6_checksum :: "ulong \<Rightarrow> bytes \<Rightarrow> bytes" where
  "ip_set_udp6_checksum iphdrp m0 =
     (let udphdrp = iphdrp + 40;
          m = put16 (udphdrp + 6) 0 m0;
          udplen = ucast (ntohs (get16 (iphdrp + 4) m)) in
      put16 (udphdrp + 6) (htons (checksum (pseudo_sum6 iphdrp udplen m) udphdrp udplen m)) m)"

text \<open>A packet: 14 bytes for Ethernet, then the headers of IP and UDP, then the data.\<close>

definition udp_set_data :: "ulong \<Rightarrow> ulong \<Rightarrow> ulong \<Rightarrow> bytes \<Rightarrow> bytes" where
  "udp_set_data p dat len m =
     (let m = inline_memcpy (p + 42) dat len m;
          m = put16 (p + 38) (htons (ucast (len + 8))) m;
          m = put16 (p + 16) (htons (ucast (len + 8 + push_bit 2 (ip_hl (p + 14) m)))) m in
      ip_set_udp_checksum (p + 14) (ip_set_checksum (p + 14) m))"

definition udp6_set_data :: "ulong \<Rightarrow> ulong \<Rightarrow> ulong \<Rightarrow> bytes \<Rightarrow> bytes" where
  "udp6_set_data p dat len m =
     (let m = inline_memcpy (p + 62) dat len m;
          m = put16 (p + 58) (htons (ucast (len + 8))) m;
          m = put16 (p + 18) (get16 (p + 58) m) m in
      ip_set_udp6_checksum (p + 14) m)"

text \<open>The headers: the two halves of the first byte are set one after the other.\<close>

definition ip_init_hdr :: "ulong \<Rightarrow> ulong \<Rightarrow> ulong \<Rightarrow> char \<Rightarrow> bytes \<Rightarrow> bytes" where
  "ip_init_hdr p dip sip protocal m =
     (let m = m(p := CHR 0x45);
          m = m(p + 1 := CHR 0x00);
          m = put16 (p + 4) 0 m;
          m = put16 (p + 6) (htons 0x4000) m;
          m = m(p + 8 := CHR 0xff);
          m = m(p + 9 := protocal);
          m = put16 (p + 10) 0 m;
          m = copy_bytes (p + 12) sip 4 m in
      copy_bytes (p + 16) dip 4 m)"

definition ip6_init_hdr :: "ulong \<Rightarrow> ulong \<Rightarrow> ulong \<Rightarrow> char \<Rightarrow> bytes \<Rightarrow> bytes" where
  "ip6_init_hdr p dip sip protocal m =
     (let m = m(p := CHR 0x60);
          m = m(p + 1 := CHR 0x00, p + 2 := CHR 0x00, p + 3 := CHR 0x00);
          m = put16 (p + 4) 0 m;
          m = m(p + 7 := CHR 0xff);
          m = m(p + 6 := protocal);
          m = copy_bytes (p + 8) sip 16 m in
      copy_bytes (p + 24) dip 16 m)"

definition eth_set_hdr :: "ulong \<Rightarrow> ulong \<Rightarrow> ulong \<Rightarrow> u16 \<Rightarrow> bytes \<Rightarrow> bytes" where
  "eth_set_hdr p d s proto m = put16 (p + 12) (htons proto) (copy_bytes (p + 6) s 6 (copy_bytes p d 6 m))"

section \<open>The checksum as a number\<close>

text \<open>The sum of the bytes of an area as numbers of 16 bits, the first byte the high one.\<close>

abbreviation byte_at :: "bytes \<Rightarrow> ulong \<Rightarrow> nat" where "byte_at m a \<equiv> of_char (m a)"

fun word_sum :: "bytes \<Rightarrow> ulong \<Rightarrow> nat \<Rightarrow> nat" where
  "word_sum m a 0 = 0"
| "word_sum m a (Suc 0) = 256 * byte_at m a"
| "word_sum m a (Suc (Suc n)) = 256 * byte_at m a + byte_at m (a + 1) + word_sum m (a + 2) n"

lemma unat_char: "unat (of_char c :: u16) = of_char c" "unat (of_char c :: u32) = of_char c"
proof -
  have "(of_char c :: nat) < 65536" "(of_char c :: nat) < 4294967296"
    using nat_of_char_less_256 [of c] by linarith+
  then show "unat (of_char c :: u16) = of_char c" "unat (of_char c :: u32) = of_char c"
    unfolding of_nat_of_char [of c, symmetric, where ?'a = u16] of_nat_of_char [of c, symmetric, where ?'a = u32]
    by (simp_all add: unat_of_nat)
qed

lemma and_ff: "(x :: u16) AND 0xff = take_bit 8 x"
  by (simp add: take_bit_eq_mask mask_eq_exp_minus_1)

lemma swab16_parts: "swab16 x = push_bit 8 (take_bit 8 x) OR take_bit 8 (drop_bit 8 x)"
proof -
  have "drop_bit 8 (0xff00 :: u16) = 0xff" by simp
  then show ?thesis by (simp only: swab16_def drop_bit_and and_ff)
qed

lemma unat_swab16: "unat (swab16 x) = unat x mod 256 * 256 + unat x div 256"
proof -
  have "swab16 x = push_bit 8 (take_bit 8 x) + take_bit 8 (drop_bit 8 x)"
    unfolding swab16_parts by (rule disjunctive_add [symmetric]) (auto simp: bit_simps dest: bit_imp_le_length)
  moreover have "unat x < 65536" using unsigned_less [of x] by simp
  moreover have "unat x mod 256 * 256 + unat x div 256 < 65536"
    using \<open>unat x < 65536\<close> div_mult_mod_eq [of "unat x" 256] mod_less_divisor [of 256 "unat x"] by linarith
  ultimately show ?thesis
    by (simp add: unat_word_ariths push_bit_eq_mult drop_bit_eq_div take_bit_eq_mod unat_mod unat_div)
qed

lemma swab16_swab16 [simp]: "swab16 (swab16 x) = x"
proof -
  have "unat x < 65536" using unsigned_less [of x] by simp
  then have "unat (swab16 (swab16 x)) = unat x"
    unfolding unat_swab16 by (simp add: div_mult2_eq [symmetric] less_mult_imp_div_less)
  then show ?thesis by (simp only: word_unat_eq_iff)
qed

lemma unat_get16: "unat (get16 a m) = byte_at m a + 256 * byte_at m (a + 1)"
proof -
  have "take_bit 8 (of_char c :: u16) = of_char c" for c
    by (rule word_unat_eq_iff [THEN iffD2]) (simp add: take_bit_eq_mod unat_mod unat_char)
  then have "n < 8" if "bit (of_char c :: u16) n" for c n using that by (metis bit_take_bit_iff)
  then have "get16 a m = of_char (m a) + push_bit 8 (of_char (m (a + 1)))"
    unfolding get16_def by (intro disjunctive_add [symmetric]) (fastforce simp: bit_simps)
  moreover have "byte_at m a + byte_at m (a + 1) * 256 < 65536"
    using nat_of_char_less_256 [of "m a"] nat_of_char_less_256 [of "m (a + 1)"] by linarith
  ultimately show ?thesis by (simp add: unat_word_ariths push_bit_eq_mult unat_char)
qed

lemma unat_ntohs_get16: "unat (ntohs (get16 a m)) = 256 * byte_at m a + byte_at m (a + 1)"
  by (simp add: unat_swab16 unat_get16)

lemma unat_ntohs_byte: "unat (ntohs (of_char c)) = 256 * of_char c"
  by (simp add: unat_swab16 unat_char)

lemma char_of_uint: "of_char (char_of (uint (v :: u16))) = unat v mod (256 :: nat)"
  by (metis char_of_nat of_char_of uint_nat)

lemma put16_bytes:
  "byte_at (put16 a v m) a = unat v mod 256" "byte_at (put16 a v m) (a + 1) = unat v div 256"
  "b \<noteq> a \<Longrightarrow> b \<noteq> a + 1 \<Longrightarrow> put16 a v m b = m b"
proof -
  have "unat (v AND 0xff) = unat v mod 256" by (simp add: and_ff take_bit_eq_mod unat_mod)
  then show "byte_at (put16 a v m) a = unat v mod 256" by (simp add: put16_def char_of_uint)
  have "unat v < 65536" using unsigned_less [of v] by simp
  then show "byte_at (put16 a v m) (a + 1) = unat v div 256"
    by (simp add: put16_def char_of_uint drop_bit_eq_div unat_div) 
qed (simp add: put16_def)

lemma get16_put16: "get16 a (put16 a v m) = v"
  by (rule word_unat_eq_iff [THEN iffD2]) (simp add: unat_get16 put16_bytes)

text \<open>Folding keeps the rest modulo 65535, and gives 0 for 0 only.\<close>

lemma fold_sum_spec:
  "unat (fold_sum s) < 65536 \<and> unat (fold_sum s) mod 65535 = unat s mod 65535 \<and> (unat (fold_sum s) = 0 \<longleftrightarrow> unat s = 0)"
proof (induction s rule: fold_sum.induct)
  case (1 s)
  let ?t = "(s AND 0xffff) + drop_bit 16 s"
  have d: "unat (drop_bit 16 s) = unat s div 65536" by (simp add: drop_bit_eq_div unat_div)
  show ?case
  proof (cases "drop_bit 16 s = 0")
    case True
    then have "unat s div 65536 = 0" using d by simp
    then show ?thesis using True by (simp add: fold_sum.simps [of s] div_eq_0_iff)
  next
    case False
    have eq: "unat s = 65535 * (unat s div 65536) + unat ?t"
      using div_mult_mod_eq [of "unat s" 65536] fold_step [of s] by linarith
    then have "unat s mod 65535 = unat ?t mod 65535" by (metis mod_mult_self4)
    moreover have "unat ?t = 0 \<longleftrightarrow> unat s = 0" using eq fold_step [of s] by auto
    ultimately show ?thesis using 1 [OF False] False by (simp add: fold_sum.simps [of s])
  qed
qed

lemma unat_ucast16: "unat (ucast (w :: u16) :: u32) = unat w"
proof -
  have "unat w < 65536" using unsigned_less [of w] by simp
  then have "unat w < 4294967296" by linarith
  then show ?thesis by (simp add: unsigned_ucast_eq take_bit_eq_mod)
qed

lemma unat_add32: "unat (s :: u32) + unat t < 2 ^ 32 \<Longrightarrow> unat (s + t) = unat s + unat t"
  by (simp add: unat_word_ariths)

lemma unat_sum_words:
  "unat s + word_sum m a (unat n) < 2 ^ 32 \<Longrightarrow> unat (sum_words m s a n) = unat s + word_sum m a (unat n)"
proof (induction m s a n rule: sum_words.induct)
  case (1 m s a n)
  show ?case
  proof (cases "1 < n")
    case True
    let ?w = "ucast (ntohs (get16 a m)) :: u32"
    obtain k where k: "unat n = Suc (Suc k)" "unat (n - 2) = k"
    proof
      have "1 < unat n" using True by (simp add: word_less_nat_alt)
      then show "unat n = Suc (Suc (unat n - 2))" by simp
      show "unat (n - 2) = unat n - 2" using True by (simp add: unat_sub word_less_nat_alt word_le_nat_alt)
    qed
    have w: "unat (s + ?w) = unat s + (256 * byte_at m a + byte_at m (a + 1))"
      using 1(2) k by (subst unat_add32) (simp_all add: unat_ucast16 unat_ntohs_get16)
    then have "unat (sum_words m (s + ?w) (a + 2) (n - 2)) = unat (s + ?w) + word_sum m (a + 2) k"
      using 1(1) [OF True] 1(2) k by simp
    then show ?thesis using True w k by (simp add: sum_words.simps [of m s a n])
  next
    case False
    then have "unat n = 0 \<or> unat n = 1" by (auto simp: word_less_nat_alt)
    then have "n = 0 \<or> n = 1" by (auto simp: word_unat_eq_iff)
    then show ?thesis
    proof
      assume n: "n = 1"
      have "unat (s + ucast (ntohs (of_char (m a)))) = unat s + 256 * byte_at m a"
        using 1(2) n by (subst unat_add32) (simp_all add: unat_ucast16 unat_ntohs_byte)
      then show ?thesis by (simp add: n sum_words.simps [of m s a 1])
    qed (simp add: sum_words.simps)
  qed
qed

text \<open>The checksum is the complement of the folded sum.\<close>

lemma unat_checksum:
  assumes "unat s + word_sum m a (unat n) < 2 ^ 32"
  shows "unat (checksum s a n m) = 65535 - unat (fold_sum (sum_words m s a n))"
proof -
  let ?f = "fold_sum (sum_words m s a n)"
  have lt: "unat ?f < 65536" using fold_sum_spec by blast
  have "checksum s a n m = NOT (ucast ?f)"
    by (rule bit_word_eqI) (auto simp: checksum_def bit_simps)
  moreover have "unat (ucast ?f :: u16) = unat ?f" using lt by (simp add: unsigned_ucast_eq take_bit_eq_mod)
  moreover have "unat (NOT (w :: u16)) = 65535 - unat w" for w
  proof -
    have "NOT w = (- 1) - w" by (simp add: not_eq_complement)
    moreover have "unat (- 1 :: u16) = 65535" by (simp add: unsigned_minus_1_eq_mask mask_eq_exp_minus_1)
    ultimately show ?thesis using unat_sub [of w "- 1"] by (simp only: word_order.extremum)
  qed
  ultimately show ?thesis by simp
qed

lemma checksum_zero:
  assumes "unat s + word_sum m a (unat n) < 2 ^ 32" "0 < unat s + word_sum m a (unat n)"
    and "(unat s + word_sum m a (unat n)) mod 65535 = 0"
  shows "checksum s a n m = 0"
proof -
  let ?f = "fold_sum (sum_words m s a n)"
  have "unat ?f mod 65535 = 0" "unat ?f \<noteq> 0" "unat ?f < 65536"
    using fold_sum_spec [of "sum_words m s a n"] unat_sum_words [OF assms(1)] assms(2,3) by simp_all
  then have "unat ?f = 65535" by (auto elim!: dvdE simp: mod_eq_0_iff_dvd)
  then show ?thesis using unat_checksum [OF assms(1)] by (simp add: unat_eq_0)
qed

section \<open>Storing the checksum\<close>

text \<open>The sum looks at the bytes of the area only, and a store into a field of it changes the sum by the field.\<close>

lemma word_sum_frame: "(\<And>i. i < n \<Longrightarrow> m' (a + of_nat i) = m (a + of_nat i)) \<Longrightarrow> word_sum m' a n = word_sum m a n"
proof (induction m a n arbitrary: m' rule: word_sum.induct)
  case (2 m a)
  then show ?case using 2 [of 0] by simp
next
  case (3 m a n)
  have "m' (a + 2 + of_nat i) = m (a + 2 + of_nat i)" if "i < n" for i
    using 3(2) [of "Suc (Suc i)"] that by (simp add: add.assoc)
  then have "word_sum m' (a + 2) n = word_sum m (a + 2) n" by (rule 3(1))
  moreover have "m' a = m a" "m' (a + 1) = m (a + 1)" using 3(2) [of 0] 3(2) [of 1] by simp_all
  ultimately show ?case by simp
qed simp

lemma offset_eq:
  fixes a :: ulong
  assumes "i < 2 ^ 64" "j < 2 ^ 64"
  shows "a + of_nat i = a + of_nat j \<longleftrightarrow> i = j"
proof -
  have "unat (of_nat i :: ulong) = i" "unat (of_nat j :: ulong) = j" using assms by (simp_all add: unat_of_nat)
  then show ?thesis by (metis add_left_cancel)
qed

lemma put16_other:
  assumes "i < 2 ^ 63" "j < 2 ^ 63" "i \<noteq> j" "i \<noteq> Suc j"
  shows "put16 (a + of_nat j) v m (a + of_nat i) = m (a + of_nat i)"
proof (rule put16_bytes(3))
  show "a + of_nat i \<noteq> a + of_nat j" using assms offset_eq [of i j a] by auto
  have "a + of_nat j + 1 = a + of_nat (Suc j)" by (simp add: algebra_simps)
  then show "a + of_nat i \<noteq> a + of_nat j + 1" using assms offset_eq [of i "Suc j" a] by auto
qed

lemma word_sum_put16:
  assumes "Suc (2 * k) < n" "n < 2 ^ 63" "get16 (a + of_nat (2 * k)) m = 0"
  shows "word_sum (put16 (a + of_nat (2 * k)) (htons v) m) a n = word_sum m a n + unat v"
  using assms
proof (induction k arbitrary: a n)
  case 0
  then have n: "n = Suc (Suc (n - 2))" by simp
  let ?m = "put16 a (htons v) m"
  have "?m (a + 2 + of_nat i) = m (a + 2 + of_nat i)" if "i < n - 2" for i
    using put16_other [of "Suc (Suc i)" 0 a "htons v" m] that 0(2) by (simp add: add.assoc)
  then have "word_sum ?m (a + 2) (n - 2) = word_sum m (a + 2) (n - 2)" by (rule word_sum_frame)
  moreover have "256 * byte_at m a + byte_at m (a + 1) = 0" using 0(3) unat_get16 [of a m] by simp
  moreover have "256 * byte_at ?m a + byte_at ?m (a + 1) = unat v"
    using unat_ntohs_get16 [of a ?m] by (simp add: get16_put16)
  ultimately show ?case by (subst (1 2) n) simp
next
  case (Suc k)
  then have n: "n = Suc (Suc (n - 2))" by simp
  let ?m = "put16 (a + of_nat (2 * Suc k)) (htons v) m"
  have e: "a + of_nat (2 * Suc k) = a + 2 + of_nat (2 * k)" by (simp add: algebra_simps)
  have "?m (a + of_nat 0) = m (a + of_nat 0)" "?m (a + of_nat 1) = m (a + of_nat 1)"
    using Suc.prems(1,2) by (intro put16_other; simp)+
  moreover have "word_sum ?m (a + 2) (n - 2) = word_sum m (a + 2) (n - 2) + unat v"
    unfolding e using Suc.prems by (intro Suc.IH) (simp_all add: algebra_simps)
  ultimately show ?case by (subst (1 2) n) simp
qed

lemma word_sum_le: "2 * word_sum m a n \<le> 65535 * (n + 1)"
proof (induction m a n rule: word_sum.induct)
  case (2 m a)
  have "byte_at m a \<le> 255" using nat_of_char_less_256 [of "m a"] by linarith
  then show ?case by simp
next
  case (3 m a n)
  have "byte_at m a \<le> 255" "byte_at m (a + 1) \<le> 255"
    using nat_of_char_less_256 [of "m a"] nat_of_char_less_256 [of "m (a + 1)"] by linarith+
  with 3 show ?case by simp
qed simp

lemma checksum_closes:
  assumes field: "Suc (2 * k) < unat n" "unat n < 2 ^ 16" "get16 (a + of_nat (2 * k)) m = 0" and s: "unat s < 2 ^ 21"
  shows "checksum s a n (put16 (a + of_nat (2 * k)) (htons (checksum s a n m)) m) = 0"
proof -
  let ?c = "checksum s a n m" and ?S = "unat s + word_sum m a (unat n)"
  have lt: "?S + 65535 < 2 ^ 32" using word_sum_le [of m a "unat n"] field(2) s by simp
  let ?f = "unat (fold_sum (sum_words m s a n))"
  have f: "?f mod 65535 = ?S mod 65535" "?f < 65536" "?f = 0 \<longleftrightarrow> ?S = 0"
    using fold_sum_spec [of "sum_words m s a n"] unat_sum_words [of s m a n] lt by simp_all
  have c: "unat ?c = 65535 - ?f" using unat_checksum [of s m a n] lt by simp
  have sum: "unat s + word_sum (put16 (a + of_nat (2 * k)) (htons ?c) m) a (unat n) = ?S + (65535 - ?f)"
    using word_sum_put16 [OF field(1) _ field(3), of ?c] field(2) c by simp
  have "(?S + (65535 - ?f)) mod 65535 = (?f + (65535 - ?f)) mod 65535" using f(1) by (metis mod_add_left_eq)
  then have "(?S + (65535 - ?f)) mod 65535 = 0" using f(2) by simp
  moreover have "0 < ?S + (65535 - ?f)" using f(3) by auto
  moreover have "?S + (65535 - ?f) < 2 ^ 32" using lt by simp
  ultimately show ?thesis unfolding sum [symmetric] by (intro checksum_zero)
qed

lemma checksum_frame:
  assumes "unat n < 2 ^ 16" "unat s < 2 ^ 21" "\<And>i. i < unat n \<Longrightarrow> m' (a + of_nat i) = m (a + of_nat i)"
  shows "checksum s a n m' = checksum s a n m"
proof -
  have "word_sum m' a (unat n) = word_sum m a (unat n)" using assms(3) by (rule word_sum_frame)
  moreover have "unat s + word_sum m a (unat n) < 2 ^ 32" using word_sum_le [of m a "unat n"] assms(1,2) by simp
  ultimately have "sum_words m' s a n = sum_words m s a n"
    using unat_sum_words [of s m a n] unat_sum_words [of s m' a n] by (simp add: word_unat_eq_iff)
  then show ?thesis by (simp add: checksum_def)
qed

text \<open>Where a store lands, by the distance of the addresses.\<close>

lemma put16_at:
  "put16 a v m b = (if b - a = 0 then char_of (uint (v AND 0xff)) else if b - a = 1 then char_of (uint (drop_bit 8 v)) else m b)"
proof -
  have "b = a + 1 \<longleftrightarrow> b - a = 1" by (metis add_diff_cancel_left' diff_add_cancel add.commute)
  then show ?thesis by (simp add: put16_def)
qed

lemma get16_put16_other:
  assumes "b - a \<noteq> 0" "b - a \<noteq> 1" "b - a \<noteq> - 1"
  shows "get16 b (put16 a v m) = get16 b m"
proof -
  have "b + 1 - a = (b - a) + 1" by simp
  then have "b + 1 - a \<noteq> 0" "b + 1 - a \<noteq> 1" using assms(1,3) by (auto simp: eq_neg_iff_add_eq_0)
  then show ?thesis using assms(1,2) by (simp add: get16_def put16_at)
qed

lemma ip_hl_put16: "b - a \<noteq> 0 \<Longrightarrow> b - a \<noteq> 1 \<Longrightarrow> ip_hl b (put16 a v m) = ip_hl b m"
  by (simp add: ip_hl_def put16_at)

lemma unat_ip_hl: "unat (ip_hl p m) < 16" "unat (push_bit 2 (ip_hl p m)) = 4 * unat (ip_hl p m)"
proof -
  have "unat (ip_hl p m) = unat (of_char (m p) :: ulong) mod 16" using unat_and_mask [of _ 4] by (simp add: ip_hl_def)
  then show lt: "unat (ip_hl p m) < 16" by simp
  then show "unat (push_bit 2 (ip_hl p m)) = 4 * unat (ip_hl p m)" by (simp add: push_bit_eq_mult unat_word_ariths)
qed

lemma ip_set_checksum_closes:
  assumes "5 \<le> unat (ip_hl p m)"
  shows "checksum 0 p (push_bit 2 (ip_hl p m)) (ip_set_checksum p m) = 0"
proof -
  have hl: "ip_hl p (put16 (p + 10) 0 m) = ip_hl p m" by (simp add: ip_hl_put16)
  have "checksum 0 p (push_bit 2 (ip_hl p m)) (put16 (p + of_nat (2 * 5))
      (htons (checksum 0 p (push_bit 2 (ip_hl p m)) (put16 (p + 10) 0 m))) (put16 (p + 10) 0 m)) = 0"
    using assms unat_ip_hl [of p m] by (intro checksum_closes) (simp_all add: get16_put16)
  then show ?thesis by (simp add: ip_set_checksum_def hl Let_def)
qed

text \<open>The same for the checksum of UDP, with the length that the IP header states.\<close>

lemma unat_add_le32: "unat (s + t) \<le> unat (s :: u32) + unat t"
  by (simp add: unat_word_ariths)

lemma unat_parts:
  "unat (ucast (w :: u16) :: u32) \<le> 65535" "unat ((of_char c :: u32) AND 0xff) \<le> 255"
proof -
  have "unat w < 65536" using unsigned_less [of w] by simp
  then show "unat (ucast w :: u32) \<le> 65535" by (simp add: unat_ucast16)
  have "(of_char c :: u32) AND 0xff \<le> of_char c" by (rule word_and_le2)
  then have "unat ((of_char c :: u32) AND 0xff) \<le> of_char c" by (simp add: word_le_nat_alt unat_char)
  then show "unat ((of_char c :: u32) AND 0xff) \<le> 255" using nat_of_char_less_256 [of c] by linarith
qed

lemma unat_pseudo_sum: "unat len < 65536 \<Longrightarrow> unat (pseudo_sum p len m) < 2 ^ 21"
proof -
  assume "unat len < 65536"
  then have "unat (ucast len :: u32) \<le> 65535" by (simp add: unsigned_ucast_eq take_bit_eq_mod)
  moreover note unat_parts(1) [of "ntohs (get16 (p + 12) m)"] unat_parts(1) [of "ntohs (get16 (p + 14) m)"]
    unat_parts(1) [of "ntohs (get16 (p + 16) m)"] unat_parts(1) [of "ntohs (get16 (p + 18) m)"] unat_parts(2) [of "m (p + 9)"]
  ultimately have "unat (pseudo_sum p len m) \<le> 65535 + 65535 + 65535 + 65535 + 255 + 65535"
    unfolding pseudo_sum_def by (intro order_trans [OF unat_add_le32] add_mono) simp_all
  then show ?thesis by simp
qed

lemma ip_set_udp_checksum_closes:
  fixes udplen :: ulong
  assumes hl: "ip_hl p m = 5" and len: "ucast (ntohs (get16 (p + 2) m)) = udplen + 20" "8 \<le> unat udplen" "unat udplen < 2 ^ 16"
  shows "checksum (pseudo_sum p udplen m) (p + 20) udplen (ip_set_udp_checksum p m) = 0"
    and "b - p \<noteq> 26 \<Longrightarrow> b - p \<noteq> 27 \<Longrightarrow> ip_set_udp_checksum p m b = m b"
proof -
  let ?m = "put16 (p + 26) 0 m"
  have hl': "ip_hl p ?m = 5" using hl by (simp add: ip_hl_put16)
  have l: "get16 (p + 2) ?m = get16 (p + 2) m" by (simp add: get16_put16_other)
  have ps: "pseudo_sum p udplen ?m = pseudo_sum p udplen m"
    by (simp add: pseudo_sum_def get16_put16_other put16_at)
  have run: "ip_set_udp_checksum p m = put16 (p + 26) (htons (checksum (pseudo_sum p udplen m) (p + 20) udplen ?m)) ?m"
    using len(1) by (simp add: ip_set_udp_checksum_def hl hl' l ps Let_def add.assoc)
  have e: "p + 20 + of_nat (2 * 3) = p + 26" by simp
  then have z: "get16 (p + 20 + of_nat (2 * 3)) ?m = 0" by (simp only: get16_put16)
  have "checksum (pseudo_sum p udplen m) (p + 20) udplen
      (put16 (p + 20 + of_nat (2 * 3)) (htons (checksum (pseudo_sum p udplen m) (p + 20) udplen ?m)) ?m) = 0"
    using len(2,3) unat_pseudo_sum [of udplen p m] z by (intro checksum_closes) simp_all
  then show "checksum (pseudo_sum p udplen m) (p + 20) udplen (ip_set_udp_checksum p m) = 0"
    by (simp only: run e)
  assume "b - p \<noteq> 26" "b - p \<noteq> 27"
  then have "b \<noteq> p + 26" "b \<noteq> p + 27" by auto
  then show "ip_set_udp_checksum p m b = m b" by (simp add: run put16_def add.assoc)
qed

lemma ip_set_checksum_other: "b - p \<noteq> 10 \<Longrightarrow> b - p \<noteq> 11 \<Longrightarrow> ip_set_checksum p m b = m b"
proof -
  assume "b - p \<noteq> 10" "b - p \<noteq> 11"
  then have "b \<noteq> p + 10" "b \<noteq> p + 11" by auto
  then show ?thesis by (simp add: ip_set_checksum_def Let_def put16_def add.assoc)
qed

section \<open>Properties\<close>

text \<open>What \<open>udp_set_data\<close> leaves in the packet before it sets the checksums.\<close>

definition udp_filled :: "ulong \<Rightarrow> ulong \<Rightarrow> ulong \<Rightarrow> bytes \<Rightarrow> bytes" where
  "udp_filled p dat len m =
     put16 (p + 16) (htons (ucast (len + 28))) (put16 (p + 38) (htons (ucast (len + 8))) (inline_memcpy (p + 42) dat len m))"

lemma udp_set_data_steps:
  assumes "ip_hl (p + 14) m = 5" "unat len \<le> 65507"
  shows "udp_set_data p dat len m = ip_set_udp_checksum (p + 14) (ip_set_checksum (p + 14) (udp_filled p dat len m))"
    and "ip_hl (p + 14) (udp_filled p dat len m) = 5"
proof -
  have "unat (- 28 :: ulong) = 0xffffffffffffffe4" by simp
  then have c: "\<not> - 28 < len" using assms(2) by (simp add: word_less_nat_alt)
  then have "inline_memcpy (p + 42) dat len m (p + 14) = m (p + 14)" by (simp add: inline_memcpy_other)
  then have "ip_hl (p + 14) (inline_memcpy (p + 42) dat len m) = 5" using assms(1) by (simp add: ip_hl_def)
  then show "ip_hl (p + 14) (udp_filled p dat len m) = 5"
    and "udp_set_data p dat len m = ip_set_udp_checksum (p + 14) (ip_set_checksum (p + 14) (udp_filled p dat len m))"
    by (simp_all add: udp_filled_def ip_hl_put16 udp_set_data_def Let_def add.assoc)
qed

lemma get16_cong: "m' a = m a \<Longrightarrow> m' (a + 1) = m (a + 1) \<Longrightarrow> get16 a m' = get16 a m"
  by (simp add: get16_def)

lemma pseudo_sum_cong:
  assumes "\<And>d. d \<in> {9, 12, 13, 14, 15, 16, 17, 18, 19} \<Longrightarrow> m' (p + d) = m (p + d)"
  shows "pseudo_sum p len m' = pseudo_sum p len m"
  using assms by (simp add: pseudo_sum_def get16_def add.assoc)

lemma udp_filled_lengths:
  assumes "unat len \<le> 65507"
  shows "ntohs (get16 (p + 16) (udp_filled p dat len m)) = ucast (len + 28)"
    "ntohs (get16 (p + 38) (udp_filled p dat len m)) = ucast (len + 8)"
    "unat (ucast (len + 28) :: u16) = unat len + 28" "unat (ucast (len + 8) :: u16) = unat len + 8"
    "ucast (ucast (len + 28) :: u16) = len + 28"
proof -
  have "unat (len + 8) = unat len + 8" "unat (len + 28) = unat len + 28" using assms by (simp_all add: unat_word_ariths)
  then show u: "unat (ucast (len + 28) :: u16) = unat len + 28" "unat (ucast (len + 8) :: u16) = unat len + 8"
    using assms by (simp_all add: unsigned_ucast_eq take_bit_eq_mod)
  show "ntohs (get16 (p + 16) (udp_filled p dat len m)) = ucast (len + 28)"
    "ntohs (get16 (p + 38) (udp_filled p dat len m)) = ucast (len + 8)"
    by (simp_all add: udp_filled_def get16_put16 get16_put16_other)
  show "ucast (ucast (len + 28) :: u16) = len + 28"
    using u(1) \<open>unat (len + 28) = unat len + 28\<close> assms
    by (intro word_unat_eq_iff [THEN iffD2]) (simp add: unsigned_ucast_eq take_bit_eq_mod unat_mod)
qed

text \<open>The checksum of UDP is set after that of IP, and neither touches what the other covers.\<close>

lemma udp_checksums:
  fixes p dat :: ulong
  assumes "ip_hl (p + 14) m = 5" "unat len \<le> 65507"
  defines "h \<equiv> ip_set_checksum (p + 14) (udp_filled p dat len m)" and "u \<equiv> udp_set_data p dat len m"
  shows "u = ip_set_udp_checksum (p + 14) h" "ip_hl (p + 14) h = 5"
    "ucast (ntohs (get16 (p + 14 + 2) h)) = len + 8 + 20" "unat (len + 8) = unat len + 8"
proof -
  note steps = udp_set_data_steps [OF assms(1,2), of dat]
  show "u = ip_set_udp_checksum (p + 14) h" using steps(1) by (simp add: u_def h_def)
  show "ip_hl (p + 14) h = 5" using steps(2) by (simp add: h_def ip_hl_def ip_set_checksum_other)
  show "unat (len + 8) = unat len + 8" using assms(2) by (simp add: unat_word_ariths)
  have "get16 (p + 16) h = get16 (p + 16) (udp_filled p dat len m)"
    unfolding h_def by (intro get16_cong ip_set_checksum_other) (simp_all add: add.assoc)
  then show "ucast (ntohs (get16 (p + 14 + 2) h)) = len + 8 + 20"
    using udp_filled_lengths(1,2) [OF assms(2), of p dat m] udp_filled_lengths(5) [OF assms(2)] by (simp add: add.assoc)
qed

lemma udp_outside:
  assumes "ip_hl (p + 14) m = 5" "unat len \<le> 65507" "b - p \<notin> {24, 25, 40, 41}"
  shows "udp_set_data p dat len m b = udp_filled p dat len m b"
proof -
  have "b - (p + 14) = (b - p) - 14" by simp
  then have "b - (p + 14) \<notin> {10, 11, 26, 27}" using assms(3) by (auto simp: diff_eq_eq)
  then show ?thesis
    using ip_set_udp_checksum_closes(2) [OF udp_checksums(2,3) [OF assms(1,2), of dat], of b]
      ip_set_checksum_other [of b "p + 14"] udp_checksums(1) [OF assms(1,2), of dat] udp_checksums(4) [OF assms(1,2)] assms(2) by simp
qed

lemma udp_filled_other:
  assumes "\<not> b - (p + 42) < len" "b - p \<notin> {16, 17, 38, 39}"
  shows "udp_filled p dat len m b = m b"
proof -
  have "b - (p + 16) = b - p - 16" "b - (p + 38) = b - p - 38" by simp_all
  then show ?thesis using assms by (auto simp: udp_filled_def put16_at inline_memcpy_other diff_eq_eq add.commute)
qed

lemma udp_filled_data: "unat len \<le> 65507 \<Longrightarrow> b - (p + 42) < len \<Longrightarrow>
    b - p \<notin> {16, 17, 24, 25, 38, 39, 40, 41} \<and> udp_filled p dat len m b = inline_memcpy (p + 42) dat len m b"
proof -
  assume len: "unat len \<le> 65507" and b: "b - (p + 42) < len"
  let ?d = "b - (p + 42)"
  have d: "unat ?d < 65507" using len b by (simp add: word_less_nat_alt)
  have "unat (?d + 42) = unat ?d + unat (42 :: ulong)" by (rule unat_add_no_wrap) (use d in simp)
  moreover have "?d + 42 = b - p" by simp
  ultimately have ge: "42 \<le> unat (b - p)" by simp
  then have n: "b - p \<notin> {16, 17, 24, 25, 38, 39, 40, 41}" by auto
  moreover have "b - (p + 16) = b - p - 16" "b - (p + 38) = b - p - 38" by simp_all
  ultimately show ?thesis by (auto simp: udp_filled_def put16_at diff_eq_eq)
qed

text \<open>
  C38: \<open>udp_set_data\<close> on a packet with an IP header of 20 bytes and at most 65507 bytes of data makes a packet that a receiver accepts: the
  lengths of IP and UDP are those of the data with the headers, the checksum over the IP header is 0, the checksum over the pseudo
  header, the UDP header and the data is 0, the data are those of the caller where the caller's
  area does not overlap the packet's, and no byte but the data, the two lengths and the two checksums changes.
\<close>

theorem udp_set_data_valid:
  assumes "ip_hl (p + 14) m = 5" "unat len \<le> 65507"
  shows "unat (ntohs (get16 (p + 16) (udp_set_data p dat len m))) = unat len + 28 \<and>
    unat (ntohs (get16 (p + 38) (udp_set_data p dat len m))) = unat len + 8 \<and>
    checksum 0 (p + 14) 20 (udp_set_data p dat len m) = 0 \<and>
    checksum (pseudo_sum (p + 14) (len + 8) (udp_set_data p dat len m)) (p + 34) (len + 8) (udp_set_data p dat len m) = 0 \<and>
    (areas_apart (p + 42) dat len \<longrightarrow> (\<forall>b. b - (p + 42) < len \<longrightarrow> udp_set_data p dat len m b = m (dat + (b - (p + 42))))) \<and>
    (\<forall>b. \<not> b - (p + 42) < len \<longrightarrow> b - p \<notin> {16, 17, 24, 25, 38, 39, 40, 41} \<longrightarrow> udp_set_data p dat len m b = m b)"
  (is "?ip \<and> ?udp \<and> ?iphdr \<and> ?payload \<and> ?data \<and> ?other")
proof -
  let ?f = "udp_filled p dat len m" and ?u = "udp_set_data p dat len m"
  let ?h = "ip_set_checksum (p + 14) ?f"
  note out = udp_outside [OF assms, of _ dat] and lens = udp_filled_lengths(1,2) [OF assms(2), of p dat m] udp_filled_lengths(3-5) [OF assms(2)]
  note cs = udp_checksums(1-3) [OF assms, of dat] udp_checksums(4) [OF assms]
  have "get16 (p + 16) ?u = get16 (p + 16) ?f" "get16 (p + 38) ?u = get16 (p + 38) ?f"
    by (intro get16_cong out; simp add: add.assoc)+
  then have lengths: ?ip ?udp using lens by simp_all
  have u8: "8 \<le> unat (len + 8)" "unat (len + 8) < 2 ^ 16" using cs(4) assms(2) by simp_all
  note udp = ip_set_udp_checksum_closes [OF cs(2,3) u8]
  have "?u (p + 14 + of_nat i) = ?h (p + 14 + of_nat i)" if "i < unat (20 :: ulong)" for i
  proof -
    have "unat (of_nat i :: ulong) = i" using that by (simp add: unat_of_nat)
    then have "(of_nat i :: ulong) \<noteq> 26" "(of_nat i :: ulong) \<noteq> 27" using that by auto
    then show ?thesis unfolding cs(1) by (intro udp(2)) simp_all
  qed
  then have "checksum 0 (p + 14) 20 ?u = checksum 0 (p + 14) 20 ?h" by (intro checksum_frame) simp_all
  then have iphdr: ?iphdr
    using ip_set_checksum_closes [of "p + 14" ?f] udp_set_data_steps(2) [OF assms, of dat] by simp
  have "pseudo_sum (p + 14) (len + 8) ?u = pseudo_sum (p + 14) (len + 8) ?h"
    unfolding cs(1) by (rule pseudo_sum_cong, rule udp(2)) auto
  then have payload: ?payload using udp(1) unfolding cs(1) by (simp add: add.assoc)
  have data: ?data using udp_filled_data [OF assms(2)] out by (simp add: inline_memcpy_apart copy_bytes_def)
  have other: ?other using out udp_filled_other by simp
  show ?thesis using lengths iphdr payload data other by blast
qed

lemma ip_init_hdr_hl: "ip_hl p (ip_init_hdr p dip sip c m) = 5"
proof -
  have "\<not> (- 16 :: ulong) < 4" "\<not> (- 12 :: ulong) < 4" by (simp_all add: word_less_nat_alt)
  then show ?thesis by (simp add: ip_hl_def ip_init_hdr_def Let_def copy_bytes_def put16_at)
qed

theorem udp_set_data_valid_witness:
  "checksum 0 0x100E 20 (udp_set_data 0x1000 0x4000 3 (ip_init_hdr 0x100E 0x3000 0x2000 (CHR 0x11) (\<lambda>_. CHR 0x07))) = 0 \<and>
   udp_set_data 0x1000 0x4000 3 (ip_init_hdr 0x100E 0x3000 0x2000 (CHR 0x11) (\<lambda>_. CHR 0x07)) 0x102C =
     ip_init_hdr 0x100E 0x3000 0x2000 (CHR 0x11) (\<lambda>_. CHR 0x07) 0x4002"
proof -
  have "\<not> 0x4000 + x - 0x102A < (3 :: ulong)" if "x < 3" for x :: ulong
    using that unfolding word_less_nat_alt by (simp add: unat_sub_if' unat_word_ariths)
  then have "areas_apart (0x1000 + 42) 0x4000 3" by (simp add: areas_apart_def)
  moreover note udp_set_data_valid [of "0x1000" "ip_init_hdr 0x100E 0x3000 0x2000 (CHR 0x11) (\<lambda>_. CHR 0x07)" 3 "0x4000"]
    ip_init_hdr_hl [of "0x100E"]
  ultimately show ?thesis by simp
qed

section \<open>IPv6\<close>

lemma unat_add_words: "unat (add_words n a c m) \<le> unat c + n * 65535"
proof (induction n arbitrary: a c)
  case (Suc n)
  have "unat (c + ucast (ntohs (get16 a m))) \<le> unat c + 65535"
    using unat_add_le32 [of c "ucast (ntohs (get16 a m))"] unat_parts(1) [of "ntohs (get16 a m)"] by linarith
  then show ?case using Suc.IH [of "a + 2" "c + ucast (ntohs (get16 a m))"] by simp
qed simp

lemma add_words_cong:
  "(\<And>i. i < 2 * n \<Longrightarrow> m' (a + of_nat i) = m (a + of_nat i)) \<Longrightarrow> add_words n a c m' = add_words n a c m"
proof (induction n arbitrary: a c)
  case (Suc n)
  have "m' (a + 2 + of_nat i) = m (a + 2 + of_nat i)" if "i < 2 * n" for i
    using Suc.prems [of "i + 2"] that by (simp add: algebra_simps)
  moreover have "get16 a m' = get16 a m" using Suc.prems [of 0] Suc.prems [of 1] by (simp add: get16_def)
  ultimately show ?case by (simp add: Suc.IH)
qed simp

lemma unat_pseudo_sum6: "unat len < 65536 \<Longrightarrow> unat (pseudo_sum6 p len m) < 2 ^ 21"
proof -
  assume "unat len < 65536"
  then have "unat (ucast len :: u32) \<le> 65535" by (simp add: unsigned_ucast_eq take_bit_eq_mod)
  moreover note unat_add_words [of 16 "p + 8" 0 m] unat_parts(2) [of "m (p + 6)"]
  ultimately have "unat (pseudo_sum6 p len m) \<le> 16 * 65535 + 255 + 65535"
    unfolding pseudo_sum6_def by (intro order_trans [OF unat_add_le32] add_mono) simp_all
  then show ?thesis by simp
qed

lemma pseudo_sum6_cong:
  assumes "\<And>i. i < 40 \<Longrightarrow> m' (p + of_nat i) = m (p + of_nat i)"
  shows "pseudo_sum6 p len m' = pseudo_sum6 p len m"
proof -
  have "m' (p + 8 + of_nat i) = m (p + 8 + of_nat i)" if "i < 2 * 16" for i
    using assms [of "i + 8"] that by (simp add: algebra_simps)
  then have "add_words 16 (p + 8) 0 m' = add_words 16 (p + 8) 0 m" by (rule add_words_cong)
  then show ?thesis using assms [of 6] by (simp add: pseudo_sum6_def)
qed

lemma ip_set_udp6_checksum_closes:
  fixes udplen :: ulong
  assumes len: "ucast (ntohs (get16 (p + 4) m)) = udplen" "8 \<le> unat udplen" "unat udplen < 2 ^ 16"
  defines "u \<equiv> ip_set_udp6_checksum p m"
  shows "checksum (pseudo_sum6 p udplen u) (p + 40) udplen u = 0"
    and "b - p \<noteq> 46 \<Longrightarrow> b - p \<noteq> 47 \<Longrightarrow> u b = m b"
proof -
  let ?m = "put16 (p + 46) 0 m"
  have below: "put16 (p + 46) v m' (p + of_nat i) = m' (p + of_nat i)" if "i < 40" for i v m'
    using put16_other [of i 46 p v m'] that by simp
  have ps: "pseudo_sum6 p udplen (put16 (p + 46) v m') = pseudo_sum6 p udplen m'" for v m'
    by (rule pseudo_sum6_cong) (rule below)
  have l: "get16 (p + 4) ?m = get16 (p + 4) m" by (simp add: get16_put16_other)
  have run: "u = put16 (p + 46) (htons (checksum (pseudo_sum6 p udplen m) (p + 40) udplen ?m)) ?m"
    using len(1) by (simp add: u_def ip_set_udp6_checksum_def l ps Let_def add.assoc)
  have e: "p + 40 + of_nat (2 * 3) = p + 46" by simp
  then have z: "get16 (p + 40 + of_nat (2 * 3)) ?m = 0" by (simp only: get16_put16)
  have "checksum (pseudo_sum6 p udplen m) (p + 40) udplen
      (put16 (p + 40 + of_nat (2 * 3)) (htons (checksum (pseudo_sum6 p udplen m) (p + 40) udplen ?m)) ?m) = 0"
    using len(2,3) unat_pseudo_sum6 [of udplen p m] z by (intro checksum_closes) simp_all
  then show "checksum (pseudo_sum6 p udplen u) (p + 40) udplen u = 0" by (simp only: run e ps)
  assume "b - p \<noteq> 46" "b - p \<noteq> 47"
  then have "b \<noteq> p + 46" "b \<noteq> p + 47" by auto
  then show "u b = m b" by (simp add: run put16_def add.assoc)
qed

text \<open>
  The same for IPv6: the lengths are those of the data with the UDP header, the checksum over both addresses, the protocol, the
  length, the UDP header and the data is 0, and the data are those of the caller.
\<close>

theorem udp6_set_data_valid:
  assumes "unat len \<le> 65527"
  shows "unat (ntohs (get16 (p + 18) (udp6_set_data p dat len m))) = unat len + 8 \<and>
    unat (ntohs (get16 (p + 58) (udp6_set_data p dat len m))) = unat len + 8 \<and>
    checksum (pseudo_sum6 (p + 14) (len + 8) (udp6_set_data p dat len m)) (p + 54) (len + 8) (udp6_set_data p dat len m) = 0"
proof -
  let ?l = "htons (ucast (len + 8))"
  let ?f = "put16 (p + 18) ?l (put16 (p + 58) ?l (inline_memcpy (p + 62) dat len m))"
  let ?u = "udp6_set_data p dat len m"
  have u: "?u = ip_set_udp6_checksum (p + 14) ?f" by (simp add: udp6_set_data_def Let_def get16_put16)
  have u8: "unat (len + 8) = unat len + 8" using assms by (simp add: unat_word_ariths)
  then have v: "unat (ucast (len + 8) :: u16) = unat len + 8" using assms by (simp add: unsigned_ucast_eq take_bit_eq_mod)
  have f: "get16 (p + 18) ?f = ?l" "get16 (p + 58) ?f = ?l" by (simp_all add: get16_put16 get16_put16_other)
  have "ucast (ucast (len + 8) :: u16) = len + 8"
    using u8 v assms by (intro word_unat_eq_iff [THEN iffD2]) (simp add: unsigned_ucast_eq take_bit_eq_mod unat_mod)
  then have "ucast (ntohs (get16 (p + 14 + 4) ?f)) = len + 8" using f by (simp add: add.assoc)
  note closes = ip_set_udp6_checksum_closes [OF this]
  have "get16 (p + 18) ?u = get16 (p + 18) ?f" "get16 (p + 58) ?u = get16 (p + 58) ?f"
    unfolding u using u8 assms by (intro get16_cong closes(2); simp add: add.assoc)+
  then show ?thesis using f v closes(1) u8 assms unfolding u by (simp add: add.assoc)
qed

theorem udp6_set_data_valid_witness:
  "unat (ntohs (get16 0x1012 (udp6_set_data 0x1000 0x4000 3 (\<lambda>_. CHR 0x07)))) = 11"
  using udp6_set_data_valid [of 3 "0x1000" "0x4000" "\<lambda>_. CHR 0x07"] by simp

end
