(* ===== verification/Spec2Isabelle.thy ===== *)
theory Spec2Isabelle
  imports Kheap Pgtable_Correct Timer Mktime Tasklet Slub_Large Start_Kernel Virtio_Runs Printk_Calls Boot_Regions Udp_Ip
begin

text \<open>
  A verification library for \<^emph>\<open>yaos\<close>, a kernel for x86-64 with one address space that runs modules
  in kernel mode. The repository holds one directory per stage of the kernel; the development
  follows the last one, \<open>src/0027\<close>, and every file name below is relative to it.

  \<^bold>\<open>The parts and how they interact.\<close> Memory is managed in layers. \<open>arch/x86_64/phymem.c\<close>
  hands out 2M pages from a bitmap; \<open>kernel/phy_page.c\<close> cuts them into blocks of 4K
  pages; \<open>kernel/kheap.c\<close> is the heap of the kernel itself over the same bitmap; \<open>kernel/vm.c\<close> manages
  zones of virtual addresses, and \<open>arch/x86_64/pgtable.c\<close> the page tables that back them.
  Modules reach these through the call table of \<open>kernel/yaoscall.c\<close> and \<open>kernel/yaos_page.c\<close>; one of
  the modules, \<open>module/mm/slub.c\<close>, provides \<open>malloc\<close> and \<open>free\<close> and registers them in the
  same table. \<open>kernel/kthread.c\<close> switches between threads, which wait with polls and timers
  (\<open>kernel/timer.c\<close>); timers run in a soft interrupt (\<open>kernel/softirq.c\<close>), as do tasklets
  (\<open>kernel/tasklet.c\<close>). \<open>kernel/main.c\<close> starts the processors through levels of initcalls, one of which loads the
  modules of \<open>kernel/module.c\<close>; drivers talk to devices through the rings of \<open>libs/libvirtio\<close>. Everything reports through \<open>printk\<close>, which formats
  into a buffer and writes it to the screen and the serial line.

  \<^bold>\<open>Conventions of the model.\<close> A C function is a definition of the same name that takes its arguments
  and the state of its component and returns an outcome (\<open>Yaos_Prelude\<close>): a value with the new
  state, or the fault that keeps it from returning (a failed assertion, \<open>panic\<close>, a NULL
  dereference, a lock taken twice, a loop that does not end, a call the model does not follow). Machine integers are words of their
  width, so addresses and sizes wrap as they do in C. Static arrays of nodes with pointers
  between them are records of a function from indexes and optional indexes; lists that are threaded through memory are
  functions from addresses to words. A loop that may not end is a \<open>partial_function\<close> in the option type, and where
  a theorem says that an operation returns, this is part of what is proved; no fuel is used anywhere.
  The model is that of one processor: locks are taken and released as the code does, and taking
  a lock that is held is a fault. Two components are modelled with several parties: the processors during the start,
  and a driver with its device.

  \<^bold>\<open>Theories.\<close>

  \<^item> \<open>Yaos_Prelude\<close>: machine types, outcomes, assertions, spin locks, alignment and address ranges.
  \<^item> \<open>Ptr_List\<close>, \<open>Hole_List\<close>: linked lists of array nodes, and the list of holes that
    \<open>phy_page.c\<close>, \<open>kheap.c\<close> and \<open>vm.c\<close> share (search, carve, merge, sorted insertion).
  \<^item> \<open>Range_Alloc\<close>: the locale \<open>range_allocator\<close>, the contract of an allocator of address ranges, and
    what follows from it for every run: blocks in use never overlap and no byte is lost. It is interpreted
    on the 4K page allocator, on the kernel heap and on the zones.
  \<^item> \<open>Memory_Layout\<close> (\<open>asm/pgtable.h\<close>): regions and address conversions, which are inverse.
  \<^item> \<open>Phymem\<close>, \<open>Phy_page\<close>, \<open>Kheap\<close>: the allocators of physical memory and of the kernel heap, with
    their invariants, the result of every branch, and the faults the code has.
  \<^item> \<open>Vm_Zone\<close>, \<open>Vm\<close>: the zones of \<open>vm.c\<close>, the registered stacks, and virtual memory.
  \<^item> \<open>Pgtable\<close>, \<open>Pgtable_Correct\<close>: the page tables as they lie in memory, the walk of the processor, and
    that mapping and unmapping change exactly the translations they should.
  \<^item> \<open>List_Head\<close> (\<open>include/yaos/list.h\<close>): circular doubly linked lists refine lists.
  \<^item> \<open>Kthread\<close>: threads; the switches refine a stack of threads, polls end when the handlers
    leave the links alone, and the ways waking fails.
  \<^item> \<open>Timer\<close>, \<open>Mktime\<close>: the timer list, its soft interrupt, the timers that threads poll, and the callbacks of
    the clock tick and of \<open>nsleep\<close>; calendar time.
  \<^item> \<open>Softirq\<close>, \<open>Tasklet\<close>: the rounds of pending soft interrupts whose actions may raise others, and the two queues of tasklets with the
    locales \<open>fifo\<close> and \<open>tasklet_queue\<close> for what the queues promise.
  \<^item> \<open>Yaos_Page\<close>: the call table, the calls for memory and their wrappers.
  \<^item> \<open>Slub\<close>, \<open>Slub_Parts\<close>, \<open>Slub_Correct\<close>, \<open>Slub_Runs\<close>, \<open>Slub_Large\<close>: the allocator of small objects,
    its parts, its invariant, its runs with arbitrary writes of the owners, and blocks of more than a page.

  \<^item> \<open>Module\<close>: the module table, loading on the boot processor and on the others, later start-up events.
  \<^item> \<open>Start_Kernel\<close> (\<open>kernel/main.c\<close>): the initcalls of all processors as a step relation over their
    interleavings; the init sections are freed only when all of them are past their levels, and the start ends.
  \<^item> \<open>Virtio\<close>, \<open>Virtio_Queue\<close>, \<open>Virtio_Return\<close>, \<open>Virtio_Setup\<close>, \<open>Virtio_Runs\<close> (\<open>libs/libvirtio\<close>): the rings shared with a
    device; free descriptors and the chains of the device divide the ring, posting and taking refine a
    bag of buffers over every interleaving of driver and device, and the rings are set up in that state; reading a queue delivers
    every returned buffer to the callback, also to that of \<open>module/net/virtio/virtio_net.c\<close>.
  \<^item> \<open>C_String\<close> (\<open>arch/x86_64/string64.c\<close>, \<open>asm/string.h\<close>): strings in a memory of bytes; lengths, comparisons, search and numbers
    agree with lists of characters. The inline \<open>memcpy\<close> copies in moves of four bytes from low to high addresses and
    is a plain copy when the areas do not overlap.
  \<^item> \<open>Printk\<close>, \<open>Printk_Number\<close>, \<open>Printk_Format\<close>, \<open>Printk_Correct\<close> (\<open>kernel/printk.c\<close>): formatted output as the code does it, the text of
    numbers, formats as lists of items with the text they stand for, and that \<open>vsprintf\<close> leaves this text.
  \<^item> \<open>Console\<close>, \<open>Printk_Calls\<close> (\<open>arch/x86_64/vgaoutput.c\<close>, \<open>arch/x86_64/uart.c\<close>): screen and serial line, the printing calls and the
    dumps of memory; what \<open>printk\<close> prints arrives, and a line that never appears.
  \<^item> \<open>Boot_Memory\<close>, \<open>Boot_Free\<close>, \<open>Boot_Regions\<close> (\<open>arch/x86_64/multiboot.c\<close>): the memory map of the boot loader, its cutting around the
    reserved ranges, the release of what remains to the allocators and the mapping of device memory; the cutting is exact, the release of a
    piece is correct in three cases and frees memory twice in the fourth.
  \<^item> \<open>Udp_Ip\<close> (\<open>libs/net/ip.c\<close>, \<open>libs/net/udp.c\<close>): headers, lengths and checksums of UDP packets in a memory of bytes; a finished packet
    passes the checks of a receiver, for IPv4 and for IPv6.

  \<^bold>\<open>Code behind function pointers.\<close> Callbacks of timers and queues, actions of soft interrupts, tasklets and handlers of modules are
  arguments of the definitions that call them. What a theorem needs of them is a named predicate: \<open>timer_callbacks\<close> (they return, may set timers but remove none, and
  leave alone the timers that are being run or have to be polled), \<open>queue_callbacks\<close> (they return with the device in order, may post, do not take),
  \<open>softirq_actions\<close> (they return and may raise soft interrupts that have an action). The callbacks of the clock tick, which set themselves again, and the
  receive callback of the network driver are shown to satisfy these predicates.

  \<^bold>\<open>Not modelled.\<close> The vendored libraries (lwIP, LuaJIT, musl, lua-cjson, nginx headers) and what only
  glues them to the kernel (the HTTP server, the Lua bindings); assembly (boot, traps, context
  switch, the memory functions of \<open>arch/x86_64/lib\<close>); programming of devices (ACPI, APIC, HPET, PCI, IDE), whose behaviour is that of hardware; interleavings of several processors inside the allocators and the scheduler. Of modelled
  components, calls that print for debugging are left out, and so is the construction of the first page tables, \<open>init_pml4\<close>.
\<close>

end
